(* ===== verification/Prelude.thy ===== *)
theory Prelude
  imports Main "HOL-Library.Word" "HOL-Library.Monad_Syntax"
begin

text \<open>
  Shared vocabulary of the development.

  \<^item> Machine integers: \<open>u8\<close>, \<open>u16\<close>, \<open>u32\<close> and \<open>u64\<close> are words of
    \<open>HOL-Library.Word\<close>, with the wrap-around of C's unsigned types (\<open>header/types.h\<close>).
  \<^item> Kernel routines that can stop for good are option-valued: \<open>None\<close> means that control
    never comes back to the caller, because of \<open>kpanic\<close>, a failed \<open>assert\<close>, a
    dereference of \<open>NULL\<close> or of an address that holds no object, an index outside an
    array, or a loop that does not end.  An ordinary error return of the source is a value.
  \<^item> Generic facts on lists, options and words that the component theories share.
\<close>

unbundle bit_operations_syntax

type_synonym u8 = "8 word"
type_synonym u16 = "16 word"
type_synonym u32 = "32 word"
type_synonym u64 = "64 word"

named_theorems kernel_simps \<open>unfolding rules for the kernel's small inline helpers\<close>
named_theorems frame_simps \<open>an update outside the footprint of a heap predicate is invisible\<close>

subsection \<open>Control: assertions, checked array accesses\<close>

text \<open>\<open>assert(exp, message)\<close> of \<open>kernel/header/lib/stdlib.h\<close>: a false condition panics.\<close>

definition kassert :: "bool \<Rightarrow> unit option" where
  "kassert b = (if b then Some () else None)"

text \<open>A read and a write of an array cell; an index outside the array has no C meaning.\<close>

definition aget :: "'a list \<Rightarrow> nat \<Rightarrow> 'a option" where
  "aget xs i = (if i < length xs then Some (xs ! i) else None)"

definition aset :: "'a list \<Rightarrow> nat \<Rightarrow> 'a \<Rightarrow> 'a list option" where
  "aset xs i v = (if i < length xs then Some (xs[i := v]) else None)"

text \<open>Taking a successful sequence of steps apart.\<close>

lemma bind_SomeE:
  assumes "Option.bind m f = Some y"
  obtains a where "m = Some a" "f a = Some y"
  using assms by (auto simp: Option.bind_eq_Some_conv)

lemma kassert_True [simp]: "kassert True = Some ()"
  by (simp add: kassert_def)

lemma kassert_False [simp]: "kassert False = None"
  by (simp add: kassert_def)

lemma kassert_eq_Some [simp]: "kassert b = Some u \<longleftrightarrow> b"
  by (simp add: kassert_def)

lemma aget_in [simp]: "i < length xs \<Longrightarrow> aget xs i = Some (xs ! i)"
  by (simp add: aget_def)

lemma aget_out [simp]: "\<not> i < length xs \<Longrightarrow> aget xs i = None"
  by (simp add: aget_def)

lemma aset_in [simp]: "i < length xs \<Longrightarrow> aset xs i v = Some (xs[i := v])"
  by (simp add: aset_def)

lemma aset_out [simp]: "\<not> i < length xs \<Longrightarrow> aset xs i v = None"
  by (simp add: aset_def)

lemma aget_eq_Some: "aget xs i = Some v \<longleftrightarrow> i < length xs \<and> xs ! i = v"
  by (simp add: aget_def)

lemma aset_eq_Some: "aset xs i v = Some ys \<longleftrightarrow> i < length xs \<and> ys = xs[i := v]"
  by (auto simp: aset_def)

text \<open>A loop over a list whose body may not come back.\<close>

fun fold_opt :: "('a \<Rightarrow> 's \<Rightarrow> 's option) \<Rightarrow> 'a list \<Rightarrow> 's \<Rightarrow> 's option" where
  "fold_opt f [] s = Some s"
| "fold_opt f (x # xs) s = Option.bind (f x s) (fold_opt f xs)"

lemmas option_steps = Option.bind_eq_Some_conv aget_eq_Some aset_eq_Some

subsection \<open>Pages and alignment\<close>

definition PG_SIZE :: nat where
  "PG_SIZE = 4096"

definition PG_SHIFT :: nat where
  "PG_SHIFT = 12"

text \<open>The macros \<open>ROUNDUP_WITH\<close>, \<open>ROUNDDOWN_WITH\<close>, \<open>PG_ROUNDUP\<close> and
  \<open>PG_ROUNDDOWN\<close> of \<open>kernel/header/memory.h\<close>, on 64-bit values.  The mask
  \<open>~((s)-1)\<close> of an \<open>int\<close> constant is sign extended to 64 bits, which is the
  64-bit complement.\<close>

definition ROUNDUP_WITH :: "u64 \<Rightarrow> u64 \<Rightarrow> u64" where
  "ROUNDUP_WITH s a = (a + s - 1) AND NOT (s - 1)"

definition ROUNDDOWN_WITH :: "u64 \<Rightarrow> u64 \<Rightarrow> u64" where
  "ROUNDDOWN_WITH s a = a AND NOT (s - 1)"

definition PG_ROUNDUP :: "u64 \<Rightarrow> u64" where
  "PG_ROUNDUP sz = (sz + 4096 - 1) AND NOT (4096 - 1)"

definition PG_ROUNDDOWN :: "u64 \<Rightarrow> u64" where
  "PG_ROUNDDOWN a = a AND NOT (4096 - 1)"

lemma PG_SIZE_pos [simp]: "0 < PG_SIZE"
  by (simp add: PG_SIZE_def)

lemma and_not_mask_word:
  fixes a :: "'a :: len word"
  shows "a AND NOT (mask n) = push_bit n (drop_bit n a)"
  by (rule bit_word_eqI) (auto simp: bit_simps)

lemma unat_push_drop:
  fixes a :: "'a :: len word"
  shows "unat (push_bit n (drop_bit n a)) = unat a div 2 ^ n * 2 ^ n"
proof -
  have "unat a div 2 ^ n * 2 ^ n \<le> unat a" by simp
  then have "unat a div 2 ^ n * 2 ^ n < 2 ^ LENGTH('a)"
    by (rule le_less_trans) simp
  then show ?thesis
    by (simp only: unsigned_push_bit_eq unat_drop_bit_eq)
      (simp add: push_bit_eq_mult drop_bit_eq_div take_bit_eq_mod)
qed

lemma unat_ROUNDDOWN_pow2:
  "unat (ROUNDDOWN_WITH (2 ^ n) a) = unat a div 2 ^ n * 2 ^ n"
proof -
  have "(2 :: u64) ^ n - 1 = mask n" by (simp add: mask_eq_exp_minus_1)
  then show ?thesis
    by (simp add: ROUNDDOWN_WITH_def and_not_mask_word unat_push_drop)
qed

lemma PG_ROUNDDOWN_eq: "PG_ROUNDDOWN a = ROUNDDOWN_WITH (2 ^ 12) a"
  by (simp add: PG_ROUNDDOWN_def ROUNDDOWN_WITH_def)

lemma PG_ROUNDUP_eq: "PG_ROUNDUP a = ROUNDUP_WITH (2 ^ 12) a"
  by (simp add: PG_ROUNDUP_def ROUNDUP_WITH_def)

lemma unat_PG_ROUNDDOWN: "unat (PG_ROUNDDOWN a) = unat a div 4096 * 4096"
  using unat_ROUNDDOWN_pow2 [of 12 a] by (simp add: PG_ROUNDDOWN_eq)

lemma unat_PG_ROUNDUP_small: "unat a + 4095 < 2 ^ 64 \<Longrightarrow> unat (PG_ROUNDUP a) = (unat a + 4095) div 4096 * 4096"
  using unat_ROUNDDOWN_pow2 [of 12 "a + 4095"] by (simp add: PG_ROUNDUP_def ROUNDDOWN_WITH_def unat_word_ariths add.commute [of 4095])

lemma unat_ROUNDUP_512: "unat a + 511 < 2 ^ 64 \<Longrightarrow> unat (ROUNDUP_WITH 512 a) = (unat a + 511) div 512 * 512"
  using unat_ROUNDDOWN_pow2 [of 9 "a + 511"] by (simp add: ROUNDUP_WITH_def ROUNDDOWN_WITH_def unat_word_ariths add.commute [of 511])

lemma unat_ucast_u32 [simp]: "unat (ucast (s :: u32) :: u64) = unat s"
proof -
  have "unat s < 2 ^ 32" using unsigned_less [of s] by simp
  then show ?thesis by (simp add: unsigned_ucast_eq take_bit_nat_eq_self)
qed

subsection \<open>The lowest set bit of a word\<close>

definition lowest_bit :: "'a :: len word \<Rightarrow> nat \<Rightarrow> bool" where
  "lowest_bit c k \<longleftrightarrow> bit c k \<and> (\<forall>j<k. \<not> bit c j)"

lemma lowest_bit_exists: "c \<noteq> 0 \<Longrightarrow> \<exists>k. lowest_bit c k"
  by (metis lowest_bit_def bit_eq_iff bit_0_eq bot_apply bot_bool_def exists_least_iff)

lemma lowest_bit_unique: "lowest_bit c k \<Longrightarrow> lowest_bit c k' \<Longrightarrow> k = k'"
  by (metis lowest_bit_def nat_neq_iff)

lemma lowest_bit_less: "lowest_bit (c :: 'a :: len word) k \<Longrightarrow> k < LENGTH('a)"
  by (auto simp: lowest_bit_def intro: bit_imp_le_length)

text \<open>The idiom \<open>c & -c\<close> isolates the lowest set bit.\<close>

lemma and_minus_lowest_bit:
  fixes c :: "'a :: len word"
  assumes "lowest_bit c k"
  shows "c AND - c = 2 ^ k"
proof -
  define d where "d = c AND NOT (2 ^ k)"
  have k: "k < LENGTH('a)" using assms by (rule lowest_bit_less)
  have dk: "d AND mask k = 0"
    by (rule bit_word_eqI) (use assms in \<open>auto simp: d_def lowest_bit_def bit_simps\<close>)
  have d2: "d AND 2 ^ k = 0"
    by (rule bit_word_eqI) (auto simp: d_def bit_simps)
  have "c = d OR 2 ^ k"
    by (rule bit_word_eqI) (use assms in \<open>auto simp: d_def lowest_bit_def bit_simps\<close>)
  also have "\<dots> = d + 2 ^ k" using d2 by (simp add: disjunctive_add_eq_or)
  finally have "c - 1 = d + mask k" by (simp add: mask_eq_exp_minus_1)
  also have "\<dots> = d OR mask k" using dk by (simp add: disjunctive_add_eq_or)
  finally have "- c = NOT (d OR mask k)" by (simp add: minus_eq_not_minus_1)
  then show ?thesis
    by (intro bit_word_eqI) (use assms k in \<open>auto simp: d_def lowest_bit_def bit_simps\<close>)
qed

end
