(* ===== verification/Bitset.thy ===== *)
theory Bitset
  imports Prelude
begin

text \<open>
  \<open>kernel/header/lib/bitset.h\<close>: bit arrays over 32-bit words.  The array a pointer
  \<open>bitset_t *\<close> reaches is a list of words; an index outside of it is \<open>None\<close>.
  \<open>bset_view\<close> reads such a list as the set of bits it stands for, and the locale
  \<open>bit_array\<close> is the contract the buddy allocator and the process table rely on.
\<close>

type_synonym bitset = "u32 list"

definition BITS_PER_BITSET :: nat where
  "BITS_PER_BITSET = 32"

definition set_bit_b :: "bitset \<Rightarrow> nat \<Rightarrow> bitset option" where
  "set_bit_b bs i = do {
     w \<leftarrow> aget bs (i div BITS_PER_BITSET);
     aset bs (i div BITS_PER_BITSET) (w OR push_bit (i mod BITS_PER_BITSET) 1) }"

definition clear_bit :: "bitset \<Rightarrow> nat \<Rightarrow> bitset option" where
  "clear_bit bs i = do {
     w \<leftarrow> aget bs (i div BITS_PER_BITSET);
     aset bs (i div BITS_PER_BITSET) (w AND NOT (push_bit (i mod BITS_PER_BITSET) 1)) }"

definition check_bit :: "bitset \<Rightarrow> nat \<Rightarrow> nat option" where
  "check_bit bs i = do {
     w \<leftarrow> aget bs (i div BITS_PER_BITSET);
     Some (if w AND push_bit (i mod BITS_PER_BITSET) 1 \<noteq> 0 then 1 else 0) }"

definition xor_bit :: "bitset \<Rightarrow> nat \<Rightarrow> u32 \<Rightarrow> bitset option" where
  "xor_bit bs i x = do {
     w \<leftarrow> aget bs (i div BITS_PER_BITSET);
     aset bs (i div BITS_PER_BITSET) (w XOR push_bit (i mod BITS_PER_BITSET) x) }"

definition MultiplyDeBruijnBitPosition :: "nat list" where
  "MultiplyDeBruijnBitPosition =
    [0,  1,  28, 2,  29, 14, 24, 3, 30, 22, 20, 15, 25, 17, 4,  8,
     31, 27, 13, 23, 21, 19, 16, 7, 26, 12, 18, 6,  11, 5,  10, 9]"

definition NO_BIT :: nat where
  "NO_BIT = 0xFFFFFFFFFFFFFFFF"

text \<open>The loop of \<open>set_first_unset_bit\<close> from word \<open>i\<close> on.\<close>

function sfub_loop :: "bitset \<Rightarrow> nat \<Rightarrow> nat \<Rightarrow> (nat \<times> bitset) option" where
  "sfub_loop bs sz i =
    (if i < sz then do {
       w \<leftarrow> aget bs i;
       if w = 0xFFFFFFFF then sfub_loop bs sz (Suc i)
       else
         let c = NOT w;
             r = MultiplyDeBruijnBitPosition ! unat (drop_bit 27 ((c AND - c) * 0x077CB531))
         in do {
           bs' \<leftarrow> aset bs i (w OR push_bit r 1);
           Some (r + i * BITS_PER_BITSET, bs') } }
     else Some (NO_BIT, bs))"
  by pat_completeness auto
termination
  by (relation "measure (\<lambda>(bs, sz, i). sz - i)") auto

declare sfub_loop.simps [simp del]

definition set_first_unset_bit :: "bitset \<Rightarrow> nat \<Rightarrow> (nat \<times> bitset) option" where
  "set_first_unset_bit bs sz = sfub_loop bs sz 0"

subsection \<open>The bits of an array\<close>

definition bset_view :: "bitset \<Rightarrow> nat \<Rightarrow> bool" where
  "bset_view bs i = bit (bs ! (i div 32)) (i mod 32)"

definition bset_size :: "bitset \<Rightarrow> nat" where
  "bset_size bs = 32 * length bs"

lemma bset_index: "i < bset_size bs \<Longrightarrow> i div 32 < length bs"
  by (simp add: bset_size_def less_mult_imp_div_less mult.commute)

lemma div_mod_same: "i div 32 = j div 32 \<Longrightarrow> i mod 32 = j mod 32 \<Longrightarrow> i = (j :: nat)"
  by (metis div_mult_mod_eq)

lemma size_update [simp]: "bset_size (bs[k := w]) = bset_size bs"
  by (simp add: bset_size_def)

lemma and_one_bit_eq_0:
  fixes w :: "'a :: len word"
  assumes "n < LENGTH('a)"
  shows "w AND 2 ^ n = 0 \<longleftrightarrow> \<not> bit w n"
  using assms by (auto simp: bit_eq_iff [of _ 0] bit_simps)

lemma check_bit_view:
  "i < bset_size bs \<Longrightarrow> check_bit bs i = Some (of_bool (bset_view bs i))"
  by (simp add: check_bit_def BITS_PER_BITSET_def bset_index bset_view_def and_one_bit_eq_0)

lemma set_bit_b_spec:
  assumes "i < bset_size bs"
  shows "\<exists>bs'. set_bit_b bs i = Some bs' \<and> length bs' = length bs \<and>
    (\<forall>j < bset_size bs. bset_view bs' j = (if j = i then True else bset_view bs j))"
  using assms
  by (auto simp: set_bit_b_def BITS_PER_BITSET_def bset_index bit_simps bset_view_def nth_list_update
      dest: div_mod_same)

lemma clear_bit_spec:
  assumes "i < bset_size bs"
  shows "\<exists>bs'. clear_bit bs i = Some bs' \<and> length bs' = length bs \<and>
    (\<forall>j < bset_size bs. bset_view bs' j = (if j = i then False else bset_view bs j))"
  using assms
  by (auto simp: clear_bit_def BITS_PER_BITSET_def bset_index bit_simps bset_view_def nth_list_update
      dest: div_mod_same)

lemma xor_bit_spec:
  assumes "i < bset_size bs"
  shows "\<exists>bs'. xor_bit bs i 1 = Some bs' \<and> length bs' = length bs \<and>
    (\<forall>j < bset_size bs. bset_view bs' j = (if j = i then \<not> bset_view bs i else bset_view bs j))"
  using assms
  by (auto simp: xor_bit_def BITS_PER_BITSET_def bset_index bit_simps bset_view_def nth_list_update
      dest: div_mod_same)

subsection \<open>The contract of a bit array\<close>

locale bit_array =
  fixes size_of :: "'b \<Rightarrow> nat"
    and view :: "'b \<Rightarrow> nat \<Rightarrow> bool"
    and check :: "'b \<Rightarrow> nat \<Rightarrow> nat option"
    and set1 :: "'b \<Rightarrow> nat \<Rightarrow> 'b option"
    and clear :: "'b \<Rightarrow> nat \<Rightarrow> 'b option"
    and flip :: "'b \<Rightarrow> nat \<Rightarrow> 'b option"
  assumes check_ok: "i < size_of b \<Longrightarrow> check b i = Some (of_bool (view b i))"
    and set_ok: "i < size_of b \<Longrightarrow> \<exists>b'. set1 b i = Some b' \<and> size_of b' = size_of b \<and>
      (\<forall>j < size_of b. view b' j = (if j = i then True else view b j))"
    and clear_ok: "i < size_of b \<Longrightarrow> \<exists>b'. clear b i = Some b' \<and> size_of b' = size_of b \<and>
      (\<forall>j < size_of b. view b' j = (if j = i then False else view b j))"
    and flip_ok: "i < size_of b \<Longrightarrow> \<exists>b'. flip b i = Some b' \<and> size_of b' = size_of b \<and>
      (\<forall>j < size_of b. view b' j = (if j = i then \<not> view b i else view b j))"
begin

text \<open>What the clients use: a flip followed by a test reads the new value, and two flips
  restore every bit; setting a clear bit and clearing it again restores every bit.\<close>

lemma flip_check:
  assumes "i < size_of b"
  obtains b' where "flip b i = Some b'" "check b' i = Some (of_bool (\<not> view b i))"
    "size_of b' = size_of b" "\<forall>j < size_of b. view b' j = (if j = i then \<not> view b i else view b j)"
proof -
  from flip_ok [OF assms] obtain b' where b': "flip b i = Some b'" "size_of b' = size_of b"
    "\<forall>j < size_of b. view b' j = (if j = i then \<not> view b i else view b j)" by blast
  moreover from b' assms have "check b' i = Some (of_bool (\<not> view b i))"
    by (simp add: check_ok)
  ultimately show thesis by (rule_tac that)
qed

lemma flip_flip:
  assumes "i < size_of b" and "flip b i = Some b'" and "flip b' i = Some b''" and "j < size_of b"
  shows "view b'' j = view b j"
  using flip_ok [OF assms(1)] flip_ok [of i b'] assms by auto

lemma set_clear:
  assumes "i < size_of b" and "\<not> view b i" and "set1 b i = Some b'" and "clear b' i = Some b''"
    and "j < size_of b"
  shows "view b'' j = view b j"
  using set_ok [OF assms(1)] clear_ok [of i b'] assms by auto

end

interpretation bs: bit_array bset_size bset_view check_bit set_bit_b clear_bit "\<lambda>b i. xor_bit b i 1"
proof
  fix i b
  assume i: "i < bset_size b"
  show "check_bit b i = Some (of_bool (bset_view b i))"
    by (rule check_bit_view [OF i])
  show "\<exists>b'. set_bit_b b i = Some b' \<and> bset_size b' = bset_size b \<and>
      (\<forall>j<bset_size b. bset_view b' j = (if j = i then True else bset_view b j))"
    using set_bit_b_spec [OF i] by (auto simp: bset_size_def)
  show "\<exists>b'. clear_bit b i = Some b' \<and> bset_size b' = bset_size b \<and>
      (\<forall>j<bset_size b. bset_view b' j = (if j = i then False else bset_view b j))"
    using clear_bit_spec [OF i] by (auto simp: bset_size_def)
  show "\<exists>b'. xor_bit b i 1 = Some b' \<and> bset_size b' = bset_size b \<and>
      (\<forall>j<bset_size b. bset_view b' j = (if j = i then \<not> bset_view b i else bset_view b j))"
    using xor_bit_spec [OF i] by (auto simp: bset_size_def)
qed

subsection \<open>The first clear bit\<close>

lemma debruijn32_list:
  "map (\<lambda>k. MultiplyDeBruijnBitPosition ! unat (drop_bit 27 ((2 ^ k :: u32) * 0x077CB531)))
     [0..<32] = [0..<32]"
  by (simp add: upt_rec MultiplyDeBruijnBitPosition_def)

lemma debruijn32:
  assumes "k < 32"
  shows "MultiplyDeBruijnBitPosition ! unat (drop_bit 27 ((2 ^ k :: u32) * 0x077CB531)) = k"
  using arg_cong [OF debruijn32_list, of "\<lambda>xs. xs ! k"] assms by simp


text \<open>What \<open>set_first_unset_bit\<close> promises: the least clear bit of the first \<open>sz\<close>
  words is the result and is set, or every bit is set and the result is the all-ones value.\<close>

definition first_clear_spec :: "bitset \<Rightarrow> nat \<Rightarrow> nat \<Rightarrow> nat \<Rightarrow> bitset \<Rightarrow> bool" where
  "first_clear_spec bs sz i r bs' \<longleftrightarrow> length bs' = length bs \<and>
     (if \<exists>j. 32 * i \<le> j \<and> j < 32 * sz \<and> \<not> bset_view bs j
      then 32 * i \<le> r \<and> r < 32 * sz \<and> \<not> bset_view bs r \<and>
        (\<forall>j. 32 * i \<le> j \<longrightarrow> j < r \<longrightarrow> bset_view bs j) \<and>
        (\<forall>j < bset_size bs. bset_view bs' j = (if j = r then True else bset_view bs j))
      else r = NO_BIT \<and> bs' = bs)"

lemma all_ones32: "(0xFFFFFFFF :: u32) = mask 32"
  by (simp add: mask_eq_exp_minus_1)

lemma not_eq_0_all_ones32: "NOT (w :: u32) = 0 \<Longrightarrow> w = 0xFFFFFFFF"
proof -
  assume "NOT w = 0"
  then have "w = NOT 0" by (metis bit.double_compl)
  also have "\<dots> = mask 32" by (rule bit_word_eqI) (simp add: bit_simps)
  finally show ?thesis by (simp only: all_ones32)
qed

lemma full_word_view:
  assumes "bs ! i = 0xFFFFFFFF" and "32 * i \<le> j" and "j < 32 * Suc i"
  shows "bset_view bs j"
proof -
  have "j div 32 = i" using assms(2,3) by auto
  then show ?thesis using assms(1) by (simp only: bset_view_def all_ones32 bit_mask_iff) simp
qed

lemma first_clear_skip:
  assumes "bs ! i = 0xFFFFFFFF" and "first_clear_spec bs sz (Suc i) r bs'"
  shows "first_clear_spec bs sz i r bs'"
proof -
  have full: "bset_view bs j" if "32 * i \<le> j" "j < 32 * Suc i" for j
    using full_word_view [OF assms(1) that] .
  have "(\<exists>j. 32 * i \<le> j \<and> j < 32 * sz \<and> \<not> bset_view bs j) \<longleftrightarrow>
        (\<exists>j. 32 * Suc i \<le> j \<and> j < 32 * sz \<and> \<not> bset_view bs j)"
    using full by (meson le_trans less_or_eq_imp_le mult_le_mono2 not_le_imp_less le_SucI)
  then show ?thesis
    using assms(2) full unfolding first_clear_spec_def
    by (auto split: if_splits) (metis not_le_imp_less mult_Suc_right)+
qed

lemma first_clear_hit:
  assumes i: "i < sz" "sz \<le> length bs" and k: "lowest_bit (NOT (bs ! i)) k"
  shows "first_clear_spec bs sz i (k + i * 32) (bs[i := bs ! i OR push_bit k 1])"
proof -
  have k32: "k < 32" using lowest_bit_less [OF k] by simp
  have at: "bset_view bs j \<longleftrightarrow> bit (bs ! i) (j - 32 * i)" if "32 * i \<le> j" "j < 32 * Suc i" for j
  proof -
    from that have "j div 32 = i" by auto
    moreover from this have "j mod 32 = j - 32 * i" using div_mult_mod_eq [of j 32] by auto
    ultimately show ?thesis by (simp add: bset_view_def)
  qed
  have clear: "\<not> bset_view bs (k + i * 32)"
    using at [of "k + i * 32"] k k32 by (simp add: lowest_bit_def bit_not_iff)
  have below: "bset_view bs j" if "32 * i \<le> j" "j < k + i * 32" for j
  proof -
    have "bit (bs ! i) (j - 32 * i)"
      using that k k32 by (auto simp: lowest_bit_def bit_not_iff)
    then show ?thesis using at [of j] that k32 by simp
  qed
  have upd: "bset_view (bs[i := bs ! i OR push_bit k 1]) j = (if j = k + i * 32 then True else bset_view bs j)"
    if "j < bset_size bs" for j
    using that k32 i
    by (auto simp: bset_view_def nth_list_update bset_size_def bit_simps
        dest: div_mod_same [of j "k + i * 32"])
  have "k + i * 32 < 32 * sz" using k32 i(1) by simp
  then show ?thesis
    using clear below upd unfolding first_clear_spec_def
    by (auto simp: mult.commute)
qed

lemma sfub_loop_spec:
  "sz \<le> length bs \<Longrightarrow> \<exists>r bs'. sfub_loop bs sz i = Some (r, bs') \<and> first_clear_spec bs sz i r bs'"
proof (induction bs sz i rule: sfub_loop.induct)
  case (1 bs sz i)
  show ?case
  proof (cases "i < sz")
    case False
    then show ?thesis
      by (auto simp: sfub_loop.simps [of bs sz i] first_clear_spec_def)
  next
    case True
    then have i: "i < length bs" using "1.prems" by simp
    show ?thesis
    proof (cases "bs ! i = 0xFFFFFFFF")
      case True
      with \<open>i < sz\<close> i "1.IH" [of "bs ! i"] "1.prems" obtain r bs' where
        "sfub_loop bs sz (Suc i) = Some (r, bs')" "first_clear_spec bs sz (Suc i) r bs'" by auto
      with True i \<open>i < sz\<close> show ?thesis
        by (auto simp: sfub_loop.simps [of bs sz i] intro: first_clear_skip)
    next
      case False
      then have "NOT (bs ! i) \<noteq> 0"
        by (blast dest: not_eq_0_all_ones32)
      then obtain k where k: "lowest_bit (NOT (bs ! i)) k" by (blast dest: lowest_bit_exists)
      then have "k < 32" using lowest_bit_less by fastforce
      then have "MultiplyDeBruijnBitPosition !
          unat (drop_bit 27 ((NOT (bs ! i) AND - NOT (bs ! i)) * 0x077CB531)) = k"
        using debruijn32 k by (simp add: and_minus_lowest_bit)
      then have "sfub_loop bs sz i = Some (k + i * 32, bs[i := bs ! i OR push_bit k 1])"
        using False i \<open>i < sz\<close>
        by (simp add: sfub_loop.simps [of bs sz i] BITS_PER_BITSET_def Let_def del: push_bit_of_1)
      then show ?thesis using first_clear_hit [OF \<open>i < sz\<close> "1.prems" k] by blast
    qed
  qed
qed

subsection \<open>Properties\<close>

text \<open>\<open>set_first_unset_bit\<close> always returns on an array of at least \<open>sz\<close> words.  If some
  bit of them is clear, the result is the index of the lowest one, which is now set while every
  other bit is as before; if all are set, the result is the all-ones value and nothing changes.\<close>

lemma set_first_unset_bit_correct:
  assumes "sz \<le> length bs"
  shows "\<exists>r bs'. set_first_unset_bit bs sz = Some (r, bs') \<and> length bs' = length bs \<and>
    (if \<exists>j < 32 * sz. \<not> bset_view bs j
     then r < 32 * sz \<and> \<not> bset_view bs r \<and> (\<forall>j<r. bset_view bs j) \<and>
       (\<forall>j < bset_size bs. bset_view bs' j = (j = r \<or> bset_view bs j))
     else r = 0xFFFFFFFFFFFFFFFF \<and> bs' = bs)"
proof -
  from sfub_loop_spec [OF assms, of 0] obtain r bs' where
    "set_first_unset_bit bs sz = Some (r, bs')" "first_clear_spec bs sz 0 r bs'"
    by (auto simp: set_first_unset_bit_def)
  then show ?thesis
    by (cases "\<exists>j < 32 * sz. \<not> bset_view bs j") (simp add: first_clear_spec_def, simp only: first_clear_spec_def NO_BIT_def if_False, simp)
qed

end
