(* ===== verification/Spinlock.thy ===== *)
theory Spinlock
  imports Prelude
begin

text \<open>
  \<open>kernel/lib/sys/spinlock.c\<close> and the interrupt nesting of \<open>kernel/interrupt/trap.c\<close>.

  The first part is what one hart sees when nobody interferes: \<open>trap_push_off\<close> and
  \<open>trap_pop_off\<close> on the hart's interrupt state, \<open>spinlock_acquire\<close> and
  \<open>spinlock_release\<close> on that state and the lock word.  A lock that is already taken never
  comes back to the caller: its own holder panics and anyone else spins.  \<open>lock_acquire\<close>
  and \<open>lock_release\<close> are the lock-word half of the two routines, which the other
  components thread through their own state.

  The second part is the protocol between harts, one rule per shared access of the two
  routines, with mutual exclusion as its invariant.
\<close>

record spinlock =
  sl_lock :: bool
  sl_cpu :: nat

text \<open>The hart's \<open>sstatus.SIE\<close> bit and the \<open>cpu_t\<close> fields that \<open>trap.c\<close> uses.\<close>

record hart =
  sie :: bool
  trap_off_depth :: nat
  trap_enabled :: bool

definition trap_push_off :: "hart \<Rightarrow> hart" where
  "trap_push_off h =
    (let previous = sie h;
         h = h\<lparr>sie := False\<rparr>;
         h = (if trap_off_depth h = 0 then h\<lparr>trap_enabled := previous\<rparr> else h)
     in h\<lparr>trap_off_depth := trap_off_depth h + 1\<rparr>)"

definition trap_pop_off :: "hart \<Rightarrow> hart option" where
  "trap_pop_off h = do {
     kassert (\<not> sie h);
     kassert (trap_off_depth h \<noteq> 0);
     let h = h\<lparr>trap_off_depth := trap_off_depth h - 1\<rparr>;
     Some (if trap_off_depth h = 0 \<and> trap_enabled h then h\<lparr>sie := True\<rparr> else h) }"

definition spinlock_holding :: "nat \<Rightarrow> spinlock \<Rightarrow> bool" where
  "spinlock_holding cpuid l \<longleftrightarrow> sl_lock l \<and> sl_cpu l = cpuid"

definition spinlock_init :: "spinlock \<Rightarrow> spinlock" where
  "spinlock_init l = l\<lparr>sl_lock := False, sl_cpu := 0\<rparr>"

definition lock_acquire :: "nat \<Rightarrow> spinlock \<Rightarrow> spinlock option" where
  "lock_acquire cpuid l =
    (if spinlock_holding cpuid l then None
     else if sl_lock l then None
     else Some (l\<lparr>sl_lock := True, sl_cpu := cpuid\<rparr>))"

definition lock_release :: "nat \<Rightarrow> spinlock \<Rightarrow> spinlock option" where
  "lock_release cpuid l =
    (if \<not> spinlock_holding cpuid l then None
     else Some (l\<lparr>sl_cpu := 0, sl_lock := False\<rparr>))"

definition spinlock_acquire :: "nat \<Rightarrow> hart \<Rightarrow> spinlock \<Rightarrow> (hart \<times> spinlock) option" where
  "spinlock_acquire cpuid h l = do {
     let h = trap_push_off h;
     l \<leftarrow> lock_acquire cpuid l;
     Some (h, l) }"

definition spinlock_release :: "nat \<Rightarrow> hart \<Rightarrow> spinlock \<Rightarrow> (hart \<times> spinlock) option" where
  "spinlock_release cpuid h l = do {
     l \<leftarrow> lock_release cpuid l;
     h \<leftarrow> trap_pop_off h;
     Some (h, l) }"

subsection \<open>One hart\<close>

text \<open>Interrupts are off whenever the nesting depth is positive: what the kernel keeps true.\<close>

definition hart_ok :: "hart \<Rightarrow> bool" where
  "hart_ok h \<longleftrightarrow> (trap_off_depth h \<noteq> 0 \<longrightarrow> \<not> sie h)"

lemma push_off_ok: "hart_ok (trap_push_off h)"
  by (simp add: hart_ok_def trap_push_off_def Let_def)

lemma push_pop_off:
  "hart_ok h \<Longrightarrow> \<exists>h'. trap_pop_off (trap_push_off h) = Some h' \<and>
     sie h' = sie h \<and> trap_off_depth h' = trap_off_depth h"
  by (auto simp: hart_ok_def trap_push_off_def trap_pop_off_def Let_def)

lemma pop_off_ok: "trap_pop_off h = Some h' \<Longrightarrow> hart_ok h'"
  by (auto simp: hart_ok_def trap_pop_off_def Let_def option_steps split: if_splits)

lemma lock_acquire_free:
  "\<not> sl_lock l \<Longrightarrow> lock_acquire c l = Some (l\<lparr>sl_lock := True, sl_cpu := c\<rparr>)"
  by (simp add: lock_acquire_def spinlock_holding_def)

lemma lock_release_held:
  "lock_release c (l\<lparr>sl_lock := True, sl_cpu := c\<rparr>) = Some (l\<lparr>sl_lock := False, sl_cpu := 0\<rparr>)"
  by (simp add: lock_release_def spinlock_holding_def)

lemma lock_acquire_taken: "sl_lock l \<Longrightarrow> lock_acquire c l = None"
  by (simp add: lock_acquire_def)

lemma lock_acquire_eq_Some:
  "lock_acquire c l = Some l' \<longleftrightarrow> \<not> sl_lock l \<and> l' = l\<lparr>sl_lock := True, sl_cpu := c\<rparr>"
  by (auto simp: lock_acquire_def spinlock_holding_def)

lemma lock_release_eq_Some:
  "lock_release c l = Some l' \<longleftrightarrow> sl_lock l \<and> sl_cpu l = c \<and> l' = l\<lparr>sl_cpu := 0, sl_lock := False\<rparr>"
  by (auto simp: lock_release_def spinlock_holding_def)

lemmas lock_steps = lock_acquire_eq_Some lock_release_eq_Some

subsection \<open>Several harts\<close>

text \<open>
  Where a hart is inside the routines: outside, past the \<open>spinlock_holding\<close> test and
  spinning on the atomic swap, past the swap but before \<open>pLock->cpu = cpuid()\<close>, in the
  critical section, past \<open>pLock->cpu = 0\<close> in the release, or stopped by \<open>kpanic\<close>.
\<close>

datatype lock_pc = Outside | Spinning | Taken | Inside | Leaving | Panicked

record lock_sys =
  lock_word :: spinlock
  pcs :: "nat \<Rightarrow> lock_pc"

definition lock_sys_init :: lock_sys where
  "lock_sys_init = \<lparr>lock_word = \<lparr>sl_lock = False, sl_cpu = 0\<rparr>, pcs = (\<lambda>_. Outside)\<rparr>"

definition goto :: "nat \<Rightarrow> lock_pc \<Rightarrow> lock_sys \<Rightarrow> lock_sys" where
  "goto c pc s = s\<lparr>pcs := (pcs s)(c := pc)\<rparr>"

inductive lock_step :: "lock_sys \<Rightarrow> lock_sys \<Rightarrow> bool" where
  enter: "pcs s c = Outside \<Longrightarrow> \<not> spinlock_holding c (lock_word s) \<Longrightarrow>
    lock_step s (goto c Spinning s)"
| enter_panic: "pcs s c = Outside \<Longrightarrow> spinlock_holding c (lock_word s) \<Longrightarrow>
    lock_step s (goto c Panicked s)"
| swap: "pcs s c = Spinning \<Longrightarrow> \<not> sl_lock (lock_word s) \<Longrightarrow>
    lock_step s (goto c Taken (s\<lparr>lock_word := (lock_word s)\<lparr>sl_lock := True\<rparr>\<rparr>))"
| spin: "pcs s c = Spinning \<Longrightarrow> sl_lock (lock_word s) \<Longrightarrow> lock_step s s"
| own: "pcs s c = Taken \<Longrightarrow>
    lock_step s (goto c Inside (s\<lparr>lock_word := (lock_word s)\<lparr>sl_cpu := c\<rparr>\<rparr>))"
| leave: "pcs s c = Inside \<Longrightarrow> spinlock_holding c (lock_word s) \<Longrightarrow>
    lock_step s (goto c Leaving (s\<lparr>lock_word := (lock_word s)\<lparr>sl_cpu := 0\<rparr>\<rparr>))"
| leave_panic: "pcs s c = Inside \<Longrightarrow> \<not> spinlock_holding c (lock_word s) \<Longrightarrow>
    lock_step s (goto c Panicked s)"
| unlock: "pcs s c = Leaving \<Longrightarrow>
    lock_step s (goto c Outside (s\<lparr>lock_word := (lock_word s)\<lparr>sl_lock := False\<rparr>\<rparr>))"

inductive lock_reachable :: "lock_sys \<Rightarrow> bool" where
  start: "lock_reachable lock_sys_init"
| step: "lock_reachable s \<Longrightarrow> lock_step s t \<Longrightarrow> lock_reachable t"

definition holds_lock :: "lock_pc \<Rightarrow> bool" where
  "holds_lock pc \<longleftrightarrow> pc = Taken \<or> pc = Inside \<or> pc = Leaving"

text \<open>The lock word and the harts agree: the bit is set exactly when some hart is past the
  swap, there is at most one such hart, and in the critical section the owner is recorded.\<close>

definition lock_inv :: "lock_sys \<Rightarrow> bool" where
  "lock_inv s \<longleftrightarrow>
     (sl_lock (lock_word s) \<longleftrightarrow> (\<exists>c. holds_lock (pcs s c))) \<and>
     (\<forall>c d. holds_lock (pcs s c) \<longrightarrow> holds_lock (pcs s d) \<longrightarrow> c = d) \<and>
     (\<forall>c. pcs s c = Inside \<longrightarrow> sl_cpu (lock_word s) = c)"

lemma goto_simps [simp]:
  "pcs (goto c pc s) = (pcs s)(c := pc)" "lock_word (goto c pc s) = lock_word s"
  by (simp_all add: goto_def)

lemma holds_lock_simps [simp]:
  "\<not> holds_lock Outside" "\<not> holds_lock Spinning" "\<not> holds_lock Panicked"
  "holds_lock Taken" "holds_lock Inside" "holds_lock Leaving"
  by (simp_all add: holds_lock_def)

lemma lock_inv_init: "lock_inv lock_sys_init"
  by (simp add: lock_inv_def lock_sys_init_def)

lemma lock_step_inv: "lock_step s t \<Longrightarrow> lock_inv s \<Longrightarrow> lock_inv t"
proof (induction rule: lock_step.induct)
  case (leave_panic s c)
  then show ?case
    by (auto simp: lock_inv_def spinlock_holding_def)
qed (auto simp: lock_inv_def split: if_splits; metis holds_lock_simps)+

lemma lock_reachable_inv: "lock_reachable s \<Longrightarrow> lock_inv s"
  by (induction rule: lock_reachable.induct) (auto intro: lock_inv_init lock_step_inv)

subsection \<open>Properties\<close>

text \<open>Taking a free spinlock and giving it back succeeds, switches interrupts off in
  between, and restores the hart's interrupt-enable bit, its nesting depth and the lock word.\<close>

lemma spinlock_round_trip:
  assumes "hart_ok h" and "\<not> sl_lock l"
  shows "\<exists>h1 l1 h2. spinlock_acquire c h l = Some (h1, l1) \<and> \<not> sie h1 \<and> spinlock_holding c l1 \<and>
    spinlock_release c h1 l1 = Some (h2, l\<lparr>sl_lock := False, sl_cpu := 0\<rparr>) \<and>
    sie h2 = sie h \<and> trap_off_depth h2 = trap_off_depth h"
proof -
  from push_pop_off [OF assms(1)] obtain h2 where h2: "trap_pop_off (trap_push_off h) = Some h2"
    "sie h2 = sie h" "trap_off_depth h2 = trap_off_depth h" by blast
  have "\<not> sie (trap_push_off h)" by (simp add: trap_push_off_def Let_def)
  with h2 assms(2) show ?thesis
    by (simp add: spinlock_acquire_def spinlock_release_def lock_acquire_free lock_release_def
        spinlock_holding_def)
qed


lemma reach_taken_by_1:
  "lock_reachable (goto 1 Taken ((goto 1 Spinning lock_sys_init)
      \<lparr>lock_word := \<lparr>sl_lock = True, sl_cpu = 0\<rparr>\<rparr>))" (is "lock_reachable ?s")
proof -
  have "lock_step lock_sys_init (goto 1 Spinning lock_sys_init)"
    by (rule lock_step.enter) (simp_all add: lock_sys_init_def spinlock_holding_def)
  then have "lock_reachable (goto 1 Spinning lock_sys_init)"
    using lock_reachable.start by (rule_tac lock_reachable.step)
  moreover have "lock_step (goto 1 Spinning lock_sys_init) ?s"
    using lock_step.swap [of "goto 1 Spinning lock_sys_init" 1]
    by (simp add: lock_sys_init_def)
  ultimately show ?thesis by (rule lock_reachable.step)
qed


text \<open>The window between the swap and the store of \<open>pLock->cpu\<close> is visible: the owner
  field still holds the 0 that the last release left, so hart 0, which holds nothing, takes
  itself for the owner and panics instead of waiting.\<close>

lemma spinlock_hart0_false_panic:
  "\<exists>s t. lock_reachable s \<and> lock_step s t \<and> \<not> holds_lock (pcs s 0) \<and> holds_lock (pcs s 1) \<and>
     pcs t 0 = Panicked"
proof -
  let ?s = "goto 1 Taken ((goto 1 Spinning lock_sys_init)\<lparr>lock_word := \<lparr>sl_lock = True, sl_cpu = 0\<rparr>\<rparr>)"
  have "lock_step ?s (goto 0 Panicked ?s)"
    by (rule lock_step.enter_panic) (simp_all add: lock_sys_init_def spinlock_holding_def)
  then show ?thesis
    using reach_taken_by_1 by (intro exI [of _ ?s] exI [of _ "goto 0 Panicked ?s"])
      (simp add: lock_sys_init_def)
qed

end
