(* ===== verification/Memory_Info.thy ===== *)
theory Memory_Info
  imports Prelude Bitset Spinlock
begin

text \<open>
  The memory manager's state, \<open>struct memory_info_t\<close> of \<open>kernel/header/memory.h\<close>, with
  the per-page records of \<open>kernel/memory/utils.h\<close> and the free-list surgery of
  \<open>kernel/memory/buddy.c\<close>.

  Addresses are natural numbers, \<open>0\<close> is \<open>NULL\<close>.  \<open>blocks\<close> is the store the free
  lists live in: the \<open>struct _block_list\<close> at the start of each block.  The nine bitmaps
  share one table at the end of memory; \<open>buddy_map\<close> holds where in it, in words, each one
  starts.  \<open>dll\<close> says that
  a pointer starts a doubly linked, \<open>NULL\<close>-terminated list through given addresses; the two
  list operations are shown to remove an element anywhere and to push one in front.
\<close>

definition MAX_BUDDY_ORDER :: nat where
  "MAX_BUDDY_ORDER = 9"

definition PAGE_TYPE_USABLE :: u16 where "PAGE_TYPE_USABLE = 0x001"

definition PAGE_TYPE_SYSTEM :: u16 where "PAGE_TYPE_SYSTEM = 0x004"

definition PAGE_TYPE_FREE :: u16 where "PAGE_TYPE_FREE = 0x010"

definition PAGE_TYPE_INUSE :: u16 where "PAGE_TYPE_INUSE = 0x020"

definition PAGE_TYPE_PGTBL :: u16 where "PAGE_TYPE_PGTBL = 0x040"

definition PAGE_TYPE_USER :: u16 where "PAGE_TYPE_USER = 0x080"

record page_info =
  pg_type :: u16
  reference :: u16

record block_list =
  b_prev :: nat
  b_next :: nat

type_synonym block_store = "nat \<Rightarrow> block_list"

record memory_info =
  memory_start :: nat
  memory_end :: nat
  usable_memory_start :: nat
  usable_memory_end :: nat
  page_count :: nat
  buddy_table :: bitset
  buddy_map :: "nat list"
  pages_info :: "page_info list"
  free_list :: "nat list"
  free_count :: "u64 list"
  blocks :: block_store
  mem_lock :: spinlock

definition GET_PAGE_BY_ID :: "memory_info \<Rightarrow> nat \<Rightarrow> nat" where
  "GET_PAGE_BY_ID m i = memory_start m + i * PG_SIZE"

text \<open>A page below \<open>memory_start\<close> would give a negative index.\<close>

definition GET_ID_BY_PAGE :: "memory_info \<Rightarrow> nat \<Rightarrow> nat option" where
  "GET_ID_BY_PAGE m page =
    (if memory_start m \<le> page then Some ((page - memory_start m) div PG_SIZE) else None)"

definition upd_page :: "(page_info \<Rightarrow> page_info) \<Rightarrow> memory_info \<Rightarrow> nat \<Rightarrow> memory_info option" where
  "upd_page f m page = do {
     i \<leftarrow> GET_ID_BY_PAGE m page;
     pg \<leftarrow> aget (pages_info m) i;
     Some (m\<lparr>pages_info := (pages_info m)[i := f pg]\<rparr>) }"

text \<open>The loops over \<open>page + i * PG_SIZE\<close> for \<open>i < n\<close>.\<close>

fun upd_pages :: "(page_info \<Rightarrow> page_info) \<Rightarrow> memory_info \<Rightarrow> nat \<Rightarrow> nat \<Rightarrow> memory_info option" where
  "upd_pages f m page 0 = Some m"
| "upd_pages f m page (Suc n) = do {
     m \<leftarrow> upd_page f m page;
     upd_pages f m (page + PG_SIZE) n }"

definition set_page_attr :: "memory_info \<Rightarrow> nat \<Rightarrow> nat \<Rightarrow> u16 \<Rightarrow> memory_info option" where
  "set_page_attr m page pg_count attr = upd_pages (\<lambda>p. p\<lparr>pg_type := attr\<rparr>) m page pg_count"

definition clear_page_info :: "memory_info \<Rightarrow> nat \<Rightarrow> nat \<Rightarrow> u16 \<Rightarrow> memory_info option" where
  "clear_page_info m page pg_count attr =
     upd_pages (\<lambda>p. p\<lparr>pg_type := attr, reference := 0\<rparr>) m page pg_count"

definition get_page_reference :: "memory_info \<Rightarrow> nat \<Rightarrow> nat option" where
  "get_page_reference m page = do {
     i \<leftarrow> GET_ID_BY_PAGE m page;
     pg \<leftarrow> aget (pages_info m) i;
     Some (unat (reference pg)) }"

definition increase_page_ref :: "memory_info \<Rightarrow> nat \<Rightarrow> (nat \<times> memory_info) option" where
  "increase_page_ref m page = do {
     m \<leftarrow> upd_page (\<lambda>p. p\<lparr>reference := reference p + 1\<rparr>) m page;
     r \<leftarrow> get_page_reference m page;
     Some (r, m) }"

definition decrease_page_ref :: "memory_info \<Rightarrow> nat \<Rightarrow> (nat \<times> memory_info) option" where
  "decrease_page_ref m page = do {
     m \<leftarrow> upd_page (\<lambda>p. p\<lparr>reference := reference p - 1\<rparr>) m page;
     r \<leftarrow> get_page_reference m page;
     Some (r, m) }"

subsection \<open>Free-list operations\<close>

definition set_next :: "block_store \<Rightarrow> nat \<Rightarrow> nat \<Rightarrow> block_store" where
  "set_next bl p v = bl(p := (bl p)\<lparr>b_next := v\<rparr>)"

definition set_prev :: "block_store \<Rightarrow> nat \<Rightarrow> nat \<Rightarrow> block_store" where
  "set_prev bl p v = bl(p := (bl p)\<lparr>b_prev := v\<rparr>)"

definition block_in_range :: "memory_info \<Rightarrow> nat \<Rightarrow> nat \<Rightarrow> bool" where
  "block_in_range m p order \<longleftrightarrow>
     (let e = p + PG_SIZE * 2 ^ order in usable_memory_start m < e \<and> e < usable_memory_end m)"

definition remove_from_free_list :: "memory_info \<Rightarrow> nat \<Rightarrow> nat \<Rightarrow> (nat \<times> memory_info) option" where
  "remove_from_free_list m p order = do {
     kassert (block_in_range m p order);
     kassert (p \<noteq> 0);
     let bl = blocks m;
     (bl, fl) \<leftarrow>
       (if b_prev (bl p) \<noteq> 0 then
          let bl = set_next bl (b_prev (bl p)) (b_next (bl p));
              bl = (if b_next (bl p) \<noteq> 0 then set_prev bl (b_next (bl p)) (b_prev (bl p)) else bl)
          in Some (bl, free_list m)
        else do {
          h \<leftarrow> aget (free_list m) order;
          kassert (h = p);
          let fl = (free_list m)[order := b_next (bl p)];
          let bl = (if b_next (bl p) \<noteq> 0 then set_prev bl (b_next (bl p)) 0 else bl);
          Some (bl, fl) });
     let bl = set_prev (set_next bl p 0) p 0;
     Some (p, m\<lparr>blocks := bl, free_list := fl\<rparr>) }"

definition attach_to_free_list :: "memory_info \<Rightarrow> nat \<Rightarrow> nat \<Rightarrow> (nat \<times> memory_info) option" where
  "attach_to_free_list m p order = do {
     kassert (block_in_range m p order);
     kassert (p \<noteq> 0);
     h \<leftarrow> aget (free_list m) order;
     let bl = set_next (blocks m) p h;
     let bl = (if b_next (bl p) \<noteq> 0 then set_prev bl (b_next (bl p)) p else bl);
     let bl = set_prev bl p 0;
     Some (p, m\<lparr>blocks := bl, free_list := (free_list m)[order := p]\<rparr>) }"

subsection \<open>Lists in the store\<close>

fun dll :: "block_store \<Rightarrow> nat \<Rightarrow> nat \<Rightarrow> nat list \<Rightarrow> bool" where
  "dll bl prv p [] \<longleftrightarrow> p = 0"
| "dll bl prv p (x # xs) \<longleftrightarrow> p = x \<and> x \<noteq> 0 \<and> b_prev (bl x) = prv \<and> dll bl x (b_next (bl x)) xs"

lemma set_next_simps [simp]:
  "b_next (set_next bl p v q) = (if q = p then v else b_next (bl q))"
  "b_prev (set_next bl p v q) = b_prev (bl q)"
  by (simp_all add: set_next_def)

lemma set_prev_simps [simp]:
  "b_prev (set_prev bl p v q) = (if q = p then v else b_prev (bl q))"
  "b_next (set_prev bl p v q) = b_next (bl q)"
  by (simp_all add: set_prev_def)

lemma dll_cong:
  "(\<And>x. x \<in> set xs \<Longrightarrow> b_prev (bl' x) = b_prev (bl x) \<and> b_next (bl' x) = b_next (bl x)) \<Longrightarrow>
    dll bl' prv p xs = dll bl prv p xs"
  by (induction xs arbitrary: prv p) auto

lemma dll_frame_next [frame_simps]: "q \<notin> set xs \<Longrightarrow> dll (set_next bl q v) prv p xs = dll bl prv p xs"
  by (rule dll_cong) auto

lemma dll_frame_prev [frame_simps]: "q \<notin> set xs \<Longrightarrow> dll (set_prev bl q v) prv p xs = dll bl prv p xs"
  by (rule dll_cong) auto

lemma dll_head: "dll bl prv p xs \<Longrightarrow> p = (case xs of [] \<Rightarrow> 0 | x # _ \<Rightarrow> x)"
  by (cases xs) auto

lemma dll_nonzero: "dll bl prv p xs \<Longrightarrow> 0 \<notin> set xs"
  by (induction xs arbitrary: prv p) auto

lemma dll_set_prev_head:
  "dll bl prv p xs \<Longrightarrow> distinct xs \<Longrightarrow> dll (if p \<noteq> 0 then set_prev bl p prv' else bl) prv' p xs"
  by (cases xs) (auto simp: frame_simps)

text \<open>Where an element of a list stands: its neighbours are what its fields say.\<close>

lemma dll_split:
  "dll bl prv p (xs @ x # ys) \<Longrightarrow>
    b_prev (bl x) = (if xs = [] then prv else last xs) \<and> b_next (bl x) = (case ys of [] \<Rightarrow> 0 | y # _ \<Rightarrow> y)"
proof (induction xs arbitrary: prv p)
  case Nil
  then show ?case by (cases ys) auto
next
  case (Cons a xs)
  from Cons.prems have "dll bl a (b_next (bl a)) (xs @ x # ys)" by simp
  from Cons.IH [OF this] show ?case by simp
qed

text \<open>Unlinking an element that has a predecessor.\<close>

lemma dll_unlink:
  assumes "dll bl prv p (xs @ z # x # ys)" and "distinct (xs @ z # x # ys)"
  shows "dll (let bl1 = set_next bl z (b_next (bl x)) in
      if b_next (bl1 x) \<noteq> 0 then set_prev bl1 (b_next (bl1 x)) z else bl1) prv p (xs @ z # ys)"
  using assms
proof (induction xs arbitrary: prv p)
  case Nil
  then have "dll bl x (b_next (bl x)) ys" by simp
  then have "dll (set_next bl z (b_next (bl x))) x (b_next (bl x)) ys"
    using Nil.prems(2) by (simp add: frame_simps)
  then show ?case
    using Nil.prems dll_set_prev_head [of "set_next bl z (b_next (bl x))" x "b_next (bl x)" ys z]
    by (cases ys) (auto simp: Let_def)
next
  case (Cons a xs)
  have IH: "dll (let bl1 = set_next bl z (b_next (bl x)) in
      if b_next (bl1 x) \<noteq> 0 then set_prev bl1 (b_next (bl1 x)) z else bl1) a (b_next (bl a)) (xs @ z # ys)"
    using Cons by simp
  have "dll bl prv p ((a # xs @ [z]) @ x # ys)" using Cons.prems(1) by simp
  from dll_split [OF this] have nx: "b_next (bl x) = (case ys of [] \<Rightarrow> 0 | y # _ \<Rightarrow> y)" by simp
  have "a \<noteq> z" "a \<noteq> b_next (bl x)"
    using Cons.prems nx by (auto split: list.splits)
  with IH Cons.prems(1) show ?case by (auto simp: Let_def)
qed

subsection \<open>What the two list operations do\<close>

text \<open>\<open>mem_frame\<close>: only the store at the given addresses and one list head have changed.\<close>

definition mem_frame :: "memory_info \<Rightarrow> memory_info \<Rightarrow> nat \<Rightarrow> nat set \<Rightarrow> bool" where
  "mem_frame m m' order ps \<longleftrightarrow>
     m' = m\<lparr>blocks := blocks m', free_list := (free_list m)[order := free_list m' ! order]\<rparr> \<and>
     (\<forall>q. q \<notin> ps \<longrightarrow> blocks m' q = blocks m q)"

lemma mem_frame_dll:
  "mem_frame m m' order ps \<Longrightarrow> set xs \<inter> ps = {} \<Longrightarrow> dll (blocks m') prv p xs = dll (blocks m) prv p xs"
  by (rule dll_cong) (auto simp: mem_frame_def)

lemma remove_first:
  assumes "block_in_range m p order" and "order < length (free_list m)"
    and "dll (blocks m) 0 (free_list m ! order) (p # ys)" and "distinct (p # ys)"
  shows "\<exists>m'. remove_from_free_list m p order = Some (p, m') \<and>
    dll (blocks m') 0 (free_list m' ! order) ys \<and> mem_frame m m' order (set (p # ys))"
proof -
  let ?n = "b_next (blocks m p)"
  have h: "free_list m ! order = p" "p \<noteq> 0" "b_prev (blocks m p) = 0" "dll (blocks m) p ?n ys"
    using assms(3) by auto
  have "dll (if ?n \<noteq> 0 then set_prev (blocks m) ?n 0 else blocks m) 0 ?n ys"
    using dll_set_prev_head [OF h(4), of 0] assms(4) by simp
  then have "dll (set_prev (set_next (if ?n \<noteq> 0 then set_prev (blocks m) ?n 0 else blocks m) p 0) p 0) 0 ?n ys"
    using assms(4) by (simp add: frame_simps)
  moreover have "?n = 0 \<or> ?n \<in> set ys" using h(4) by (cases ys) auto
  ultimately show ?thesis
    using assms(1,2) h
    by (auto simp: remove_from_free_list_def mem_frame_def set_prev_def set_next_def Let_def)
qed

lemma remove_later:
  assumes "block_in_range m p order" and "order < length (free_list m)"
    and "dll (blocks m) 0 (free_list m ! order) (xs @ z # p # ys)" and "distinct (xs @ z # p # ys)"
  shows "\<exists>m'. remove_from_free_list m p order = Some (p, m') \<and>
    dll (blocks m') 0 (free_list m' ! order) (xs @ z # ys) \<and> mem_frame m m' order (set (xs @ z # p # ys))"
proof -
  let ?n = "b_next (blocks m p)"
  let ?bl1 = "set_next (blocks m) z ?n"
  let ?bl2 = "if ?n \<noteq> 0 then set_prev ?bl1 ?n z else ?bl1"
  have "dll (blocks m) 0 (free_list m ! order) ((xs @ [z]) @ p # ys)" using assms(3) by simp
  from dll_split [OF this] have nb: "b_prev (blocks m p) = z" "?n = (case ys of [] \<Rightarrow> 0 | y # _ \<Rightarrow> y)"
    by auto
  have nz: "z \<noteq> 0" "p \<noteq> 0" "z \<noteq> p" using dll_nonzero [OF assms(3)] assms(4) by auto
  have "dll ?bl2 0 (free_list m ! order) (xs @ z # ys)"
    using dll_unlink [OF assms(3,4)] nz by (simp add: Let_def split: if_splits)
  then have "dll (set_prev (set_next ?bl2 p 0) p 0) 0 (free_list m ! order) (xs @ z # ys)"
    using assms(4) by (simp add: frame_simps)
  moreover have "?n = 0 \<or> ?n \<in> set ys" using nb(2) by (cases ys) auto
  ultimately show ?thesis
    using assms(1,2) nb(1) nz
    by (auto simp: remove_from_free_list_def mem_frame_def set_prev_def set_next_def Let_def)
qed

lemma remove_from_free_list_spec:
  assumes "block_in_range m p order" and "order < length (free_list m)"
    and "dll (blocks m) 0 (free_list m ! order) (xs @ p # ys)" and "distinct (xs @ p # ys)"
  shows "\<exists>m'. remove_from_free_list m p order = Some (p, m') \<and>
    dll (blocks m') 0 (free_list m' ! order) (xs @ ys) \<and> mem_frame m m' order (set (xs @ p # ys))"
proof (cases xs rule: rev_cases)
  case Nil
  with remove_first [of m p order ys] assms show ?thesis by simp
next
  case (snoc xs' z)
  with remove_later [of m p order xs' z ys] assms show ?thesis by simp
qed

lemma attach_to_free_list_spec:
  assumes "block_in_range m p order" and "order < length (free_list m)" and "p \<noteq> 0"
    and "dll (blocks m) 0 (free_list m ! order) xs" and "distinct (p # xs)"
  shows "\<exists>m'. attach_to_free_list m p order = Some (p, m') \<and>
    dll (blocks m') 0 (free_list m' ! order) (p # xs) \<and> mem_frame m m' order (set (p # xs))"
proof -
  let ?h = "free_list m ! order"
  let ?bl1 = "set_next (blocks m) p ?h"
  let ?bl2 = "if ?h \<noteq> 0 then set_prev ?bl1 ?h p else ?bl1"
  have "dll ?bl1 0 ?h xs" using assms(4,5) by (simp add: frame_simps)
  then have "dll ?bl2 p ?h xs" using dll_set_prev_head [of ?bl1 0 ?h xs p] assms(5) by simp
  then have "dll (set_prev ?bl2 p 0) p ?h xs" using assms(5) by (simp add: frame_simps)
  moreover have hx: "?h = 0 \<or> ?h \<in> set xs" using assms(4) by (cases xs) auto
  ultimately have "dll (set_prev ?bl2 p 0) 0 p (p # xs)" using assms(3) by auto
  then show ?thesis
    using assms(1,2,3) hx
    by (auto simp: attach_to_free_list_def mem_frame_def set_prev_def set_next_def Let_def)
qed

subsection \<open>Page records\<close>

lemma upd_page_ok:
  assumes "memory_start m \<le> page" and "(page - memory_start m) div PG_SIZE < length (pages_info m)"
  shows "upd_page f m page = Some (m\<lparr>pages_info := (pages_info m)[(page - memory_start m) div PG_SIZE :=
     f (pages_info m ! ((page - memory_start m) div PG_SIZE))]\<rparr>)"
  using assms by (simp add: upd_page_def GET_ID_BY_PAGE_def)

text \<open>The page loop touches the records of its \<open>n\<close> pages, in place, and nothing else.\<close>

lemma upd_pages_ok:
  assumes "page = memory_start m + i * PG_SIZE" and "i + n \<le> length (pages_info m)"
  shows "\<exists>pi. upd_pages f m page n = Some (m\<lparr>pages_info := pi\<rparr>) \<and> length pi = length (pages_info m) \<and>
    (\<forall>j < length pi. pi ! j = (if i \<le> j \<and> j < i + n then f (pages_info m ! j) else pages_info m ! j))"
  using assms
proof (induction n arbitrary: m page i)
  case 0
  then show ?case by (auto intro!: exI [of _ "pages_info m"])
next
  case (Suc n)
  let ?m = "m\<lparr>pages_info := (pages_info m)[i := f (pages_info m ! i)]\<rparr>"
  have step: "upd_page f m page = Some ?m"
    using Suc.prems upd_page_ok [of m page f] by simp
  have "page + PG_SIZE = memory_start ?m + Suc i * PG_SIZE" "Suc i + n \<le> length (pages_info ?m)"
    using Suc.prems by simp_all
  from Suc.IH [OF this] obtain pi where pi:
    "upd_pages f ?m (page + PG_SIZE) n = Some (?m\<lparr>pages_info := pi\<rparr>)"
    "length pi = length (pages_info m)"
    "\<forall>j<length pi. pi ! j = (if Suc i \<le> j \<and> j < Suc i + n then f (pages_info ?m ! j) else pages_info ?m ! j)"
    by auto
  then show ?case
    using step Suc.prems by (intro exI [of _ pi]) (auto simp: nth_list_update)
qed

end
