(* ===== verification/Mem_Utils.thy ===== *)
theory Mem_Utils
  imports Prelude
begin

text \<open>
  The integer helpers of \<open>kernel/memory/utils.h\<close>: rounding to a power of two by smearing
  the highest bit to the right, and counting trailing zeros with a De Bruijn product.  Both
  are shown to compute what their names say, so that \<open>page_alloc\<close> asks the buddy
  allocator for the smallest order that holds the request.
\<close>

text \<open>The six or-shift statements that both rounding functions start with.\<close>

definition smear :: "u64 \<Rightarrow> u64" where
  "smear x =
    (let x = x OR drop_bit 1 x;
         x = x OR drop_bit 2 x;
         x = x OR drop_bit 4 x;
         x = x OR drop_bit 8 x;
         x = x OR drop_bit 16 x
     in x OR drop_bit 32 x)"

definition round_down_power_2 :: "u64 \<Rightarrow> u64" where
  "round_down_power_2 x = smear x - drop_bit 1 (smear x)"

definition round_up_power_2 :: "u64 \<Rightarrow> u64" where
  "round_up_power_2 x = smear (x - 1) + 1"

definition debruijn_ctz64 :: "nat list" where
  "debruijn_ctz64 =
    [63, 0,  1,  52, 2,  6,  53, 26, 3,  37, 40, 7,  33, 54, 47, 27,
     61, 4,  38, 45, 43, 41, 21, 8,  23, 34, 58, 55, 48, 17, 28, 10,
     62, 51, 5,  25, 36, 39, 32, 46, 60, 44, 42, 20, 22, 57, 16, 9,
     50, 24, 35, 31, 59, 19, 56, 15, 49, 30, 18, 14, 29, 13, 12, 11]"

definition trailing_zero :: "u64 \<Rightarrow> nat" where
  "trailing_zero x =
     (if x = 0 then 1 else 0) +
     debruijn_ctz64 ! unat (drop_bit 58 ((x AND - x) * 0x045FBAC7992A70DA))"

subsection \<open>Counting trailing zeros\<close>

lemma debruijn64_list:
  "map (\<lambda>k. debruijn_ctz64 ! unat (drop_bit 58 ((2 ^ k :: u64) * 0x045FBAC7992A70DA))) [0..<64] = [0..<64]"
  by (simp add: upt_rec debruijn_ctz64_def)

lemma debruijn64:
  assumes "k < 64"
  shows "debruijn_ctz64 ! unat (drop_bit 58 ((2 ^ k :: u64) * 0x045FBAC7992A70DA)) = k"
  using arg_cong [OF debruijn64_list, of "\<lambda>xs. xs ! k"] assms by simp

lemma trailing_zero_lowest_bit:
  assumes "lowest_bit x k"
  shows "trailing_zero x = k"
proof -
  have "k < 64" using lowest_bit_less [OF assms] by simp
  moreover have "x \<noteq> 0" using assms by (auto simp: lowest_bit_def)
  ultimately show ?thesis
    using assms by (simp add: trailing_zero_def and_minus_lowest_bit debruijn64)
qed

lemma trailing_zero_0 [simp]: "trailing_zero 0 = 64"
  by (simp add: trailing_zero_def debruijn_ctz64_def)

lemma trailing_zero_pow2: "k < 64 \<Longrightarrow> trailing_zero (2 ^ k) = k"
  by (rule trailing_zero_lowest_bit) (auto simp: lowest_bit_def bit_simps)

subsection \<open>Smearing\<close>

definition smeared :: "u64 \<Rightarrow> nat \<Rightarrow> u64 \<Rightarrow> bool" where
  "smeared x w y \<longleftrightarrow> (\<forall>n. bit y n \<longleftrightarrow> (\<exists>j<w. bit x (n + j)))"

lemma smeared_step:
  assumes "smeared x w y"
  shows "smeared x (w + w) (y OR drop_bit w y)"
proof -
  have "(\<exists>j<w. bit x (n + j)) \<or> (\<exists>j<w. bit x (n + w + j)) \<longleftrightarrow> (\<exists>j<w + w. bit x (n + j))" for n
  proof
    assume "(\<exists>j<w. bit x (n + j)) \<or> (\<exists>j<w. bit x (n + w + j))"
    then show "\<exists>j<w + w. bit x (n + j)"
      by (metis add.assoc add_strict_left_mono trans_less_add1)
  next
    assume "\<exists>j<w + w. bit x (n + j)"
    then obtain j where j: "j < w + w" "bit x (n + j)" by blast
    then show "(\<exists>j<w. bit x (n + j)) \<or> (\<exists>j<w. bit x (n + w + j))"
      by (cases "j < w") (blast, metis add.assoc add_diff_inverse_nat nat_add_left_cancel_less)
  qed
  then show ?thesis
    using assms by (simp add: smeared_def bit_or_iff bit_drop_bit_eq add.commute)
qed

lemma smear_smeared: "smeared x 64 (smear x)"
proof -
  have "smeared x 1 x" by (simp add: smeared_def)
  from smeared_step [OF this] have "smeared x 2 (x OR drop_bit 1 x)" by (simp add: numeral_2_eq_2)
  from smeared_step [OF this] smeared_step [OF smeared_step [OF this]]
    smeared_step [OF smeared_step [OF smeared_step [OF this]]]
    smeared_step [OF smeared_step [OF smeared_step [OF smeared_step [OF this]]]]
    smeared_step [OF smeared_step [OF smeared_step [OF smeared_step [OF smeared_step [OF this]]]]]
  show ?thesis by (simp add: smear_def Let_def)
qed

lemma smear_mask:
  assumes "bit x m" and "\<forall>n>m. \<not> bit x n"
  shows "smear x = mask (Suc m)"
proof (rule bit_word_eqI)
  fix n assume "n < LENGTH(64)"
  have m: "m < 64" using bit_imp_le_length [OF assms(1)] by simp
  have "(\<exists>j<64. bit x (n + j)) \<longleftrightarrow> n \<le> m"
  proof
    assume "\<exists>j<64. bit x (n + j)"
    then show "n \<le> m" using assms(2) by (metis le_add1 le_trans linorder_not_le)
  next
    assume "n \<le> m"
    then show "\<exists>j<64. bit x (n + j)"
      using assms(1) m by (intro exI [of _ "m - n"]) simp
  qed
  then show "bit (smear x) n = bit (mask (Suc m) :: u64) n"
    using smear_smeared [of x] \<open>n < LENGTH(64)\<close> by (auto simp: smeared_def bit_mask_iff)
qed

lemma highest_bit_exists:
  fixes x :: u64
  assumes "x \<noteq> 0"
  shows "\<exists>m. bit x m \<and> (\<forall>n>m. \<not> bit x n)"
proof -
  have "finite {n. bit x n}" by (rule finite_subset [of _ "{..<64}"]) (auto dest: bit_imp_le_length)
  moreover have "{n. bit x n} \<noteq> {}" using assms by (auto simp: bit_eq_iff)
  ultimately show ?thesis
    by (metis (mono_tags, lifting) Max_ge Max_in linorder_not_le mem_Collect_eq)
qed

lemma highest_bit_bounds:
  fixes x :: u64
  assumes "bit x m" and "\<forall>n>m. \<not> bit x n"
  shows "2 ^ m \<le> unat x" and "unat x < 2 ^ Suc m"
proof -
  have "take_bit (Suc m) x = x"
    by (rule bit_word_eqI) (use assms(2) in \<open>auto simp: bit_take_bit_iff less_Suc_eq_le not_less\<close>)
  then have "unat x = take_bit (Suc m) (unat x)" by (metis unsigned_take_bit_eq)
  then show "unat x < 2 ^ Suc m" by (metis take_bit_nat_less_exp)
  have "bit (unat x) m" using assms(1) by (simp add: bit_unsigned_iff bit_imp_le_length)
  then show "2 ^ m \<le> unat x" by (metis bit_take_bit_iff less_irrefl linorder_not_le take_bit_nat_eq_self)
qed

lemma smear_0 [simp]: "smear 0 = 0"
  by (simp add: smear_def)

lemma round_up_power_2_1 [simp]: "round_up_power_2 1 = 1"
  by (simp add: round_up_power_2_def)

lemma round_up_power_2_0 [simp]: "round_up_power_2 0 = 0"
proof -
  have "smear (- 1) = mask (Suc 63)"
    by (rule smear_mask) (auto simp: bit_simps not_less dest: bit_imp_le_length)
  then show ?thesis by (simp add: round_up_power_2_def mask_eq_exp_minus_1)
qed

text \<open>The order \<open>k\<close> of a request of \<open>x\<close> pages: \<open>2 ^ k\<close> is the least power of two
  that is not below \<open>x\<close>.\<close>

lemma round_up_power_2_spec:
  assumes "0 < unat x" and "unat x \<le> 2 ^ 63"
  shows "\<exists>k\<le>63. round_up_power_2 x = 2 ^ k \<and> unat x \<le> 2 ^ k \<and> (\<forall>j. unat x \<le> 2 ^ j \<longrightarrow> k \<le> j)"
proof (cases "unat x = 1")
  case True
  then have "x = 1" by (metis unat_1 word_unat_eq_iff)
  then show ?thesis by (intro exI [of _ 0]) simp
next
  case False
  then have x1: "unat (x - 1) = unat x - 1"
    using assms(1) by (simp add: unat_sub_if' word_le_nat_alt)
  have "x - 1 \<noteq> 0" using False by (metis diff_eq_diff_eq diff_self eq_iff_diff_eq_0 unat_1)
  then obtain m where m: "bit (x - 1) m" "\<forall>n>m. \<not> bit (x - 1) n"
    using highest_bit_exists by blast
  note b = highest_bit_bounds [OF m]
  have "m < 63"
  proof (rule ccontr)
    assume "\<not> m < 63"
    then have "(2::nat) ^ 63 \<le> 2 ^ m" by (intro power_increasing) simp_all
    with b(1) x1 assms show False by linarith
  qed
  have "round_up_power_2 x = 2 ^ Suc m"
    using smear_mask [OF m] by (simp add: round_up_power_2_def mask_eq_exp_minus_1)
  moreover have "unat x \<le> 2 ^ Suc m" using b(2) x1 by simp
  moreover have "Suc m \<le> j" if "unat x \<le> 2 ^ j" for j
  proof (rule ccontr)
    assume "\<not> Suc m \<le> j"
    then have "(2::nat) ^ j \<le> 2 ^ m" by (intro power_increasing) simp_all
    with that b(1) x1 assms(1) show False by linarith
  qed
  ultimately show ?thesis using \<open>m < 63\<close> by (intro exI [of _ "Suc m"]) auto
qed

lemma round_up_power_2_big:
  assumes "2 ^ 63 < unat x"
  shows "round_up_power_2 x = 0"
proof -
  have x1: "unat (x - 1) = unat x - 1" using assms by (subst unat_minus_one) auto
  then have "x - 1 \<noteq> 0" using assms by (metis diff_is_0_eq' less_one linorder_not_le one_less_numeral_iff one_less_power
        semiring_norm(76) unsigned_0 zero_less_diff zero_less_numeral less_imp_le order_less_le_trans)
  then obtain m where m: "bit (x - 1) m" "\<forall>n>m. \<not> bit (x - 1) n" using highest_bit_exists by blast
  have "(2 :: nat) ^ 63 < 2 ^ Suc m" using highest_bit_bounds(2) [OF m] x1 assms by linarith
  then have "63 < Suc m" by (rule power_less_imp_less_exp [rotated]) simp
  moreover have "m < 64" using bit_imp_le_length [OF m(1)] by simp
  ultimately have "m = 63" by simp
  with smear_mask [OF m] have "smear (x - 1) = mask (Suc 63)" by simp
  then show ?thesis by (simp add: round_up_power_2_def mask_eq_exp_minus_1)
qed

lemma page_order_covers:
  assumes "trailing_zero (round_up_power_2 x) < 64"
  shows "unat x \<le> 2 ^ trailing_zero (round_up_power_2 x)"
proof -
  have "unat x \<le> 2 ^ 63" using assms round_up_power_2_big [of x] by (metis trailing_zero_0 less_irrefl linorder_not_le)
  moreover have "0 < unat x" using assms by (metis bot_nat_0.not_eq_extremum less_irrefl round_up_power_2_0 trailing_zero_0 unsigned_0 unsigned_eq_0_iff)
  ultimately obtain k where "k \<le> 63" "round_up_power_2 x = 2 ^ k" "unat x \<le> 2 ^ k"
    using round_up_power_2_spec by blast
  then show ?thesis by (simp add: trailing_zero_pow2)
qed

subsection \<open>Properties\<close>

text \<open>For a request of \<open>x\<close> pages (at least one, at most \<open>2 ^ 63\<close>) the order
  \<open>trailing_zero (round_up_power_2 x)\<close> that \<open>page_alloc\<close> and \<open>page_free\<close> compute is the
  least \<open>k\<close> with \<open>x \<le> 2 ^ k\<close>.\<close>

lemma page_order_least:
  assumes "0 < unat x" and "unat x \<le> 2 ^ 63"
  shows "unat x \<le> 2 ^ trailing_zero (round_up_power_2 x)
    \<and> (\<forall>j. unat x \<le> 2 ^ j \<longrightarrow> trailing_zero (round_up_power_2 x) \<le> j)"
proof -
  from round_up_power_2_spec [OF assms] obtain k where k: "k \<le> 63" "round_up_power_2 x = 2 ^ k"
    "unat x \<le> 2 ^ k" "\<forall>j. unat x \<le> 2 ^ j \<longrightarrow> k \<le> j" by blast
  then have "trailing_zero (round_up_power_2 x) = k" by (simp add: trailing_zero_pow2)
  with k show ?thesis by simp
qed

end
