(* ===== verification/Buddy_Ghost.thy ===== *)
theory Buddy_Ghost
  imports Main
begin

text \<open>
  The combinatorics behind the buddy allocator, free of any state: blocks \<open>(k, i)\<close> of
  \<open>2 ^ k\<close> pages each, numbered by \<open>i\<close> within their order, over an arena of \<open>n\<close> pages.
  \<open>part_inv n F A\<close> says that the free blocks \<open>F\<close> (one list per order) and the allocated
  blocks \<open>A\<close> are disjoint pieces of the arena that use up all of its pages.  The four moves
  of the allocator (take a free block, split an allocated one, put one back, merge one with its
  free buddy) keep it.
\<close>

definition in_block :: "nat \<Rightarrow> nat \<Rightarrow> nat \<Rightarrow> bool" where
  "in_block k i p \<longleftrightarrow> p div 2 ^ k = i"

definition fblocks :: "(nat \<Rightarrow> nat list) \<Rightarrow> (nat \<times> nat) set" where
  "fblocks F = {(k, i). k < 9 \<and> i \<in> set (F k)}"

definition disjoint_blocks :: "(nat \<times> nat) set \<Rightarrow> bool" where
  "disjoint_blocks B \<longleftrightarrow>
     (\<forall>k i k' i' p. (k, i) \<in> B \<longrightarrow> (k', i') \<in> B \<longrightarrow> in_block k i p \<longrightarrow> in_block k' i' p \<longrightarrow> (k, i) = (k', i'))"

definition free_pages :: "(nat \<Rightarrow> nat list) \<Rightarrow> nat" where
  "free_pages F = (\<Sum>k<9. length (F k) * 2 ^ k)"

definition used_pages :: "(nat \<times> nat) set \<Rightarrow> nat" where
  "used_pages A = (\<Sum>b\<in>A. 2 ^ fst b)"

definition part_inv :: "nat \<Rightarrow> (nat \<Rightarrow> nat list) \<Rightarrow> (nat \<times> nat) set \<Rightarrow> bool" where
  "part_inv n F A \<longleftrightarrow>
     (\<forall>k i. (k, i) \<in> fblocks F \<union> A \<longrightarrow> k < 9 \<and> (i + 1) * 2 ^ k \<le> n) \<and>
     (\<forall>k<9. distinct (F k)) \<and>
     disjoint_blocks (fblocks F \<union> A) \<and> fblocks F \<inter> A = {} \<and> finite A \<and>
     free_pages F + used_pages A = n"

lemma in_block_first: "in_block k i (i * 2 ^ k)"
  by (simp add: in_block_def)

lemma in_block_iff: "in_block k i p \<longleftrightarrow> i * 2 ^ k \<le> p \<and> p < i * 2 ^ k + 2 ^ k"
proof
  assume "in_block k i p"
  then show "i * 2 ^ k \<le> p \<and> p < i * 2 ^ k + 2 ^ k"
    using dividend_less_div_times [of "2 ^ k" p] by (auto simp: in_block_def)
qed (auto simp: in_block_def mult.commute intro!: div_nat_eqI)

lemma in_block_halves:
  "in_block k (2 * i) p \<or> in_block k (2 * i + 1) p \<longleftrightarrow> in_block (Suc k) i p"
proof -
  have "p div 2 ^ Suc k = p div 2 ^ k div 2" by (metis div_mult2_eq power_Suc2)
  then show ?thesis by (auto simp: in_block_def)
qed

lemma in_block_half: "in_block k i p \<Longrightarrow> in_block (Suc k) (i div 2) p"
  using in_block_halves [of k "i div 2" p] by (cases "even i") (auto simp: in_block_def)

lemma disjoint_blocksD:
  "disjoint_blocks B \<Longrightarrow> (k, i) \<in> B \<Longrightarrow> (k', i') \<in> B \<Longrightarrow> in_block k i p \<Longrightarrow> in_block k' i' p \<Longrightarrow>
    k = k' \<and> i = i'"
  unfolding disjoint_blocks_def by blast

lemma fblocks_upd:
  "k < 9 \<Longrightarrow> fblocks (F(k := xs)) = (fblocks F - {k} \<times> UNIV) \<union> {k} \<times> set xs"
  by (auto simp: fblocks_def split: if_splits)

lemma free_pages_upd:
  assumes "k < 9"
  shows "free_pages (F(k := xs)) + length (F k) * 2 ^ k = free_pages F + length xs * 2 ^ k"
proof -
  have "free_pages G = (\<Sum>j\<in>{..<9} - {k}. length (G j) * 2 ^ j) + length (G k) * 2 ^ k" for G
    unfolding free_pages_def using assms by (subst sum.remove [of _ k]) auto
  note this [of F] this [of "F(k := xs)"]
  moreover have "(\<Sum>j\<in>{..<9} - {k}. length ((F(k := xs)) j) * 2 ^ j)
      = (\<Sum>j\<in>{..<9} - {k}. length (F j) * 2 ^ j)"
    by (rule sum.cong) auto
  ultimately show ?thesis by simp
qed

lemma used_pages_insert: "finite A \<Longrightarrow> (k, i) \<notin> A \<Longrightarrow> used_pages (insert (k, i) A) = used_pages A + 2 ^ k"
  by (simp add: used_pages_def)

lemma used_pages_remove:
  "finite A \<Longrightarrow> (k, i) \<in> A \<Longrightarrow> used_pages (A - {(k, i)}) + 2 ^ k = used_pages A"
  using used_pages_insert [of "A - {(k, i)}" k i] by (simp add: insert_absorb)

text \<open>A block inside an allocated block of the next order is neither free nor allocated.\<close>

lemma half_not_in:
  assumes "disjoint_blocks B" and "(Suc k, y) \<in> B" and "i div 2 = y"
  shows "(k, i) \<notin> B"
proof
  assume "(k, i) \<in> B"
  moreover have "in_block (Suc k) y (i * 2 ^ k)"
    using in_block_half [OF in_block_first, of k i] assms(3) by simp
  ultimately show False
    using disjoint_blocksD [OF assms(1,2), of k i "i * 2 ^ k"] in_block_first [of k i] by simp
qed

lemma disjoint_replace:
  assumes "disjoint_blocks B" and "b \<in> B"
    and "\<And>c p. c \<in> C \<Longrightarrow> in_block (fst c) (snd c) p \<Longrightarrow> in_block (fst b) (snd b) p"
    and "disjoint_blocks C"
  shows "disjoint_blocks (B - {b} \<union> C)"
  unfolding disjoint_blocks_def
proof (intro allI impI)
  fix k i k' i' p
  assume a: "(k, i) \<in> B - {b} \<union> C" "(k', i') \<in> B - {b} \<union> C" "in_block k i p" "in_block k' i' p"
  obtain kb ib where b: "b = (kb, ib)" by (cases b)
  note D = disjoint_blocksD [OF assms(1)]
  show "(k, i) = (k', i')"
  proof (cases "(k, i) \<in> C")
    case True
    then have pb: "in_block kb ib p" using assms(3) [of "(k, i)" p] a(3) b by simp
    show ?thesis
    proof (cases "(k', i') \<in> C")
      case True
      then show ?thesis
        using disjoint_blocksD [OF assms(4)] \<open>(k, i) \<in> C\<close> a(3,4) by blast
    next
      case False
      then show ?thesis using a(2,4) pb D [of kb ib k' i' p] assms(2) b by auto
    qed
  next
    case False
    then have k: "(k, i) \<in> B" "(k, i) \<noteq> b" using a(1) by auto
    show ?thesis
    proof (cases "(k', i') \<in> C")
      case True
      then have "in_block kb ib p" using assms(3) [of "(k', i')" p] a(4) b by simp
      then show ?thesis using k a(3) D [of kb ib k i p] assms(2) b by auto
    next
      case False
      then show ?thesis using k a D [of k i k' i' p] by auto
    qed
  qed
qed

subsection \<open>The four moves\<close>

lemma part_invD:
  assumes "part_inv n F A"
  shows "(k, i) \<in> A \<Longrightarrow> k < 9 \<and> (i + 1) * 2 ^ k \<le> n"
    and "k < 9 \<Longrightarrow> i \<in> set (F k) \<Longrightarrow> (i + 1) * 2 ^ k \<le> n"
    and "k < 9 \<Longrightarrow> distinct (F k)" and "finite A"
    and "k < 9 \<Longrightarrow> (k, i) \<in> A \<Longrightarrow> i \<notin> set (F k)"
    and "disjoint_blocks (fblocks F \<union> A)"
  using assms unfolding part_inv_def fblocks_def by blast+

lemma part_inv_take:
  assumes "part_inv n F A" and "k < 9" and "F k = x # xs"
  shows "part_inv n (F(k := xs)) (insert (k, x) A)" and "(k, x) \<notin> A"
proof -
  have x: "x \<notin> set xs" "(k, x) \<in> fblocks F"
    using part_invD(3) [OF assms(1,2)] assms(2,3) by (auto simp: fblocks_def)
  then show fresh: "(k, x) \<notin> A" using assms(1) unfolding part_inv_def by auto
  have fb: "fblocks (F(k := xs)) = fblocks F - {(k, x)}"
    using assms(2,3) x by (auto simp: fblocks_def split: if_splits)
  then have B: "fblocks (F(k := xs)) \<union> insert (k, x) A = fblocks F \<union> A" using x by auto
  have "free_pages (F(k := xs)) + used_pages (insert (k, x) A) = free_pages F + used_pages A"
    using free_pages_upd [OF assms(2), of F xs] assms(1,3) fresh
    by (simp add: part_inv_def used_pages_insert)
  then show "part_inv n (F(k := xs)) (insert (k, x) A)"
    using assms fb unfolding part_inv_def B by auto
qed

lemma part_inv_put:
  assumes "part_inv n F A" and "(k, x) \<in> A"
  shows "part_inv n (F(k := x # F k)) (A - {(k, x)})"
proof -
  have k: "k < 9" and x: "x \<notin> set (F k)"
    using part_invD(1,5) [OF assms(1)] assms(2) by blast+
  have fb: "fblocks (F(k := x # F k)) = insert (k, x) (fblocks F)"
    using k by (auto simp: fblocks_def split: if_splits)
  then have B: "fblocks (F(k := x # F k)) \<union> (A - {(k, x)}) = fblocks F \<union> A" using assms by auto
  have "free_pages (F(k := x # F k)) + used_pages (A - {(k, x)}) = free_pages F + used_pages A"
    using free_pages_upd [OF k, of F "x # F k"] used_pages_remove [of A k x] assms
    by (simp add: part_inv_def algebra_simps)
  then show ?thesis
    using assms fb x unfolding part_inv_def B by auto
qed

lemma part_inv_split:
  assumes "part_inv n F A" and "(Suc k, y) \<in> A"
  shows "part_inv n (F(k := 2 * y # F k)) (insert (k, 2 * y + 1) (A - {(Suc k, y)}))"
    and "2 * y \<notin> set (F k)" and "2 * y + 1 \<notin> set (F k)" and "(k, 2 * y + 1) \<notin> A"
proof -
  let ?B = "fblocks F \<union> A"
  have k: "Suc k < 9" using part_invD(1) [OF assms] by simp
  have dj: "disjoint_blocks ?B" and fin: "finite A"
    and sum: "free_pages F + used_pages A = n" and fa: "fblocks F \<inter> A = {}"
    and rng: "\<And>k i. (k, i) \<in> ?B \<Longrightarrow> k < 9 \<and> (i + 1) * 2 ^ k \<le> n"
    using assms unfolding part_inv_def by auto
  have n: "(k, 2 * y) \<notin> ?B" "(k, 2 * y + 1) \<notin> ?B"
    using half_not_in [OF dj, of k y "2 * y"] half_not_in [OF dj, of k y "2 * y + 1"] assms(2) by auto
  then show notin: "2 * y \<notin> set (F k)" "2 * y + 1 \<notin> set (F k)" "(k, 2 * y + 1) \<notin> A"
    using k by (auto simp: fblocks_def)
  have fb: "fblocks (F(k := 2 * y # F k)) = insert (k, 2 * y) (fblocks F)"
    using k by (auto simp: fblocks_def split: if_splits)
  have notf: "(Suc k, y) \<notin> fblocks F" using fa assms(2) by auto
  have B: "fblocks (F(k := 2 * y # F k)) \<union> insert (k, 2 * y + 1) (A - {(Suc k, y)})
      = ?B - {(Suc k, y)} \<union> {(k, 2 * y), (k, 2 * y + 1)}"
    using fb notf by auto
  have "disjoint_blocks (?B - {(Suc k, y)} \<union> {(k, 2 * y), (k, 2 * y + 1)})"
  proof (rule disjoint_replace [OF dj])
    show "(Suc k, y) \<in> ?B" using assms(2) by simp
    show "in_block (fst (Suc k, y)) (snd (Suc k, y)) p"
      if "c \<in> {(k, 2 * y), (k, 2 * y + 1)}" "in_block (fst c) (snd c) p" for c p
      using that in_block_halves [of k y p] by auto
    show "disjoint_blocks {(k, 2 * y), (k, 2 * y + 1)}"
      by (auto simp: disjoint_blocks_def in_block_def)
  qed
  moreover have "k' < 9 \<and> (i' + 1) * 2 ^ k' \<le> n"
    if "(k', i') \<in> ?B - {(Suc k, y)} \<union> {(k, 2 * y), (k, 2 * y + 1)}" for k' i'
  proof -
    have "(y + 1) * 2 ^ Suc k \<le> n" using rng [of "Suc k" y] assms(2) by simp
    then have "(2 * y + 1 + 1) * 2 ^ k \<le> n" by (simp add: algebra_simps)
    moreover have "(2 * y + 1) * 2 ^ k \<le> (2 * y + 1 + 1) * 2 ^ k" by simp
    ultimately have "(2 * y + 1) * 2 ^ k \<le> n \<and> (2 * y + 1 + 1) * 2 ^ k \<le> n" by linarith
    moreover have "k < 9" using k by simp
    moreover have "(k', i') \<in> ?B \<or> k' = k \<and> (i' = 2 * y \<or> i' = 2 * y + 1)" using that by auto
    ultimately show ?thesis using rng [of k' i'] by metis
  qed
  moreover have "insert (k, 2 * y) (fblocks F) \<inter> insert (k, 2 * y + 1) (A - {(Suc k, y)}) = {}"
    using n fa by auto
  moreover have "distinct ((F(k := 2 * y # F k)) j)" if "j < 9" for j
    using part_invD(3) [OF assms(1) that] notin(1) by auto
  moreover have "free_pages (F(k := 2 * y # F k)) + used_pages (insert (k, 2 * y + 1) (A - {(Suc k, y)})) = n"
    using free_pages_upd [of k F "2 * y # F k"] used_pages_remove [OF fin assms(2)] n k sum fin
    by (simp add: used_pages_insert algebra_simps)
  ultimately show "part_inv n (F(k := 2 * y # F k)) (insert (k, 2 * y + 1) (A - {(Suc k, y)}))"
    unfolding part_inv_def B using fb fin by blast
qed

definition buddy_of :: "nat \<Rightarrow> nat" where
  "buddy_of x = (if even x then x + 1 else x - 1)"

lemma buddy_of_simps: "buddy_of x div 2 = x div 2" "buddy_of x \<noteq> x" "buddy_of (buddy_of x) = x"
  by (auto simp: buddy_of_def elim: oddE)

lemma in_block_buddies:
  "in_block k x p \<or> in_block k (buddy_of x) p \<longleftrightarrow> in_block (Suc k) (x div 2) p"
proof (cases "even x")
  case True
  then obtain i where "x = 2 * i" by (elim evenE)
  then show ?thesis using in_block_halves [of k i p] by (simp add: buddy_of_def)
next
  case False
  then obtain i where "x = 2 * i + 1" by (elim oddE)
  then show ?thesis using in_block_halves [of k i p] by (auto simp: buddy_of_def)
qed

lemma part_inv_merge:
  assumes "part_inv n F A" and "(k, x) \<in> A" and "F k = xs @ buddy_of x # ys" and "k < 8"
  shows "part_inv n (F(k := xs @ ys)) (insert (Suc k, x div 2) (A - {(k, x)}))"
    and "(Suc k, x div 2) \<notin> A"
proof -
  let ?b = "buddy_of x"
  let ?B = "fblocks F \<union> A"
  have dj: "disjoint_blocks ?B" and fin: "finite A" and dk: "distinct (F k)"
    and sum: "free_pages F + used_pages A = n" and fa: "fblocks F \<inter> A = {}"
    and rng: "\<And>k i. (k, i) \<in> ?B \<Longrightarrow> k < 9 \<and> (i + 1) * 2 ^ k \<le> n"
    using assms(1,4) part_invD(3) [OF assms(1), of k] unfolding part_inv_def by auto
  have bF: "(k, ?b) \<in> fblocks F" using assms(3,4) by (simp add: fblocks_def)
  have up: "(Suc k, x div 2) \<notin> ?B"
    using half_not_in [OF dj, of k "x div 2" x] assms(2) by auto
  then show "(Suc k, x div 2) \<notin> A" by simp
  have fb: "fblocks (F(k := xs @ ys)) = fblocks F - {(k, ?b)}"
    using assms(3,4) dk by (auto simp: fblocks_def split: if_splits)
  have B: "fblocks (F(k := xs @ ys)) \<union> insert (Suc k, x div 2) (A - {(k, x)})
      = insert (Suc k, x div 2) (?B - {(k, x), (k, ?b)})"
    using fb fa bF assms(2) by auto
  have "disjoint_blocks (insert (Suc k, x div 2) (?B - {(k, x), (k, ?b)}))"
    unfolding disjoint_blocks_def
  proof (intro allI impI)
    have other: False if "(k', i') \<in> ?B - {(k, x), (k, ?b)}" "in_block k' i' p" "in_block (Suc k) (x div 2) p" for k' i' p
      using that in_block_buddies [of k x p] disjoint_blocksD [OF dj, of k' i' k x p]
        disjoint_blocksD [OF dj, of k' i' k ?b p] assms(2) bF by blast
    fix k1 i1 k2 i2 p
    assume "(k1, i1) \<in> insert (Suc k, x div 2) (?B - {(k, x), (k, ?b)})"
      "(k2, i2) \<in> insert (Suc k, x div 2) (?B - {(k, x), (k, ?b)})" "in_block k1 i1 p" "in_block k2 i2 p"
    then show "(k1, i1) = (k2, i2)"
      using other [of k1 i1 p] other [of k2 i2 p] disjoint_blocksD [OF dj, of k1 i1 k2 i2 p] by auto
  qed
  moreover have "(x div 2 + 1) * 2 ^ Suc k \<le> n"
  proof -
    have "(x + 1) * 2 ^ k \<le> n" "(?b + 1) * 2 ^ k \<le> n" using rng [of k x] rng [of k ?b] assms(2) bF by auto
    moreover have "x div 2 * 2 + 2 = x + 1 \<or> x div 2 * 2 + 2 = ?b + 1"
      by (cases "even x") (auto simp: buddy_of_def elim!: evenE oddE)
    ultimately have "(x div 2 * 2 + 2) * 2 ^ k \<le> n" by metis
    then show ?thesis by (simp add: algebra_simps)
  qed
  moreover have "k' < 9 \<and> (i' + 1) * 2 ^ k' \<le> n" if "(k', i') \<in> ?B - {(k, x), (k, ?b)}" for k' i'
    using that rng [of k' i'] by auto
  moreover have "distinct ((F(k := xs @ ys)) j)" if "j < 9" for j
    using part_invD(3) [OF assms(1) that] assms(3) dk by (cases "j = k") auto
  moreover have "free_pages (F(k := xs @ ys)) + used_pages (insert (Suc k, x div 2) (A - {(k, x)})) = n"
    using free_pages_upd [of k F "xs @ ys"] used_pages_remove [OF fin assms(2)] up assms(3,4) sum fin
    by (simp add: used_pages_insert algebra_simps)
  ultimately show "part_inv n (F(k := xs @ ys)) (insert (Suc k, x div 2) (A - {(k, x)}))"
    unfolding part_inv_def B using fb fin up fa assms(4) by auto
qed

end
