(* ===== verification/Buddy.thy ===== *)
theory Buddy
  imports Memory_Info Mem_Utils Buddy_Ghost
begin

text \<open>
  The buddy page allocator: \<open>kernel/memory/buddy.c\<close> on the state of \<open>Memory_Info\<close>.

  \<open>buddy_inv m n F A\<close> ties the state to the partition of \<open>Buddy_Ghost\<close>: the free lists hold
  the blocks of \<open>F\<close>, the counters their numbers, and the bit of each pair of buddies says
  whether exactly one of the two is free.  Allocation, with its recursive splitting, and
  release, with its recursive merging, keep it.
\<close>

definition xor_buddy_map :: "memory_info \<Rightarrow> nat \<Rightarrow> nat \<Rightarrow> (nat \<times> memory_info) option" where
  "xor_buddy_map m p order = do {
     kassert (usable_memory_start m \<le> p);
     let page_idx = (p - usable_memory_start m) div PG_SIZE;
     off \<leftarrow> aget (buddy_map m) order;
     let i = off * BITS_PER_BITSET + drop_bit (order + 1) page_idx;
     t \<leftarrow> xor_bit (buddy_table m) i 1;
     r \<leftarrow> check_bit t i;
     Some (r, m\<lparr>buddy_table := t\<rparr>) }"

definition add_free_count :: "memory_info \<Rightarrow> nat \<Rightarrow> u64 \<Rightarrow> memory_info option" where
  "add_free_count m order d = do {
     c \<leftarrow> aget (free_count m) order;
     Some (m\<lparr>free_count := (free_count m)[order := c + d]\<rparr>) }"

function allocate_pages_of_power_2 :: "memory_info \<Rightarrow> nat \<Rightarrow> u16 \<Rightarrow> (nat \<times> memory_info) option" where
  "allocate_pages_of_power_2 m order attr =
    (if order \<ge> MAX_BUDDY_ORDER then Some (0, m)
     else do {
       c \<leftarrow> aget (free_count m) order;
       (block, m) \<leftarrow>
         (if c = 0 then do {
            (block, m) \<leftarrow> allocate_pages_of_power_2 m (order + 1) 0;
            if block = 0 then Some (0, m)
            else do {
              (_, m) \<leftarrow> attach_to_free_list m block order;
              m \<leftarrow> add_free_count m order 1;
              let block = block + 2 ^ order * PG_SIZE;
              (_, m) \<leftarrow> xor_buddy_map m block order;
              Some (block, m) } }
          else do {
            h \<leftarrow> aget (free_list m) order;
            (block, m) \<leftarrow> remove_from_free_list m h order;
            m \<leftarrow> add_free_count m order (- 1);
            (_, m) \<leftarrow> xor_buddy_map m block order;
            Some (block, m) });
       if block \<noteq> 0 then do {
         m \<leftarrow> upd_pages (\<lambda>pg. pg\<lparr>pg_type := attr, reference := 1\<rparr>) m block (2 ^ order);
         Some (block, m) }
       else Some (0, m) })"
  by pat_completeness auto
termination
  by (relation "measure (\<lambda>(m, order, attr). MAX_BUDDY_ORDER - order)") auto

declare allocate_pages_of_power_2.simps [simp del]

function free_pages_of_power_2 :: "memory_info \<Rightarrow> nat \<Rightarrow> nat \<Rightarrow> (nat \<times> memory_info) option" where
  "free_pages_of_power_2 m p order =
    (if p = 0 then Some (1, m)
     else if \<not> (p \<ge> usable_memory_start m \<and> p < usable_memory_end m) then Some (2, m)
     else do {
       (buddy_bit, m) \<leftarrow> xor_buddy_map m p order;
       if buddy_bit = 0 \<and> order + 1 < MAX_BUDDY_ORDER then
         let page_idx = (p - usable_memory_start m) div PG_SIZE;
             buddy_even_page_idx = push_bit (order + 1) (drop_bit (order + 1) page_idx);
             buddy = (if page_idx = buddy_even_page_idx then p + 2 ^ order * PG_SIZE
                      else p - 2 ^ order * PG_SIZE)
         in do {
           (_, m) \<leftarrow> remove_from_free_list m buddy order;
           m \<leftarrow> add_free_count m order (- 1);
           (_, m) \<leftarrow> free_pages_of_power_2 m (if buddy < p then buddy else p) (order + 1);
           Some (0, m) }
       else do {
         (_, m) \<leftarrow> attach_to_free_list m p order;
         m \<leftarrow> clear_page_info m p (2 ^ order) (PAGE_TYPE_USABLE OR PAGE_TYPE_FREE);
         m \<leftarrow> add_free_count m order 1;
         Some (0, m) } })"
  by pat_completeness auto
termination
  by (relation "measure (\<lambda>(m, p, order). MAX_BUDDY_ORDER - order)") auto

declare free_pages_of_power_2.simps [simp del]

definition page_alloc :: "nat \<Rightarrow> memory_info \<Rightarrow> u64 \<Rightarrow> u16 \<Rightarrow> (nat \<times> memory_info) option" where
  "page_alloc hart m pages attr = do {
     let order = trailing_zero (round_up_power_2 pages);
     l \<leftarrow> lock_acquire hart (mem_lock m);
     (r, m) \<leftarrow> allocate_pages_of_power_2 (m\<lparr>mem_lock := l\<rparr>) order attr;
     l \<leftarrow> lock_release hart (mem_lock m);
     Some (r, m\<lparr>mem_lock := l\<rparr>) }"

definition page_free :: "nat \<Rightarrow> memory_info \<Rightarrow> nat \<Rightarrow> u64 \<Rightarrow> (nat \<times> memory_info) option" where
  "page_free hart m p pages = do {
     l \<leftarrow> lock_acquire hart (mem_lock m);
     (r, m) \<leftarrow> free_pages_of_power_2 (m\<lparr>mem_lock := l\<rparr>) p (trailing_zero (round_up_power_2 pages));
     l \<leftarrow> lock_release hart (mem_lock m);
     Some (r, m\<lparr>mem_lock := l\<rparr>) }"

text \<open>\<open>memory_available\<close> of \<open>kernel/memory/memory.c\<close>.\<close>

fun memory_available_from :: "memory_info \<Rightarrow> nat \<Rightarrow> nat \<Rightarrow> u64 \<Rightarrow> u64 option" where
  "memory_available_from m order 0 sz = Some sz"
| "memory_available_from m order (Suc n) sz = do {
     let current_size = of_nat (2 ^ order * PG_SIZE);
     c \<leftarrow> aget (free_count m) order;
     memory_available_from m (order + 1) n (sz + c * current_size) }"

definition memory_available :: "memory_info \<Rightarrow> u64 option" where
  "memory_available m = memory_available_from m 0 MAX_BUDDY_ORDER 0"


subsection \<open>The invariant\<close>

definition baddr :: "memory_info \<Rightarrow> nat \<Rightarrow> nat \<Rightarrow> nat" where
  "baddr m k i = usable_memory_start m + i * 2 ^ k * PG_SIZE"

definition bbit :: "memory_info \<Rightarrow> nat \<Rightarrow> nat \<Rightarrow> bool" where
  "bbit m k i = bset_view (buddy_table m) (buddy_map m ! k * 32 + i)"

text \<open>The bitmaps of an arena of \<open>n\<close> pages lie within the table and do not overlap.\<close>

definition maps_ok :: "memory_info \<Rightarrow> nat \<Rightarrow> bool" where
  "maps_ok m n \<longleftrightarrow> length (buddy_map m) = 9 \<and>
     (\<forall>k i. k < 9 \<longrightarrow> i * 2 ^ Suc k < n \<longrightarrow> buddy_map m ! k * 32 + i < bset_size (buddy_table m)) \<and>
     (\<forall>j k i i'. j < k \<longrightarrow> k < 9 \<longrightarrow> i * 2 ^ Suc j < n \<longrightarrow> i' * 2 ^ Suc k < n \<longrightarrow>
        buddy_map m ! j * 32 + i < buddy_map m ! k * 32 + i')"

definition arena_ok :: "memory_info \<Rightarrow> nat \<Rightarrow> bool" where
  "arena_ok m n \<longleftrightarrow>
     0 < usable_memory_start m \<and>
     (\<exists>s. usable_memory_start m = memory_start m + s * PG_SIZE \<and> s + n \<le> length (pages_info m)) \<and>
     usable_memory_start m + n * PG_SIZE < usable_memory_end m \<and> n < 2 ^ 52 \<and>
     length (free_list m) = 9 \<and> length (free_count m) = 9 \<and> maps_ok m n"

definition heap_ok :: "memory_info \<Rightarrow> (nat \<Rightarrow> nat list) \<Rightarrow> bool" where
  "heap_ok m F \<longleftrightarrow> (\<forall>k<9. dll (blocks m) 0 (free_list m ! k) (map (baddr m k) (F k)) \<and>
     free_count m ! k = of_nat (length (F k)))"

definition bits_ok :: "memory_info \<Rightarrow> nat \<Rightarrow> (nat \<Rightarrow> nat list) \<Rightarrow> bool" where
  "bits_ok m n F \<longleftrightarrow> (\<forall>k i. k < 8 \<longrightarrow> i * 2 ^ Suc k < n \<longrightarrow>
     bbit m k i = ((2 * i \<in> set (F k)) \<noteq> (2 * i + 1 \<in> set (F k))))"

definition buddy_inv :: "memory_info \<Rightarrow> nat \<Rightarrow> (nat \<Rightarrow> nat list) \<Rightarrow> (nat \<times> nat) set \<Rightarrow> bool" where
  "buddy_inv m n F A \<longleftrightarrow> arena_ok m n \<and> heap_ok m F \<and> bits_ok m n F \<and> part_inv n F A"

lemma baddr_inj [simp]: "baddr m k i = baddr m k j \<longleftrightarrow> i = j"
  by (simp add: baddr_def PG_SIZE_def)

lemma arena_cong:
  assumes "arena_ok m n" and "usable_memory_start m' = usable_memory_start m"
    and "usable_memory_end m' = usable_memory_end m" and "memory_start m' = memory_start m"
    and "length (pages_info m') = length (pages_info m)" and "length (free_list m') = length (free_list m)"
    and "length (free_count m') = length (free_count m)" and "buddy_map m' = buddy_map m"
    and "length (buddy_table m') = length (buddy_table m)"
  shows "arena_ok m' n"
  using assms by (simp add: arena_ok_def maps_ok_def bset_size_def)

lemma baddr_cong: "usable_memory_start m' = usable_memory_start m \<Longrightarrow> baddr m' = baddr m"
  by (intro ext) (simp add: baddr_def)

lemma heap_cong:
  assumes "heap_ok m F" and "usable_memory_start m' = usable_memory_start m"
    and "free_list m' = free_list m" and "free_count m' = free_count m" and "blocks m' = blocks m"
  shows "heap_ok m' F"
  using assms by (simp add: heap_ok_def baddr_cong [OF assms(2)])

lemma bits_cong:
  "bits_ok m n F \<Longrightarrow> buddy_table m' = buddy_table m \<Longrightarrow> buddy_map m' = buddy_map m \<Longrightarrow> bits_ok m' n F"
  by (simp add: bits_ok_def bbit_def)

text \<open>A block of the arena has an address in range, and its page index is what the bitmap
  code computes.\<close>

lemma baddr_range:
  assumes "arena_ok m n" and "(i + 1) * 2 ^ k \<le> n"
  shows "block_in_range m (baddr m k i) k" and "baddr m k i \<noteq> 0"
    and "usable_memory_start m \<le> baddr m k i" and "baddr m k i < usable_memory_end m"
    and "(baddr m k i - usable_memory_start m) div PG_SIZE = i * 2 ^ k"
proof -
  have "(i + 1) * 2 ^ k * PG_SIZE \<le> n * PG_SIZE" using assms(2) by (rule mult_le_mono1)
  then have le: "baddr m k i + PG_SIZE * 2 ^ k \<le> usable_memory_start m + n * PG_SIZE"
    by (simp add: baddr_def algebra_simps)
  have ue: "usable_memory_start m + n * PG_SIZE < usable_memory_end m" and pos: "0 < usable_memory_start m"
    using assms(1) by (simp_all add: arena_ok_def)
  have s: "0 < PG_SIZE * 2 ^ k" by simp
  have b: "usable_memory_start m \<le> baddr m k i" by (simp add: baddr_def)
  show "block_in_range m (baddr m k i) k"
    unfolding block_in_range_def Let_def using le b s ue by linarith
  show "baddr m k i \<noteq> 0" using b pos by linarith
  show "usable_memory_start m \<le> baddr m k i" by (rule b)
  show "baddr m k i < usable_memory_end m" using le s ue by linarith
  show "(baddr m k i - usable_memory_start m) div PG_SIZE = i * 2 ^ k" by (simp add: baddr_def)
qed

lemma baddr_halves:
  "baddr m (Suc k) y = baddr m k (2 * y)"
  "baddr m k (2 * y) + 2 ^ k * PG_SIZE = baddr m k (2 * y + 1)"
  by (simp_all add: baddr_def algebra_simps)

lemma block_index_half: "drop_bit (k + 1) (i * 2 ^ k) = (i div 2 :: nat)"
  by (simp add: drop_bit_eq_div mult.commute [of 2] flip: div_mult2_eq)

lemma pair_bound: "(i + 1) * 2 ^ k \<le> n \<Longrightarrow> i div 2 * 2 ^ Suc k < (n :: nat)"
proof -
  assume a: "(i + 1) * 2 ^ k \<le> n"
  have "i div 2 * 2 ^ Suc k = (i div 2 * 2) * 2 ^ k" by simp
  also have "\<dots> \<le> i * 2 ^ k" by (intro mult_le_mono1) simp
  also have "\<dots> < (i + 1) * 2 ^ k" by simp
  finally show ?thesis using a by simp
qed

subsection \<open>Flipping the bit of a pair\<close>

lemma maps_distinct:
  assumes "maps_ok m n" and "j < 9" "k < 9" "i * 2 ^ Suc j < n" "i' * 2 ^ Suc k < n"
    and "buddy_map m ! j * 32 + i = buddy_map m ! k * 32 + i'"
  shows "j = k \<and> i = i'"
proof (rule ccontr)
  assume "\<not> ?thesis"
  then have "j < k \<or> k < j" using assms(6) by (cases "j = k") auto
  then show False
    using assms unfolding maps_ok_def by (metis less_irrefl)
qed

lemma xor_buddy_map_spec:
  assumes "arena_ok m n" and "k < 9" and "(x + 1) * 2 ^ k \<le> n"
  shows "\<exists>t. xor_buddy_map m (baddr m k x) k = Some (of_bool (\<not> bbit m k (x div 2)), m\<lparr>buddy_table := t\<rparr>) \<and>
    length t = length (buddy_table m) \<and>
    (\<forall>j i. j < 9 \<longrightarrow> i * 2 ^ Suc j < n \<longrightarrow>
       bbit (m\<lparr>buddy_table := t\<rparr>) j i = (if j = k \<and> i = x div 2 then \<not> bbit m j i else bbit m j i))"
proof -
  let ?i = "buddy_map m ! k * 32 + x div 2"
  have maps: "maps_ok m n" using assms(1) by (simp add: arena_ok_def)
  have pb: "x div 2 * 2 ^ Suc k < n" using pair_bound [OF assms(3)] .
  have ib: "?i < bset_size (buddy_table m)" using maps pb assms(2) unfolding maps_ok_def by blast
  obtain t where t: "xor_bit (buddy_table m) ?i 1 = Some t" "length t = length (buddy_table m)"
    and v: "\<forall>j < bset_size (buddy_table m).
      bset_view t j = (if j = ?i then \<not> bset_view (buddy_table m) ?i else bset_view (buddy_table m) j)"
    using xor_bit_spec [OF ib] by blast
  have "check_bit t ?i = Some (of_bool (\<not> bbit m k (x div 2)))"
    using check_bit_view [of ?i t] ib t(2) v by (simp add: bset_size_def bbit_def)
  moreover have "length (buddy_map m) = 9" using maps by (simp add: maps_ok_def)
  ultimately have r: "xor_buddy_map m (baddr m k x) k = Some (of_bool (\<not> bbit m k (x div 2)), m\<lparr>buddy_table := t\<rparr>)"
    using t(1) assms(2) baddr_range(3,5) [OF assms(1,3)]
    by (simp add: xor_buddy_map_def Let_def block_index_half [simplified] BITS_PER_BITSET_def)
  have "bbit (m\<lparr>buddy_table := t\<rparr>) j i = (if j = k \<and> i = x div 2 then \<not> bbit m j i else bbit m j i)"
    if "j < 9" "i * 2 ^ Suc j < n" for j i
  proof -
    have "buddy_map m ! j * 32 + i < bset_size (buddy_table m)"
      using maps that unfolding maps_ok_def by blast
    moreover have "buddy_map m ! j * 32 + i = ?i \<longleftrightarrow> j = k \<and> i = x div 2"
      using maps_distinct [OF maps that(1) assms(2) that(2) pb] by blast
    ultimately show ?thesis using v by (simp add: bbit_def)
  qed
  with r t(2) show ?thesis by blast
qed


subsection \<open>Free lists\<close>

lemma free_addr_distinct:
  assumes "part_inv n F A" and "j < 9" "k < 9" "j \<noteq> k" "x \<in> set (F k) \<or> (k, x) \<in> A" "y \<in> set (F j)"
  shows "baddr m j y \<noteq> baddr m k x"
proof
  assume eq: "baddr m j y = baddr m k x"
  have "(k, x) \<in> fblocks F \<union> A" "(j, y) \<in> fblocks F \<union> A" using assms(2-6) by (auto simp: fblocks_def)
  moreover have "y * 2 ^ j = x * 2 ^ k" using eq by (simp add: baddr_def PG_SIZE_def)
  then have "in_block k x (x * 2 ^ k)" "in_block j y (x * 2 ^ k)"
    using in_block_first [of k x] in_block_first [of j y] by simp_all
  ultimately show False
    using disjoint_blocksD [OF part_invD(6) [OF assms(1)]] assms(4) by blast
qed

text \<open>After a list operation on order \<open>k\<close> that only touched blocks of that order.\<close>

lemma heap_after:
  assumes "buddy_inv m n F A" and "k < 9" and fr: "mem_frame m m' k ps"
    and "dll (blocks m') 0 (free_list m' ! k) (map (baddr m k) xs)"
    and ps: "\<And>j y. j < 9 \<Longrightarrow> j \<noteq> k \<Longrightarrow> y \<in> set (F j) \<Longrightarrow> baddr m j y \<notin> ps"
    and c: "free_count m ! k + d = of_nat (length xs)"
  shows "\<exists>m2. add_free_count m' k d = Some m2 \<and> heap_ok m2 (F(k := xs)) \<and> arena_ok m2 n \<and>
    buddy_table m2 = buddy_table m \<and> m2 = m\<lparr>blocks := blocks m2, free_list := free_list m2, free_count := free_count m2\<rparr>"
proof -
  have ar: "arena_ok m n" and hp: "heap_ok m F" using assms(1) by (simp_all add: buddy_inv_def)
  then have len: "length (free_count m) = 9" "length (free_list m) = 9" by (simp_all add: arena_ok_def)
  define m2 where "m2 = m'\<lparr>free_count := (free_count m)[k := free_count m ! k + d]\<rparr>"
  have m': "m' = m\<lparr>blocks := blocks m', free_list := (free_list m)[k := free_list m' ! k]\<rparr>"
    using fr by (simp add: mem_frame_def)
  obtain bl h where m'': "m' = m\<lparr>blocks := bl, free_list := (free_list m)[k := h]\<rparr>"
    using m' by blast
  have "add_free_count m' k d = Some m2"
    using len assms(2) by (simp add: add_free_count_def m2_def m'')
  moreover have "arena_ok m2 n" by (rule arena_cong [OF ar]) (simp_all add: m2_def m'')
  moreover have "heap_ok m2 (F(k := xs))"
    unfolding heap_ok_def
  proof (intro allI impI)
    fix j :: nat assume j: "j < 9"
    have b: "baddr m2 = baddr m" by (rule baddr_cong) (simp add: m2_def m'')
    show "dll (blocks m2) 0 (free_list m2 ! j) (map (baddr m2 j) ((F(k := xs)) j)) \<and>
      free_count m2 ! j = of_nat (length ((F(k := xs)) j))"
    proof (cases "j = k")
      case True
      then show ?thesis using assms(4) c len j by (simp add: b) (simp add: m2_def m'')
    next
      case False
      have "dll (blocks m') 0 (free_list m ! j) (map (baddr m j) (F j))
          = dll (blocks m) 0 (free_list m ! j) (map (baddr m j) (F j))"
        using ps [OF j False] by (intro mem_frame_dll [OF fr]) auto
      then show ?thesis using hp False len j by (simp add: b heap_ok_def) (simp add: m2_def m'')
    qed
  qed
  ultimately show ?thesis by (intro exI [of _ m2]) (simp add: m2_def m'')
qed

lemma heap_attach:
  assumes "buddy_inv m n F A" and "k < 9" and "(x + 1) * 2 ^ k \<le> n" and "x \<notin> set (F k)"
    and ps: "\<And>j y. j < 9 \<Longrightarrow> j \<noteq> k \<Longrightarrow> y \<in> set (F j) \<Longrightarrow> baddr m j y \<noteq> baddr m k x"
  shows "\<exists>m1 m2. attach_to_free_list m (baddr m k x) k = Some (baddr m k x, m1) \<and>
    m1 = m\<lparr>blocks := blocks m1, free_list := free_list m1\<rparr> \<and>
    add_free_count m1 k 1 = Some m2 \<and> heap_ok m2 (F(k := x # F k)) \<and> arena_ok m2 n \<and>
    m2 = m\<lparr>blocks := blocks m1, free_list := free_list m1, free_count := free_count m2\<rparr>"
proof -
  have ar: "arena_ok m n" and hp: "heap_ok m F" and pt: "part_inv n F A" using assms(1) by (simp_all add: buddy_inv_def)
  have "dll (blocks m) 0 (free_list m ! k) (map (baddr m k) (F k))" and c: "free_count m ! k = of_nat (length (F k))"
    using hp assms(2) by (auto simp: heap_ok_def)
  moreover have "distinct (baddr m k x # map (baddr m k) (F k))"
    using part_invD(3) [OF pt assms(2)] assms(4) by (auto simp: distinct_map inj_on_def)
  moreover have "k < length (free_list m)" using ar assms(2) by (simp add: arena_ok_def)
  ultimately obtain m1 where m1: "attach_to_free_list m (baddr m k x) k = Some (baddr m k x, m1)"
    "dll (blocks m1) 0 (free_list m1 ! k) (map (baddr m k) (x # F k))"
    "mem_frame m m1 k (set (map (baddr m k) (x # F k)))"
    using attach_to_free_list_spec [OF baddr_range(1) [OF ar assms(3)] _ baddr_range(2) [OF ar assms(3)]]
    by force
  have "baddr m j y \<notin> set (map (baddr m k) (x # F k))" if "j < 9" "j \<noteq> k" "y \<in> set (F j)" for j y
    using ps [OF that] free_addr_distinct [OF pt that(1) assms(2) that(2) _ that(3)] by auto
  from heap_after [OF assms(1,2) m1(3,2) this, of 1] c obtain m2 where
    "add_free_count m1 k 1 = Some m2" "heap_ok m2 (F(k := x # F k))" "arena_ok m2 n"
    "m2 = m\<lparr>blocks := blocks m2, free_list := free_list m2, free_count := free_count m2\<rparr>"
    by auto
  moreover have "m1 = m\<lparr>blocks := blocks m1, free_list := free_list m1\<rparr>"
    using m1(3) unfolding mem_frame_def by (metis memory_info.surjective memory_info.update_convs memory_info.select_convs)
  ultimately show ?thesis using m1(1) 
    by (auto simp: add_free_count_def option_steps)
qed


lemma heap_remove:
  assumes "buddy_inv m n F A" and "k < 9" and "F k = xs @ x # ys"
  shows "\<exists>m1 m2. remove_from_free_list m (baddr m k x) k = Some (baddr m k x, m1) \<and>
    add_free_count m1 k (- 1) = Some m2 \<and> heap_ok m2 (F(k := xs @ ys)) \<and> arena_ok m2 n \<and>
    m2 = m\<lparr>blocks := blocks m2, free_list := free_list m2, free_count := free_count m2\<rparr>"
proof -
  let ?b = "baddr m k"
  have ar: "arena_ok m n" and hp: "heap_ok m F" and pt: "part_inv n F A" using assms(1) by (simp_all add: buddy_inv_def)
  have le: "(x + 1) * 2 ^ k \<le> n" using part_invD(2) [OF pt assms(2), of x] assms(3) by simp
  have d: "dll (blocks m) 0 (free_list m ! k) (map ?b xs @ ?b x # map ?b ys)"
    and c: "free_count m ! k = of_nat (length (F k))"
    using hp assms(2,3) by (auto simp: heap_ok_def)
  have ds: "distinct (map ?b xs @ ?b x # map ?b ys)"
    using part_invD(3) [OF pt assms(2)] assms(3) by (auto simp: distinct_map inj_on_def)
  have kl: "k < length (free_list m)" using ar assms(2) by (simp add: arena_ok_def)
  obtain m1 where m1: "remove_from_free_list m (?b x) k = Some (?b x, m1)"
    "dll (blocks m1) 0 (free_list m1 ! k) (map ?b (xs @ ys))"
    "mem_frame m m1 k (set (map ?b xs @ ?b x # map ?b ys))"
    using remove_from_free_list_spec [OF baddr_range(1) [OF ar le] kl d ds] by (simp only: map_append) blast
  have "baddr m j y \<notin> set (map ?b xs @ ?b x # map ?b ys)" if "j < 9" "j \<noteq> k" "y \<in> set (F j)" for j y
  proof
    assume "baddr m j y \<in> set (map ?b xs @ ?b x # map ?b ys)"
    then obtain z where "z \<in> set (F k)" "baddr m j y = ?b z" using assms(3) by auto
    then show False using free_addr_distinct [OF pt that(1) assms(2) that(2) _ that(3), of z m] by simp
  qed
  from heap_after [OF assms(1,2) m1(3,2) this, of "- 1"] c assms(3) m1(1) show ?thesis
    by auto
qed

text \<open>The pair bit follows a change of one block's freeness.\<close>

lemma bits_flip:
  assumes "bits_ok m n F" and "k < 9"
    and "\<forall>j i. j < 9 \<longrightarrow> i * 2 ^ Suc j < n \<longrightarrow> bbit m' j i = (if j = k \<and> i = x div 2 then \<not> bbit m j i else bbit m j i)"
    and "(x \<in> set xs) = (x \<notin> set (F k))" and "\<And>y. y \<noteq> x \<Longrightarrow> (y \<in> set xs) = (y \<in> set (F k))"
  shows "bits_ok m' n (F(k := xs))"
  unfolding bits_ok_def
proof (intro allI impI)
  fix j i assume a: "j < (8::nat)" "i * 2 ^ Suc j < n"
  then have old: "bbit m j i = ((2 * i \<in> set (F j)) \<noteq> (2 * i + 1 \<in> set (F j)))"
    and new: "bbit m' j i = (if j = k \<and> i = x div 2 then \<not> bbit m j i else bbit m j i)"
    using assms(1,3) by (auto simp: bits_ok_def)
  show "bbit m' j i = ((2 * i \<in> set ((F(k := xs)) j)) \<noteq> (2 * i + 1 \<in> set ((F(k := xs)) j)))"
  proof (cases "j = k \<and> i = x div 2")
    case True
    then consider "x = 2 * i" | "x = 2 * i + 1" by linarith
    then show ?thesis
      using True old new assms(4) assms(5) [of "2 * i"] assms(5) [of "2 * i + 1"] by cases auto
  next
    case False
    then have "j = k \<Longrightarrow> 2 * i \<noteq> x \<and> 2 * i + 1 \<noteq> x" by auto
    then show ?thesis
      using False old new assms(5) [of "2 * i"] assms(5) [of "2 * i + 1"] by (cases "j = k") auto
  qed
qed

subsection \<open>Page records of the arena\<close>

definition page_at :: "memory_info \<Rightarrow> nat \<Rightarrow> page_info" where
  "page_at m p = pages_info m ! ((usable_memory_start m - memory_start m) div PG_SIZE + p)"

lemma upd_block_pages:
  assumes "arena_ok m n" and "(x + 1) * 2 ^ k \<le> n"
  shows "\<exists>pi. upd_pages f m (baddr m k x) (2 ^ k) = Some (m\<lparr>pages_info := pi\<rparr>) \<and>
    length pi = length (pages_info m) \<and>
    (\<forall>p < n. page_at (m\<lparr>pages_info := pi\<rparr>) p = (if in_block k x p then f (page_at m p) else page_at m p))"
proof -
  obtain s where s: "usable_memory_start m = memory_start m + s * PG_SIZE" "s + n \<le> length (pages_info m)"
    using assms(1) by (auto simp: arena_ok_def)
  have "baddr m k x = memory_start m + (s + x * 2 ^ k) * PG_SIZE"
    by (simp add: baddr_def s algebra_simps)
  moreover have "s + x * 2 ^ k + 2 ^ k \<le> length (pages_info m)" using assms(2) s(2) by simp
  ultimately obtain pi where pi: "upd_pages f m (baddr m k x) (2 ^ k) = Some (m\<lparr>pages_info := pi\<rparr>)"
    "length pi = length (pages_info m)"
    "\<forall>j < length pi. pi ! j = (if s + x * 2 ^ k \<le> j \<and> j < s + x * 2 ^ k + 2 ^ k then f (pages_info m ! j) else pages_info m ! j)"
    using upd_pages_ok [of "baddr m k x" m "s + x * 2 ^ k" "2 ^ k" f] by blast
  have st: "(usable_memory_start m - memory_start m) div PG_SIZE = s" by (simp add: s(1))
  have "page_at (m\<lparr>pages_info := pi\<rparr>) p = (if in_block k x p then f (page_at m p) else page_at m p)"
    if "p < n" for p
    using that pi(2,3) s(2) by (simp add: page_at_def st in_block_iff)
  with pi(1,2) show ?thesis by blast
qed


subsection \<open>Allocation\<close>

text \<open>Taking the first block of a non-empty list.\<close>

lemma alloc_take:
  assumes "buddy_inv m n F A" and "k < 9" and "F k = x # xs"
  shows "\<exists>m1 m2 m3 b. remove_from_free_list m (baddr m k x) k = Some (baddr m k x, m1) \<and>
    add_free_count m1 k (- 1) = Some m2 \<and> xor_buddy_map m2 (baddr m k x) k = Some (b, m3) \<and>
    buddy_inv m3 n (F(k := xs)) (insert (k, x) A) \<and>
    usable_memory_start m3 = usable_memory_start m \<and> pages_info m3 = pages_info m \<and>
    mem_lock m3 = mem_lock m \<and> memory_start m3 = memory_start m"
proof -
  have pt: "part_inv n F A" and bt: "bits_ok m n F" using assms(1) by (simp_all add: buddy_inv_def)
  have le: "(x + 1) * 2 ^ k \<le> n" using part_invD(2) [OF pt assms(2), of x] assms(3) by simp
  obtain m1 m2 where m: "remove_from_free_list m (baddr m k x) k = Some (baddr m k x, m1)"
    "add_free_count m1 k (- 1) = Some m2" "heap_ok m2 (F(k := xs))" "arena_ok m2 n"
    "m2 = m\<lparr>blocks := blocks m2, free_list := free_list m2, free_count := free_count m2\<rparr>"
    using heap_remove [OF assms(1,2), of "[]" x xs] assms(3) by auto
  obtain bl fl fc where m2: "m2 = m\<lparr>blocks := bl, free_list := fl, free_count := fc\<rparr>" using m(5) by blast
  have ba: "baddr m2 = baddr m" by (rule baddr_cong) (simp add: m2)
  obtain t where t: "xor_buddy_map m2 (baddr m k x) k = Some (of_bool (\<not> bbit m2 k (x div 2)), m2\<lparr>buddy_table := t\<rparr>)"
    "length t = length (buddy_table m2)"
    "\<forall>j i. j < 9 \<longrightarrow> i * 2 ^ Suc j < n \<longrightarrow>
       bbit (m2\<lparr>buddy_table := t\<rparr>) j i = (if j = k \<and> i = x div 2 then \<not> bbit m2 j i else bbit m2 j i)"
    using xor_buddy_map_spec [OF m(4) assms(2) le] unfolding ba by blast
  let ?m3 = "m2\<lparr>buddy_table := t\<rparr>"
  have "bits_ok m2 n F" by (rule bits_cong [OF bt]) (simp_all add: m2)
  from bits_flip [OF this assms(2) t(3), of xs] have "bits_ok ?m3 n (F(k := xs))"
    using assms(3) part_invD(3) [OF pt assms(2)] by auto
  moreover have "heap_ok ?m3 (F(k := xs))" by (rule heap_cong [OF m(3)]) simp_all
  moreover have "arena_ok ?m3 n" by (rule arena_cong [OF m(4)]) (simp_all add: t(2))
  moreover have "part_inv n (F(k := xs)) (insert (k, x) A)" by (rule part_inv_take [OF pt assms(2,3)])
  ultimately have "buddy_inv ?m3 n (F(k := xs)) (insert (k, x) A)" by (simp add: buddy_inv_def)
  with m(1,2) t(1) show ?thesis by (simp add: m2)
qed

text \<open>Splitting a block of the next order: the lower half goes to the free list.\<close>

lemma alloc_split:
  assumes "buddy_inv m n F A" and "(Suc k, y) \<in> A"
  shows "\<exists>m1 m2 m3 b. attach_to_free_list m (baddr m (Suc k) y) k = Some (baddr m (Suc k) y, m1) \<and>
    add_free_count m1 k 1 = Some m2 \<and>
    xor_buddy_map m2 (baddr m k (2 * y + 1)) k = Some (b, m3) \<and>
    buddy_inv m3 n (F(k := 2 * y # F k)) (insert (k, 2 * y + 1) (A - {(Suc k, y)})) \<and>
    usable_memory_start m3 = usable_memory_start m \<and> pages_info m3 = pages_info m \<and>
    mem_lock m3 = mem_lock m \<and> memory_start m3 = memory_start m"
proof -
  let ?x = "2 * y + 1" and ?F = "F(k := 2 * y # F k)"
  have pt: "part_inv n F A" and bt: "bits_ok m n F" using assms(1) by (simp_all add: buddy_inv_def)
  note sp = part_inv_split [OF pt assms(2)]
  have k: "k < 9" and sk: "Suc k < 9" using part_invD(1) [OF pt assms(2)] by simp_all
  have le: "(2 * y + 1) * 2 ^ k \<le> n" "(?x + 1) * 2 ^ k \<le> n"
    using part_invD(2) [OF sp(1) k, of "2 * y"] part_invD(1) [OF sp(1), of k ?x] by simp_all
  have "baddr m j z \<noteq> baddr m k (2 * y)" if "j < 9" "j \<noteq> k" "z \<in> set (F j)" for j z
  proof (cases "j = Suc k")
    case True
    then show ?thesis using that part_invD(5) [OF pt sk assms(2)] baddr_inj [of m j z y]
      by (auto simp flip: baddr_halves(1))
  next
    case False
    then show ?thesis
      using free_addr_distinct [OF pt that(1) sk False _ that(3), of y m] assms(2) by (simp add: baddr_halves)
  qed
  from heap_attach [OF assms(1) k le(1) sp(2) this] obtain m1 m2 where
    m: "attach_to_free_list m (baddr m k (2 * y)) k = Some (baddr m k (2 * y), m1)"
    "add_free_count m1 k 1 = Some m2" "heap_ok m2 ?F" "arena_ok m2 n"
    "m2 = m\<lparr>blocks := blocks m1, free_list := free_list m1, free_count := free_count m2\<rparr>"
    by blast
  obtain bl fl fc where m2: "m2 = m\<lparr>blocks := bl, free_list := fl, free_count := fc\<rparr>" using m(5) by blast
  have ba: "baddr m2 = baddr m" by (rule baddr_cong) (simp add: m2)
  obtain t where t: "xor_buddy_map m2 (baddr m k ?x) k = Some (of_bool (\<not> bbit m2 k (?x div 2)), m2\<lparr>buddy_table := t\<rparr>)"
    "length t = length (buddy_table m2)"
    "\<forall>j i. j < 9 \<longrightarrow> i * 2 ^ Suc j < n \<longrightarrow>
       bbit (m2\<lparr>buddy_table := t\<rparr>) j i = (if j = k \<and> i = ?x div 2 then \<not> bbit m2 j i else bbit m2 j i)"
    using xor_buddy_map_spec [OF m(4) k le(2)] unfolding ba by blast
  let ?m3 = "m2\<lparr>buddy_table := t\<rparr>"
  have "bits_ok m2 n F" by (rule bits_cong [OF bt]) (simp_all add: m2)
  then have "bits_ok ?m3 n ?F"
    using t(3) sp(2) by (intro bits_flip [where x = "2 * y"]) (auto simp: k)
  moreover have "heap_ok ?m3 ?F" by (rule heap_cong [OF m(3)]) simp_all
  moreover have "arena_ok ?m3 n" by (rule arena_cong [OF m(4)]) (simp_all add: t(2))
  ultimately have "buddy_inv ?m3 n ?F (insert (k, ?x) (A - {(Suc k, y)}))"
    using sp(1) by (simp add: buddy_inv_def)
  with m(1,2) t(1) show ?thesis by (simp add: m2 baddr_halves(1))
qed


text \<open>What a caller may rely on besides the invariant: the layout and the lock word stay, the
  records of pages in other allocated blocks stay, and buddies are never both left free.\<close>

definition same_layout :: "memory_info \<Rightarrow> memory_info \<Rightarrow> bool" where
  "same_layout m m' \<longleftrightarrow> usable_memory_start m' = usable_memory_start m \<and> memory_start m' = memory_start m \<and>
     mem_lock m' = mem_lock m"

definition pages_kept :: "memory_info \<Rightarrow> memory_info \<Rightarrow> nat \<Rightarrow> (nat \<times> nat) set \<Rightarrow> bool" where
  "pages_kept m m' n A \<longleftrightarrow>
     (\<forall>k i p. (k, i) \<in> A \<longrightarrow> p < n \<longrightarrow> in_block k i p \<longrightarrow> page_at m' p = page_at m p)"

definition block_marked :: "memory_info \<Rightarrow> nat \<Rightarrow> nat \<Rightarrow> nat \<Rightarrow> u16 \<Rightarrow> bool" where
  "block_marked m n k i attr \<longleftrightarrow>
     (\<forall>p < n. in_block k i p \<longrightarrow> page_at m p = \<lparr>pg_type = attr, reference = 1\<rparr>)"

definition coalesced :: "(nat \<Rightarrow> nat list) \<Rightarrow> bool" where
  "coalesced F \<longleftrightarrow> (\<forall>k<8. \<forall>i. \<not> (2 * i \<in> set (F k) \<and> 2 * i + 1 \<in> set (F k)))"

definition alloc_ok ::
  "memory_info \<Rightarrow> nat \<Rightarrow> (nat \<Rightarrow> nat list) \<Rightarrow> (nat \<times> nat) set \<Rightarrow> nat \<Rightarrow> u16 \<Rightarrow> nat \<Rightarrow> memory_info \<Rightarrow> bool" where
  "alloc_ok m n F A k attr i m' \<longleftrightarrow> (k, i) \<notin> A \<and> block_marked m' n k i attr \<and> pages_kept m m' n A \<and>
     same_layout m m' \<and>
     (\<exists>F'. buddy_inv m' n F' (insert (k, i) A) \<and> (\<forall>j<k. F' j = F j) \<and> (coalesced F \<longrightarrow> coalesced F'))"

lemma alloc_mark:
  assumes "buddy_inv m n F (insert (k, i) A)" and "(k, i) \<notin> A"
  shows "\<exists>m'. upd_pages (\<lambda>pg. pg\<lparr>pg_type := attr, reference := 1\<rparr>) m (baddr m k i) (2 ^ k) = Some m' \<and>
    buddy_inv m' n F (insert (k, i) A) \<and> block_marked m' n k i attr \<and> pages_kept m m' n A \<and> same_layout m m'"
proof -
  have ar: "arena_ok m n" and pt: "part_inv n F (insert (k, i) A)" and bt: "bits_ok m n F" and hp: "heap_ok m F"
    using assms(1) by (simp_all add: buddy_inv_def)
  have le: "(i + 1) * 2 ^ k \<le> n" using part_invD(1) [OF pt, of k i] by simp
  from upd_block_pages [OF ar le] obtain pi where
    u: "upd_pages (\<lambda>pg. pg\<lparr>pg_type := attr, reference := 1\<rparr>) m (baddr m k i) (2 ^ k) = Some (m\<lparr>pages_info := pi\<rparr>)"
    "length pi = length (pages_info m)"
    "\<forall>p<n. page_at (m\<lparr>pages_info := pi\<rparr>) p = (if in_block k i p then (page_at m p)\<lparr>pg_type := attr, reference := 1\<rparr> else page_at m p)"
    by blast
  let ?m = "m\<lparr>pages_info := pi\<rparr>"
  have "buddy_inv ?m n F (insert (k, i) A)"
    using pt arena_cong [OF ar, of ?m] heap_cong [OF hp, of ?m] bits_cong [OF bt, of ?m] u(2)
    by (simp add: buddy_inv_def)
  moreover have "pages_kept m ?m n A"
  proof -
    have "\<not> in_block k i p" if "(k', i') \<in> A" "in_block k' i' p" for k' i' p
      using disjoint_blocksD [OF part_invD(6) [OF pt], of k' i' k i p] that assms(2) by auto
    then show ?thesis using u(3) by (auto simp: pages_kept_def)
  qed
  ultimately show ?thesis using u by (simp add: block_marked_def same_layout_def)
qed

lemma pages_kept_trans:
  "pages_kept m m' n A \<Longrightarrow> pages_kept m' m'' n B \<Longrightarrow> A \<subseteq> B \<Longrightarrow> pages_kept m m'' n A"
  unfolding pages_kept_def by (metis subsetD)

lemma same_layout_trans: "same_layout m m' \<Longrightarrow> same_layout m' m'' \<Longrightarrow> same_layout m m''"
  by (simp add: same_layout_def)

lemma same_layout_baddr: "same_layout m m' \<Longrightarrow> baddr m' = baddr m"
  by (intro baddr_cong) (simp add: same_layout_def)

lemma pages_kept_eq:
  "pages_info m' = pages_info m \<Longrightarrow> usable_memory_start m' = usable_memory_start m \<Longrightarrow>
    memory_start m' = memory_start m \<Longrightarrow> pages_kept m m' n A"
  by (simp add: pages_kept_def page_at_def)

lemma alloc_from_list:
  assumes "buddy_inv m n F A" and "k < 9" and "F k = x # xs"
  shows "\<exists>m'. allocate_pages_of_power_2 m k attr = Some (baddr m k x, m') \<and> alloc_ok m n F A k attr x m'"
proof -
  have ar: "arena_ok m n" and hp: "heap_ok m F" and pt: "part_inv n F A" using assms(1) by (simp_all add: buddy_inv_def)
  from alloc_take [OF assms] obtain m1 m2 m3 b where
    s: "remove_from_free_list m (baddr m k x) k = Some (baddr m k x, m1)"
    "add_free_count m1 k (- 1) = Some m2" "xor_buddy_map m2 (baddr m k x) k = Some (b, m3)"
    "buddy_inv m3 n (F(k := xs)) (insert (k, x) A)"
    "usable_memory_start m3 = usable_memory_start m" "pages_info m3 = pages_info m"
    "mem_lock m3 = mem_lock m" "memory_start m3 = memory_start m" by blast
  have fresh: "(k, x) \<notin> A" using part_inv_take(2) [OF pt assms(2,3)] .
  have ba: "baddr m3 = baddr m" by (rule baddr_cong [OF s(5)])
  from alloc_mark [OF s(4) fresh, of attr] obtain m' where
    m': "upd_pages (\<lambda>pg. pg\<lparr>pg_type := attr, reference := 1\<rparr>) m3 (baddr m k x) (2 ^ k) = Some m'"
    "buddy_inv m' n (F(k := xs)) (insert (k, x) A)" "block_marked m' n k x attr" "pages_kept m3 m' n A" "same_layout m3 m'"
    unfolding ba by blast
  have le: "(x + 1) * 2 ^ k \<le> n" using part_invD(2) [OF pt assms(2), of x] assms(3) by simp
  have h: "free_list m ! k = baddr m k x" "free_count m ! k = of_nat (Suc (length xs))"
    using hp assms(2,3) unfolding heap_ok_def by force+
  have "length xs < 2 ^ 52"
  proof -
    have "(Suc (length xs)) * 2 ^ k \<le> n"
    proof -
      have "length (F k) * 2 ^ k \<le> free_pages F" unfolding free_pages_def
        using assms(2) by (intro member_le_sum [of k "{..<9}" "\<lambda>k. length (F k) * 2 ^ k"]) auto
      then show ?thesis using pt assms(3) unfolding part_inv_def by simp
    qed
    moreover have "Suc (length xs) * 1 \<le> Suc (length xs) * 2 ^ k" by (intro mult_le_mono2) simp
    ultimately have "Suc (length xs) \<le> n" by (metis mult_1_right order_trans)
    moreover have "n < 2 ^ 52" using ar by (simp add: arena_ok_def)
    ultimately show ?thesis by linarith
  qed
  then have "(of_nat (Suc (length xs)) :: u64) \<noteq> 0"
    by (subst word_of_nat_eq_0_iff) (simp add: nat_dvd_not_less)
  then have c: "free_count m ! k \<noteq> 0" using h(2) by simp
  have "allocate_pages_of_power_2 m k attr = Some (baddr m k x, m')"
    using c h(1) s m'(1) assms(2) ar baddr_range(2) [OF ar le]
    by (simp add: allocate_pages_of_power_2.simps [of m k] MAX_BUDDY_ORDER_def arena_ok_def)
  moreover have "pages_kept m m' n A"
    using pages_kept_trans [OF pages_kept_eq [of m3 m] m'(4)] s by blast
  moreover have "coalesced F \<longrightarrow> coalesced (F(k := xs))" using assms(3) by (auto simp: coalesced_def)
  moreover have "same_layout m m'" using s m'(5) by (simp add: same_layout_def)
  ultimately show ?thesis using m'(2,3) fresh unfolding alloc_ok_def
    by (metis fun_upd_other less_irrefl)
qed


lemma alloc_from_above:
  assumes inv: "buddy_inv m n F A" and k: "k < 9" and e: "F k = []"
    and up: "allocate_pages_of_power_2 m (Suc k) 0 = Some (baddr m (Suc k) y, m1)"
    and ok: "alloc_ok m n F A (Suc k) 0 y m1"
  shows "\<exists>m'. allocate_pages_of_power_2 m k attr = Some (baddr m k (2 * y + 1), m') \<and>
    alloc_ok m n F A k attr (2 * y + 1) m'"
proof -
  from ok obtain F1 where ok1: "(Suc k, y) \<notin> A" "pages_kept m m1 n A" "same_layout m m1"
    "buddy_inv m1 n F1 (insert (Suc k, y) A)" "\<forall>j<Suc k. F1 j = F j" "coalesced F \<longrightarrow> coalesced F1"
    unfolding alloc_ok_def by blast
  have ba1: "baddr m1 = baddr m" by (rule same_layout_baddr [OF ok1(3)])
  have pt1: "part_inv n F1 (insert (Suc k, y) A)" and ar1: "arena_ok m1 n" using ok1(4) by (simp_all add: buddy_inv_def)
  let ?x = "2 * y + 1" and ?F = "F1(k := 2 * y # F1 k)"
  from alloc_split [OF ok1(4), of k y] obtain m2 m3 m4 b where
    s: "attach_to_free_list m1 (baddr m (Suc k) y) k = Some (baddr m (Suc k) y, m2)"
    "add_free_count m2 k 1 = Some m3" "xor_buddy_map m3 (baddr m k ?x) k = Some (b, m4)"
    "buddy_inv m4 n ?F (insert (k, ?x) (insert (Suc k, y) A - {(Suc k, y)}))"
    "usable_memory_start m4 = usable_memory_start m1" "pages_info m4 = pages_info m1"
    "mem_lock m4 = mem_lock m1" "memory_start m4 = memory_start m1"
    unfolding ba1 by blast
  have rm: "insert (Suc k, y) A - {(Suc k, y)} = A" using ok1(1) by auto
  have fresh: "(k, ?x) \<notin> A" using part_inv_split(4) [OF pt1, of k y] by simp
  have ba4: "baddr m4 = baddr m" using baddr_cong [OF s(5)] ba1 by simp
  from alloc_mark [OF s(4) [unfolded rm] fresh, of attr] obtain m' where
    m': "upd_pages (\<lambda>pg. pg\<lparr>pg_type := attr, reference := 1\<rparr>) m4 (baddr m k ?x) (2 ^ k) = Some m'"
    "buddy_inv m' n ?F (insert (k, ?x) A)" "block_marked m' n k ?x attr" "pages_kept m4 m' n A" "same_layout m4 m'"
    unfolding ba4 by blast
  have "free_count m ! k = 0" "length (free_count m) = 9"
    using inv k e by (simp_all add: buddy_inv_def heap_ok_def arena_ok_def)
  moreover have nz: "baddr m (Suc k) y \<noteq> 0" "baddr m k ?x \<noteq> 0"
    using inv by (auto simp: buddy_inv_def arena_ok_def baddr_def)
  moreover have "baddr m (Suc k) y + 2 ^ k * PG_SIZE = baddr m k ?x"
    using baddr_halves by metis
  ultimately have "allocate_pages_of_power_2 m k attr = Some (baddr m k ?x, m')"
    using k up s(1,2,3) m'(1)
    by (simp add: allocate_pages_of_power_2.simps [of m k] MAX_BUDDY_ORDER_def)
  moreover have "pages_kept m m' n A"
    using pages_kept_trans [OF ok1(2) pages_kept_trans [OF pages_kept_eq [of m4 m1] m'(4)]] s by blast
  moreover have "coalesced F1 \<Longrightarrow> coalesced ?F"
    using e ok1(5) by (auto simp: coalesced_def)
  moreover have "same_layout m m'" using s m'(5) ok1(3) by (simp add: same_layout_def)
  moreover have "\<forall>j<k. ?F j = F j" using ok1(5) by simp
  ultimately show ?thesis using m'(2,3) fresh ok1(6) unfolding alloc_ok_def by metis
qed

lemma allocate_spec:
  assumes "buddy_inv m n F A" and "k \<le> 9"
  shows "(\<exists>i m'. allocate_pages_of_power_2 m k attr = Some (baddr m k i, m') \<and> alloc_ok m n F A k attr i m') \<or>
    allocate_pages_of_power_2 m k attr = Some (0, m) \<and> (\<forall>j. k \<le> j \<longrightarrow> j < 9 \<longrightarrow> F j = [])"
  using assms(2)
proof (induction k arbitrary: attr rule: inc_induct)
  case base
  then show ?case by (simp add: allocate_pages_of_power_2.simps MAX_BUDDY_ORDER_def)
next
  case (step k)
  show ?case
  proof (cases "F k")
    case (Cons x xs)
    then show ?thesis using alloc_from_list [OF assms(1) step.hyps(2) Cons, of attr] by blast
  next
    case Nil
    from step.IH [of 0] show ?thesis
    proof
      assume "\<exists>i m'. allocate_pages_of_power_2 m (Suc k) 0 = Some (baddr m (Suc k) i, m') \<and> alloc_ok m n F A (Suc k) 0 i m'"
      then show ?thesis using alloc_from_above [OF assms(1) step.hyps(2) Nil] by blast
    next
      assume a: "allocate_pages_of_power_2 m (Suc k) 0 = Some (0, m) \<and> (\<forall>j. Suc k \<le> j \<longrightarrow> j < 9 \<longrightarrow> F j = [])"
      have "free_count m ! k = 0" "length (free_count m) = 9"
        using assms(1) step.hyps(2) Nil by (simp_all add: buddy_inv_def heap_ok_def arena_ok_def)
      then have "allocate_pages_of_power_2 m k attr = Some (0, m)"
        using a step.hyps(2) by (simp add: allocate_pages_of_power_2.simps [of m k] MAX_BUDDY_ORDER_def)
      moreover have "\<forall>j. k \<le> j \<longrightarrow> j < 9 \<longrightarrow> F j = []" using a Nil by (metis Suc_leI le_neq_implies_less)
      ultimately show ?thesis by blast
    qed
  qed
qed

subsection \<open>Release\<close>

definition free_ok ::
  "memory_info \<Rightarrow> nat \<Rightarrow> (nat \<Rightarrow> nat list) \<Rightarrow> (nat \<times> nat) set \<Rightarrow> nat \<Rightarrow> nat \<Rightarrow> memory_info \<Rightarrow> bool" where
  "free_ok m n F A k x m' \<longleftrightarrow> pages_kept m m' n (A - {(k, x)}) \<and> same_layout m m' \<and>
     (\<exists>F'. buddy_inv m' n F' (A - {(k, x)}) \<and> (coalesced F \<longrightarrow> coalesced F'))"

lemma buddy_address:
  assumes "arena_ok m n" and "(x + 1) * 2 ^ k \<le> n"
  shows "(if (baddr m k x - usable_memory_start m) div PG_SIZE
        = push_bit (k + 1) (drop_bit (k + 1) ((baddr m k x - usable_memory_start m) div PG_SIZE))
      then baddr m k x + 2 ^ k * PG_SIZE else baddr m k x - 2 ^ k * PG_SIZE) = baddr m k (buddy_of x)"
    and "(if baddr m k (buddy_of x) < baddr m k x then baddr m k (buddy_of x) else baddr m k x)
      = baddr m (Suc k) (x div 2)"
proof -
  have p: "push_bit (k + 1) (drop_bit (k + 1) (x * 2 ^ k)) = x div 2 * 2 * 2 ^ k"
    unfolding block_index_half by (simp add: push_bit_eq_mult)
  have "x = x div 2 * 2 \<longleftrightarrow> even x" by presburger
  then have c: "x * 2 ^ k = push_bit (k + 1) (drop_bit (k + 1) (x * 2 ^ k)) \<longleftrightarrow> even x"
    unfolding p by (simp only: mult_cancel2) simp
  show "(if (baddr m k x - usable_memory_start m) div PG_SIZE
        = push_bit (k + 1) (drop_bit (k + 1) ((baddr m k x - usable_memory_start m) div PG_SIZE))
      then baddr m k x + 2 ^ k * PG_SIZE else baddr m k x - 2 ^ k * PG_SIZE) = baddr m k (buddy_of x)"
    unfolding baddr_range(5) [OF assms] c
    by (auto simp: buddy_of_def baddr_def algebra_simps elim!: oddE)
  show "(if baddr m k (buddy_of x) < baddr m k x then baddr m k (buddy_of x) else baddr m k x)
      = baddr m (Suc k) (x div 2)"
    by (cases "even x") (auto simp: buddy_of_def baddr_def algebra_simps elim!: evenE oddE)
qed


lemma free_attach:
  assumes inv: "buddy_inv m n F A" and kx: "(k, x) \<in> A" and bit: "k = 8 \<or> \<not> bbit m k (x div 2)"
  shows "\<exists>m'. free_pages_of_power_2 m (baddr m k x) k = Some (0, m') \<and> free_ok m n F A k x m'"
proof -
  have pt: "part_inv n F A" and ar: "arena_ok m n" and hp: "heap_ok m F" and bt: "bits_ok m n F"
    using inv by (simp_all add: buddy_inv_def)
  have k: "k < 9" and le: "(x + 1) * 2 ^ k \<le> n" using part_invD(1) [OF pt kx] by simp_all
  have nf: "x \<notin> set (F k)" using part_invD(5) [OF pt k kx] .
  from xor_buddy_map_spec [OF ar k le] obtain t where
    t: "xor_buddy_map m (baddr m k x) k = Some (of_bool (\<not> bbit m k (x div 2)), m\<lparr>buddy_table := t\<rparr>)"
    "length t = length (buddy_table m)"
    "\<forall>j i. j < 9 \<longrightarrow> i * 2 ^ Suc j < n \<longrightarrow>
       bbit (m\<lparr>buddy_table := t\<rparr>) j i = (if j = k \<and> i = x div 2 then \<not> bbit m j i else bbit m j i)"
    by blast
  let ?F = "F(k := x # F k)"
  have neq: "baddr m j y \<noteq> baddr m k x" if "j < 9" "j \<noteq> k" "y \<in> set (F j)" for j y
    using free_addr_distinct [OF pt that(1) k that(2) _ that(3)] kx by blast
  from heap_attach [OF inv k le nf neq] obtain m1 m2 where
    a: "attach_to_free_list m (baddr m k x) k = Some (baddr m k x, m1)"
    "m1 = m\<lparr>blocks := blocks m1, free_list := free_list m1\<rparr>"
    "add_free_count m1 k 1 = Some m2" "heap_ok m2 ?F" "arena_ok m2 n"
    "m2 = m\<lparr>blocks := blocks m1, free_list := free_list m1, free_count := free_count m2\<rparr>"
    by blast
  obtain bl fl fc where m1: "m1 = m\<lparr>blocks := bl, free_list := fl\<rparr>"
    and m2: "m2 = m\<lparr>blocks := bl, free_list := fl, free_count := fc\<rparr>" using a(2,6) by metis
  let ?m1 = "m1\<lparr>buddy_table := t\<rparr>"
  have at: "attach_to_free_list (m\<lparr>buddy_table := t\<rparr>) (baddr m k x) k = Some (baddr m k x, ?m1)"
    using a(1) by (auto simp: attach_to_free_list_def block_in_range_def Let_def option_steps)
  have fc: "length (free_count m) = 9" using ar by (simp add: arena_ok_def)
  have ar1: "arena_ok ?m1 n" by (rule arena_cong [OF a(5)]) (simp_all add: m1 m2 t(2) a(5) fc a(5) [unfolded arena_ok_def m2, simplified])
  have ba: "baddr ?m1 = baddr m" by (rule baddr_cong) (simp add: m1)
  from upd_block_pages [OF ar1 le, unfolded ba] obtain pi where
    u: "clear_page_info ?m1 (baddr m k x) (2 ^ k) (PAGE_TYPE_USABLE OR PAGE_TYPE_FREE) = Some (?m1\<lparr>pages_info := pi\<rparr>)"
    "length pi = length (pages_info ?m1)"
    "\<forall>p<n. \<not> in_block k x p \<longrightarrow> page_at (?m1\<lparr>pages_info := pi\<rparr>) p = page_at ?m1 p"
    unfolding clear_page_info_def by fastforce
  let ?m = "m2\<lparr>buddy_table := t, pages_info := pi\<rparr>"
  have ac: "add_free_count (?m1\<lparr>pages_info := pi\<rparr>) k 1 = Some ?m"
    using a(3) by (auto simp: add_free_count_def m1 m2 option_steps dest: arg_cong [where f = free_count])
  have run: "free_pages_of_power_2 m (baddr m k x) k = Some (0, ?m)"
    using baddr_range [OF ar le] t(1) at u(1) ac bit
    by (auto simp: free_pages_of_power_2.simps [of m] MAX_BUDDY_ORDER_def)
  have "bits_ok (m\<lparr>buddy_table := t\<rparr>) n ?F"
    using bits_flip [OF bt k t(3), of "x # F k"] nf by auto
  then have "bits_ok ?m n ?F" by (rule bits_cong) (simp_all add: m2)
  moreover have "heap_ok ?m ?F" by (rule heap_cong [OF a(4)]) simp_all
  moreover have "arena_ok ?m n" by (rule arena_cong [OF a(5)]) (simp_all add: m1 m2 t(2) u(2))
  moreover have "part_inv n ?F (A - {(k, x)})" by (rule part_inv_put [OF pt kx])
  ultimately have inv': "buddy_inv ?m n ?F (A - {(k, x)})" by (simp add: buddy_inv_def)
  have "pages_kept m ?m n (A - {(k, x)})"
    unfolding pages_kept_def
  proof (intro allI impI)
    fix k' i' p assume b: "(k', i') \<in> A - {(k, x)}" "p < n" "in_block k' i' p"
    then have "\<not> in_block k x p"
      using disjoint_blocksD [OF part_invD(6) [OF pt], of k' i' k x p] kx by auto
    then show "page_at ?m p = page_at m p" using u(3) b(2) by (simp add: page_at_def m1 m2)
  qed
  moreover have "coalesced ?F" if "coalesced F"
  proof -
    have "k < 8 \<Longrightarrow> buddy_of x \<notin> set (F k)"
    proof -
      assume "k < 8"
      then have "2 * (x div 2) \<in> set (F k) \<longleftrightarrow> 2 * (x div 2) + 1 \<in> set (F k)"
        using bit bt pair_bound [OF le] unfolding bits_ok_def by auto
      then show ?thesis using nf by (cases "even x") (auto simp: buddy_of_def elim!: evenE oddE)
    qed
    then show ?thesis using that by (auto simp: coalesced_def buddy_of_def)
  qed
  ultimately have "free_ok m n F A k x ?m" using inv' unfolding free_ok_def
    by (auto simp: same_layout_def m2)
  with run show ?thesis by blast
qed


text \<open>The buddy is free: both are taken off the lists and the pair is released as one block.\<close>

lemma free_merge:
  assumes inv: "buddy_inv m n F A" and kx: "(k, x) \<in> A" and k8: "k < 8" and bit: "bbit m k (x div 2)"
  shows "\<exists>m1 F1. buddy_inv m1 n F1 (insert (Suc k, x div 2) (A - {(k, x)})) \<and> (Suc k, x div 2) \<notin> A \<and>
    free_pages_of_power_2 m (baddr m k x) k = do {
      (_, m) \<leftarrow> free_pages_of_power_2 m1 (baddr m (Suc k) (x div 2)) (Suc k); Some (0, m) } \<and>
    pages_kept m m1 n A \<and> same_layout m m1 \<and> (coalesced F \<longrightarrow> coalesced F1)"
proof -
  have pt: "part_inv n F A" and ar: "arena_ok m n" and hp: "heap_ok m F" and bt: "bits_ok m n F"
    using inv by (simp_all add: buddy_inv_def)
  have k: "k < 9" and le: "(x + 1) * 2 ^ k \<le> n" using part_invD(1) [OF pt kx] by simp_all
  let ?b = "buddy_of x"
  have "(2 * (x div 2) \<in> set (F k)) \<noteq> (2 * (x div 2) + 1 \<in> set (F k))"
    using bit bt pair_bound [OF le] k8 unfolding bits_ok_def by simp
  then have "?b \<in> set (F k)"
    using part_invD(5) [OF pt k kx] by (cases "even x") (auto simp: buddy_of_def elim!: evenE oddE)
  then obtain xs ys where xy: "F k = xs @ ?b # ys" by (metis split_list)
  let ?F = "F(k := xs @ ys)"
  from xor_buddy_map_spec [OF ar k le] bit obtain t where
    t: "xor_buddy_map m (baddr m k x) k = Some (0, m\<lparr>buddy_table := t\<rparr>)"
    "length t = length (buddy_table m)"
    "\<forall>j i. j < 9 \<longrightarrow> i * 2 ^ Suc j < n \<longrightarrow>
       bbit (m\<lparr>buddy_table := t\<rparr>) j i = (if j = k \<and> i = x div 2 then \<not> bbit m j i else bbit m j i)"
    by auto
  from heap_remove [OF inv k xy] obtain m1 m2 where
    a: "remove_from_free_list m (baddr m k ?b) k = Some (baddr m k ?b, m1)"
    "add_free_count m1 k (- 1) = Some m2" "heap_ok m2 ?F" "arena_ok m2 n"
    "m2 = m\<lparr>blocks := blocks m2, free_list := free_list m2, free_count := free_count m2\<rparr>"
    by blast
  obtain bl fl fc where m2: "m2 = m\<lparr>blocks := bl, free_list := fl, free_count := fc\<rparr>" using a(5) by blast
  let ?m1 = "m1\<lparr>buddy_table := t\<rparr>" and ?m2 = "m2\<lparr>buddy_table := t\<rparr>"
  have rm: "remove_from_free_list (m\<lparr>buddy_table := t\<rparr>) (baddr m k ?b) k = Some (baddr m k ?b, ?m1)"
    using a(1) by (auto simp: remove_from_free_list_def block_in_range_def Let_def option_steps split: if_splits)
  have af: "add_free_count ?m1 k (- 1) = Some ?m2"
    using a(2) by (auto simp: add_free_count_def option_steps)
  have run: "free_pages_of_power_2 m (baddr m k x) k = do {
      (_, m) \<leftarrow> free_pages_of_power_2 ?m2 (baddr m (Suc k) (x div 2)) (Suc k); Some (0, m) }"
    using baddr_range [OF ar le] t(1) rm af k8 buddy_address [OF ar le]
    by (subst free_pages_of_power_2.simps) (simp add: MAX_BUDDY_ORDER_def Let_def split: if_splits)
  have xb: "x div 2 = ?b div 2" by (simp add: buddy_of_simps)
  have "bits_ok (m\<lparr>buddy_table := t\<rparr>) n ?F"
    using t(3) xy part_invD(3) [OF pt k] unfolding xb by (intro bits_flip [OF bt k, where x = ?b]) auto
  then have "bits_ok ?m2 n ?F" by (rule bits_cong) (simp_all add: m2)
  moreover have "heap_ok ?m2 ?F" by (rule heap_cong [OF a(3)]) simp_all
  moreover have "arena_ok ?m2 n" by (rule arena_cong [OF a(4)]) (simp_all add: m2 t(2))
  ultimately have "buddy_inv ?m2 n ?F (insert (Suc k, x div 2) (A - {(k, x)}))"
    using part_inv_merge(1) [OF pt kx xy k8] by (simp add: buddy_inv_def)
  moreover have "coalesced F \<longrightarrow> coalesced ?F" using xy by (auto simp: coalesced_def)
  moreover have "pages_kept m ?m2 n A" by (rule pages_kept_eq) (simp_all add: m2)
  moreover have "same_layout m ?m2" by (simp add: same_layout_def m2)
  ultimately show ?thesis using run part_inv_merge(2) [OF pt kx xy k8] by blast
qed

lemma free_spec:
  assumes "buddy_inv m n F A" and "(k, x) \<in> A"
  shows "\<exists>m'. free_pages_of_power_2 m (baddr m k x) k = Some (0, m') \<and> free_ok m n F A k x m'"
proof -
  have "k \<le> 8" using assms part_invD(1) [of n F A k x] by (auto simp: buddy_inv_def)
  then show ?thesis using assms
  proof (induction k arbitrary: m F A x rule: inc_induct)
    case base
    then show ?case by (intro free_attach) auto
  next
    case (step k)
    show ?case
    proof (cases "bbit m k (x div 2)")
      case False
      then show ?thesis using free_attach [OF step.prems] by blast
    next
      case True
      let ?A = "insert (Suc k, x div 2) (A - {(k, x)})"
      obtain m1 F1 where m1: "buddy_inv m1 n F1 ?A" "(Suc k, x div 2) \<notin> A"
        "free_pages_of_power_2 m (baddr m k x) k = do {
          (_, m) \<leftarrow> free_pages_of_power_2 m1 (baddr m (Suc k) (x div 2)) (Suc k); Some (0, m) }"
        "pages_kept m m1 n A" "same_layout m m1" "coalesced F \<longrightarrow> coalesced F1"
        using free_merge [OF step.prems step.hyps(2) True] by blast
      have ba: "baddr m1 = baddr m" by (rule same_layout_baddr [OF m1(5)])
      from step.IH [OF m1(1), of "x div 2"] obtain m' where
        m': "free_pages_of_power_2 m1 (baddr m (Suc k) (x div 2)) (Suc k) = Some (0, m')"
        "free_ok m1 n F1 ?A (Suc k) (x div 2) m'" unfolding ba by blast
      have rm: "?A - {(Suc k, x div 2)} = A - {(k, x)}" using m1(2) by auto
      have pk: "pages_kept m m1 n (A - {(k, x)})" using m1(4) by (auto simp: pages_kept_def)
      have "free_ok m n F A k x m'"
        using m'(2) m1(5,6) pages_kept_trans [OF pk, of m' "A - {(k, x)}"] same_layout_trans [OF m1(5)]
        unfolding free_ok_def rm by blast
      then show ?thesis using m1(3) m'(1) by simp
    qed
  qed
qed

end
