(* ===== verification/Buddy_Init.thy ===== *)
theory Buddy_Init
  imports Buddy
begin

text \<open>
  The part of \<open>init_memory\<close> (\<open>kernel/memory/memory.c\<close>) that sets up the page allocator:
  where the tables at the end of memory lie, the nine bitmaps in their table, the blocks of
  order \<open>MAX_BUDDY_ORDER - 1\<close> on their list, the type of every page.  The result satisfies
  the allocator's invariant on every machine with at least 8 MiB of memory.
\<close>

definition max_block_size :: nat where
  "max_block_size = 2 ^ (MAX_BUDDY_ORDER - 1) * PG_SIZE"

text \<open>Addresses of the two tables: \<open>(pg_count, buddy_map[0], pages_info, usable_memory_end)\<close>.\<close>

definition table_layout :: "nat \<Rightarrow> nat \<Rightarrow> nat \<times> nat \<times> nat \<times> nat" where
  "table_layout mstart mend =
    (let pg_count = (mend - mstart) div PG_SIZE;
         pg_info_size = pg_count * 4;
         buddy_table_size = (2 ^ MAX_BUDDY_ORDER - 1) * pg_count div 2 ^ MAX_BUDDY_ORDER;
         bm = unat (ROUNDDOWN_WITH 0x10 (of_nat (mend - buddy_table_size)));
         pinfo = unat (ROUNDDOWN_WITH 0x10 (of_nat (bm - pg_info_size)));
         uend = unat (ROUNDDOWN_WITH (of_nat PG_SIZE) (of_nat pinfo))
     in (pg_count, bm, pinfo, uend))"

text \<open>\<open>buddy_map[i + 1] = buddy_map[i] + (pg_count >> (i + 1)) / 8\<close>, in words of the table.\<close>

fun map_offset :: "nat \<Rightarrow> nat \<Rightarrow> nat" where
  "map_offset pg_count 0 = 0"
| "map_offset pg_count (Suc i) = map_offset pg_count i + drop_bit (i + 1) pg_count div 8"

definition init_tables :: "memory_info \<Rightarrow> memory_info" where
  "init_tables m =
    (let (pg_count, bm, pinfo, uend) = table_layout (memory_start m) (memory_end m)
     in m\<lparr>page_count := pg_count, usable_memory_end := uend,
          buddy_table := replicate ((memory_end m - bm) div 4) 0,
          buddy_map := map (map_offset pg_count) [0..<MAX_BUDDY_ORDER],
          pages_info := replicate pg_count \<lparr>pg_type = 0, reference = 0\<rparr>,
          free_list := replicate MAX_BUDDY_ORDER 0,
          free_count := replicate MAX_BUDDY_ORDER 0\<rparr>)"

definition init_push :: "memory_info \<Rightarrow> nat \<Rightarrow> memory_info option" where
  "init_push m pg = do {
     h \<leftarrow> aget (free_list m) (MAX_BUDDY_ORDER - 1);
     let bl = set_prev (set_next (blocks m) pg h) pg 0;
     let bl = (if b_next (bl pg) \<noteq> 0 then set_prev bl (b_next (bl pg)) pg else bl);
     c \<leftarrow> aget (free_count m) (MAX_BUDDY_ORDER - 1);
     Some (m\<lparr>blocks := bl, free_list := (free_list m)[MAX_BUDDY_ORDER - 1 := pg],
             free_count := (free_count m)[MAX_BUDDY_ORDER - 1 := c + 1]\<rparr>) }"

function init_blocks :: "memory_info \<Rightarrow> nat \<Rightarrow> nat \<Rightarrow> (nat \<times> memory_info) option" where
  "init_blocks m limit pg =
    (if pg < limit then do {
       m \<leftarrow> init_push m pg;
       init_blocks m limit (pg + max_block_size) }
     else Some (pg, m))"
  by pat_completeness auto
termination
  by (relation "measure (\<lambda>(m, limit, pg). limit - pg)") (auto simp: max_block_size_def PG_SIZE_def MAX_BUDDY_ORDER_def)

declare init_blocks.simps [simp del]

definition initial_page :: "memory_info \<Rightarrow> nat \<Rightarrow> page_info \<Rightarrow> page_info" where
  "initial_page m i pg =
    (let page = GET_PAGE_BY_ID m i
     in if page \<ge> usable_memory_start m \<and> page < usable_memory_end m
        then pg\<lparr>pg_type := PAGE_TYPE_FREE OR PAGE_TYPE_USABLE\<rparr>
        else pg\<lparr>pg_type := PAGE_TYPE_INUSE OR PAGE_TYPE_SYSTEM\<rparr>)"

definition init_buddy :: "nat \<Rightarrow> memory_info \<Rightarrow> (nat \<times> memory_info) option" where
  "init_buddy hart m = do {
     l \<leftarrow> lock_acquire hart (spinlock_init (mem_lock m));
     let m = init_tables (m\<lparr>mem_lock := l\<rparr>);
     kassert (max_block_size \<le> usable_memory_end m);
     (pg, m) \<leftarrow> init_blocks m (usable_memory_end m - max_block_size) (usable_memory_start m);
     let m = m\<lparr>pages_info := map (\<lambda>i. initial_page m i (pages_info m ! i)) [0..<page_count m]\<rparr>;
     l \<leftarrow> lock_release hart (mem_lock m);
     Some (pg, m\<lparr>mem_lock := l\<rparr>) }"


subsection \<open>The block loop\<close>

lemma max_block: "max_block_size = 2 ^ 8 * PG_SIZE" "MAX_BUDDY_ORDER - 1 = 8" "MAX_BUDDY_ORDER - Suc 0 = 8" "0 < max_block_size"
  by (simp_all add: max_block_size_def MAX_BUDDY_ORDER_def PG_SIZE_def)

text \<open>The open-coded push is \<open>attach_to_free_list\<close> followed by the counter update.\<close>

lemma init_push_attach:
  assumes "length (free_list m) = 9" "p \<noteq> 0" "free_list m ! 8 \<noteq> p" "block_in_range m p 8"
  shows "init_push m p = do { (_, m) \<leftarrow> attach_to_free_list m p 8; add_free_count m 8 1 }"
proof -
  let ?bl = "set_next (blocks m) p (free_list m ! 8)"
  have "set_prev (set_prev ?bl p 0) (free_list m ! 8) p = set_prev (set_prev ?bl (free_list m ! 8) p) p 0"
    using assms(3) by (simp add: set_prev_def fun_upd_twist)
  then show ?thesis
    using assms by (simp add: init_push_def attach_to_free_list_def add_free_count_def max_block Let_def)
qed

definition init_inv :: "memory_info \<Rightarrow> nat \<Rightarrow> memory_info \<Rightarrow> bool" where
  "init_inv m0 t m \<longleftrightarrow>
     m = m0\<lparr>blocks := blocks m, free_list := (free_list m0)[8 := free_list m ! 8],
            free_count := (free_count m0)[8 := of_nat t]\<rparr> \<and>
     length (free_list m) = 9 \<and> length (free_count m) = 9 \<and>
     dll (blocks m) 0 (free_list m ! 8) (map (baddr m 8) (rev [0..<t]))"

lemma init_push_inv:
  assumes "init_inv m0 t m" and "0 < usable_memory_start m0"
    and "baddr m0 8 t + max_block_size < usable_memory_end m0"
  shows "\<exists>m'. init_push m (baddr m0 8 t) = Some m' \<and> init_inv m0 (Suc t) m'"
proof -
  obtain bl h where m: "m = m0\<lparr>blocks := bl, free_list := (free_list m0)[8 := h],
      free_count := (free_count m0)[8 := of_nat t]\<rparr>"
    using assms(1) [unfolded init_inv_def, THEN conjunct1] by (rule that)
  note iv = assms(1) [unfolded init_inv_def, THEN conjunct2]
  have ba: "baddr m = baddr m0" by (rule baddr_cong) (simp add: m)
  have len: "length (free_list m0) = 9" "length (free_count m0) = 9" "h = free_list m ! 8"
    using iv by (simp_all add: m)
  have d: "dll (blocks m) 0 (free_list m ! 8) (map (baddr m0 8) (rev [0..<t]))"
    using iv by (simp add: ba)
  have p: "baddr m0 8 t \<noteq> 0" using assms(2) by (simp add: baddr_def)
  have r: "block_in_range m (baddr m0 8 t) 8"
    using assms(2,3) by (simp add: block_in_range_def m baddr_def max_block algebra_simps)
  have ds: "distinct (baddr m0 8 t # map (baddr m0 8) (rev [0..<t]))"
    by (auto simp: distinct_map inj_on_def)
  have l9: "8 < length (free_list m)" using len by (simp add: m)
  obtain m1 where m1: "attach_to_free_list m (baddr m0 8 t) 8 = Some (baddr m0 8 t, m1)"
    "dll (blocks m1) 0 (free_list m1 ! 8) (baddr m0 8 t # map (baddr m0 8) (rev [0..<t]))"
    "m1 = m\<lparr>blocks := blocks m1, free_list := (free_list m)[8 := free_list m1 ! 8]\<rparr>"
    using attach_to_free_list_spec [OF r l9 p d ds] unfolding mem_frame_def by blast
  obtain bl' h' where m1': "m1 = m\<lparr>blocks := bl', free_list := (free_list m)[8 := h']\<rparr>" using m1(3) by blast
  have "free_list m ! 8 = 0 \<or> free_list m ! 8 \<in> set (map (baddr m0 8) (rev [0..<t]))"
    using d by (cases "map (baddr m0 8) (rev [0..<t])") auto
  then have "free_list m ! 8 \<noteq> baddr m0 8 t" using ds p by auto
  then have "init_push m (baddr m0 8 t) = add_free_count m1 8 1"
    using init_push_attach [OF _ p _ r] m1(1) iv by simp
  also have "\<dots> = Some (m1\<lparr>free_count := (free_count m0)[8 := of_nat (Suc t)]\<rparr>)"
    using len by (simp add: add_free_count_def m1' m add.commute)
  finally have run: "init_push m (baddr m0 8 t) = Some (m1\<lparr>free_count := (free_count m0)[8 := of_nat (Suc t)]\<rparr>)" .
  have ba1: "baddr (m1\<lparr>free_count := fc\<rparr>) = baddr m0" for fc by (rule baddr_cong) (simp add: m1' m)
  have "init_inv m0 (Suc t) (m1\<lparr>free_count := (free_count m0)[8 := of_nat (Suc t)]\<rparr>)"
    unfolding init_inv_def ba1 using m1(2) len(1,2) by (simp add: m1' m)
  with run show ?thesis by blast
qed

lemma init_blocks_inv:
  assumes "init_inv m0 t m" and "0 < usable_memory_start m0" and "max_block_size \<le> usable_memory_end m0"
  shows "\<exists>T m'. init_blocks m (usable_memory_end m0 - max_block_size) (baddr m0 8 t) = Some (baddr m0 8 T, m') \<and>
    init_inv m0 T m' \<and> t \<le> T \<and> (T = t \<or> baddr m0 8 T < usable_memory_end m0) \<and>
    usable_memory_end m0 - max_block_size \<le> baddr m0 8 T"
  using assms
proof (induction "usable_memory_end m0 - max_block_size - baddr m0 8 t" arbitrary: t m rule: less_induct)
  case less
  let ?lim = "usable_memory_end m0 - max_block_size"
  show ?case
  proof (cases "baddr m0 8 t < ?lim")
    case False
    then show ?thesis using less.prems by (auto simp: init_blocks.simps [of m])
  next
    case True
    then have lt: "baddr m0 8 t + max_block_size < usable_memory_end m0" by linarith
    from init_push_inv [OF less.prems(1,2) this] obtain m1 where
      m1: "init_push m (baddr m0 8 t) = Some m1" "init_inv m0 (Suc t) m1" by blast
    have nx: "baddr m0 8 t + max_block_size = baddr m0 8 (Suc t)" by (simp add: baddr_def max_block algebra_simps)
    have dec: "?lim - baddr m0 8 (Suc t) < ?lim - baddr m0 8 t"
      using True nx max_block(4) by linarith
    from less.hyps [OF dec m1(2) less.prems(2,3)] obtain T m' where
      T: "init_blocks m1 ?lim (baddr m0 8 (Suc t)) = Some (baddr m0 8 T, m')" "init_inv m0 T m'" "Suc t \<le> T"
      "T = Suc t \<or> baddr m0 8 T < usable_memory_end m0" "?lim \<le> baddr m0 8 T" by blast
    then have "init_blocks m ?lim (baddr m0 8 t) = Some (baddr m0 8 T, m')"
      using True m1(1) nx by (simp add: init_blocks.simps [of m])
    moreover have "baddr m0 8 T < usable_memory_end m0" using T(4) lt nx by auto
    ultimately show ?thesis using T by (intro exI [of _ T] exI [of _ m']) simp
  qed
qed


subsection \<open>The tables\<close>

lemma map_offset_bound: "8 * map_offset pg k + pg div 2 ^ k \<le> pg"
proof (induction k)
  case (Suc k)
  let ?q = "pg div 2 ^ Suc k"
  have "8 * (?q div 8) \<le> ?q" by simp
  moreover have "2 * ?q \<le> pg div 2 ^ k" by (metis div_mult2_eq power_Suc2 div_times_less_eq_dividend mult.commute)
  moreover have "map_offset pg (Suc k) = map_offset pg k + ?q div 8" by (simp add: drop_bit_eq_div)
  ultimately show ?case using Suc by linarith
qed simp

lemma map_offset_step:
  assumes "2048 \<le> pg" and "k < 8" and "i * 2 ^ Suc k < pg"
  shows "map_offset pg k * 32 + i < map_offset pg (Suc k) * 32"
proof -
  let ?q = "pg div 2 ^ Suc k"
  have "i \<le> ?q" using assms(3) by (simp add: less_eq_div_iff_mult_less_eq)
  moreover have "8 \<le> ?q"
  proof -
    have "(2::nat) ^ Suc k \<le> 2 ^ 8" using assms(2) by (intro power_increasing) auto
    then have "8 * 2 ^ Suc k \<le> pg" using assms(1) by simp
    then show ?thesis by (simp add: less_eq_div_iff_mult_less_eq)
  qed
  moreover have "q < q div 8 * 32" if "8 \<le> q" for q :: nat using that by presburger
  ultimately have "i < ?q div 8 * 32" by (meson le_less_trans)
  moreover have "map_offset pg (Suc k) = map_offset pg k + ?q div 8" by (simp add: drop_bit_eq_div)
  ultimately show ?thesis by (simp only: add_mult_distrib)
qed

lemma map_offset_mono: "j \<le> k \<Longrightarrow> map_offset pg j \<le> map_offset pg k"
  by (induction k rule: dec_induct) auto

lemma table_layout_spec:
  assumes "table_layout mstart mend = (pg, bm, pinfo, uend)" and "mstart \<le> mend" and "mend < 2 ^ 64"
    and "2048 \<le> (mend - mstart) div PG_SIZE"
  shows "pg = (mend - mstart) div 4096" and "uend \<le> pinfo" and "pinfo + pg * 4 \<le> bm" and "bm + 511 * pg div 512 \<le> mend"
    and "2 ^ 20 \<le> uend"
proof -
  let ?t = "511 * pg div 512"
  have pg: "pg = (mend - mstart) div 4096" and bm: "bm = unat (ROUNDDOWN_WITH (2 ^ 4) (of_nat (mend - ?t)))"
    and pi: "pinfo = unat (ROUNDDOWN_WITH (2 ^ 4) (of_nat (bm - pg * 4)))"
    and ue: "uend = unat (ROUNDDOWN_WITH (2 ^ 12) (of_nat pinfo))"
    using assms(1) by (auto simp: table_layout_def Let_def PG_SIZE_def MAX_BUDDY_ORDER_def simp del: of_nat_diff)
  have um: "unat (of_nat a :: u64) = a" if "a \<le> mend" for a
    using that assms(3) by (simp add: unsigned_of_nat take_bit_nat_eq_self)
  have bm': "bm = (mend - ?t) div 16 * 16" using um [of "mend - ?t"] by (simp add: bm unat_ROUNDDOWN_pow2 del: power_numeral of_nat_diff) simp
  then have "bm \<le> mend" by linarith
  then have pi': "pinfo = (bm - pg * 4) div 16 * 16"
    using um [of "bm - pg * 4"] by (simp add: pi unat_ROUNDDOWN_pow2 del: power_numeral of_nat_diff) simp
  then have "pinfo \<le> mend" using \<open>bm \<le> mend\<close> by linarith
  then have ue': "uend = pinfo div 4096 * 4096"
    using um [of pinfo] by (simp add: ue unat_ROUNDDOWN_pow2 del: power_numeral of_nat_diff) simp
  have sz: "4096 * pg \<le> mend" "2048 \<le> pg" using pg assms(4) by (auto simp: PG_SIZE_def)
  show "pg = (mend - mstart) div 4096" by (rule pg)
  show "uend \<le> pinfo" using ue' by linarith
  have t: "?t \<le> pg" by linarith
  show b: "bm + ?t \<le> mend" using bm' sz t by linarith
  have bl: "mend - pg - 16 \<le> bm" using bm' t by linarith
  show "pinfo + pg * 4 \<le> bm" using pi' bl sz by linarith
  have "mend - pg - 32 - 4 * pg \<le> pinfo" using pi' bl by linarith
  then have "1048576 \<le> uend" using ue' sz by linarith
  then show "2 ^ 20 \<le> uend" by simp
qed

lemma init_maps_ok:
  assumes "2048 \<le> pg" and "n \<le> pg" and "bm + 511 * pg div 512 \<le> mend"
    and "buddy_map m = map (map_offset pg) [0..<9]" and "buddy_table m = replicate ((mend - bm) div 4) 0"
  shows "maps_ok m n"
proof -
  have off: "buddy_map m ! k = map_offset pg k" if "k < 9" for k using assms(4) that by simp
  have step: "map_offset pg k * 32 + i < map_offset pg (Suc k) * 32" if "k < 8" "i * 2 ^ Suc k < n" for k i
    using map_offset_step [OF assms(1) that(1)] that(2) assms(2) by simp
  have last: "map_offset pg 8 * 32 + i < bset_size (buddy_table m)" if "i * 2 ^ Suc 8 < n" for i
  proof -
    have "i * 512 < pg" using that assms(2) by simp
    moreover have "8 * map_offset pg 8 \<le> pg" using map_offset_bound [of pg 8] by linarith
    ultimately have "map_offset pg 8 * 32 + i < 32 * ((511 * pg div 512) div 4)" using assms(1) by linarith
    also have "\<dots> \<le> bset_size (buddy_table m)"
      using assms(3,5) by (simp add: bset_size_def div_le_mono)
    finally show ?thesis .
  qed
  have le: "map_offset pg k * 32 + i < map_offset pg 8 * 32" if "k < 8" "i * 2 ^ Suc k < n" for k i
    using step [OF that] map_offset_mono [of "Suc k" 8 pg] that(1) by simp
  show ?thesis
    unfolding maps_ok_def
  proof (intro conjI allI impI)
    show "length (buddy_map m) = 9" using assms(4) by simp
  next
    fix k i assume k: "k < (9::nat)" and i: "i * 2 ^ Suc k < n"
    show "buddy_map m ! k * 32 + i < bset_size (buddy_table m)"
    proof (cases "k = 8")
      case True
      then show ?thesis using last i off by simp
    next
      case False
      then have "map_offset pg 8 * 32 + 0 < bset_size (buddy_table m)" using last [of 0] i by simp
      then show ?thesis using le [of k i] False k i off by simp
    qed
  next
    fix j k i i' assume a: "j < k" "k < (9::nat)" "i * 2 ^ Suc j < n" "i' * 2 ^ Suc k < n"
    have "map_offset pg (Suc j) \<le> map_offset pg k" using a(1) by (intro map_offset_mono) simp
    then show "buddy_map m ! j * 32 + i < buddy_map m ! k * 32 + i'"
      using step [of j i] a off by simp
  qed
qed


subsection \<open>The initial state\<close>

definition initial_free :: "nat \<Rightarrow> nat \<Rightarrow> nat list" where
  "initial_free T k = (if k = 8 then rev [0..<T] else [])"

lemma initial_part: "part_inv (T * 256) (initial_free T) {}"
proof -
  have fb: "fblocks (initial_free T) = {(k, i). k = 8 \<and> i < T}"
    by (auto simp: fblocks_def initial_free_def split: if_splits)
  have "free_pages (initial_free T) = (\<Sum>k<(9::nat). if k = 8 then T * 256 else 0)"
    unfolding free_pages_def by (rule sum.cong) (auto simp: initial_free_def)
  then have "free_pages (initial_free T) = T * 256" by simp
  moreover have "(i + 1) * 2 ^ 8 \<le> T * 256" if "i < T" for i using that by simp
  ultimately show ?thesis
    by (auto simp: part_inv_def fb disjoint_blocks_def in_block_def used_pages_def initial_free_def)
qed

lemma initial_coalesced: "coalesced (initial_free T)"
  by (simp add: coalesced_def initial_free_def)

lemma init_tables_inv:
  assumes "memory_start m \<le> memory_end m" and "memory_end m < 2 ^ 64"
    and "2048 \<le> (memory_end m - memory_start m) div PG_SIZE"
  shows "init_inv (init_tables m) 0 (init_tables m)" and "2 ^ 20 \<le> usable_memory_end (init_tables m)"
    and "usable_memory_end (init_tables m) \<le> memory_end m"
    and "length (pages_info (init_tables m)) = (memory_end m - memory_start m) div PG_SIZE"
    and "page_count (init_tables m) = (memory_end m - memory_start m) div PG_SIZE"
    and "n \<le> (memory_end m - memory_start m) div PG_SIZE \<Longrightarrow> maps_ok (init_tables m) n"
proof -
  obtain pg bm pinfo uend where t: "table_layout (memory_start m) (memory_end m) = (pg, bm, pinfo, uend)"
    by (metis prod_cases4)
  note sp = table_layout_spec [OF t assms]
  show "init_inv (init_tables m) 0 (init_tables m)"
  proof -
    have "(replicate 9 (0::u64))[8 := 0] = replicate 9 0" "(replicate 9 (0::nat))[8 := 0] = replicate 9 0"
      using list_update_id [of "replicate 9 (0::u64)" 8] list_update_id [of "replicate 9 (0::nat)" 8] by simp_all
    then show ?thesis by (simp add: init_inv_def init_tables_def t MAX_BUDDY_ORDER_def)
  qed
  show "2 ^ 20 \<le> usable_memory_end (init_tables m)" using sp(5) by (simp add: init_tables_def t)
  show "usable_memory_end (init_tables m) \<le> memory_end m"
    using sp(2,3,4) by (simp add: init_tables_def t)
  show "length (pages_info (init_tables m)) = (memory_end m - memory_start m) div PG_SIZE"
    "page_count (init_tables m) = (memory_end m - memory_start m) div PG_SIZE"
    using sp(1) by (simp_all add: init_tables_def t PG_SIZE_def)
  show "maps_ok (init_tables m) n" if "n \<le> (memory_end m - memory_start m) div PG_SIZE"
    using that sp(1,4) assms(3)
    by (intro init_maps_ok [of pg _ bm "memory_end m"]) (simp_all add: init_tables_def t PG_SIZE_def MAX_BUDDY_ORDER_def)
qed


lemma init_blocks_buddy:
  assumes "memory_start m \<le> memory_end m" and "memory_end m < 2 ^ 64"
    and "2048 \<le> (memory_end m - memory_start m) div PG_SIZE"
    and "0 < usable_memory_start m" and "usable_memory_start m = memory_start m + s * PG_SIZE"
    and "usable_memory_start m < usable_memory_end (init_tables m)"
  shows "\<exists>T m'. init_blocks (init_tables m) (usable_memory_end (init_tables m) - max_block_size) (usable_memory_start m)
      = Some (baddr m 8 T, m') \<and> buddy_inv m' (T * 256) (initial_free T) {} \<and>
    usable_memory_end (init_tables m) \<le> baddr m 8 T + max_block_size \<and>
    m' = (init_tables m)\<lparr>blocks := blocks m', free_list := free_list m', free_count := free_count m'\<rparr>"
proof -
  let ?m = "init_tables m"
  note ti = init_tables_inv [OF assms(1-3)]
  have st: "usable_memory_start ?m = usable_memory_start m" "memory_start ?m = memory_start m"
    by (simp_all add: init_tables_def split: prod.splits)
  have ba: "baddr ?m = baddr m" by (rule baddr_cong [OF st(1)])
  have mb: "max_block_size \<le> usable_memory_end ?m" using ti(2) by (simp add: max_block PG_SIZE_def)
  have ps: "0 < usable_memory_start ?m" using assms(4) st by simp
  from init_blocks_inv [OF ti(1) ps mb] obtain T m' where T:
    "init_blocks ?m (usable_memory_end ?m - max_block_size) (baddr m 8 0) = Some (baddr m 8 T, m')"
    "init_inv ?m T m'" "T = 0 \<or> baddr m 8 T < usable_memory_end ?m"
    "usable_memory_end ?m - max_block_size \<le> baddr m 8 T" unfolding ba by blast
  obtain bl h where m': "m' = ?m\<lparr>blocks := bl, free_list := (free_list ?m)[8 := h], free_count := (free_count ?m)[8 := of_nat T]\<rparr>"
    using T(2) [unfolded init_inv_def, THEN conjunct1] by (rule that)
  note iv = T(2) [unfolded init_inv_def, THEN conjunct2]
  have z: "free_list ?m = replicate 9 0" "free_count ?m = replicate 9 0"
    by (simp_all add: init_tables_def MAX_BUDDY_ORDER_def split: prod.splits)
  have ba': "baddr m' = baddr m" by (rule baddr_cong) (simp add: m' st)
  have hp: "heap_ok m' (initial_free T)"
    unfolding heap_ok_def
  proof (intro allI impI)
    fix k :: nat assume "k < 9"
    then show "dll (blocks m') 0 (free_list m' ! k) (map (baddr m' k) (initial_free T k)) \<and>
        free_count m' ! k = of_nat (length (initial_free T k))"
      using iv by (cases "k = 8") (simp_all add: initial_free_def m' z)
  qed
  have bt: "bits_ok m' n (initial_free T)" if "maps_ok ?m n" for n
    unfolding bits_ok_def
  proof (intro allI impI)
    fix k i assume a: "k < (8::nat)" "i * 2 ^ Suc k < n"
    obtain w where "buddy_table ?m = replicate w 0"
      by (cases "table_layout (memory_start m) (memory_end m)") (auto simp: init_tables_def)
    moreover have "buddy_map ?m ! k * 32 + i < bset_size (buddy_table ?m)"
      using that a unfolding maps_ok_def by auto
    ultimately have "\<not> bbit m' k i"
      using bset_index [of "buddy_map ?m ! k * 32 + i" "buddy_table ?m"]
      by (simp add: bbit_def bset_view_def m')
    then show "bbit m' k i = ((2 * i \<in> set (initial_free T k)) \<noteq> (2 * i + 1 \<in> set (initial_free T k)))"
      using a(1) by (simp add: initial_free_def)
  qed
  have "baddr m 8 T = usable_memory_start m + T * 256 * PG_SIZE" by (simp add: baddr_def)
  moreover have "baddr m 8 0 = usable_memory_start m" by (simp add: baddr_def)
  ultimately have ue: "usable_memory_start m + T * 256 * PG_SIZE < usable_memory_end ?m" using T(3) assms(6) by auto
  define n where "n = T * 256"
  have n: "usable_memory_start m + n * PG_SIZE < usable_memory_end ?m" using ue by (simp add: n_def)
  then have "(s + n) * PG_SIZE < memory_end m - memory_start m"
    using ti(3) assms(1,5) by (simp add: algebra_simps)
  then have sn: "s + n \<le> (memory_end m - memory_start m) div PG_SIZE"
    by (simp add: less_eq_div_iff_mult_less_eq)
  have "n * 4096 < 2 ^ 64" using n ti(3) assms(2) by (simp add: PG_SIZE_def)
  then have n52: "n < 2 ^ 52" by simp
  have mp: "maps_ok ?m n" by (rule ti(6)) (use sn in simp)
  have "maps_ok m' n" using mp by (simp add: maps_ok_def m')
  then have "arena_ok m' n"
    using n sn n52 ti(4) assms(4,5) z by (auto simp: arena_ok_def m' st)
  then have "buddy_inv m' (T * 256) (initial_free T) {}"
    using hp bt [OF mp] initial_part by (simp add: buddy_inv_def n_def)
  moreover have "usable_memory_end ?m \<le> baddr m 8 T + max_block_size" using T(4) by linarith
  moreover have "baddr m 8 0 = usable_memory_start m" by (simp add: baddr_def)
  ultimately show ?thesis using T(1) by (intro exI [of _ T] exI [of _ m']) (simp add: m')
qed

end
