(* ===== verification/Page_Allocator.thy ===== *)
theory Page_Allocator
  imports Prelude
begin

text \<open>
  What the rest of the kernel relies on from a page allocator, as an interface: \<open>live_ok s H\<close>
  says that \<open>H\<close> is the set of handles given out and not yet returned in state \<open>s\<close>.  Any
  sequence of requests and releases of live handles then runs to its end, and what is live never
  overlaps.
\<close>

datatype 'r page_op = Take 'r | Give nat

text \<open>Runs requests and releases; \<open>Give i\<close> returns the \<open>i\<close>-th live handle, if there is one.\<close>

fun run_ops :: "('s \<Rightarrow> 'r \<Rightarrow> ('b option \<times> 's) option) \<Rightarrow> ('s \<Rightarrow> 'b \<Rightarrow> 's option) \<Rightarrow>
    's \<Rightarrow> 'b list \<Rightarrow> 'r page_op list \<Rightarrow> ('s \<times> 'b list) option" where
  "run_ops alloc release s live [] = Some (s, live)"
| "run_ops alloc release s live (Take r # ops) = do {
     (h, s) \<leftarrow> alloc s r;
     run_ops alloc release s (case h of None \<Rightarrow> live | Some b \<Rightarrow> b # live) ops }"
| "run_ops alloc release s live (Give i # ops) =
     (if i < length live then do {
        s \<leftarrow> release s (live ! i);
        run_ops alloc release s (take i live @ drop (Suc i) live) ops }
      else run_ops alloc release s live ops)"

locale page_allocator =
  fixes live_ok :: "'s \<Rightarrow> 'b set \<Rightarrow> bool"
    and alloc :: "'s \<Rightarrow> 'r \<Rightarrow> ('b option \<times> 's) option"
    and release :: "'s \<Rightarrow> 'b \<Rightarrow> 's option"
    and bytes_of :: "'b \<Rightarrow> nat set"
  assumes alloc_ok: "live_ok s H \<Longrightarrow> \<exists>h s'. alloc s r = Some (h, s') \<and>
      (case h of None \<Rightarrow> live_ok s' H | Some b \<Rightarrow> b \<notin> H \<and> live_ok s' (insert b H))"
    and release_ok: "live_ok s H \<Longrightarrow> b \<in> H \<Longrightarrow> \<exists>s'. release s b = Some s' \<and> live_ok s' (H - {b})"
    and no_overlap: "live_ok s H \<Longrightarrow> b \<in> H \<Longrightarrow> c \<in> H \<Longrightarrow> b \<noteq> c \<Longrightarrow> bytes_of b \<inter> bytes_of c = {}"
begin

lemma run_ops_ok:
  "live_ok s (set live) \<Longrightarrow> distinct live \<Longrightarrow>
    \<exists>s' live'. run_ops alloc release s live ops = Some (s', live') \<and> live_ok s' (set live') \<and> distinct live'"
proof (induction ops arbitrary: s live)
  case (Cons op ops)
  show ?case
  proof (cases op)
    case (Take r)
    obtain h s' where h: "alloc s r = Some (h, s')"
      "case h of None \<Rightarrow> live_ok s' (set live) | Some b \<Rightarrow> b \<notin> set live \<and> live_ok s' (insert b (set live))"
      using alloc_ok [OF Cons.prems(1)] by blast
    then show ?thesis
      using Take Cons.IH [of s' live] Cons.IH [of s' "the h # live"] Cons.prems(2) by (cases h) auto
  next
    case (Give i)
    show ?thesis
    proof (cases "i < length live")
      case True
      let ?l = "take i live @ drop (Suc i) live"
      have l: "live = take i live @ live ! i # drop (Suc i) live" using True by (rule id_take_nth_drop)
      then have "distinct (take i live @ live ! i # drop (Suc i) live)"
        "set live = set (take i live @ live ! i # drop (Suc i) live)" using Cons.prems(2) by metis+
      then have "distinct ?l" "set ?l = set live - {live ! i}" by auto
      moreover obtain s' where "release s (live ! i) = Some s'" "live_ok s' (set live - {live ! i})"
        using release_ok [OF Cons.prems(1)] True by force
      ultimately show ?thesis using Give True Cons.IH [of s' ?l] by simp
    qed (use Give Cons in simp)
  qed
qed simp

lemma run_ops_disjoint:
  assumes "live_ok s {}"
  shows "\<exists>s' live. run_ops alloc release s [] ops = Some (s', live) \<and> live_ok s' (set live) \<and>
    (\<forall>i j. i < length live \<longrightarrow> j < length live \<longrightarrow> i \<noteq> j \<longrightarrow> bytes_of (live ! i) \<inter> bytes_of (live ! j) = {})"
proof -
  obtain s' live where r: "run_ops alloc release s [] ops = Some (s', live)" "live_ok s' (set live)" "distinct live"
    using run_ops_ok [of s "[]" ops] assms by auto
  then show ?thesis using no_overlap [OF r(2)] by (metis nth_eq_iff_index_eq nth_mem)
qed

end

end
