(* ===== verification/Buddy_Props.thy ===== *)
theory Buddy_Props
  imports Buddy_Init Page_Allocator
begin

text \<open>
  The allocator's contract.  \<open>buddy_ok m n A\<close>: outside of a critical section, the arena of
  \<open>n\<close> pages is partitioned into free blocks and the allocated blocks \<open>A\<close>, with no two free
  buddies.  The theorems say what \<open>page_alloc\<close>, \<open>page_free\<close>, \<open>memory_available\<close> and
  the initialisation do to it, and the interface \<open>page_allocator\<close> is interpreted on them.
\<close>

definition buddy_ok :: "memory_info \<Rightarrow> nat \<Rightarrow> (nat \<times> nat) set \<Rightarrow> bool" where
  "buddy_ok m n A \<longleftrightarrow> (\<exists>F. buddy_inv m n F A \<and> coalesced F) \<and> \<not> sl_lock (mem_lock m)"

definition page_order :: "u64 \<Rightarrow> nat" where
  "page_order pages = trailing_zero (round_up_power_2 pages)"

subsection \<open>The lock does not matter\<close>

lemma inv_lock: "buddy_inv (m\<lparr>mem_lock := l\<rparr>) n F A = buddy_inv m n F A"
  by (simp add: buddy_inv_def arena_ok_def heap_ok_def bits_ok_def maps_ok_def bbit_def
      baddr_cong [of "m\<lparr>mem_lock := l\<rparr>" m])

lemma baddr_lock [simp]: "baddr (m\<lparr>mem_lock := l\<rparr>) = baddr m"
  by (rule baddr_cong) simp

lemma page_at_lock [simp]: "page_at (m\<lparr>mem_lock := l\<rparr>) = page_at m"
  by (intro ext) (simp add: page_at_def)

lemma block_marked_lock: "block_marked (m\<lparr>mem_lock := l\<rparr>) n k i attr = block_marked m n k i attr"
  by (simp add: block_marked_def)

lemma pages_kept_lock: "pages_kept (m\<lparr>mem_lock := l\<rparr>) (m'\<lparr>mem_lock := l'\<rparr>) n A = pages_kept m m' n A"
  "pages_kept (m\<lparr>mem_lock := l\<rparr>) m' n A = pages_kept m m' n A"
  "pages_kept m (m'\<lparr>mem_lock := l'\<rparr>) n A = pages_kept m m' n A"
  by (simp_all add: pages_kept_def)

lemmas lock_irrelevant = inv_lock baddr_lock page_at_lock block_marked_lock pages_kept_lock

text \<open>A request of any order, inside the lock.\<close>

lemma allocate_any:
  assumes "buddy_inv m n F A"
  shows "(k < 9 \<and> (\<exists>i m'. allocate_pages_of_power_2 m k attr = Some (baddr m k i, m') \<and> alloc_ok m n F A k attr i m')) \<or>
    allocate_pages_of_power_2 m k attr = Some (0, m) \<and> (\<forall>j. k \<le> j \<longrightarrow> j < 9 \<longrightarrow> F j = [])"
proof (cases "k < 9")
  case True
  then show ?thesis using allocate_spec [OF assms, of k attr] by simp
next
  case False
  then show ?thesis by (simp add: allocate_pages_of_power_2.simps MAX_BUDDY_ORDER_def)
qed

lemma page_alloc_cases:
  assumes "buddy_inv m n F A" and "coalesced F" and "\<not> sl_lock (mem_lock m)"
  shows "(\<exists>i m'. page_alloc hart m pages attr = Some (baddr m (page_order pages) i, m') \<and> page_order pages < 9 \<and>
      (page_order pages, i) \<notin> A \<and> buddy_ok m' n (insert (page_order pages, i) A) \<and>
      block_marked m' n (page_order pages) i attr \<and> pages_kept m m' n A \<and>
      usable_memory_start m' = usable_memory_start m) \<or>
    (\<exists>l. page_alloc hart m pages attr = Some (0, m\<lparr>mem_lock := l\<rparr>) \<and> \<not> sl_lock l \<and>
      (\<forall>j. page_order pages \<le> j \<longrightarrow> j < 9 \<longrightarrow> F j = []))"
proof -
  let ?k = "page_order pages" and ?l = "(mem_lock m)\<lparr>sl_lock := True, sl_cpu := hart\<rparr>"
  let ?m = "m\<lparr>mem_lock := ?l\<rparr>"
  have inv: "buddy_inv ?m n F A" using assms(1) by (simp add: inv_lock)
  note acq = lock_acquire_free [OF assms(3), of hart]
  from allocate_any [OF inv, of ?k attr] show ?thesis
  proof
    assume "?k < 9 \<and> (\<exists>i m'. allocate_pages_of_power_2 ?m ?k attr = Some (baddr ?m ?k i, m') \<and> alloc_ok ?m n F A ?k attr i m')"
    then obtain i m' where a: "?k < 9" "allocate_pages_of_power_2 ?m ?k attr = Some (baddr m ?k i, m')"
      "alloc_ok ?m n F A ?k attr i m'" by auto
    then have ml: "mem_lock m' = ?l" by (simp add: alloc_ok_def same_layout_def)
    let ?m' = "m'\<lparr>mem_lock := (mem_lock m)\<lparr>sl_lock := False, sl_cpu := 0\<rparr>\<rparr>"
    have "page_alloc hart m pages attr = Some (baddr m ?k i, ?m')"
      using a(2) acq ml lock_release_held [of hart "mem_lock m"] by (simp add: page_alloc_def page_order_def)
    moreover have "buddy_ok ?m' n (insert (?k, i) A)"
      using a(3) assms(2) by (auto simp: buddy_ok_def alloc_ok_def inv_lock)
    moreover have "block_marked ?m' n ?k i attr" "pages_kept m ?m' n A" "(?k, i) \<notin> A"
      "usable_memory_start ?m' = usable_memory_start m"
      using a(3) by (simp_all add: alloc_ok_def lock_irrelevant same_layout_def)
    ultimately show ?thesis using a(1) by blast
  next
    assume a: "allocate_pages_of_power_2 ?m ?k attr = Some (0, ?m) \<and> (\<forall>j. ?k \<le> j \<longrightarrow> j < 9 \<longrightarrow> F j = [])"
    then have "page_alloc hart m pages attr = Some (0, m\<lparr>mem_lock := (mem_lock m)\<lparr>sl_lock := False, sl_cpu := 0\<rparr>\<rparr>)"
      using acq lock_release_held [of hart "mem_lock m"] by (simp add: page_alloc_def page_order_def)
    with a show ?thesis by (intro disjI2) (auto intro!: exI)
  qed
qed

lemma page_free_ok:
  assumes "buddy_ok m n A" and "(page_order pages, i) \<in> A"
  shows "\<exists>m'. page_free hart m (baddr m (page_order pages) i) pages = Some (0, m') \<and>
    buddy_ok m' n (A - {(page_order pages, i)}) \<and> pages_kept m m' n (A - {(page_order pages, i)}) \<and>
    usable_memory_start m' = usable_memory_start m"
proof -
  let ?k = "page_order pages" and ?l = "(mem_lock m)\<lparr>sl_lock := True, sl_cpu := hart\<rparr>"
  let ?m = "m\<lparr>mem_lock := ?l\<rparr>"
  obtain F where F: "buddy_inv m n F A" "coalesced F" "\<not> sl_lock (mem_lock m)"
    using assms(1) by (auto simp: buddy_ok_def)
  have inv: "buddy_inv ?m n F A" using F(1) by (simp add: inv_lock)
  note acq = lock_acquire_free [OF F(3), of hart]
  from free_spec [OF inv assms(2)] obtain m' where
    f: "free_pages_of_power_2 ?m (baddr m ?k i) ?k = Some (0, m')" "free_ok ?m n F A ?k i m'" by auto
  then have ml: "mem_lock m' = ?l" by (simp add: free_ok_def same_layout_def)
  let ?m' = "m'\<lparr>mem_lock := (mem_lock m)\<lparr>sl_lock := False, sl_cpu := 0\<rparr>\<rparr>"
  have "page_free hart m (baddr m ?k i) pages = Some (0, ?m')"
    using f(1) acq ml lock_release_held [of hart "mem_lock m"] by (simp add: page_free_def page_order_def)
  moreover have "buddy_ok ?m' n (A - {(?k, i)})"
    using f(2) F(2) by (auto simp: buddy_ok_def free_ok_def inv_lock)
  moreover have "pages_kept m ?m' n (A - {(?k, i)})" "usable_memory_start ?m' = usable_memory_start m"
    using f(2) by (simp_all add: free_ok_def lock_irrelevant same_layout_def)
  ultimately show ?thesis by blast
qed

subsection \<open>The interface\<close>

text \<open>A handle is what a caller holds: the address it got and the number of pages it asked for.\<close>

type_synonym page_handle = "nat \<times> u64"

definition block_of :: "nat \<Rightarrow> page_handle \<Rightarrow> nat \<times> nat" where
  "block_of base h = (page_order (snd h), (fst h - base) div (2 ^ page_order (snd h) * PG_SIZE))"

definition handle_bytes :: "page_handle \<Rightarrow> nat set" where
  "handle_bytes h = {fst h ..< fst h + unat (snd h) * PG_SIZE}"

definition handles_ok :: "nat \<Rightarrow> memory_info \<Rightarrow> page_handle set \<Rightarrow> bool" where
  "handles_ok n m H \<longleftrightarrow>
     buddy_ok m n (block_of (usable_memory_start m) ` H) \<and> inj_on (block_of (usable_memory_start m)) H \<and>
     (\<forall>h\<in>H. fst h = baddr m (page_order (snd h)) (snd (block_of (usable_memory_start m) h)))"

definition take_pages :: "nat \<Rightarrow> memory_info \<Rightarrow> u64 \<times> u16 \<Rightarrow> (page_handle option \<times> memory_info) option" where
  "take_pages hart m r = do {
     (p, m) \<leftarrow> page_alloc hart m (fst r) (snd r);
     Some (if p = 0 then None else Some (p, fst r), m) }"

definition give_pages :: "nat \<Rightarrow> memory_info \<Rightarrow> page_handle \<Rightarrow> memory_info option" where
  "give_pages hart m h = do { (_, m) \<leftarrow> page_free hart m (fst h) (snd h); Some m }"

lemma block_of_baddr: "block_of (usable_memory_start m) (baddr m (page_order pages) i, pages) = (page_order pages, i)"
  by (simp add: block_of_def baddr_def mult.assoc PG_SIZE_def)

lemma handles_take:
  assumes "handles_ok n m H"
  shows "\<exists>h m'. take_pages hart m r = Some (h, m') \<and>
    (case h of None \<Rightarrow> handles_ok n m' H | Some b \<Rightarrow> b \<notin> H \<and> handles_ok n m' (insert b H))"
proof -
  let ?A = "block_of (usable_memory_start m) ` H" and ?k = "page_order (fst r)"
  obtain F where F: "buddy_inv m n F ?A" "coalesced F" "\<not> sl_lock (mem_lock m)"
    using assms by (auto simp: handles_ok_def buddy_ok_def)
  from page_alloc_cases [OF F, of hart "fst r" "snd r"] show ?thesis
  proof
    assume "\<exists>i m'. page_alloc hart m (fst r) (snd r) = Some (baddr m ?k i, m') \<and> ?k < 9 \<and>
      (?k, i) \<notin> ?A \<and> buddy_ok m' n (insert (?k, i) ?A) \<and> block_marked m' n ?k i (snd r) \<and> pages_kept m m' n ?A \<and>
      usable_memory_start m' = usable_memory_start m"
    then obtain i m' where a: "page_alloc hart m (fst r) (snd r) = Some (baddr m ?k i, m')" "(?k, i) \<notin> ?A"
      "buddy_ok m' n (insert (?k, i) ?A)" "usable_memory_start m' = usable_memory_start m" by blast
    let ?h = "(baddr m ?k i, fst r)"
    have b: "block_of (usable_memory_start m) ?h = (?k, i)" by (rule block_of_baddr)
    have ba: "baddr m' = baddr m" by (rule baddr_cong [OF a(4)])
    have "baddr m ?k i \<noteq> 0" using F(1) by (simp add: buddy_inv_def arena_ok_def baddr_def)
    then have t: "take_pages hart m r = Some (Some ?h, m')" using a(1) by (simp add: take_pages_def)
    have nh: "?h \<notin> H" using a(2) b by force
    moreover have "handles_ok n m' (insert ?h H)"
      using assms a b nh unfolding handles_ok_def ba a(4) by (auto simp: inj_on_insert)
    ultimately show ?thesis using t by simp
  next
    assume "\<exists>l. page_alloc hart m (fst r) (snd r) = Some (0, m\<lparr>mem_lock := l\<rparr>) \<and> \<not> sl_lock l \<and>
      (\<forall>j. ?k \<le> j \<longrightarrow> j < 9 \<longrightarrow> F j = [])"
    then obtain l where l: "page_alloc hart m (fst r) (snd r) = Some (0, m\<lparr>mem_lock := l\<rparr>)" "\<not> sl_lock l" by blast
    then show ?thesis using assms by (auto simp: take_pages_def handles_ok_def buddy_ok_def inv_lock)
  qed
qed

lemma handles_give:
  assumes "handles_ok n m H" and "h \<in> H"
  shows "\<exists>m'. give_pages hart m h = Some m' \<and> handles_ok n m' (H - {h})"
proof -
  let ?b = "block_of (usable_memory_start m)"
  have ok: "buddy_ok m n (?b ` H)" and inj: "inj_on ?b H"
    and ad: "fst h = baddr m (page_order (snd h)) (snd (?b h))"
    using assms by (auto simp: handles_ok_def)
  have bh: "?b h = (page_order (snd h), snd (?b h))" by (simp add: block_of_def)
  then have "(page_order (snd h), snd (?b h)) \<in> ?b ` H" using assms(2) by (metis imageI)
  from page_free_ok [OF ok this, of hart] obtain m' where
    m': "page_free hart m (fst h) (snd h) = Some (0, m')" "buddy_ok m' n (?b ` H - {?b h})"
    "usable_memory_start m' = usable_memory_start m" using ad bh by metis
  have ba: "baddr m' = baddr m" by (rule baddr_cong [OF m'(3)])
  have "?b ` (H - {h}) = ?b ` H - {?b h}"
    using inj assms(2) by (simp add: inj_on_image_set_diff [OF inj])
  then have "handles_ok n m' (H - {h})"
    using m'(2) assms(1) unfolding handles_ok_def ba m'(3) by (auto intro: inj_on_diff)
  then show ?thesis using m'(1) by (simp add: give_pages_def)
qed

lemma handle_in_block:
  assumes "fst h = baddr m (page_order (snd h)) i" and "page_order (snd h) < 64" and "a \<in> handle_bytes h"
  shows "in_block (page_order (snd h)) i ((a - usable_memory_start m) div PG_SIZE)"
proof -
  let ?k = "page_order (snd h)"
  have "unat (snd h) \<le> 2 ^ ?k" using page_order_covers assms(2) by (simp add: page_order_def)
  then have "unat (snd h) * PG_SIZE \<le> 2 ^ ?k * PG_SIZE" by (rule mult_le_mono1)
  moreover have "fst h = usable_memory_start m + i * 2 ^ ?k * PG_SIZE" "fst h \<le> a" "a < fst h + unat (snd h) * PG_SIZE"
    using assms(1,3) by (simp_all add: handle_bytes_def baddr_def)
  ultimately have "i * 2 ^ ?k * PG_SIZE \<le> a - usable_memory_start m"
    "a - usable_memory_start m < (i * 2 ^ ?k + 2 ^ ?k) * PG_SIZE"
    unfolding add_mult_distrib by linarith+
  then show ?thesis
    unfolding in_block_iff by (simp add: less_eq_div_iff_mult_less_eq div_less_iff_less_mult)
qed

lemma handles_disjoint:
  assumes "handles_ok n m H" and "b \<in> H" "c \<in> H" "b \<noteq> c"
  shows "handle_bytes b \<inter> handle_bytes c = {}"
proof (rule ccontr)
  let ?b = "block_of (usable_memory_start m)"
  assume "handle_bytes b \<inter> handle_bytes c \<noteq> {}"
  then obtain a where a: "a \<in> handle_bytes b" "a \<in> handle_bytes c" by blast
  obtain F where F: "part_inv n F (?b ` H)" using assms(1) by (auto simp: handles_ok_def buddy_ok_def buddy_inv_def)
  have bl: "?b h = (page_order (snd h), snd (?b h))" for h by (simp add: block_of_def)
  have 9: "page_order (snd h) < 64 \<and> (page_order (snd h), snd (?b h)) \<in> fblocks F \<union> ?b ` H" if "h \<in> H" for h
    using part_invD(1) [OF F, of "page_order (snd h)" "snd (?b h)"] that bl [of h] by force
  have ib: "in_block (page_order (snd h)) (snd (?b h)) ((a - usable_memory_start m) div PG_SIZE)"
    if "h \<in> H" "a \<in> handle_bytes h" for h
    using that 9 [OF that(1)] assms(1) by (intro handle_in_block) (auto simp: handles_ok_def)
  have "?b b = ?b c"
    using disjoint_blocksD [OF part_invD(6) [OF F]] 9 [OF assms(2)] 9 [OF assms(3)]
      ib [OF assms(2) a(1)] ib [OF assms(3) a(2)] bl by metis
  then show False using assms by (auto simp: handles_ok_def inj_on_def)
qed

interpretation pa: page_allocator "handles_ok n" "take_pages hart" "give_pages hart" handle_bytes
  by unfold_locales (use handles_take handles_give handles_disjoint in blast)+


subsection \<open>How much is free\<close>

lemma available_from:
  "heap_ok m F \<Longrightarrow> length (free_count m) = 9 \<Longrightarrow> k + j \<le> 9 \<Longrightarrow>
    memory_available_from m k j sz = Some (sz + of_nat (\<Sum>i\<in>{k..<k + j}. length (F i) * 2 ^ i * PG_SIZE))"
proof (induction j arbitrary: k sz)
  case (Suc j)
  then have c: "free_count m ! k = of_nat (length (F k))" by (simp add: heap_ok_def)
  have "{k..<k + Suc j} = insert k {Suc k..<Suc k + j}" by auto
  then have "(\<Sum>i\<in>{k..<k + Suc j}. length (F i) * 2 ^ i * PG_SIZE)
      = length (F k) * 2 ^ k * PG_SIZE + (\<Sum>i\<in>{Suc k..<Suc k + j}. length (F i) * 2 ^ i * PG_SIZE)" by simp
  then show ?case using Suc.prems Suc.IH [of "Suc k"] c by (simp add: algebra_simps)
qed simp

text \<open>When nothing is allocated, coalescing has put the arena back into blocks of the
  largest order: a smaller free block would have a free buddy.\<close>

lemma all_pages_covered:
  assumes "part_inv n F {}" and "p < n"
  shows "\<exists>k i. k < 9 \<and> i \<in> set (F k) \<and> in_block k i p"
proof -
  let ?B = "fblocks F"
  define S where "S = (\<Union>b\<in>?B. {snd b * 2 ^ fst b ..< snd b * 2 ^ fst b + 2 ^ fst b})"
  have fin: "finite ?B"
  proof -
    have "?B \<subseteq> {..<9} \<times> (\<Union>k<9. set (F k))" by (auto simp: fblocks_def)
    then show ?thesis by (rule finite_subset) auto
  qed
  have dj: "disjoint_blocks ?B" using part_invD(6) [OF assms(1)] by simp
  have sub: "S \<subseteq> {..<n}"
  proof
    fix q assume "q \<in> S"
    then obtain k i where b: "(k, i) \<in> ?B" "q < i * 2 ^ k + 2 ^ k" unfolding S_def by auto
    then have "(i + 1) * 2 ^ k \<le> n" using part_invD(2) [OF assms(1)] by (auto simp: fblocks_def)
    then show "q \<in> {..<n}" using b(2) by simp
  qed
  have "card S = (\<Sum>b\<in>?B. card {snd b * 2 ^ fst b ..< snd b * 2 ^ fst b + 2 ^ fst b})"
    unfolding S_def
  proof (rule card_UN_disjoint [OF fin])
    show "\<forall>b\<in>?B. \<forall>c\<in>?B. b \<noteq> c \<longrightarrow>
      {snd b * 2 ^ fst b..<snd b * 2 ^ fst b + 2 ^ fst b} \<inter> {snd c * 2 ^ fst c..<snd c * 2 ^ fst c + 2 ^ fst c} = {}"
      using dj unfolding disjoint_blocks_def in_block_iff by fastforce
  qed simp
  also have "\<dots> = (\<Sum>b\<in>?B. 2 ^ fst b)" by simp
  also have "\<dots> = free_pages F"
  proof -
    have "?B = (SIGMA k:{..<9}. set (F k))" by (auto simp: fblocks_def)
    then have "(\<Sum>b\<in>?B. 2 ^ fst b) = (\<Sum>k<9. \<Sum>i\<in>set (F k). (2::nat) ^ k)"
      using sum.Sigma [of "{..<9::nat}" "\<lambda>k. set (F k)" "\<lambda>k i. (2::nat) ^ k"] by (simp add: case_prod_unfold)
    also have "\<dots> = free_pages F" unfolding free_pages_def
      using part_invD(3) [OF assms(1)] by (intro sum.cong) (simp_all add: distinct_card)
    finally show ?thesis .
  qed
  also have "\<dots> = n" using assms(1) by (simp add: part_inv_def used_pages_def)
  finally have "S = {..<n}" using card_subset_eq [OF _ sub] by simp
  then have "p \<in> S" using assms(2) by simp
  then show ?thesis unfolding S_def by (auto simp: fblocks_def in_block_iff)
qed


lemma in_block_coarser:
  assumes "k \<le> j" and "p div 2 ^ k = q div 2 ^ k" and "in_block j z p"
  shows "in_block j z q"
proof -
  have "r div 2 ^ j = r div 2 ^ k div 2 ^ (j - k)" for r :: nat
    using assms(1) by (metis div_mult2_eq le_add_diff_inverse power_add)
  then show ?thesis using assms(2,3) by (simp add: in_block_def)
qed

lemma coalesced_nothing_small:
  assumes pt: "part_inv n F {}" and co: "coalesced F" and n: "256 dvd n"
  shows "k < 8 \<Longrightarrow> F k = []"
proof (induction k rule: less_induct)
  case (less k)
  show ?case
  proof (rule ccontr)
    assume "F k \<noteq> []"
    then obtain x where x: "x \<in> set (F k)" by (meson list.set_sel(1))
    let ?y = "buddy_of x" and ?h = "x div 2"
    have "(x + 1) * 2 ^ k \<le> n" using part_invD(2) [OF pt _ x] less.prems by simp
    then have "?h * 2 ^ Suc k < n" by (rule pair_bound)
    moreover have "2 ^ Suc k dvd n"
    proof -
      have "(2::nat) ^ Suc k dvd 2 ^ 8" using less.prems by (intro le_imp_power_dvd) simp
      then show ?thesis using n by (simp del: power_Suc) (rule dvd_trans)
    qed
    ultimately have "(?h + 1) * 2 ^ Suc k \<le> n"
      by (auto simp: dvd_def) (metis Suc_leI mult.commute mult_less_cancel2 mult_Suc mult_le_mono1)
    moreover have "?y * 2 ^ k < (?h + 1) * 2 ^ Suc k"
    proof -
      have "y < (y div 2 + 1) * 2" for y :: nat by presburger
      from this [of ?y] have "?y < (?h + 1) * 2" by (simp only: buddy_of_simps)
      then have "?y * 2 ^ k < (?h + 1) * 2 * 2 ^ k" by (rule mult_strict_right_mono) simp
      then show ?thesis by (simp only: power_Suc mult.assoc)
    qed
    ultimately have "?y * 2 ^ k < n" by linarith
    from all_pages_covered [OF pt this] obtain j z where
      z: "j < 9" "z \<in> set (F j)" "in_block j z (?y * 2 ^ k)" by blast
    have "\<not> j < k" using less.IH [of j] less.prems z(2) by auto
    moreover have "j \<noteq> k"
    proof
      assume "j = k"
      then have "?y \<in> set (F k)" using z by (simp add: in_block_def)
      then show False using co less.prems x unfolding coalesced_def
        by (cases "even x") (auto simp: buddy_of_def elim!: evenE oddE)
    qed
    ultimately have j: "Suc k \<le> j" by simp
    have "in_block (Suc k) ?h (?y * 2 ^ k)" "in_block (Suc k) ?h (x * 2 ^ k)"
      using in_block_half [OF in_block_first [of k ?y]] in_block_half [OF in_block_first [of k x]]
      by (simp_all add: buddy_of_simps)
    then have "in_block j z (x * 2 ^ k)"
      using in_block_coarser [OF j _ z(3)] by (simp add: in_block_def)
    moreover have "(j, z) \<in> fblocks F" "(k, x) \<in> fblocks F" using z x less.prems by (auto simp: fblocks_def)
    ultimately show False
      using disjoint_blocksD [OF part_invD(6) [OF pt], of j z k x] in_block_first [of k x] j by auto
  qed
qed


subsection \<open>Boot\<close>

lemma init_buddy_ok:
  assumes "memory_start m \<le> memory_end m" and "memory_end m < 2 ^ 64"
    and "2048 \<le> (memory_end m - memory_start m) div PG_SIZE"
    and "0 < usable_memory_start m" and "usable_memory_start m = memory_start m + s * PG_SIZE"
    and "usable_memory_start m < usable_memory_end (init_tables m)"
  shows "\<exists>T m'. init_buddy hart m = Some (usable_memory_start m + T * 256 * PG_SIZE, m') \<and>
    buddy_ok m' (T * 256) {} \<and> usable_memory_start m' = usable_memory_start m \<and>
    usable_memory_end m' = usable_memory_end (init_tables m) \<and>
    usable_memory_end m' \<le> usable_memory_start m + T * 256 * PG_SIZE + max_block_size"
proof -
  let ?l = "(spinlock_init (mem_lock m))\<lparr>sl_lock := True, sl_cpu := hart\<rparr>"
  let ?m = "m\<lparr>mem_lock := ?l\<rparr>"
  have acq: "lock_acquire hart (spinlock_init (mem_lock m)) = Some ?l"
    by (rule lock_acquire_free) (simp add: spinlock_init_def)
  have ue: "usable_memory_end (init_tables ?m) = usable_memory_end (init_tables m)"
    by (simp add: init_tables_def split: prod.splits)
  obtain T m1 where T: "init_blocks (init_tables ?m) (usable_memory_end (init_tables ?m) - max_block_size) (usable_memory_start ?m)
      = Some (baddr ?m 8 T, m1)" "buddy_inv m1 (T * 256) (initial_free T) {}"
    "usable_memory_end (init_tables ?m) \<le> baddr ?m 8 T + max_block_size"
    "m1 = (init_tables ?m)\<lparr>blocks := blocks m1, free_list := free_list m1, free_count := free_count m1\<rparr>"
    using init_blocks_buddy [of ?m s] assms by (simp add: ue) blast
  obtain bl fl fc where m1: "m1 = (init_tables ?m)\<lparr>blocks := bl, free_list := fl, free_count := fc\<rparr>"
    using T(4) by (rule that)
  have mb: "max_block_size \<le> usable_memory_end (init_tables ?m)"
    using init_tables_inv(2) [of ?m] assms(1-3) by (simp add: max_block PG_SIZE_def)
  have lk: "mem_lock m1 = ?l" "usable_memory_start m1 = usable_memory_start m"
    "usable_memory_end m1 = usable_memory_end (init_tables ?m)" "length (pages_info m1) = page_count m1"
    "usable_memory_start (init_tables ?m) = usable_memory_start m"
    by (simp_all add: m1 init_tables_def split: prod.splits)
  let ?m2 = "m1\<lparr>pages_info := map (\<lambda>i. initial_page m1 i (pages_info m1 ! i)) [0..<page_count m1]\<rparr>"
  have "init_buddy hart m = Some (baddr m 8 T, ?m2\<lparr>mem_lock := (spinlock_init (mem_lock m))\<lparr>sl_lock := False, sl_cpu := 0\<rparr>\<rparr>)"
    using acq T(1) mb lk lock_release_held [of hart "spinlock_init (mem_lock m)"] by (simp add: init_buddy_def Let_def)
  moreover have "buddy_inv ?m2 (T * 256) (initial_free T) {}"
    using T(2) arena_cong [of m1 "T * 256" ?m2] heap_cong [of m1 _ ?m2] bits_cong [of m1 _ _ ?m2] lk(4)
    by (simp add: buddy_inv_def)
  ultimately show ?thesis using T(3) lk initial_coalesced [of T]
    by (intro exI [of _ T] exI [of _ "?m2\<lparr>mem_lock := (spinlock_init (mem_lock m))\<lparr>sl_lock := False, sl_cpu := 0\<rparr>\<rparr>"])
      (auto simp: buddy_ok_def inv_lock baddr_def ue)
qed

text \<open>The machine of the examples: 8 MiB at \<open>0x80000000\<close>, the kernel in the first two.\<close>

definition boot_memory :: memory_info where
  "boot_memory = \<lparr>memory_start = 0x80000000, memory_end = 0x80800000, usable_memory_start = 0x80200000,
     usable_memory_end = 0, page_count = 0, buddy_table = [], buddy_map = [], pages_info = [], free_list = [],
     free_count = [], blocks = (\<lambda>_. \<lparr>b_prev = 0, b_next = 0\<rparr>), mem_lock = \<lparr>sl_lock = False, sl_cpu = 0\<rparr>\<rparr>"

lemma boot_memory_layout:
  "memory_start boot_memory \<le> memory_end boot_memory" "memory_end boot_memory < 2 ^ 64"
  "2048 \<le> (memory_end boot_memory - memory_start boot_memory) div PG_SIZE"
  "0 < usable_memory_start boot_memory"
  "usable_memory_start boot_memory = memory_start boot_memory + 512 * PG_SIZE"
  "usable_memory_end (init_tables boot_memory) = 0x807FD000"
  by (simp_all add: boot_memory_def init_tables_def table_layout_def ROUNDDOWN_WITH_def PG_SIZE_def MAX_BUDDY_ORDER_def)

lemma boot_heap:
  "\<exists>T m. init_buddy 0 boot_memory = Some (usable_memory_start boot_memory + T * 256 * PG_SIZE, m) \<and>
    buddy_ok m (T * 256) {} \<and> 0 < T"
proof -
  have "usable_memory_start boot_memory < usable_memory_end (init_tables boot_memory)"
    by (simp only: boot_memory_layout(6)) (simp add: boot_memory_def)
  from init_buddy_ok [OF boot_memory_layout(1-5) this, of 0] obtain T m where
    m: "init_buddy 0 boot_memory = Some (usable_memory_start boot_memory + T * 256 * PG_SIZE, m)"
    "buddy_ok m (T * 256) {}" "usable_memory_end m = 0x807FD000"
    "usable_memory_end m \<le> usable_memory_start boot_memory + T * 256 * PG_SIZE + max_block_size"
    unfolding boot_memory_layout(6) by blast
  have "0 < T" using m(3,4) by (cases T) (simp_all add: boot_memory_def max_block PG_SIZE_def)
  with m show ?thesis by blast
qed

subsection \<open>Properties\<close>



text \<open>C2: \<open>page_free\<close> of an allocated block, with the page count it was requested with, succeeds
  with code 0: the block is no longer allocated, the heap is well formed (merged with its buddy as
  long as that is free), and the records of the pages of all other blocks are unchanged.\<close>

theorem page_free_correct:
  assumes "buddy_ok m n A" and "(page_order pages, i) \<in> A"
  shows "\<exists>m'. page_free hart m (baddr m (page_order pages) i) pages = Some (0, m') \<and>
    buddy_ok m' n (A - {(page_order pages, i)}) \<and> pages_kept m m' n (A - {(page_order pages, i)})"
  using page_free_ok [OF assms, of hart] by blast

lemma boot_one_page:
  "\<exists>pg m i m' n. init_buddy 0 boot_memory = Some (pg, m) \<and> page_alloc 0 m 1 0x20 = Some (baddr m (page_order 1) i, m') \<and>
    buddy_ok m' n {(page_order 1, i)} \<and> usable_memory_start m' = usable_memory_start m"
proof -
  obtain T m F where m: "init_buddy 0 boot_memory = Some (usable_memory_start boot_memory + T * 256 * PG_SIZE, m)"
    "buddy_inv m (T * 256) F {}" "coalesced F" "\<not> sl_lock (mem_lock m)" "0 < T" using boot_heap by (auto simp: buddy_ok_def)
  have "\<not> (\<forall>j. page_order 1 \<le> j \<longrightarrow> j < 9 \<longrightarrow> F j = [])"
  proof
    assume "\<forall>j. page_order 1 \<le> j \<longrightarrow> j < 9 \<longrightarrow> F j = []"
    moreover have "page_order 1 = 0" using trailing_zero_pow2 [of 0] by (simp add: page_order_def)
    ultimately have "free_pages F = 0" by (simp add: free_pages_def)
    then show False using m(2,5) by (auto simp: buddy_inv_def part_inv_def used_pages_def)
  qed
  with page_alloc_cases [OF m(2-4), of 0 1 "0x20"] m(1) show ?thesis by blast
qed

theorem page_free_correct_witness:
  "\<exists>pg m p m' m2 n. init_buddy 0 boot_memory = Some (pg, m) \<and> page_alloc 0 m 1 0x20 = Some (p, m') \<and>
    page_free 0 m' p 1 = Some (0, m2) \<and> buddy_ok m2 n {}"
proof -
  obtain pg m i m' n where m: "init_buddy 0 boot_memory = Some (pg, m)"
    "page_alloc 0 m 1 0x20 = Some (baddr m (page_order 1) i, m')"
    "buddy_ok m' n {(page_order 1, i)}" "usable_memory_start m' = usable_memory_start m" using boot_one_page by blast
  from page_free_correct [OF m(3), of 1 i 0] m(1,2) show ?thesis
    unfolding baddr_cong [OF m(4)] by auto
qed

text \<open>C3: every sequence of \<open>page_alloc\<close> and \<open>page_free\<close> calls (releases of pages still held)
  from an empty heap runs to its end without a panic, and the byte ranges held at the end are
  pairwise disjoint.\<close>

theorem page_ops_never_overlap:
  assumes "handles_ok n m {}"
  shows "\<exists>m' live. run_ops (take_pages hart) (give_pages hart) m [] ops = Some (m', live) \<and>
    handles_ok n m' (set live) \<and>
    (\<forall>i j. i < length live \<longrightarrow> j < length live \<longrightarrow> i \<noteq> j \<longrightarrow>
       handle_bytes (live ! i) \<inter> handle_bytes (live ! j) = {})"
  by (rule pa.run_ops_disjoint [OF assms])

theorem page_ops_never_overlap_witness:
  "\<exists>pg m m' live. init_buddy 0 boot_memory = Some (pg, m) \<and>
    run_ops (take_pages 0) (give_pages 0) m [] [Take (3, 0x20), Take (1, 0x40), Give 1, Take (600, 0)] = Some (m', live)"
proof -
  obtain T m where m: "init_buddy 0 boot_memory = Some (usable_memory_start boot_memory + T * 256 * PG_SIZE, m)"
    "buddy_ok m (T * 256) {}" using boot_heap by blast
  then have "handles_ok (T * 256) m {}" by (simp add: handles_ok_def)
  from page_ops_never_overlap [OF this, of 0 "[Take (3, 0x20), Take (1, 0x40), Give 1, Take (600, 0)]"] m(1)
  show ?thesis by blast
qed

text \<open>\<open>memory_available\<close> is exactly the bytes of the arena that are not allocated.\<close>

lemma memory_available_exact:
  assumes "buddy_ok m n A"
  shows "memory_available m = Some (of_nat ((n - used_pages A) * PG_SIZE))"
proof -
  obtain F where F: "arena_ok m n" "heap_ok m F" "part_inv n F A" using assms by (auto simp: buddy_ok_def buddy_inv_def)
  have "memory_available m = Some (of_nat (\<Sum>i<9. length (F i) * 2 ^ i * PG_SIZE))"
    using available_from [OF F(2), of 0 9 0] F(1)
    by (simp add: memory_available_def MAX_BUDDY_ORDER_def arena_ok_def atLeast0LessThan)
  also have "(\<Sum>i<9. length (F i) * 2 ^ i * PG_SIZE) = free_pages F * PG_SIZE"
    by (simp only: free_pages_def sum_distrib_right)
  also have "free_pages F = n - used_pages A" using F(3) by (auto simp: part_inv_def)
  finally show ?thesis .
qed

text \<open>Once everything is released the arena is back in blocks of the largest order: nothing is
  left on the smaller free lists, so the allocator does not fragment for good.\<close>

lemma all_released_all_merged:
  assumes "buddy_inv m n F {}" and "coalesced F" and "256 dvd n"
  shows "(\<forall>k<8. F k = []) \<and> length (F 8) * 256 = n"
proof -
  have pt: "part_inv n F {}" using assms(1) by (simp add: buddy_inv_def)
  note small = coalesced_nothing_small [OF pt assms(2,3)]
  have "free_pages F = (\<Sum>k<(9::nat). if k = 8 then length (F 8) * 256 else 0)"
    unfolding free_pages_def
  proof (rule sum.cong)
    fix k :: nat assume "k \<in> {..<9}"
    then have "k < 8 \<or> k = 8" by auto
    then show "length (F k) * 2 ^ k = (if k = 8 then length (F 8) * 256 else 0)" using small [of k] by auto
  qed simp
  then have "free_pages F = length (F 8) * 256" by simp
  moreover have "free_pages F = n" using pt by (simp add: part_inv_def used_pages_def)
  ultimately show ?thesis using small by simp
qed


text \<open>C4: on a machine with at least 8 MiB whose kernel image ends on a page boundary below the
  tables, the initialisation succeeds and establishes the allocator's invariant with nothing
  allocated, over an arena that leaves at most one largest block unused.\<close>

theorem init_buddy_establishes:
  assumes "memory_start m \<le> memory_end m" and "memory_end m < 2 ^ 64"
    and "2048 \<le> (memory_end m - memory_start m) div PG_SIZE"
    and "0 < usable_memory_start m" and "usable_memory_start m = memory_start m + s * PG_SIZE"
    and "usable_memory_start m < usable_memory_end (init_tables m)"
  shows "\<exists>T m'. init_buddy hart m = Some (usable_memory_start m + T * 256 * PG_SIZE, m') \<and>
    buddy_ok m' (T * 256) {} \<and> usable_memory_start m' = usable_memory_start m \<and>
    usable_memory_end m' = usable_memory_end (init_tables m) \<and>
    usable_memory_end m' \<le> usable_memory_start m + T * 256 * PG_SIZE + max_block_size"
  by (rule init_buddy_ok [OF assms])


theorem init_buddy_establishes_witness:
  "\<exists>T m. init_buddy 0 boot_memory = Some (usable_memory_start boot_memory + T * 256 * PG_SIZE, m) \<and>
    buddy_ok m (T * 256) {}"
proof -
  have "usable_memory_start boot_memory < usable_memory_end (init_tables boot_memory)"
    by (simp only: boot_memory_layout(6)) (simp add: boot_memory_def)
  from init_buddy_establishes [OF boot_memory_layout(1-5) this, of 0] show ?thesis by blast
qed

text \<open>\<open>page_free\<close> refuses \<open>NULL\<close> with code 1 and an address outside the usable memory
  with code 2, and changes nothing but the lock word.\<close>

lemma page_free_rejects:
  assumes "\<not> sl_lock (mem_lock m)" and "p = 0 \<or> p < usable_memory_start m \<or> usable_memory_end m \<le> p"
  shows "page_free hart m p pages =
    Some (if p = 0 then 1 else 2, m\<lparr>mem_lock := (mem_lock m)\<lparr>sl_lock := False, sl_cpu := 0\<rparr>\<rparr>)"
  using assms(2) lock_acquire_free [OF assms(1), of hart] lock_release_held [of hart "mem_lock m"]
  by (auto simp: page_free_def free_pages_of_power_2.simps)

end
