(* ===== verification/Page_Table.thy ===== *)
theory Page_Table
  imports Prelude
begin

text \<open>
  Sv39 page tables: the entry layout of \<open>kernel/header/memory.h\<close> and the three-level walk of
  \<open>kernel/memory/paging.c\<close>.

  Physical memory is seen in 64-bit cells: \<open>phys\<close> gives the cell at each (8-byte aligned)
  address, so a pointer to a table entry is a natural number and \<open>0\<close> is \<open>NULL\<close>.  The walk is
  written over the page source it takes new tables from; \<open>frame_source\<close> states what it relies
  on from that source, and \<open>tree_ok\<close> that the tables below a root form a tree of distinct
  frames.  \<open>pmap\<close> is the abstraction: the partial function from virtual pages to leaf entries
  that the tables stand for.
\<close>

type_synonym phys = "nat \<Rightarrow> u64"

subsection \<open>Entries\<close>

definition pte_get :: "nat \<Rightarrow> nat \<Rightarrow> u64 \<Rightarrow> u64" where
  "pte_get lo w e = take_bit w (drop_bit lo e)"

definition pte_put :: "nat \<Rightarrow> nat \<Rightarrow> u64 \<Rightarrow> u64 \<Rightarrow> u64" where
  "pte_put lo w v e = (e AND NOT (push_bit lo (mask w))) OR push_bit lo (take_bit w v)"

definition pte_V :: "u64 \<Rightarrow> bool" where "pte_V e \<longleftrightarrow> pte_get 0 1 e \<noteq> 0"

definition pte_Type :: "u64 \<Rightarrow> u64" where "pte_Type = pte_get 1 3"

definition pte_U :: "u64 \<Rightarrow> u64" where "pte_U = pte_get 4 1"

definition pte_G :: "u64 \<Rightarrow> u64" where "pte_G = pte_get 5 1"

definition pte_PPN :: "u64 \<Rightarrow> u64" where "pte_PPN = pte_get 10 38"

definition set_V :: "u64 \<Rightarrow> u64 \<Rightarrow> u64" where "set_V = pte_put 0 1"

definition set_Type :: "u64 \<Rightarrow> u64 \<Rightarrow> u64" where "set_Type = pte_put 1 3"

definition set_U :: "u64 \<Rightarrow> u64 \<Rightarrow> u64" where "set_U = pte_put 4 1"

definition set_G :: "u64 \<Rightarrow> u64 \<Rightarrow> u64" where "set_G = pte_put 5 1"

definition set_PPN :: "u64 \<Rightarrow> u64 \<Rightarrow> u64" where "set_PPN = pte_put 10 38"

text \<open>\<open>PhyPageNumber << PG_SHIFT\<close>.\<close>

definition pte_pa :: "u64 \<Rightarrow> u64" where
  "pte_pa e = push_bit PG_SHIFT (pte_PPN e)"

definition PTE_TYPE_BIT_W :: u64 where "PTE_TYPE_BIT_W = 2"

definition PTE_TYPE_RW :: u64 where "PTE_TYPE_RW = 3"

definition PTE_TYPE_RWX :: u64 where "PTE_TYPE_RWX = 7"

subsection \<open>The walk\<close>

definition PX :: "nat \<Rightarrow> u64 \<Rightarrow> nat" where
  "PX level va = unat (drop_bit (PG_SHIFT + 9 * level) va AND 0x1FF)"

definition MAXVA :: u64 where "MAXVA = 2 ^ 38"

text \<open>\<open>memset(page, 0, PG_SIZE)\<close> and \<open>memcpy(dst, src, PG_SIZE)\<close> on page-aligned addresses.\<close>

definition zero_page :: "phys \<Rightarrow> nat \<Rightarrow> phys" where
  "zero_page ph p = (\<lambda>a. if p \<le> a \<and> a < p + PG_SIZE then 0 else ph a)"

definition copy_page :: "phys \<Rightarrow> nat \<Rightarrow> nat \<Rightarrow> phys" where
  "copy_page ph dst src = (\<lambda>a. if dst \<le> a \<and> a < dst + PG_SIZE then ph (src + (a - dst)) else ph a)"

fun walk_with :: "('m \<Rightarrow> (nat \<times> 'm) option) \<Rightarrow> nat \<Rightarrow> phys \<Rightarrow> 'm \<Rightarrow> nat \<Rightarrow> u64 \<Rightarrow> bool \<Rightarrow> (nat \<times> phys \<times> 'm) option" where
  "walk_with grab 0 ph m page_dir va alloc = Some (page_dir + 8 * PX 0 va, ph, m)"
| "walk_with grab (Suc l) ph m page_dir va alloc = do {
     kassert (page_dir \<noteq> 0);
     let pte = page_dir + 8 * PX (Suc l) va;
     if pte_V (ph pte) then walk_with grab l ph m (unat (pte_pa (ph pte))) va alloc
     else if \<not> alloc then Some (0, ph, m)
     else do {
       (pg, m) \<leftarrow> grab m;
       if pg = 0 then Some (0, ph, m)
       else do {
         let ph = zero_page ph pg;
         let ph = ph(pte := set_V 1 (set_PPN (drop_bit PG_SHIFT (of_nat pg)) (ph pte)));
         walk_with grab l ph m pg va alloc } } }"

subsection \<open>Facts on entries\<close>

lemma get_put_same: "lo + w \<le> 64 \<Longrightarrow> pte_get lo w (pte_put lo w v e) = take_bit w v"
  by (rule bit_word_eqI) (auto simp: pte_get_def pte_put_def bit_simps)

lemma get_put_other: "lo + w \<le> lo' \<or> lo' + w' \<le> lo \<Longrightarrow> pte_get lo w (pte_put lo' w' v e) = pte_get lo w e"
  by (rule bit_word_eqI) (auto simp: pte_get_def pte_put_def bit_simps dest: bit_imp_le_length)

lemmas pte_fields = pte_V_def pte_Type_def pte_U_def pte_G_def pte_PPN_def set_V_def set_Type_def set_U_def set_G_def set_PPN_def

lemma pte_get_put [simp]:
  "pte_V (set_Type t e) = pte_V e" "pte_V (set_U t e) = pte_V e" "pte_V (set_G t e) = pte_V e" "pte_V (set_PPN t e) = pte_V e"
  "pte_Type (set_V t e) = pte_Type e" "pte_Type (set_U t e) = pte_Type e" "pte_Type (set_G t e) = pte_Type e" "pte_Type (set_PPN t e) = pte_Type e"
  "pte_U (set_V t e) = pte_U e" "pte_U (set_Type t e) = pte_U e" "pte_U (set_G t e) = pte_U e" "pte_U (set_PPN t e) = pte_U e"
  "pte_G (set_V t e) = pte_G e" "pte_G (set_Type t e) = pte_G e" "pte_G (set_U t e) = pte_G e" "pte_G (set_PPN t e) = pte_G e"
  "pte_PPN (set_V t e) = pte_PPN e" "pte_PPN (set_Type t e) = pte_PPN e" "pte_PPN (set_U t e) = pte_PPN e" "pte_PPN (set_G t e) = pte_PPN e"
  by (simp_all add: pte_fields get_put_other)

lemma pte_put_same [simp]:
  "pte_Type (set_Type t e) = take_bit 3 t" "pte_U (set_U t e) = take_bit 1 t" "pte_G (set_G t e) = take_bit 1 t"
  "pte_PPN (set_PPN t e) = take_bit 38 t"
  by (simp_all add: pte_fields get_put_same)

lemma pte_V_set [simp]: "pte_V (set_V 1 e)"
  by (simp add: pte_fields get_put_same)

lemma pte_pa_set [simp]:
  "pte_pa (set_V t e) = pte_pa e" "pte_pa (set_Type t e) = pte_pa e" "pte_pa (set_U t e) = pte_pa e" "pte_pa (set_G t e) = pte_pa e"
  by (simp_all add: pte_pa_def)

lemma pte_0 [simp]: "\<not> pte_V 0" "pte_Type 0 = 0"
  by (simp_all add: pte_fields pte_get_def)

text \<open>A page-aligned address below \<open>2 ^ 50\<close> survives being stored in an entry.\<close>

lemma pte_pa_set_PPN:
  assumes "4096 dvd g" and "g < 2 ^ 50"
  shows "unat (pte_pa (set_PPN (drop_bit PG_SHIFT (of_nat g)) e)) = g"
proof -
  obtain k where k: "g = 4096 * k" using assms(1) by blast
  have g: "unat (of_nat g :: u64) = g" using assms(2) by (simp add: unat_of_nat take_bit_nat_eq_self)
  have "unat (drop_bit PG_SHIFT (of_nat g :: u64)) = drop_bit PG_SHIFT g"
    unfolding unat_drop_bit_eq g ..
  also have "\<dots> = k" using k by (simp add: drop_bit_eq_div PG_SHIFT_def)
  finally have "unat (drop_bit PG_SHIFT (of_nat g :: u64)) = k" .
  moreover have "k < 2 ^ 38" using k assms(2) by simp
  ultimately have "unat (take_bit 38 (drop_bit PG_SHIFT (of_nat g :: u64))) = k"
    by (simp only: unsigned_take_bit_eq take_bit_nat_eq_self)
  then have "unat (pte_pa (set_PPN (drop_bit PG_SHIFT (of_nat g)) e)) = take_bit 64 (push_bit 12 k)"
    by (simp add: pte_pa_def PG_SHIFT_def unsigned_push_bit_eq)
  also have "\<dots> = g"
    using k assms(2) by (simp add: push_bit_eq_mult take_bit_nat_eq_self mult.commute)
  finally show ?thesis .
qed

lemma PX_nat: "PX l va = unat va div 2 ^ (12 + 9 * l) mod 512"
proof -
  have "drop_bit n va AND 0x1FF = take_bit 9 (drop_bit n va)" for n
    by (simp add: take_bit_eq_mask mask_eq_exp_minus_1)
  then have "PX l va = take_bit 9 (drop_bit (12 + 9 * l) (unat va))"
    by (simp only: PX_def unsigned_take_bit_eq unat_drop_bit_eq PG_SHIFT_def)
  then show ?thesis by (simp add: drop_bit_eq_div take_bit_eq_mod)
qed

lemma PX_less: "PX l va < 512"
  by (simp add: PX_nat)


subsection \<open>The tree of tables\<close>

fun node :: "phys \<Rightarrow> nat \<Rightarrow> nat list \<Rightarrow> nat option" where
  "node ph t [] = Some t"
| "node ph t (i # is) =
    (if pte_V (ph (t + 8 * i)) \<and> pte_Type (ph (t + 8 * i)) = 0 then node ph (unat (pte_pa (ph (t + 8 * i)))) is else None)"

definition path_ok :: "nat list \<Rightarrow> bool" where
  "path_ok p \<longleftrightarrow> length p \<le> 2 \<and> (\<forall>i\<in>set p. i < 512)"

definition tables :: "phys \<Rightarrow> nat \<Rightarrow> nat set" where
  "tables ph root = {t. \<exists>p. path_ok p \<and> node ph root p = Some t}"

definition frame_of :: "nat \<Rightarrow> nat" where
  "frame_of a = a div 4096 * 4096"

text \<open>Paths lead to different frames, all of them handed out; upper-level entries that are not valid
  have no type bits, and only the root's entry 2, the kernel's gigabyte page, is a leaf above the
  last level.\<close>

definition tree_ok :: "phys \<Rightarrow> nat \<Rightarrow> nat set \<Rightarrow> bool" where
  "tree_ok ph root L \<longleftrightarrow>
     (\<forall>p t. path_ok p \<longrightarrow> node ph root p = Some t \<longrightarrow> t \<in> L \<and> t \<noteq> 0 \<and> 4096 dvd t) \<and>
     (\<forall>p q t. path_ok p \<longrightarrow> path_ok q \<longrightarrow> node ph root p = Some t \<longrightarrow> node ph root q = Some t \<longrightarrow> p = q) \<and>
     (\<forall>p t i. path_ok p \<longrightarrow> length p < 2 \<longrightarrow> node ph root p = Some t \<longrightarrow> i < 512 \<longrightarrow>
        pte_Type (ph (t + 8 * i)) \<noteq> 0 \<longrightarrow> pte_V (ph (t + 8 * i)) \<and> p = [] \<and> i = 2)"

definition pmap :: "phys \<Rightarrow> nat \<Rightarrow> u64 \<Rightarrow> u64 option" where
  "pmap ph root va = do {
     t \<leftarrow> node ph root [PX 2 va, PX 1 va];
     if pte_V (ph (t + 8 * PX 0 va)) then Some (ph (t + 8 * PX 0 va)) else None }"

lemma node_snoc: "node ph t (p @ [i]) = (case node ph t p of None \<Rightarrow> None | Some u \<Rightarrow> node ph u [i])"
  by (induction ph t p rule: node.induct) auto

lemma path_ok_snoc: "path_ok (p @ [i]) \<longleftrightarrow> length p < 2 \<and> i < 512 \<and> path_ok p"
  by (auto simp: path_ok_def)

lemma path_ok_PX [simp]: "path_ok []" "path_ok [PX l va]" "path_ok [PX k va, PX l va]"
  by (simp_all add: path_ok_def PX_less)

text \<open>A cell belongs to one frame and one index.\<close>

lemma cell_eq:
  assumes "4096 dvd t" and "4096 dvd u" and "i < 512" and "j < 512"
  shows "t + 8 * i = u + 8 * j \<longleftrightarrow> t = u \<and> i = (j :: nat)"
proof
  assume e: "t + 8 * i = u + 8 * j"
  have "(t + 8 * i) div 4096 = t div 4096" "(u + 8 * j) div 4096 = u div 4096"
    using assms by (auto elim!: dvdE)
  then have "t div 4096 = u div 4096" using e by simp
  then have "t = u" using assms by (metis dvd_div_eq_iff)
  then show "t = u \<and> i = j" using e by simp
qed simp

lemma frame_of_cell: "4096 dvd t \<Longrightarrow> i < 512 \<Longrightarrow> frame_of (t + 8 * i) = t"
  by (auto simp: frame_of_def elim!: dvdE)

lemma frame_of_in: "4096 dvd p \<Longrightarrow> p \<le> a \<and> a < p + PG_SIZE \<longleftrightarrow> frame_of a = p"
  by (auto simp: frame_of_def PG_SIZE_def elim!: dvdE)

lemma tree_okD:
  assumes "tree_ok ph root L" and "path_ok p" and "node ph root p = Some t"
  shows "t \<in> L" "t \<noteq> 0" "4096 dvd t"
  using assms by (auto simp: tree_ok_def)

lemma tree_ok_inj:
  "tree_ok ph root L \<Longrightarrow> path_ok p \<Longrightarrow> path_ok q \<Longrightarrow> node ph root p = Some t \<Longrightarrow> node ph root q = Some t \<Longrightarrow> p = q"
  unfolding tree_ok_def by blast

lemma tree_ok_type:
  "tree_ok ph root L \<Longrightarrow> path_ok p \<Longrightarrow> length p < 2 \<Longrightarrow> node ph root p = Some t \<Longrightarrow> i < 512 \<Longrightarrow>
    pte_Type (ph (t + 8 * i)) \<noteq> 0 \<Longrightarrow> pte_V (ph (t + 8 * i)) \<and> p = [] \<and> i = 2"
  unfolding tree_ok_def by blast

text \<open>Nodes only depend on the upper-level cells along their path.\<close>

lemma node_frame:
  assumes "\<And>r j s u. q = r @ j # s \<Longrightarrow> node ph root r = Some u \<Longrightarrow> ph' (u + 8 * j) = ph (u + 8 * j)"
  shows "node ph' root q = node ph root q"
  using assms
proof (induction q rule: rev_induct)
  case (snoc j q)
  have "node ph' root q = node ph root q" using snoc.prems by (intro snoc.IH) auto
  moreover have "ph' (u + 8 * j) = ph (u + 8 * j)" if "node ph root q = Some u" for u
    using snoc.prems [of q j "[]" u] that by simp
  ultimately show ?case by (auto simp: node_snoc split: option.splits)
qed simp

lemma tree_cong:
  assumes "tree_ok ph root L" and "L \<subseteq> L'"
    and "\<And>p u j. path_ok p \<Longrightarrow> length p < 2 \<Longrightarrow> node ph root p = Some u \<Longrightarrow> j < 512 \<Longrightarrow> ph' (u + 8 * j) = ph (u + 8 * j)"
  shows "tree_ok ph' root L'" and "path_ok q \<Longrightarrow> node ph' root q = node ph root q"
proof -
  have n: "node ph' root q = node ph root q" if "path_ok q" for q
  proof (rule node_frame)
    fix r j s u assume q: "q = r @ j # s" "node ph root r = Some u"
    then have "path_ok r" "length r < 2" "j < 512" using that by (auto simp: path_ok_def)
    then show "ph' (u + 8 * j) = ph (u + 8 * j)" using assms(3) q(2) by blast
  qed
  then show "path_ok q \<Longrightarrow> node ph' root q = node ph root q" .
  show "tree_ok ph' root L'" unfolding tree_ok_def
  proof (intro conjI allI impI)
    fix p t i assume a: "path_ok p" "length p < 2" "node ph' root p = Some t" "i < 512" "pte_Type (ph' (t + 8 * i)) \<noteq> 0"
    then have "node ph root p = Some t" using n by simp
    moreover from this have e: "ph' (t + 8 * i) = ph (t + 8 * i)" using assms(3) a by blast
    ultimately have "pte_V (ph (t + 8 * i)) \<and> p = [] \<and> i = 2" using a tree_ok_type [OF assms(1), of p t i] by metis
    then show "pte_V (ph' (t + 8 * i))" "p = []" "i = 2" unfolding e by blast+
  qed (use n assms(2) tree_okD [OF assms(1)] tree_ok_inj [OF assms(1)] in auto)
qed

text \<open>A write into a leaf table changes exactly one leaf entry.\<close>

lemma leaf_write:
  assumes "tree_ok ph root L" and "node ph root [PX 2 va, PX 1 va] = Some t"
  shows "tree_ok (ph(t + 8 * PX 0 va := e)) root L"
    and "path_ok q \<Longrightarrow> node (ph(t + 8 * PX 0 va := e)) root q = node ph root q"
    and "pmap (ph(t + 8 * PX 0 va := e)) root vb =
      (if PX 2 vb = PX 2 va \<and> PX 1 vb = PX 1 va \<and> PX 0 vb = PX 0 va then (if pte_V e then Some e else None) else pmap ph root vb)"
proof -
  let ?ph = "ph(t + 8 * PX 0 va := e)"
  have t: "4096 dvd t" using tree_okD(3) [OF assms(1) path_ok_PX(3) assms(2)] .
  have c: "?ph (u + 8 * j) = ph (u + 8 * j)" if "path_ok p" "length p < 2" "node ph root p = Some u" "j < 512" for p u j
  proof -
    have "u \<noteq> t" using tree_ok_inj [OF assms(1) that(1) path_ok_PX(3) _ assms(2)] that(2,3) by auto
    then show ?thesis using cell_eq [OF tree_okD(3) [OF assms(1) that(1,3)] t that(4) PX_less] by simp
  qed
  show "tree_ok ?ph root L" by (rule tree_cong(1) [OF assms(1) order_refl c])
  have n: "node ?ph root q = node ph root q" if "path_ok q" for q by (rule tree_cong(2) [OF assms(1) order_refl c that])
  then show "path_ok q \<Longrightarrow> node ?ph root q = node ph root q" .
  show "pmap ?ph root vb =
      (if PX 2 vb = PX 2 va \<and> PX 1 vb = PX 1 va \<and> PX 0 vb = PX 0 va then (if pte_V e then Some e else None) else pmap ph root vb)"
  proof (cases "node ph root [PX 2 vb, PX 1 vb]")
    case None
    then have "\<not> (PX 2 vb = PX 2 va \<and> PX 1 vb = PX 1 va)" using assms(2)
      by (auto simp del: node.simps)
    then show ?thesis using None n [of "[PX 2 vb, PX 1 vb]"] by (auto simp: pmap_def simp del: node.simps)
  next
    case (Some u)
    have u: "4096 dvd u" using tree_okD(3) [OF assms(1) path_ok_PX(3) Some] .
    have "u = t \<longleftrightarrow> PX 2 vb = PX 2 va \<and> PX 1 vb = PX 1 va"
      using tree_ok_inj [OF assms(1) path_ok_PX(3) path_ok_PX(3) Some] Some assms(2)
      by (metis list.inject option.inject)
    then show ?thesis using Some n [of "[PX 2 vb, PX 1 vb]"] cell_eq [OF u t PX_less PX_less, of 0 vb 0 va]
      by (auto simp: pmap_def simp del: node.simps)
  qed
qed

text \<open>Linking a fresh, zeroed frame as a new table changes no mapping.\<close>

definition link_table :: "phys \<Rightarrow> nat \<Rightarrow> nat \<Rightarrow> phys" where
  "link_table ph pte g =
    (zero_page ph g)(pte := set_V 1 (set_PPN (drop_bit PG_SHIFT (of_nat g)) (zero_page ph g pte)))"

definition new_table :: "phys \<Rightarrow> nat \<Rightarrow> nat set \<Rightarrow> nat list \<Rightarrow> nat \<Rightarrow> nat \<Rightarrow> nat \<Rightarrow> bool" where
  "new_table ph root L p t i g \<longleftrightarrow> tree_ok ph root L \<and> node ph root p = Some t \<and> path_ok (p @ [i]) \<and>
     \<not> pte_V (ph (t + 8 * i)) \<and> g \<notin> L \<and> g \<noteq> 0 \<and> 4096 dvd g \<and> g < 2 ^ 50"

lemma new_tableD:
  assumes "new_table ph root L p t i g"
  shows "tree_ok ph root L" "node ph root p = Some t" "path_ok p" "length p < 2" "i < 512" "\<not> pte_V (ph (t + 8 * i))"
    "g \<notin> L" "g \<noteq> 0" "4096 dvd g" "g < 2 ^ 50" "t \<in> L" "4096 dvd t" "t \<noteq> g"
    "pte_Type (ph (t + 8 * i)) = 0" "node ph root (p @ [i]) = None"
proof -
  from assms show a: "tree_ok ph root L" "node ph root p = Some t" "path_ok p" "length p < 2" "i < 512"
    "\<not> pte_V (ph (t + 8 * i))" "g \<notin> L" "g \<noteq> 0" "4096 dvd g" "g < 2 ^ 50"
    by (auto simp: new_table_def path_ok_snoc)
  then show "t \<in> L" "4096 dvd t" "t \<noteq> g" using tree_okD [OF a(1,3,2)] by auto
  show "pte_Type (ph (t + 8 * i)) = 0" using tree_ok_type [OF a(1,3,4,2,5)] a(6) by blast
  show "node ph root (p @ [i]) = None" using a(2,6) by (simp add: node_snoc)
qed

lemma link_cell:
  assumes nt: "new_table ph root L p t i g" and u: "u \<in> L" "4096 dvd u" "j < 512"
  shows "link_table ph (t + 8 * i) g (u + 8 * j) =
    (if u = t \<and> j = i then set_V 1 (set_PPN (drop_bit PG_SHIFT (of_nat g)) (ph (t + 8 * i))) else ph (u + 8 * j))"
proof -
  note n = new_tableD [OF nt]
  have z: "zero_page ph g (v + 8 * k) = ph (v + 8 * k)" if "v \<in> L" "4096 dvd v" "k < 512" for v k
    using n(7) frame_of_in [OF n(9), of "v + 8 * k"] frame_of_cell [OF that(2,3)] that(1) by (auto simp: zero_page_def)
  show ?thesis using z [OF u] z [OF n(11,12,5)] cell_eq [OF u(2) n(12) u(3) n(5)] by (auto simp: link_table_def)
qed

lemma link_new: "new_table ph root L p t i g \<Longrightarrow> j < 512 \<Longrightarrow> link_table ph (t + 8 * i) g (g + 8 * j) = 0"
  using cell_eq [of g t j i] new_tableD [of ph root L p t i g]
  by (auto simp: link_table_def zero_page_def PG_SIZE_def)

lemma link_outside:
  "new_table ph root L p t i g \<Longrightarrow> frame_of a \<noteq> g \<Longrightarrow> frame_of a \<noteq> t \<Longrightarrow> link_table ph (t + 8 * i) g a = ph a"
  using frame_of_cell [of t i] frame_of_in [of g a] new_tableD [of ph root L p t i g]
  by (auto simp: link_table_def zero_page_def)

lemma link_node:
  assumes nt: "new_table ph root L p t i g"
  shows "path_ok q \<Longrightarrow> node (link_table ph (t + 8 * i) g) root q = (if q = p @ [i] then Some g else node ph root q)"
proof (induction q rule: rev_induct)
  case (snoc j r)
  note n = new_tableD [OF nt]
  let ?ph = "link_table ph (t + 8 * i) g"
  have r: "path_ok r" "j < 512" "length r < 2" using snoc.prems by (simp_all add: path_ok_snoc)
  show ?case
  proof (cases "r = p @ [i]")
    case True
    then have "node ?ph root r = Some g" "node ph root r = None" using snoc.IH [OF r(1)] n(15) by auto
    then have "node ?ph root (r @ [j]) = None" "node ph root (r @ [j]) = None"
      using link_new [OF nt r(2)] by (simp_all add: node_snoc)
    then show ?thesis using True by simp
  next
    case False
    then have e: "node ?ph root r = node ph root r" using snoc.IH [OF r(1)] by simp
    show ?thesis
    proof (cases "node ph root r")
      case None
      then show ?thesis using e n(2) by (auto simp: node_snoc)
    next
      case (Some u)
      have u: "u \<in> L" "4096 dvd u" using tree_okD [OF n(1) r(1) Some] by auto
      have "u = t \<longleftrightarrow> r = p" using tree_ok_inj [OF n(1) r(1) n(3) Some] n(2) Some by auto
      then show ?thesis
        using e Some link_cell [OF nt u r(2)] n(14) pte_pa_set_PPN [OF n(9,10)] by (auto simp: node_snoc)
    qed
  qed
qed simp

lemma link_tree:
  assumes nt: "new_table ph root L p t i g"
  shows "tree_ok (link_table ph (t + 8 * i) g) root (insert g L)"
  unfolding tree_ok_def
proof (intro conjI allI impI)
  note n = new_tableD [OF nt]
  fix q u j assume a: "path_ok q" "length q < 2" "node (link_table ph (t + 8 * i) g) root q = Some u" "j < 512"
    "pte_Type (link_table ph (t + 8 * i) g (u + 8 * j)) \<noteq> 0"
  have q: "q \<noteq> p @ [i]" using a link_node [OF nt a(1)] link_new [OF nt a(4)] by auto
  then have m: "node ph root q = Some u" using a(1,3) link_node [OF nt] by simp
  have u: "u \<in> L" "4096 dvd u" using tree_okD [OF n(1) a(1) m] by auto
  have e: "link_table ph (t + 8 * i) g (u + 8 * j) = ph (u + 8 * j)"
    using a(5) link_cell [OF nt u a(4)] n(14) by (auto split: if_splits)
  then have "pte_V (ph (u + 8 * j)) \<and> q = [] \<and> j = 2" using tree_ok_type [OF n(1) a(1,2) m a(4)] a(5) by metis
  then show "pte_V (link_table ph (t + 8 * i) g (u + 8 * j))" "q = []" "j = 2" unfolding e by blast+
next
  note n = new_tableD [OF nt]
  fix q r u assume "path_ok q" "path_ok r" "node (link_table ph (t + 8 * i) g) root q = Some u"
    "node (link_table ph (t + 8 * i) g) root r = Some u"
  then show "q = r"
    using link_node [OF nt] tree_ok_inj [OF n(1)] tree_okD(1) [OF n(1)] n(7) by (auto split: if_splits)
qed (use link_node [OF nt] new_tableD [OF nt] tree_okD [OF new_tableD(1) [OF nt]] in \<open>auto split: if_splits\<close>)

lemma link_pmap:
  assumes nt: "new_table ph root L p t i g"
  shows "pmap (link_table ph (t + 8 * i) g) root va = pmap ph root va"
proof -
  note n = new_tableD [OF nt] and nd = link_node [OF nt path_ok_PX(3) [of 2 va 1]]
  show ?thesis
  proof (cases "[PX 2 va, PX 1 va] = p @ [i]")
    case True
    then have "node ph root [PX 2 va, PX 1 va] = None" using n(15) by metis
    moreover have "node (link_table ph (t + 8 * i) g) root [PX 2 va, PX 1 va] = Some g" using nd True by argo
    ultimately show ?thesis using link_new [OF nt PX_less, of 0 va] by (simp add: pmap_def del: node.simps)
  next
    case False
    then have e: "node (link_table ph (t + 8 * i) g) root [PX 2 va, PX 1 va] = node ph root [PX 2 va, PX 1 va]"
      using nd by argo
    show ?thesis
    proof (cases "node ph root [PX 2 va, PX 1 va]")
      case (Some u)
      have u: "u \<in> L" "4096 dvd u" using tree_okD [OF n(1) path_ok_PX(3) Some] by auto
      have "u \<noteq> t" using tree_ok_inj [OF n(1) path_ok_PX(3) n(3) Some] n(2,4) by auto
      then show ?thesis using e Some link_cell [OF nt u PX_less, of 0 va] by (simp add: pmap_def del: node.simps)
    qed (use e in \<open>simp add: pmap_def del: node.simps\<close>)
  qed
qed

subsection \<open>What the walk does\<close>

text \<open>The interface to the allocator: \<open>frames m L\<close> says that \<open>L\<close> is the set of frames in use.\<close>

locale frame_source =
  fixes frames :: "'m \<Rightarrow> nat set \<Rightarrow> bool" and grab :: "'m \<Rightarrow> (nat \<times> 'm) option"
  assumes grab_ok: "frames m L \<Longrightarrow> \<exists>g m'. grab m = Some (g, m') \<and>
    (if g = 0 then frames m' L else g \<notin> L \<and> 4096 dvd g \<and> g < 2 ^ 50 \<and> frames m' (insert g L))"
begin

lemma walk_down:
  assumes "frames m L" and "tree_ok ph root L" and "node ph root p = Some t" and "PX 2 va \<noteq> 2"
    and "(l, p) \<in> {(2, []), (1, [PX 2 va]), (0, [PX 2 va, PX 1 va])}"
  shows "\<exists>r ph' m' L'. walk_with grab l ph m t va alloc = Some (r, ph', m') \<and> L \<subseteq> L' \<and> frames m' L' \<and> tree_ok ph' root L' \<and>
    pmap ph' root = pmap ph root \<and> (\<not> alloc \<longrightarrow> ph' = ph \<and> m' = m) \<and>
    (\<forall>a. ph' a \<noteq> ph a \<longrightarrow> frame_of a \<in> tables ph root \<or> frame_of a \<notin> L) \<and>
    (\<forall>t\<in>tables ph' root. t \<in> tables ph root \<or> t \<notin> L) \<and>
    (r = 0 \<and> (alloc \<or> pmap ph root va = None) \<or>
     (\<exists>u. node ph' root [PX 2 va, PX 1 va] = Some u \<and> r = u + 8 * PX 0 va \<and> r \<noteq> 0))"
  using assms
proof (induction l arbitrary: ph m t p L)
  case 0
  then have n: "node ph root [PX 2 va, PX 1 va] = Some t" by auto
  then have "t \<noteq> 0" using tree_okD(2) [OF 0(2) path_ok_PX(3)] by blast
  then show ?case using 0 n by (intro exI [of _ "t + 8 * PX 0 va"] exI [of _ ph] exI [of _ m] exI [of _ L]) auto
next
  case (Suc l)
  let ?pte = "t + 8 * PX (Suc l) va"
  have p: "path_ok p" "length p < 2" "path_ok (p @ [PX (Suc l) va])"
    "(l, p @ [PX (Suc l) va]) \<in> {(2, []), (1, [PX 2 va]), (0, [PX 2 va, PX 1 va])}"
    using Suc.prems(5) by (auto simp: numeral_2_eq_2)
  note t = tree_okD [OF Suc.prems(2) p(1) Suc.prems(3)]
  have ty: "pte_Type (ph ?pte) = 0"
    using tree_ok_type [OF Suc.prems(2) p(1,2) Suc.prems(3) PX_less [of "Suc l" va]] Suc.prems(4,5) by (auto simp: numeral_2_eq_2)
  show ?case
  proof (cases "pte_V (ph ?pte)")
    case True
    then have "node ph root (p @ [PX (Suc l) va]) = Some (unat (pte_pa (ph ?pte)))"
      using Suc.prems(3) ty by (simp add: node_snoc)
    from Suc.IH [OF Suc.prems(1,2) this Suc.prems(4) p(4)] True t(2) show ?thesis by simp
  next
    case False
    have no: "node ph root (p @ [PX (Suc l) va]) = None" using Suc.prems(3) False by (simp add: node_snoc)
    have pn: "pmap ph root va = None"
    proof -
      have "node ph root [PX 2 va, PX 1 va] = None" using no Suc.prems(5)
        by (cases "node ph root [PX 2 va]") (auto simp: numeral_2_eq_2 node_snoc [of ph root "[PX 2 va]", simplified] split: if_splits)
      then show ?thesis by (simp add: pmap_def del: node.simps)
    qed
    show ?thesis
    proof (cases alloc)
      case True
      obtain g m' where g: "grab m = Some (g, m')"
        "if g = 0 then frames m' L else g \<notin> L \<and> 4096 dvd g \<and> g < 2 ^ 50 \<and> frames m' (insert g L)"
        using grab_ok [OF Suc.prems(1)] by blast
      show ?thesis
      proof (cases "g = 0")
        case True
        then show ?thesis using g False t(2) Suc.prems(2) \<open>alloc\<close>
          by (intro exI [of _ 0] exI [of _ ph] exI [of _ m'] exI [of _ L]) simp
      next
        case g0: False
        let ?ph = "link_table ph ?pte g"
        have nt: "new_table ph root L p t (PX (Suc l) va) g"
          using Suc.prems(2,3) p(3) False g g0 by (simp add: new_table_def)
        have n: "node ?ph root (p @ [PX (Suc l) va]) = Some g" using link_node [OF nt p(3)] by simp
        have fr: "frames m' (insert g L)" using g(2) g0 by simp
        from Suc.IH [OF fr link_tree [OF nt] n Suc.prems(4) p(4)] obtain r ph' m2 L' where
          w: "walk_with grab l ?ph m' g va alloc = Some (r, ph', m2)" "insert g L \<subseteq> L'" "frames m2 L'" "tree_ok ph' root L'"
          "pmap ph' root = pmap ?ph root" "\<forall>a. ph' a \<noteq> ?ph a \<longrightarrow> frame_of a \<in> tables ?ph root \<or> frame_of a \<notin> insert g L"
          "\<forall>t\<in>tables ph' root. t \<in> tables ?ph root \<or> t \<notin> insert g L"
          "r = 0 \<and> (alloc \<or> pmap ?ph root va = None) \<or>
            (\<exists>u. node ph' root [PX 2 va, PX 1 va] = Some u \<and> r = u + 8 * PX 0 va \<and> r \<noteq> 0)" by blast
        have tb: "tables ?ph root \<subseteq> insert g (tables ph root)"
          using link_node [OF nt] by (auto simp: tables_def split: if_splits)
        have "t \<in> tables ph root" using p(1) Suc.prems(3) by (auto simp: tables_def)
        then have ch: "\<forall>a. ph' a \<noteq> ph a \<longrightarrow> frame_of a \<in> tables ph root \<or> frame_of a \<notin> L"
          using w(6) link_outside [OF nt] tb new_tableD(7) [OF nt] by (metis insert_iff subsetD)
        have ws: "walk_with grab (Suc l) ph m t va alloc = walk_with grab l ?ph m' g va alloc"
          using False \<open>alloc\<close> g(1) g0 t(2) by (simp add: link_table_def Let_def)
        have ts: "\<forall>t\<in>tables ph' root. t \<in> tables ph root \<or> t \<notin> L"
          using w(7) tb new_tableD(7) [OF nt] by (metis insert_iff subsetD)
        show ?thesis unfolding ws
          using w ch ts link_pmap [OF nt] \<open>alloc\<close> by (intro exI [of _ r] exI [of _ ph'] exI [of _ m2] exI [of _ L']) auto
      qed
    next
      case na: False
      then show ?thesis using False t(2) Suc.prems(1,2) pn
        by (intro exI [of _ 0] exI [of _ ph] exI [of _ m] exI [of _ L]) simp
    qed
  qed
qed

end

end
