(* ===== verification/Paging.thy ===== *)
theory Paging
  imports Buddy Page_Table
begin

text \<open>
  \<open>kernel/memory/paging.c\<close>: walking, mapping and unmapping, page directories, copy-on-write sharing at
  fork and its resolution at a page fault.  Page tables live in \<open>phys\<close>, reference counts and free
  pages in the memory manager's state.  The header of a free block is kept by the memory manager and
  not in \<open>phys\<close>.
\<close>

definition walk_pages :: "nat \<Rightarrow> phys \<Rightarrow> memory_info \<Rightarrow> nat \<Rightarrow> u64 \<Rightarrow> bool \<Rightarrow> (nat \<times> phys \<times> memory_info) option" where
  "walk_pages hart ph m page_dir va alloc = do {
     kassert (va < MAXVA);
     walk_with (\<lambda>m. page_alloc hart m 1 PAGE_TYPE_PGTBL) 2 ph m page_dir va alloc }"

definition leaf_entry :: "u64 \<Rightarrow> u64 \<Rightarrow> bool \<Rightarrow> bool \<Rightarrow> u64 \<Rightarrow> u64" where
  "leaf_entry pa ty user glob e =
     set_G (of_bool glob) (set_U (of_bool user) (set_V 1 (set_Type ty (set_PPN (drop_bit PG_SHIFT pa) e))))"

lemma walk_pages_below: "walk_pages hart ph m pd va al = Some r \<Longrightarrow> va < MAXVA"
  by (auto simp: walk_pages_def kassert_def split: if_splits)

lemma unat_next_page: "a < MAXVA \<Longrightarrow> unat (a + 4096) = unat a + 4096"
  using word_less_nat_alt [of a MAXVA] by (simp add: MAXVA_def unat_word_ariths)

text \<open>The endless loop of \<open>map_pages\<close> leaves at \<open>last\<close>, at an error, or by the panic of
  \<open>walk_pages\<close> once \<open>a\<close> has passed the end of the address space.\<close>

function map_loop :: "nat \<Rightarrow> phys \<Rightarrow> memory_info \<Rightarrow> nat \<Rightarrow> u64 \<Rightarrow> u64 \<Rightarrow> u64 \<Rightarrow> u64 \<Rightarrow> bool \<Rightarrow> bool \<Rightarrow> (int \<times> phys \<times> memory_info) option" where
  "map_loop hart ph m pd a lst pa ty user glob =
    (case walk_pages hart ph m pd a True of None \<Rightarrow> None
     | Some (pte, ph, m) \<Rightarrow>
         if pte = 0 then Some (- 1, ph, m)
         else if pte_V (ph pte) then Some (- 2, ph, m)
         else let ph = ph(pte := leaf_entry pa ty user glob (ph pte))
              in if a = lst then Some (0, ph, m)
                 else map_loop hart ph m pd (a + 4096) lst (pa + 4096) ty user glob)"
  by pat_completeness auto
termination
  by (relation "measure (\<lambda>(hart, ph, m, pd, a, _). 2 ^ 38 - unat a)")
    (auto dest!: walk_pages_below simp: unat_next_page word_less_nat_alt MAXVA_def)

declare map_loop.simps [simp del]

definition map_pages :: "nat \<Rightarrow> phys \<Rightarrow> memory_info \<Rightarrow> nat \<Rightarrow> u64 \<Rightarrow> u64 \<Rightarrow> u64 \<Rightarrow> u64 \<Rightarrow> bool \<Rightarrow> bool \<Rightarrow> (int \<times> phys \<times> memory_info) option" where
  "map_pages hart ph m pd va pa sz ty user glob =
     map_loop hart ph m pd (PG_ROUNDDOWN va) (PG_ROUNDDOWN (va + sz - 1)) pa ty user glob"

definition unmap_one :: "nat \<Rightarrow> phys \<Rightarrow> memory_info \<Rightarrow> nat \<Rightarrow> u64 \<Rightarrow> bool \<Rightarrow> (phys \<times> memory_info) option" where
  "unmap_one hart ph m pd a do_free = do {
     (pte, ph, m) \<leftarrow> walk_pages hart ph m pd a False;
     kassert (pte \<noteq> 0);
     kassert (pte_V (ph pte));
     kassert (pte_Type (ph pte) \<noteq> 0);
     let pa = unat (pte_pa (ph pte));
     (ref, m) \<leftarrow> decrease_page_ref m pa;
     m \<leftarrow> (if do_free \<and> ref = 0 then do { (_, m) \<leftarrow> page_free hart m pa 1; Some m } else Some m);
     Some (ph(pte := 0), m) }"

lemma unmap_one_below: "unmap_one hart ph m pd a f = Some r \<Longrightarrow> a < MAXVA"
  by (auto simp: unmap_one_def option_steps dest: walk_pages_below)

function unmap_loop :: "nat \<Rightarrow> phys \<Rightarrow> memory_info \<Rightarrow> nat \<Rightarrow> u64 \<Rightarrow> u64 \<Rightarrow> bool \<Rightarrow> (phys \<times> memory_info) option" where
  "unmap_loop hart ph m pd a stop do_free =
    (if a < stop then
       (case unmap_one hart ph m pd a do_free of None \<Rightarrow> None
        | Some (ph, m) \<Rightarrow> unmap_loop hart ph m pd (a + 4096) stop do_free)
     else Some (ph, m))"
  by pat_completeness auto
termination
  by (relation "measure (\<lambda>(hart, ph, m, pd, a, _). 2 ^ 38 - unat a)")
    (auto dest!: unmap_one_below simp: unat_next_page word_less_nat_alt MAXVA_def)

declare unmap_loop.simps [simp del]

definition unmap_pages :: "nat \<Rightarrow> phys \<Rightarrow> memory_info \<Rightarrow> nat \<Rightarrow> u64 \<Rightarrow> u64 \<Rightarrow> bool \<Rightarrow> (phys \<times> memory_info) option" where
  "unmap_pages hart ph m pd va sz do_free = do {
     kassert (va mod 4096 = 0);
     unmap_loop hart ph m pd va (va + sz * 4096) do_free }"

subsection \<open>Page directories\<close>

text \<open>The kernel's gigabyte page, entry 2 of every directory.\<close>

definition kernel_entry :: "u64 \<Rightarrow> u64" where
  "kernel_entry e = set_U 0 (set_G 1 (set_Type PTE_TYPE_RWX (set_PPN (drop_bit PG_SHIFT 0x80000000) (set_V 1 e))))"

definition init_paging :: "nat \<Rightarrow> phys \<Rightarrow> memory_info \<Rightarrow> (nat \<times> u64 \<times> phys \<times> memory_info) option" where
  "init_paging hart ph m = do {
     (dir, m) \<leftarrow> page_alloc hart m 1 PAGE_TYPE_PGTBL;
     kassert (dir \<noteq> 0);
     let ph = zero_page ph dir;
     let ph = ph(dir + 8 * 2 := kernel_entry (ph (dir + 8 * 2)));
     let satp = (of_nat dir div 4096) OR push_bit 60 8;
     Some (dir, satp, ph, m) }"

record mem_sysmap =
  sm_va :: u64
  sm_pa :: u64
  sm_size :: u64
  sm_type :: u64

text \<open>\<open>nd\<close> is what \<open>kmalloc\<close> returned; it is cleared and filled without a check.\<close>

definition mem_sysmap_add :: "nat \<Rightarrow> phys \<Rightarrow> memory_info \<Rightarrow> nat \<Rightarrow> mem_sysmap list \<Rightarrow> nat \<Rightarrow> u64 \<Rightarrow> u64 \<Rightarrow> u64 \<Rightarrow> u64 \<Rightarrow>
    (int \<times> mem_sysmap list \<times> phys \<times> memory_info) option" where
  "mem_sysmap_add hart ph m kernel_pagedir sysmaps nd va pa sz ty = do {
     kassert (nd \<noteq> 0);
     (r, ph, m) \<leftarrow> map_pages hart ph m kernel_pagedir va pa sz ty False True;
     if r \<noteq> 0 then Some (- 1, sysmaps, ph, m)
     else Some (0, \<lparr>sm_va = va, sm_pa = pa, sm_size = sz, sm_type = ty\<rparr> # sysmaps, ph, m) }"

fun map_sysmaps :: "nat \<Rightarrow> phys \<Rightarrow> memory_info \<Rightarrow> nat \<Rightarrow> mem_sysmap list \<Rightarrow> (phys \<times> memory_info) option" where
  "map_sysmaps hart ph m dir [] = Some (ph, m)"
| "map_sysmaps hart ph m dir (s # ss) = do {
     (_, ph, m) \<leftarrow> map_pages hart ph m dir (sm_va s) (sm_pa s) (sm_size s) (sm_type s) False True;
     map_sysmaps hart ph m dir ss }"

definition alloc_page_dir :: "nat \<Rightarrow> phys \<Rightarrow> memory_info \<Rightarrow> mem_sysmap list \<Rightarrow> (nat \<times> phys \<times> memory_info) option" where
  "alloc_page_dir hart ph m sysmaps = do {
     (dir, m) \<leftarrow> page_alloc hart m 1 PAGE_TYPE_PGTBL;
     if dir = 0 then Some (0, ph, m)
     else do {
       let ph = zero_page ph dir;
       let ph = ph(dir + 8 * 2 := kernel_entry (ph (dir + 8 * 2)));
       (ph, m) \<leftarrow> map_sysmaps hart ph m dir sysmaps;
       Some (dir, ph, m) } }"

text \<open>\<open>do_pde_free\<close> with the distance of the level to 3 as its first argument.\<close>

fun do_pde_free :: "nat \<Rightarrow> nat \<Rightarrow> phys \<Rightarrow> memory_info \<Rightarrow> nat \<Rightarrow> memory_info option" where
  "do_pde_free hart 0 ph m pde = do {
     kassert (\<forall>i\<in>set [0..<512]. \<not> pte_V (ph (pde + 8 * i)));
     (_, m) \<leftarrow> page_free hart m pde 1;
     Some m }"
| "do_pde_free hart (Suc d) ph m pde = do {
     m \<leftarrow> fold_opt (\<lambda>i m.
         if ph (pde + 8 * i) AND 0xF = 1 then do_pde_free hart d ph m (unat (pte_pa (ph (pde + 8 * i)))) else Some m)
       [0..<512] m;
     (_, m) \<leftarrow> page_free hart m pde 1;
     Some m }"

definition dealloc_page_dir :: "nat \<Rightarrow> phys \<Rightarrow> memory_info \<Rightarrow> nat \<Rightarrow> memory_info option" where
  "dealloc_page_dir hart ph m page_dir = do_pde_free hart 3 ph m page_dir"

subsection \<open>Copy on write\<close>

definition vm_copy_one :: "nat \<Rightarrow> phys \<Rightarrow> memory_info \<Rightarrow> nat \<Rightarrow> nat \<Rightarrow> u64 \<Rightarrow> (phys \<times> memory_info) option" where
  "vm_copy_one hart ph m dst src a = do {
     (pte, ph, m) \<leftarrow> walk_pages hart ph m src a False;
     kassert (pte \<noteq> 0);
     kassert (pte_V (ph pte));
     kassert (pte_Type (ph pte) \<noteq> 0);
     let pa = unat (pte_pa (ph pte));
     (cpte, ph, m) \<leftarrow> walk_pages hart ph m dst a True;
     kassert (cpte \<noteq> 0);
     kassert (\<not> pte_V (ph cpte));
     let ph = ph(cpte := set_PPN (pte_PPN (ph pte)) (ph cpte));
     let ph = ph(cpte := set_V 1 (ph cpte));
     let ph = ph(cpte := set_U (pte_U (ph pte)) (ph cpte));
     let ph = ph(cpte := set_G (pte_G (ph pte)) (ph cpte));
     kassert (pte_U (ph cpte) = 1);
     (_, m) \<leftarrow> increase_page_ref m pa;
     let ty = pte_Type (ph pte) AND NOT PTE_TYPE_BIT_W;
     let ph = ph(pte := set_Type ty (ph pte));
     let ph = ph(cpte := set_Type ty (ph cpte));
     Some (ph, m) }"

lemma vm_copy_one_below: "vm_copy_one hart ph m dst src a = Some r \<Longrightarrow> a < MAXVA"
  by (auto simp: vm_copy_one_def option_steps dest: walk_pages_below)

function vm_copy_loop :: "nat \<Rightarrow> phys \<Rightarrow> memory_info \<Rightarrow> nat \<Rightarrow> nat \<Rightarrow> u64 \<Rightarrow> u64 \<Rightarrow> (phys \<times> memory_info) option" where
  "vm_copy_loop hart ph m dst src a va_end =
    (if a < va_end then
       (case vm_copy_one hart ph m dst src a of None \<Rightarrow> None
        | Some (ph, m) \<Rightarrow> vm_copy_loop hart ph m dst src (a + 4096) va_end)
     else Some (ph, m))"
  by pat_completeness auto
termination
  by (relation "measure (\<lambda>(hart, ph, m, dst, src, a, _). 2 ^ 38 - unat a)")
    (auto dest!: vm_copy_one_below simp: unat_next_page word_less_nat_alt MAXVA_def)

declare vm_copy_loop.simps [simp del]

definition vm_copy :: "nat \<Rightarrow> phys \<Rightarrow> memory_info \<Rightarrow> nat \<Rightarrow> nat \<Rightarrow> u64 \<Rightarrow> u64 \<Rightarrow> (phys \<times> memory_info) option" where
  "vm_copy hart ph m dst src start stop = vm_copy_loop hart ph m dst src (PG_ROUNDDOWN start) (PG_ROUNDUP stop)"

text \<open>\<open>do_pagefault\<close>.  \<open>cur\<close> is the page directory of the current process, if there is one, and
  \<open>umem\<close> whether user memory may be accessed (\<open>IS_UMEM_ACCESS\<close>).  The entry is read before it
  is compared with \<open>NULL\<close>.\<close>

definition do_pagefault :: "nat \<Rightarrow> phys \<Rightarrow> memory_info \<Rightarrow> bool \<Rightarrow> nat option \<Rightarrow> u64 \<Rightarrow> nat \<Rightarrow> bool \<Rightarrow>
    (int \<times> bool \<times> phys \<times> memory_info) option" where
  "do_pagefault hart ph m umem cur caused_va pde from_kernel = (case cur of None \<Rightarrow> Some (- 5, umem, ph, m)
   | Some page_dir \<Rightarrow> do {
       kassert (page_dir = pde);
       if caused_va \<ge> 0x80000000 then Some (- 3, umem, ph, m)
       else do {
         (pte, ph, m) \<leftarrow> walk_pages hart ph m pde caused_va False;
         kassert (pte \<noteq> 0);
         let pa = unat (pte_pa (ph pte));
         if \<not> (usable_memory_start m \<le> pa \<and> pa < usable_memory_end m) then Some (- 3, umem, ph, m)
         else if from_kernel \<and> \<not> umem then Some (0, True, ph, m)
         else do {
           let ty = pte_Type (ph pte);
           if ty AND PTE_TYPE_BIT_W \<noteq> 0 then Some (- 4, umem, ph, m)
           else do {
             ref \<leftarrow> get_page_reference m pa;
             if ref = 1 then Some (0, umem, ph(pte := set_Type (ty OR PTE_TYPE_BIT_W) (ph pte)), m)
             else do {
               (new_pa, m) \<leftarrow> page_alloc hart m 1 (PAGE_TYPE_INUSE OR PAGE_TYPE_USER);
               if new_pa = 0 then Some (- 2, umem, ph, m)
               else do {
                 let ph = copy_page ph new_pa pa;
                 let ph = ph(pte := set_PPN (drop_bit PG_SHIFT (of_nat new_pa)) (ph pte));
                 (_, m) \<leftarrow> decrease_page_ref m pa;
                 Some (0, umem, ph(pte := set_Type (ty OR PTE_TYPE_BIT_W) (ph pte)), m) } } } } } })"

end
