(* ===== verification/Paging_Props.thy ===== *)
theory Paging_Props
  imports Buddy_Props Paging
begin

text \<open>
  The page tables over the buddy allocator: \<open>frames_in m L\<close> is the provider's side of the
  interface \<open>frame_source\<close>, \<open>L\<close> being the frames of the allocated blocks.  The theorems say
  what \<open>map_pages\<close>, \<open>vm_copy\<close> and \<open>do_pagefault\<close> do to the mapping a directory stands for.
\<close>

definition frames_in :: "memory_info \<Rightarrow> nat set \<Rightarrow> bool" where
  "frames_in m L \<longleftrightarrow> (\<exists>n A. buddy_ok m n A \<and> 4096 dvd usable_memory_start m \<and> usable_memory_start m + n * 4096 \<le> 2 ^ 38 \<and>
     L = {usable_memory_start m + p * 4096 | p. \<exists>k i. (k, i) \<in> A \<and> in_block k i p})"

definition vpn :: "u64 \<Rightarrow> nat" where
  "vpn va = unat va div 4096"

lemma disjoint_blocks_mono: "disjoint_blocks B \<Longrightarrow> C \<subseteq> B \<Longrightarrow> disjoint_blocks C"
  unfolding disjoint_blocks_def by (meson subsetD)

lemma page_order_1: "page_order 1 = 0"
  using trailing_zero_pow2 [of 0] by (simp add: page_order_def)

lemma block_page_bound:
  assumes "buddy_ok m n A" and "(k, i) \<in> A" and "in_block k i p"
  shows "p < n"
proof -
  obtain F where "part_inv n F A" using assms(1) by (auto simp: buddy_ok_def buddy_inv_def)
  then have "(i + 1) * 2 ^ k \<le> n" using assms(2) by (auto simp: part_inv_def)
  then show ?thesis using assms(3) by (auto simp: in_block_iff algebra_simps)
qed

lemma page_reference_at:
  assumes "buddy_ok m n A" and "p < n"
  shows "get_page_reference m (usable_memory_start m + p * 4096) = Some (unat (reference (page_at m p)))"
proof -
  obtain s where s: "usable_memory_start m = memory_start m + s * PG_SIZE" "s + n \<le> length (pages_info m)"
    using assms(1) by (auto simp: buddy_ok_def buddy_inv_def arena_ok_def)
  have "usable_memory_start m + p * 4096 - memory_start m = (s + p) * PG_SIZE"
    using s(1) by (simp add: PG_SIZE_def algebra_simps)
  then show ?thesis using s assms(2) by (simp add: get_page_reference_def GET_ID_BY_PAGE_def page_at_def)
qed

lemma frames_alloc:
  assumes "frames_in m L"
  shows "\<exists>g m'. page_alloc hart m 1 attr = Some (g, m') \<and>
    (if g = 0 then frames_in m' L
     else g \<notin> L \<and> 4096 dvd g \<and> g < 2 ^ 38 \<and> frames_in m' (insert g L) \<and> get_page_reference m' g = Some 1) \<and>
    (\<forall>a\<in>L. get_page_reference m' a = get_page_reference m a) \<and> usable_memory_start m' = usable_memory_start m"
proof -
  obtain n A where A: "buddy_ok m n A" "4096 dvd usable_memory_start m" "usable_memory_start m + n * 4096 \<le> 2 ^ 38"
    "L = {usable_memory_start m + p * 4096 | p. \<exists>k i. (k, i) \<in> A \<and> in_block k i p}"
    using assms by (auto simp: frames_in_def)
  obtain F where F: "buddy_inv m n F A" "coalesced F" "\<not> sl_lock (mem_lock m)" using A(1) by (auto simp: buddy_ok_def)
  from page_alloc_cases [OF F, of hart 1 attr, unfolded page_order_1] show ?thesis
  proof (elim disjE exE conjE)
    fix i m' assume m': "page_alloc hart m 1 attr = Some (baddr m 0 i, m')" "(0, i) \<notin> A"
      "buddy_ok m' n (insert (0, i) A)" "block_marked m' n 0 i attr" "pages_kept m m' n A"
      "usable_memory_start m' = usable_memory_start m"
    have g: "baddr m 0 i = usable_memory_start m + i * 4096" by (simp add: baddr_def PG_SIZE_def)
    have i: "i < n" using block_page_bound [OF m'(3), of 0 i i] by (simp add: in_block_def)
    obtain F' where "part_inv n F' (insert (0, i) A)" using m'(3) unfolding buddy_ok_def buddy_inv_def by blast
    then have "disjoint_blocks (fblocks F' \<union> insert (0, i) A)" by (simp only: part_inv_def)
    then have dj: "disjoint_blocks (insert (0, i) A)"
      by (rule disjoint_blocks_mono) blast
    have ii: "in_block 0 i i" by (simp add: in_block_def)
    have d: "\<not> in_block k j i" if "(k, j) \<in> A" for k j
    proof
      assume "in_block k j i"
      then have "(k, j) = (0, i)" using dj that ii unfolding disjoint_blocks_def by blast
      then show False using that m'(2) by simp
    qed
    then have "baddr m 0 i \<notin> L" unfolding g A(4) by auto
    moreover have "frames_in m' (insert (baddr m 0 i) L)" unfolding frames_in_def g A(4)
      using m'(3,6) A(2,3) by (intro exI [of _ n] exI [of _ "insert (0, i) A"]) (auto simp: in_block_def, metis div_by_1 power_0)
    moreover have "get_page_reference m' (baddr m 0 i) = Some 1" unfolding g
      using page_reference_at [OF m'(3) i] m'(4) i unfolding m'(6) by (simp add: block_marked_def in_block_def)
    moreover have "0 < usable_memory_start m" using F(1) by (simp add: buddy_inv_def arena_ok_def)
    moreover have "get_page_reference m' a = get_page_reference m a" if aL: "a \<in> L" for a
    proof -
      obtain p k j where p: "a = usable_memory_start m + p * 4096" "(k, j) \<in> A" "in_block k j p" using aL unfolding A(4) by blast
      then have "p < n" using block_page_bound [OF A(1)] by blast
      then show ?thesis
        using page_reference_at [OF A(1)] page_reference_at [OF m'(3)] m'(5,6) p by (simp add: pages_kept_def)
    qed
    ultimately show ?thesis using m'(1,6) A(2,3) i g by auto
  next
    fix l assume "page_alloc hart m 1 attr = Some (0, m\<lparr>mem_lock := l\<rparr>)" "\<not> sl_lock l"
    moreover from this have "frames_in (m\<lparr>mem_lock := l\<rparr>) L" using A F
      by (auto simp: frames_in_def buddy_ok_def inv_lock)
    moreover have "get_page_reference (m\<lparr>mem_lock := l\<rparr>) = get_page_reference m"
      by (intro ext) (simp add: get_page_reference_def GET_ID_BY_PAGE_def)
    ultimately show ?thesis by simp
  qed
qed

text \<open>The buddy allocator is a source of frames; the reference counts of the frames in \<open>L0\<close> stay.\<close>

definition frames_with :: "nat set \<Rightarrow> (nat \<Rightarrow> nat option) \<Rightarrow> nat \<Rightarrow> memory_info \<Rightarrow> nat set \<Rightarrow> bool" where
  "frames_with L0 R us m L \<longleftrightarrow> frames_in m L \<and> L0 \<subseteq> L \<and> (\<forall>a\<in>L0. get_page_reference m a = R a) \<and> usable_memory_start m = us"

interpretation fs: frame_source "frames_with L0 R us" "\<lambda>m. page_alloc hart m 1 attr" for L0 R us hart attr
proof unfold_locales
  fix m L assume a: "frames_with L0 R us m L"
  then have f: "frames_in m L" and l: "L0 \<subseteq> L" by (simp_all add: frames_with_def)
  obtain g m' where g: "page_alloc hart m 1 attr = Some (g, m')"
    "if g = 0 then frames_in m' L
     else g \<notin> L \<and> 4096 dvd g \<and> g < 2 ^ 38 \<and> frames_in m' (insert g L) \<and> get_page_reference m' g = Some 1"
    "\<forall>a\<in>L. get_page_reference m' a = get_page_reference m a" "usable_memory_start m' = usable_memory_start m"
    using frames_alloc [OF f, of hart attr] by blast
  then show "\<exists>g m'. page_alloc hart m 1 attr = Some (g, m') \<and>
    (if g = 0 then frames_with L0 R us m' L
     else g \<notin> L \<and> 4096 dvd g \<and> g < 2 ^ 50 \<and> frames_with L0 R us m' (insert g L))"
    using a l by (auto simp: frames_with_def)
qed

subsection \<open>Steps on a tree of tables\<close>

text \<open>A step of an operation on the tables below \<open>root\<close>: nothing outside of these tables and of
  frames that were free changes, and every new table was a free frame.\<close>

definition table_step :: "nat \<Rightarrow> phys \<Rightarrow> nat set \<Rightarrow> phys \<Rightarrow> nat set \<Rightarrow> bool" where
  "table_step root ph L ph' L' \<longleftrightarrow> L \<subseteq> L' \<and> tree_ok ph' root L' \<and>
     (\<forall>a. ph' a \<noteq> ph a \<longrightarrow> frame_of a \<in> tables ph root \<or> frame_of a \<notin> L) \<and>
     (\<forall>t\<in>tables ph' root. t \<in> tables ph root \<or> t \<notin> L)"

lemma table_step_refl: "tree_ok ph root L \<Longrightarrow> table_step root ph L ph L"
  by (simp add: table_step_def)

lemma table_step_trans:
  assumes "table_step root ph L ph1 L1" and "table_step root ph1 L1 ph2 L2"
  shows "table_step root ph L ph2 L2"
proof -
  have "frame_of a \<in> tables ph root \<or> frame_of a \<notin> L" if "ph2 a \<noteq> ph a" for a
    using assms that unfolding table_step_def by (cases "ph1 a = ph a") (metis subsetD)+
  moreover have "t \<in> tables ph root \<or> t \<notin> L" if "t \<in> tables ph2 root" for t
    using assms that unfolding table_step_def by (meson subsetD)
  ultimately show ?thesis using assms by (auto simp: table_step_def)
qed

lemma walk_pages_ok:
  assumes "frames_with L0 R us m L" and "tree_ok ph root L" and "va < MAXVA" and "PX 2 va \<noteq> 2"
  shows "\<exists>r ph' m' L'. walk_pages hart ph m root va alloc = Some (r, ph', m') \<and> frames_with L0 R us m' L' \<and>
    table_step root ph L ph' L' \<and> pmap ph' root = pmap ph root \<and> (\<not> alloc \<longrightarrow> ph' = ph \<and> m' = m) \<and>
    (r = 0 \<and> (alloc \<or> pmap ph root va = None) \<or>
     (\<exists>u. node ph' root [PX 2 va, PX 1 va] = Some u \<and> r = u + 8 * PX 0 va \<and> r \<noteq> 0))"
proof -
  have n: "node ph root [] = Some root" by simp
  have l: "(2, []) \<in> {(2 :: nat, []), (1, [PX 2 va]), (0, [PX 2 va, PX 1 va])}" by simp
  from fs.walk_down [OF assms(1,2) n assms(4) l, of hart PAGE_TYPE_PGTBL alloc] obtain r ph' m' L' where
    w: "walk_with (\<lambda>m. page_alloc hart m 1 PAGE_TYPE_PGTBL) 2 ph m root va alloc = Some (r, ph', m')" "L \<subseteq> L'"
      "frames_with L0 R us m' L'" "tree_ok ph' root L'" "pmap ph' root = pmap ph root" "\<not> alloc \<longrightarrow> ph' = ph \<and> m' = m"
      "\<forall>a. ph' a \<noteq> ph a \<longrightarrow> frame_of a \<in> tables ph root \<or> frame_of a \<notin> L"
      "\<forall>t\<in>tables ph' root. t \<in> tables ph root \<or> t \<notin> L"
      "r = 0 \<and> (alloc \<or> pmap ph root va = None) \<or>
        (\<exists>u. node ph' root [PX 2 va, PX 1 va] = Some u \<and> r = u + 8 * PX 0 va \<and> r \<noteq> 0)" by blast
  show ?thesis
  proof (intro exI conjI)
    show "walk_pages hart ph m root va alloc = Some (r, ph', m')" using w(1) assms(3) by (simp add: walk_pages_def)
    show "table_step root ph L ph' L'" using w(2,4,7,8) by (simp add: table_step_def)
  qed (rule w)+
qed

text \<open>Writing one leaf entry is a step.\<close>

lemma leaf_step:
  assumes "tree_ok ph root L" and "node ph root [PX 2 va, PX 1 va] = Some t"
  shows "table_step root ph L (ph(t + 8 * PX 0 va := e)) L"
proof -
  have t: "t \<in> tables ph root" "frame_of (t + 8 * PX 0 va) = t"
    using tree_okD(3) [OF assms(1) path_ok_PX(3) assms(2)] assms(2) path_ok_PX(3)
    by (blast intro: frame_of_cell PX_less | simp only: tables_def mem_Collect_eq)+
  moreover have "tables (ph(t + 8 * PX 0 va := e)) root = tables ph root"
    using leaf_write(2) [OF assms] by (auto simp: tables_def)
  ultimately show ?thesis using leaf_write(1) [OF assms] by (auto simp: table_step_def)
qed

subsection \<open>Virtual page numbers\<close>

lemma PX_vpn: "PX 0 va = vpn va mod 512" "PX 1 va = vpn va div 512 mod 512" "PX 2 va = vpn va div 512 div 512 mod 512"
  by (simp_all add: PX_nat vpn_def div_mult2_eq [symmetric])

lemma vpn_less: "va < MAXVA \<Longrightarrow> vpn va < 512 * 512 * 256"
  using word_less_nat_alt [of va MAXVA] by (simp add: vpn_def MAXVA_def less_mult_imp_div_less)

lemma PX_eq_iff:
  assumes "va < MAXVA" and "vb < MAXVA"
  shows "PX 2 vb = PX 2 va \<and> PX 1 vb = PX 1 va \<and> PX 0 vb = PX 0 va \<longleftrightarrow> vpn vb = vpn va"
proof
  assume e: "PX 2 vb = PX 2 va \<and> PX 1 vb = PX 1 va \<and> PX 0 vb = PX 0 va"
  have d: "x = (x div 512 div 512 mod 512 * 512 + x div 512 mod 512) * 512 + x mod 512" if "x < 512 * 512 * 256" for x :: nat
  proof -
    have "x div 512 div 512 mod 512 = x div 512 div 512" using that by simp
    then show ?thesis by (simp only: div_mult_mod_eq)
  qed
  show "vpn vb = vpn va" using d [OF vpn_less [OF assms(1)]] d [OF vpn_less [OF assms(2)]] e unfolding PX_vpn by argo
qed (simp add: PX_vpn [unfolded One_nat_def])

lemma pmap_vpn: "va < MAXVA \<Longrightarrow> vb < MAXVA \<Longrightarrow> vpn vb = vpn va \<Longrightarrow> pmap ph root vb = pmap ph root va"
  using PX_eq_iff [of va vb] by (simp add: pmap_def cong: if_cong del: node.simps)

text \<open>The directory entry of the kernel's gigabyte page is for addresses from 2 to 3 GiB.\<close>

definition off_kernel :: "nat \<Rightarrow> nat \<Rightarrow> bool" where
  "off_kernel lo hi \<longleftrightarrow> hi < 2 ^ 38 \<and> (hi < 0x80000000 \<or> 0xC0000000 \<le> lo)"

lemma PX_off_kernel: "off_kernel (unat va) (unat va) \<Longrightarrow> PX 2 va \<noteq> 2 \<and> va < MAXVA"
proof -
  assume o: "off_kernel (unat va) (unat va)"
  then have "unat va div 2 ^ 30 < 2 \<or> 3 \<le> unat va div 2 ^ 30 \<and> unat va div 2 ^ 30 < 256"
    by (auto simp: off_kernel_def)
  then show ?thesis using o by (auto simp: PX_nat word_less_nat_alt MAXVA_def off_kernel_def)
qed

subsection \<open>Mapping a range\<close>

definition entry_ok :: "u64 \<Rightarrow> nat \<Rightarrow> u64 \<Rightarrow> bool \<Rightarrow> bool \<Rightarrow> bool" where
  "entry_ok e pa ty user glob \<longleftrightarrow> pte_V e \<and> unat (pte_pa e) = pa div 4096 * 4096 \<and> pte_Type e = take_bit 3 ty \<and>
     pte_U e = of_bool user \<and> pte_G e = of_bool glob"

lemma take_bit_of_bool [simp]: "take_bit (Suc 0) (of_bool b :: u64) = of_bool b"
  by (cases b) simp_all

lemma leaf_entry_ok:
  assumes "unat pa < 2 ^ 50"
  shows "entry_ok (leaf_entry pa ty user glob e) (unat pa) ty user glob"
proof -
  have "of_nat (unat pa div 4096 * 4096) = PG_ROUNDDOWN pa"
    unfolding unat_PG_ROUNDDOWN [symmetric] by simp
  moreover have "drop_bit PG_SHIFT (PG_ROUNDDOWN pa) = drop_bit PG_SHIFT pa"
    using and_not_mask_word [of pa 12]
    by (intro bit_word_eqI) (auto simp: PG_ROUNDDOWN_def PG_SHIFT_def mask_eq_exp_minus_1 bit_simps dest: bit_imp_le_length)
  moreover have "unat pa div 4096 * 4096 < 2 ^ 50"
    using assms div_times_less_eq_dividend [of "unat pa" 4096] by (rule le_less_trans [rotated])
  ultimately have "unat (pte_pa (set_PPN (drop_bit PG_SHIFT pa) e)) = unat pa div 4096 * 4096"
    using pte_pa_set_PPN [of "unat pa div 4096 * 4096" e] by simp
  then show ?thesis by (simp add: entry_ok_def leaf_entry_def)
qed

text \<open>What a successful mapping of pages \<open>x\<close> to \<open>x + n\<close> makes of a mapping.\<close>

definition maps_range :: "(u64 \<Rightarrow> u64 option) \<Rightarrow> (u64 \<Rightarrow> u64 option) \<Rightarrow> nat \<Rightarrow> nat \<Rightarrow> nat \<Rightarrow> u64 \<Rightarrow> bool \<Rightarrow> bool \<Rightarrow> bool" where
  "maps_range old new x n pa ty user glob \<longleftrightarrow> (\<forall>vb<MAXVA.
     if x \<le> vpn vb \<and> vpn vb \<le> x + n
     then old vb = None \<and> (\<exists>e. new vb = Some e \<and> entry_ok e (pa + (vpn vb - x) * 4096) ty user glob)
     else new vb = old vb)"

lemma maps_range_one:
  assumes "tree_ok ph root L" and "node ph root [PX 2 a, PX 1 a] = Some t" and "a < MAXVA"
    and "\<not> pte_V (ph (t + 8 * PX 0 a))" and "unat pa < 2 ^ 50"
  shows "maps_range (pmap ph root) (pmap (ph(t + 8 * PX 0 a := leaf_entry pa ty user glob e)) root) (vpn a) 0 (unat pa) ty user glob"
proof -
  have "pmap ph root vb = None" if "vb < MAXVA" "vpn vb = vpn a" for vb
    using PX_eq_iff [OF assms(3) that(1)] that(2) assms(2,4) by (simp add: pmap_def del: node.simps)
  then show ?thesis unfolding maps_range_def
    using leaf_write(3) [OF assms(1,2)] PX_eq_iff [OF assms(3)] leaf_entry_ok [OF assms(5), of ty user glob e]
    by (auto simp: entry_ok_def)
qed

lemma maps_range_step:
  assumes "maps_range f g x 0 pa ty user glob" and "maps_range g h (Suc x) n (pa + 4096) ty user glob"
  shows "maps_range f h x (Suc n) pa ty user glob"
  unfolding maps_range_def
proof (intro allI impI)
  fix vb assume vb: "vb < MAXVA"
  have 1: "if vpn vb = x then f vb = None \<and> (\<exists>e. g vb = Some e \<and> entry_ok e pa ty user glob) else g vb = f vb"
    using assms(1) vb unfolding maps_range_def by (auto dest!: spec [of _ vb] split: if_splits)
  have B: "if Suc x \<le> vpn vb \<and> vpn vb \<le> Suc x + n
     then g vb = None \<and> (\<exists>e. h vb = Some e \<and> entry_ok e (pa + 4096 + (vpn vb - Suc x) * 4096) ty user glob) else h vb = g vb"
    using assms(2) vb unfolding maps_range_def by blast
  consider "vpn vb = x" | "Suc x \<le> vpn vb" | "vpn vb < x" by linarith
  then show "if x \<le> vpn vb \<and> vpn vb \<le> x + Suc n
     then f vb = None \<and> (\<exists>e. h vb = Some e \<and> entry_ok e (pa + (vpn vb - x) * 4096) ty user glob) else h vb = f vb"
  proof cases
    case 2
    then have "pa + 4096 + (vpn vb - Suc x) * 4096 = pa + (vpn vb - x) * 4096" by (simp add: Suc_diff_Suc algebra_simps)
    from B [unfolded this] show ?thesis using 1 2 by (auto split: if_splits)
  qed (use 1 B in \<open>auto split: if_splits\<close>)
qed

lemma map_one_ok:
  assumes "frames_with L0 R us m L" and "tree_ok ph root L" and "off_kernel (unat a) (unat a)" and "unat pa < 2 ^ 50"
  shows "\<exists>pte ph1 m1 L1. walk_pages hart ph m root a True = Some (pte, ph1, m1) \<and> frames_with L0 R us m1 L1 \<and>
    table_step root ph L ph1 L1 \<and>
    (pte = 0 \<or> pte_V (ph1 pte) \<and> pmap ph root a \<noteq> None \<or>
     \<not> pte_V (ph1 pte) \<and> table_step root ph L (ph1(pte := leaf_entry pa ty user glob (ph1 pte))) L1 \<and>
     maps_range (pmap ph root) (pmap (ph1(pte := leaf_entry pa ty user glob (ph1 pte))) root) (vpn a) 0 (unat pa) ty user glob)"
proof -
  have a: "PX 2 a \<noteq> 2" "a < MAXVA" using PX_off_kernel [OF assms(3)] by auto
  obtain r ph1 m1 L1 where w: "walk_pages hart ph m root a True = Some (r, ph1, m1)" "frames_with L0 R us m1 L1"
    "table_step root ph L ph1 L1" "pmap ph1 root = pmap ph root"
    "r = 0 \<or> (\<exists>u. node ph1 root [PX 2 a, PX 1 a] = Some u \<and> r = u + 8 * PX 0 a \<and> r \<noteq> 0)"
    using walk_pages_ok [OF assms(1,2) a(2,1), of hart True] by blast
  have t: "tree_ok ph1 root L1" using w(3) by (simp add: table_step_def)
  from w(5) show ?thesis
  proof (elim disjE exE conjE)
    fix u assume u: "node ph1 root [PX 2 a, PX 1 a] = Some u" "r = u + 8 * PX 0 a"
    show ?thesis
    proof (cases "pte_V (ph1 r)")
      case True
      then have "pmap ph1 root a \<noteq> None" using u by (simp add: pmap_def del: node.simps)
      then show ?thesis using w(1-4) True by auto
    next
      case False
      have "maps_range (pmap ph root) (pmap (ph1(r := leaf_entry pa ty user glob (ph1 r))) root) (vpn a) 0 (unat pa) ty user glob"
        using maps_range_one [OF t u(1) a(2) False [unfolded u(2)] assms(4)] w(4) u(2) by metis
      moreover have "table_step root ph L (ph1(r := leaf_entry pa ty user glob (ph1 r))) L1"
        unfolding u(2) by (rule table_step_trans [OF w(3) leaf_step [OF t u(1)]])
      ultimately show ?thesis using w(1-3) False by blast
    qed
  qed (use w in blast)
qed

lemma map_loop_ok:
  assumes "frames_with L0 R us m L" and "tree_ok ph root L" and "unat a = x * 4096" and "unat lst = (x + n) * 4096"
    and "off_kernel (unat a) (unat lst)" and "unat pa + n * 4096 < 2 ^ 50"
  shows "\<exists>r ph' m' L'. map_loop hart ph m root a lst pa ty user glob = Some (r, ph', m') \<and> frames_with L0 R us m' L' \<and>
    table_step root ph L ph' L' \<and>
    (r = 0 \<and> maps_range (pmap ph root) (pmap ph' root) x n (unat pa) ty user glob \<or> r = - 1 \<or>
     r = - 2 \<and> (\<exists>vb<MAXVA. x \<le> vpn vb \<and> vpn vb \<le> x + n \<and> pmap ph root vb \<noteq> None))"
  using assms
proof (induction n arbitrary: m L ph a x pa)
  case 0
  have a: "a = lst" using 0(3,4) by (simp add: word_unat_eq_iff)
  have ux: "vpn a = x" "off_kernel (unat a) (unat a)" "unat pa < 2 ^ 50" using 0(3-6) by (simp_all add: vpn_def)
  obtain pte ph1 m1 L1 where w: "walk_pages hart ph m root a True = Some (pte, ph1, m1)" "frames_with L0 R us m1 L1"
    "table_step root ph L ph1 L1"
    "pte = 0 \<or> pte_V (ph1 pte) \<and> pmap ph root a \<noteq> None \<or>
     \<not> pte_V (ph1 pte) \<and> table_step root ph L (ph1(pte := leaf_entry pa ty user glob (ph1 pte))) L1 \<and>
     maps_range (pmap ph root) (pmap (ph1(pte := leaf_entry pa ty user glob (ph1 pte))) root) (vpn a) 0 (unat pa) ty user glob"
    using map_one_ok [OF 0(1,2) ux(2,3)] by blast
  show ?case using w ux PX_off_kernel [OF ux(2)] unfolding map_loop.simps [of hart ph] a [symmetric] Let_def by auto
next
  case (Suc n)
  have ux: "vpn a = x" "off_kernel (unat a) (unat a)" "unat pa < 2 ^ 50" "a \<noteq> lst"
    "unat (a + 4096) = Suc x * 4096" "unat lst = (Suc x + n) * 4096" "unat (pa + 4096) = unat pa + 4096"
    using Suc.prems(3-6) unat_next_page [of a] PX_off_kernel [of a] by (auto simp: vpn_def unat_word_ariths off_kernel_def)
  obtain pte ph1 m1 L1 where w: "walk_pages hart ph m root a True = Some (pte, ph1, m1)" "frames_with L0 R us m1 L1"
    "table_step root ph L ph1 L1"
    "pte = 0 \<or> pte_V (ph1 pte) \<and> pmap ph root a \<noteq> None \<or>
     \<not> pte_V (ph1 pte) \<and> table_step root ph L (ph1(pte := leaf_entry pa ty user glob (ph1 pte))) L1 \<and>
     maps_range (pmap ph root) (pmap (ph1(pte := leaf_entry pa ty user glob (ph1 pte))) root) (vpn a) 0 (unat pa) ty user glob"
    using map_one_ok [OF Suc.prems(1,2) ux(2,3)] by blast
  consider "pte = 0 \<or> pte_V (ph1 pte)" | "pte \<noteq> 0" "\<not> pte_V (ph1 pte)" by blast
  then show ?case
  proof cases
    case 1
    then have "map_loop hart ph m root a lst pa ty user glob = Some (if pte = 0 then - 1 else - 2, ph1, m1)"
      unfolding map_loop.simps [of hart ph] Let_def using w(1) by auto
    moreover have "\<exists>vb<MAXVA. x \<le> vpn vb \<and> vpn vb \<le> x + Suc n \<and> pmap ph root vb \<noteq> None" if "pte \<noteq> 0"
      using w(4) 1 that ux(1) PX_off_kernel [OF ux(2)] by (intro exI [of _ a]) auto
    ultimately show ?thesis using w(2,3) by (cases "pte = 0") force+
  next
    case 2
    let ?ph = "ph1(pte := leaf_entry pa ty user glob (ph1 pte))"
    have s: "table_step root ph L ?ph L1" "maps_range (pmap ph root) (pmap ?ph root) x 0 (unat pa) ty user glob"
      using w(4) 2 ux(1) by auto
    then have t: "tree_ok ?ph root L1" by (simp add: table_step_def)
    have "unat (pa + 4096) + n * 4096 < 2 ^ 50" using Suc.prems(6) ux(7) by simp
    moreover have "off_kernel (unat (a + 4096)) (unat lst)" using Suc.prems(3,5) ux(5) by (auto simp: off_kernel_def)
    ultimately have "\<exists>r ph' m' L'. map_loop hart ?ph m1 root (a + 4096) lst (pa + 4096) ty user glob = Some (r, ph', m') \<and>
        frames_with L0 R us m' L' \<and> table_step root ?ph L1 ph' L' \<and>
        (r = 0 \<and> maps_range (pmap ?ph root) (pmap ph' root) (Suc x) n (unat pa + 4096) ty user glob \<or> r = - 1 \<or>
         r = - 2 \<and> (\<exists>vb<MAXVA. Suc x \<le> vpn vb \<and> vpn vb \<le> Suc x + n \<and> pmap ?ph root vb \<noteq> None))"
      using Suc.IH [OF w(2) t ux(5,6)] ux(7) by metis
    then obtain r ph' m' L' where
      l: "map_loop hart ?ph m1 root (a + 4096) lst (pa + 4096) ty user glob = Some (r, ph', m')" "frames_with L0 R us m' L'"
        "table_step root ?ph L1 ph' L'"
        "r = 0 \<and> maps_range (pmap ?ph root) (pmap ph' root) (Suc x) n (unat pa + 4096) ty user glob \<or> r = - 1 \<or>
         r = - 2 \<and> (\<exists>vb<MAXVA. Suc x \<le> vpn vb \<and> vpn vb \<le> Suc x + n \<and> pmap ?ph root vb \<noteq> None)" by blast
    have "pmap ?ph root vb = pmap ph root vb" if "vb < MAXVA" "Suc x \<le> vpn vb" for vb
      using s(2) that unfolding maps_range_def by (auto dest!: spec [of _ vb])
    then have "r = 0 \<and> maps_range (pmap ph root) (pmap ph' root) x (Suc n) (unat pa) ty user glob \<or> r = - 1 \<or>
         r = - 2 \<and> (\<exists>vb<MAXVA. x \<le> vpn vb \<and> vpn vb \<le> x + Suc n \<and> pmap ph root vb \<noteq> None)"
      using l(4) maps_range_step [OF s(2)] by (metis Suc_leD add_Suc add_Suc_right)
    moreover have "map_loop hart ph m root a lst pa ty user glob = Some (r, ph', m')"
      unfolding map_loop.simps [of hart ph] Let_def using w(1) 2 ux(4) l(1) by simp
    ultimately show ?thesis using l(2) table_step_trans [OF s(1) l(3)] by blast
  qed
qed

lemma map_pages_ok:
  assumes "frames_with L0 R us m L" and "tree_ok ph root L" and "0 < sz" and "unat va + unat sz \<le> 2 ^ 38"
    and "off_kernel (unat va) (unat va + unat sz - 1)" and "unat pa + unat sz + 4096 < 2 ^ 50"
  shows "\<exists>r ph' m' L'. map_pages hart ph m root va pa sz ty user glob = Some (r, ph', m') \<and> frames_with L0 R us m' L' \<and>
    table_step root ph L ph' L' \<and>
    (r = 0 \<and> maps_range (pmap ph root) (pmap ph' root) (vpn va) (vpn (va + sz - 1) - vpn va) (unat pa) ty user glob \<or> r = - 1 \<or>
     r = - 2 \<and> (\<exists>vb<MAXVA. vpn va \<le> vpn vb \<and> vpn vb \<le> vpn (va + sz - 1) \<and> pmap ph root vb \<noteq> None))"
proof -
  let ?n = "vpn (va + sz - 1) - vpn va"
  have sz: "0 < unat sz" using assms(3) by (simp add: word_less_nat_alt)
  have "unat (va + sz) = unat va + unat sz" using assms(4) by (simp add: unat_word_ariths)
  moreover have "va + sz \<noteq> 0" using calculation sz by auto
  ultimately have l: "unat (va + sz - 1) = unat va + unat sz - 1" using sz by (simp add: unat_minus_one)
  have le: "vpn va \<le> vpn (va + sz - 1)" using l sz by (simp add: vpn_def div_le_mono)
  have "?n * 4096 \<le> unat sz + 4095" using l sz unfolding vpn_def by linarith
  then have pa: "unat pa + ?n * 4096 < 2 ^ 50" using assms(6) by simp
  have a: "unat (PG_ROUNDDOWN va) = vpn va * 4096" "unat (PG_ROUNDDOWN (va + sz - 1)) = (vpn va + ?n) * 4096"
    using le by (simp_all add: unat_PG_ROUNDDOWN vpn_def)
  have "vpn (va + sz - 1) * 4096 \<le> unat va + unat sz - 1" using l unfolding vpn_def by linarith
  moreover have "0xC0000000 \<le> vpn va * 4096" if "0xC0000000 \<le> unat va" using div_le_mono [OF that, of 4096] by (simp add: vpn_def)
  ultimately have "off_kernel (unat (PG_ROUNDDOWN va)) (unat (PG_ROUNDDOWN (va + sz - 1)))"
    using assms(5) le unfolding a off_kernel_def by auto
  from map_loop_ok [OF assms(1,2) a this pa, of hart ty user glob] le show ?thesis by (simp add: map_pages_def)
qed

subsection \<open>Reference counts\<close>

lemma frame_ref_upd:
  assumes "frames_in m L" and "a \<in> L"
  shows "\<exists>m'. upd_page (\<lambda>p. p\<lparr>reference := f (reference p)\<rparr>) m a = Some m' \<and> frames_in m' L \<and>
    usable_memory_start m' = usable_memory_start m \<and> usable_memory_end m' = usable_memory_end m \<and>
    (\<forall>b\<in>L. b \<noteq> a \<longrightarrow> get_page_reference m' b = get_page_reference m b) \<and>
    (\<exists>c :: u16. get_page_reference m a = Some (unat c) \<and> get_page_reference m' a = Some (unat (f c)))"
proof -
  obtain n A where A: "buddy_ok m n A" "4096 dvd usable_memory_start m" "usable_memory_start m + n * 4096 \<le> 2 ^ 38"
    "L = {usable_memory_start m + p * 4096 | p. \<exists>k i. (k, i) \<in> A \<and> in_block k i p}"
    using assms(1) by (auto simp: frames_in_def)
  obtain p where p: "a = usable_memory_start m + p * 4096" "p < n"
    using assms(2) block_page_bound [OF A(1)] unfolding A(4) by blast
  obtain s where s: "usable_memory_start m = memory_start m + s * PG_SIZE" "s + n \<le> length (pages_info m)"
    using A(1) by (auto simp: buddy_ok_def buddy_inv_def arena_ok_def)
  have id: "GET_ID_BY_PAGE m (usable_memory_start m + q * 4096) = Some (s + q)" for q
  proof -
    have "usable_memory_start m + q * 4096 - memory_start m = (s + q) * PG_SIZE" using s(1) by (simp add: PG_SIZE_def algebra_simps)
    then show ?thesis using s(1) by (simp add: GET_ID_BY_PAGE_def)
  qed
  let ?pg = "pages_info m ! (s + p)"
  let ?m = "m\<lparr>pages_info := (pages_info m)[s + p := ?pg\<lparr>reference := f (reference ?pg)\<rparr>]\<rparr>"
  have u: "upd_page (\<lambda>p. p\<lparr>reference := f (reference p)\<rparr>) m a = Some ?m"
    using id [of p] p s(2) by (simp add: upd_page_def)
  have ok: "buddy_ok ?m n A" using A(1) unfolding buddy_ok_def buddy_inv_def
    by (simp add: arena_ok_def heap_ok_def bits_ok_def maps_ok_def bbit_def baddr_def [abs_def])
  have "frames_in ?m L" unfolding frames_in_def using ok A(2-4) by (intro exI [of _ n] exI [of _ A]) simp
  moreover have "GET_ID_BY_PAGE ?m = GET_ID_BY_PAGE m" by (intro ext) (simp add: GET_ID_BY_PAGE_def)
  then have ref: "get_page_reference ?m (usable_memory_start m + q * 4096) =
      Some (unat (if q = p then f (reference ?pg) else reference (pages_info m ! (s + q))))"
    "get_page_reference m (usable_memory_start m + q * 4096) = Some (unat (reference (pages_info m ! (s + q))))"
    if "q < n" for q
    using that s(2) id [of q] by (auto simp: get_page_reference_def)
  have "get_page_reference ?m b = get_page_reference m b" if bL: "b \<in> L" "b \<noteq> a" for b
  proof -
    obtain q where q: "b = usable_memory_start m + q * 4096" "q < n"
      using bL(1) block_page_bound [OF A(1)] unfolding A(4) by blast
    then show ?thesis using ref [OF q(2)] bL(2) p(1) by auto
  qed
  ultimately show ?thesis using u ref [OF p(2)] p(1) by auto
qed

lemma decrease_page_ref_ok:
  assumes "frames_in m L" and "a \<in> L"
  shows "\<exists>(c :: u16) m'. get_page_reference m a = Some (unat c) \<and> decrease_page_ref m a = Some (unat (c - 1), m') \<and> frames_in m' L \<and>
    usable_memory_start m' = usable_memory_start m \<and> usable_memory_end m' = usable_memory_end m \<and>
    get_page_reference m' a = Some (unat (c - 1)) \<and> (\<forall>b\<in>L. b \<noteq> a \<longrightarrow> get_page_reference m' b = get_page_reference m b)"
proof -
  obtain m' and c :: u16 where "upd_page (\<lambda>p. p\<lparr>reference := reference p - 1\<rparr>) m a = Some m'" "frames_in m' L"
    "usable_memory_start m' = usable_memory_start m" "usable_memory_end m' = usable_memory_end m"
    "\<forall>b\<in>L. b \<noteq> a \<longrightarrow> get_page_reference m' b = get_page_reference m b"
    "get_page_reference m a = Some (unat c)" "get_page_reference m' a = Some (unat (c - 1))"
    using frame_ref_upd [OF assms, of "\<lambda>c. c - 1"] by blast
  then show ?thesis by (intro exI [of _ c] exI [of _ m']) (simp add: decrease_page_ref_def)
qed

lemma increase_page_ref_ok:
  assumes "frames_in m L" and "a \<in> L"
  shows "\<exists>(c :: u16) m'. get_page_reference m a = Some (unat c) \<and> increase_page_ref m a = Some (unat (c + 1), m') \<and> frames_in m' L \<and>
    usable_memory_start m' = usable_memory_start m \<and> usable_memory_end m' = usable_memory_end m \<and>
    get_page_reference m' a = Some (unat (c + 1)) \<and> (\<forall>b\<in>L. b \<noteq> a \<longrightarrow> get_page_reference m' b = get_page_reference m b)"
proof -
  obtain m' and c :: u16 where "upd_page (\<lambda>p. p\<lparr>reference := reference p + 1\<rparr>) m a = Some m'" "frames_in m' L"
    "usable_memory_start m' = usable_memory_start m" "usable_memory_end m' = usable_memory_end m"
    "\<forall>b\<in>L. b \<noteq> a \<longrightarrow> get_page_reference m' b = get_page_reference m b"
    "get_page_reference m a = Some (unat c)" "get_page_reference m' a = Some (unat (c + 1))"
    using frame_ref_upd [OF assms, of "\<lambda>c. c + 1"] by blast
  then show ?thesis by (intro exI [of _ c] exI [of _ m']) (simp add: increase_page_ref_def)
qed

subsection \<open>New directories\<close>

definition new_dir :: "phys \<Rightarrow> nat \<Rightarrow> phys" where
  "new_dir ph dir = (zero_page ph dir)(dir + 16 := kernel_entry (zero_page ph dir (dir + 16)))"

lemma kernel_entry_type: "pte_Type (kernel_entry e) = 7" "pte_V (kernel_entry e)"
  by (simp_all add: kernel_entry_def PTE_TYPE_RWX_def take_bit_eq_mod)

lemma new_dir_ok:
  assumes "dir \<noteq> 0" and "4096 dvd dir" and "dir \<notin> L"
  shows "tree_ok (new_dir ph dir) dir (insert dir L)" and "pmap (new_dir ph dir) dir = (\<lambda>_. None)"
    and "tables (new_dir ph dir) dir = {dir}" and "frame_of a \<noteq> dir \<Longrightarrow> new_dir ph dir a = ph a"
proof -
  have cell: "new_dir ph dir (dir + 8 * i) = (if i = 2 then kernel_entry 0 else 0)" if "i < 512" for i
    using that by (auto simp: new_dir_def zero_page_def PG_SIZE_def)
  have n1: "node (new_dir ph dir) dir (i # p) = None" if "i < 512" for i p
    using cell [OF that] kernel_entry_type by simp
  then have n: "node (new_dir ph dir) dir q = (if q = [] then Some dir else None)" if "path_ok q" for q
    using that by (cases q) (auto simp: path_ok_def)
  show "tree_ok (new_dir ph dir) dir (insert dir L)" unfolding tree_ok_def
    using assms n cell kernel_entry_type by (auto split: if_splits)
  show "pmap (new_dir ph dir) dir = (\<lambda>_. None)"
    using n [OF path_ok_PX(3)] by (intro ext) (simp add: pmap_def del: node.simps)
  show "tables (new_dir ph dir) dir = {dir}"
    using n path_ok_PX(1) unfolding tables_def by (auto split: if_splits intro: exI [of _ "[]"])
  show "new_dir ph dir a = ph a" if "frame_of a \<noteq> dir"
    using that frame_of_in [OF assms(2), of a] frame_of_cell [OF assms(2), of 2] by (auto simp: new_dir_def zero_page_def)
qed

definition sysmap_ok :: "mem_sysmap \<Rightarrow> bool" where
  "sysmap_ok s \<longleftrightarrow> 0 < sm_size s \<and> unat (sm_va s) + unat (sm_size s) \<le> 2 ^ 38 \<and>
     off_kernel (unat (sm_va s)) (unat (sm_va s) + unat (sm_size s) - 1) \<and> unat (sm_pa s) + unat (sm_size s) + 4096 < 2 ^ 50"

lemma map_sysmaps_ok:
  "frames_with L0 R us m L \<Longrightarrow> tree_ok ph dir L \<Longrightarrow> \<forall>s\<in>set ss. sysmap_ok s \<Longrightarrow>
    \<exists>ph' m' L'. map_sysmaps hart ph m dir ss = Some (ph', m') \<and> frames_with L0 R us m' L' \<and> table_step dir ph L ph' L'"
proof (induction ss arbitrary: ph m L)
  case Nil
  then show ?case using table_step_refl by auto
next
  case (Cons s ss)
  have s: "sysmap_ok s" using Cons.prems(3) by simp
  obtain r ph1 m1 L1 where w: "map_pages hart ph m dir (sm_va s) (sm_pa s) (sm_size s) (sm_type s) False True = Some (r, ph1, m1)"
    "frames_with L0 R us m1 L1" "table_step dir ph L ph1 L1"
    using map_pages_ok [OF Cons.prems(1,2), of "sm_size s" "sm_va s" "sm_pa s" hart "sm_type s" False True] s
    unfolding sysmap_ok_def by blast
  have "tree_ok ph1 dir L1" using w(3) by (simp add: table_step_def)
  from Cons.IH [OF w(2) this] Cons.prems(3) w show ?case using table_step_trans [OF w(3)] by fastforce
qed

lemma alloc_page_dir_ok:
  assumes "frames_in m L" and "\<forall>s\<in>set ss. sysmap_ok s"
  shows "\<exists>dir ph' m' L'. alloc_page_dir hart ph m ss = Some (dir, ph', m') \<and> L \<subseteq> L' \<and> frames_in m' L' \<and>
    (\<forall>a. frame_of a \<in> L \<longrightarrow> ph' a = ph a) \<and> (\<forall>f\<in>L. get_page_reference m' f = get_page_reference m f) \<and>
    (dir = 0 \<or> tree_ok ph' dir L' \<and> tables ph' dir \<inter> L = {})"
proof -
  obtain g m1 where g: "page_alloc hart m 1 PAGE_TYPE_PGTBL = Some (g, m1)"
    "if g = 0 then frames_in m1 L
     else g \<notin> L \<and> 4096 dvd g \<and> g < 2 ^ 38 \<and> frames_in m1 (insert g L) \<and> get_page_reference m1 g = Some 1"
    "\<forall>a\<in>L. get_page_reference m1 a = get_page_reference m a" "usable_memory_start m1 = usable_memory_start m"
    using frames_alloc [OF assms(1)] by blast
  show ?thesis
  proof (cases "g = 0")
    case True
    then show ?thesis using g by (simp add: alloc_page_dir_def) blast
  next
    case False
    note nd = new_dir_ok [OF False, where ph = ph]
    have f: "frames_with L (get_page_reference m) (usable_memory_start m) m1 (insert g L)"
      using g False by (auto simp: frames_with_def)
    have gl: "g \<notin> L" "4096 dvd g" using g(2) False by auto
    obtain ph' m' L' where w: "map_sysmaps hart (new_dir ph g) m1 g ss = Some (ph', m')"
      "frames_with L (get_page_reference m) (usable_memory_start m) m' L'" "table_step g (new_dir ph g) (insert g L) ph' L'"
      using map_sysmaps_ok [OF f nd(1) [OF gl(2,1)] assms(2)] by blast
    have "alloc_page_dir hart ph m ss = Some (g, ph', m')"
      using g(1) False w(1) by (simp add: alloc_page_dir_def new_dir_def Let_def)
    moreover have "ph' a = ph a" if "frame_of a \<in> L" for a
    proof -
      have "frame_of a \<noteq> g" using that gl(1) by auto
      moreover from this have "ph' a = new_dir ph g a"
        using w(3) that unfolding table_step_def nd(3) [OF gl(2,1)] by blast
      ultimately show ?thesis using nd(4) [OF gl(2,1)] by simp
    qed
    moreover have "\<forall>t\<in>tables ph' g. t \<in> {g} \<or> t \<notin> insert g L"
      using w(3) unfolding table_step_def nd(3) [OF gl(2,1)] by (elim conjE)
    then have "tables ph' g \<inter> L = {}" using gl(1) by auto
    ultimately show ?thesis using w(2,3) by (auto simp: frames_with_def table_step_def)
  qed
qed

subsection \<open>Page faults\<close>

lemma frame_in_usable: "frames_in m L \<Longrightarrow> a \<in> L \<Longrightarrow> usable_memory_start m \<le> a \<and> a < usable_memory_end m \<and> 4096 dvd a \<and> a \<noteq> 0"
proof -
  assume "frames_in m L" "a \<in> L"
  then obtain n A p where A: "buddy_ok m n A" "4096 dvd usable_memory_start m" "a = usable_memory_start m + p * 4096" "p < n"
    using block_page_bound unfolding frames_in_def by blast
  then have "usable_memory_start m + n * PG_SIZE < usable_memory_end m" "0 < usable_memory_start m"
    by (auto simp: buddy_ok_def buddy_inv_def arena_ok_def)
  then show ?thesis using A by (simp add: PG_SIZE_def)
qed

lemma walk_hit:
  assumes "frames_in m L" and "tree_ok ph root L" and "off_kernel (unat va) (unat va)" and "pmap ph root va = Some e"
  obtains t where "walk_pages hart ph m root va False = Some (t + 8 * PX 0 va, ph, m)" "t + 8 * PX 0 va \<noteq> 0"
    "node ph root [PX 2 va, PX 1 va] = Some t" "ph (t + 8 * PX 0 va) = e" "pte_V e"
proof -
  have f: "frames_with {} (\<lambda>_. None) (usable_memory_start m) m L" using assms(1) by (simp add: frames_with_def)
  obtain t where n: "node ph root [PX 2 va, PX 1 va] = Some t" "ph (t + 8 * PX 0 va) = e" "pte_V e"
    using assms(4) by (auto simp: pmap_def option_steps simp del: node.simps split: if_splits)
  then show ?thesis
    using walk_pages_ok [OF f assms(2), of va hart False] PX_off_kernel [OF assms(3)] assms(4) that [OF _ _ n]
    by (auto simp del: node.simps)
qed

lemma or_W_type: "pte_Type (set_Type (pte_Type e OR PTE_TYPE_BIT_W) e') = pte_Type e OR 2"
  unfolding pte_put_same(1) by (rule bit_word_eqI) (auto simp: pte_Type_def pte_get_def PTE_TYPE_BIT_W_def bit_simps bit_numeral_rec)

lemma pmap_leaf:
  assumes "tree_ok ph root L" and "node ph root [PX 2 va, PX 1 va] = Some t" and "va < MAXVA" and "vb < MAXVA" and "pte_V e"
  shows "pmap (ph(t + 8 * PX 0 va := e)) root vb = (if vpn vb = vpn va then Some e else pmap ph root vb)"
  using leaf_write(3) [OF assms(1,2)] PX_eq_iff [OF assms(3,4)] assms(5) by auto

lemma leaf_outside:
  assumes "tree_ok ph root L" and "node ph root [PX 2 va, PX 1 va] = Some t" and "frame_of a \<notin> tables ph root"
  shows "a \<noteq> t + 8 * PX 0 va"
proof -
  have "t \<in> tables ph root" using assms(2) path_ok_PX(3) unfolding tables_def by blast
  then show ?thesis using assms(3) frame_of_cell [OF tree_okD(3) [OF assms(1) path_ok_PX(3) assms(2)] PX_less] by metis
qed

text \<open>The two ways a write fault on a read-only page is resolved, given the leaf entry.\<close>

lemma pagefault_in_place:
  assumes "frames_in m L" and "tree_ok ph pde L" and "unat va < 0x80000000" and "pmap ph pde va = Some e"
    and "unat (pte_pa e) \<in> L" and "unat (pte_pa e) \<notin> tables ph pde" and "pte_Type e AND 2 = 0" and "umem \<or> \<not> from_kernel"
    and "get_page_reference m (unat (pte_pa e)) = Some 1"
  shows "\<exists>ph' e'. do_pagefault hart ph m umem (Some pde) va pde from_kernel = Some (0, umem, ph', m) \<and> tree_ok ph' pde L \<and>
    (\<forall>vb<MAXVA. pmap ph' pde vb = (if vpn vb = vpn va then Some e' else pmap ph pde vb)) \<and>
    pte_Type e' = pte_Type e OR 2 \<and> pte_U e' = pte_U e \<and> pte_pa e' = pte_pa e \<and>
    (\<forall>a. frame_of a \<notin> tables ph pde \<longrightarrow> ph' a = ph a)"
proof -
  have ok: "off_kernel (unat va) (unat va)" using assms(3) by (simp add: off_kernel_def)
  obtain t where t: "walk_pages hart ph m pde va False = Some (t + 8 * PX 0 va, ph, m)" "t + 8 * PX 0 va \<noteq> 0"
    "node ph pde [PX 2 va, PX 1 va] = Some t" "ph (t + 8 * PX 0 va) = e" "pte_V e"
    using walk_hit [OF assms(1,2) ok assms(4)] by blast
  let ?e = "set_Type (pte_Type e OR PTE_TYPE_BIT_W) e"
  let ?ph = "ph(t + 8 * PX 0 va := ?e)"
  have r: "do_pagefault hart ph m umem (Some pde) va pde from_kernel = Some (0, umem, ?ph, m)"
    using t(1,2,4) assms(3,7,8,9) frame_in_usable [OF assms(1,5)]
    by (auto simp: do_pagefault_def Let_def word_le_nat_alt PTE_TYPE_BIT_W_def)
  have v: "pte_V ?e" using t(5) by simp
  show ?thesis
  proof (intro exI conjI allI impI)
    show "do_pagefault hart ph m umem (Some pde) va pde from_kernel = Some (0, umem, ?ph, m)" by (rule r)
    show "tree_ok ?ph pde L" by (rule leaf_write(1) [OF assms(2) t(3)])
    show "pmap ?ph pde vb = (if vpn vb = vpn va then Some ?e else pmap ph pde vb)" if "vb < MAXVA" for vb
      using pmap_leaf [OF assms(2) t(3) _ that v] PX_off_kernel [OF ok] by simp
    show "?ph a = ph a" if "frame_of a \<notin> tables ph pde" for a using leaf_outside [OF assms(2) t(3) that] by simp
    show "pte_Type ?e = pte_Type e OR 2" by (rule or_W_type)
  qed simp_all
qed

lemma tables_sub: "tree_ok ph root L \<Longrightarrow> tables ph root \<subseteq> L"
  using tree_okD(1) by (auto simp: tables_def)

lemma outside_write:
  assumes "tree_ok ph root L" and "\<forall>a. ph' a \<noteq> ph a \<longrightarrow> frame_of a \<notin> tables ph root"
  shows "L \<subseteq> L' \<Longrightarrow> tree_ok ph' root L'" and "path_ok q \<Longrightarrow> node ph' root q = node ph root q" and "pmap ph' root = pmap ph root"
    and "tables ph' root = tables ph root"
proof -
  have c: "ph' (u + 8 * j) = ph (u + 8 * j)" if "path_ok p" "node ph root p = Some u" "j < 512" for p u j
  proof -
    have "u \<in> tables ph root" using that(1,2) unfolding tables_def by blast
    then show ?thesis
      using tree_okD(3) [OF assms(1) that(1,2)] frame_of_cell [of u j] that(3) assms(2) [rule_format, of "u + 8 * j"] by auto
  qed
  show "tree_ok ph' root L'" if "L \<subseteq> L'" by (rule tree_cong(1) [OF assms(1) that]) (rule c)
  have n: "node ph' root q = node ph root q" if "path_ok q" for q
    by (rule tree_cong(2) [OF assms(1) order_refl _ that]) (rule c)
  then show "path_ok q \<Longrightarrow> node ph' root q = node ph root q" .
  show "tables ph' root = tables ph root" using n by (auto simp: tables_def)
  show "pmap ph' root = pmap ph root"
  proof (intro ext)
    fix va show "pmap ph' root va = pmap ph root va"
      using n [OF path_ok_PX(3), of 2 va 1] c [OF path_ok_PX(3) _ PX_less, of 2 va 1 _ 0 va]
      by (cases "node ph root [PX 2 va, PX 1 va]") (simp_all add: pmap_def del: node.simps)
  qed
qed

lemma pagefault_copies:
  assumes "frames_in m L" and "tree_ok ph pde L" and "unat va < 0x80000000" and "pmap ph pde va = Some e"
    and "unat (pte_pa e) \<in> L" and "unat (pte_pa e) \<notin> tables ph pde" and "pte_Type e AND 2 = 0" and "umem \<or> \<not> from_kernel"
    and "get_page_reference m (unat (pte_pa e)) = Some (unat c)" and "c \<noteq> (1 :: u16)"
  shows "(\<exists>m'. do_pagefault hart ph m umem (Some pde) va pde from_kernel = Some (- 2, umem, ph, m') \<and> frames_in m' L) \<or>
    (\<exists>g ph' m' e'. do_pagefault hart ph m umem (Some pde) va pde from_kernel = Some (0, umem, ph', m') \<and>
      g \<notin> L \<and> frames_in m' (insert g L) \<and> tree_ok ph' pde (insert g L) \<and>
      (\<forall>vb<MAXVA. pmap ph' pde vb = (if vpn vb = vpn va then Some e' else pmap ph pde vb)) \<and>
      pte_Type e' = pte_Type e OR 2 \<and> pte_U e' = pte_U e \<and> unat (pte_pa e') = g \<and>
      get_page_reference m' g = Some 1 \<and> get_page_reference m' (unat (pte_pa e)) = Some (unat (c - 1)) \<and>
      (\<forall>i<512. ph' (g + 8 * i) = ph (unat (pte_pa e) + 8 * i)) \<and>
      (\<forall>a. frame_of a \<notin> tables ph pde \<longrightarrow> frame_of a \<noteq> g \<longrightarrow> ph' a = ph a))"
proof -
  let ?pa = "unat (pte_pa e)"
  have ok: "off_kernel (unat va) (unat va)" using assms(3) by (simp add: off_kernel_def)
  obtain t where t: "walk_pages hart ph m pde va False = Some (t + 8 * PX 0 va, ph, m)" "t + 8 * PX 0 va \<noteq> 0"
    "node ph pde [PX 2 va, PX 1 va] = Some t" "ph (t + 8 * PX 0 va) = e" "pte_V e"
    using walk_hit [OF assms(1,2) ok assms(4)] by blast
  obtain g m1 where g: "page_alloc hart m 1 (PAGE_TYPE_INUSE OR PAGE_TYPE_USER) = Some (g, m1)"
    "if g = 0 then frames_in m1 L
     else g \<notin> L \<and> 4096 dvd g \<and> g < 2 ^ 38 \<and> frames_in m1 (insert g L) \<and> get_page_reference m1 g = Some 1"
    "\<forall>a\<in>L. get_page_reference m1 a = get_page_reference m a"
    using frames_alloc [OF assms(1)] by blast
  have c: "unat c \<noteq> 1" using assms(10) by (metis unat_1 word_unat_eq_iff)
  note pre = t(1,2,4) assms(3,7,8,9) c frame_in_usable [OF assms(1,5)] g(1)
  show ?thesis
  proof (cases "g = 0")
    case True
    then have "do_pagefault hart ph m umem (Some pde) va pde from_kernel = Some (- 2, umem, ph, m1)"
      using pre by (auto simp: do_pagefault_def Let_def word_le_nat_alt PTE_TYPE_BIT_W_def)
    then show ?thesis using g(2) True by auto
  next
    case False
    then have gg: "g \<notin> L" "4096 dvd g" "g < 2 ^ 50" "frames_in m1 (insert g L)" "get_page_reference m1 g = Some 1" using g(2) by auto
    obtain m2 and c' :: u16 where m2: "get_page_reference m1 ?pa = Some (unat c')" "decrease_page_ref m1 ?pa = Some (unat (c' - 1), m2)"
      "frames_in m2 (insert g L)" "get_page_reference m2 ?pa = Some (unat (c' - 1))"
      "\<forall>b\<in>insert g L. b \<noteq> ?pa \<longrightarrow> get_page_reference m2 b = get_page_reference m1 b"
      using decrease_page_ref_ok [OF gg(4)] assms(5) by blast
    have c': "c' = c" using m2(1) g(3) assms(5,9) by (simp add: word_unat_eq_iff)
    let ?pte = "t + 8 * PX 0 va" and ?ph1 = "copy_page ph g ?pa"
    let ?e1 = "set_PPN (drop_bit PG_SHIFT (of_nat g)) e"
    let ?e = "set_Type (pte_Type e OR PTE_TYPE_BIT_W) ?e1"
    let ?ph = "?ph1(?pte := ?e)"
    have tL: "t \<in> L" "4096 dvd t" using tree_okD [OF assms(2) path_ok_PX(3) t(3)] by auto
    have ch: "frame_of a = g" if "?ph1 a \<noteq> ph a" for a
      using that frame_of_in [OF gg(2), of a] by (auto simp: copy_page_def split: if_splits)
    have pt: "?ph1 ?pte = e" using ch [of ?pte] t(4) frame_of_cell [OF tL(2) PX_less] tL(1) gg(1) by metis
    have r: "do_pagefault hart ph m umem (Some pde) va pde from_kernel = Some (0, umem, ?ph, m2)"
      using pre False pt m2(2) by (auto simp: do_pagefault_def Let_def word_le_nat_alt PTE_TYPE_BIT_W_def)
    have och: "\<forall>a. ?ph1 a \<noteq> ph a \<longrightarrow> frame_of a \<notin> tables ph pde"
      using ch gg(1) tables_sub [OF assms(2)] by blast
    have ow: "tree_ok ?ph1 pde L" "node ?ph1 pde [PX 2 va, PX 1 va] = Some t" "pmap ?ph1 pde = pmap ph pde"
      using outside_write [OF assms(2) och] t(3) path_ok_PX(3) by (blast, metis, blast)
    have tr: "tree_ok ?ph1 pde (insert g L)" by (rule tree_cong(1) [OF ow(1)]) auto
    have v: "pte_V ?e" using t(5) by simp
    have "pmap ?ph pde vb = (if vpn vb = vpn va then Some ?e else pmap ph pde vb)" if "vb < MAXVA" for vb
      using pmap_leaf [OF ow(1,2) _ that v] PX_off_kernel [OF ok] ow(3) by simp
    moreover have "?ph (g + 8 * i) = ph (?pa + 8 * i)" if "i < 512" for i
      using cell_eq [OF gg(2) tL(2) that PX_less, of 0 va] tL(1) gg(1) that by (auto simp: copy_page_def PG_SIZE_def)
    moreover have "?ph a = ph a" if "frame_of a \<notin> tables ph pde" "frame_of a \<noteq> g" for a
      using leaf_outside [OF assms(2) t(3) that(1)] ch [of a] that(2) by (metis fun_upd_other)
    moreover have "pte_Type ?e = pte_Type e OR 2" "pte_U ?e = pte_U e" "unat (pte_pa ?e) = g"
      using or_W_type pte_pa_set_PPN [OF gg(2,3)] by simp_all
    moreover have "get_page_reference m2 g = Some 1" using m2(5) gg(1,5) assms(5) by auto
    ultimately show ?thesis
      using r gg(1) m2(3,4) c' leaf_write(1) [OF tr ow(2), of ?e] by blast
  qed
qed

subsection \<open>Copy on write\<close>

definition shared :: "u64 \<Rightarrow> u64 \<Rightarrow> bool" where
  "shared e e' \<longleftrightarrow> pte_V e' \<and> pte_pa e' = pte_pa e \<and> pte_U e' = pte_U e \<and> pte_G e' = pte_G e \<and> pte_Type e' = pte_Type e AND NOT 2"

lemma take_bit_pte:
  "take_bit 38 (pte_PPN e) = pte_PPN e" "take_bit 1 (pte_U e) = pte_U e" "take_bit 1 (pte_G e) = pte_G e"
  by (simp_all only: pte_PPN_def pte_U_def pte_G_def pte_get_def take_bit_take_bit min.idem)

lemma set_same_field [simp]:
  "pte_PPN (set_PPN (pte_PPN e) e') = pte_PPN e" "pte_U (set_U (pte_U e) e') = pte_U e" "pte_G (set_G (pte_G e) e') = pte_G e"
  unfolding pte_put_same take_bit_pte by (rule refl)+

lemma and_W_type: "pte_Type (set_Type (pte_Type e AND NOT PTE_TYPE_BIT_W) e') = pte_Type e AND NOT 2"
proof -
  have "take_bit 3 (x AND y) = take_bit 3 x AND y" for x y :: u64 by (rule bit_word_eqI) (auto simp: bit_simps)
  then have "take_bit 3 (pte_Type e AND NOT PTE_TYPE_BIT_W) = take_bit 3 (pte_Type e) AND NOT 2"
    unfolding PTE_TYPE_BIT_W_def .
  also have "take_bit 3 (pte_Type e) = pte_Type e" by (simp only: pte_Type_def pte_get_def take_bit_take_bit min.idem)
  finally show ?thesis unfolding pte_put_same(1) .
qed

text \<open>A pair of directories with tables of their own.\<close>

definition two_dirs :: "phys \<Rightarrow> nat \<Rightarrow> nat \<Rightarrow> nat set \<Rightarrow> bool" where
  "two_dirs ph dst src L \<longleftrightarrow> tree_ok ph dst L \<and> tree_ok ph src L \<and> tables ph src \<inter> tables ph dst = {}"

lemma two_dirs_grow:
  assumes "two_dirs ph dst src L" and "table_step dst ph L ph1 L1"
  shows "two_dirs ph1 dst src L1" "pmap ph1 src = pmap ph src" "tables ph1 src = tables ph src"
    "path_ok q \<Longrightarrow> node ph1 src q = node ph src q"
proof -
  have s: "tree_ok ph src L" and d: "tables ph src \<inter> tables ph dst = {}" using assms(1) by (auto simp: two_dirs_def)
  have ch: "\<forall>a. ph1 a \<noteq> ph a \<longrightarrow> frame_of a \<notin> tables ph src"
  proof (intro allI impI)
    fix a assume that: "ph1 a \<noteq> ph a"
    have "frame_of a \<in> tables ph dst \<or> frame_of a \<notin> L" using assms(2) that unfolding table_step_def by blast
    then show "frame_of a \<notin> tables ph src" using d tables_sub [OF s] by auto
  qed
  have l: "L \<subseteq> L1" "tree_ok ph1 dst L1" using assms(2) unfolding table_step_def by simp_all
  have l3: "\<forall>t\<in>tables ph1 dst. t \<in> tables ph dst \<or> t \<notin> L" using assms(2) unfolding table_step_def by (elim conjE)
  note o = outside_write [where ph' = ph1, OF s ch]
  show "pmap ph1 src = pmap ph src" "tables ph1 src = tables ph src" using o(3,4) by auto
  show "path_ok q \<Longrightarrow> node ph1 src q = node ph src q" by (rule o(2))
  have "tables ph1 src \<inter> tables ph1 dst = {}" using l3 d tables_sub [OF s] unfolding o(4) by blast
  then show "two_dirs ph1 dst src L1" using o(1) l(1,2) by (auto simp: two_dirs_def)
qed

text \<open>Leaf entries written in both.\<close>

lemma two_dirs_write:
  assumes "two_dirs ph dst src L" and "node ph src [PX 2 a, PX 1 a] = Some t" and "node ph dst [PX 2 a, PX 1 a] = Some u"
    and "a < MAXVA" and "pte_V es" and "pte_V ed"
  shows "u + 8 * PX 0 a \<noteq> t + 8 * PX 0 a"
    and "two_dirs (ph(t + 8 * PX 0 a := es, u + 8 * PX 0 a := ed)) dst src L"
    and "vb < MAXVA \<Longrightarrow> pmap (ph(t + 8 * PX 0 a := es, u + 8 * PX 0 a := ed)) src vb = (if vpn vb = vpn a then Some es else pmap ph src vb)"
    and "vb < MAXVA \<Longrightarrow> pmap (ph(t + 8 * PX 0 a := es, u + 8 * PX 0 a := ed)) dst vb = (if vpn vb = vpn a then Some ed else pmap ph dst vb)"
    and "tables (ph(t + 8 * PX 0 a := es, u + 8 * PX 0 a := ed)) src = tables ph src"
proof -
  have s: "tree_ok ph src L" and d: "tree_ok ph dst L" and dj: "tables ph src \<inter> tables ph dst = {}"
    using assms(1) by (auto simp: two_dirs_def)
  have tu: "t \<in> tables ph src" "u \<in> tables ph dst" using assms(2,3) path_ok_PX(3) unfolding tables_def by blast+
  have fr: "frame_of (t + 8 * PX 0 a) = t" "frame_of (u + 8 * PX 0 a) = u"
    using frame_of_cell [OF tree_okD(3) [OF s path_ok_PX(3) assms(2)] PX_less]
      frame_of_cell [OF tree_okD(3) [OF d path_ok_PX(3) assms(3)] PX_less] by auto
  then show ne: "u + 8 * PX 0 a \<noteq> t + 8 * PX 0 a" using tu dj by auto
  let ?p1 = "ph(t + 8 * PX 0 a := es)" and ?p2 = "ph(t + 8 * PX 0 a := es, u + 8 * PX 0 a := ed)"
  have c1: "\<forall>b. ?p1 b \<noteq> ph b \<longrightarrow> frame_of b \<notin> tables ph dst"
    using fr(1) tu(1) dj by (auto simp: disjoint_iff)
  note o1 = outside_write [where ph' = ?p1, OF d c1] and w1 = leaf_write [OF s assms(2), where e = es]
  have nd: "node ?p1 dst [PX 2 a, PX 1 a] = Some u" using o1(2) [OF path_ok_PX(3)] assms(3) by metis
  note w2 = leaf_write [OF o1(1) [OF order_refl] nd, where e = ed]
  have ts1: "tables ?p1 src = tables ph src" using w1(2) by (auto simp: tables_def)
  have c2: "\<forall>b. ?p2 b \<noteq> ?p1 b \<longrightarrow> frame_of b \<notin> tables ?p1 src"
    unfolding ts1 using fr(2) tu(2) dj by (auto simp: disjoint_iff)
  note o2 = outside_write [where ph' = ?p2, OF w1(1) c2]
  show ts: "tables ?p2 src = tables ph src" using o2(4) ts1 by metis
  have "tables ?p2 dst = tables ?p1 dst" using w2(2) by (auto simp: tables_def)
  then have td: "tables ?p2 dst = tables ph dst" using o1(4) by (rule trans)
  show "two_dirs ?p2 dst src L" using o2(1) [OF order_refl] w2(1) ts td dj by (simp add: two_dirs_def)
  show "pmap ?p2 src vb = (if vpn vb = vpn a then Some es else pmap ph src vb)" if "vb < MAXVA"
    using o2(3) pmap_leaf [OF s assms(2,4) that assms(5)] by metis
  show "pmap ?p2 dst vb = (if vpn vb = vpn a then Some ed else pmap ph dst vb)" if "vb < MAXVA"
    using o1(3) pmap_leaf [OF o1(1) [OF order_refl] nd assms(4) that assms(6)] by metis
qed

text \<open>One page: both directories end up with a read-only entry for the same frame.\<close>

definition page_shareable :: "phys \<Rightarrow> nat \<Rightarrow> nat \<Rightarrow> nat set \<Rightarrow> u64 \<Rightarrow> bool" where
  "page_shareable ph dst src L a \<longleftrightarrow> pmap ph dst a = None \<and>
     (\<exists>e. pmap ph src a = Some e \<and> pte_Type e \<noteq> 0 \<and> pte_U e = 1 \<and> unat (pte_pa e) \<in> L)"

lemma vm_copy_one_ok:
  assumes "frames_in m L" and "two_dirs ph dst src L" and "off_kernel (unat a) (unat a)" and "page_shareable ph dst src L a"
  shows "(\<exists>ph1 m1. walk_pages hart ph m dst a True = Some (0, ph1, m1) \<and> vm_copy_one hart ph m dst src a = None) \<or>
    (\<exists>ph' m' L' e es ed c. vm_copy_one hart ph m dst src a = Some (ph', m') \<and> L \<subseteq> L' \<and> frames_in m' L' \<and> two_dirs ph' dst src L' \<and>
      pmap ph src a = Some e \<and> shared e es \<and> shared e ed \<and>
      (\<forall>vb<MAXVA. pmap ph' src vb = (if vpn vb = vpn a then Some es else pmap ph src vb)) \<and>
      (\<forall>vb<MAXVA. pmap ph' dst vb = (if vpn vb = vpn a then Some ed else pmap ph dst vb)) \<and>
      get_page_reference m (unat (pte_pa e)) = Some (unat (c :: u16)) \<and> get_page_reference m' (unat (pte_pa e)) = Some (unat (c + 1)) \<and>
      (\<forall>f\<in>L. f \<noteq> unat (pte_pa e) \<longrightarrow> get_page_reference m' f = get_page_reference m f))"
proof -
  obtain e where e: "pmap ph dst a = None" "pmap ph src a = Some e" "pte_Type e \<noteq> 0" "pte_U e = 1" "unat (pte_pa e) \<in> L"
    using assms(4) by (auto simp: page_shareable_def)
  let ?pa = "unat (pte_pa e)" and ?px = "8 * PX 0 a"
  have s: "tree_ok ph src L" and d: "tree_ok ph dst L" using assms(2) by (auto simp: two_dirs_def)
  obtain t where t: "walk_pages hart ph m src a False = Some (t + ?px, ph, m)" "t + ?px \<noteq> 0"
    "node ph src [PX 2 a, PX 1 a] = Some t" "ph (t + ?px) = e" "pte_V e" using walk_hit [OF assms(1) s assms(3) e(2)] by blast
  have f: "frames_with L (get_page_reference m) (usable_memory_start m) m L" using assms(1) by (simp add: frames_with_def)
  have a: "a < MAXVA" "PX 2 a \<noteq> 2" using PX_off_kernel [OF assms(3)] by auto
  obtain r ph1 m1 L1 where w: "walk_pages hart ph m dst a True = Some (r, ph1, m1)"
    "frames_with L (get_page_reference m) (usable_memory_start m) m1 L1" "table_step dst ph L ph1 L1" "pmap ph1 dst = pmap ph dst"
    "r = 0 \<or> (\<exists>u. node ph1 dst [PX 2 a, PX 1 a] = Some u \<and> r = u + ?px \<and> r \<noteq> 0)"
    using walk_pages_ok [OF f d a, of hart True] by blast
  have f1: "frames_in m1 L1" "L \<subseteq> L1" "\<forall>a\<in>L. get_page_reference m1 a = get_page_reference m a"
    using w(2) by (simp_all add: frames_with_def)
  note tw = two_dirs_grow [OF assms(2) w(3)]
  note pre = t(1,2,4,5) e(3,4) w(1)
  show ?thesis
  proof (cases "r = 0")
    case True
    then have "vm_copy_one hart ph m dst src a = None" using pre by (simp add: vm_copy_one_def)
    then show ?thesis using w(1) True by blast
  next
    case False
    then obtain u where u: "node ph1 dst [PX 2 a, PX 1 a] = Some u" "r = u + ?px" "r \<noteq> 0" using w(5) by blast
    have t1: "node ph1 src [PX 2 a, PX 1 a] = Some t" using tw(4) [OF path_ok_PX(3)] t(3) by metis
    have "pmap ph1 dst a = None" using w(4) e(1) by simp
    then have cV: "\<not> pte_V (ph1 r)" using u(1,2) by (auto simp: pmap_def option_steps simp del: node.simps split: if_splits)
    have "pmap ph1 src a = Some e" using tw(2) e(2) by simp
    then have p1: "ph1 (t + ?px) = e" using t1 by (auto simp: pmap_def simp del: node.simps split: if_splits)
    obtain m2 and c :: u16 where m2: "get_page_reference m1 ?pa = Some (unat c)" "increase_page_ref m1 ?pa = Some (unat (c + 1), m2)"
      "frames_in m2 L1" "get_page_reference m2 ?pa = Some (unat (c + 1))"
      "\<forall>b\<in>L1. b \<noteq> ?pa \<longrightarrow> get_page_reference m2 b = get_page_reference m1 b"
      using increase_page_ref_ok [OF f1(1)] f1(2) e(5) by blast
    let ?ty = "pte_Type e AND NOT PTE_TYPE_BIT_W"
    let ?es = "set_Type ?ty e"
    let ?c1 = "set_G (pte_G e) (set_U (pte_U e) (set_V 1 (set_PPN (pte_PPN e) (ph1 r))))"
    let ?ed = "set_Type ?ty ?c1"
    let ?ph = "ph1(t + ?px := ?es, r := ?ed)"
    have V: "pte_V ?es" "pte_V ?ed" using t(5) by simp_all
    note tww = two_dirs_write [OF tw(1) t1 u(1) a(1) V]
    have ne: "r \<noteq> t + ?px" using tww(1) u(2) by simp
    have one: "vm_copy_one hart ph m dst src a = Some (?ph, m2)"
      using pre False cV p1 ne m2(2) by (simp add: vm_copy_one_def Let_def fun_upd_twist [OF ne [symmetric]])
    have sh: "shared e ?es" "shared e ?ed" unfolding shared_def and_W_type using V by (simp_all add: pte_pa_def del: pte_put_same)
    show ?thesis
    proof (rule disjI2, intro exI conjI)
      show "vm_copy_one hart ph m dst src a = Some (?ph, m2)" by (rule one)
      show "two_dirs ?ph dst src L1" using tww(2) u(2) by simp
      show "\<forall>vb<MAXVA. pmap ?ph src vb = (if vpn vb = vpn a then Some ?es else pmap ph src vb)"
        using tww(3) u(2) tw(2) by simp
      show "\<forall>vb<MAXVA. pmap ?ph dst vb = (if vpn vb = vpn a then Some ?ed else pmap ph dst vb)"
        using tww(4) u(2) w(4) by simp
      show "get_page_reference m ?pa = Some (unat c)" using m2(1) f1(3) e(5) by simp
      show "\<forall>f\<in>L. f \<noteq> ?pa \<longrightarrow> get_page_reference m2 f = get_page_reference m f" using m2(5) f1(2,3) by auto
    qed (use f1(2) m2(3,4) e(2) sh in simp_all)
  qed
qed

text \<open>A range: what the two mappings are afterwards, and how often each frame's count went up.\<close>

definition page_va :: "nat \<Rightarrow> u64" where
  "page_va k = of_nat (k * 4096)"

definition frame_at :: "phys \<Rightarrow> nat \<Rightarrow> nat \<Rightarrow> nat" where
  "frame_at ph root k = unat (pte_pa (the (pmap ph root (page_va k))))"

definition cow_shared :: "phys \<Rightarrow> phys \<Rightarrow> nat \<Rightarrow> nat \<Rightarrow> nat \<Rightarrow> nat \<Rightarrow> bool" where
  "cow_shared ph ph' dst src x n \<longleftrightarrow> (\<forall>vb<MAXVA.
     if x \<le> vpn vb \<and> vpn vb < x + n
     then \<exists>e es ed. pmap ph src vb = Some e \<and> pmap ph' src vb = Some es \<and> pmap ph' dst vb = Some ed \<and> shared e es \<and> shared e ed
     else pmap ph' src vb = pmap ph src vb \<and> pmap ph' dst vb = pmap ph dst vb)"

definition refs_added :: "phys \<Rightarrow> nat \<Rightarrow> memory_info \<Rightarrow> memory_info \<Rightarrow> nat set \<Rightarrow> nat \<Rightarrow> nat \<Rightarrow> bool" where
  "refs_added ph src m m' L x n \<longleftrightarrow> (\<forall>f\<in>L. \<exists>c :: u16. get_page_reference m f = Some (unat c) \<and>
     get_page_reference m' f = Some (unat (c + of_nat (card {k. x \<le> k \<and> k < x + n \<and> frame_at ph src k = f}))))"

lemma page_va_vpn: "k * 4096 < 2 ^ 38 \<Longrightarrow> vpn (page_va k) = k \<and> page_va k < MAXVA \<and> unat (page_va k) = k * 4096"
proof -
  assume k: "k * 4096 < 2 ^ 38"
  then have "unat (page_va k) = k * 4096" unfolding page_va_def by (simp only: unat_of_nat) (simp add: take_bit_nat_eq_self)
  then show ?thesis using k by (simp add: vpn_def MAXVA_def word_less_nat_alt)
qed

lemma frames_ref: "frames_in m L \<Longrightarrow> f \<in> L \<Longrightarrow> \<exists>c :: u16. get_page_reference m f = Some (unat c)"
  using increase_page_ref_ok by blast

lemma refs_added_step:
  assumes "\<And>k. k \<noteq> x \<Longrightarrow> Suc x \<le> k \<Longrightarrow> k < Suc x + n \<Longrightarrow> frame_at ph1 src k = frame_at ph src k"
    and "get_page_reference m (frame_at ph src x) = Some (unat (c :: u16))"
    and "get_page_reference m1 (frame_at ph src x) = Some (unat (c + 1))"
    and "\<forall>f\<in>L. f \<noteq> frame_at ph src x \<longrightarrow> get_page_reference m1 f = get_page_reference m f"
    and "refs_added ph1 src m1 m' L1 (Suc x) n" and "L \<subseteq> L1"
  shows "refs_added ph src m m' L x (Suc n)"
  unfolding refs_added_def
proof
  fix f assume f: "f \<in> L"
  let ?K = "{k. Suc x \<le> k \<and> k < Suc x + n \<and> frame_at ph1 src k = f}"
  have fin: "finite ?K" by simp
  have K: "{k. x \<le> k \<and> k < x + Suc n \<and> frame_at ph src k = f} = (if frame_at ph src x = f then insert x ?K else ?K)"
  proof (rule set_eqI)
    fix k show "k \<in> {k. x \<le> k \<and> k < x + Suc n \<and> frame_at ph src k = f} \<longleftrightarrow> k \<in> (if frame_at ph src x = f then insert x ?K else ?K)"
      using assms(1) [of k] by (cases "k = x") auto
  qed
  obtain d :: u16 where d: "get_page_reference m1 f = Some (unat d)" "get_page_reference m' f = Some (unat (d + of_nat (card ?K)))"
    using assms(5,6) f unfolding refs_added_def by blast
  show "\<exists>c :: u16. get_page_reference m f = Some (unat c) \<and> get_page_reference m' f =
      Some (unat (c + of_nat (card {k. x \<le> k \<and> k < x + Suc n \<and> frame_at ph src k = f})))"
  proof (cases "frame_at ph src x = f")
    case True
    then have "d = c + 1" using d(1) assms(3) by (simp add: word_unat_eq_iff)
    moreover have "card (insert x ?K) = Suc (card ?K)" using fin by simp
    ultimately show ?thesis using True K d(2) assms(2) by (intro exI [of _ c]) (simp add: add.assoc)
  next
    case False
    then show ?thesis using K d assms(4) f by auto
  qed
qed

lemma vm_copy_loop_ok:
  assumes "frames_in m L" and "two_dirs ph dst src L" and "unat a = x * 4096" and "unat va_end = (x + n) * 4096"
    and "(x + n) * 4096 \<le> 0x80000000" and "\<forall>k. x \<le> k \<and> k < x + n \<longrightarrow> page_shareable ph dst src L (page_va k)"
  shows "(\<exists>k ph1 m1 ph2 m2 L1. x \<le> k \<and> k < x + n \<and> L \<subseteq> L1 \<and> frames_in m1 L1 \<and>
       walk_pages hart ph1 m1 dst (page_va k) True = Some (0, ph2, m2) \<and> vm_copy_loop hart ph m dst src a va_end = None) \<or>
    (\<exists>ph' m' L'. vm_copy_loop hart ph m dst src a va_end = Some (ph', m') \<and> L \<subseteq> L' \<and> frames_in m' L' \<and> two_dirs ph' dst src L' \<and>
      cow_shared ph ph' dst src x n \<and> refs_added ph src m m' L x n)"
  using assms
proof (induction n arbitrary: m L ph a x)
  case 0
  then have "vm_copy_loop hart ph m dst src a va_end = Some (ph, m)"
    unfolding vm_copy_loop.simps [of hart ph] by (simp add: word_less_nat_alt)
  moreover have "refs_added ph src m m L x 0" unfolding refs_added_def
  proof
    fix f assume f: "f \<in> L"
    have "{k. x \<le> k \<and> k < x + 0 \<and> frame_at ph src k = f} = {}" by auto
    show "\<exists>c :: u16. get_page_reference m f = Some (unat c) \<and>
        get_page_reference m f = Some (unat (c + of_nat (card {k. x \<le> k \<and> k < x + 0 \<and> frame_at ph src k = f})))"
      unfolding \<open>_ = {}\<close> using frames_ref [OF 0(1) f] by simp
  qed
  ultimately show ?case using 0 by (auto simp: cow_shared_def)
next
  case (Suc n)
  have va: "page_va x = a" unfolding page_va_def Suc.prems(3) [symmetric] by simp
  have ok: "off_kernel (unat a) (unat a)" using Suc.prems(3,5) by (simp add: off_kernel_def)
  have lt: "a < va_end" using Suc.prems(3,4) by (simp add: word_less_nat_alt)
  have px: "x * 4096 < 2 ^ 38" using Suc.prems(5) by simp
  have sh: "page_shareable ph dst src L a" using Suc.prems(6) va by auto
  from vm_copy_one_ok [OF Suc.prems(1,2) ok sh, of hart] show ?case
  proof (elim disjE exE conjE)
    fix ph1 m1 assume w: "walk_pages hart ph m dst a True = Some (0, ph1, m1)" "vm_copy_one hart ph m dst src a = None"
    then have "vm_copy_loop hart ph m dst src a va_end = None" unfolding vm_copy_loop.simps [of hart ph] using lt by simp
    then show ?thesis using w(1) Suc.prems(1) va
      by (intro disjI1 exI [of _ x] exI [of _ ph] exI [of _ m] exI [of _ ph1] exI [of _ m1] exI [of _ L]) simp
  next
    fix ph1 m1 L1 e es ed and c :: u16
    assume o: "vm_copy_one hart ph m dst src a = Some (ph1, m1)" "L \<subseteq> L1" "frames_in m1 L1" "two_dirs ph1 dst src L1"
      "pmap ph src a = Some e" "shared e es" "shared e ed"
      "\<forall>vb<MAXVA. pmap ph1 src vb = (if vpn vb = vpn a then Some es else pmap ph src vb)"
      "\<forall>vb<MAXVA. pmap ph1 dst vb = (if vpn vb = vpn a then Some ed else pmap ph dst vb)"
      "get_page_reference m (unat (pte_pa e)) = Some (unat c)" "get_page_reference m1 (unat (pte_pa e)) = Some (unat (c + 1))"
      "\<forall>f\<in>L. f \<noteq> unat (pte_pa e) \<longrightarrow> get_page_reference m1 f = get_page_reference m f"
    have vx: "vpn a = x" using Suc.prems(3) by (simp add: vpn_def)
    have a1: "unat (a + 4096) = Suc x * 4096" using unat_next_page [of a] PX_off_kernel [OF ok] Suc.prems(3) by simp
    have fx: "frame_at ph src x = unat (pte_pa e)" using o(5) va by (simp add: frame_at_def)
    have keep: "pmap ph1 src (page_va k) = pmap ph src (page_va k) \<and> pmap ph1 dst (page_va k) = pmap ph dst (page_va k)"
      if "Suc x \<le> k" "k < Suc x + n" for k
    proof -
      have "k * 4096 < 2 ^ 38" using that(2) Suc.prems(5) by simp
      from page_va_vpn [OF this] show ?thesis using o(8,9) vx that(1) by simp
    qed
    have sh1: "\<forall>k. Suc x \<le> k \<and> k < Suc x + n \<longrightarrow> page_shareable ph1 dst src L1 (page_va k)"
    proof (intro allI impI, elim conjE)
      fix k assume k: "Suc x \<le> k" "k < Suc x + n"
      then have "page_shareable ph dst src L (page_va k)" using Suc.prems(6) by simp
      then show "page_shareable ph1 dst src L1 (page_va k)" using keep [OF k] o(2) unfolding page_shareable_def by auto
    qed
    have loop: "vm_copy_loop hart ph m dst src a va_end = vm_copy_loop hart ph1 m1 dst src (a + 4096) va_end"
      unfolding vm_copy_loop.simps [of hart ph] using lt o(1) by simp
    have e1: "unat va_end = (Suc x + n) * 4096" "(Suc x + n) * 4096 \<le> 0x80000000" using Suc.prems(4,5) by simp_all
    from Suc.IH [OF o(3,4) a1 e1 sh1] show ?thesis
    proof (elim disjE exE conjE)
      fix k p1 n1 p2 n2 L2 assume k: "Suc x \<le> k" "k < Suc x + n" "L1 \<subseteq> L2" "frames_in n1 L2"
        "walk_pages hart p1 n1 dst (page_va k) True = Some (0, p2, n2)" "vm_copy_loop hart ph1 m1 dst src (a + 4096) va_end = None"
      have "x \<le> k \<and> k < x + Suc n \<and> L \<subseteq> L2" using k(1-3) o(2) by auto
      then show ?thesis unfolding loop using k(4-6) by blast
    next
      fix ph' m' L' assume q: "vm_copy_loop hart ph1 m1 dst src (a + 4096) va_end = Some (ph', m')" "L1 \<subseteq> L'" "frames_in m' L'"
        "two_dirs ph' dst src L'" "cow_shared ph1 ph' dst src (Suc x) n" "refs_added ph1 src m1 m' L1 (Suc x) n"
      have "cow_shared ph ph' dst src x (Suc n)" unfolding cow_shared_def
      proof (intro allI impI)
        fix vb assume vb: "vb < MAXVA"
        have 1: "if Suc x \<le> vpn vb \<and> vpn vb < Suc x + n
          then \<exists>e es ed. pmap ph1 src vb = Some e \<and> pmap ph' src vb = Some es \<and> pmap ph' dst vb = Some ed \<and> shared e es \<and> shared e ed
          else pmap ph' src vb = pmap ph1 src vb \<and> pmap ph' dst vb = pmap ph1 dst vb" using q(5) vb unfolding cow_shared_def by blast
        have 2: "vpn vb = x \<Longrightarrow> pmap ph src vb = Some e"
          using o(5) pmap_vpn [OF _ vb, of a] PX_off_kernel [OF ok] vx by metis
        show "if x \<le> vpn vb \<and> vpn vb < x + Suc n
          then \<exists>e es ed. pmap ph src vb = Some e \<and> pmap ph' src vb = Some es \<and> pmap ph' dst vb = Some ed \<and> shared e es \<and> shared e ed
          else pmap ph' src vb = pmap ph src vb \<and> pmap ph' dst vb = pmap ph dst vb"
          using 1 2 o(6-9) vb vx by (cases "vpn vb = x") (auto split: if_splits)
      qed
      moreover have "refs_added ph src m m' L x (Suc n)"
      proof (rule refs_added_step)
        show "refs_added ph1 src m1 m' L1 (Suc x) n" by (rule q(6))
        show "frame_at ph1 src k = frame_at ph src k" if "Suc x \<le> k" "k < Suc x + n" for k
          using keep [OF that] by (simp add: frame_at_def)
      qed (use o(2,10-12) fx in auto)
      ultimately show ?thesis using loop q(1-4) o(2) by (intro disjI2 exI [of _ ph'] exI [of _ m'] exI [of _ L']) auto
    qed
  qed
qed

subsection \<open>A concrete directory\<close>

text \<open>Eight pages taken from the freshly initialised heap: the tables of a directory that maps
  page 1 read-only to the fourth of them, and of one that maps nothing.\<close>

definition eight_frames :: "nat \<Rightarrow> nat set" where
  "eight_frames g = (\<lambda>i. g + i * 4096) ` {..<8}"

definition dir_entry :: "nat \<Rightarrow> u64" where
  "dir_entry g = set_V 1 (set_PPN (drop_bit PG_SHIFT (of_nat g)) 0)"

definition example_phys :: "nat \<Rightarrow> phys" where
  "example_phys g = (\<lambda>_. 0)(g := dir_entry (g + 4096), g + 4096 := dir_entry (g + 8192),
     g + 8192 + 8 := leaf_entry (of_nat (g + 12288)) 1 True False 0,
     g + 16384 := dir_entry (g + 20480), g + 20480 := dir_entry (g + 24576))"

lemma boot_eight:
  "\<exists>pg m g m'. init_buddy 0 boot_memory = Some (pg, m) \<and> page_alloc 0 m 8 0xA0 = Some (g, m') \<and> frames_in m' (eight_frames g) \<and>
    4096 dvd g \<and> g \<noteq> 0 \<and> g + 32768 \<le> 2 ^ 38 \<and> (\<forall>f\<in>eight_frames g. get_page_reference m' f = Some 1)"
proof -
  have "usable_memory_start boot_memory < usable_memory_end (init_tables boot_memory)"
    by (simp only: boot_memory_layout(6)) (simp add: boot_memory_def)
  from init_buddy_ok [OF boot_memory_layout(1-5) this, of 0] obtain T m where
    m: "init_buddy 0 boot_memory = Some (usable_memory_start boot_memory + T * 256 * PG_SIZE, m)"
    "buddy_ok m (T * 256) {}" "usable_memory_start m = usable_memory_start boot_memory" "usable_memory_end m = 0x807FD000"
    "usable_memory_end m \<le> usable_memory_start boot_memory + T * 256 * PG_SIZE + max_block_size"
    unfolding boot_memory_layout(6) by blast
  have us: "usable_memory_start m = 0x80200000" using m(3) by (simp add: boot_memory_def)
  have T: "0 < T" using m(3-5) by (cases T) (simp_all add: boot_memory_def max_block PG_SIZE_def)
  obtain F where F: "buddy_inv m (T * 256) F {}" "coalesced F" "\<not> sl_lock (mem_lock m)" using m(2) by (auto simp: buddy_ok_def)
  have pt: "part_inv (T * 256) F {}" using F(1) by (simp add: buddy_inv_def)
  have F8: "F 8 \<noteq> []"
  proof
    assume "F 8 = []"
    then have "F k = []" if "k < 9" for k
      using coalesced_nothing_small [OF pt F(2)] that by (cases "k = 8") auto
    then have "free_pages F = 0" by (simp add: free_pages_def)
    then show False using pt T by (simp add: part_inv_def used_pages_def)
  qed
  have o3: "page_order 8 = 3" using trailing_zero_pow2 [of 3] by (simp add: page_order_def round_up_power_2_def smear_def)
  have n: "usable_memory_start m + T * 256 * 4096 < 0x807FD000"
    using F(1) m(4) by (simp add: buddy_inv_def arena_ok_def PG_SIZE_def)
  from page_alloc_cases [OF F, of 0 8 "0xA0", unfolded o3] F8 obtain i m' where
    a: "page_alloc 0 m 8 0xA0 = Some (baddr m 3 i, m')" "buddy_ok m' (T * 256) {(3, i)}" "block_marked m' (T * 256) 3 i 0xA0"
    "usable_memory_start m' = usable_memory_start m" by auto
  have g: "baddr m 3 i = usable_memory_start m + i * 8 * 4096" by (simp add: baddr_def PG_SIZE_def)
  have in8: "in_block 3 i p \<longleftrightarrow> (\<exists>j<8. p = i * 8 + j)" for p
    by (auto simp: in_block_iff intro: exI [of _ "p - i * 8"])
  have i: "i * 8 + 7 < T * 256" using block_page_bound [OF a(2), of 3 i "i * 8 + 7"] in8 by auto
  have e: "eight_frames (baddr m 3 i) = {usable_memory_start m' + p * 4096 | p. \<exists>k i'. (k, i') \<in> {(3, i)} \<and> in_block k i' p}"
  proof -
    have "(\<lambda>j. usable_memory_start m + i * 8 * 4096 + j * 4096) ` {..<8} = (\<lambda>p. usable_memory_start m + p * 4096) ` (\<lambda>j. i * 8 + j) ` {..<8}"
      by (simp add: image_image algebra_simps)
    also have "(\<lambda>j. i * 8 + j) ` {..<8} = {p. in_block 3 i p}" using in8 by auto
    finally show ?thesis unfolding eight_frames_def g a(4) by auto
  qed
  have "frames_in m' (eight_frames (baddr m 3 i))" unfolding frames_in_def e
    using a(2,4) us n by (intro exI [of _ "T * 256"] exI [of _ "{(3, i)}"]) simp
  moreover have "get_page_reference m' f = Some 1" if f: "f \<in> eight_frames (baddr m 3 i)" for f
  proof -
    obtain p where p: "f = usable_memory_start m' + p * 4096" "in_block 3 i p" using f unfolding e by blast
    have "p < T * 256" using block_page_bound [OF a(2)] p(2) by blast
    then show ?thesis using page_reference_at [OF a(2)] p a(3) by (simp add: block_marked_def)
  qed
  moreover have "4096 dvd baddr m 3 i" "baddr m 3 i \<noteq> 0" unfolding g us by (simp_all add: dvd_add)
  moreover have "baddr m 3 i + 32768 \<le> 2 ^ 38" unfolding g using n i by simp
  ultimately show ?thesis using m(1) a(1) by blast
qed

text \<open>A directory with a single chain of tables.\<close>

lemma dir_entry_ok: "4096 dvd b \<Longrightarrow> b < 2 ^ 50 \<Longrightarrow> pte_V (dir_entry b) \<and> pte_Type (dir_entry b) = 0 \<and> unat (pte_pa (dir_entry b)) = b"
  using pte_pa_set_PPN [of b 0] by (simp add: dir_entry_def)

lemma chain_tree:
  assumes "{r, b, c} \<subseteq> L" and "distinct [r, b, c]" and "\<forall>t\<in>{r, b, c}. t \<noteq> 0 \<and> 4096 dvd t \<and> t < 2 ^ 50"
    and "\<forall>i<512. ph (r + 8 * i) = (if i = 0 then dir_entry b else 0)" and "\<forall>i<512. ph (b + 8 * i) = (if i = 0 then dir_entry c else 0)"
  shows "tree_ok ph r L" and "tables ph r = {r, b, c}" and "node ph r [0, 0] = Some c"
    and "pmap ph r va = (if PX 2 va = 0 \<and> PX 1 va = 0 \<and> pte_V (ph (c + 8 * PX 0 va)) then Some (ph (c + 8 * PX 0 va)) else None)"
proof -
  have d: "pte_V (dir_entry b)" "pte_Type (dir_entry b) = 0" "unat (pte_pa (dir_entry b)) = b"
    "pte_V (dir_entry c)" "pte_Type (dir_entry c) = 0" "unat (pte_pa (dir_entry c)) = c"
    using dir_entry_ok [of b] dir_entry_ok [of c] assms(3) by auto
  have n1: "node ph r [i] = (if i = 0 then Some b else None)" if "i < 512" for i
    using assms(4) [rule_format, OF that] d(1-3) by (cases "i = 0") simp_all
  have n2: "node ph r [i, j] = (if i = 0 \<and> j = 0 then Some c else None)" if "i < 512" "j < 512" for i j
    using assms(4) [rule_format, OF that(1)] assms(5) [rule_format, OF that(2)] d
    by (cases "i = 0"; cases "j = 0") simp_all
  have n: "node ph r q = (if q = [] then Some r else if q = [0] then Some b else if q = [0, 0] then Some c else None)"
    if q: "path_ok q" for q
  proof -
    consider "q = []" | i where "q = [i]" "i < 512" | i j where "q = [i, j]" "i < 512" "j < 512"
      using q unfolding path_ok_def
      by (cases q; cases "tl q"; cases "tl (tl q)") auto
    then show ?thesis
    proof cases
      case (2 i)
      then show ?thesis using n1 [OF 2(2)] by auto
    next
      case (3 i j)
      then show ?thesis using n2 [OF 3(2,3)] by auto
    qed simp
  qed
  have p0: "path_ok []" "path_ok [0]" "path_ok [0, 0]" by (simp_all add: path_ok_def)
  show "node ph r [0, 0] = Some c" using n [OF p0(3)] by simp
  show "tables ph r = {r, b, c}"
  proof
    show "tables ph r \<subseteq> {r, b, c}" using n by (auto simp: tables_def split: if_splits)
    have "node ph r [] = Some r" "node ph r [0] = Some b" "node ph r [0, 0] = Some c"
      using n [OF p0(1)] n [OF p0(2)] n [OF p0(3)] by simp_all
    then show "{r, b, c} \<subseteq> tables ph r" unfolding tables_def using p0 by blast
  qed
  show "tree_ok ph r L" unfolding tree_ok_def
  proof (intro conjI allI impI)
    fix p t i assume a: "path_ok p" "length p < 2" "node ph r p = Some t" "i < 512" "pte_Type (ph (t + 8 * i)) \<noteq> 0"
    then have "p = [] \<and> t = r \<or> p = [0] \<and> t = b" using n [OF a(1)] by (auto split: if_splits)
    then have "pte_Type (ph (t + 8 * i)) = 0" using assms(4,5) a(4) d(2,5) by auto
    then show "pte_V (ph (t + 8 * i))" "p = []" "i = 2" using a(5) by simp_all
  qed (use n assms(1-3) in \<open>auto split: if_splits\<close>)
  show "pmap ph r va = (if PX 2 va = 0 \<and> PX 1 va = 0 \<and> pte_V (ph (c + 8 * PX 0 va)) then Some (ph (c + 8 * PX 0 va)) else None)"
    using n2 [OF PX_less PX_less, of 2 va 1 va] by (simp add: pmap_def del: node.simps)
qed

lemma example_tables:
  assumes "4096 dvd g" and "g \<noteq> 0" and "g + 32768 \<le> 2 ^ 38"
  shows "two_dirs (example_phys g) (g + 16384) g (eight_frames g)"
    and "pmap (example_phys g) g 0x1000 = Some (leaf_entry (of_nat (g + 12288)) 1 True False 0)"
    and "vpn va \<noteq> 1 \<Longrightarrow> va < MAXVA \<Longrightarrow> pmap (example_phys g) g va = None"
    and "pmap (example_phys g) (g + 16384) = (\<lambda>_. None)"
    and "tables (example_phys g) g = {g, g + 4096, g + 8192}"
    and "entry_ok (leaf_entry (of_nat (g + 12288)) 1 True False 0) (g + 12288) 1 True False"
proof -
  let ?ph = "example_phys g" and ?leaf = "leaf_entry (of_nat (g + 12288)) 1 True False 0"
  have L: "g + i * 4096 \<in> eight_frames g" if "i < 8" for i using that by (auto simp: eight_frames_def)
  have al: "4096 dvd g + 4096" "4096 dvd g + 8192" "4096 dvd g + 16384" "4096 dvd g + 20480" "4096 dvd g + 24576"
    using assms(1) by (auto simp: dvd_add_left_iff)
  have c: "\<forall>i<512. ?ph (g + 8 * i) = (if i = 0 then dir_entry (g + 4096) else 0)"
    "\<forall>i<512. ?ph (g + 4096 + 8 * i) = (if i = 0 then dir_entry (g + 8192) else 0)"
    "\<forall>i<512. ?ph (g + 8192 + 8 * i) = (if i = 1 then ?leaf else 0)"
    "\<forall>i<512. ?ph (g + 16384 + 8 * i) = (if i = 0 then dir_entry (g + 20480) else 0)"
    "\<forall>i<512. ?ph (g + 20480 + 8 * i) = (if i = 0 then dir_entry (g + 24576) else 0)"
    "\<forall>i<512. ?ph (g + 24576 + 8 * i) = 0"
    by (auto simp: example_phys_def)
  have "{g, g + 4096, g + 8192} \<subseteq> eight_frames g" "{g + 16384, g + 20480, g + 24576} \<subseteq> eight_frames g"
    using L [of 0] L [of 1] L [of 2] L [of 4] L [of 5] L [of 6] by auto
  moreover have "\<forall>t\<in>{g, g + 4096, g + 8192}. t \<noteq> 0 \<and> 4096 dvd t \<and> t < 2 ^ 50"
    "\<forall>t\<in>{g + 16384, g + 20480, g + 24576}. t \<noteq> 0 \<and> 4096 dvd t \<and> t < 2 ^ 50" using assms al by auto
  ultimately have s: "tree_ok ?ph g (eight_frames g)" "tables ?ph g = {g, g + 4096, g + 8192}"
      "\<And>va. pmap ?ph g va = (if PX 2 va = 0 \<and> PX 1 va = 0 \<and> pte_V (?ph (g + 8192 + 8 * PX 0 va)) then Some (?ph (g + 8192 + 8 * PX 0 va)) else None)"
    and d: "tree_ok ?ph (g + 16384) (eight_frames g)" "tables ?ph (g + 16384) = {g + 16384, g + 20480, g + 24576}"
      "\<And>va. pmap ?ph (g + 16384) va = (if PX 2 va = 0 \<and> PX 1 va = 0 \<and> pte_V (?ph (g + 24576 + 8 * PX 0 va)) then Some (?ph (g + 24576 + 8 * PX 0 va)) else None)"
    using chain_tree [of g "g + 4096" "g + 8192" "eight_frames g" ?ph] chain_tree [of "g + 16384" "g + 20480" "g + 24576" "eight_frames g" ?ph] c
    by (simp_all del: node.simps)
  show "two_dirs ?ph (g + 16384) g (eight_frames g)" using s(1,2) d(1,2) by (auto simp: two_dirs_def)
  show "tables ?ph g = {g, g + 4096, g + 8192}" by (rule s(2))
  show "pmap ?ph (g + 16384) = (\<lambda>_. None)" using d(3) c(6) PX_less by (intro ext) simp
  have u: "unat (of_nat (g + 12288) :: u64) = g + 12288" using assms(3) by (simp only: unat_of_nat) (simp add: take_bit_nat_eq_self)
  show e: "entry_ok ?leaf (g + 12288) 1 True False"
    using leaf_entry_ok [of "of_nat (g + 12288)" 1 True False 0] assms(3) unfolding u by simp
  have x: "PX 2 0x1000 = 0" "PX 1 0x1000 = 0" "PX 0 0x1000 = 1" by (simp_all add: PX_nat)
  have "?ph (g + 8192 + 8 * PX 0 0x1000) = ?leaf" unfolding x(3) by (rule trans [OF c(3) [rule_format, of 1]]) simp_all
  moreover have "pte_V ?leaf" using e by (simp only: entry_ok_def)
  ultimately show "pmap ?ph g 0x1000 = Some ?leaf" unfolding s(3) x(1,2) by simp
  show "pmap ?ph g va = None" if "vpn va \<noteq> 1" "va < MAXVA" for va
  proof (rule ccontr)
    assume "pmap ?ph g va \<noteq> None"
    then have "PX 2 va = PX 2 0x1000 \<and> PX 1 va = PX 1 0x1000 \<and> PX 0 va = PX 0 0x1000"
      using s(3) [of va] x c(3) [rule_format, OF PX_less, of 0 va] by (auto split: if_splits)
    then show False using PX_eq_iff [of "0x1000" va] that by (simp add: vpn_def MAXVA_def)
  qed
qed

subsection \<open>Properties\<close>

text \<open>C5: \<open>map_pages\<close> on a well-formed directory returns for every non-empty range outside the
  kernel's gigabyte.  With 0, exactly the pages of the range, all unmapped before, are mapped, page
  by page to consecutive frames with the type and flags asked for; with \<open>-2\<close> a page of the range
  was mapped already; \<open>-1\<close> is the only other result.  The tables stay a tree, and no allocated
  frame that is not a table of this directory is written.\<close>

theorem map_pages_correct:
  assumes "frames_in m L" and "tree_ok ph root L" and "0 < sz" and "unat va + unat sz \<le> 2 ^ 38"
    and "off_kernel (unat va) (unat va + unat sz - 1)" and "unat pa + unat sz + 4096 < 2 ^ 50"
  shows "\<exists>r ph' m' L'. map_pages hart ph m root va pa sz ty user glob = Some (r, ph', m') \<and>
    L \<subseteq> L' \<and> frames_in m' L' \<and> tree_ok ph' root L' \<and>
    (\<forall>a. frame_of a \<in> L - tables ph root \<longrightarrow> ph' a = ph a) \<and>
    (r = 0 \<and> maps_range (pmap ph root) (pmap ph' root) (vpn va) (vpn (va + sz - 1) - vpn va) (unat pa) ty user glob \<or> r = - 1 \<or>
     r = - 2 \<and> (\<exists>vb<MAXVA. vpn va \<le> vpn vb \<and> vpn vb \<le> vpn (va + sz - 1) \<and> pmap ph root vb \<noteq> None))"
proof -
  have "frames_with {} (\<lambda>_. None) (usable_memory_start m) m L" using assms(1) by (simp add: frames_with_def)
  from map_pages_ok [OF this assms(2-6), of hart ty user glob] show ?thesis
    unfolding frames_with_def table_step_def by blast
qed

theorem map_pages_correct_witness:
  "\<exists>g m r ph' m'. map_pages 0 (example_phys g) m g 0x2000 0x90000000 0x1800 3 True False = Some (r, ph', m') \<and>
    (r = 0 \<and> maps_range (pmap (example_phys g) g) (pmap ph' g) 2 1 0x90000000 3 True False \<or> r = - 1)"
proof -
  obtain m g where g: "frames_in m (eight_frames g)" "4096 dvd g" "g \<noteq> 0" "g + 32768 \<le> 2 ^ 38" using boot_eight by blast
  note ex = example_tables [OF g(2-4)]
  have t: "tree_ok (example_phys g) g (eight_frames g)" using ex(1) by (simp add: two_dirs_def)
  have v: "vpn 0x2000 = 2" "vpn (0x2000 + 0x1800 - 1) = 3" by (simp_all add: vpn_def)
  from map_pages_correct [OF g(1) t, of "0x1800" "0x2000" "0x90000000" 0 3 True False, unfolded v] obtain r ph' m' where
    "map_pages 0 (example_phys g) m g 0x2000 0x90000000 0x1800 3 True False = Some (r, ph', m')"
    "r = 0 \<and> maps_range (pmap (example_phys g) g) (pmap ph' g) 2 1 0x90000000 3 True False \<or> r = - 1 \<or>
     r = - 2 \<and> (\<exists>vb<MAXVA. 2 \<le> vpn vb \<and> vpn vb \<le> 3 \<and> pmap (example_phys g) g vb \<noteq> None)"
    by (simp add: off_kernel_def) blast
  moreover have "\<not> (\<exists>vb<MAXVA. 2 \<le> vpn vb \<and> vpn vb \<le> 3 \<and> pmap (example_phys g) g vb \<noteq> None)" using ex(3) by auto
  ultimately show ?thesis by blast
qed





text \<open>C7: a write fault on a page without write permission.  If the page's frame has reference count
  one, write permission is added in place.  Otherwise a frame that was free receives a copy of the
  page's contents and the page is mapped to it with write permission and a count of one, while the
  old frame's count drops by one; when no frame is left the result is \<open>-2\<close> and nothing has
  changed.  No other page's mapping changes.\<close>

theorem do_pagefault_resolves:
  assumes "frames_in m L" and "tree_ok ph pde L" and "unat va < 0x80000000" and "pmap ph pde va = Some e"
    and "unat (pte_pa e) \<in> L" and "unat (pte_pa e) \<notin> tables ph pde" and "pte_Type e AND 2 = 0" and "umem \<or> \<not> from_kernel"
  shows "if get_page_reference m (unat (pte_pa e)) = Some 1
    then \<exists>ph' e'. do_pagefault hart ph m umem (Some pde) va pde from_kernel = Some (0, umem, ph', m) \<and> tree_ok ph' pde L \<and>
      (\<forall>vb<MAXVA. pmap ph' pde vb = (if vpn vb = vpn va then Some e' else pmap ph pde vb)) \<and>
      pte_Type e' = pte_Type e OR 2 \<and> pte_U e' = pte_U e \<and> pte_pa e' = pte_pa e \<and>
      (\<forall>a. frame_of a \<notin> tables ph pde \<longrightarrow> ph' a = ph a)
    else (\<exists>m'. do_pagefault hart ph m umem (Some pde) va pde from_kernel = Some (- 2, umem, ph, m') \<and> frames_in m' L) \<or>
      (\<exists>g ph' m' e' c. do_pagefault hart ph m umem (Some pde) va pde from_kernel = Some (0, umem, ph', m') \<and>
        g \<notin> L \<and> frames_in m' (insert g L) \<and> tree_ok ph' pde (insert g L) \<and>
        (\<forall>vb<MAXVA. pmap ph' pde vb = (if vpn vb = vpn va then Some e' else pmap ph pde vb)) \<and>
        pte_Type e' = pte_Type e OR 2 \<and> pte_U e' = pte_U e \<and> unat (pte_pa e') = g \<and>
        get_page_reference m' g = Some 1 \<and> get_page_reference m (unat (pte_pa e)) = Some (unat (c :: u16)) \<and>
        get_page_reference m' (unat (pte_pa e)) = Some (unat (c - 1)) \<and>
        (\<forall>i<512. ph' (g + 8 * i) = ph (unat (pte_pa e) + 8 * i)) \<and>
        (\<forall>a. frame_of a \<notin> tables ph pde \<longrightarrow> frame_of a \<noteq> g \<longrightarrow> ph' a = ph a))"
proof -
  obtain c :: u16 where c: "get_page_reference m (unat (pte_pa e)) = Some (unat c)" using frames_ref [OF assms(1,5)] by blast
  show ?thesis
  proof (cases "c = 1")
    case True
    then show ?thesis using pagefault_in_place [OF assms, of hart] c by simp
  next
    case False
    then have "get_page_reference m (unat (pte_pa e)) \<noteq> Some 1" using c by (metis option.inject unat_1 word_unat_eq_iff)
    then show ?thesis using pagefault_copies [OF assms c False, of hart] c by (simp only: if_False) blast
  qed
qed

theorem do_pagefault_resolves_witness:
  "\<exists>g m ph' e'. do_pagefault 0 (example_phys g) m True (Some g) 0x1234 g False = Some (0, True, ph', m) \<and>
    pmap ph' g 0x1234 = Some e' \<and> pte_Type e' = 3 \<and> unat (pte_pa e') = g + 12288"
proof -
  obtain m g where g: "frames_in m (eight_frames g)" "4096 dvd g" "g \<noteq> 0" "g + 32768 \<le> 2 ^ 38"
    "\<forall>f\<in>eight_frames g. get_page_reference m f = Some 1" using boot_eight by blast
  note ex = example_tables [OF g(2-4)]
  let ?e = "leaf_entry (of_nat (g + 12288)) 1 True False 0"
  have t: "tree_ok (example_phys g) g (eight_frames g)" using ex(1) by (simp add: two_dirs_def)
  have d: "g + 12288 \<in> eight_frames g" by (auto simp: eight_frames_def intro!: image_eqI [of _ _ 3])
  have "(g + 12288) div 4096 * 4096 = g + 12288" using g(2) by (auto elim!: dvdE)
  then have pa: "unat (pte_pa ?e) = g + 12288" "pte_Type ?e = 1" using ex(6) by (simp_all add: entry_ok_def)
  have p: "pmap (example_phys g) g 0x1234 = Some ?e"
    using pmap_vpn [of "0x1000" "0x1234" "example_phys g" g] ex(2) by (simp add: vpn_def MAXVA_def)
  from do_pagefault_resolves [OF g(1) t _ p, of True False 0] pa d g(5) ex(5) obtain ph' e' where
    "do_pagefault 0 (example_phys g) m True (Some g) 0x1234 g False = Some (0, True, ph', m)"
    "\<forall>vb<MAXVA. pmap ph' g vb = (if vpn vb = vpn 0x1234 then Some e' else pmap (example_phys g) g vb)"
    "pte_Type e' = 3" "pte_pa e' = pte_pa ?e" by auto
  moreover from this(2) have "pmap ph' g 0x1234 = Some e'" by (simp add: MAXVA_def)
  ultimately show ?thesis using pa(1) by metis
qed

end
