(* ===== verification/Ring.thy ===== *)
theory Ring
  imports Prelude
begin

text \<open>
  Bounded byte queues as an interface, and the two loops the drivers run on them: \<open>drain\<close>
  takes elements until enough are taken or the queue is empty, \<open>fill\<close> puts elements until
  none is left or the queue is full.  The pipe buffer and the console's receive buffer provide it.
\<close>

fun drain :: "('s \<Rightarrow> bool) \<Rightarrow> ('s \<Rightarrow> 'a \<times> 's) \<Rightarrow> nat \<Rightarrow> 's \<Rightarrow> 'a list \<times> 's" where
  "drain emp get 0 s = ([], s)"
| "drain emp get (Suc n) s =
    (if emp s then ([], s)
     else let (x, s) = get s; (xs, s) = drain emp get n s in (x # xs, s))"

fun fill :: "('s \<Rightarrow> bool) \<Rightarrow> ('a \<Rightarrow> 's \<Rightarrow> 's) \<Rightarrow> 'a list \<Rightarrow> 's \<Rightarrow> 'a list \<times> 's" where
  "fill full put [] s = ([], s)"
| "fill full put (x # xs) s = (if full s then (x # xs, s) else fill full put xs (put x s))"

locale bounded_fifo =
  fixes ok :: "'s \<Rightarrow> bool"
    and content :: "'s \<Rightarrow> 'a list"
    and cap :: nat
    and emp :: "'s \<Rightarrow> bool"
    and full :: "'s \<Rightarrow> bool"
    and put :: "'a \<Rightarrow> 's \<Rightarrow> 's"
    and get :: "'s \<Rightarrow> 'a \<times> 's"
  assumes bound: "ok s \<Longrightarrow> length (content s) \<le> cap"
    and empty_iff: "ok s \<Longrightarrow> emp s \<longleftrightarrow> content s = []"
    and full_iff: "ok s \<Longrightarrow> full s \<longleftrightarrow> length (content s) = cap"
    and put_content: "ok s \<Longrightarrow> length (content s) < cap \<Longrightarrow> ok (put x s) \<and> content (put x s) = content s @ [x]"
    and get_content: "ok s \<Longrightarrow> content s \<noteq> [] \<Longrightarrow>
      fst (get s) = hd (content s) \<and> ok (snd (get s)) \<and> content (snd (get s)) = tl (content s)"
begin

lemma drain_content:
  "ok s \<Longrightarrow> \<exists>s'. drain emp get n s = (take n (content s), s') \<and> ok s' \<and> content s' = drop n (content s)"
proof (induction n arbitrary: s)
  case (Suc n)
  show ?case
  proof (cases "content s")
    case Nil
    then show ?thesis using Suc.prems empty_iff by simp
  next
    case (Cons x xs)
    then have "\<not> emp s" "fst (get s) = x" "ok (snd (get s))" "content (snd (get s)) = xs"
      using Suc.prems empty_iff get_content [of s] by auto
    then show ?thesis using Suc.IH [of "snd (get s)"] Cons by (auto simp: split_beta Let_def)
  qed
qed simp

lemma fill_content:
  "ok s \<Longrightarrow> \<exists>s'. fill full put xs s = (drop (cap - length (content s)) xs, s') \<and> ok s' \<and>
    content s' = content s @ take (cap - length (content s)) xs"
proof (induction xs arbitrary: s)
  case (Cons x xs)
  show ?case
  proof (cases "full s")
    case True
    then show ?thesis using Cons.prems full_iff by simp
  next
    case False
    then have lt: "length (content s) < cap" using Cons.prems bound [of s] full_iff [of s] by auto
    then have p: "ok (put x s)" "content (put x s) = content s @ [x]" using put_content Cons.prems by auto
    have "cap - length (content s) = Suc (cap - Suc (length (content s)))" using lt by simp
    then show ?thesis using Cons.IH [OF p(1)] p(2) False by auto
  qed
qed simp

text \<open>What is taken and what stays is what was there: nothing is lost, duplicated or reordered.\<close>

lemma drain_split:
  "ok s \<Longrightarrow> drain emp get n s = (xs, s') \<Longrightarrow> content s = xs @ content s' \<and> ok s' \<and> length xs = min n (length (content s))"
  using drain_content [of s n] by auto

lemma fill_split:
  assumes "ok s" and "fill full put xs s = (rest, s')"
  shows "\<exists>done. xs = done @ rest \<and> content s' = content s @ done \<and> ok s' \<and>
    (rest = [] \<or> length (content s') = cap)"
proof -
  let ?k = "cap - length (content s)"
  have "rest = drop ?k xs" "ok s'" "content s' = content s @ take ?k xs"
    using fill_content [OF assms(1), of xs] assms(2) by auto
  moreover have "rest = [] \<or> length (content s') = cap"
    using calculation bound [OF assms(1)] by (cases "length xs \<le> ?k") auto
  ultimately show ?thesis by (metis append_take_drop_id)
qed

end

end
