(* ===== verification/Pipe.thy ===== *)
theory Pipe
  imports Ring Spinlock
begin

text \<open>
  \<open>kernel/dev/pipe/pipe.c\<close>.  A call that has to sleep gives up the lock and starts over (the
  reader) or goes on where it was (the writer) when it is woken: \<open>pipe_read\<close> and
  \<open>pipe_write\<close> are the stretch from taking the lock to giving it up, with \<open>Asleep\<close> as one
  of their results, and the interleaving of several callers is a sequence of such stretches.
\<close>

definition PIPE_SIZE :: nat where
  "PIPE_SIZE = 512"

definition O_RDONLY :: u32 where "O_RDONLY = 0"

definition O_WRONLY :: u32 where "O_WRONLY = 1"

definition O_RDWR :: u32 where "O_RDWR = 2"

record pipe =
  p_lock :: spinlock
  nread :: u64
  nwrite :: u64
  read_open :: bool
  write_open :: bool
  p_data :: "u8 list"

text \<open>The addresses \<open>&pipe->nread\<close> and \<open>&pipe->nwrite\<close> as wait channels.\<close>

datatype pipe_chan = NREAD | NWRITE

datatype pipe_result = Ret int | Asleep pipe_chan nat

definition pipe_get :: "pipe \<Rightarrow> u8 \<times> pipe" where
  "pipe_get p = (p_data p ! (unat (nread p) mod PIPE_SIZE), p\<lparr>nread := nread p + 1\<rparr>)"

definition pipe_put :: "u8 \<Rightarrow> pipe \<Rightarrow> pipe" where
  "pipe_put c p = p\<lparr>p_data := (p_data p)[unat (nwrite p) mod PIPE_SIZE := c], nwrite := nwrite p + 1\<rparr>"

definition pipe_empty :: "pipe \<Rightarrow> bool" where
  "pipe_empty p \<longleftrightarrow> nread p = nwrite p"

definition pipe_full :: "pipe \<Rightarrow> bool" where
  "pipe_full p \<longleftrightarrow> nwrite p = nread p + of_nat PIPE_SIZE"

text \<open>The pipe \<open>pipe_create\<close> sets up in fresh zeroed memory.\<close>

definition new_pipe :: pipe where
  "new_pipe = \<lparr>p_lock = \<lparr>sl_lock = False, sl_cpu = 0\<rparr>, nread = 0, nwrite = 0, read_open = True,
     write_open = True, p_data = replicate PIPE_SIZE 0\<rparr>"

text \<open>Results: what the call does next, the bytes copied out, the channels woken, the pipe.\<close>

definition pipe_read :: "nat \<Rightarrow> u32 \<Rightarrow> pipe \<Rightarrow> nat \<Rightarrow> (pipe_result \<times> u8 list \<times> pipe_chan list \<times> pipe) option" where
  "pipe_read hart f_mode p len =
    (if f_mode \<noteq> O_RDONLY then Some (Ret (- 1), [], [], p)
     else do {
       l \<leftarrow> lock_acquire hart (p_lock p);
       let p = p\<lparr>p_lock := l\<rparr>;
       if pipe_empty p \<and> write_open p then do {
         l \<leftarrow> lock_release hart (p_lock p);
         Some (Asleep NREAD 0, [], [], p\<lparr>p_lock := l\<rparr>) }
       else do {
         let (bs, p) = drain pipe_empty pipe_get len p;
         l \<leftarrow> lock_release hart (p_lock p);
         Some (Ret (int (length bs)), bs, [NWRITE], p\<lparr>p_lock := l\<rparr>) } })"

definition pipe_write :: "nat \<Rightarrow> u32 \<Rightarrow> pipe \<Rightarrow> u8 list \<Rightarrow> nat \<Rightarrow> (pipe_result \<times> pipe_chan list \<times> pipe) option" where
  "pipe_write hart f_mode p buffer i =
    (if f_mode \<noteq> O_WRONLY then Some (Ret (- 1), [], p)
     else do {
       l \<leftarrow> lock_acquire hart (p_lock p);
       let (rest, p) = fill pipe_full pipe_put (drop i buffer) (p\<lparr>p_lock := l\<rparr>);
       l \<leftarrow> lock_release hart (p_lock p);
       let p = p\<lparr>p_lock := l\<rparr>;
       if rest = [] then Some (Ret (int (length buffer)), [NREAD], p)
       else if \<not> read_open p then Some (Ret (- 1), [], p)
       else Some (Asleep NWRITE (length buffer - length rest), [NREAD], p) })"

text \<open>\<open>None\<close> as the second component: the last end was closed and the pipe is freed.\<close>

definition pipe_close :: "nat \<Rightarrow> u32 \<Rightarrow> pipe \<Rightarrow> (pipe_chan list \<times> pipe option) option" where
  "pipe_close hart f_mode p = do {
     l \<leftarrow> lock_acquire hart (p_lock p);
     let p = p\<lparr>p_lock := l\<rparr>;
     let (w, p) = (if f_mode = O_WRONLY then ([NREAD], p\<lparr>write_open := False\<rparr>)
                   else ([NWRITE], p\<lparr>read_open := False\<rparr>));
     l \<leftarrow> lock_release hart (p_lock p);
     Some (w, if read_open p = False \<and> write_open p = False then None else Some (p\<lparr>p_lock := l\<rparr>)) }"

subsection \<open>The buffer is a queue\<close>

definition pipe_count :: "pipe \<Rightarrow> nat" where
  "pipe_count p = unat (nwrite p - nread p)"

definition pipe_content :: "pipe \<Rightarrow> u8 list" where
  "pipe_content p = map (\<lambda>j. p_data p ! ((unat (nread p) + j) mod PIPE_SIZE)) [0..<pipe_count p]"

definition pipe_ok :: "pipe \<Rightarrow> bool" where
  "pipe_ok p \<longleftrightarrow> length (p_data p) = PIPE_SIZE \<and> pipe_count p \<le> PIPE_SIZE"

lemma unat_succ_mod: "unat (w + 1 :: u64) mod 512 = Suc (unat w) mod 512"
proof -
  have "unat (w + 1) = (unat w + 1) mod 2 ^ 64" by (simp add: unat_word_ariths)
  moreover have "(512 :: nat) dvd 2 ^ 64" by (simp add: dvd_def)
  ultimately show ?thesis by (simp only: mod_mod_cancel) simp
qed

lemma pipe_count_put:
  "pipe_count p < 2 ^ 64 - 1 \<Longrightarrow> pipe_count (pipe_put c p) = Suc (pipe_count p)"
proof -
  assume a: "pipe_count p < 2 ^ 64 - 1"
  have "nwrite (pipe_put c p) - nread (pipe_put c p) = (nwrite p - nread p) + 1"
    by (simp add: pipe_put_def)
  then show ?thesis using a by (simp add: pipe_count_def unat_word_ariths)
qed

lemma pipe_count_get:
  "0 < pipe_count p \<Longrightarrow> pipe_count (snd (pipe_get p)) = pipe_count p - 1"
proof -
  assume a: "0 < pipe_count p"
  have "nwrite (snd (pipe_get p)) - nread (snd (pipe_get p)) = (nwrite p - nread p) - 1"
    by (simp add: pipe_get_def)
  moreover have "nwrite p - nread p \<noteq> 0" using a by (auto simp: pipe_count_def)
  ultimately show ?thesis by (simp add: pipe_count_def unat_minus_one)
qed

lemma len64: "LENGTH(64) = 64"
  by simp

lemma pipe_nwrite_index:
  "unat (nwrite p) mod 512 = (unat (nread p) + pipe_count p) mod 512"
proof -
  have "nwrite p = nread p + (nwrite p - nread p)" by simp
  then have "unat (nwrite p) = (unat (nread p) + pipe_count p) mod 2 ^ 64"
    unfolding pipe_count_def by (metis unat_word_ariths(1) len64)
  moreover have "(512 :: nat) dvd 2 ^ 64" by (simp add: dvd_def)
  ultimately show ?thesis by (simp only: mod_mod_cancel)
qed


lemma pipe_put_content:
  assumes "pipe_ok p" and "length (pipe_content p) < PIPE_SIZE"
  shows "pipe_ok (pipe_put c p) \<and> pipe_content (pipe_put c p) = pipe_content p @ [c]"
proof -
  let ?n = "pipe_count p"
  have n: "?n < 512" "length (p_data p) = 512"
    using assms by (simp_all add: pipe_content_def pipe_ok_def PIPE_SIZE_def)
  then have cnt: "pipe_count (pipe_put c p) = Suc ?n" by (intro pipe_count_put) simp
  have ne: "(unat (nread p) + j) mod 512 \<noteq> (unat (nread p) + ?n) mod 512" if "j < ?n" for j
  proof
    assume "(unat (nread p) + j) mod 512 = (unat (nread p) + ?n) mod 512"
    then have "(512::nat) dvd ?n - j"
      using that by (metis add_diff_cancel_left mod_eq_dvd_iff_nat add_left_mono less_imp_le)
    then show False using that n(1) by (auto dest!: dvd_imp_le)
  qed
  have "map (\<lambda>j. p_data (pipe_put c p) ! ((unat (nread p) + j) mod 512)) [0..<?n]
      = map (\<lambda>j. p_data p ! ((unat (nread p) + j) mod 512)) [0..<?n]"
    by (intro map_cong) (simp_all add: pipe_put_def PIPE_SIZE_def pipe_nwrite_index nth_list_update_neq [OF ne [THEN not_sym]])
  moreover have "p_data (pipe_put c p) ! ((unat (nread p) + ?n) mod 512) = c"
    using n(2) by (simp add: pipe_put_def PIPE_SIZE_def pipe_nwrite_index)
  moreover have "nread (pipe_put c p) = nread p" by (simp add: pipe_put_def)
  ultimately show ?thesis
    using n cnt by (simp add: pipe_content_def pipe_ok_def PIPE_SIZE_def) (simp add: pipe_put_def)
qed

lemma pipe_get_content:
  assumes "pipe_ok p" and "pipe_content p \<noteq> []"
  shows "fst (pipe_get p) = hd (pipe_content p) \<and> pipe_ok (snd (pipe_get p)) \<and>
    pipe_content (snd (pipe_get p)) = tl (pipe_content p)"
proof -
  let ?n = "pipe_count p"
  have n: "0 < ?n" using assms(2) by (simp add: pipe_content_def)
  then have cnt: "pipe_count (snd (pipe_get p)) = ?n - 1" by (rule pipe_count_get)
  have up: "[0..<?n] = 0 # map Suc [0..<?n - 1]" using n by (metis Suc_pred' map_Suc_upt upt_conv_Cons)
  have "(unat (nread p + 1) + j) mod 512 = (unat (nread p) + Suc j) mod 512" for j
    using unat_succ_mod [of "nread p"] by (metis add_Suc_right add_Suc mod_add_left_eq)
  then have "pipe_content (snd (pipe_get p)) = tl (pipe_content p)"
    unfolding pipe_content_def cnt by (simp add: up pipe_get_def PIPE_SIZE_def)
  moreover have "fst (pipe_get p) = hd (pipe_content p)"
    by (simp add: pipe_content_def up pipe_get_def)
  moreover have "pipe_ok (snd (pipe_get p))"
  proof -
    have "p_data (snd (pipe_get p)) = p_data p" by (simp add: pipe_get_def)
    then show ?thesis using assms(1) cnt by (auto simp: pipe_ok_def)
  qed
  ultimately show ?thesis by simp
qed

interpretation pq: bounded_fifo pipe_ok pipe_content PIPE_SIZE pipe_empty pipe_full pipe_put pipe_get
proof
  show "length (pipe_content p) \<le> PIPE_SIZE" if "pipe_ok p" for p
    using that by (simp add: pipe_ok_def pipe_content_def)
  show "pipe_empty p = (pipe_content p = [])" if "pipe_ok p" for p
    by (auto simp: pipe_empty_def pipe_content_def pipe_count_def unsigned_eq_0_iff)
  show "pipe_full p = (length (pipe_content p) = PIPE_SIZE)" if "pipe_ok p" for p
  proof -
    have "nwrite p = nread p + of_nat PIPE_SIZE \<longleftrightarrow> nwrite p - nread p = of_nat PIPE_SIZE" by (auto simp: algebra_simps)
    also have "\<dots> \<longleftrightarrow> unat (nwrite p - nread p) = PIPE_SIZE" by (auto simp: PIPE_SIZE_def word_unat_eq_iff)
    finally show ?thesis by (simp add: pipe_full_def pipe_content_def pipe_count_def)
  qed
qed (rule pipe_put_content pipe_get_content; assumption)+

subsection \<open>Readers and writers\<close>

text \<open>One stretch of a call leaves everything but the buffer alone.\<close>

lemma drain_frame:
  "drain pipe_empty pipe_get n p = (bs, q) \<Longrightarrow>
    p_lock q = p_lock p \<and> read_open q = read_open p \<and> write_open q = write_open p"
  by (induction n arbitrary: p bs) (auto simp: pipe_get_def Let_def split: if_splits prod.splits)

lemma fill_frame:
  "fill pipe_full pipe_put xs p = (rest, q) \<Longrightarrow>
    p_lock q = p_lock p \<and> read_open q = read_open p \<and> write_open q = write_open p"
  by (induction xs arbitrary: p) (auto simp: pipe_put_def split: if_splits)

lemma pipe_ok_lock [simp]: "pipe_ok (p\<lparr>p_lock := l\<rparr>) = pipe_ok p" "pipe_content (p\<lparr>p_lock := l\<rparr>) = pipe_content p"
  "pipe_empty (p\<lparr>p_lock := l\<rparr>) = pipe_empty p"
  by (simp_all add: pipe_ok_def pipe_content_def pipe_count_def pipe_empty_def)

lemma pipe_ok_ends [simp]:
  "pipe_ok (p\<lparr>write_open := b\<rparr>) = pipe_ok p" "pipe_content (p\<lparr>write_open := b\<rparr>) = pipe_content p"
  "pipe_ok (p\<lparr>read_open := b\<rparr>) = pipe_ok p" "pipe_content (p\<lparr>read_open := b\<rparr>) = pipe_content p"
  by (simp_all add: pipe_ok_def pipe_content_def pipe_count_def)

definition pipe_idle :: "pipe \<Rightarrow> bool" where
  "pipe_idle p \<longleftrightarrow> pipe_ok p \<and> \<not> sl_lock (p_lock p)"

lemma pipe_read_cases:
  assumes "pipe_idle p"
  shows "\<exists>p'. pipe_idle p' \<and> read_open p' = read_open p \<and> write_open p' = write_open p \<and>
    (if pipe_content p = [] \<and> write_open p
     then pipe_read hart O_RDONLY p len = Some (Asleep NREAD 0, [], [], p') \<and> pipe_content p' = []
     else pipe_read hart O_RDONLY p len = Some (Ret (int (min len (length (pipe_content p)))), take len (pipe_content p), [NWRITE], p') \<and>
       pipe_content p' = drop len (pipe_content p))"
proof -
  let ?l = "(p_lock p)\<lparr>sl_lock := True, sl_cpu := hart\<rparr>" and ?l' = "(p_lock p)\<lparr>sl_lock := False, sl_cpu := 0\<rparr>"
  have ok: "pipe_ok (p\<lparr>p_lock := ?l\<rparr>)" and acq: "lock_acquire hart (p_lock p) = Some ?l"
    using assms by (simp_all add: pipe_idle_def lock_acquire_free)
  have rel: "lock_release hart ?l = Some ?l'" by (rule lock_release_held)
  obtain q where q: "drain pipe_empty pipe_get len (p\<lparr>p_lock := ?l\<rparr>) = (take len (pipe_content p), q)" "pipe_ok q"
    "pipe_content q = drop len (pipe_content p)" using pq.drain_content [OF ok, of len] by auto
  have fr: "p_lock q = ?l" "read_open q = read_open p" "write_open q = write_open p"
    using drain_frame [OF q(1)] by simp_all
  have e: "pipe_empty p \<longleftrightarrow> pipe_content p = []" using pq.empty_iff assms by (simp add: pipe_idle_def)
  show ?thesis
  proof (cases "pipe_content p = [] \<and> write_open p")
    case True
    then show ?thesis using assms acq rel e
      by (intro exI [of _ "p\<lparr>p_lock := ?l'\<rparr>"]) (simp add: pipe_read_def pipe_idle_def)
  next
    case False
    then show ?thesis using acq rel e q fr
      by (intro exI [of _ "q\<lparr>p_lock := ?l'\<rparr>"]) (auto simp: pipe_read_def pipe_idle_def min.commute)
  qed
qed

lemma pipe_write_cases:
  assumes "pipe_idle p"
  shows "\<exists>p' done rest. pipe_idle p' \<and> read_open p' = read_open p \<and> write_open p' = write_open p \<and>
    drop i buffer = done @ rest \<and> pipe_content p' = pipe_content p @ done \<and>
    (rest = [] \<or> length (pipe_content p') = PIPE_SIZE) \<and>
    pipe_write hart O_WRONLY p buffer i =
      Some (if rest = [] then (Ret (int (length buffer)), [NREAD], p')
        else if \<not> read_open p then (Ret (- 1), [], p')
        else (Asleep NWRITE (length buffer - length rest), [NREAD], p'))"
proof -
  let ?l = "(p_lock p)\<lparr>sl_lock := True, sl_cpu := hart\<rparr>" and ?l' = "(p_lock p)\<lparr>sl_lock := False, sl_cpu := 0\<rparr>"
  have ok: "pipe_ok (p\<lparr>p_lock := ?l\<rparr>)" and acq: "lock_acquire hart (p_lock p) = Some ?l"
    using assms by (simp_all add: pipe_idle_def lock_acquire_free)
  have rel: "lock_release hart ?l = Some ?l'" by (rule lock_release_held)
  obtain rest q where q: "fill pipe_full pipe_put (drop i buffer) (p\<lparr>p_lock := ?l\<rparr>) = (rest, q)" by fastforce
  from pq.fill_split [OF ok q] obtain d where d: "drop i buffer = d @ rest"
    "pipe_content q = pipe_content p @ d" "pipe_ok q" "rest = [] \<or> length (pipe_content q) = PIPE_SIZE" by auto
  have fr: "p_lock q = ?l" "read_open q = read_open p" "write_open q = write_open p"
    using fill_frame [OF q] by simp_all
  show ?thesis
    using acq rel q d fr
    by (intro exI [of _ "q\<lparr>p_lock := ?l'\<rparr>"] exI [of _ d] exI [of _ rest]) (auto simp: pipe_write_def pipe_idle_def)
qed


text \<open>Any number of readers and writers on one pipe, at the grain of the lock: \<open>written\<close> is
  everything put into the pipe so far and \<open>got\<close> everything handed to readers.\<close>

record pipe_sys =
  the_pipe :: pipe
  written :: "u8 list"
  got :: "u8 list"

inductive pipe_step :: "pipe_sys \<Rightarrow> pipe_sys \<Rightarrow> bool" where
  rd: "pipe_read hart O_RDONLY (the_pipe s) len = Some (r, bs, w, p') \<Longrightarrow>
    pipe_step s (s\<lparr>the_pipe := p', got := got s @ bs\<rparr>)"
| wr: "pipe_write hart O_WRONLY (the_pipe s) buffer i = Some (r, w, p') \<Longrightarrow>
    n = (case r of Asleep _ j \<Rightarrow> j - i | Ret c \<Rightarrow> if 0 \<le> c then length buffer - i else PIPE_SIZE - length (pipe_content (the_pipe s))) \<Longrightarrow>
    pipe_step s (s\<lparr>the_pipe := p', written := written s @ take n (drop i buffer)\<rparr>)"
| cl: "pipe_close hart m (the_pipe s) = Some (w, Some p') \<Longrightarrow> pipe_step s (s\<lparr>the_pipe := p'\<rparr>)"

inductive pipe_reachable :: "pipe_sys \<Rightarrow> bool" where
  init: "pipe_reachable \<lparr>the_pipe = new_pipe, written = [], got = []\<rparr>"
| step: "pipe_reachable s \<Longrightarrow> pipe_step s t \<Longrightarrow> pipe_reachable t"

definition pipe_sys_inv :: "pipe_sys \<Rightarrow> bool" where
  "pipe_sys_inv s \<longleftrightarrow> pipe_idle (the_pipe s) \<and> written s = got s @ pipe_content (the_pipe s)"

lemma new_pipe_idle: "pipe_idle new_pipe" "pipe_content new_pipe = []"
  by (simp_all add: pipe_idle_def new_pipe_def pipe_ok_def pipe_count_def pipe_content_def)

lemma pipe_close_cases:
  assumes "pipe_idle p" and "pipe_close hart m p = Some (w, Some p')"
  shows "pipe_idle p' \<and> pipe_content p' = pipe_content p"
  using assms by (auto simp: pipe_close_def pipe_idle_def option_steps lock_steps Let_def split: if_splits)

lemma pipe_step_inv: "pipe_step s t \<Longrightarrow> pipe_sys_inv s \<Longrightarrow> pipe_sys_inv t"
proof (induction rule: pipe_step.induct)
  case (rd hart s len r bs w p')
  then have "pipe_idle (the_pipe s)" by (simp add: pipe_sys_inv_def)
  from pipe_read_cases [OF this, of hart len] rd show ?case
    by (auto simp: pipe_sys_inv_def split: if_splits)
next
  case (wr hart s buffer i r w p' n)
  then have idle: "pipe_idle (the_pipe s)" by (simp add: pipe_sys_inv_def)
  from pipe_write_cases [OF this, of i buffer hart] wr(1) obtain d rest where
    p': "pipe_idle p'" "drop i buffer = d @ rest" "pipe_content p' = pipe_content (the_pipe s) @ d"
    "rest = [] \<or> length (pipe_content p') = PIPE_SIZE"
    "r = (if rest = [] then Ret (int (length buffer)) else if \<not> read_open (the_pipe s) then Ret (- 1)
       else Asleep NWRITE (length buffer - length rest))"
    by (fastforce split: if_splits)
  have len: "length buffer - i = length d + length rest" using arg_cong [OF p'(2), of length] by simp
  have "take n (drop i buffer) = d"
    using wr(2) p' len by (auto split: if_splits)
  then show ?case using wr(3) p' by (simp add: pipe_sys_inv_def)
next
  case (cl hart m s w p')
  then show ?case using pipe_close_cases [of "the_pipe s"] by (simp add: pipe_sys_inv_def)
qed

lemma pipe_reachable_inv: "pipe_reachable s \<Longrightarrow> pipe_sys_inv s"
  by (induction rule: pipe_reachable.induct) (auto simp: pipe_sys_inv_def new_pipe_idle pipe_step_inv dest: pipe_step_inv)


lemma pipe_write_fits:
  assumes "pipe_idle p" and "length (pipe_content p) + length buffer < PIPE_SIZE"
  shows "\<exists>p'. pipe_write hart O_WRONLY p buffer 0 = Some (Ret (int (length buffer)), [NREAD], p') \<and>
    pipe_idle p' \<and> pipe_content p' = pipe_content p @ buffer"
proof -
  obtain p' d rest where p': "pipe_idle p'" "buffer = d @ rest" "pipe_content p' = pipe_content p @ d"
    "rest = [] \<or> length (pipe_content p') = PIPE_SIZE"
    "pipe_write hart O_WRONLY p buffer 0 =
      Some (if rest = [] then (Ret (int (length buffer)), [NREAD], p')
        else if \<not> read_open p then (Ret (- 1), [], p')
        else (Asleep NWRITE (length buffer - length rest), [NREAD], p'))"
    using pipe_write_cases [OF assms(1), of 0 buffer hart] by auto
  have "rest = []" using p'(2,3,4) assms(2) by auto
  with p' show ?thesis by auto
qed

subsection \<open>Properties\<close>

text \<open>C24: a pipe is a lossless queue under every interleaving of readers, writers and closes:
  what readers got, followed by what is still buffered, is exactly what writers put in, in order;
  and no more than \<open>PIPE_SIZE\<close> bytes are ever buffered.\<close>

theorem pipe_is_fifo:
  assumes "pipe_reachable s"
  shows "written s = got s @ pipe_content (the_pipe s) \<and> length (pipe_content (the_pipe s)) \<le> PIPE_SIZE"
  using pipe_reachable_inv [OF assms] pq.bound by (simp add: pipe_sys_inv_def pipe_idle_def)

theorem pipe_is_fifo_witness:
  "\<exists>s. pipe_reachable s \<and> written s = [7, 8, 9] \<and> got s = [7, 8] \<and>
    written s = got s @ pipe_content (the_pipe s)"
proof -
  obtain p1 where p1: "pipe_write 0 O_WRONLY new_pipe [7, 8, 9] 0 = Some (Ret 3, [NREAD], p1)"
    "pipe_idle p1" "pipe_content p1 = [7, 8, 9]"
    using pipe_write_fits [OF new_pipe_idle(1), of "[7, 8, 9]" 0] new_pipe_idle(2) by (auto simp: PIPE_SIZE_def)
  obtain p2 where p2: "pipe_read 1 O_RDONLY p1 2 = Some (Ret 2, [7, 8], [NWRITE], p2)"
    using pipe_read_cases [OF p1(2), of 1 2] p1(3) by auto
  let ?s0 = "\<lparr>the_pipe = new_pipe, written = [], got = []\<rparr>"
  let ?s1 = "\<lparr>the_pipe = p1, written = [7, 8, 9], got = []\<rparr>"
  let ?s2 = "\<lparr>the_pipe = p2, written = [7, 8, 9], got = [7, 8]\<rparr>"
  have "pipe_reachable ?s1"
    using pipe_reachable.step [OF pipe_reachable.init pipe_step.wr [of 0 ?s0 "[7, 8, 9]" 0, OF _ refl]] p1(1) by simp
  then have r: "pipe_reachable ?s2"
    using pipe_reachable.step [OF _ pipe_step.rd [of 1 ?s1 2]] p2 by simp
  from pipe_is_fifo [OF r] r show ?thesis by (intro exI [of _ ?s2]) simp
qed

text \<open>A read goes to sleep exactly when the pipe is empty and still has a writer.  Otherwise it
  returns at once with the next bytes, as many as there are up to the length asked for (none, the
  end of file, when the writer is gone), and wakes the writers.\<close>

lemma pipe_read_result:
  assumes "pipe_idle p"
  shows "\<exists>p'. pipe_idle p' \<and>
    (if pipe_content p = [] \<and> write_open p
     then pipe_read hart O_RDONLY p len = Some (Asleep NREAD 0, [], [], p') \<and> pipe_content p' = []
     else pipe_read hart O_RDONLY p len
         = Some (Ret (int (min len (length (pipe_content p)))), take len (pipe_content p), [NWRITE], p') \<and>
       pipe_content p' = drop len (pipe_content p))"
  using pipe_read_cases [OF assms, of hart len] by blast

text \<open>A write puts its bytes in order until they are all in (and then returns the length of the
  buffer), or until the pipe is full: then it fails with -1 if the reader is gone, and otherwise
  wakes the readers and sleeps, remembering how far it got.\<close>

lemma pipe_write_result:
  assumes "pipe_idle p"
  shows "\<exists>p' done rest. pipe_idle p' \<and> drop i buffer = done @ rest \<and> pipe_content p' = pipe_content p @ done \<and>
    (rest = [] \<or> length (pipe_content p') = PIPE_SIZE) \<and>
    pipe_write hart O_WRONLY p buffer i =
      Some (if rest = [] then (Ret (int (length buffer)), [NREAD], p')
        else if \<not> read_open p then (Ret (- 1), [], p')
        else (Asleep NWRITE (length buffer - length rest), [NREAD], p'))"
  using pipe_write_cases [OF assms, of i buffer hart] by blast

end
