(* ===== verification/Console.thy ===== *)
theory Console
  imports Ring Spinlock
begin

text \<open>
  The receive buffer of \<open>kernel/dev/tty/console_sbi.c\<close>: a circular buffer with a read and a
  write position and a count.  Positions are offsets of the pointers \<open>head\<close> and \<open>tail\<close>
  from \<open>cons.buffer\<close>.  A reader of an empty buffer sleeps; a writer that finds it full throws
  away the oldest byte.
\<close>

definition BUFFER_SIZE :: nat where
  "BUFFER_SIZE = 256"

record cons =
  r_lock :: spinlock
  c_buffer :: "u8 list"
  c_head :: nat
  c_tail :: nat
  c_count :: nat

definition cons_advance :: "nat \<Rightarrow> nat" where
  "cons_advance i = (if i + 1 = BUFFER_SIZE then 0 else i + 1)"

definition cons_get :: "cons \<Rightarrow> u8 \<times> cons" where
  "cons_get c = (c_buffer c ! c_tail c, c\<lparr>c_tail := cons_advance (c_tail c), c_count := c_count c - 1\<rparr>)"

definition cons_put :: "u8 \<Rightarrow> cons \<Rightarrow> cons" where
  "cons_put d c = c\<lparr>c_buffer := (c_buffer c)[c_head c := d], c_head := cons_advance (c_head c),
     c_count := c_count c + 1\<rparr>"

text \<open>\<open>read_buffer\<close>: \<open>None\<close> as the byte means that the caller goes to sleep.\<close>

definition read_buffer :: "nat \<Rightarrow> cons \<Rightarrow> (u8 option \<times> cons) option" where
  "read_buffer hart c = do {
     l \<leftarrow> lock_acquire hart (r_lock c);
     let c = c\<lparr>r_lock := l\<rparr>;
     let (r, c) = (if c_count c = 0 then (None, c) else let (d, c) = cons_get c in (Some d, c));
     l \<leftarrow> lock_release hart (r_lock c);
     Some (r, c\<lparr>r_lock := l\<rparr>) }"

text \<open>\<open>peek_buffer\<close>, with the address computation as it is written: a negative offset from
  \<open>cons.buffer\<close> is an access outside of it.\<close>

definition peek_buffer :: "nat \<Rightarrow> cons \<Rightarrow> nat \<Rightarrow> (u8 option \<times> cons) option" where
  "peek_buffer hart c offset = do {
     l \<leftarrow> lock_acquire hart (r_lock c);
     let c = c\<lparr>r_lock := l\<rparr>;
     r \<leftarrow> (if c_count c = 0 then Some None
          else
            let i = (if c_tail c + offset \<ge> BUFFER_SIZE
                     then int offset - (int BUFFER_SIZE - (0 - int (c_tail c)))
                     else int (c_tail c + offset))
            in if 0 \<le> i then map_option Some (aget (c_buffer c) (nat i)) else None);
     l \<leftarrow> lock_release hart (r_lock c);
     Some (r, c\<lparr>r_lock := l\<rparr>) }"

definition write_buffer :: "nat \<Rightarrow> u8 \<Rightarrow> cons \<Rightarrow> cons option" where
  "write_buffer hart d c = do {
     l \<leftarrow> lock_acquire hart (r_lock c);
     let c = c\<lparr>r_lock := l\<rparr>;
     let c = (if c_count c \<ge> BUFFER_SIZE
              then c\<lparr>c_tail := cons_advance (c_tail c), c_count := c_count c - 1\<rparr> else c);
     let c = cons_put d c;
     l \<leftarrow> lock_release hart (r_lock c);
     Some (c\<lparr>r_lock := l\<rparr>) }"

definition init_cons :: "cons \<Rightarrow> cons" where
  "init_cons c = c\<lparr>c_head := 0, c_tail := 0, c_count := 0, r_lock := spinlock_init (r_lock c)\<rparr>"

subsection \<open>The buffer is a queue\<close>

definition cons_content :: "cons \<Rightarrow> u8 list" where
  "cons_content c = map (\<lambda>j. c_buffer c ! ((c_tail c + j) mod BUFFER_SIZE)) [0..<c_count c]"

definition cons_ok :: "cons \<Rightarrow> bool" where
  "cons_ok c \<longleftrightarrow> length (c_buffer c) = BUFFER_SIZE \<and> c_tail c < BUFFER_SIZE \<and> c_count c \<le> BUFFER_SIZE \<and>
     c_head c = (c_tail c + c_count c) mod BUFFER_SIZE"

lemma cons_advance_mod: "i < BUFFER_SIZE \<Longrightarrow> cons_advance i = Suc i mod BUFFER_SIZE"
  by (auto simp: cons_advance_def BUFFER_SIZE_def mod_Suc)

lemma cons_put_content:
  assumes "cons_ok c" and "length (cons_content c) < BUFFER_SIZE"
  shows "cons_ok (cons_put d c) \<and> cons_content (cons_put d c) = cons_content c @ [d]"
proof -
  let ?n = "c_count c" and ?h = "(c_tail c + c_count c) mod 256"
  have n: "?n < 256" "length (c_buffer c) = 256" "c_head c = ?h" "c_tail c < 256"
    using assms by (simp_all add: cons_content_def cons_ok_def BUFFER_SIZE_def)
  have ne: "(c_tail c + j) mod 256 \<noteq> ?h" if "j < ?n" for j
  proof
    assume "(c_tail c + j) mod 256 = ?h"
    then have "(256::nat) dvd ?n - j"
      using that by (metis add_diff_cancel_left mod_eq_dvd_iff_nat add_left_mono less_imp_le)
    then show False using that n(1) by (auto dest!: dvd_imp_le)
  qed
  have "map (\<lambda>j. (c_buffer c)[?h := d] ! ((c_tail c + j) mod 256)) [0..<?n]
      = map (\<lambda>j. c_buffer c ! ((c_tail c + j) mod 256)) [0..<?n]"
    by (intro map_cong) (simp_all add: nth_list_update_neq [OF ne [THEN not_sym]])
  moreover have "cons_advance ?h = Suc (c_tail c + ?n) mod 256"
    using cons_advance_mod [of ?h] by (simp add: BUFFER_SIZE_def mod_Suc_eq)
  ultimately show ?thesis
    using n by (simp add: cons_content_def cons_ok_def cons_put_def BUFFER_SIZE_def)
qed

lemma cons_get_content:
  assumes "cons_ok c" and "cons_content c \<noteq> []"
  shows "fst (cons_get c) = hd (cons_content c) \<and> cons_ok (snd (cons_get c)) \<and>
    cons_content (snd (cons_get c)) = tl (cons_content c)"
proof -
  let ?n = "c_count c"
  have n: "0 < ?n" using assms(2) by (simp add: cons_content_def)
  have t: "c_tail c < 256" using assms(1) by (simp add: cons_ok_def BUFFER_SIZE_def)
  have up: "[0..<?n] = 0 # map Suc [0..<?n - 1]" using n by (metis Suc_pred' map_Suc_upt upt_conv_Cons)
  have adv: "cons_advance (c_tail c) = Suc (c_tail c) mod 256"
    using cons_advance_mod [of "c_tail c"] t by (simp add: BUFFER_SIZE_def)
  have m: "(Suc (c_tail c) mod 256 + j) mod 256 = (c_tail c + Suc j) mod 256" for j
    by (metis add_Suc_right add_Suc mod_add_left_eq)
  have "cons_content (snd (cons_get c)) = tl (cons_content c)"
    unfolding cons_content_def by (simp add: up cons_get_def BUFFER_SIZE_def adv m)
  moreover have "fst (cons_get c) = hd (cons_content c)"
    using t by (simp add: cons_content_def up cons_get_def BUFFER_SIZE_def)
  moreover have "cons_ok (snd (cons_get c))"
  proof -
    have "(Suc (c_tail c) mod 256 + (?n - 1)) mod 256 = (c_tail c + ?n) mod 256" using m [of "?n - 1"] n by simp
    then show ?thesis using assms(1) n by (auto simp: cons_ok_def cons_get_def BUFFER_SIZE_def adv)
  qed
  ultimately show ?thesis by simp
qed

interpretation cq: bounded_fifo cons_ok cons_content BUFFER_SIZE "\<lambda>c. c_count c = 0" "\<lambda>c. c_count c \<ge> BUFFER_SIZE" cons_put cons_get
proof
  show "length (cons_content c) \<le> BUFFER_SIZE" if "cons_ok c" for c
    using that by (simp add: cons_ok_def cons_content_def)
  show "(c_count c = 0) = (cons_content c = [])" if "cons_ok c" for c
    by (simp add: cons_content_def)
  show "(c_count c \<ge> BUFFER_SIZE) = (length (cons_content c) = BUFFER_SIZE)" if "cons_ok c" for c
    using that by (auto simp: cons_content_def cons_ok_def)
qed (rule cons_put_content cons_get_content; assumption)+

lemma cons_lock [simp]: "cons_ok (c\<lparr>r_lock := l\<rparr>) = cons_ok c" "cons_content (c\<lparr>r_lock := l\<rparr>) = cons_content c"
  "r_lock (cons_put d c) = r_lock c" "r_lock (snd (cons_get c)) = r_lock c"
  by (simp_all add: cons_ok_def cons_content_def cons_put_def cons_get_def)

lemma cons_drop_oldest:
  "c\<lparr>c_tail := cons_advance (c_tail c), c_count := c_count c - 1\<rparr> = snd (cons_get c)"
  by (simp add: cons_get_def)

subsection \<open>Properties\<close>

text \<open>The interrupt side of the console never fails and never blocks: a received byte is
  appended to the buffered input, and the oldest byte is given up only when 256 bytes are waiting.\<close>

lemma write_buffer_result:
  assumes "cons_ok c" and "\<not> sl_lock (r_lock c)"
  shows "\<exists>c'. write_buffer hart d c = Some c' \<and> cons_ok c' \<and> \<not> sl_lock (r_lock c') \<and>
    cons_content c' = (if length (cons_content c) < BUFFER_SIZE then cons_content c else tl (cons_content c)) @ [d]"
proof -
  let ?l = "(r_lock c)\<lparr>sl_lock := True, sl_cpu := hart\<rparr>"
  let ?c = "c\<lparr>r_lock := ?l\<rparr>"
  have ok: "cons_ok ?c" using assms(1) by simp
  have cnt: "length (cons_content c) = c_count c" by (simp add: cons_content_def)
  have ne: "cons_content ?c \<noteq> []" if "BUFFER_SIZE \<le> c_count c"
    using that by (auto simp: cons_content_def BUFFER_SIZE_def)
  define c1 where "c1 = (if c_count c \<ge> BUFFER_SIZE then snd (cons_get ?c) else ?c)"
  have c1: "cons_ok c1" "r_lock c1 = ?l" "length (cons_content c1) < BUFFER_SIZE"
    "cons_content c1 = (if length (cons_content c) < BUFFER_SIZE then cons_content c else tl (cons_content c))"
    using ok cq.get_content [OF ok ne] cq.bound [OF ok] cnt by (auto simp: c1_def BUFFER_SIZE_def)
  have "write_buffer hart d c = Some ((cons_put d c1)\<lparr>r_lock := (r_lock c)\<lparr>sl_lock := False, sl_cpu := 0\<rparr>\<rparr>)"
    using lock_acquire_free [OF assms(2), of hart] lock_release_held [of hart "r_lock c"] c1(2)
      cons_drop_oldest [of ?c]
    by (simp add: write_buffer_def Let_def c1_def split: if_splits)
  then show ?thesis using cq.put_content [OF c1(1,3), of d] c1(4) by simp
qed

definition example_cons :: cons where
  "example_cons = init_cons \<lparr>r_lock = \<lparr>sl_lock = False, sl_cpu = 0\<rparr>, c_buffer = replicate 256 0, c_head = 0, c_tail = 0, c_count = 0\<rparr>"

text \<open>\<open>peek_buffer\<close> reads outside of the buffer whenever it looks past its end: the offset is
  computed with the wrong sign (the access is at \<open>offset - 256 - tail\<close>).\<close>

lemma peek_buffer_out_of_range:
  assumes "0 < c_count c" and "offset < BUFFER_SIZE" and "BUFFER_SIZE \<le> c_tail c + offset" and "\<not> sl_lock (r_lock c)"
  shows "peek_buffer hart c offset = None"
  using assms lock_acquire_free [OF assms(4), of hart] by (simp add: peek_buffer_def Let_def)

end
