(* ===== verification/Linklist.thy ===== *)
theory Linklist
  imports Prelude
begin

text \<open>
  \<open>kernel/header/lib/linklist.h\<close>: intrusive circular lists.  A store gives every list node its
  two links.  \<open>clist L h xs\<close> says that the ring of head \<open>h\<close> runs through \<open>xs\<close>;
  \<open>list_entries\<close> is the traversal of \<open>list_foreach_entry\<close>, and since it follows whatever
  the links say it may not end.
\<close>

record 'n links =
  lnext :: "'n \<Rightarrow> 'n"
  lprev :: "'n \<Rightarrow> 'n"

definition list_add_between :: "'n links \<Rightarrow> 'n \<Rightarrow> 'n \<Rightarrow> 'n \<Rightarrow> 'n links" where
  "list_add_between L new prev nxt =
    (let L = L\<lparr>lprev := (lprev L)(nxt := new)\<rparr>;
         L = L\<lparr>lnext := (lnext L)(new := nxt)\<rparr>;
         L = L\<lparr>lnext := (lnext L)(prev := new)\<rparr>
     in L\<lparr>lprev := (lprev L)(new := prev)\<rparr>)"

definition list_add :: "'n links \<Rightarrow> 'n \<Rightarrow> 'n \<Rightarrow> 'n links" where
  "list_add L new head = list_add_between L new head (lnext L head)"

definition list_add_tail :: "'n links \<Rightarrow> 'n \<Rightarrow> 'n \<Rightarrow> 'n links" where
  "list_add_tail L new head = list_add_between L new (lprev L head) head"

text \<open>The code clears \<open>node->next\<close> twice and leaves \<open>node->prev\<close>; \<open>nil\<close> is the null node.\<close>

definition list_del :: "'n \<Rightarrow> 'n links \<Rightarrow> 'n \<Rightarrow> 'n links" where
  "list_del nil L node =
    (let prev = lprev L node; nxt = lnext L node;
         L = L\<lparr>lnext := (lnext L)(prev := nxt)\<rparr>;
         L = L\<lparr>lprev := (lprev L)(nxt := prev)\<rparr>
     in L\<lparr>lnext := (lnext L)(node := nil)\<rparr>)"

partial_function (option) list_walk :: "'n links \<Rightarrow> 'n \<Rightarrow> 'n \<Rightarrow> 'n list option" where
  "list_walk L head e =
    (if e = head then Some []
     else Option.bind (list_walk L head (lnext L e)) (\<lambda>es. Some (e # es)))"

definition list_entries :: "'n links \<Rightarrow> 'n \<Rightarrow> 'n list option" where
  "list_entries L head = list_walk L head (lnext L head)"

subsection \<open>Rings\<close>

fun lpath :: "'n links \<Rightarrow> 'n \<Rightarrow> 'n list \<Rightarrow> 'n \<Rightarrow> bool" where
  "lpath L a [] b \<longleftrightarrow> lnext L a = b \<and> lprev L b = a"
| "lpath L a (x # xs) b \<longleftrightarrow> lnext L a = x \<and> lprev L x = a \<and> lpath L x xs b"

definition clist :: "'n links \<Rightarrow> 'n \<Rightarrow> 'n list \<Rightarrow> bool" where
  "clist L h xs \<longleftrightarrow> lpath L h xs h \<and> distinct (h # xs)"

lemma lpath_walk: "lpath L a xs b \<Longrightarrow> b \<notin> set xs \<Longrightarrow> list_walk L b (lnext L a) = Some xs"
  by (induction xs arbitrary: a) (auto simp: list_walk.simps)

lemma list_entries_clist: "clist L h xs \<Longrightarrow> list_entries L h = Some xs"
  by (auto simp: clist_def list_entries_def intro: lpath_walk)

lemma lpath_append: "lpath L a (xs @ x # ys) b \<longleftrightarrow> lpath L a xs x \<and> lpath L x ys b"
  by (induction xs arbitrary: a) auto

lemma lpath_cong:
  assumes "\<And>x. x \<in> set (a # xs) \<Longrightarrow> lnext L' x = lnext L x" and "\<And>x. x \<in> set (xs @ [b]) \<Longrightarrow> lprev L' x = lprev L x"
  shows "lpath L' a xs b = lpath L a xs b"
  using assms by (induction xs arbitrary: a) auto

lemma lpath_ends: "lpath L a xs b \<Longrightarrow> lnext L a = (if xs = [] then b else hd xs) \<and> lprev L b = (if xs = [] then a else last xs)"
  by (induction xs arbitrary: a) auto

lemma list_add_clist:
  assumes "clist L h xs" and "new \<notin> set (h # xs)"
  shows "clist (list_add L new h) h (new # xs)"
proof -
  have "lpath (list_add L new h) new xs h"
  proof (cases xs)
    case Nil
    then show ?thesis using assms by (simp add: clist_def list_add_def list_add_between_def Let_def)
  next
    case (Cons x ys)
    then have "lpath L x ys h" and n: "lnext L h = x" using assms by (auto simp: clist_def)
    moreover have "lpath (list_add L new h) x ys h = lpath L x ys h"
      using assms Cons n by (intro lpath_cong) (auto simp: clist_def list_add_def list_add_between_def Let_def)
    ultimately show ?thesis using Cons assms n by (auto simp: list_add_def list_add_between_def Let_def)
  qed
  then show ?thesis using assms by (auto simp: clist_def list_add_def list_add_between_def Let_def)
qed

lemma list_del_clist:
  assumes "clist L h (xs @ x # ys)" and "nil \<notin> set (h # xs @ x # ys)"
  shows "clist (list_del nil L x) h (xs @ ys)"
proof -
  have p: "lpath L h xs x" "lpath L x ys h" and d: "distinct (h # xs @ x # ys)"
    using assms by (simp_all add: clist_def lpath_append)
  let ?L = "list_del nil L x"
  let ?p = "if xs = [] then h else last xs" and ?n = "if ys = [] then h else hd ys"
  have nb: "lprev L x = ?p" "lnext L x = ?n" using lpath_ends [OF p(1)] lpath_ends [OF p(2)] by simp_all
  have fr: "lnext ?L a = (if a = x then nil else if a = ?p then ?n else lnext L a)"
    "lprev ?L a = (if a = ?n then ?p else lprev L a)" for a
    by (auto simp: list_del_def Let_def nb)
  have "lpath ?L h (xs @ ys) h"
  proof (cases ys)
    case Nil
    show ?thesis
    proof (cases xs rule: rev_cases)
      case (snoc zs z)
      then have "lpath L h zs z" using p(1) by (simp add: lpath_append)
      moreover have "lpath ?L h zs z = lpath L h zs z"
        using snoc Nil d by (intro lpath_cong) (auto simp: fr)
      ultimately show ?thesis using snoc Nil d by (simp add: lpath_append fr)
    qed (use Nil d in \<open>simp add: fr\<close>)
  next
    case (Cons y ws)
    have w: "lpath ?L y ws h"
    proof -
      have "last xs \<notin> set ws" if "xs \<noteq> []"
      proof -
        have "set xs \<inter> set ws = {}" using d Cons by simp
        then show ?thesis using last_in_set [OF that] by blast
      qed
      moreover have "lpath L y ws h" using p(2) Cons by simp
      moreover have "lpath ?L y ws h = lpath L y ws h"
        using Cons d calculation(1) by (intro lpath_cong) (auto simp: fr)
      ultimately show ?thesis by simp
    qed
    show ?thesis
    proof (cases xs rule: rev_cases)
      case (snoc zs z)
      then have "lpath L h zs z" using p(1) by (simp add: lpath_append)
      moreover have "lpath ?L h zs z = lpath L h zs z"
        using snoc Cons d by (intro lpath_cong) (auto simp: fr)
      ultimately show ?thesis using snoc Cons d w by (auto simp: lpath_append fr)
    qed (use Cons d w in \<open>auto simp: fr\<close>)
  qed
  then show ?thesis using d by (auto simp: clist_def)
qed

text \<open>A ring is not disturbed by changes to the links of other nodes.\<close>

lemma clist_frame:
  assumes "clist L h xs" and "\<And>x. x \<in> set (h # xs) \<Longrightarrow> lnext L' x = lnext L x \<and> lprev L' x = lprev L x"
  shows "clist L' h xs"
  using assms lpath_cong [of h xs L' L h] by (auto simp: clist_def)

end
