(* ===== verification/Proc.thy ===== *)
theory Proc
  imports Linklist Spinlock Bitset
begin

text \<open>
  Processes: \<open>kernel/header/proc.h\<close>, the process part of \<open>kernel/header/environment.h\<close>, and
  \<open>sleep\<close>, \<open>wakeup\<close> (\<open>kernel/proc/sleep.c\<close>), the scheduler
  (\<open>kernel/scheduler/scheduler.c\<close>), and the process-table side of \<open>proc_alloc\<close>,
  \<open>do_fork\<close>, \<open>do_exit\<close> and \<open>do_wait\<close> (\<open>kernel/proc\<close>).

  A process is named by its pid; \<open>procs e i\<close> is the object \<open>proc_table\<close> points to.  The list
  of all processes and the children lists are rings in one store of links.
\<close>

definition MAX_PROC :: nat where
  "MAX_PROC = 32"

definition PROC_STATUS_RUNNING :: u32 where "PROC_STATUS_RUNNING = 0x0001"

definition PROC_STATUS_READY :: u32 where "PROC_STATUS_READY = 0x0002"

definition PROC_STATUS_NORMAL :: u32 where "PROC_STATUS_NORMAL = 0x0010"

definition PROC_STATUS_STOP :: u32 where "PROC_STATUS_STOP = 0x0020"

definition PROC_STATUS_WAITING :: u32 where "PROC_STATUS_WAITING = 0x0100"

definition PROC_RUNNABLE :: u32 where
  "PROC_RUNNABLE = PROC_STATUS_READY OR PROC_STATUS_NORMAL"

definition MAX_FILE_OPEN :: nat where
  "MAX_FILE_OPEN = 128"

definition PROC_NAME_SIZE :: nat where
  "PROC_NAME_SIZE = 16"

record trap_context =
  ra :: u64
  sp :: u64
  gp :: u64
  tp :: u64
  t0 :: u64
  t1 :: u64
  t2 :: u64
  s0 :: u64
  s1 :: u64
  a0 :: u64
  a1 :: u64
  a2 :: u64
  a3 :: u64
  a4 :: u64
  a5 :: u64
  a6 :: u64
  a7 :: u64
  s2 :: u64
  s3 :: u64
  s4 :: u64
  s5 :: u64
  s6 :: u64
  s7 :: u64
  s8 :: u64
  s9 :: u64
  s10 :: u64
  s11 :: u64
  t3 :: u64
  t4 :: u64
  t5 :: u64
  t6 :: u64

datatype lnode = LNull | ProcsHead | ProcLink nat | ChildrenHead nat | ChildLink nat

record proc =
  page_csr :: u64
  user_pc :: u64
  trapframe :: trap_context
  page_dir :: nat
  pid :: nat
  status :: u32
  parent :: "nat option"
  kernel_stack :: nat
  exit_status :: u64
  pr_lock :: spinlock
  pname :: "u8 list"
  waiting_chan :: u64
  start_tick :: u64
  stack_top :: u64
  stack_bottom :: u64
  prog_size :: u64
  prog_image_start :: u64
  prog_break :: u64
  prog_brk_pg_end :: u64
  files :: "nat option list"
  cwd :: nat

record env =
  ticks :: u64
  ticks_lock :: spinlock
  procs :: "nat \<Rightarrow> proc option"
  links :: "lnode links"
  proc_count :: nat
  proc_bitmap :: bitset
  proc_lock :: spinlock
  sched_lock :: spinlock
  last_scheduled :: "nat option"

definition upd_proc :: "nat \<Rightarrow> (proc \<Rightarrow> proc) \<Rightarrow> env \<Rightarrow> env option" where
  "upd_proc i f e = do {
     p \<leftarrow> procs e i;
     Some (e\<lparr>procs := (procs e)(i \<mapsto> f p)\<rparr>) }"

definition acquire_proc :: "nat \<Rightarrow> nat \<Rightarrow> env \<Rightarrow> env option" where
  "acquire_proc hart i e = do {
     p \<leftarrow> procs e i;
     l \<leftarrow> lock_acquire hart (pr_lock p);
     Some (e\<lparr>procs := (procs e)(i \<mapsto> p\<lparr>pr_lock := l\<rparr>)\<rparr>) }"

definition release_proc :: "nat \<Rightarrow> nat \<Rightarrow> env \<Rightarrow> env option" where
  "release_proc hart i e = do {
     p \<leftarrow> procs e i;
     l \<leftarrow> lock_release hart (pr_lock p);
     Some (e\<lparr>procs := (procs e)(i \<mapsto> p\<lparr>pr_lock := l\<rparr>)\<rparr>) }"

definition acquire_table :: "nat \<Rightarrow> env \<Rightarrow> env option" where
  "acquire_table hart e = do { l \<leftarrow> lock_acquire hart (proc_lock e); Some (e\<lparr>proc_lock := l\<rparr>) }"

definition release_table :: "nat \<Rightarrow> env \<Rightarrow> env option" where
  "release_table hart e = do { l \<leftarrow> lock_release hart (proc_lock e); Some (e\<lparr>proc_lock := l\<rparr>) }"

subsection \<open>Sleeping and waking\<close>

definition has_status :: "proc \<Rightarrow> u32 \<Rightarrow> bool" where
  "has_status p f \<longleftrightarrow> status p AND f \<noteq> 0"

definition wake :: "proc \<Rightarrow> proc" where
  "wake p = p\<lparr>status := (status p AND NOT PROC_STATUS_WAITING) OR (PROC_STATUS_READY OR PROC_STATUS_NORMAL)\<rparr>"

definition wake_if_waiting :: "u64 \<Rightarrow> proc \<Rightarrow> proc" where
  "wake_if_waiting chan p =
    (if has_status p PROC_STATUS_WAITING \<and> waiting_chan p = chan then wake p else p)"

definition wakeup_one :: "nat \<Rightarrow> u64 \<Rightarrow> lnode \<Rightarrow> env \<Rightarrow> env option" where
  "wakeup_one hart chan n e = (case n of
     ProcLink i \<Rightarrow> do {
       e \<leftarrow> acquire_proc hart i e;
       e \<leftarrow> upd_proc i (wake_if_waiting chan) e;
       release_proc hart i e }
   | _ \<Rightarrow> None)"

definition wakeup :: "nat \<Rightarrow> u64 \<Rightarrow> env \<Rightarrow> env option" where
  "wakeup hart chan e = do {
     e \<leftarrow> acquire_table hart e;
     ns \<leftarrow> list_entries (links e) ProcsHead;
     e \<leftarrow> fold_opt (wakeup_one hart chan) ns e;
     release_table hart e }"

text \<open>\<open>sleep\<close> up to its \<open>yield\<close> and from there on.  The second argument is the lock the caller
  holds, \<open>None\<close> when it is the process's own.\<close>

definition sleep_begin :: "nat \<Rightarrow> spinlock option \<Rightarrow> nat \<Rightarrow> u64 \<Rightarrow> env \<Rightarrow> (spinlock option \<times> env) option" where
  "sleep_begin hart lk i chan e = do {
     (lk, e) \<leftarrow> (case lk of
         None \<Rightarrow> Some (None, e)
       | Some l \<Rightarrow> do { e \<leftarrow> acquire_proc hart i e; l \<leftarrow> lock_release hart l; Some (Some l, e) });
     e \<leftarrow> upd_proc i (\<lambda>p. p\<lparr>waiting_chan := chan,
            status := (status p AND NOT (PROC_STATUS_RUNNING OR PROC_STATUS_READY)) OR PROC_STATUS_WAITING\<rparr>) e;
     e \<leftarrow> release_proc hart i e;
     Some (lk, e) }"

definition sleep_end :: "nat \<Rightarrow> spinlock option \<Rightarrow> nat \<Rightarrow> env \<Rightarrow> (spinlock option \<times> env) option" where
  "sleep_end hart lk i e = do {
     e \<leftarrow> acquire_proc hart i e;
     e \<leftarrow> upd_proc i (\<lambda>p. p\<lparr>waiting_chan := 0\<rparr>) e;
     (case lk of
         None \<Rightarrow> Some (None, e)
       | Some l \<Rightarrow> do { e \<leftarrow> release_proc hart i e; l \<leftarrow> lock_acquire hart l; Some (Some l, e) }) }"

subsection \<open>The scheduler\<close>

definition schedulable :: "proc \<Rightarrow> bool" where
  "schedulable p \<longleftrightarrow> status p AND PROC_RUNNABLE = PROC_RUNNABLE \<and> status p AND PROC_STATUS_RUNNING = 0"

text \<open>One visit of either loop: the lock is kept when the process is taken.\<close>

definition sched_visit :: "nat \<Rightarrow> nat \<Rightarrow> env \<Rightarrow> (bool \<times> env) option" where
  "sched_visit hart i e = do {
     e \<leftarrow> acquire_proc hart i e;
     p \<leftarrow> procs e i;
     if schedulable p then Some (True, e\<lparr>last_scheduled := Some i\<rparr>)
     else do { e \<leftarrow> release_proc hart i e; Some (False, e) } }"

text \<open>The loop from the last scheduled process to the end of the table.\<close>

partial_function (option) sched_after :: "nat \<Rightarrow> nat \<Rightarrow> lnode \<Rightarrow> env \<Rightarrow> (nat option \<times> env) option" where
  "sched_after hart q n e =
    (if n = ProcLink q \<or> n = ProcsHead then Some (None, e)
     else case n of
       ProcLink i \<Rightarrow> do {
         (found, e) \<leftarrow> sched_visit hart i e;
         if found then Some (Some i, e) else sched_after hart q (lnext (links e) n) e }
     | _ \<Rightarrow> None)"

text \<open>The loop from the start of the table, which ends after the last scheduled process.\<close>

partial_function (option) sched_before :: "nat \<Rightarrow> lnode \<Rightarrow> env \<Rightarrow> (nat option \<times> env) option" where
  "sched_before hart n e =
    (if n = ProcsHead then Some (None, e)
     else case n of
       ProcLink i \<Rightarrow> do {
         (found, e) \<leftarrow> sched_visit hart i e;
         if found then Some (Some i, e)
         else if last_scheduled e = Some i then Some (None, e)
         else sched_before hart (lnext (links e) n) e }
     | _ \<Rightarrow> None)"

definition sched_pick :: "nat \<Rightarrow> env \<Rightarrow> (nat option \<times> env) option" where
  "sched_pick hart e = do {
     (r, e) \<leftarrow> (case last_scheduled e of
         None \<Rightarrow> Some (None, e)
       | Some q \<Rightarrow> sched_after hart q (lnext (links e) (ProcLink q)) e);
     (case r of
         Some i \<Rightarrow> Some (Some i, e)
       | None \<Rightarrow> sched_before hart (lnext (links e) ProcsHead) e) }"

definition scheduler :: "nat \<Rightarrow> env \<Rightarrow> (nat option \<times> env) option" where
  "scheduler hart e = do {
     e \<leftarrow> acquire_table hart e;
     l \<leftarrow> lock_acquire hart (sched_lock e);
     (r, e) \<leftarrow> sched_pick hart (e\<lparr>sched_lock := l\<rparr>);
     l \<leftarrow> lock_release hart (sched_lock e);
     e \<leftarrow> release_table hart (e\<lparr>sched_lock := l\<rparr>);
     Some (r, e) }"

end
