(* ===== verification/Proc_Sched.thy ===== *)
theory Proc_Sched
  imports Proc
begin

text \<open>
  What the scheduler, \<open>sleep\<close> and \<open>wakeup\<close> do to a well-formed process table: the scheduler
  is round robin, and a wake-up reaches exactly the processes waiting on its channel.
\<close>

definition table_ok :: "env \<Rightarrow> nat list \<Rightarrow> bool" where
  "table_ok e is \<longleftrightarrow> clist (links e) ProcsHead (map ProcLink is) \<and>
     (\<forall>i\<in>set is. \<exists>p. procs e i = Some p \<and> \<not> sl_lock (pr_lock p)) \<and>
     \<not> sl_lock (proc_lock e) \<and> \<not> sl_lock (sched_lock e)"

definition runnable :: "env \<Rightarrow> nat \<Rightarrow> bool" where
  "runnable e i \<longleftrightarrow> (case procs e i of Some p \<Rightarrow> schedulable p | None \<Rightarrow> False)"

definition round_robin :: "nat list \<Rightarrow> nat option \<Rightarrow> nat list" where
  "round_robin is q = (case q of None \<Rightarrow> is
     | Some q \<Rightarrow> tl (dropWhile (\<lambda>i. i \<noteq> q) is) @ takeWhile (\<lambda>i. i \<noteq> q) is @ [q])"

text \<open>Two environments whose processes differ at most in the owner field of their locks, except
  that the locks of \<open>held\<close> have been taken.\<close>

definition same_procs :: "nat set \<Rightarrow> env \<Rightarrow> env \<Rightarrow> bool" where
  "same_procs held e e' \<longleftrightarrow> links e' = links e \<and>
     (\<forall>i. case procs e i of None \<Rightarrow> procs e' i = None
        | Some p \<Rightarrow> \<exists>l. procs e' i = Some (p\<lparr>pr_lock := l\<rparr>) \<and> sl_lock l = (i \<in> held \<or> sl_lock (pr_lock p)))"

lemma own_lock [simp]: "\<exists>l. (p :: proc) = p\<lparr>pr_lock := l\<rparr> \<and> sl_lock l = sl_lock (pr_lock p)"
  by (rule exI [of _ "pr_lock p"]) simp

lemma same_procs_refl: "same_procs {} e e"
  unfolding same_procs_def by (auto split: option.splits)

lemma same_procs_locks [simp]: "same_procs h e (f\<lparr>sched_lock := a, proc_lock := b\<rparr>) = same_procs h e f"
  by (simp add: same_procs_def cong: option.case_cong)

lemma same_procs_D:
  assumes "same_procs h e e'" and "procs e i = Some p"
  shows "\<exists>l. procs e' i = Some (p\<lparr>pr_lock := l\<rparr>) \<and> sl_lock l = (i \<in> h \<or> sl_lock (pr_lock p))"
  using assms(1) [unfolded same_procs_def, THEN conjunct2, THEN spec, of i] assms(2) by simp

lemma same_procs_N:
  assumes "same_procs h e e'" and "procs e i = None"
  shows "procs e' i = None"
  using assms(1) [unfolded same_procs_def, THEN conjunct2, THEN spec, of i] assms(2) by simp

lemma same_procs_trans:
  assumes "same_procs {} e e'" and "same_procs h e' e''"
  shows "same_procs h e e''"
  unfolding same_procs_def
proof (intro conjI allI)
  show "links e'' = links e" using assms by (simp add: same_procs_def)
  fix i
  show "case procs e i of None \<Rightarrow> procs e'' i = None
      | Some p \<Rightarrow> \<exists>l. procs e'' i = Some (p\<lparr>pr_lock := l\<rparr>) \<and> sl_lock l = (i \<in> h \<or> sl_lock (pr_lock p))"
  proof (cases "procs e i")
    case None
    then show ?thesis using same_procs_N [OF assms(2) same_procs_N [OF assms(1)]] by simp
  next
    case (Some p)
    from same_procs_D [OF assms(1) Some] obtain l where
      l: "procs e' i = Some (p\<lparr>pr_lock := l\<rparr>)" "sl_lock l = sl_lock (pr_lock p)" by auto
    from same_procs_D [OF assms(2) l(1)] obtain l' where
      "procs e'' i = Some (p\<lparr>pr_lock := l'\<rparr>)" "sl_lock l' = (i \<in> h \<or> sl_lock l)" by auto
    then show ?thesis using Some l by (auto intro!: exI [of _ l'])
  qed
qed

lemma schedulable_lock [simp]: "schedulable (p\<lparr>pr_lock := l\<rparr>) = schedulable p"
  by (simp add: schedulable_def)

lemma same_procs_runnable: "same_procs h e e' \<Longrightarrow> runnable e' = runnable e"
proof (rule ext)
  fix i assume a: "same_procs h e e'"
  show "runnable e' i = runnable e i"
  proof (cases "procs e i")
    case None
    then have "procs e' i = None" using same_procs_N [OF a] by simp
    with None show ?thesis by (simp add: runnable_def)
  next
    case (Some p)
    with same_procs_D [OF a Some] show ?thesis by (auto simp: runnable_def)
  qed
qed

lemma sched_visit_spec:
  assumes "procs e i = Some p" and "\<not> sl_lock (pr_lock p)"
  shows "\<exists>e'. sched_visit hart i e = Some (schedulable p, e') \<and> same_procs (if schedulable p then {i} else {}) e e' \<and>
    last_scheduled e' = (if schedulable p then Some i else last_scheduled e) \<and>
    proc_lock e' = proc_lock e \<and> sched_lock e' = sched_lock e"
proof -
  show ?thesis
    using assms lock_acquire_free [OF assms(2), of hart] lock_release_held [of hart "pr_lock p"]
    by (auto simp: sched_visit_def acquire_proc_def release_proc_def same_procs_def split: option.splits)
qed

fun chain :: "'n links \<Rightarrow> 'n \<Rightarrow> 'n list \<Rightarrow> 'n \<Rightarrow> bool" where
  "chain L n [] b \<longleftrightarrow> n = b"
| "chain L n (x # xs) b \<longleftrightarrow> n = x \<and> chain L (lnext L x) xs b"

lemma lpath_chain: "lpath L a xs b \<Longrightarrow> chain L (lnext L a) xs b"
  by (induction xs arbitrary: a) auto

definition unlocked :: "env \<Rightarrow> nat list \<Rightarrow> bool" where
  "unlocked e js \<longleftrightarrow> (\<forall>i\<in>set js. \<exists>p. procs e i = Some p \<and> \<not> sl_lock (pr_lock p))"

lemma unlocked_same: "unlocked e js \<Longrightarrow> same_procs {} e e' \<Longrightarrow> unlocked e' js"
  unfolding unlocked_def by (metis same_procs_D empty_iff proc.select_convs(10) proc.update_convs(10) proc.surjective)

text \<open>The result of looking through \<open>js\<close> in order.\<close>

definition picked :: "env \<Rightarrow> nat list \<Rightarrow> nat option \<Rightarrow> env \<Rightarrow> bool" where
  "picked e js r e' \<longleftrightarrow> r = find (runnable e) js \<and> same_procs (set_option r) e e' \<and>
     last_scheduled e' = (case r of None \<Rightarrow> last_scheduled e | Some i \<Rightarrow> Some i) \<and>
     proc_lock e' = proc_lock e \<and> sched_lock e' = sched_lock e"

lemma picked_skip:
  assumes "procs e i = Some p" and "\<not> schedulable p" and "same_procs {} e e1"
    and "last_scheduled e1 = last_scheduled e" "proc_lock e1 = proc_lock e" "sched_lock e1 = sched_lock e"
    and "picked e1 js r e'"
  shows "picked e (i # js) r e'"
  using assms same_procs_runnable [OF assms(3)] same_procs_trans [OF assms(3)]
  by (auto simp: picked_def runnable_def split: option.splits)

lemma sched_after_spec:
  "chain (links e) n (map ProcLink js) ProcsHead \<Longrightarrow> unlocked e js \<Longrightarrow> q \<notin> set js \<Longrightarrow>
    \<exists>r e'. sched_after hart q n e = Some (r, e') \<and> picked e js r e'"
proof (induction js arbitrary: n e)
  case Nil
  then show ?case using same_procs_refl [of e] by (simp add: sched_after.simps picked_def)
next
  case (Cons i js)
  then obtain p where p: "procs e i = Some p" "\<not> sl_lock (pr_lock p)" by (auto simp: unlocked_def)
  from sched_visit_spec [OF p, of hart] obtain e1 where e1:
    "sched_visit hart i e = Some (schedulable p, e1)" "same_procs (if schedulable p then {i} else {}) e e1"
    "last_scheduled e1 = (if schedulable p then Some i else last_scheduled e)"
    "proc_lock e1 = proc_lock e" "sched_lock e1 = sched_lock e" by blast
  have n: "n = ProcLink i" "i \<noteq> q" using Cons.prems by auto
  show ?case
  proof (cases "schedulable p")
    case True
    then show ?thesis
      using n e1 p by (intro exI [of _ "Some i"] exI [of _ e1]) (simp add: sched_after.simps picked_def runnable_def)
  next
    case False
    then have sp: "same_procs {} e e1" using e1(2) by simp
    then have lk: "links e1 = links e" by (simp add: same_procs_def)
    have "chain (links e1) (lnext (links e1) n) (map ProcLink js) ProcsHead" using Cons.prems(1) n lk by simp
    moreover have "unlocked e1 js" using unlocked_same [of e js, OF _ sp] Cons.prems(2) by (auto simp: unlocked_def)
    ultimately obtain r e' where r: "sched_after hart q (lnext (links e1) n) e1 = Some (r, e')" "picked e1 js r e'"
      using Cons.IH Cons.prems(3) by force
    then have "sched_after hart q n e = Some (r, e')" using n e1(1) False by (subst sched_after.simps) simp
    then show ?thesis using picked_skip [OF p(1) False sp _ _ _ r(2)] e1(3-5) False by auto
  qed
qed

lemma sched_before_spec:
  "chain (links e) n (map ProcLink js @ ns) ProcsHead \<Longrightarrow> unlocked e js \<Longrightarrow>
    (case last_scheduled e of None \<Rightarrow> ns = [] | Some q \<Rightarrow> js \<noteq> [] \<and> last js = q \<and> q \<notin> set (butlast js)) \<Longrightarrow>
    \<exists>r e'. sched_before hart n e = Some (r, e') \<and> picked e js r e'"
proof (induction js arbitrary: n e)
  case Nil
  then show ?case using same_procs_refl [of e] by (auto simp: sched_before.simps picked_def split: option.splits)
next
  case (Cons i js)
  then obtain p where p: "procs e i = Some p" "\<not> sl_lock (pr_lock p)" by (auto simp: unlocked_def)
  from sched_visit_spec [OF p, of hart] obtain e1 where e1:
    "sched_visit hart i e = Some (schedulable p, e1)" "same_procs (if schedulable p then {i} else {}) e e1"
    "last_scheduled e1 = (if schedulable p then Some i else last_scheduled e)"
    "proc_lock e1 = proc_lock e" "sched_lock e1 = sched_lock e" by blast
  have n: "n = ProcLink i" using Cons.prems by auto
  show ?case
  proof (cases "schedulable p")
    case True
    then show ?thesis
      using n e1 p by (intro exI [of _ "Some i"] exI [of _ e1]) (simp add: sched_before.simps picked_def runnable_def)
  next
    case False
    then have sp: "same_procs {} e e1" using e1(2) by simp
    then have lk: "links e1 = links e" by (simp add: same_procs_def)
    have run: "sched_before hart n e = (if last_scheduled e = Some i then Some (None, e1)
        else sched_before hart (lnext (links e) n) e1)"
      using n e1 False lk by (subst sched_before.simps) simp
    show ?thesis
    proof (cases "last_scheduled e = Some i")
      case True
      then have "js = []" using Cons.prems(3) by (auto split: if_splits)
      moreover have "picked e1 [] None e1" using same_procs_refl [of e1] by (simp add: picked_def)
      ultimately show ?thesis using run True picked_skip [OF p(1) False sp, of "[]" None e1] e1 False by simp
    next
      case l: False
      have "chain (links e1) (lnext (links e) n) (map ProcLink js @ ns) ProcsHead" using Cons.prems(1) n lk by simp
      moreover have "unlocked e1 js" using unlocked_same [of e js, OF _ sp] Cons.prems(2) by (auto simp: unlocked_def)
      moreover have "case last_scheduled e1 of None \<Rightarrow> ns = []
          | Some q \<Rightarrow> js \<noteq> [] \<and> last js = q \<and> q \<notin> set (butlast js)"
        using Cons.prems(3) l e1(3) False by (auto split: option.splits if_splits)
      ultimately obtain r e' where r: "sched_before hart (lnext (links e) n) e1 = Some (r, e')" "picked e1 js r e'"
        using Cons.IH by blast
      then show ?thesis using run l picked_skip [OF p(1) False sp _ _ _ r(2)] e1(3-5) False by auto
    qed
  qed
qed


lemma table_split:
  assumes "clist (links e) ProcsHead (map ProcLink (xs @ q # ys))"
  shows "chain (links e) (lnext (links e) (ProcLink q)) (map ProcLink ys) ProcsHead"
    and "chain (links e) (lnext (links e) ProcsHead) (map ProcLink (xs @ [q]) @ map ProcLink ys) ProcsHead"
    and "q \<notin> set xs" "q \<notin> set ys"
proof -
  have p: "lpath (links e) ProcsHead (map ProcLink (xs @ q # ys)) ProcsHead" and d: "distinct (map ProcLink (xs @ q # ys))"
    using assms by (auto simp: clist_def)
  then have "lpath (links e) (ProcLink q) (map ProcLink ys) ProcsHead" by (simp add: lpath_append)
  then show "chain (links e) (lnext (links e) (ProcLink q)) (map ProcLink ys) ProcsHead" by (rule lpath_chain)
  show "chain (links e) (lnext (links e) ProcsHead) (map ProcLink (xs @ [q]) @ map ProcLink ys) ProcsHead"
    using lpath_chain [OF p] by simp
  show "q \<notin> set xs" "q \<notin> set ys" using d by (auto simp: distinct_map)
qed

lemma picked_cong:
  assumes "procs e = procs f" "links e = links f" "last_scheduled e = last_scheduled f"
    and "picked e js r e'"
  shows "r = find (runnable f) js \<and> same_procs (set_option r) f e' \<and>
    last_scheduled e' = (case r of None \<Rightarrow> last_scheduled f | Some i \<Rightarrow> Some i)"
proof -
  have "runnable e = runnable f" by (rule ext) (simp add: runnable_def assms(1))
  then have pk: "r = find (runnable f) js" "same_procs (set_option r) e e'"
    "last_scheduled e' = (case r of None \<Rightarrow> last_scheduled f | Some i \<Rightarrow> Some i)"
    using assms(4) [unfolded picked_def] assms(3) by metis+
  have "same_procs (set_option r) f e'" using pk(2) unfolding same_procs_def assms(1,2) .
  then show ?thesis using pk by (intro conjI)
qed

lemma find_append: "find P (xs @ ys) = (case find P xs of Some x \<Rightarrow> Some x | None \<Rightarrow> find P ys)"
  by (induction xs) auto

lemma picked_append:
  assumes "picked e xs None e1" and "picked e1 ys r e'"
  shows "picked e (xs @ ys) r e'"
  using assms same_procs_runnable [of "{}" e e1] same_procs_trans [of e e1 _ e']
  by (auto simp: picked_def find_append split: option.splits)

lemma picked_more: "picked e xs (Some i) e' \<Longrightarrow> picked e (xs @ ys) (Some i) e'"
  by (auto simp: picked_def find_append split: option.splits)

text \<open>The two loops together.\<close>

lemma sched_loops:
  assumes cl: "clist (links e) ProcsHead (map ProcLink is)" and un: "unlocked e is"
    and q: "case last_scheduled e of None \<Rightarrow> True | Some q \<Rightarrow> q \<in> set is"
  shows "\<exists>r e'. sched_pick hart e = Some (r, e') \<and>
    picked e (round_robin is (last_scheduled e)) r e'"
proof (cases "last_scheduled e")
  case None
  have "chain (links e) (lnext (links e) ProcsHead) (map ProcLink is @ []) ProcsHead"
    using lpath_chain cl by (auto simp: clist_def)
  from sched_before_spec [OF this un, of hart] None show ?thesis by (simp add: sched_pick_def round_robin_def)
next
  case (Some q)
  then have "q \<in> set is" using q by simp
  then obtain xs ys where iq: "is = xs @ q # ys" "q \<notin> set xs" by (meson split_list_first)
  then have rr: "round_robin is (Some q) = ys @ (xs @ [q])"
    by (simp add: round_robin_def dropWhile_append takeWhile_append)
  note sp = table_split [OF cl [unfolded iq(1)]]
  obtain r e1 where r: "sched_after hart q (lnext (links e) (ProcLink q)) e = Some (r, e1)" "picked e ys r e1"
    using sched_after_spec [OF sp(1) _ sp(4), of hart] un iq(1) by (auto simp: unlocked_def)
  show ?thesis
  proof (cases r)
    case (Some i)
    then show ?thesis using r \<open>last_scheduled e = Some q\<close> rr picked_more [of e ys i e1] by (auto simp: sched_pick_def)
  next
    case None
    then have e1: "same_procs {} e e1" "last_scheduled e1 = Some q" "links e1 = links e"
      using r(2) \<open>last_scheduled e = Some q\<close> by (auto simp: picked_def same_procs_def)
    have "unlocked e (xs @ [q])" using un iq(1) by (simp add: unlocked_def)
    then have "unlocked e1 (xs @ [q])" by (rule unlocked_same [OF _ e1(1)])
    moreover have "chain (links e1) (lnext (links e1) ProcsHead) (map ProcLink (xs @ [q]) @ map ProcLink ys) ProcsHead"
      using sp(2) e1(3) by simp
    ultimately obtain r' e' where "sched_before hart (lnext (links e1) ProcsHead) e1 = Some (r', e')" "picked e1 (xs @ [q]) r' e'"
      using sched_before_spec [of e1 "lnext (links e1) ProcsHead" "xs @ [q]" "map ProcLink ys" hart] e1(2) iq(2) by auto
    then show ?thesis
      using r None \<open>last_scheduled e = Some q\<close> rr picked_append [of e ys e1 "xs @ [q]" r' e'] by (auto simp: sched_pick_def)
  qed
qed


subsection \<open>Waking\<close>

lemma fold_wakeup:
  "distinct is \<Longrightarrow> unlocked e is \<Longrightarrow>
    \<exists>e'. fold_opt (wakeup_one hart chan) (map ProcLink is) e = Some e' \<and> links e' = links e \<and>
      proc_lock e' = proc_lock e \<and> sched_lock e' = sched_lock e \<and> last_scheduled e' = last_scheduled e \<and>
      ticks e' = ticks e \<and> ticks_lock e' = ticks_lock e \<and>
      (\<forall>i. procs e' i = (if i \<in> set is
         then map_option (\<lambda>p. (wake_if_waiting chan p)\<lparr>pr_lock := (pr_lock p)\<lparr>sl_lock := False, sl_cpu := 0\<rparr>\<rparr>) (procs e i)
         else procs e i))"
proof (induction "is" arbitrary: e)
  case (Cons i "is")
  then obtain p where p: "procs e i = Some p" "\<not> sl_lock (pr_lock p)" by (auto simp: unlocked_def)
  let ?l = "(pr_lock p)\<lparr>sl_lock := True, sl_cpu := hart\<rparr>" and ?l' = "(pr_lock p)\<lparr>sl_lock := False, sl_cpu := 0\<rparr>"
  have w: "pr_lock (wake_if_waiting chan (p\<lparr>pr_lock := l\<rparr>)) = l"
    "(wake_if_waiting chan (p\<lparr>pr_lock := l\<rparr>))\<lparr>pr_lock := l'\<rparr> = (wake_if_waiting chan p)\<lparr>pr_lock := l'\<rparr>" for l l'
    by (simp_all add: wake_if_waiting_def wake_def has_status_def)
  let ?e = "e\<lparr>procs := (procs e)(i \<mapsto> (wake_if_waiting chan p)\<lparr>pr_lock := ?l'\<rparr>)\<rparr>"
  have "wakeup_one hart chan (ProcLink i) e = Some ?e"
    using p lock_acquire_free [OF p(2), of hart] lock_release_held [of hart "pr_lock p"]
    by (simp add: wakeup_one_def acquire_proc_def upd_proc_def release_proc_def w)
  moreover have "unlocked ?e is" using Cons.prems by (auto simp: unlocked_def)
  ultimately show ?case using Cons.IH [of ?e] Cons.prems p by (auto simp: fun_eq_iff)
qed simp

lemma scheduler_picks:
  assumes "table_ok e is" and "case last_scheduled e of None \<Rightarrow> True | Some q \<Rightarrow> q \<in> set is"
  shows "\<exists>r e'. scheduler hart e = Some (r, e') \<and> r = find (runnable e) (round_robin is (last_scheduled e)) \<and>
    same_procs (set_option r) e e' \<and> last_scheduled e' = (case r of None \<Rightarrow> last_scheduled e | Some i \<Rightarrow> Some i) \<and>
    \<not> sl_lock (proc_lock e') \<and> \<not> sl_lock (sched_lock e')"
proof -
  have cl: "clist (links e) ProcsHead (map ProcLink is)" and un: "unlocked e is"
    and lk: "\<not> sl_lock (proc_lock e)" "\<not> sl_lock (sched_lock e)"
    using assms(1) by (auto simp: table_ok_def unlocked_def)
  let ?p = "(proc_lock e)\<lparr>sl_lock := True, sl_cpu := hart\<rparr>" and ?s = "(sched_lock e)\<lparr>sl_lock := True, sl_cpu := hart\<rparr>"
  let ?e = "e\<lparr>proc_lock := ?p, sched_lock := ?s\<rparr>"
  obtain r e1 where r: "sched_pick hart ?e = Some (r, e1)" "picked ?e (round_robin is (last_scheduled e)) r e1"
    using sched_loops [of ?e "is" hart] cl un assms(2) by (auto simp: unlocked_def)
  have l1: "proc_lock e1 = ?p" "sched_lock e1 = ?s" using r(2) by (auto simp: picked_def)
  define e2 where "e2 = e1\<lparr>sched_lock := (sched_lock e)\<lparr>sl_lock := False, sl_cpu := 0\<rparr>,
      proc_lock := (proc_lock e)\<lparr>sl_lock := False, sl_cpu := 0\<rparr>\<rparr>"
  have "scheduler hart e = Some (r, e2)"
    using lock_acquire_free [OF lk(1), of hart] lock_acquire_free [OF lk(2), of hart]
      lock_release_held [of hart "proc_lock e"] lock_release_held [of hart "sched_lock e"] r(1) l1
    by (simp add: scheduler_def acquire_table_def release_table_def e2_def)
  moreover have "r = find (runnable e) (round_robin is (last_scheduled e))" "same_procs (set_option r) e e1"
    "last_scheduled e1 = (case r of None \<Rightarrow> last_scheduled e | Some i \<Rightarrow> Some i)"
    using picked_cong [of ?e e, OF _ _ _ r(2)] by (auto simp del: same_procs_locks)
  moreover have "last_scheduled e2 = last_scheduled e1" "\<not> sl_lock (proc_lock e2)" "\<not> sl_lock (sched_lock e2)"
    "same_procs (set_option r) e e2 = same_procs (set_option r) e e1" by (simp_all add: e2_def)
  ultimately show ?thesis by metis
qed

lemma wakeup_table:
  assumes "table_ok e is"
  shows "\<exists>e'. wakeup hart chan e = Some e' \<and> table_ok e' is \<and> ticks e' = ticks e \<and> ticks_lock e' = ticks_lock e \<and> last_scheduled e' = last_scheduled e \<and>
    (\<forall>i p. i \<in> set is \<longrightarrow> procs e i = Some p \<longrightarrow>
       (\<exists>l. procs e' i = Some ((wake_if_waiting chan p)\<lparr>pr_lock := l\<rparr>)))"
proof -
  have cl: "clist (links e) ProcsHead (map ProcLink is)" and un: "unlocked e is"
    and lk: "\<not> sl_lock (proc_lock e)" "\<not> sl_lock (sched_lock e)"
    using assms by (auto simp: table_ok_def unlocked_def)
  let ?p = "(proc_lock e)\<lparr>sl_lock := True, sl_cpu := hart\<rparr>"
  let ?e = "e\<lparr>proc_lock := ?p\<rparr>"
  have "distinct is" using cl by (auto simp: clist_def distinct_map)
  from fold_wakeup [OF this, of ?e hart chan] un obtain e1 where e1:
    "fold_opt (wakeup_one hart chan) (map ProcLink is) ?e = Some e1" "links e1 = links e"
    "proc_lock e1 = ?p" "sched_lock e1 = sched_lock e" "last_scheduled e1 = last_scheduled e" "ticks e1 = ticks e"
    "ticks_lock e1 = ticks_lock e" and pr: "\<forall>i. procs e1 i = (if i \<in> set is
         then map_option (\<lambda>p. (wake_if_waiting chan p)\<lparr>pr_lock := (pr_lock p)\<lparr>sl_lock := False, sl_cpu := 0\<rparr>\<rparr>) (procs e i)
         else procs e i)"
    by (auto simp: unlocked_def)
  let ?e' = "e1\<lparr>proc_lock := (proc_lock e)\<lparr>sl_lock := False, sl_cpu := 0\<rparr>\<rparr>"
  have "wakeup hart chan e = Some ?e'"
    using lock_acquire_free [OF lk(1), of hart] lock_release_held [of hart "proc_lock e"] e1 list_entries_clist [OF cl]
    by (simp add: wakeup_def acquire_table_def release_table_def)
  moreover have "table_ok ?e' is"
    using cl un lk e1 pr by (auto simp: table_ok_def unlocked_def)
  ultimately show ?thesis using e1 pr by auto
qed

subsection \<open>Properties\<close>

text \<open>C21: the scheduler is round robin.  On a well-formed table whose last scheduled process is still
  there, it returns the first process, looking from the one after the last scheduled around to the
  last scheduled itself, that is ready and normal and not running, or \<open>NULL\<close> if there is none.
  The process it returns comes with its lock held and becomes the last scheduled one; no process
  status changes and all other locks are free again.\<close>

theorem scheduler_round_robin:
  assumes "table_ok e is" and "case last_scheduled e of None \<Rightarrow> True | Some q \<Rightarrow> q \<in> set is"
  shows "\<exists>r e'. scheduler hart e = Some (r, e') \<and> r = find (runnable e) (round_robin is (last_scheduled e)) \<and>
    same_procs (set_option r) e e' \<and> last_scheduled e' = (case r of None \<Rightarrow> last_scheduled e | Some i \<Rightarrow> Some i) \<and>
    \<not> sl_lock (proc_lock e') \<and> \<not> sl_lock (sched_lock e')"
  using assms by (rule scheduler_picks)


definition example_proc :: proc where
  "example_proc = \<lparr>page_csr = 0, user_pc = 0, trapframe = \<lparr>ra = 0, sp = 0, gp = 0, tp = 0, t0 = 0, t1 = 0, t2 = 0,
     s0 = 0, s1 = 0, a0 = 0, a1 = 0, a2 = 0, a3 = 0, a4 = 0, a5 = 0, a6 = 0, a7 = 0, s2 = 0, s3 = 0, s4 = 0, s5 = 0,
     s6 = 0, s7 = 0, s8 = 0, s9 = 0, s10 = 0, s11 = 0, t3 = 0, t4 = 0, t5 = 0, t6 = 0\<rparr>, page_dir = 0, pid = 1,
     status = 0x12, parent = None, kernel_stack = 0, exit_status = 0, pr_lock = \<lparr>sl_lock = False, sl_cpu = 0\<rparr>,
     pname = [], waiting_chan = 0, start_tick = 0, stack_top = 0, stack_bottom = 0, prog_size = 0,
     prog_image_start = 0, prog_break = 0, prog_brk_pg_end = 0, files = replicate 128 None, cwd = 0\<rparr>"

text \<open>Two processes: the first has just run, the second is ready.\<close>

definition example_env :: env where
  "example_env = \<lparr>ticks = 0, ticks_lock = \<lparr>sl_lock = False, sl_cpu = 0\<rparr>,
     procs = [1 \<mapsto> example_proc\<lparr>status := 0x111, waiting_chan := 77\<rparr>, 2 \<mapsto> example_proc\<lparr>pid := 2\<rparr>],
     links = \<lparr>lnext = (\<lambda>_. LNull)(ProcsHead := ProcLink 1, ProcLink 1 := ProcLink 2, ProcLink 2 := ProcsHead),
              lprev = (\<lambda>_. LNull)(ProcsHead := ProcLink 2, ProcLink 1 := ProcsHead, ProcLink 2 := ProcLink 1)\<rparr>,
     proc_count = 3, proc_bitmap = [7], proc_lock = \<lparr>sl_lock = False, sl_cpu = 0\<rparr>,
     sched_lock = \<lparr>sl_lock = False, sl_cpu = 0\<rparr>, last_scheduled = Some 1\<rparr>"

lemma example_env_ok: "table_ok example_env [1, 2]"
  by (simp add: table_ok_def clist_def example_env_def example_proc_def)

theorem scheduler_round_robin_witness:
  "\<exists>e'. scheduler 0 example_env = Some (Some 2, e') \<and> last_scheduled e' = Some 2"
proof -
  have q: "case last_scheduled example_env of None \<Rightarrow> True | Some q \<Rightarrow> q \<in> set [1, 2]"
    by (simp add: example_env_def)
  have "find (runnable example_env) (round_robin [1, 2] (last_scheduled example_env)) = Some 2"
    by (simp add: round_robin_def example_env_def runnable_def schedulable_def example_proc_def PROC_RUNNABLE_def
        PROC_STATUS_READY_def PROC_STATUS_NORMAL_def PROC_STATUS_RUNNING_def)
  with scheduler_round_robin [OF example_env_ok q, of 0] show ?thesis by auto
qed

text \<open>A wake-up makes every process that waits on its channel ready, and changes no other
  process; table and process locks are free afterwards.\<close>

lemma wakeup_exactly_waiters:
  assumes "table_ok e is"
  shows "\<exists>e'. wakeup hart chan e = Some e' \<and> table_ok e' is \<and>
    (\<forall>i p. i \<in> set is \<longrightarrow> procs e i = Some p \<longrightarrow>
       (\<exists>l. procs e' i = Some ((if has_status p PROC_STATUS_WAITING \<and> waiting_chan p = chan then wake p else p)\<lparr>pr_lock := l\<rparr>)))"
  using wakeup_table [OF assms] unfolding wake_if_waiting_def by blast

end
