(* ===== verification/Proc_Life.thy ===== *)
theory Proc_Life
  imports Proc_Sched
begin

text \<open>
  The life of a process in the process table: \<open>proc_alloc\<close> (\<open>kernel/proc/proc.c\<close>),
  \<open>do_fork\<close> (\<open>kernel/proc/fork.c\<close>), \<open>do_exit\<close> and \<open>do_wait\<close>
  (\<open>kernel/proc/exit.c\<close>).  What other components hand out (the kernel stack, the page
  directory, the three terminal files, the root directory) comes in as \<open>proc_res\<close>; their
  own effects, the copying and unmapping of memory and the reference counts of files, belong to
  those components.
\<close>

record proc_res =
  res_kstack :: nat
  res_pagedir :: nat
  res_tty_in :: nat
  res_tty_out :: nat
  res_root :: nat

definition zero_context :: trap_context where
  "zero_context = \<lparr>ra = 0, sp = 0, gp = 0, tp = 0, t0 = 0, t1 = 0, t2 = 0, s0 = 0, s1 = 0, a0 = 0, a1 = 0, a2 = 0,
     a3 = 0, a4 = 0, a5 = 0, a6 = 0, a7 = 0, s2 = 0, s3 = 0, s4 = 0, s5 = 0, s6 = 0, s7 = 0, s8 = 0, s9 = 0,
     s10 = 0, s11 = 0, t3 = 0, t4 = 0, t5 = 0, t6 = 0\<rparr>"

text \<open>The process object right after \<open>memset\<close> and \<open>spinlock_init\<close>, with its pid.\<close>

definition zero_proc :: "nat \<Rightarrow> proc" where
  "zero_proc i = \<lparr>page_csr = 0, user_pc = 0, trapframe = zero_context, page_dir = 0, pid = i, status = 0, parent = None,
     kernel_stack = 0, exit_status = 0, pr_lock = \<lparr>sl_lock = False, sl_cpu = 0\<rparr>, pname = [], waiting_chan = 0,
     start_tick = 0, stack_top = 0, stack_bottom = 0, prog_size = 0, prog_image_start = 0, prog_break = 0,
     prog_brk_pg_end = 0, files = replicate MAX_FILE_OPEN None, cwd = 0\<rparr>"

definition PAGING_MODE_SV39 :: u64 where
  "PAGING_MODE_SV39 = 8"

definition satp_of :: "nat \<Rightarrow> u64" where
  "satp_of pgdir = of_nat (pgdir div PG_SIZE) OR push_bit 60 PAGING_MODE_SV39"

text \<open>The result is the pid of the new process, its lock held, or \<open>None\<close> for \<open>NULL\<close>.\<close>

definition proc_alloc :: "nat \<Rightarrow> proc_res \<Rightarrow> env \<Rightarrow> (nat option \<times> env) option" where
  "proc_alloc hart res e = do {
     e \<leftarrow> acquire_table hart e;
     (i, bm) \<leftarrow> set_first_unset_bit (proc_bitmap e)
        (MAX_PROC div BITS_PER_BITSET + (if MAX_PROC mod BITS_PER_BITSET \<noteq> 0 then 1 else 0));
     let e = e\<lparr>proc_bitmap := bm\<rparr>;
     if i = NO_BIT then do { e \<leftarrow> release_table hart e; Some (None, e) }
     else do {
       let e = e\<lparr>procs := (procs e)(i \<mapsto> zero_proc i), proc_count := proc_count e + 1,
                 links := list_add (links e) (ProcLink i) ProcsHead\<rparr>;
       e \<leftarrow> acquire_proc hart i e;
       e \<leftarrow> release_table hart e;
       let L = links e;
       let e = e\<lparr>links := L\<lparr>lnext := (lnext L)(ChildrenHead i := ChildrenHead i),
                           lprev := (lprev L)(ChildrenHead i := ChildrenHead i)\<rparr>\<rparr>;
       e \<leftarrow> upd_proc i (\<lambda>p. p\<lparr>kernel_stack := res_kstack res, page_dir := res_pagedir res\<rparr>) e;
       if res_pagedir res = 0 then do { e \<leftarrow> release_proc hart i e; Some (None, e) }
       else do {
         e \<leftarrow> upd_proc i (\<lambda>p. p\<lparr>
             files := (files p)[0 := Some (res_tty_in res), 1 := Some (res_tty_out res), 2 := Some (res_tty_out res)],
             status := PROC_STATUS_NORMAL, cwd := res_root res, page_csr := satp_of (res_pagedir res)\<rparr>) e;
         Some (Some i, e) } } }"

definition stop_running :: "u32 \<Rightarrow> u32" where
  "stop_running st = (if st AND PROC_STATUS_RUNNING \<noteq> 0
     then (st AND NOT PROC_STATUS_RUNNING) OR PROC_STATUS_READY else st)"

definition child_name :: "u8 list \<Rightarrow> u8 list" where
  "child_name nm = (if length nm < PROC_NAME_SIZE - 4 then nm @ [0x2D, 0x31] else nm)"

text \<open>Entries 0 to 2 are the new process's own terminal; the others are shared with the parent.\<close>

definition fork_files :: "nat option list \<Rightarrow> nat option list \<Rightarrow> nat option list" where
  "fork_files child par = map (\<lambda>k. if 3 \<le> k \<and> par ! k \<noteq> None then par ! k else child ! k) [0..<MAX_FILE_OPEN]"

definition fork_child :: "proc \<Rightarrow> nat \<Rightarrow> u64 \<Rightarrow> u64 \<Rightarrow> proc \<Rightarrow> proc" where
  "fork_child par parent_id child_stack tick c = c\<lparr>
     parent := Some parent_id,
     prog_brk_pg_end := prog_brk_pg_end par, prog_image_start := prog_image_start par,
     prog_size := prog_size par, prog_break := prog_break par,
     stack_top := stack_top par, stack_bottom := stack_bottom par,
     files := fork_files (files c) (files par), cwd := cwd par, user_pc := user_pc par,
     status := stop_running (status par), waiting_chan := waiting_chan par,
     trapframe := (let t = (trapframe par)\<lparr>a0 := 0\<rparr> in if child_stack \<noteq> 0 then t\<lparr>sp := child_stack\<rparr> else t),
     pname := child_name (pname par), start_tick := tick\<rparr>"

text \<open>The body up to the final \<open>yield\<close>; \<open>-1\<close> is returned with the parent's lock still held.\<close>

definition do_fork :: "nat \<Rightarrow> proc_res \<Rightarrow> nat \<Rightarrow> u64 \<Rightarrow> env \<Rightarrow> (int \<times> env) option" where
  "do_fork hart res par child_stack e = do {
     e \<leftarrow> acquire_proc hart par e;
     e \<leftarrow> upd_proc par (\<lambda>p. p\<lparr>status := stop_running (status p)\<rparr>) e;
     (r, e) \<leftarrow> proc_alloc hart res e;
     case r of None \<Rightarrow> Some (- 1, e)
     | Some c \<Rightarrow> do {
         let e = e\<lparr>links := list_add (links e) (ChildLink c) (ChildrenHead par)\<rparr>;
         pp \<leftarrow> procs e par;
         tl \<leftarrow> lock_acquire hart (ticks_lock e);
         tl \<leftarrow> lock_release hart tl;
         let e = e\<lparr>ticks_lock := tl\<rparr>;
         e \<leftarrow> upd_proc c (fork_child pp par child_stack (ticks e)) e;
         e \<leftarrow> release_proc hart c e;
         e \<leftarrow> release_proc hart par e;
         Some (int c, e) } }"

text \<open>The reparenting loop of \<open>do_exit\<close>: it follows the links while it changes them.  A node that
  is not a child link is the head of another list, where \<open>container_of\<close> yields no process.\<close>

partial_function (option) reparent :: "nat \<Rightarrow> nat \<Rightarrow> nat \<Rightarrow> lnode \<Rightarrow> env \<Rightarrow> env option" where
  "reparent hart i par n e =
    (if n = ChildrenHead i then Some e
     else case n of
       ChildLink c \<Rightarrow> do {
         e \<leftarrow> acquire_proc hart c e;
         e \<leftarrow> upd_proc c (\<lambda>p. p\<lparr>parent := Some par\<rparr>) e;
         let e = e\<lparr>links := list_add (links e) (ChildLink c) (ChildrenHead par)\<rparr>;
         e \<leftarrow> release_proc hart c e;
         reparent hart i par (lnext (links e) n) e }
     | _ \<Rightarrow> None)"

text \<open>\<open>do_exit\<close> up to its final \<open>yield\<close>.  The test \<open>parent->status | PROC_STATUS_WAITING\<close> is kept
  as it is written.\<close>

definition do_exit :: "nat \<Rightarrow> nat \<Rightarrow> u64 \<Rightarrow> env \<Rightarrow> env option" where
  "do_exit hart i ec e = do {
     e \<leftarrow> acquire_proc hart i e;
     p \<leftarrow> procs e i;
     kassert (pid p \<noteq> 1);
     par \<leftarrow> parent p;
     e \<leftarrow> acquire_proc hart par e;
     e \<leftarrow> reparent hart i par (lnext (links e) (ChildrenHead i)) e;
     e \<leftarrow> upd_proc i (\<lambda>p. p\<lparr>exit_status := ec, status := PROC_STATUS_STOP\<rparr>) e;
     e \<leftarrow> upd_proc par (\<lambda>p. if status p OR PROC_STATUS_WAITING \<noteq> 0 then wake p else p) e;
     e \<leftarrow> release_proc hart par e;
     release_proc hart i e }"

definition WNOHANG :: int where "WNOHANG = 1"

datatype wait_result = Waited nat u64 | WaitRet int | WaitSleeps

text \<open>One pass over the children.\<close>

fun wait_scan :: "nat \<Rightarrow> int \<Rightarrow> nat list \<Rightarrow> env \<Rightarrow> (nat option \<times> env) option" where
  "wait_scan hart waitfor [] e = Some (None, e)"
| "wait_scan hart waitfor (c # cs) e = do {
     e \<leftarrow> acquire_proc hart c e;
     p \<leftarrow> procs e c;
     if status p = PROC_STATUS_STOP \<and> (waitfor = - 1 \<or> waitfor = int (pid p)) then Some (Some c, e)
     else do { e \<leftarrow> release_proc hart c e; wait_scan hart waitfor cs e } }"

fun child_ids :: "lnode list \<Rightarrow> nat list option" where
  "child_ids [] = Some []"
| "child_ids (ChildLink c # ns) = map_option (Cons c) (child_ids ns)"
| "child_ids (_ # ns) = None"

text \<open>\<open>do_wait\<close> from taking the lock to returning or going to sleep on \<open>p\<close> itself (the
  pid stands for the address of the process object as a wait channel).  With
  \<open>WNOHANG\<close> it returns without releasing the lock.\<close>

definition do_wait :: "nat \<Rightarrow> nat \<Rightarrow> int \<Rightarrow> int \<Rightarrow> env \<Rightarrow> (wait_result \<times> env) option" where
  "do_wait hart i waitfor options e = do {
     e \<leftarrow> acquire_proc hart i e;
     ns \<leftarrow> list_entries (links e) (ChildrenHead i);
     cs \<leftarrow> child_ids ns;
     (r, e) \<leftarrow> wait_scan hart waitfor cs e;
     case r of
       Some c \<Rightarrow> do {
         p \<leftarrow> procs e c;
         let e = e\<lparr>links := list_del LNull (links e) (ChildLink c)\<rparr>;
         let e = e\<lparr>links := list_del LNull (links e) (ProcLink c)\<rparr>;
         let e = e\<lparr>procs := (procs e)(c := None)\<rparr>;
         e \<leftarrow> acquire_table hart e;
         bm \<leftarrow> clear_bit (proc_bitmap e) (pid p);
         e \<leftarrow> release_table hart (e\<lparr>proc_bitmap := bm\<rparr>);
         e \<leftarrow> release_proc hart i e;
         Some (Waited (pid p) (exit_status p), e) }
     | None \<Rightarrow>
         if options = WNOHANG then Some (WaitRet 0, e)
         else if cs = [] then do { e \<leftarrow> release_proc hart i e; Some (WaitRet (- 1), e) }
         else do { (_, e) \<leftarrow> sleep_begin hart None i (of_nat i) e; Some (WaitSleeps, e) } }"


subsection \<open>A new process\<close>

definition fresh_proc :: "nat \<Rightarrow> proc_res \<Rightarrow> nat \<Rightarrow> proc" where
  "fresh_proc hart res i = (zero_proc i)\<lparr>pr_lock := \<lparr>sl_lock = True, sl_cpu = hart\<rparr>,
     kernel_stack := res_kstack res, page_dir := res_pagedir res,
     files := (replicate MAX_FILE_OPEN None)[0 := Some (res_tty_in res), 1 := Some (res_tty_out res), 2 := Some (res_tty_out res)],
     status := PROC_STATUS_NORMAL, cwd := res_root res, page_csr := satp_of (res_pagedir res)\<rparr>"

definition own_ring :: "lnode links \<Rightarrow> nat \<Rightarrow> lnode links" where
  "own_ring L i = L\<lparr>lnext := (lnext L)(ChildrenHead i := ChildrenHead i),
     lprev := (lprev L)(ChildrenHead i := ChildrenHead i)\<rparr>"

lemma pid_words: "MAX_PROC div BITS_PER_BITSET + (if MAX_PROC mod BITS_PER_BITSET \<noteq> 0 then 1 else 0) = 1"
  by (simp add: MAX_PROC_def BITS_PER_BITSET_def)

lemma first_pid:
  assumes "length bm = 1" and "\<exists>j<32. \<not> bset_view bm j"
  shows "\<exists>i bm'. set_first_unset_bit bm 1 = Some (i, bm') \<and> i < 32 \<and> \<not> bset_view bm i \<and> length bm' = 1 \<and>
    (\<forall>j<32. bset_view bm' j = (j = i \<or> bset_view bm j))"
proof -
  from sfub_loop_spec [of 1 bm 0] assms(1) obtain i bm' where
    "set_first_unset_bit bm 1 = Some (i, bm')" "first_clear_spec bm 1 0 i bm'"
    by (auto simp: set_first_unset_bit_def)
  then show ?thesis using assms by (auto simp: first_clear_spec_def bset_size_def)
qed

lemma proc_alloc_spec:
  assumes "\<not> sl_lock (proc_lock e)" and "length (proc_bitmap e) = 1" and "\<exists>j<32. \<not> bset_view (proc_bitmap e) j"
    and "res_pagedir res \<noteq> 0"
  shows "\<exists>i bm. proc_alloc hart res e = Some (Some i, e\<lparr>proc_bitmap := bm, procs := (procs e)(i \<mapsto> fresh_proc hart res i),
      proc_count := proc_count e + 1, links := own_ring (list_add (links e) (ProcLink i) ProcsHead) i,
      proc_lock := (proc_lock e)\<lparr>sl_lock := False, sl_cpu := 0\<rparr>\<rparr>) \<and>
    i < 32 \<and> \<not> bset_view (proc_bitmap e) i \<and> length bm = 1 \<and>
    (\<forall>j<32. bset_view bm j = (j = i \<or> bset_view (proc_bitmap e) j))"
proof -
  obtain i bm where i: "set_first_unset_bit (proc_bitmap e) 1 = Some (i, bm)" "i < 32" "\<not> bset_view (proc_bitmap e) i"
    "length bm = 1" "\<forall>j<32. bset_view bm j = (j = i \<or> bset_view (proc_bitmap e) j)"
    using first_pid [OF assms(2,3)] by blast
  have nb: "i \<noteq> NO_BIT" using i(2) by (simp add: NO_BIT_def)
  have zl: "lock_acquire hart (pr_lock (zero_proc i)) = Some \<lparr>sl_lock = True, sl_cpu = hart\<rparr>"
    by (simp add: zero_proc_def lock_acquire_def spinlock_holding_def)
  have "proc_alloc hart res e = Some (Some i, e\<lparr>proc_bitmap := bm, procs := (procs e)(i \<mapsto> fresh_proc hart res i),
      proc_count := proc_count e + 1, links := own_ring (list_add (links e) (ProcLink i) ProcsHead) i,
      proc_lock := (proc_lock e)\<lparr>sl_lock := False, sl_cpu := 0\<rparr>\<rparr>)"
    using lock_acquire_free [OF assms(1), of hart] lock_release_held [of hart "proc_lock e"] i(1) nb assms(4) zl
    by (simp add: proc_alloc_def pid_words [simplified] acquire_table_def release_table_def acquire_proc_def upd_proc_def Let_def
        fresh_proc_def own_ring_def)
      (simp add: zero_proc_def)
  with i show ?thesis by blast
qed


text \<open>Processes, their pids and the list of all processes agree.\<close>

definition proc_wf :: "env \<Rightarrow> nat list \<Rightarrow> bool" where
  "proc_wf e is \<longleftrightarrow> table_ok e is \<and> dom (procs e) = set is \<and> length (proc_bitmap e) = 1 \<and>
     (\<forall>i\<in>set is. i < 32 \<and> bset_view (proc_bitmap e) i \<and> pid (the (procs e i)) = i)"

definition children :: "env \<Rightarrow> nat \<Rightarrow> nat list \<Rightarrow> bool" where
  "children e i cs \<longleftrightarrow> clist (links e) (ChildrenHead i) (map ChildLink cs)"

lemma list_add_other:
  assumes "clist L h xs" and "clist L h' ys" and "set (h # xs) \<inter> set (new # h' # ys) = {}"
  shows "clist (list_add L new h') h xs"
proof (rule clist_frame [OF assms(1)])
  fix x assume x: "x \<in> set (h # xs)"
  have "lnext L h' \<in> set (h' # ys)" using assms(2) by (cases ys) (auto simp: clist_def)
  then have "x \<noteq> lnext L h'" "x \<noteq> new" "x \<noteq> h'" using assms(3) x by auto
  then show "lnext (list_add L new h') x = lnext L x \<and> lprev (list_add L new h') x = lprev L x"
    by (simp add: list_add_def list_add_between_def Let_def)
qed

lemma own_ring_other:
  "clist L h xs \<Longrightarrow> ChildrenHead i \<notin> set (h # xs) \<Longrightarrow> clist (own_ring L i) h xs"
  by (erule clist_frame) (auto simp: own_ring_def)

lemma list_del_other:
  assumes "clist L h xs" and "clist L h' (ys @ x # zs)" and "set (h # xs) \<inter> set (h' # ys @ x # zs) = {}"
  shows "clist (list_del nil L x) h xs"
proof (rule clist_frame [OF assms(1)])
  fix a assume a: "a \<in> set (h # xs)"
  have p: "lpath L h' ys x" "lpath L x zs h'" using assms(2) by (simp_all add: clist_def lpath_append)
  have "lprev L x \<in> set (h' # ys @ x # zs)" "lnext L x \<in> set (h' # ys @ x # zs)"
    using lpath_ends [OF p(1)] lpath_ends [OF p(2)] by (auto split: if_splits)
  then have "a \<noteq> lprev L x" "a \<noteq> lnext L x" "a \<noteq> x" using assms(3) a by auto
  then show "lnext (list_del nil L x) a = lnext L a \<and> lprev (list_del nil L x) a = lprev L a"
    by (auto simp: list_del_def Let_def)
qed

lemma fork_rings:
  assumes "clist L ProcsHead (map ProcLink is)" and "clist L (ChildrenHead par) (map ChildLink ds)"
    and "c \<notin> set is" "c \<notin> set ds" "c \<noteq> par"
    and L2: "L2 = list_add (own_ring (list_add L (ProcLink c) ProcsHead) c) (ChildLink c) (ChildrenHead par)"
  shows "clist L2 ProcsHead (map ProcLink (c # is))" and "clist L2 (ChildrenHead par) (map ChildLink (c # ds))"
    and "clist L2 (ChildrenHead c) []"
proof -
  let ?L0 = "list_add L (ProcLink c) ProcsHead"
  let ?L1 = "own_ring ?L0 c"
  have p0: "clist ?L0 ProcsHead (map ProcLink (c # is))"
    using list_add_clist [OF assms(1), of "ProcLink c"] assms(3) by auto
  have c0: "clist ?L0 (ChildrenHead par) (map ChildLink ds)"
    by (rule list_add_other [OF assms(2,1)]) auto
  have p1: "clist ?L1 ProcsHead (map ProcLink (c # is))" by (rule own_ring_other [OF p0]) auto
  have c1: "clist ?L1 (ChildrenHead par) (map ChildLink ds)" by (rule own_ring_other [OF c0]) (use assms(5) in auto)
  have o1: "clist ?L1 (ChildrenHead c) []" by (simp add: clist_def own_ring_def)
  show "clist L2 ProcsHead (map ProcLink (c # is))"
    unfolding L2 by (rule list_add_other [OF p1 c1]) auto
  show "clist L2 (ChildrenHead par) (map ChildLink (c # ds))"
    unfolding L2 using list_add_clist [OF c1, of "ChildLink c"] assms(4) by auto
  show "clist L2 (ChildrenHead c) []"
    unfolding L2 by (rule list_add_other [OF o1 c1]) (use assms(5) in auto)
qed

lemma do_fork_spec:
  assumes wf: "proc_wf e is" and par: "procs e par = Some p" and ch: "children e par ds" "set ds \<subseteq> set is"
    and fr: "\<exists>j<32. \<not> bset_view (proc_bitmap e) j" and pg: "res_pagedir res \<noteq> 0" and tk: "\<not> sl_lock (ticks_lock e)"
  shows "\<exists>c e' l l'. do_fork hart res par child_stack e = Some (int c, e') \<and> c \<notin> set is \<and> proc_wf e' (c # is) \<and>
    children e' par (c # ds) \<and> children e' c [] \<and>
    procs e' = (procs e)(par \<mapsto> p\<lparr>status := stop_running (status p), pr_lock := l\<rparr>,
      c \<mapsto> (fork_child (p\<lparr>status := stop_running (status p)\<rparr>) par child_stack (ticks e) (fresh_proc hart res c))\<lparr>pr_lock := l'\<rparr>)"
proof -
  have tb: "table_ok e is" and dm: "dom (procs e) = set is" and bl: "length (proc_bitmap e) = 1"
    and bits: "\<forall>i\<in>set is. i < 32 \<and> bset_view (proc_bitmap e) i \<and> pid (the (procs e i)) = i"
    using wf by (simp_all add: proc_wf_def)
  have pin: "par \<in> set is" using par dm by auto
  then have pl: "\<not> sl_lock (pr_lock p)" using tb par by (auto simp: table_ok_def)
  have tl: "\<not> sl_lock (proc_lock e)" using tb by (simp add: table_ok_def)
  let ?p1 = "p\<lparr>pr_lock := (pr_lock p)\<lparr>sl_lock := True, sl_cpu := hart\<rparr>, status := stop_running (status p)\<rparr>"
  let ?e1 = "e\<lparr>procs := (procs e)(par \<mapsto> ?p1)\<rparr>"
  obtain c bm where c: "proc_alloc hart res ?e1 = Some (Some c, ?e1\<lparr>proc_bitmap := bm, procs := (procs ?e1)(c \<mapsto> fresh_proc hart res c),
      proc_count := proc_count e + 1, links := own_ring (list_add (links e) (ProcLink c) ProcsHead) c,
      proc_lock := (proc_lock e)\<lparr>sl_lock := False, sl_cpu := 0\<rparr>\<rparr>)"
    "c < 32" "\<not> bset_view (proc_bitmap e) c" "length bm = 1"
    "\<forall>j<32. bset_view bm j = (j = c \<or> bset_view (proc_bitmap e) j)"
    using proc_alloc_spec [of ?e1 res hart] tl bl fr pg by auto
  have cn: "c \<notin> set is" using bits c(3) by auto
  then have cp: "c \<noteq> par" "c \<notin> set ds" using pin ch(2) by auto
  let ?l = "(pr_lock p)\<lparr>sl_lock := False, sl_cpu := 0\<rparr>" and ?l' = "\<lparr>sl_lock = False, sl_cpu = 0\<rparr>"
  let ?child = "(fork_child ?p1 par child_stack (ticks e) (fresh_proc hart res c))\<lparr>pr_lock := ?l'\<rparr>"
  let ?L2 = "list_add (own_ring (list_add (links e) (ProcLink c) ProcsHead) c) (ChildLink c) (ChildrenHead par)"
  let ?e' = "e\<lparr>proc_bitmap := bm, procs := (procs e)(par \<mapsto> ?p1\<lparr>pr_lock := ?l\<rparr>, c \<mapsto> ?child), proc_count := proc_count e + 1,
    links := ?L2, proc_lock := (proc_lock e)\<lparr>sl_lock := False, sl_cpu := 0\<rparr>,
    ticks_lock := (ticks_lock e)\<lparr>sl_lock := False, sl_cpu := 0\<rparr>\<rparr>"
  have fl: "pr_lock (fork_child q par child_stack t (fresh_proc hart res c)) = \<lparr>sl_lock = True, sl_cpu = hart\<rparr>" for q t
    by (simp add: fork_child_def fresh_proc_def)
  have rl: "lock_release hart \<lparr>sl_lock = True, sl_cpu = hart\<rparr> = Some ?l'"
    by (simp add: lock_release_def spinlock_holding_def)
  have run: "do_fork hart res par child_stack e = Some (int c, ?e')"
    using par lock_acquire_free [OF pl, of hart] lock_release_held [of hart "pr_lock p"] c(1)
      lock_acquire_free [OF tk, of hart] lock_release_held [of hart "ticks_lock e"] cp rl
    by (simp add: do_fork_def acquire_proc_def upd_proc_def release_proc_def Let_def fl fun_upd_twist)
  have rings: "clist ?L2 ProcsHead (map ProcLink (c # is))" "clist ?L2 (ChildrenHead par) (map ChildLink (c # ds))"
    "clist ?L2 (ChildrenHead c) []"
    using fork_rings [of "links e" "is" par ds c ?L2] tb ch(1) cn cp by (auto simp: table_ok_def children_def)
  have "table_ok ?e' (c # is)"
    using rings(1) tb cp by (auto simp: table_ok_def)
  moreover have "pid ?child = c" "pid ?p1 = par" using bits pin par by (auto simp: fork_child_def fresh_proc_def zero_proc_def)
  ultimately have "proc_wf ?e' (c # is)"
    using dm bits c cp pin cn by (auto simp: proc_wf_def)
  moreover have "fork_child ?p1 par child_stack (ticks e) (fresh_proc hart res c)
      = fork_child (p\<lparr>status := stop_running (status p)\<rparr>) par child_stack (ticks e) (fresh_proc hart res c)"
    by (simp add: fork_child_def)
  ultimately show ?thesis
    using run cn rings by (intro exI [of _ c] exI [of _ ?e'] exI [of _ ?l] exI [of _ ?l']) (simp add: children_def)
qed


subsection \<open>Exit\<close>

lemma acquire_proc_links: "acquire_proc hart i e = Some e' \<Longrightarrow> links e' = links e"
  by (auto simp: acquire_proc_def option_steps)

lemma release_proc_links: "release_proc hart i e = Some e' \<Longrightarrow> links e' = links e"
  by (auto simp: release_proc_def option_steps)

lemma upd_proc_links: "upd_proc i f e = Some e' \<Longrightarrow> links e' = links e"
  by (auto simp: upd_proc_def option_steps)

text \<open>The loop moves each child to the front of the parent's list and then goes on from there: it
  never gets back to the head of the list it started in.\<close>

lemma reparent_no_return:
  assumes "reparent hart i par n e = Some e'"
  shows "\<not> ((\<exists>c. n = ChildLink c) \<and> (\<exists>d. lnext (links e) (ChildrenHead par) = ChildLink d))"
proof (rule reparent.raw_induct [OF _ assms, where P = "\<lambda>hart i par n e e'.
    \<not> ((\<exists>c. n = ChildLink c) \<and> (\<exists>d. lnext (links e) (ChildrenHead par) = ChildLink d))"])
  fix f hart i par n e e'
  assume IH: "\<And>hart i par n e e'. f hart i par n e = Some e' \<Longrightarrow>
      \<not> ((\<exists>c. n = ChildLink c) \<and> (\<exists>d. lnext (links e) (ChildrenHead par) = ChildLink d))"
    and eq: "(if n = ChildrenHead i then Some e
     else case n of
       ChildLink c \<Rightarrow> do {
         e \<leftarrow> acquire_proc hart c e;
         e \<leftarrow> upd_proc c (\<lambda>p. p\<lparr>parent := Some par\<rparr>) e;
         let e = e\<lparr>links := list_add (links e) (ChildLink c) (ChildrenHead par)\<rparr>;
         e \<leftarrow> release_proc hart c e;
         f hart i par (lnext (links e) n) e }
     | _ \<Rightarrow> None) = Some e'"
  show "\<not> ((\<exists>c. n = ChildLink c) \<and> (\<exists>d. lnext (links e) (ChildrenHead par) = ChildLink d))"
  proof
    assume "(\<exists>c. n = ChildLink c) \<and> (\<exists>d. lnext (links e) (ChildrenHead par) = ChildLink d)"
    then obtain c d where n: "n = ChildLink c" and d: "lnext (links e) (ChildrenHead par) = ChildLink d" by blast
    from eq n obtain e1 e2 e3 where st: "acquire_proc hart c e = Some e1"
      "upd_proc c (\<lambda>p. p\<lparr>parent := Some par\<rparr>) e1 = Some e2"
      "release_proc hart c (e2\<lparr>links := list_add (links e2) (ChildLink c) (ChildrenHead par)\<rparr>) = Some e3"
      "f hart i par (lnext (links e3) n) e3 = Some e'"
      by (auto simp: option_steps Let_def)
    have "links e3 = list_add (links e) (ChildLink c) (ChildrenHead par)"
      using st(1-3) acquire_proc_links upd_proc_links release_proc_links by fastforce
    then have "lnext (links e3) n = ChildLink d" "lnext (links e3) (ChildrenHead par) = ChildLink c"
      using n d by (simp_all add: list_add_def list_add_between_def Let_def)
    then show False using IH [OF st(4)] by blast
  qed
qed

lemma same_procs_take:
  assumes "procs e c = Some p" and "sl_lock l"
  shows "same_procs {c} e (e\<lparr>procs := (procs e)(c \<mapsto> p\<lparr>pr_lock := l\<rparr>)\<rparr>)"
  unfolding same_procs_def
proof (intro conjI allI)
  fix i
  show "case procs e i of None \<Rightarrow> procs (e\<lparr>procs := (procs e)(c \<mapsto> p\<lparr>pr_lock := l\<rparr>)\<rparr>) i = None
    | Some q \<Rightarrow> \<exists>l'. procs (e\<lparr>procs := (procs e)(c \<mapsto> p\<lparr>pr_lock := l\<rparr>)\<rparr>) i = Some (q\<lparr>pr_lock := l'\<rparr>) \<and>
        sl_lock l' = (i \<in> {c} \<or> sl_lock (pr_lock q))"
    using assms by (cases "i = c") (auto split: option.splits intro: exI [of _ l])
qed simp

lemma child_scan_spec:
  "unlocked e cs \<Longrightarrow> distinct cs \<Longrightarrow>
    \<exists>r e'. wait_scan hart waitfor cs e = Some (r, e') \<and>
      r = find (\<lambda>c. case procs e c of Some p \<Rightarrow> status p = PROC_STATUS_STOP \<and> (waitfor = - 1 \<or> waitfor = int (pid p)) | None \<Rightarrow> False) cs \<and>
      same_procs (set_option r) e e' \<and> proc_lock e' = proc_lock e \<and> proc_bitmap e' = proc_bitmap e \<and>
      (\<forall>j. j \<notin> set cs \<longrightarrow> procs e' j = procs e j)"
proof (induction cs arbitrary: e)
  case Nil
  then show ?case using same_procs_refl by simp
next
  case (Cons c cs)
  then obtain p where p: "procs e c = Some p" "\<not> sl_lock (pr_lock p)" by (auto simp: unlocked_def)
  let ?hit = "status p = PROC_STATUS_STOP \<and> (waitfor = - 1 \<or> waitfor = int (pid p))"
  let ?l = "(pr_lock p)\<lparr>sl_lock := True, sl_cpu := hart\<rparr>" and ?l' = "(pr_lock p)\<lparr>sl_lock := False, sl_cpu := 0\<rparr>"
  have acq: "acquire_proc hart c e = Some (e\<lparr>procs := (procs e)(c \<mapsto> p\<lparr>pr_lock := ?l\<rparr>)\<rparr>)"
    using p lock_acquire_free [OF p(2), of hart] by (simp add: acquire_proc_def)
  let ?e = "e\<lparr>procs := (procs e)(c \<mapsto> p\<lparr>pr_lock := ?l'\<rparr>)\<rparr>"
  show ?case
  proof (cases ?hit)
    case True
    then show ?thesis using acq p same_procs_take [OF p(1), of ?l]
      by (intro exI [of _ "Some c"] exI [of _ "e\<lparr>procs := (procs e)(c \<mapsto> p\<lparr>pr_lock := ?l\<rparr>)\<rparr>"]) auto
  next
    case False
    have sp: "same_procs {} e ?e" using p by (auto simp: same_procs_def split: option.splits)
    have "unlocked ?e cs" using Cons.prems by (auto simp: unlocked_def)
    moreover have "distinct cs" using Cons.prems by simp
    ultimately obtain r e' where r: "wait_scan hart waitfor cs ?e = Some (r, e')"
      "r = find (\<lambda>c. case procs ?e c of Some p \<Rightarrow> status p = PROC_STATUS_STOP \<and> (waitfor = - 1 \<or> waitfor = int (pid p)) | None \<Rightarrow> False) cs"
      "same_procs (set_option r) ?e e'" "proc_lock e' = proc_lock ?e" "proc_bitmap e' = proc_bitmap ?e"
      "\<forall>j. j \<notin> set cs \<longrightarrow> procs e' j = procs ?e j" using Cons.IH by blast
    have "find (\<lambda>c. case procs ?e c of Some p \<Rightarrow> status p = PROC_STATUS_STOP \<and> (waitfor = - 1 \<or> waitfor = int (pid p)) | None \<Rightarrow> False) cs
        = find (\<lambda>c. case procs e c of Some p \<Rightarrow> status p = PROC_STATUS_STOP \<and> (waitfor = - 1 \<or> waitfor = int (pid p)) | None \<Rightarrow> False) cs"
      by (rule find_cong) (use Cons.prems in auto)
    moreover have "wait_scan hart waitfor (c # cs) e = Some (r, e')"
      using acq False r(1) lock_release_held [of hart "pr_lock p"] by (auto simp: release_proc_def)
    ultimately show ?thesis
      using r p False same_procs_trans [OF sp r(3)] by (intro exI [of _ r] exI [of _ e']) (auto split: if_splits)
  qed
qed

lemma child_ids_map [simp]: "child_ids (map ChildLink cs) = Some cs"
  by (induction cs) auto

text \<open>Taking a child off both rings.\<close>

lemma reap_rings:
  assumes "clist L (ChildrenHead i) (map ChildLink cs)" and "clist L ProcsHead (map ProcLink is)"
    and "c \<in> set cs" "c \<in> set is"
    and L': "L' = list_del LNull (list_del LNull L (ChildLink c)) (ProcLink c)"
  shows "clist L' (ChildrenHead i) (map ChildLink (remove1 c cs))" and "clist L' ProcsHead (map ProcLink (remove1 c is))"
proof -
  obtain xs ys where cs: "cs = xs @ c # ys" "c \<notin> set xs" using assms(3) by (meson split_list_first)
  obtain us vs where is': "is = us @ c # vs" "c \<notin> set us" using assms(4) by (meson split_list_first)
  let ?L1 = "list_del LNull L (ChildLink c)"
  have c1: "clist ?L1 (ChildrenHead i) (map ChildLink xs @ map ChildLink ys)"
    by (rule list_del_clist) (use assms(1) cs in auto)
  have p1: "clist ?L1 ProcsHead (map ProcLink us @ ProcLink c # map ProcLink vs)"
    by (rule list_del_other [where h' = "ChildrenHead i" and ys = "map ChildLink xs" and zs = "map ChildLink ys"])
      (use assms(1,2) cs is' in auto)
  have "clist L' ProcsHead (map ProcLink us @ map ProcLink vs)"
    unfolding L' by (rule list_del_clist) (use p1 in auto)
  moreover have "clist L' (ChildrenHead i) (map ChildLink xs @ map ChildLink ys)"
    unfolding L' by (rule list_del_other [OF c1 p1]) auto
  ultimately show "clist L' (ChildrenHead i) (map ChildLink (remove1 c cs))"
    "clist L' ProcsHead (map ProcLink (remove1 c is))"
    using cs is' by (simp_all add: remove1_append)
qed

subsection \<open>Properties\<close>



definition example_res :: proc_res where
  "example_res = \<lparr>res_kstack = 0x80300000, res_pagedir = 0x80302000, res_tty_in = 1, res_tty_out = 2, res_root = 0\<rparr>"

text \<open>A table with processes 1 and 2, process 2 being the only child of process 1.\<close>

definition family_env :: env where
  "family_env = example_env\<lparr>
     procs := [1 \<mapsto> example_proc, 2 \<mapsto> example_proc\<lparr>pid := 2, parent := Some 1\<rparr>],
     links := \<lparr>lnext = (\<lambda>_. LNull)(ProcsHead := ProcLink 1, ProcLink 1 := ProcLink 2, ProcLink 2 := ProcsHead,
         ChildrenHead 1 := ChildLink 2, ChildLink 2 := ChildrenHead 1, ChildrenHead 2 := ChildrenHead 2),
       lprev = (\<lambda>_. LNull)(ProcsHead := ProcLink 2, ProcLink 1 := ProcsHead, ProcLink 2 := ProcLink 1,
         ChildrenHead 1 := ChildLink 2, ChildLink 2 := ChildrenHead 1, ChildrenHead 2 := ChildrenHead 2)\<rparr>\<rparr>"

lemma family_env_wf:
  "proc_wf family_env [1, 2]" "procs family_env 1 = Some example_proc" "children family_env 1 [2]"
  "\<not> bset_view (proc_bitmap family_env) 3" "\<not> sl_lock (ticks_lock family_env)"
  by (auto simp: proc_wf_def table_ok_def clist_def children_def family_env_def example_env_def example_proc_def bset_view_def)


text \<open>C28: a process that exits while it has a child never gets past the reparenting loop: with a
  child on its own list and some process on its parent's list (it is one itself), \<open>do_exit\<close> does
  not come to an end, whatever the state of the locks.\<close>

theorem do_exit_with_child_never_returns:
  assumes "procs e i = Some p" and "parent p = Some par"
    and "lnext (links e) (ChildrenHead i) = ChildLink c" and "lnext (links e) (ChildrenHead par) = ChildLink d"
  shows "do_exit hart i ec e = None"
proof (rule ccontr)
  assume "do_exit hart i ec e \<noteq> None"
  then obtain e1 e2 e3 q where e1: "acquire_proc hart i e = Some e1" "procs e1 i = Some q"
    "acquire_proc hart (the (parent q)) e1 = Some e2"
    "reparent hart i (the (parent q)) (lnext (links e2) (ChildrenHead i)) e2 = Some e3"
    by (auto simp: do_exit_def option_steps)
  have "links e2 = links e" using acquire_proc_links e1(1,3) by metis
  moreover have "parent q = Some par" using e1(1,2) assms(1,2) by (auto simp: acquire_proc_def option_steps)
  ultimately show False using reparent_no_return [OF e1(4)] assms(3,4) by simp
qed

theorem do_exit_with_child_never_returns_witness:
  "do_exit 0 2 0 (family_env\<lparr>links := (links family_env)\<lparr>lnext := (lnext (links family_env))(ChildrenHead 2 := ChildLink 3)\<rparr>\<rparr>) = None"
  by (rule do_exit_with_child_never_returns [where p = "example_proc\<lparr>pid := 2, parent := Some 1\<rparr>" and par = 1 and c = 3 and d = 2])
    (simp_all add: family_env_def)

text \<open>The exit of a process without children stops it, records its exit code, makes its parent
  ready, and leaves all other processes alone; the two locks are free again.\<close>

lemma do_exit_childless:
  assumes "procs e i = Some p" and "pid p \<noteq> 1" and "parent p = Some par" and "par \<noteq> i" and "procs e par = Some q"
    and "\<not> sl_lock (pr_lock p)" and "\<not> sl_lock (pr_lock q)" and "children e i []"
  shows "\<exists>e' l l'. do_exit hart i ec e = Some e' \<and> links e' = links e \<and>
    procs e' = (procs e)(i \<mapsto> p\<lparr>exit_status := ec, status := PROC_STATUS_STOP, pr_lock := l\<rparr>,
      par \<mapsto> (wake q)\<lparr>pr_lock := l'\<rparr>) \<and> \<not> sl_lock l \<and> \<not> sl_lock l'"
proof -
  have nil: "lnext (links e) (ChildrenHead i) = ChildrenHead i" using assms(8) by (simp add: children_def clist_def)
  have nz: "status r OR PROC_STATUS_WAITING \<noteq> 0" for r
  proof
    assume "status r OR PROC_STATUS_WAITING = 0"
    then have "bit (status r OR PROC_STATUS_WAITING) 8 = bit (0 :: u32) 8" by simp
    then show False by (simp add: PROC_STATUS_WAITING_def bit_simps)
  qed
  let ?l = "(pr_lock p)\<lparr>sl_lock := False, sl_cpu := 0\<rparr>" and ?l' = "(pr_lock q)\<lparr>sl_lock := False, sl_cpu := 0\<rparr>"
  let ?e' = "e\<lparr>procs := (procs e)(i \<mapsto> p\<lparr>exit_status := ec, status := PROC_STATUS_STOP, pr_lock := ?l\<rparr>,
      par \<mapsto> (wake q)\<lparr>pr_lock := ?l'\<rparr>)\<rparr>"
  have "do_exit hart i ec e = Some ?e'"
    using assms nil lock_acquire_free [OF assms(6), of hart] lock_acquire_free [OF assms(7), of hart]
      lock_release_held [of hart "pr_lock p"] lock_release_held [of hart "pr_lock q"]
    by (simp add: do_exit_def acquire_proc_def release_proc_def upd_proc_def reparent.simps wake_def nz fun_upd_twist)
  then show ?thesis by (intro exI [of _ ?e'] exI [of _ ?l] exI [of _ ?l']) simp
qed

text \<open>C29: when a child has stopped, \<open>do_wait\<close> reports the first such child (or the one waited for)
  with its exit code, takes it off both lists, forgets the process and frees its pid; otherwise no
  process is forgotten.\<close>

theorem do_wait_reaps:
  assumes "proc_wf e is" and "procs e i = Some p" and "children e i cs" and "set cs \<subseteq> set is" and "i \<notin> set cs"
    and "find (\<lambda>c. case procs e c of Some q \<Rightarrow> status q = PROC_STATUS_STOP \<and> (waitfor = - 1 \<or> waitfor = int (pid q)) | None \<Rightarrow> False) cs = Some c"
  shows "\<exists>e' q. procs e c = Some q \<and> do_wait hart i waitfor opt e = Some (Waited c (exit_status q), e') \<and>
    procs e' c = None \<and> (\<forall>j. j \<noteq> c \<longrightarrow> (procs e' j = None) = (procs e j = None)) \<and>
    children e' i (remove1 c cs) \<and> clist (links e') ProcsHead (map ProcLink (remove1 c is)) \<and>
    \<not> bset_view (proc_bitmap e') c"
proof -
  have tb: "table_ok e is" and dm: "dom (procs e) = set is" and bl: "length (proc_bitmap e) = 1"
    and bits: "\<forall>i\<in>set is. i < 32 \<and> bset_view (proc_bitmap e) i \<and> pid (the (procs e i)) = i"
    using assms(1) by (simp_all add: proc_wf_def)
  have "i \<in> set is" using assms(2) dm by auto
  then have pl: "\<not> sl_lock (pr_lock p)" using tb assms(2) by (auto simp: table_ok_def)
  have tl: "\<not> sl_lock (proc_lock e)" using tb by (simp add: table_ok_def)
  let ?l = "(pr_lock p)\<lparr>sl_lock := True, sl_cpu := hart\<rparr>" and ?l' = "(pr_lock p)\<lparr>sl_lock := False, sl_cpu := 0\<rparr>"
  let ?e1 = "e\<lparr>procs := (procs e)(i \<mapsto> p\<lparr>pr_lock := ?l\<rparr>)\<rparr>"
  let ?hit = "\<lambda>E c. case procs E c of Some q \<Rightarrow> status q = PROC_STATUS_STOP \<and> (waitfor = - 1 \<or> waitfor = int (pid q)) | None \<Rightarrow> False"
  have acq: "acquire_proc hart i e = Some ?e1"
    using assms(2) lock_acquire_free [OF pl, of hart] by (simp add: acquire_proc_def)
  have dcs: "distinct cs" using assms(3) by (auto simp: children_def clist_def distinct_map)
  have un: "unlocked ?e1 cs" using tb assms(4,5) by (auto simp: unlocked_def table_ok_def)
  have "find (?hit ?e1) cs = find (?hit e) cs" by (rule find_cong) (use assms(5) in auto)
  with child_scan_spec [OF un dcs, of hart waitfor] assms(6) obtain e2 where
    e2: "wait_scan hart waitfor cs ?e1 = Some (Some c, e2)" "same_procs {c} ?e1 e2"
    "proc_lock e2 = proc_lock e" "proc_bitmap e2 = proc_bitmap e" "\<forall>j. j \<notin> set cs \<longrightarrow> procs e2 j = procs ?e1 j" by auto
  have cin: "c \<in> set cs" and hit: "?hit e c" using assms(6) by (auto simp: find_Some_iff)
  then obtain q where q: "procs e c = Some q" by (auto split: option.splits)
  have "c \<in> set is" using cin assms(4) by auto
  then have cis: "c \<in> set is" "c \<noteq> i" "c < 32" "pid q = c"
    using cin assms(5) bspec [OF bits] q by (auto dest!: bspec [OF bits])
  obtain l where l: "procs e2 c = Some (q\<lparr>pr_lock := l\<rparr>)"
    using same_procs_D [OF e2(2), of c q] q cis(2) by auto
  have pi: "procs e2 i = Some (p\<lparr>pr_lock := ?l\<rparr>)" using e2(5) assms(5) by simp
  have lk: "links e2 = links e" using e2(2) by (simp add: same_procs_def)
  let ?L = "list_del LNull (list_del LNull (links e) (ChildLink c)) (ProcLink c)"
  have rings: "clist ?L (ChildrenHead i) (map ChildLink (remove1 c cs))" "clist ?L ProcsHead (map ProcLink (remove1 c is))"
    using reap_rings [of "links e" i cs "is" c] assms(3) tb cin cis(1) by (auto simp: children_def table_ok_def)
  obtain bm where bm: "clear_bit (proc_bitmap e) c = Some bm" "\<not> bset_view bm c"
    using clear_bit_spec [of c "proc_bitmap e"] bl cis(3) by (auto simp: bset_size_def)
  let ?e' = "e2\<lparr>links := ?L, procs := (procs e2)(c := None, i \<mapsto> p\<lparr>pr_lock := ?l'\<rparr>), proc_bitmap := bm,
    proc_lock := (proc_lock e)\<lparr>sl_lock := False, sl_cpu := 0\<rparr>\<rparr>"
  have "list_entries (links e) (ChildrenHead i) = Some (map ChildLink cs)"
    using assms(3) list_entries_clist by (simp add: children_def)
  then have "do_wait hart i waitfor opt e = Some (Waited c (exit_status q), ?e')"
    using acq e2(1,3,4) l lk pi cis(2,4) bm(1) lock_acquire_free [OF tl, of hart]
      lock_release_held [of hart "proc_lock e"] lock_release_held [of hart "pr_lock p"]
    by (simp add: do_wait_def acquire_table_def release_table_def release_proc_def Let_def)
  moreover have "(procs ?e' j = None) = (procs e j = None)" if "j \<noteq> c" for j
    using that same_procs_D [OF e2(2), of j] same_procs_N [OF e2(2), of j] assms(2)
    by (cases "procs e j"; cases "j = i") auto
  ultimately show ?thesis using q rings bm(2) cis(2) by (intro exI [of _ ?e'] exI [of _ q]) (simp add: children_def)
qed

theorem do_wait_reaps_witness:
  "\<exists>e' q. do_wait 0 1 (- 1) 0 (family_env\<lparr>procs := (procs family_env)(2 \<mapsto>
      example_proc\<lparr>pid := 2, parent := Some 1, status := PROC_STATUS_STOP, exit_status := 7\<rparr>)\<rparr>) = Some (Waited 2 7, e') \<and>
    procs e' 2 = None"
proof -
  let ?q = "example_proc\<lparr>pid := 2, parent := Some 1, status := PROC_STATUS_STOP, exit_status := 7\<rparr>"
  let ?e = "family_env\<lparr>procs := (procs family_env)(2 \<mapsto> ?q)\<rparr>"
  have "proc_wf ?e [1, 2]" "procs ?e 1 = Some example_proc" "children ?e 1 [2]"
    by (auto simp: proc_wf_def table_ok_def clist_def children_def family_env_def example_env_def example_proc_def bset_view_def)
  moreover have "find (\<lambda>c. case procs ?e c of Some q \<Rightarrow> status q = PROC_STATUS_STOP \<and> ((- 1 :: int) = - 1 \<or> - 1 = int (pid q)) | None \<Rightarrow> False) [2] = Some 2"
    by simp
  ultimately show ?thesis using do_wait_reaps [of ?e "[1, 2]" 1 example_proc "[2]" "- 1" 2 0 0] by auto
qed

text \<open>\<open>do_wait\<close> with \<open>WNOHANG\<close> and no stopped child returns 0 with the caller's own process lock
  still taken: the next acquisition of it by the same hart panics.\<close>

lemma do_wait_nohang_keeps_lock:
  assumes "proc_wf e is" and "procs e i = Some p" and "children e i cs" and "set cs \<subseteq> set is" and "i \<notin> set cs"
    and "find (\<lambda>c. case procs e c of Some q \<Rightarrow> status q = PROC_STATUS_STOP \<and> (waitfor = - 1 \<or> waitfor = int (pid q)) | None \<Rightarrow> False) cs = None"
  shows "\<exists>e'. do_wait hart i waitfor WNOHANG e = Some (WaitRet 0, e') \<and> acquire_proc hart i e' = None"
proof -
  have tb: "table_ok e is" and dm: "dom (procs e) = set is" using assms(1) by (simp_all add: proc_wf_def)
  have "i \<in> set is" using assms(2) dm by auto
  then have pl: "\<not> sl_lock (pr_lock p)" using tb assms(2) by (auto simp: table_ok_def)
  let ?e1 = "e\<lparr>procs := (procs e)(i \<mapsto> p\<lparr>pr_lock := (pr_lock p)\<lparr>sl_lock := True, sl_cpu := hart\<rparr>\<rparr>)\<rparr>"
  let ?hit = "\<lambda>E c. case procs E c of Some q \<Rightarrow> status q = PROC_STATUS_STOP \<and> (waitfor = - 1 \<or> waitfor = int (pid q)) | None \<Rightarrow> False"
  have acq: "acquire_proc hart i e = Some ?e1"
    using assms(2) lock_acquire_free [OF pl, of hart] by (simp add: acquire_proc_def)
  have dcs: "distinct cs" using assms(3) by (auto simp: children_def clist_def distinct_map)
  have un: "unlocked ?e1 cs" using tb assms(4,5) by (auto simp: unlocked_def table_ok_def)
  have "find (?hit ?e1) cs = find (?hit e) cs" by (rule find_cong) (use assms(5) in auto)
  with child_scan_spec [OF un dcs, of hart waitfor] assms(6) obtain e2 where
    e2: "wait_scan hart waitfor cs ?e1 = Some (None, e2)" "\<forall>j. j \<notin> set cs \<longrightarrow> procs e2 j = procs ?e1 j" by auto
  have "list_entries (links e) (ChildrenHead i) = Some (map ChildLink cs)"
    using assms(3) list_entries_clist by (simp add: children_def)
  then have "do_wait hart i waitfor WNOHANG e = Some (WaitRet 0, e2)" using acq e2(1) by (simp add: do_wait_def)
  moreover have "acquire_proc hart i e2 = None" using e2(2) assms(5) by (simp add: acquire_proc_def lock_acquire_taken)
  ultimately show ?thesis by blast
qed

end
