(* ===== verification/Cstring.thy ===== *)
theory Cstring
  imports Prelude
begin

text \<open>
  \<open>kernel/lib/string.c\<close> on a byte-addressed memory.  Loops that run to a terminating zero may
  not find one and are \<open>partial_function\<close>s; \<open>cstr m a s\<close> says that the zero-terminated string
  \<open>s\<close> starts at \<open>a\<close>.  Addresses do not wrap around.
\<close>

type_synonym byte_mem = "nat \<Rightarrow> u8"

fun copy_backward :: "byte_mem \<Rightarrow> nat \<Rightarrow> nat \<Rightarrow> nat \<Rightarrow> byte_mem" where
  "copy_backward m d s 0 = m"
| "copy_backward m d s (Suc n) = copy_backward (m(d + n := m (s + n))) d s n"

fun copy_forward :: "byte_mem \<Rightarrow> nat \<Rightarrow> nat \<Rightarrow> nat \<Rightarrow> byte_mem" where
  "copy_forward m d s 0 = m"
| "copy_forward m d s (Suc n) = copy_forward (m(d := m s)) (d + 1) (s + 1) n"

definition memcpy :: "byte_mem \<Rightarrow> nat \<Rightarrow> nat \<Rightarrow> nat \<Rightarrow> byte_mem" where
  "memcpy m dst src sz =
    (if src < dst \<and> src + sz > dst then copy_backward m dst src sz else copy_forward m dst src sz)"

partial_function (option) strlen :: "byte_mem \<Rightarrow> nat \<Rightarrow> nat option" where
  "strlen m s = (if m s = 0 then Some 0 else Option.bind (strlen m (s + 1)) (\<lambda>n. Some (Suc n)))"

partial_function (option) strcpy_up :: "byte_mem \<Rightarrow> nat \<Rightarrow> nat \<Rightarrow> byte_mem option" where
  "strcpy_up m dst src =
    (let c = m src; m = m(dst := c) in if c \<noteq> 0 then strcpy_up m (dst + 1) (src + 1) else Some m)"

definition strcpy :: "byte_mem \<Rightarrow> nat \<Rightarrow> nat \<Rightarrow> byte_mem option" where
  "strcpy m dst src =
    (if src < dst then strcpy_up m dst src
     else do { n \<leftarrow> strlen m src; Some (memcpy m dst src (n + 1)) })"

fun memset :: "byte_mem \<Rightarrow> nat \<Rightarrow> u8 \<Rightarrow> nat \<Rightarrow> byte_mem" where
  "memset m s ch 0 = m"
| "memset m s ch (Suc n) = memset (m(s := ch)) (s + 1) ch n"

partial_function (option) strcmp :: "byte_mem \<Rightarrow> nat \<Rightarrow> nat \<Rightarrow> int option" where
  "strcmp m c1 c2 =
    (if m c1 \<noteq> m c2 then Some (if m c1 < m c2 then - 1 else 1)
     else if m c1 = 0 then Some 0
     else strcmp m (c1 + 1) (c2 + 1))"

fun memcmp :: "byte_mem \<Rightarrow> nat \<Rightarrow> nat \<Rightarrow> nat \<Rightarrow> int" where
  "memcmp m c1 c2 0 = 0"
| "memcmp m c1 c2 (Suc n) =
    (if m c1 \<noteq> m c2 then (if m c1 < m c2 then - 1 else 1) else memcmp m (c1 + 1) (c2 + 1) n)"

subsection \<open>Strings in memory\<close>

fun cstr :: "byte_mem \<Rightarrow> nat \<Rightarrow> u8 list \<Rightarrow> bool" where
  "cstr m a [] \<longleftrightarrow> m a = 0"
| "cstr m a (c # cs) \<longleftrightarrow> m a = c \<and> c \<noteq> 0 \<and> cstr m (a + 1) cs"

fun lex_cmp :: "u8 list \<Rightarrow> u8 list \<Rightarrow> int" where
  "lex_cmp [] [] = 0"
| "lex_cmp [] (y # ys) = - 1"
| "lex_cmp (x # xs) [] = 1"
| "lex_cmp (x # xs) (y # ys) = (if x = y then lex_cmp xs ys else if x < y then - 1 else 1)"

lemma copy_backward_spec:
  "s < d \<Longrightarrow> copy_backward m d s n a = (if d \<le> a \<and> a < d + n then m (s + (a - d)) else m a)"
  by (induction n arbitrary: m) (auto simp: less_Suc_eq)

lemma copy_forward_spec:
  "d \<le> s \<or> s + n \<le> d \<Longrightarrow> copy_forward m d s n a = (if d \<le> a \<and> a < d + n then m (s + (a - d)) else m a)"
proof (induction n arbitrary: m d s)
  case (Suc n)
  have "copy_forward (m(d := m s)) (d + 1) (s + 1) n a =
      (if d + 1 \<le> a \<and> a < d + 1 + n then (m(d := m s)) (s + 1 + (a - (d + 1))) else (m(d := m s)) a)"
    using Suc.prems by (intro Suc.IH) auto
  moreover have "\<exists>k. a = d + 1 + k" if "d + 1 \<le> a" using that by (metis le_Suc_ex)
  ultimately show ?case using Suc.prems by (cases "d + 1 \<le> a") auto
qed auto

lemma strlen_cstr: "cstr m a s \<Longrightarrow> strlen m a = Some (length s)"
  by (induction s arbitrary: a) (auto simp: strlen.simps)

lemma lex_cmp_0: "lex_cmp xs ys = 0 \<longleftrightarrow> xs = ys"
  by (induction xs ys rule: lex_cmp.induct) auto

lemma strcmp_lex: "cstr m a xs \<Longrightarrow> cstr m b ys \<Longrightarrow> strcmp m a b = Some (lex_cmp xs ys)"
proof (induction xs ys arbitrary: a b rule: lex_cmp.induct)
  case (4 x xs y ys)
  then show ?case by (auto simp: strcmp.simps [of m a b])
qed (auto simp: strcmp.simps word_gt_0)

lemma memset_spec: "memset m s ch n a = (if s \<le> a \<and> a < s + n then ch else m a)"
  by (induction n arbitrary: m s) auto

lemma memcmp_spec:
  "memcmp m a b n = lex_cmp (map (\<lambda>i. m (a + i)) [0..<n]) (map (\<lambda>i. m (b + i)) [0..<n])"
proof (induction n arbitrary: a b)
  case (Suc n)
  have "map (\<lambda>i. m (c + i)) [0..<Suc n] = m c # map (\<lambda>i. m (c + 1 + i)) [0..<n]" for c
    by (simp add: upt_conv_Cons map_Suc_upt [symmetric] del: upt_Suc)
  then show ?case using Suc [of "a + 1" "b + 1"] by (simp del: upt_Suc)
qed simp

subsection \<open>Properties\<close>

text \<open>\<open>memcpy\<close> copies correctly for every placement of the two ranges, overlapping or not: the
  destination ends up with what the source held before the call and nothing else changes.\<close>

lemma memcpy_moves:
  "memcpy m dst src sz a = (if dst \<le> a \<and> a < dst + sz then m (src + (a - dst)) else m a)"
  using copy_backward_spec [of src dst m sz a] copy_forward_spec [of dst src sz m a]
  by (auto simp: memcpy_def)

text \<open>\<open>strcmp\<close> of two strings terminates and compares them lexicographically as unsigned bytes;
  it is 0 exactly when they are equal.\<close>

lemma strcmp_lexicographic:
  assumes "cstr m a xs" and "cstr m b ys"
  shows "strcmp m a b = Some (lex_cmp xs ys) \<and> (strcmp m a b = Some 0 \<longleftrightarrow> xs = ys)"
  using strcmp_lex [OF assms] lex_cmp_0 by simp

end
