(* ===== verification/Printf.thy ===== *)
theory Printf
  imports Cstring
begin

text \<open>
  \<open>itoa\<close> and \<open>vsprintf\<close> of \<open>kernel/lib/stdlib.c\<close> and of the user library
  (\<open>userlib/stdlib.c\<close>).  The two differ in how \<open>itoa\<close> divides (unsigned in the kernel,
  signed in the library), in the conversion \<open>%p\<close>, which only the kernel has, and in the size
  of the inner buffer.  Strings that are built are lists of bytes; strings that arguments point
  to are read from memory.  Running past the end of the format or of a buffer is \<open>None\<close>.
\<close>

definition itoa_chars :: "u8 list" where
  "itoa_chars = map of_char ''ZYXWVUTSRQPONMLKJIHGFEDCBA9876543210123456789ABCDEFGHIJKLMNOPQRSTUVWXYZ''"

text \<open>The digit loop, least digit first; it is entered with a base of at least 2.\<close>

function itoa_digits :: "nat \<Rightarrow> nat \<Rightarrow> u8 list" where
  "itoa_digits base v = itoa_chars ! (35 + v mod base) #
     (if v div base = 0 \<or> base < 2 then [] else itoa_digits base (v div base))"
  by pat_completeness auto
termination
  by (relation "measure snd") (auto intro!: div_less_dividend intro: ccontr)

declare itoa_digits.simps [simp del]

text \<open>The exchange loop between \<open>low\<close> and \<open>ptr\<close>.\<close>

function swap_loop :: "u8 list \<Rightarrow> nat \<Rightarrow> nat \<Rightarrow> u8 list" where
  "swap_loop xs low ptr =
    (if low < ptr then swap_loop (xs[low := xs ! ptr, ptr := xs ! low]) (low + 1) (ptr - 1) else xs)"
  by pat_completeness auto
termination
  by (relation "measure (\<lambda>(xs, low, ptr). ptr - low)") auto

declare swap_loop.simps [simp del]

definition itoa :: "u64 \<Rightarrow> nat \<Rightarrow> u8 list" where
  "itoa value base =
    (if base < 2 \<or> base > 36 then []
     else
       let sign = (if sint value < 0 \<and> base = 10 then [0x2D] else []);
           str = sign @ itoa_digits base (unat value)
       in swap_loop str (length sign) (length str - 1))"

text \<open>Division and remainder of C, which round towards zero.\<close>

definition c_div :: "int \<Rightarrow> int \<Rightarrow> int" where
  "c_div a b = (if a < 0 then - (- a div b) else a div b)"

definition c_mod :: "int \<Rightarrow> int \<Rightarrow> int" where
  "c_mod a b = a - c_div a b * b"

function user_itoa_digits :: "int \<Rightarrow> int \<Rightarrow> u8 list" where
  "user_itoa_digits base v = itoa_chars ! nat (35 + c_mod v base) #
     (if c_div v base = 0 \<or> base < 2 then [] else user_itoa_digits base (c_div v base))"
  by pat_completeness auto
termination
proof (relation "measure (\<lambda>(base, v). nat \<bar>v\<bar>)")
  fix base v :: int
  assume a: "\<not> (c_div v base = 0 \<or> base < 2)"
  have "\<bar>c_div v base\<bar> = \<bar>v\<bar> div base"
  proof (cases "v < 0")
    case True
    then have "0 \<le> - v div base" using a by (simp add: pos_imp_zdiv_nonneg_iff)
    then show ?thesis using True by (simp add: c_div_def)
  next
    case False
    then have "0 \<le> v div base" using a by (simp add: pos_imp_zdiv_nonneg_iff)
    then show ?thesis using False by (simp add: c_div_def)
  qed
  moreover have "v \<noteq> 0" using a by (auto simp: c_div_def)
  then have "\<bar>v\<bar> div base < \<bar>v\<bar>" using a by (intro int_div_less_self) auto
  ultimately show "((base, c_div v base), base, v) \<in> measure (\<lambda>(base, v). nat \<bar>v\<bar>)" using \<open>v \<noteq> 0\<close> by simp
qed simp

declare user_itoa_digits.simps [simp del]

definition user_itoa :: "int \<Rightarrow> nat \<Rightarrow> u8 list" where
  "user_itoa value base =
    (if base < 2 \<or> base > 36 then []
     else
       let sign = (if value < 0 \<and> base = 10 then [0x2D] else []);
           str = sign @ user_itoa_digits (int base) value
       in swap_loop str (length sign) (length str - 1))"

subsection \<open>Formatting\<close>

text \<open>Flags, padding character, width and the long modifier in front of a conversion.\<close>

fun fmt_width :: "nat \<Rightarrow> u8 list \<Rightarrow> nat \<times> u8 list" where
  "fmt_width a [] = (a, [])"
| "fmt_width a (c # cs) = (if 0x30 \<le> c \<and> c \<le> 0x39 then fmt_width (a * 10 + unat (c - 0x30)) cs else (a, c # cs))"

record conv =
  align_type :: nat
  pad :: u8
  width :: nat
  longint :: bool

definition fmt_flag :: "u8 list \<Rightarrow> nat \<times> u8 list" where
  "fmt_flag fmt = (case fmt of
     c # cs \<Rightarrow> if c = 0x2D then (1, cs) else if c = 0x2E then (2, cs) else (0, fmt) | [] \<Rightarrow> (0, fmt))"

definition fmt_zero :: "u8 list \<Rightarrow> u8 \<times> u8 list" where
  "fmt_zero fmt = (case fmt of c # cs \<Rightarrow> if c = 0x30 then (0x30, cs) else (0x20, fmt) | [] \<Rightarrow> (0x20, fmt))"

definition fmt_long :: "u8 list \<Rightarrow> bool \<times> u8 list" where
  "fmt_long fmt = (case fmt of c # cs \<Rightarrow> if c = 0x6C then (True, cs) else (False, fmt) | [] \<Rightarrow> (False, fmt))"

definition fmt_conv :: "u8 list \<Rightarrow> conv \<times> u8 list" where
  "fmt_conv fmt =
    (let (ty, fmt) = fmt_flag fmt; (pd, fmt) = fmt_zero fmt; (w, fmt) = fmt_width 0 fmt; (l, fmt) = fmt_long fmt
     in (\<lparr>align_type = ty, pad = pd, width = w, longint = l\<rparr>, fmt))"

partial_function (option) read_cstr :: "byte_mem \<Rightarrow> nat \<Rightarrow> u8 list option" where
  "read_cstr m a = (if m a = 0 then Some [] else Option.bind (read_cstr m (a + 1)) (\<lambda>s. Some (m a # s)))"

definition int_arg :: "bool \<Rightarrow> u64 \<Rightarrow> u64" where
  "int_arg long a = (if long then a else signed_take_bit 31 a)"

text \<open>What one conversion puts into the inner buffer, and the arguments left.\<close>

definition fmt_inner :: "(u64 \<Rightarrow> nat \<Rightarrow> u8 list) \<Rightarrow> bool \<Rightarrow> nat \<Rightarrow> byte_mem \<Rightarrow> bool \<Rightarrow> u8 \<Rightarrow> u64 list \<Rightarrow> (u8 list \<times> u64 list) option" where
  "fmt_inner ita has_p bufsize m long c args =
    (if c = 0x63 then (case args of a # as \<Rightarrow> Some (if (ucast a :: u8) = 0 then [] else [ucast a], as) | [] \<Rightarrow> None)
     else if c = 0x78 then (case args of a # as \<Rightarrow> Some (ita (int_arg long a) 16, as) | [] \<Rightarrow> None)
     else if c = 0x70 \<and> has_p then (case args of a # as \<Rightarrow> Some ([0x30, 0x78] @ ita (int_arg long a) 16, as) | [] \<Rightarrow> None)
     else if c = 0x64 then (case args of
         a # as \<Rightarrow>
           let v = int_arg long a
           in Some (if sint v < 0 then 0x2D # ita (- v) 10 else ita v 10, as)
       | [] \<Rightarrow> None)
     else if c = 0x73 then (case args of
         a # as \<Rightarrow> do { s \<leftarrow> read_cstr m (unat a); kassert (length s < bufsize); Some (s, as) }
       | [] \<Rightarrow> None)
     else Some ([], args))"

definition fmt_pad :: "conv \<Rightarrow> u8 list \<Rightarrow> u8 list" where
  "fmt_pad cv inner =
    (let n = width cv - length inner
     in (if align_type cv = 0 then replicate n (pad cv)
         else if align_type cv = 2 then replicate (n div 2) (pad cv) else []) @
        inner @
        (if align_type cv = 1 then replicate n (pad cv)
         else if align_type cv = 2 then replicate (n div 2 + n mod 2) (pad cv) else []))"

lemma fmt_width_length: "length (snd (fmt_width a cs)) \<le> length cs"
  by (induction a cs rule: fmt_width.induct) (auto intro: le_SucI)

lemma fmt_parts_length:
  "length (snd (fmt_flag cs)) \<le> length cs" "length (snd (fmt_zero cs)) \<le> length cs" "length (snd (fmt_long cs)) \<le> length cs"
  by (auto simp: fmt_flag_def fmt_zero_def fmt_long_def split: list.splits)

lemma fmt_conv_length: "length (snd (fmt_conv cs)) \<le> length cs"
proof -
  have "snd (fmt_conv cs) = snd (fmt_long (snd (fmt_width 0 (snd (fmt_zero (snd (fmt_flag cs)))))))"
    by (simp add: fmt_conv_def Let_def split_beta)
  then show ?thesis
    using fmt_parts_length fmt_width_length by (metis order_trans)
qed

text \<open>The main loop.  A conversion at the very end of the format makes the loop step over the
  terminating zero.\<close>

function vsprintf_gen :: "(u64 \<Rightarrow> nat \<Rightarrow> u8 list) \<Rightarrow> bool \<Rightarrow> nat \<Rightarrow> byte_mem \<Rightarrow> u8 list \<Rightarrow> u64 list \<Rightarrow> u8 list option" where
  "vsprintf_gen ita has_p bufsize m [] args = Some []"
| "vsprintf_gen ita has_p bufsize m (c # fmt) args =
    (if c \<noteq> 0x25 then do { out \<leftarrow> vsprintf_gen ita has_p bufsize m fmt args; Some (c # out) }
     else if fmt \<noteq> [] \<and> hd fmt = 0x25 then do {
       out \<leftarrow> vsprintf_gen ita has_p bufsize m (tl fmt) args; Some (0x25 # out) }
     else case fmt_conv fmt of (cv, rest) \<Rightarrow>
       (case rest of [] \<Rightarrow> None
        | k # rest' \<Rightarrow> do {
            (inner, args) \<leftarrow> fmt_inner ita has_p bufsize m (longint cv) k args;
            out \<leftarrow> vsprintf_gen ita has_p bufsize m rest' args;
            Some (fmt_pad cv inner @ out) }))"
  by pat_completeness auto
termination
proof (relation "measure (\<lambda>(ita, has_p, bufsize, m, fmt, args). length fmt)", goal_cases)
  case (4 ita has_p bufsize m c fmt args cv rest k rest')
  then have "length (k # rest') \<le> length fmt" using fmt_conv_length [of fmt] by (metis snd_conv)
  then show ?case by simp
qed (auto simp: neq_Nil_conv)

declare vsprintf_gen.simps [simp del]

definition vsprintf :: "byte_mem \<Rightarrow> u8 list \<Rightarrow> u64 list \<Rightarrow> u8 list option" where
  "vsprintf = vsprintf_gen itoa True 1024"

definition user_vsprintf :: "byte_mem \<Rightarrow> u8 list \<Rightarrow> u64 list \<Rightarrow> u8 list option" where
  "user_vsprintf = vsprintf_gen (\<lambda>v base. user_itoa (sint v) base) False 512"

subsection \<open>Digits\<close>

definition digit_val :: "u8 \<Rightarrow> nat" where
  "digit_val c = (if c \<le> 57 then unat c - 48 else unat c - 55)"

definition value_of :: "nat \<Rightarrow> u8 list \<Rightarrow> nat" where
  "value_of base s = foldl (\<lambda>a c. a * base + digit_val c) 0 s"

lemma itoa_chars_list: "list_all (\<lambda>d. digit_val (itoa_chars ! (35 + d)) = d) [0..<36]"
  by (code_simp)

lemma itoa_chars_mirror_list: "list_all (\<lambda>d. itoa_chars ! (35 - d) = itoa_chars ! (35 + d)) [0..<36]"
  by (code_simp)

lemma digit_char: "d < 36 \<Longrightarrow> digit_val (itoa_chars ! (35 + d)) = d"
  using itoa_chars_list by (simp add: list_all_iff)

lemma digit_mirror: "d < 36 \<Longrightarrow> itoa_chars ! (35 - d) = itoa_chars ! (35 + d)"
  using itoa_chars_mirror_list by (simp add: list_all_iff)

lemma value_of_snoc: "value_of base (s @ [c]) = value_of base s * base + digit_val c"
  by (simp add: value_of_def)

lemma digits_value:
  "2 \<le> base \<Longrightarrow> base \<le> 36 \<Longrightarrow> value_of base (rev (itoa_digits base v)) = v"
proof (induction base v rule: itoa_digits.induct)
  case (1 base v)
  have d: "digit_val (itoa_chars ! (35 + v mod base)) = v mod base"
    using 1(2,3) by (intro digit_char) (meson less_le_trans mod_less_divisor zero_less_numeral order_less_le_trans)
  show ?case
  proof (cases "v div base = 0")
    case True
    then have "v mod base = v" using 1(2) by (metis div_mod_decomp add_0 mult_0)
    then show ?thesis using True d by (simp add: itoa_digits.simps [of base v] value_of_def)
  next
    case False
    then show ?thesis using 1 d by (simp add: itoa_digits.simps [of base v] value_of_snoc)
  qed
qed

lemma itoa_digits_nonempty [simp]: "itoa_digits base v \<noteq> []" "user_itoa_digits b w \<noteq> []"
  by (simp_all add: itoa_digits.simps [of base v] user_itoa_digits.simps [of b w])

lemma c_div_int:
  "c_div (int n) (int b) = int (n div b)" "c_div (- int n) (int b) = - int (n div b)"
  "c_mod (int n) (int b) = int (n mod b)" "c_mod (- int n) (int b) = - int (n mod b)"
proof -
  have d: "int n = int (n div b) * int b + int (n mod b)" by (metis div_mult_mod_eq of_nat_add of_nat_mult)
  show 1: "c_div (int n) (int b) = int (n div b)" "c_div (- int n) (int b) = - int (n div b)"
    by (auto simp: c_div_def zdiv_int)
  show "c_mod (int n) (int b) = int (n mod b)" "c_mod (- int n) (int b) = - int (n mod b)"
    unfolding c_mod_def 1 using d by linarith+
qed

lemma user_digits: "2 \<le> base \<Longrightarrow> base \<le> 36 \<Longrightarrow> user_itoa_digits (int base) v = itoa_digits base (nat \<bar>v\<bar>)"
proof (induction "int base" v rule: user_itoa_digits.induct)
  case (1 v)
  obtain n where v: "v = int n \<or> v = - int n" by (metis int_cases2)
  then have q: "nat \<bar>c_div v (int base)\<bar> = n div base" "c_div v (int base) = 0 \<longleftrightarrow> n div base = 0" "nat \<bar>v\<bar> = n"
    by (auto simp: c_div_int)
  have lt: "n mod base < 36" using 1(2,3) by (meson less_le_trans mod_less_divisor zero_less_numeral order_less_le_trans)
  then have "nat (35 - int (n mod base)) = 35 - n mod base" "nat (35 + int (n mod base)) = 35 + n mod base" by auto
  then have "itoa_chars ! nat (35 + c_mod v (int base)) = itoa_chars ! (35 + n mod base)"
    using digit_mirror [OF lt] v by (auto simp: c_div_int)
  then show ?case
    using 1 q by (auto simp: user_itoa_digits.simps [of "int base" v] itoa_digits.simps [of base n])
qed

text \<open>The exchange loop reverses its part of the string.\<close>

lemma swap_loop_rev: "bs \<noteq> [] \<Longrightarrow> swap_loop (as @ bs @ cs) (length as) (length as + length bs - 1) = as @ rev bs @ cs"
proof (induction "length bs" arbitrary: as bs cs rule: less_induct)
  case less
  show ?case
  proof (cases bs)
    case (Cons x ys)
    show ?thesis
    proof (cases ys rule: rev_cases)
      case Nil
      then show ?thesis using Cons by (simp add: swap_loop.simps)
    next
      case (snoc zs y)
      let ?xs = "as @ bs @ cs"
      have "?xs ! length as = x" "?xs ! (length as + length bs - 1) = y"
        using Cons snoc by (simp_all add: nth_append)
      then have st: "?xs[length as := ?xs ! (length as + length bs - 1), length as + length bs - 1 := ?xs ! length as]
          = (as @ [y]) @ zs @ (x # cs)"
        using Cons snoc by (simp add: list_update_append)
      have run: "swap_loop ?xs (length as) (length as + length bs - 1)
          = swap_loop ((as @ [y]) @ zs @ (x # cs)) (length as + 1) (length as + length bs - 1 - 1)"
        using Cons snoc st by (subst swap_loop.simps) simp
      show ?thesis
      proof (cases "zs = []")
        case True
        then show ?thesis using run Cons snoc by (simp add: swap_loop.simps)
      next
        case False
        then have "swap_loop ((as @ [y]) @ zs @ (x # cs)) (length (as @ [y])) (length (as @ [y]) + length zs - 1)
            = (as @ [y]) @ rev zs @ (x # cs)" using Cons snoc by (intro less.hyps) auto
        then show ?thesis using run Cons snoc by simp
      qed
    qed
  qed (use less in simp)
qed

lemma swap_loop_suffix: "bs \<noteq> [] \<Longrightarrow> swap_loop (as @ bs) (length as) (length (as @ bs) - 1) = as @ rev bs"
  using swap_loop_rev [of bs as "[]"] by simp

lemma itoa_eq:
  assumes "2 \<le> base" "base \<le> 36"
  shows "itoa v base = (if sint v < 0 \<and> base = 10 then [0x2D] else []) @ rev (itoa_digits base (unat v))"
    and "user_itoa w base = (if w < 0 \<and> base = 10 then [0x2D] else []) @ rev (itoa_digits base (nat \<bar>w\<bar>))"
  using assms swap_loop_suffix [of "itoa_digits base (unat v)" "if sint v < 0 \<and> base = 10 then [0x2D] else []"]
    swap_loop_suffix [of "itoa_digits base (nat \<bar>w\<bar>)" "if w < 0 \<and> base = 10 then [0x2D] else []"]
  by (simp_all add: itoa_def user_itoa_def user_digits Let_def)

subsection \<open>Properties\<close>



text \<open>The kernel's \<open>itoa\<close> of a negative value in base ten writes a minus sign and then the digits
  of the value read as unsigned, \<open>2 ^ 64\<close> minus its magnitude.\<close>

lemma itoa_negative_decimal:
  assumes "sint v < 0"
  shows "\<exists>s. itoa v 10 = 0x2D # s \<and> value_of 10 s = 2 ^ 64 - nat \<bar>sint v\<bar>"
proof -
  have "uint v = sint v + 2 ^ 64"
  proof -
    have b: "uint v < 2 ^ 64" "0 \<le> uint v" using uint_lt2p [of v] by simp_all
    have s: "sint v = (uint v + 2 ^ 63) mod 2 ^ 64 - 2 ^ 63"
      by (simp add: sint_uint signed_take_bit_eq_take_bit_shift take_bit_eq_mod)
    have "2 ^ 63 \<le> uint v"
    proof (rule ccontr)
      assume "\<not> 2 ^ 63 \<le> uint v"
      then have "(uint v + 2 ^ 63) mod 2 ^ 64 = uint v + 2 ^ 63" using b by (intro mod_pos_pos_trivial) auto
      then show False using s assms b(2) by simp
    qed
    then have "(uint v - 2 ^ 63) mod 2 ^ 64 = uint v - 2 ^ 63" using b by (intro mod_pos_pos_trivial) auto
    moreover have "(uint v + 2 ^ 63) mod 2 ^ 64 = (uint v - 2 ^ 63) mod 2 ^ 64"
      using mod_add_self2 [of "uint v - 2 ^ 63" "2 ^ 64"] by (simp add: algebra_simps)
    ultimately have "sint v = uint v - 2 ^ 63 - 2 ^ 63" using s by metis
    then show ?thesis by simp
  qed
  then have "unat v = 2 ^ 64 - nat \<bar>sint v\<bar>" using assms by (simp add: unat_eq_nat_uint)
  then show ?thesis using itoa_eq(1) [of 10 v] assms digits_value [of 10 "unat v"] by simp
qed

lemma itoa_chars_no_sign: "list_all (\<lambda>d. itoa_chars ! (35 + d) \<noteq> 0x2D) [0..<36]"
  by (code_simp)

lemma digits_no_sign: "2 \<le> base \<Longrightarrow> base \<le> 36 \<Longrightarrow> 0x2D \<notin> set (itoa_digits base v)"
proof (induction base v rule: itoa_digits.induct)
  case (1 base v)
  have "v mod base < 36" using 1(2,3) by (meson less_le_trans mod_less_divisor zero_less_numeral order_less_le_trans)
  then have "itoa_chars ! (35 + v mod base) \<noteq> 0x2D" using itoa_chars_no_sign by (simp add: list_all_iff)
  then show ?case using 1 by (auto simp: itoa_digits.simps [of base v])
qed

lemma sint_uminus: "sint (v :: u64) \<noteq> - (2 ^ 63) \<Longrightarrow> sint (- v) = - sint v"
proof -
  assume a: "sint v \<noteq> - (2 ^ 63)"
  have "sint v < 2 ^ 63" "- (2 ^ 63) \<le> sint v" using sint_lt [of v] sint_ge [of v] by simp_all
  moreover have "- v = word_of_int (- sint v)" by simp
  then have "sint (- v) = signed_take_bit 63 (- sint v)"
    using sint_sbintrunc' [of "- sint v", where ?'a = 64] by simp
  ultimately show ?thesis using a by (simp add: signed_take_bit_int_eq_self)
qed

lemma unat_sint: "0 \<le> sint (v :: u64) \<Longrightarrow> unat v = nat (sint v)"
proof -
  assume a: "0 \<le> sint v"
  have "uint (word_of_int (sint v) :: u64) = take_bit 64 (sint v)" by (simp only: unsigned_of_int) simp
  then have "take_bit 64 (sint v) = uint v" by simp
  moreover have "sint v < 2 ^ 64" using sint_lt [of v] by simp
  ultimately have "uint v = sint v" using a by (simp add: take_bit_int_eq_self)
  then show ?thesis by (simp add: unat_eq_nat_uint)
qed

definition dec_value :: "u8 list \<Rightarrow> int" where
  "dec_value s = (if s \<noteq> [] \<and> hd s = 0x2D then - int (value_of 10 (tl s)) else int (value_of 10 s))"

text \<open>Formatting a 64-bit number with \<open>%ld\<close> gives its decimal numeral: the text, read back, is
  the number.  (The most negative number is the exception, as its negation overflows.)\<close>

lemma vsprintf_long_decimal:
  assumes "sint v \<noteq> - (2 ^ 63)"
  shows "\<exists>s. vsprintf m [0x25, 0x6C, 0x64] [v] = Some s \<and> dec_value s = sint v"
proof -
  let ?s = "if sint v < 0 then 0x2D # itoa (- v) 10 else itoa v 10"
  have run: "vsprintf m [0x25, 0x6C, 0x64] [v] = Some ?s"
    by (simp add: vsprintf_def vsprintf_gen.simps fmt_conv_def fmt_flag_def fmt_zero_def fmt_long_def fmt_inner_def
        int_arg_def fmt_pad_def Let_def)
  have "dec_value ?s = sint v"
  proof (cases "sint v < 0")
    case True
    have m: "sint (- v) = - sint v" by (rule sint_uminus) (use assms in simp)
    then have "value_of 10 (itoa (- v) 10) = nat (- sint v)"
      using True itoa_eq(1) [of 10 "- v"] digits_value [of 10 "unat (- v)"] unat_sint [of "- v"] by simp
    then show ?thesis using True by (simp add: dec_value_def)
  next
    case False
    then have "itoa v 10 = rev (itoa_digits 10 (unat v))" using itoa_eq(1) [of 10 v] by simp
    moreover have "hd (rev (itoa_digits 10 (unat v))) \<noteq> 0x2D"
      using digits_no_sign [of 10 "unat v"] hd_in_set [of "rev (itoa_digits 10 (unat v))"] by auto
    ultimately show ?thesis
      using False digits_value [of 10 "unat v"] unat_sint [of v] by (simp add: dec_value_def)
  qed
  with run show ?thesis by blast
qed

end
