(* ===== verification/Usercopy.thy ===== *)
theory Usercopy
  imports Cstring
begin

text \<open>
  \<open>kernel/memory/usercopy.c\<close>: copies between kernel and user memory.  Both are parts of the one
  address space the kernel sees, split at \<open>KERNEL_MEM_START\<close>; \<open>umem\<close> is the bit of
  \<open>sstatus\<close> that lets the kernel touch user pages.  The bounds checks are done in 64-bit
  arithmetic, which wraps.
\<close>

definition KERNEL_MEM_START :: u64 where "KERNEL_MEM_START = 0x80000000"

definition umem_access_memcpy :: "byte_mem \<Rightarrow> u64 \<Rightarrow> u64 \<Rightarrow> u64 \<Rightarrow> bool \<times> byte_mem" where
  "umem_access_memcpy mem dst src sz = (False, memcpy mem (unat dst) (unat src) (unat sz))"

definition umemcpy :: "byte_mem \<Rightarrow> u64 \<Rightarrow> u64 \<Rightarrow> u64 \<Rightarrow> (bool \<times> byte_mem) option" where
  "umemcpy mem dst src sz =
    (if dst < KERNEL_MEM_START then
       if src \<ge> KERNEL_MEM_START then do {
         kassert (dst + sz < KERNEL_MEM_START);
         Some (umem_access_memcpy mem dst src sz) }
       else do {
         kassert (dst + sz < KERNEL_MEM_START);
         kassert (src + sz < KERNEL_MEM_START);
         Some (umem_access_memcpy mem dst src sz) }
     else if src < KERNEL_MEM_START then do {
       kassert (src + sz < KERNEL_MEM_START);
       Some (umem_access_memcpy mem dst src sz) }
     else None)"

text \<open>\<open>umemset\<close> clears the range whatever byte it is given.\<close>

definition umemset :: "byte_mem \<Rightarrow> u64 \<Rightarrow> u8 \<Rightarrow> u64 \<Rightarrow> (bool \<times> byte_mem) option" where
  "umemset mem dst c sz = do {
     kassert (dst < KERNEL_MEM_START);
     Some (False, memset mem (unat dst) 0 (unat sz)) }"

text \<open>\<open>kbuf\<close> is what \<open>kmalloc(len + 1)\<close> returns.  When that is \<open>NULL\<close> the access bit stays on.\<close>

definition ustrcpy_out :: "bool \<Rightarrow> byte_mem \<Rightarrow> u64 \<Rightarrow> u64 \<Rightarrow> (u64 \<times> bool \<times> byte_mem) option" where
  "ustrcpy_out umem mem ustr kbuf =
    (if ustr = 0 then Some (0, umem, mem)
     else do {
       len \<leftarrow> strlen mem (unat ustr);
       kassert (ustr + of_nat len + 1 < KERNEL_MEM_START);
       if kbuf = 0 then Some (0, True, mem)
       else do {
         let mem = memcpy mem (unat kbuf) (unat ustr) len;
         let mem = mem(unat kbuf + len := 0);
         Some (kbuf, False, mem) } })"

text \<open>\<open>ustrcpy_in\<close> gives \<open>kbuf\<close> back to \<open>kfree\<close> when it has copied it: the last component.\<close>

definition ustrcpy_in :: "bool \<Rightarrow> byte_mem \<Rightarrow> u64 \<Rightarrow> u64 \<Rightarrow> (bool \<times> byte_mem \<times> u64 option) option" where
  "ustrcpy_in umem mem ustr kbuf =
    (if ustr = 0 \<or> kbuf = 0 then Some (umem, mem, None)
     else do {
       len \<leftarrow> strlen mem (unat kbuf);
       kassert (ustr + of_nat len + 1 < KERNEL_MEM_START);
       let (umem, mem) = umem_access_memcpy mem ustr kbuf (of_nat len + 1);
       Some (umem, mem, Some kbuf) })"

lemma memcpy_at: "memcpy m dst src sz a = (if dst \<le> a \<and> a < dst + sz then m (src + (a - dst)) else m a)"
  using copy_backward_spec [of src dst m sz a] copy_forward_spec [of dst src sz m a]
  by (auto simp: memcpy_def)

lemma cstr_cong: "(\<And>i. i \<le> length s \<Longrightarrow> m' (b + i) = m (a + i)) \<Longrightarrow> cstr m a s \<Longrightarrow> cstr m' b s"
proof (induction s arbitrary: a b)
  case (Cons c s)
  have "m' b = m a" using Cons.prems(1) [of 0] by simp
  moreover have "cstr m' (b + 1) s"
  proof (rule Cons.IH [of _ "a + 1"])
    fix i assume "i \<le> length s"
    then show "m' (b + 1 + i) = m (a + 1 + i)" using Cons.prems(1) [of "Suc i"] by simp
  qed (use Cons.prems(2) in simp)
  ultimately show ?case using Cons.prems(2) by simp
qed (use add_0_right in \<open>force\<close>)

lemma cstr_end: "cstr m a s \<Longrightarrow> m (a + length s) = 0"
proof (induction s arbitrary: a)
  case (Cons c s)
  then show ?case using Cons.IH [of "a + 1"] by simp
qed simp

text \<open>Copying a string out of user memory and back in.  A user string below the kernel's memory
  is copied into the buffer with its terminator, copying it back to any place for which the bounds
  hold yields the same string there, nothing else is written, and user access is off afterwards.\<close>

lemma ustrcpy_round_trip:
  assumes "cstr mem (unat ustr) s" and "ustr \<noteq> 0" and "unat ustr + length s + 1 < 0x80000000"
    and "KERNEL_MEM_START \<le> kbuf" and "unat kbuf + length s + 1 < 2 ^ 64"
    and "udst \<noteq> 0" and "unat udst + length s + 1 < 0x80000000"
  shows "\<exists>mem1 mem2. ustrcpy_out umem mem ustr kbuf = Some (kbuf, False, mem1) \<and> cstr mem1 (unat kbuf) s \<and>
    ustrcpy_in False mem1 udst kbuf = Some (False, mem2, Some kbuf) \<and> cstr mem2 (unat udst) s \<and>
    (\<forall>a. \<not> (unat kbuf \<le> a \<and> a \<le> unat kbuf + length s) \<longrightarrow> \<not> (unat udst \<le> a \<and> a \<le> unat udst + length s) \<longrightarrow> mem2 a = mem a)"
proof -
  have k: "0x80000000 \<le> unat kbuf" using assms(4) by (simp add: KERNEL_MEM_START_def word_le_nat_alt)
  let ?n = "length s"
  let ?m1 = "(memcpy mem (unat kbuf) (unat ustr) ?n)(unat kbuf + ?n := 0)"
  let ?m2 = "memcpy ?m1 (unat udst) (unat kbuf) (?n + 1)"
  have n: "unat (of_nat ?n :: u64) = ?n" using assms(3) by (simp add: unat_of_nat take_bit_nat_eq_self)
  have ck: "x + of_nat ?n + 1 < KERNEL_MEM_START" if "unat x + ?n + 1 < 0x80000000" for x :: u64
    using that n by (simp add: KERNEL_MEM_START_def word_less_nat_alt unat_word_ariths)
  have out: "ustrcpy_out umem mem ustr kbuf = Some (kbuf, False, ?m1)"
    using strlen_cstr [OF assms(1)] assms(2) ck [OF assms(3)] k by (auto simp: ustrcpy_out_def Let_def)
  have c1: "cstr ?m1 (unat kbuf) s"
    by (rule cstr_cong [OF _ assms(1)]) (use cstr_end [OF assms(1)] in \<open>auto simp: memcpy_at\<close>)
  have "unat (of_nat ?n + 1 :: u64) = ?n + 1" using n assms(3) by (simp add: unat_word_ariths)
  then have inn: "ustrcpy_in False ?m1 udst kbuf = Some (False, ?m2, Some kbuf)"
    using strlen_cstr [OF c1] assms(6) ck [OF assms(7)] k by (auto simp: ustrcpy_in_def umem_access_memcpy_def Let_def)
  have "cstr ?m2 (unat udst) s" by (rule cstr_cong [OF _ c1]) (simp add: memcpy_at)
  moreover have "\<forall>a. \<not> (unat kbuf \<le> a \<and> a \<le> unat kbuf + ?n) \<longrightarrow> \<not> (unat udst \<le> a \<and> a \<le> unat udst + ?n) \<longrightarrow> ?m2 a = mem a"
    by (auto simp: memcpy_at)
  ultimately show ?thesis using out c1 inn by blast
qed

end
