(* ===== verification/Brk.thy ===== *)
theory Brk
  imports Paging_Props Proc
begin

text \<open>
  The program break, \<open>kernel/proc/brk.c\<close>.  The number of pages is computed as the current break's
  page minus the new one's in unsigned arithmetic, for growing as for shrinking.
\<close>

definition do_brk :: "nat \<Rightarrow> phys \<Rightarrow> memory_info \<Rightarrow> proc \<Rightarrow> u64 \<Rightarrow> (u64 \<times> proc \<times> phys \<times> memory_info) option" where
  "do_brk hart ph m p addr =
    (let current_brk = prog_break p
     in if addr = 0 then Some (current_brk, p, ph, m)
     else do {
       (ok, ph, m) \<leftarrow>
         (if PG_ROUNDDOWN current_brk \<noteq> PG_ROUNDDOWN addr then do {
            let pgs = (PG_ROUNDDOWN current_brk - PG_ROUNDDOWN addr) div 4096;
            if PG_ROUNDDOWN addr < PG_ROUNDDOWN current_brk then do {
              (ph, m) \<leftarrow> unmap_pages hart ph m (page_dir p) (PG_ROUNDDOWN current_brk) pgs True;
              Some (True, ph, m) }
            else do {
              (new_pa, m) \<leftarrow> page_alloc hart m pgs (PAGE_TYPE_USER OR PAGE_TYPE_INUSE);
              if new_pa = 0 then Some (False, ph, m)
              else do {
                (r, ph, m) \<leftarrow> map_pages hart ph m (page_dir p) (PG_ROUNDDOWN current_brk + 4096) (of_nat new_pa)
                  (4096 * pgs) PTE_TYPE_RW True False;
                Some (r = 0, ph, m) } } }
          else Some (True, ph, m));
       if \<not> ok then Some (- 1, p, ph, m)
       else do {
         let p = p\<lparr>prog_break := addr\<rparr>;
         let p = p\<lparr>prog_size := prog_break p - prog_image_start p\<rparr>;
         Some (addr, p, ph, m) } })"

lemma brk_pages_wrap:
  assumes "vpn c < vpn a" and "unat a < 2 ^ 38"
  shows "2 ^ 51 \<le> unat ((PG_ROUNDDOWN c - PG_ROUNDDOWN a) div 4096)"
proof -
  let ?x = "PG_ROUNDDOWN c - PG_ROUNDDOWN a" and ?d = "vpn a * 4096 - vpn c * 4096"
  have "unat (PG_ROUNDDOWN c) = vpn c * 4096" "unat (PG_ROUNDDOWN a) = vpn a * 4096" by (simp_all add: unat_PG_ROUNDDOWN vpn_def)
  moreover have "vpn a * 4096 < 2 ^ 38" using assms(2) unfolding vpn_def by (rule le_less_trans [rotated]) simp
  ultimately have "unat ?x = 2 ^ 64 - ?d" "?d < 2 ^ 38"
    using assms(1) by (simp_all add: unat_sub_if_size word_size)
  then have "2 ^ 63 div 4096 \<le> unat ?x div 4096" by (intro div_le_mono) simp
  then show ?thesis unfolding unat_div by simp
qed

lemma brk_grow_order:
  assumes "vpn c < vpn a" and "unat a < 2 ^ 38"
  shows "9 \<le> page_order ((PG_ROUNDDOWN c - PG_ROUNDDOWN a) div 4096)"
proof (rule ccontr)
  let ?p = "(PG_ROUNDDOWN c - PG_ROUNDDOWN a) div 4096"
  assume "\<not> 9 \<le> page_order ?p"
  moreover from this have "(2 :: nat) ^ page_order ?p \<le> 2 ^ 9" by (intro power_increasing) auto
  ultimately show False using page_order_covers [of ?p] brk_pages_wrap [OF assms] by (simp add: page_order_def)
qed

text \<open>A break can never be raised into another page.  The page count of a raise wraps around to
  \<open>2 ^ 51\<close> pages or more, the allocator has nothing that large, and \<open>do_brk\<close> returns \<open>-1\<close>
  with the process, the tables and the heap as they were.\<close>

lemma do_brk_cannot_grow:
  assumes "buddy_ok m n A" and "vpn (prog_break p) < vpn addr" and "unat addr < 2 ^ 38"
  shows "\<exists>l. do_brk hart ph m p addr = Some (- 1, p, ph, m\<lparr>mem_lock := l\<rparr>) \<and> \<not> sl_lock l"
proof -
  obtain F where F: "buddy_inv m n F A" "coalesced F" "\<not> sl_lock (mem_lock m)" using assms(1) by (auto simp: buddy_ok_def)
  let ?pgs = "(PG_ROUNDDOWN (prog_break p) - PG_ROUNDDOWN addr) div 4096"
  obtain l where l: "page_alloc hart m ?pgs (PAGE_TYPE_USER OR PAGE_TYPE_INUSE) = Some (0, m\<lparr>mem_lock := l\<rparr>)" "\<not> sl_lock l"
    using page_alloc_cases [OF F, of hart ?pgs "PAGE_TYPE_USER OR PAGE_TYPE_INUSE"] brk_grow_order [OF assms(2,3)] by auto
  have "unat (PG_ROUNDDOWN x) = vpn x * 4096" for x by (simp add: unat_PG_ROUNDDOWN vpn_def)
  then have "PG_ROUNDDOWN (prog_break p) < PG_ROUNDDOWN addr" using assms(2) by (simp add: word_less_nat_alt)
  moreover have "addr \<noteq> 0" using assms(2) by (auto simp: vpn_def)
  ultimately show ?thesis using l by (auto simp: do_brk_def Let_def)
qed

definition zeroed_proc :: proc where
  "zeroed_proc = \<lparr>page_csr = 0, user_pc = 0, trapframe = \<lparr>ra = 0, sp = 0, gp = 0, tp = 0, t0 = 0, t1 = 0, t2 = 0, s0 = 0, s1 = 0,
       a0 = 0, a1 = 0, a2 = 0, a3 = 0, a4 = 0, a5 = 0, a6 = 0, a7 = 0, s2 = 0, s3 = 0, s4 = 0, s5 = 0, s6 = 0, s7 = 0, s8 = 0,
       s9 = 0, s10 = 0, s11 = 0, t3 = 0, t4 = 0, t5 = 0, t6 = 0\<rparr>,
     page_dir = 0, pid = 1, status = 0, parent = None, kernel_stack = 0, exit_status = 0,
     pr_lock = \<lparr>sl_lock = False, sl_cpu = 0\<rparr>, pname = [], waiting_chan = 0, start_tick = 0, stack_top = 0, stack_bottom = 0,
     prog_size = 0, prog_image_start = 0, prog_break = 0, prog_brk_pg_end = 0, files = [], cwd = 0\<rparr>"

end
