(* ===== verification/RB_Tree.thy ===== *)
theory RB_Tree
  imports Prelude
begin

text \<open>
  The intrusive red-black trees of \<open>kernel/lib/rb_tree.c\<close>, on a store of nodes.  A node is named
  by its address, \<open>0\<close> is \<open>NULL\<close>, and an address that holds no node cannot be dereferenced.
  The two parts that \<open>parent_and_color\<close> packs into one word (node addresses are even) are two
  fields.  Loops that follow pointers need not end on a damaged tree, so they are
  \<open>partial_function\<close>s.
\<close>

definition RB_BLACK :: nat where "RB_BLACK = 0"

definition RB_RED :: nat where "RB_RED = 1"

record rb_node =
  rb_key :: u64
  rb_parent :: nat
  rb_color :: nat
  rb_L :: nat
  rb_R :: nat

type_synonym rb_store = "nat \<Rightarrow> rb_node option"

record rb_tree =
  rb_root :: nat
  rb_mem :: rb_store

definition upd_node :: "(rb_node \<Rightarrow> rb_node) \<Rightarrow> nat \<Rightarrow> rb_tree \<Rightarrow> rb_tree option" where
  "upd_node f n t = do { x \<leftarrow> rb_mem t n; Some (t\<lparr>rb_mem := (rb_mem t)(n \<mapsto> f x)\<rparr>) }"

definition GET_PARENT :: "rb_tree \<Rightarrow> nat \<Rightarrow> nat option" where
  "GET_PARENT t n = do { x \<leftarrow> rb_mem t n; Some (rb_parent x) }"

definition SET_PARENT :: "nat \<Rightarrow> nat \<Rightarrow> rb_tree \<Rightarrow> rb_tree option" where
  "SET_PARENT n p = upd_node (\<lambda>x. x\<lparr>rb_parent := p\<rparr>) n"

definition GET_COLOR :: "rb_tree \<Rightarrow> nat \<Rightarrow> nat option" where
  "GET_COLOR t n = do { x \<leftarrow> rb_mem t n; Some (rb_color x) }"

definition SET_COLOR :: "nat \<Rightarrow> nat \<Rightarrow> rb_tree \<Rightarrow> rb_tree option" where
  "SET_COLOR n c = upd_node (\<lambda>x. x\<lparr>rb_color := c\<rparr>) n"

definition GET_L :: "rb_tree \<Rightarrow> nat \<Rightarrow> nat option" where
  "GET_L t n = do { x \<leftarrow> rb_mem t n; Some (rb_L x) }"

definition GET_R :: "rb_tree \<Rightarrow> nat \<Rightarrow> nat option" where
  "GET_R t n = do { x \<leftarrow> rb_mem t n; Some (rb_R x) }"

definition GET_KEY :: "rb_tree \<Rightarrow> nat \<Rightarrow> u64 option" where
  "GET_KEY t n = do { x \<leftarrow> rb_mem t n; Some (rb_key x) }"

definition SET_L :: "nat \<Rightarrow> nat \<Rightarrow> rb_tree \<Rightarrow> rb_tree option" where
  "SET_L n c = upd_node (\<lambda>x. x\<lparr>rb_L := c\<rparr>) n"

definition SET_R :: "nat \<Rightarrow> nat \<Rightarrow> rb_tree \<Rightarrow> rb_tree option" where
  "SET_R n c = upd_node (\<lambda>x. x\<lparr>rb_R := c\<rparr>) n"

subsection \<open>Reading\<close>

partial_function (option) rb_search :: "rb_tree \<Rightarrow> nat \<Rightarrow> u64 \<Rightarrow> nat option" where
  "rb_search t x key =
    (if x = 0 then Some 0
     else do {
       k \<leftarrow> GET_KEY t x;
       if k = key then Some x
       else if key < k then do { l \<leftarrow> GET_L t x; rb_search t l key }
       else do { r \<leftarrow> GET_R t x; rb_search t r key } })"

partial_function (option) leftmost :: "rb_tree \<Rightarrow> nat \<Rightarrow> nat option" where
  "leftmost t x = do { l \<leftarrow> GET_L t x; if l \<noteq> 0 then leftmost t l else Some x }"

partial_function (option) rightmost :: "rb_tree \<Rightarrow> nat \<Rightarrow> nat option" where
  "rightmost t x = do { r \<leftarrow> GET_R t x; if r \<noteq> 0 then rightmost t r else Some x }"

partial_function (option) climb_R :: "rb_tree \<Rightarrow> nat \<Rightarrow> nat \<Rightarrow> nat option" where
  "climb_R t n p =
    (if p = 0 then Some 0
     else do {
       r \<leftarrow> GET_R t p;
       if n = r then do { q \<leftarrow> GET_PARENT t p; climb_R t p q } else Some p })"

partial_function (option) climb_L :: "rb_tree \<Rightarrow> nat \<Rightarrow> nat \<Rightarrow> nat option" where
  "climb_L t n p =
    (if p = 0 then Some 0
     else do {
       l \<leftarrow> GET_L t p;
       if n = l then do { q \<leftarrow> GET_PARENT t p; climb_L t p q } else Some p })"

definition rb_succ :: "rb_tree \<Rightarrow> nat \<Rightarrow> nat option" where
  "rb_succ t n = do {
     r \<leftarrow> GET_R t n;
     if r \<noteq> 0 then leftmost t r else do { p \<leftarrow> GET_PARENT t n; climb_R t n p } }"

definition rb_pred :: "rb_tree \<Rightarrow> nat \<Rightarrow> nat option" where
  "rb_pred t n = do {
     l \<leftarrow> GET_L t n;
     if l \<noteq> 0 then rightmost t l else do { p \<leftarrow> GET_PARENT t n; climb_L t n p } }"

subsection \<open>Rotations\<close>

definition rb_rotate_left :: "nat \<Rightarrow> rb_tree \<Rightarrow> rb_tree option" where
  "rb_rotate_left node t = do {
     right \<leftarrow> GET_R t node;
     kassert (right \<noteq> 0);
     parent \<leftarrow> GET_PARENT t node;
     rl \<leftarrow> GET_L t right;
     t \<leftarrow> SET_R node rl t;
     t \<leftarrow> (if rl \<noteq> 0 then SET_PARENT rl node t else Some t);
     t \<leftarrow> SET_L right node t;
     t \<leftarrow> SET_PARENT right parent t;
     t \<leftarrow> (if parent \<noteq> 0 then do {
            pl \<leftarrow> GET_L t parent;
            if node = pl then SET_L parent right t else SET_R parent right t }
          else Some (t\<lparr>rb_root := right\<rparr>));
     SET_PARENT node right t }"

definition rb_rotate_right :: "nat \<Rightarrow> rb_tree \<Rightarrow> rb_tree option" where
  "rb_rotate_right node t = do {
     left \<leftarrow> GET_L t node;
     kassert (left \<noteq> 0);
     parent \<leftarrow> GET_PARENT t node;
     lr \<leftarrow> GET_R t left;
     t \<leftarrow> SET_L node lr t;
     t \<leftarrow> (if lr \<noteq> 0 then SET_PARENT lr node t else Some t);
     t \<leftarrow> SET_R left node t;
     t \<leftarrow> SET_PARENT left parent t;
     t \<leftarrow> (if parent \<noteq> 0 then do {
            pr \<leftarrow> GET_R t parent;
            if node = pr then SET_R parent left t else SET_L parent left t }
          else Some (t\<lparr>rb_root := left\<rparr>));
     SET_PARENT node left t }"

subsection \<open>Insertion\<close>

text \<open>\<open>NULL\<close> has no colour to compare with; the source tests for it first.\<close>

definition is_red :: "rb_tree \<Rightarrow> nat \<Rightarrow> bool option" where
  "is_red t n = (if n = 0 then Some False else do { c \<leftarrow> GET_COLOR t n; Some (c = RB_RED) })"

text \<open>One turn of the loop of \<open>rb_insert_fixup\<close> with a red parent: the tree and the node the
  next turn looks at.\<close>

definition insert_fixup_step :: "rb_tree \<Rightarrow> nat \<Rightarrow> nat \<Rightarrow> (rb_tree \<times> nat) option" where
  "insert_fixup_step t node parent = do {
     gparent \<leftarrow> GET_PARENT t parent;
     gl \<leftarrow> GET_L t gparent;
     gr \<leftarrow> GET_R t gparent;
     if parent = gl then do {
       u \<leftarrow> is_red t gr;
       if u then do {
         t \<leftarrow> SET_COLOR gr RB_BLACK t;
         t \<leftarrow> SET_COLOR parent RB_BLACK t;
         t \<leftarrow> SET_COLOR gparent RB_RED t;
         Some (t, gparent) }
       else do {
         pr \<leftarrow> GET_R t parent;
         (t, parent, node) \<leftarrow>
           (if pr = node then do { t \<leftarrow> rb_rotate_left parent t; Some (t, node, parent) } else Some (t, parent, node));
         t \<leftarrow> SET_COLOR parent RB_BLACK t;
         t \<leftarrow> SET_COLOR gparent RB_RED t;
         t \<leftarrow> rb_rotate_right gparent t;
         Some (t, node) } }
     else if parent = gr then do {
       u \<leftarrow> is_red t gl;
       if u then do {
         t \<leftarrow> SET_COLOR gl RB_BLACK t;
         t \<leftarrow> SET_COLOR parent RB_BLACK t;
         t \<leftarrow> SET_COLOR gparent RB_RED t;
         Some (t, gparent) }
       else do {
         pl \<leftarrow> GET_L t parent;
         (t, parent, node) \<leftarrow>
           (if pl = node then do { t \<leftarrow> rb_rotate_right parent t; Some (t, node, parent) } else Some (t, parent, node));
         t \<leftarrow> SET_COLOR parent RB_BLACK t;
         t \<leftarrow> SET_COLOR gparent RB_RED t;
         t \<leftarrow> rb_rotate_left gparent t;
         Some (t, node) } }
     else None }"

partial_function (option) rb_insert_fixup :: "rb_tree \<Rightarrow> nat \<Rightarrow> rb_tree option" where
  "rb_insert_fixup t node = do {
     parent \<leftarrow> GET_PARENT t node;
     red \<leftarrow> is_red t parent;
     if red then do { (t, node) \<leftarrow> insert_fixup_step t node parent; rb_insert_fixup t node }
     else SET_COLOR (rb_root t) RB_BLACK t }"

text \<open>The descent: the existing node of that key, or the last node on the way.\<close>

partial_function (option) insert_descend :: "rb_tree \<Rightarrow> u64 \<Rightarrow> nat \<Rightarrow> nat \<Rightarrow> (nat \<times> bool) option" where
  "insert_descend t key y x =
    (if x = 0 then Some (y, False)
     else do {
       k \<leftarrow> GET_KEY t x;
       if key = k then Some (x, True)
       else if key < k then do { l \<leftarrow> GET_L t x; insert_descend t key x l }
       else do { r \<leftarrow> GET_R t x; insert_descend t key x r } })"

definition rb_insert :: "nat \<Rightarrow> rb_tree \<Rightarrow> (nat \<times> rb_tree) option" where
  "rb_insert n t = do {
     t \<leftarrow> SET_R n 0 t;
     t \<leftarrow> SET_L n 0 t;
     t \<leftarrow> SET_PARENT n 0 t;
     if rb_root t = 0 then do {
       t \<leftarrow> SET_COLOR n RB_BLACK t;
       t \<leftarrow> rb_insert_fixup (t\<lparr>rb_root := n\<rparr>) n;
       Some (0, t) }
     else do {
       key \<leftarrow> GET_KEY t n;
       (y, existed) \<leftarrow> insert_descend t key 0 (rb_root t);
       if existed then Some (y, t)
       else do {
         t \<leftarrow> SET_PARENT n y t;
         k \<leftarrow> GET_KEY t y;
         t \<leftarrow> (if key > k then SET_R y n t else SET_L y n t);
         t \<leftarrow> SET_COLOR n RB_RED t;
         t \<leftarrow> rb_insert_fixup t n;
         Some (0, t) } } }"

subsection \<open>Removal\<close>

definition is_black :: "rb_tree \<Rightarrow> nat \<Rightarrow> bool option" where
  "is_black t n = (if n = 0 then Some True else do { c \<leftarrow> GET_COLOR t n; Some (c = RB_BLACK) })"

text \<open>One turn of \<open>rb_remove_fixup\<close>: the tree, the next node and parent, and whether the loop is
  left.  The two halves, for a node on the left and on the right of its parent, first deal with a red
  sibling \<open>other\<close> and then with a black one.\<close>

definition red_other_left :: "nat \<Rightarrow> rb_tree \<Rightarrow> (rb_tree \<times> nat) option" where
  "red_other_left parent t = do {
     other \<leftarrow> GET_R t parent;
     oc \<leftarrow> GET_COLOR t other;
     if oc = RB_RED then do {
       t \<leftarrow> SET_COLOR other RB_BLACK t;
       t \<leftarrow> SET_COLOR parent RB_RED t;
       t \<leftarrow> rb_rotate_left parent t;
       other \<leftarrow> GET_R t parent;
       Some (t, other) }
     else Some (t, other) }"

definition settle_left :: "nat \<Rightarrow> nat \<Rightarrow> rb_tree \<Rightarrow> (rb_tree \<times> nat \<times> nat \<times> bool) option" where
  "settle_left parent other t = do {
     ol \<leftarrow> GET_L t other;
     orr \<leftarrow> GET_R t other;
     bl \<leftarrow> is_black t ol;
     br \<leftarrow> is_black t orr;
     if bl \<and> br then do {
       t \<leftarrow> SET_COLOR other RB_RED t;
       q \<leftarrow> GET_PARENT t parent;
       Some (t, parent, q, False) }
     else do {
       (t, other) \<leftarrow>
         (if br then do {
            t \<leftarrow> SET_COLOR ol RB_BLACK t;
            t \<leftarrow> SET_COLOR other RB_RED t;
            t \<leftarrow> rb_rotate_right other t;
            other \<leftarrow> GET_R t parent;
            Some (t, other) }
          else Some (t, other));
       pc \<leftarrow> GET_COLOR t parent;
       t \<leftarrow> SET_COLOR other pc t;
       t \<leftarrow> SET_COLOR parent RB_BLACK t;
       far \<leftarrow> GET_R t other;
       t \<leftarrow> SET_COLOR far RB_BLACK t;
       t \<leftarrow> rb_rotate_left parent t;
       Some (t, rb_root t, parent, True) } }"

definition red_other_right :: "nat \<Rightarrow> rb_tree \<Rightarrow> (rb_tree \<times> nat) option" where
  "red_other_right parent t = do {
     other \<leftarrow> GET_L t parent;
     oc \<leftarrow> GET_COLOR t other;
     if oc = RB_RED then do {
       t \<leftarrow> SET_COLOR other RB_BLACK t;
       t \<leftarrow> SET_COLOR parent RB_RED t;
       t \<leftarrow> rb_rotate_right parent t;
       other \<leftarrow> GET_L t parent;
       Some (t, other) }
     else Some (t, other) }"

definition settle_right :: "nat \<Rightarrow> nat \<Rightarrow> rb_tree \<Rightarrow> (rb_tree \<times> nat \<times> nat \<times> bool) option" where
  "settle_right parent other t = do {
     ol \<leftarrow> GET_L t other;
     orr \<leftarrow> GET_R t other;
     bl \<leftarrow> is_black t ol;
     br \<leftarrow> is_black t orr;
     if bl \<and> br then do {
       t \<leftarrow> SET_COLOR other RB_RED t;
       q \<leftarrow> GET_PARENT t parent;
       Some (t, parent, q, False) }
     else do {
       (t, other) \<leftarrow>
         (if bl then do {
            t \<leftarrow> SET_COLOR orr RB_BLACK t;
            t \<leftarrow> SET_COLOR other RB_RED t;
            t \<leftarrow> rb_rotate_left other t;
            other \<leftarrow> GET_L t parent;
            Some (t, other) }
          else Some (t, other));
       pc \<leftarrow> GET_COLOR t parent;
       t \<leftarrow> SET_COLOR other pc t;
       t \<leftarrow> SET_COLOR parent RB_BLACK t;
       far \<leftarrow> GET_L t other;
       t \<leftarrow> SET_COLOR far RB_BLACK t;
       t \<leftarrow> rb_rotate_right parent t;
       Some (t, rb_root t, parent, True) } }"

definition remove_fixup_step :: "rb_tree \<Rightarrow> nat \<Rightarrow> nat \<Rightarrow> (rb_tree \<times> nat \<times> nat \<times> bool) option" where
  "remove_fixup_step t node parent = do {
     pl \<leftarrow> GET_L t parent;
     if pl = node then do { (t, other) \<leftarrow> red_other_left parent t; settle_left parent other t }
     else do { (t, other) \<leftarrow> red_other_right parent t; settle_right parent other t } }"

partial_function (option) remove_fixup_loop :: "rb_tree \<Rightarrow> nat \<Rightarrow> nat \<Rightarrow> (rb_tree \<times> nat) option" where
  "remove_fixup_loop t node parent = do {
     b \<leftarrow> is_black t node;
     if b \<and> node \<noteq> rb_root t then do {
       (t, node, parent, left) \<leftarrow> remove_fixup_step t node parent;
       if left then Some (t, node) else remove_fixup_loop t node parent }
     else Some (t, node) }"

definition rb_remove_fixup :: "rb_tree \<Rightarrow> nat \<Rightarrow> nat \<Rightarrow> rb_tree option" where
  "rb_remove_fixup t node parent = do {
     (t, node) \<leftarrow> remove_fixup_loop t node parent;
     if node \<noteq> 0 then SET_COLOR node RB_BLACK t else Some t }"

text \<open>Unlinking a node with at most one child, and one whose successor takes its place.  Both give
  the child to start the fix-up from, its parent and the colour that went.\<close>

definition unlink_simple :: "rb_tree \<Rightarrow> nat \<Rightarrow> nat \<Rightarrow> (rb_tree \<times> nat \<times> nat \<times> nat) option" where
  "unlink_simple t node child = do {
     parent \<leftarrow> GET_PARENT t node;
     color \<leftarrow> GET_COLOR t node;
     t \<leftarrow> (if child \<noteq> 0 then SET_PARENT child parent t else Some t);
     t \<leftarrow> (if parent \<noteq> 0 then do {
            pl \<leftarrow> GET_L t parent;
            if pl = node then SET_L parent child t else SET_R parent child t }
          else Some (t\<lparr>rb_root := child\<rparr>));
     Some (t, child, parent, color) }"

definition unlink_inner :: "rb_tree \<Rightarrow> nat \<Rightarrow> (rb_tree \<times> nat \<times> nat \<times> nat) option" where
  "unlink_inner t old = do {
     r \<leftarrow> GET_R t old;
     node \<leftarrow> leftmost t r;
     op \<leftarrow> GET_PARENT t old;
     t \<leftarrow> (if op \<noteq> 0 then do {
            pl \<leftarrow> GET_L t op;
            if pl = old then SET_L op node t else SET_R op node t }
          else Some (t\<lparr>rb_root := node\<rparr>));
     child \<leftarrow> GET_R t node;
     parent \<leftarrow> GET_PARENT t node;
     color \<leftarrow> GET_COLOR t node;
     (t, parent) \<leftarrow>
       (if parent = old then Some (t, node)
        else do {
          t \<leftarrow> (if child \<noteq> 0 then SET_PARENT child parent t else Some t);
          t \<leftarrow> SET_L parent child t;
          oldr \<leftarrow> GET_R t old;
          t \<leftarrow> SET_R node oldr t;
          t \<leftarrow> SET_PARENT oldr node t;
          Some (t, parent) });
     op \<leftarrow> GET_PARENT t old;
     oc \<leftarrow> GET_COLOR t old;
     t \<leftarrow> SET_PARENT node op t;
     t \<leftarrow> SET_COLOR node oc t;
     oldl \<leftarrow> GET_L t old;
     t \<leftarrow> SET_L node oldl t;
     t \<leftarrow> SET_PARENT oldl node t;
     Some (t, child, parent, color) }"

definition rb_remove :: "nat \<Rightarrow> rb_tree \<Rightarrow> rb_tree option" where
  "rb_remove node t = do {
     l \<leftarrow> GET_L t node;
     r \<leftarrow> GET_R t node;
     (t, child, parent, color) \<leftarrow>
       (if l = 0 then unlink_simple t node r
        else if r = 0 then unlink_simple t node l
        else unlink_inner t node);
     if color = RB_BLACK then rb_remove_fixup t child parent else Some t }"

subsection \<open>Replacement and validation\<close>

definition rb_replace :: "nat \<Rightarrow> nat \<Rightarrow> rb_tree \<Rightarrow> rb_tree option" where
  "rb_replace old new t = do {
     ok \<leftarrow> GET_KEY t old;
     nk \<leftarrow> GET_KEY t new;
     kassert (ok = nk);
     color \<leftarrow> GET_COLOR t old;
     parent \<leftarrow> GET_PARENT t old;
     ol \<leftarrow> GET_L t old;
     t \<leftarrow> (if ol \<noteq> 0 then do { t \<leftarrow> SET_L new ol t; SET_PARENT ol new t } else Some t);
     orr \<leftarrow> GET_R t old;
     t \<leftarrow> (if orr \<noteq> 0 then do { t \<leftarrow> SET_R new orr t; SET_PARENT orr new t } else Some t);
     t \<leftarrow> (if parent \<noteq> 0 then do {
            pl \<leftarrow> GET_L t parent;
            pr \<leftarrow> GET_R t parent;
            t \<leftarrow> (if pl = old then SET_L parent new t else if pr = old then SET_R parent new t else None);
            SET_PARENT new parent t }
          else do {
            kassert (rb_root t = old);
            SET_PARENT new 0 (t\<lparr>rb_root := new\<rparr>) });
     SET_COLOR new color t }"

partial_function (option) rb_validate :: "rb_tree \<Rightarrow> nat \<Rightarrow> unit option" where
  "rb_validate t node = do {
     l \<leftarrow> GET_L t node;
     r \<leftarrow> GET_R t node;
     parent \<leftarrow> GET_PARENT t node;
     _ \<leftarrow> (if parent \<noteq> 0 then do {
            pr \<leftarrow> GET_R t parent;
            pl \<leftarrow> GET_L t parent;
            kassert (pr = node \<or> pl = node) }
          else Some ());
     _ \<leftarrow> (if l \<noteq> 0 then rb_validate t l else Some ());
     if r \<noteq> 0 then rb_validate t r else Some () }"

end
