(* ===== verification/RB_Shape.thy ===== *)
theory RB_Shape
  imports RB_Tree "HOL-Library.Multiset"
begin

text \<open>
  Trees in the store.  \<open>ptree\<close> is a tree with the address, key and colour of each node;
  \<open>tree_is t T\<close> says that the pointer structure \<open>t\<close> represents \<open>T\<close>.  A position in a tree is a
  subtree in a context, and \<open>plug\<close> puts them together; rotations and colour changes at a position
  are then changes of the subtree alone.
\<close>

datatype ptree = Lf | Nd ptree nat u64 nat ptree

datatype frame = FL nat u64 nat ptree | FR ptree nat u64 nat

fun rt :: "ptree \<Rightarrow> nat" where
  "rt Lf = 0"
| "rt (Nd l a k c r) = a"

fun addrs :: "ptree \<Rightarrow> nat list" where
  "addrs Lf = []"
| "addrs (Nd l a k c r) = addrs l @ a # addrs r"

text \<open>The addresses and keys in order.\<close>

fun ino :: "ptree \<Rightarrow> (nat \<times> u64) list" where
  "ino Lf = []"
| "ino (Nd l a k c r) = ino l @ (a, k) # ino r"

fun holds :: "rb_store \<Rightarrow> nat \<Rightarrow> ptree \<Rightarrow> bool" where
  "holds s par Lf \<longleftrightarrow> True"
| "holds s par (Nd l a k c r) \<longleftrightarrow> a \<noteq> 0 \<and>
     s a = Some \<lparr>rb_key = k, rb_parent = par, rb_color = c, rb_L = rt l, rb_R = rt r\<rparr> \<and> holds s a l \<and> holds s a r"

definition tree_is :: "rb_tree \<Rightarrow> ptree \<Rightarrow> bool" where
  "tree_is t T \<longleftrightarrow> rb_root t = rt T \<and> holds (rb_mem t) 0 T \<and> distinct (addrs T) \<and> rb_mem t 0 = None"

fun plug :: "frame list \<Rightarrow> ptree \<Rightarrow> ptree" where
  "plug [] t = t"
| "plug (FL a k c r # C) t = plug C (Nd t a k c r)"
| "plug (FR l a k c # C) t = plug C (Nd l a k c t)"

fun ctx_par :: "frame list \<Rightarrow> nat" where
  "ctx_par [] = 0"
| "ctx_par (FL a k c r # C) = a"
| "ctx_par (FR l a k c # C) = a"

fun ctx_addrs :: "frame list \<Rightarrow> nat list" where
  "ctx_addrs [] = []"
| "ctx_addrs (FL a k c r # C) = a # addrs r @ ctx_addrs C"
| "ctx_addrs (FR l a k c # C) = a # addrs l @ ctx_addrs C"

fun holds_ctx :: "rb_store \<Rightarrow> nat \<Rightarrow> frame list \<Rightarrow> bool" where
  "holds_ctx s p [] \<longleftrightarrow> True"
| "holds_ctx s p (FL a k c r # C) \<longleftrightarrow> a \<noteq> 0 \<and>
     s a = Some \<lparr>rb_key = k, rb_parent = ctx_par C, rb_color = c, rb_L = p, rb_R = rt r\<rparr> \<and> holds s a r \<and> holds_ctx s a C"
| "holds_ctx s p (FR l a k c # C) \<longleftrightarrow> a \<noteq> 0 \<and>
     s a = Some \<lparr>rb_key = k, rb_parent = ctx_par C, rb_color = c, rb_L = rt l, rb_R = p\<rparr> \<and> holds s a l \<and> holds_ctx s a C"

lemma holds_plug: "holds s 0 (plug C t) \<longleftrightarrow> holds_ctx s (rt t) C \<and> holds s (ctx_par C) t"
  by (induction C t rule: plug.induct) auto

lemma addrs_plug: "mset (addrs (plug C t)) = mset (ctx_addrs C) + mset (addrs t)"
  by (induction C t rule: plug.induct) auto

lemma distinct_plug: "distinct (addrs (plug C t)) \<longleftrightarrow> distinct (ctx_addrs C @ addrs t)"
  by (rule mset_eq_imp_distinct_iff) (simp add: addrs_plug)

lemma set_plug: "set (addrs (plug C t)) = set (ctx_addrs C) \<union> set (addrs t)"
  using arg_cong [OF addrs_plug, of set_mset] by simp

lemma ino_plug: "ino t = ino t' \<Longrightarrow> ino (plug C t) = ino (plug C t')"
  by (induction C t arbitrary: t' rule: plug.induct) auto

lemma addrs_ino: "addrs t = map fst (ino t)"
  by (induction t) auto

lemma rt_plug: "C \<noteq> [] \<Longrightarrow> rt (plug C t) = rt (plug C t')"
proof (induction C t arbitrary: t' rule: plug.induct)
  case (2 a k c r C t)
  then show ?case by (cases "C = []") auto
next
  case (3 l a k c C t)
  then show ?case by (cases "C = []") auto
qed simp

lemma ctx_par_in: "ctx_par C \<noteq> 0 \<Longrightarrow> ctx_par C \<in> set (ctx_addrs C)"
  by (cases C rule: ctx_par.cases) auto

lemma rt_in: "rt t \<noteq> 0 \<Longrightarrow> rt t \<in> set (addrs t)"
  by (cases t) auto

lemma holds_rt: "holds s p t \<Longrightarrow> rt t = 0 \<longleftrightarrow> t = Lf"
  by (cases t) auto

lemma holds_ctx_par: "holds_ctx s p C \<Longrightarrow> ctx_par C = 0 \<longleftrightarrow> C = []"
  by (cases C rule: ctx_par.cases) auto

text \<open>Changes outside of a tree or a context do not matter.\<close>

lemma holds_cong: "holds s p t \<Longrightarrow> (\<And>n. n \<in> set (addrs t) \<Longrightarrow> s' n = s n) \<Longrightarrow> holds s' p t"
  by (induction t arbitrary: p) auto

lemma holds_ctx_cong: "holds_ctx s p C \<Longrightarrow> (\<And>n. n \<in> set (ctx_addrs C) \<Longrightarrow> s' n = s n) \<Longrightarrow> holds_ctx s' p C"
  by (induction s p C rule: holds_ctx.induct) (auto intro: holds_cong)

lemma holds_reparent:
  assumes "holds s p t" and "\<And>n. n \<in> set (addrs t) \<Longrightarrow> s' n = (if n = rt t then map_option (\<lambda>x. x\<lparr>rb_parent := q\<rparr>) (s n) else s n)"
    and "distinct (addrs t)"
  shows "holds s' q t"
proof (cases t)
  case (Nd l a k c r)
  have "holds s' a l" "holds s' a r" using assms(1,3) Nd by (auto intro!: holds_cong [of s] simp: assms(2))
  then show ?thesis using assms(1) Nd assms(2) [of a] by simp
qed simp

lemma holds_ctx_relink:
  assumes "holds_ctx s p C" and "C \<noteq> []" and "distinct (ctx_addrs C)"
    and "\<And>n. n \<in> set (ctx_addrs C) \<Longrightarrow> n \<noteq> ctx_par C \<Longrightarrow> s' n = s n"
    and "s' (ctx_par C) = map_option (\<lambda>x. case hd C of FL _ _ _ _ \<Rightarrow> x\<lparr>rb_L := q\<rparr> | FR _ _ _ _ \<Rightarrow> x\<lparr>rb_R := q\<rparr>) (s (ctx_par C))"
  shows "holds_ctx s' q C"
proof (cases C rule: ctx_par.cases)
  case (2 a k c r D)
  have "holds s' a r" "holds_ctx s' a D" using assms(1,3,4) 2
    by (auto intro!: holds_cong [of s _ r] holds_ctx_cong [of s _ D])
  then show ?thesis using assms(1,5) 2 by simp
next
  case (3 l a k c D)
  have "holds s' a l" "holds_ctx s' a D" using assms(1,3,4) 3
    by (auto intro!: holds_cong [of s _ l] holds_ctx_cong [of s _ D])
  then show ?thesis using assms(1,5) 3 by simp
qed (use assms in simp)

subsection \<open>Rotations at a position\<close>

lemmas rb_ops = upd_node_def GET_PARENT_def SET_PARENT_def GET_COLOR_def SET_COLOR_def GET_L_def GET_R_def GET_KEY_def SET_L_def SET_R_def

text \<open>What links a new subtree root \<open>q\<close> into the context.\<close>

definition relink :: "frame list \<Rightarrow> nat \<Rightarrow> rb_node \<Rightarrow> rb_node" where
  "relink C q x = (case hd C of FL _ _ _ _ \<Rightarrow> x\<lparr>rb_L := q\<rparr> | FR _ _ _ _ \<Rightarrow> x\<lparr>rb_R := q\<rparr>)"

definition rotated :: "rb_store \<Rightarrow> frame list \<Rightarrow> nat \<Rightarrow> rb_node \<Rightarrow> nat \<Rightarrow> rb_node \<Rightarrow> nat \<Rightarrow> rb_store" where
  "rotated s C x nx y ny b = (\<lambda>n. if n = x then Some nx else if n = y then Some ny
     else if n \<noteq> 0 \<and> n = b then map_option (\<lambda>z. z\<lparr>rb_parent := x\<rparr>) (s n)
     else if n \<noteq> 0 \<and> n = ctx_par C then map_option (relink C y) (s n) else s n)"

lemma rotated_ctx:
  assumes "holds_ctx s x C" and "distinct (ctx_addrs C)" and "x \<notin> set (ctx_addrs C)" and "y \<notin> set (ctx_addrs C)"
    and "b = 0 \<or> b \<notin> set (ctx_addrs C)"
  shows "holds_ctx (rotated s C x nx y ny b) y C"
proof (cases "C = []")
  case False
  then have p: "ctx_par C \<noteq> 0" "ctx_par C \<in> set (ctx_addrs C)" using holds_ctx_par [OF assms(1)] ctx_par_in by auto
  show ?thesis
  proof (rule holds_ctx_relink [OF assms(1) False assms(2)])
    show "rotated s C x nx y ny b n = s n" if "n \<in> set (ctx_addrs C)" "n \<noteq> ctx_par C" for n
      using that assms(3-5) by (auto simp: rotated_def)
    show "rotated s C x nx y ny b (ctx_par C) = map_option (\<lambda>z. case hd C of FL _ _ _ _ \<Rightarrow> z\<lparr>rb_L := y\<rparr> | FR _ _ _ _ \<Rightarrow> z\<lparr>rb_R := y\<rparr>) (s (ctx_par C))"
      using p assms(3-5) by (auto simp: rotated_def relink_def [abs_def])
  qed
qed simp

lemma rotated_same:
  assumes "holds s p t" and "x \<notin> set (addrs t)" and "y \<notin> set (addrs t)" and "b = 0 \<or> b \<notin> set (addrs t)"
    and "ctx_par C = 0 \<or> ctx_par C \<notin> set (addrs t)"
  shows "holds (rotated s C x nx y ny b) p t"
  by (rule holds_cong [OF assms(1)]) (use assms(2-5) in \<open>auto simp: rotated_def\<close>)

lemma rotated_moved:
  assumes "holds s p t" and "distinct (addrs t)" and "x \<notin> set (addrs t)" and "y \<notin> set (addrs t)"
    and "ctx_par C = 0 \<or> ctx_par C \<notin> set (addrs t)"
  shows "holds (rotated s C x nx y ny (rt t)) x t"
proof (rule holds_reparent [OF assms(1) _ assms(2)])
  fix n assume n: "n \<in> set (addrs t)"
  then have "t \<noteq> Lf" by auto
  then have "rt t \<noteq> 0" using holds_rt [OF assms(1)] by simp
  then show "rotated s C x nx y ny (rt t) n = (if n = rt t then map_option (\<lambda>z. z\<lparr>rb_parent := x\<rparr>) (s n) else s n)"
    using n assms(3-5) by (auto simp: rotated_def)
qed

lemma rotate_left_at:
  assumes "tree_is t (plug C (Nd a x kx cx (Nd b y ky cy c)))"
  shows "\<exists>t'. rb_rotate_left x t = Some t' \<and> tree_is t' (plug C (Nd (Nd a x kx cx b) y ky cy c)) \<and>
    (\<forall>n. n \<notin> set (addrs (plug C (Nd a x kx cx (Nd b y ky cy c)))) \<longrightarrow> rb_mem t' n = rb_mem t n)"
proof -
  let ?s = "rb_mem t"
  have h: "holds_ctx ?s x C" "x \<noteq> 0" "y \<noteq> 0" "holds ?s x a" "holds ?s y b" "holds ?s y c" "?s 0 = None"
    and sx: "?s x = Some \<lparr>rb_key = kx, rb_parent = ctx_par C, rb_color = cx, rb_L = rt a, rb_R = y\<rparr>"
    and sy: "?s y = Some \<lparr>rb_key = ky, rb_parent = x, rb_color = cy, rb_L = rt b, rb_R = rt c\<rparr>"
    and root: "rb_root t = rt (plug C (Nd a x kx cx (Nd b y ky cy c)))"
    using assms by (auto simp: tree_is_def holds_plug)
  have d: "distinct (ctx_addrs C @ addrs a @ x # addrs b @ y # addrs c)" using assms by (simp add: tree_is_def distinct_plug)
  let ?nx = "\<lparr>rb_key = kx, rb_parent = y, rb_color = cx, rb_L = rt a, rb_R = rt b\<rparr>"
  let ?ny = "\<lparr>rb_key = ky, rb_parent = ctx_par C, rb_color = cy, rb_L = x, rb_R = rt c\<rparr>"
  let ?s' = "rotated ?s C x ?nx y ?ny (rt b)"
  have nb: "rt b = 0 \<or> (rt b \<noteq> x \<and> rt b \<noteq> y \<and> rt b \<notin> set (ctx_addrs C) \<and> (\<exists>z. ?s (rt b) = Some z))"
    using d rt_in [of b] h(5) by (cases b) auto
  have np: "C = [] \<or> (ctx_par C \<noteq> 0 \<and> ctx_par C \<noteq> x \<and> ctx_par C \<noteq> y \<and> ctx_par C \<notin> set (addrs a @ addrs b @ addrs c))"
    using d ctx_par_in [of C] holds_ctx_par [OF h(1)] by auto
  have op: "rb_rotate_left x t = Some \<lparr>rb_root = (if C = [] then y else rb_root t), rb_mem = ?s'\<rparr>"
  proof (cases C rule: ctx_par.cases)
    case 1
    then show ?thesis using sx sy h(2,3) nb d
      by (cases "rt b = 0") (auto simp: rb_rotate_left_def rb_ops rotated_def fun_eq_iff intro!: rb_tree.equality)
  next
    case (2 p k e r D)
    then show ?thesis using sx sy h(1-3) nb np d
      by (cases "rt b = 0") (auto simp: rb_rotate_left_def rb_ops rotated_def relink_def fun_eq_iff intro!: rb_tree.equality)
  next
    case (3 l p k e D)
    then have "rt l \<noteq> x" using d rt_in [of l] h(2) by auto
    then show ?thesis using 3 sx sy h(1-3) nb np d
      by (cases "rt b = 0") (auto simp: rb_rotate_left_def rb_ops rotated_def relink_def fun_eq_iff intro!: rb_tree.equality)
  qed
  have "holds_ctx ?s' y C" using rotated_ctx [OF h(1)] d nb by auto
  moreover have b0: "rt b = 0 \<or> rt b \<notin> set (addrs a) \<and> rt b \<notin> set (addrs c)" using rt_in [of b] d by auto
  moreover have "holds ?s' x a" by (rule rotated_same [OF h(4)]) (use d np b0 in auto)
  moreover have "holds ?s' y c" by (rule rotated_same [OF h(6)]) (use d np b0 in auto)
  moreover have "holds ?s' x b" by (rule rotated_moved [OF h(5)]) (use d np in auto)
  ultimately have "holds ?s' 0 (plug C (Nd (Nd a x kx cx b) y ky cy c))"
    using h(2,3) d by (simp add: holds_plug rotated_def)
  moreover have "(if C = [] then y else rb_root t) = rt (plug C (Nd (Nd a x kx cx b) y ky cy c))"
    using root rt_plug [of C] by auto
  moreover have "?s' 0 = None" using h(2,3,7) by (simp add: rotated_def)
  moreover have "distinct (addrs (plug C (Nd (Nd a x kx cx b) y ky cy c)))" unfolding distinct_plug using d by simp
  moreover have "?s' n = ?s n" if "n \<notin> set (addrs (plug C (Nd a x kx cx (Nd b y ky cy c))))" for n
    using that rt_in [of b] ctx_par_in [of C] unfolding set_plug rotated_def by auto
  ultimately show ?thesis unfolding op by (simp add: tree_is_def)
qed

lemma rotate_right_at:
  assumes "tree_is t (plug C (Nd (Nd a x kx cx b) y ky cy c))"
  shows "\<exists>t'. rb_rotate_right y t = Some t' \<and> tree_is t' (plug C (Nd a x kx cx (Nd b y ky cy c))) \<and>
    (\<forall>n. n \<notin> set (addrs (plug C (Nd (Nd a x kx cx b) y ky cy c))) \<longrightarrow> rb_mem t' n = rb_mem t n)"
proof -
  let ?s = "rb_mem t"
  have h: "holds_ctx ?s y C" "y \<noteq> 0" "x \<noteq> 0" "holds ?s x a" "holds ?s x b" "holds ?s y c" "?s 0 = None"
    and sy: "?s y = Some \<lparr>rb_key = ky, rb_parent = ctx_par C, rb_color = cy, rb_L = x, rb_R = rt c\<rparr>"
    and sx: "?s x = Some \<lparr>rb_key = kx, rb_parent = y, rb_color = cx, rb_L = rt a, rb_R = rt b\<rparr>"
    and root: "rb_root t = rt (plug C (Nd (Nd a x kx cx b) y ky cy c))"
    using assms by (auto simp: tree_is_def holds_plug)
  have d: "distinct (ctx_addrs C @ addrs a @ x # addrs b @ y # addrs c)" using assms by (simp add: tree_is_def distinct_plug)
  let ?ny = "\<lparr>rb_key = ky, rb_parent = x, rb_color = cy, rb_L = rt b, rb_R = rt c\<rparr>"
  let ?nx = "\<lparr>rb_key = kx, rb_parent = ctx_par C, rb_color = cx, rb_L = rt a, rb_R = y\<rparr>"
  let ?s' = "rotated ?s C y ?ny x ?nx (rt b)"
  have nb: "rt b = 0 \<or> (rt b \<noteq> x \<and> rt b \<noteq> y \<and> rt b \<notin> set (ctx_addrs C) \<and> (\<exists>z. ?s (rt b) = Some z))"
    using d rt_in [of b] h(5) by (cases b) auto
  have np: "C = [] \<or> (ctx_par C \<noteq> 0 \<and> ctx_par C \<noteq> x \<and> ctx_par C \<noteq> y \<and> ctx_par C \<notin> set (addrs a @ addrs b @ addrs c))"
    using d ctx_par_in [of C] holds_ctx_par [OF h(1)] by auto
  have op: "rb_rotate_right y t = Some \<lparr>rb_root = (if C = [] then x else rb_root t), rb_mem = ?s'\<rparr>"
  proof (cases C rule: ctx_par.cases)
    case 1
    then show ?thesis using sx sy h(2,3) nb d
      by (cases "rt b = 0") (auto simp: rb_rotate_right_def rb_ops rotated_def fun_eq_iff intro!: rb_tree.equality)
  next
    case (2 p k e r D)
    then have "rt r \<noteq> y" using d rt_in [of r] h(2) by auto
    then show ?thesis using 2 sx sy h(1-3) nb np d
      by (cases "rt b = 0") (auto simp: rb_rotate_right_def rb_ops rotated_def relink_def fun_eq_iff intro!: rb_tree.equality)
  next
    case (3 l p k e D)
    then show ?thesis using sx sy h(1-3) nb np d
      by (cases "rt b = 0") (auto simp: rb_rotate_right_def rb_ops rotated_def relink_def fun_eq_iff intro!: rb_tree.equality)
  qed
  have "holds_ctx ?s' x C" using rotated_ctx [OF h(1)] d nb by auto
  moreover have b0: "rt b = 0 \<or> rt b \<notin> set (addrs a) \<and> rt b \<notin> set (addrs c)" using rt_in [of b] d by auto
  moreover have "holds ?s' x a" by (rule rotated_same [OF h(4)]) (use d np b0 in auto)
  moreover have "holds ?s' y c" by (rule rotated_same [OF h(6)]) (use d np b0 in auto)
  moreover have "holds ?s' y b" by (rule rotated_moved [OF h(5)]) (use d np in auto)
  ultimately have "holds ?s' 0 (plug C (Nd a x kx cx (Nd b y ky cy c)))"
    using h(2,3) d by (simp add: holds_plug rotated_def)
  moreover have "(if C = [] then x else rb_root t) = rt (plug C (Nd a x kx cx (Nd b y ky cy c)))"
    using root rt_plug [of C] by auto
  moreover have "?s' 0 = None" using h(2,3,7) by (simp add: rotated_def)
  moreover have "distinct (addrs (plug C (Nd a x kx cx (Nd b y ky cy c))))" unfolding distinct_plug using d by simp
  moreover have "?s' n = ?s n" if "n \<notin> set (addrs (plug C (Nd (Nd a x kx cx b) y ky cy c)))" for n
    using that rt_in [of b] ctx_par_in [of C] unfolding set_plug rotated_def by auto
  ultimately show ?thesis unfolding op by (simp add: tree_is_def)
qed

lemma set_color_at:
  assumes "tree_is t (plug C (Nd l a k c r))"
  shows "\<exists>t'. SET_COLOR a c' t = Some t' \<and> tree_is t' (plug C (Nd l a k c' r)) \<and> (\<forall>n. n \<noteq> a \<longrightarrow> rb_mem t' n = rb_mem t n)"
proof -
  let ?s = "rb_mem t"
  have h: "holds_ctx ?s a C" "a \<noteq> 0" "holds ?s a l" "holds ?s a r" "?s 0 = None"
    and sa: "?s a = Some \<lparr>rb_key = k, rb_parent = ctx_par C, rb_color = c, rb_L = rt l, rb_R = rt r\<rparr>"
    and root: "rb_root t = rt (plug C (Nd l a k c r))"
    using assms by (auto simp: tree_is_def holds_plug)
  have d: "distinct (ctx_addrs C @ addrs l @ a # addrs r)" using assms by (simp add: tree_is_def distinct_plug)
  let ?s' = "?s(a \<mapsto> \<lparr>rb_key = k, rb_parent = ctx_par C, rb_color = c', rb_L = rt l, rb_R = rt r\<rparr>)"
  have "holds_ctx ?s' a C" by (rule holds_ctx_cong [OF h(1)]) (use d in auto)
  moreover have "holds ?s' a l" "holds ?s' a r" by (rule holds_cong [OF h(3)] holds_cong [OF h(4)], use d in auto)+
  moreover have "rt (plug C (Nd l a k c r)) = rt (plug C (Nd l a k c' r))" using rt_plug [of C] by (cases "C = []") auto
  ultimately have "tree_is (t\<lparr>rb_mem := ?s'\<rparr>) (plug C (Nd l a k c' r))"
    using root h(2,5) d by (simp add: tree_is_def holds_plug distinct_plug)
  then show ?thesis using sa by (auto simp: rb_ops)
qed

end
