(* ===== verification/RB_Insert.thy ===== *)
theory RB_Insert
  imports RB_Shape
begin

text \<open>
  Searching and inserting.  \<open>is_rbt\<close> is the red-black invariant; \<open>cvalid C h\<close> says that a context
  keeps it around a subtree of black height \<open>h\<close>.  The insertion loop terminates, keeps the sequence
  of addresses and keys, and restores the invariant.
\<close>

fun col :: "ptree \<Rightarrow> nat" where
  "col Lf = RB_BLACK"
| "col (Nd l a k c r) = c"

definition blk :: "nat \<Rightarrow> nat" where
  "blk c = (if c = RB_BLACK then 1 else 0)"

fun bh :: "ptree \<Rightarrow> nat" where
  "bh Lf = 0"
| "bh (Nd l a k c r) = bh l + blk c"

fun invrb :: "ptree \<Rightarrow> bool" where
  "invrb Lf \<longleftrightarrow> True"
| "invrb (Nd l a k c r) \<longleftrightarrow> (c = RB_BLACK \<or> c = RB_RED) \<and> invrb l \<and> invrb r \<and> bh l = bh r \<and>
     (c = RB_RED \<longrightarrow> col l = RB_BLACK \<and> col r = RB_BLACK)"

definition is_rbt :: "ptree \<Rightarrow> bool" where
  "is_rbt T \<longleftrightarrow> invrb T \<and> col T = RB_BLACK"

fun ctx_col :: "frame list \<Rightarrow> nat" where
  "ctx_col [] = RB_BLACK"
| "ctx_col (FL a k c r # C) = c"
| "ctx_col (FR l a k c # C) = c"

fun cvalid :: "frame list \<Rightarrow> nat \<Rightarrow> bool" where
  "cvalid [] h \<longleftrightarrow> True"
| "cvalid (FL a k c s # C) h \<longleftrightarrow> (c = RB_BLACK \<or> c = RB_RED) \<and> invrb s \<and> bh s = h \<and>
     (c = RB_RED \<longrightarrow> col s = RB_BLACK \<and> C \<noteq> [] \<and> ctx_col C = RB_BLACK) \<and> cvalid C (h + blk c)"
| "cvalid (FR s a k c # C) h \<longleftrightarrow> (c = RB_BLACK \<or> c = RB_RED) \<and> invrb s \<and> bh s = h \<and>
     (c = RB_RED \<longrightarrow> col s = RB_BLACK \<and> C \<noteq> [] \<and> ctx_col C = RB_BLACK) \<and> cvalid C (h + blk c)"

lemma colours [simp]: "RB_BLACK \<noteq> RB_RED" "RB_RED \<noteq> RB_BLACK" "blk RB_BLACK = 1" "blk RB_RED = 0"
  by (simp_all add: RB_BLACK_def RB_RED_def blk_def)

lemma invrb_col: "invrb t \<Longrightarrow> col t = RB_BLACK \<or> col t = RB_RED"
  by (cases t) auto

lemma plug_rbt:
  "invrb S \<Longrightarrow> cvalid C (bh S) \<Longrightarrow> (col S = RB_RED \<longrightarrow> C \<noteq> [] \<and> ctx_col C = RB_BLACK) \<Longrightarrow> is_rbt (plug C S)"
proof (induction C S rule: plug.induct)
  case (1 t)
  then show ?case by (cases t) (auto simp: is_rbt_def)
next
  case (2 a k c r C t)
  then show ?case using invrb_col [OF 2(2)] by auto
next
  case (3 l a k c C t)
  then show ?case using invrb_col [OF 3(2)] by auto
qed

lemma node_at:
  "tree_is t (plug C (Nd l a k c r)) \<Longrightarrow>
    rb_mem t a = Some \<lparr>rb_key = k, rb_parent = ctx_par C, rb_color = c, rb_L = rt l, rb_R = rt r\<rparr> \<and> a \<noteq> 0"
  by (auto simp: tree_is_def holds_plug)

lemma sub_node_at: "tree_is t (plug C S) \<Longrightarrow> is_red t (rt S) = Some (col S = RB_RED)"
  by (cases S) (auto simp: is_red_def GET_COLOR_def dest: node_at)

definition same_outside :: "ptree \<Rightarrow> rb_tree \<Rightarrow> rb_tree \<Rightarrow> bool" where
  "same_outside T t t' \<longleftrightarrow> (\<forall>n. n \<notin> set (addrs T) \<longrightarrow> rb_mem t' n = rb_mem t n)"

lemma same_outside_trans: "same_outside T t t1 \<Longrightarrow> same_outside T t1 t2 \<Longrightarrow> same_outside T t t2"
  by (simp add: same_outside_def)

lemma same_outside_ino: "ino T = ino T' \<Longrightarrow> same_outside T = same_outside T'"
  by (intro ext) (simp add: same_outside_def addrs_ino)

text \<open>The three operations as steps.\<close>

lemma color_step:
  assumes "tree_is t (plug C (Nd l a k c r))"
  obtains t' where "SET_COLOR a c' t = Some t'" "tree_is t' (plug C (Nd l a k c' r))" "same_outside (plug C (Nd l a k c r)) t t'"
  using set_color_at [OF assms, of c'] by (auto simp: same_outside_def set_plug)

lemma left_step:
  assumes "tree_is t (plug C (Nd a x kx cx (Nd b y ky cy c)))"
  obtains t' where "rb_rotate_left x t = Some t'" "tree_is t' (plug C (Nd (Nd a x kx cx b) y ky cy c))"
    "same_outside (plug C (Nd a x kx cx (Nd b y ky cy c))) t t'"
  using rotate_left_at [OF assms] by (auto simp: same_outside_def)

lemma right_step:
  assumes "tree_is t (plug C (Nd (Nd a x kx cx b) y ky cy c))"
  obtains t' where "rb_rotate_right y t = Some t'" "tree_is t' (plug C (Nd a x kx cx (Nd b y ky cy c)))"
    "same_outside (plug C (Nd (Nd a x kx cx b) y ky cy c)) t t'"
  using rotate_right_at [OF assms] by (auto simp: same_outside_def)

lemma ino_color: "ino (plug C (Nd l a k c r)) = ino (plug C (Nd l a k c' r))"
  by (rule ino_plug) simp

text \<open>A red uncle: the grandparent's subtree is recoloured and becomes the next subtree.\<close>

lemma recolour:
  assumes "tree_is t (plug E (Nd (Nd x p kp cp y) g kg cg (Nd ul u ku cu ur)))"
  obtains t1 t2 t3 where "SET_COLOR u RB_BLACK t = Some t1" "SET_COLOR p RB_BLACK t1 = Some t2" "SET_COLOR g RB_RED t2 = Some t3"
    "tree_is t3 (plug E (Nd (Nd x p kp RB_BLACK y) g kg RB_RED (Nd ul u ku RB_BLACK ur)))"
    "same_outside (plug E (Nd (Nd x p kp cp y) g kg cg (Nd ul u ku cu ur))) t t3"
proof -
  have a: "tree_is t (plug (FR (Nd x p kp cp y) g kg cg # E) (Nd ul u ku cu ur))" using assms by simp
  obtain t1 where 1: "SET_COLOR u RB_BLACK t = Some t1" "tree_is t1 (plug (FR (Nd x p kp cp y) g kg cg # E) (Nd ul u ku RB_BLACK ur))"
    "same_outside (plug (FR (Nd x p kp cp y) g kg cg # E) (Nd ul u ku cu ur)) t t1" using color_step [OF a] by blast
  have b: "tree_is t1 (plug (FL g kg cg (Nd ul u ku RB_BLACK ur) # E) (Nd x p kp cp y))" using 1(2) by simp
  obtain t2 where 2: "SET_COLOR p RB_BLACK t1 = Some t2" "tree_is t2 (plug (FL g kg cg (Nd ul u ku RB_BLACK ur) # E) (Nd x p kp RB_BLACK y))"
    "same_outside (plug (FL g kg cg (Nd ul u ku RB_BLACK ur) # E) (Nd x p kp cp y)) t1 t2" using color_step [OF b] by blast
  have c: "tree_is t2 (plug E (Nd (Nd x p kp RB_BLACK y) g kg cg (Nd ul u ku RB_BLACK ur)))" using 2(2) by simp
  obtain t3 where 3: "SET_COLOR g RB_RED t2 = Some t3" "tree_is t3 (plug E (Nd (Nd x p kp RB_BLACK y) g kg RB_RED (Nd ul u ku RB_BLACK ur)))"
    "same_outside (plug E (Nd (Nd x p kp RB_BLACK y) g kg cg (Nd ul u ku RB_BLACK ur))) t2 t3" using color_step [OF c] by blast
  let ?T = "plug E (Nd (Nd x p kp cp y) g kg cg (Nd ul u ku cu ur))"
  have e: "ino ?T = ino (plug E (Nd (Nd x p kp cp y) g kg cg (Nd ul u ku RB_BLACK ur)))"
    "ino ?T = ino (plug E (Nd (Nd x p kp RB_BLACK y) g kg cg (Nd ul u ku RB_BLACK ur)))" by (rule ino_plug, simp)+
  have "same_outside ?T t t3"
    using 1(3) 2(3) 3(3) same_outside_ino [OF e(1)] same_outside_ino [OF e(2)] same_outside_trans by (metis plug.simps(2,3))
  then show ?thesis using that 1(1) 2(1) 3(1,2) by blast
qed

lemma uncle_left:
  assumes "tree_is t (plug E (Nd (Nd x p kp cp y) g kg cg (Nd ul u ku RB_RED ur)))"
  shows "\<exists>t'. insert_fixup_step t n p = Some (t', g) \<and>
    tree_is t' (plug E (Nd (Nd x p kp RB_BLACK y) g kg RB_RED (Nd ul u ku RB_BLACK ur))) \<and>
    same_outside (plug E (Nd (Nd x p kp cp y) g kg cg (Nd ul u ku RB_RED ur))) t t'"
proof -
  have p: "rb_mem t p = Some \<lparr>rb_key = kp, rb_parent = g, rb_color = cp, rb_L = rt x, rb_R = rt y\<rparr>"
    using node_at [of t "FL g kg cg (Nd ul u ku RB_RED ur) # E" x p kp cp y] assms by simp
  have g: "rb_mem t g = Some \<lparr>rb_key = kg, rb_parent = ctx_par E, rb_color = cg, rb_L = p, rb_R = u\<rparr>"
    using node_at [OF assms] by simp
  have u: "is_red t u = Some True" using sub_node_at [of t "FR (Nd x p kp cp y) g kg cg # E" "Nd ul u ku RB_RED ur"] assms by simp
  from recolour [OF assms] obtain t1 t2 t3 where "SET_COLOR u RB_BLACK t = Some t1" "SET_COLOR p RB_BLACK t1 = Some t2"
    "SET_COLOR g RB_RED t2 = Some t3" "tree_is t3 (plug E (Nd (Nd x p kp RB_BLACK y) g kg RB_RED (Nd ul u ku RB_BLACK ur)))"
    "same_outside (plug E (Nd (Nd x p kp cp y) g kg cg (Nd ul u ku RB_RED ur))) t t3" by blast
  then show ?thesis using p g u by (simp add: insert_fixup_step_def GET_PARENT_def GET_L_def GET_R_def)
qed

lemma uncle_right:
  assumes "tree_is t (plug E (Nd (Nd ul u ku RB_RED ur) g kg cg (Nd x p kp cp y)))"
  shows "\<exists>t'. insert_fixup_step t n p = Some (t', g) \<and>
    tree_is t' (plug E (Nd (Nd ul u ku RB_BLACK ur) g kg RB_RED (Nd x p kp RB_BLACK y))) \<and>
    same_outside (plug E (Nd (Nd ul u ku RB_RED ur) g kg cg (Nd x p kp cp y))) t t'"
proof -
  let ?T = "plug E (Nd (Nd ul u ku RB_RED ur) g kg cg (Nd x p kp cp y))"
  have p: "rb_mem t p = Some \<lparr>rb_key = kp, rb_parent = g, rb_color = cp, rb_L = rt x, rb_R = rt y\<rparr>"
    using node_at [of t "FR (Nd ul u ku RB_RED ur) g kg cg # E" x p kp cp y] assms by simp
  have g: "rb_mem t g = Some \<lparr>rb_key = kg, rb_parent = ctx_par E, rb_color = cg, rb_L = u, rb_R = p\<rparr>"
    using node_at [OF assms] by simp
  have ul: "tree_is t (plug (FL g kg cg (Nd x p kp cp y) # E) (Nd ul u ku RB_RED ur))" using assms by simp
  have u: "is_red t u = Some True" using sub_node_at [OF ul] by simp
  have "distinct (addrs ?T)" using assms by (simp add: tree_is_def)
  then have up: "p \<noteq> u" unfolding distinct_plug by auto
  obtain t1 where 1: "SET_COLOR u RB_BLACK t = Some t1" "tree_is t1 (plug (FL g kg cg (Nd x p kp cp y) # E) (Nd ul u ku RB_BLACK ur))"
    "same_outside (plug (FL g kg cg (Nd x p kp cp y) # E) (Nd ul u ku RB_RED ur)) t t1" using color_step [OF ul] by blast
  have b: "tree_is t1 (plug (FR (Nd ul u ku RB_BLACK ur) g kg cg # E) (Nd x p kp cp y))" using 1(2) by simp
  obtain t2 where 2: "SET_COLOR p RB_BLACK t1 = Some t2" "tree_is t2 (plug (FR (Nd ul u ku RB_BLACK ur) g kg cg # E) (Nd x p kp RB_BLACK y))"
    "same_outside (plug (FR (Nd ul u ku RB_BLACK ur) g kg cg # E) (Nd x p kp cp y)) t1 t2" using color_step [OF b] by blast
  have c: "tree_is t2 (plug E (Nd (Nd ul u ku RB_BLACK ur) g kg cg (Nd x p kp RB_BLACK y)))" using 2(2) by simp
  obtain t3 where 3: "SET_COLOR g RB_RED t2 = Some t3" "tree_is t3 (plug E (Nd (Nd ul u ku RB_BLACK ur) g kg RB_RED (Nd x p kp RB_BLACK y)))"
    "same_outside (plug E (Nd (Nd ul u ku RB_BLACK ur) g kg cg (Nd x p kp RB_BLACK y))) t2 t3" using color_step [OF c] by blast
  have e: "ino ?T = ino (plug E (Nd (Nd ul u ku RB_BLACK ur) g kg cg (Nd x p kp cp y)))"
    "ino ?T = ino (plug E (Nd (Nd ul u ku RB_BLACK ur) g kg cg (Nd x p kp RB_BLACK y)))" by (rule ino_plug, simp)+
  have "same_outside ?T t t3"
    using 1(3) 2(3) 3(3) same_outside_ino [OF e(1)] same_outside_ino [OF e(2)] same_outside_trans by (metis plug.simps(2,3))
  then show ?thesis using p g u up 1(1) 2(1) 3(1,2) by (simp add: insert_fixup_step_def GET_PARENT_def GET_L_def GET_R_def)
qed

text \<open>A black uncle: one or two rotations.\<close>

lemma finish_left:
  assumes "tree_is t (plug E (Nd (Nd x p kp cp y) g kg cg U))"
  obtains t1 t2 t3 where "SET_COLOR p RB_BLACK t = Some t1" "SET_COLOR g RB_RED t1 = Some t2" "rb_rotate_right g t2 = Some t3"
    "tree_is t3 (plug E (Nd x p kp RB_BLACK (Nd y g kg RB_RED U)))" "same_outside (plug E (Nd (Nd x p kp cp y) g kg cg U)) t t3"
proof -
  have a: "tree_is t (plug (FL g kg cg U # E) (Nd x p kp cp y))" using assms by simp
  obtain t1 where 1: "SET_COLOR p RB_BLACK t = Some t1" "tree_is t1 (plug (FL g kg cg U # E) (Nd x p kp RB_BLACK y))"
    "same_outside (plug (FL g kg cg U # E) (Nd x p kp cp y)) t t1" using color_step [OF a] by blast
  have b: "tree_is t1 (plug E (Nd (Nd x p kp RB_BLACK y) g kg cg U))" using 1(2) by simp
  obtain t2 where 2: "SET_COLOR g RB_RED t1 = Some t2" "tree_is t2 (plug E (Nd (Nd x p kp RB_BLACK y) g kg RB_RED U))"
    "same_outside (plug E (Nd (Nd x p kp RB_BLACK y) g kg cg U)) t1 t2" using color_step [OF b] by blast
  obtain t3 where 3: "rb_rotate_right g t2 = Some t3" "tree_is t3 (plug E (Nd x p kp RB_BLACK (Nd y g kg RB_RED U)))"
    "same_outside (plug E (Nd (Nd x p kp RB_BLACK y) g kg RB_RED U)) t2 t3" using right_step [OF 2(2)] by blast
  let ?T = "plug E (Nd (Nd x p kp cp y) g kg cg U)"
  have e: "ino ?T = ino (plug E (Nd (Nd x p kp RB_BLACK y) g kg cg U))" "ino ?T = ino (plug E (Nd (Nd x p kp RB_BLACK y) g kg RB_RED U))"
    by (rule ino_plug, simp)+
  have "same_outside ?T t t3"
    using 1(3) 2(3) 3(3) same_outside_ino [OF e(1)] same_outside_ino [OF e(2)] same_outside_trans by (metis plug.simps(2,3))
  then show ?thesis using that 1(1) 2(1) 3(1,2) by blast
qed

lemma finish_right:
  assumes "tree_is t (plug E (Nd U g kg cg (Nd x p kp cp y)))"
  obtains t1 t2 t3 where "SET_COLOR p RB_BLACK t = Some t1" "SET_COLOR g RB_RED t1 = Some t2" "rb_rotate_left g t2 = Some t3"
    "tree_is t3 (plug E (Nd (Nd U g kg RB_RED x) p kp RB_BLACK y))" "same_outside (plug E (Nd U g kg cg (Nd x p kp cp y))) t t3"
proof -
  have a: "tree_is t (plug (FR U g kg cg # E) (Nd x p kp cp y))" using assms by simp
  obtain t1 where 1: "SET_COLOR p RB_BLACK t = Some t1" "tree_is t1 (plug (FR U g kg cg # E) (Nd x p kp RB_BLACK y))"
    "same_outside (plug (FR U g kg cg # E) (Nd x p kp cp y)) t t1" using color_step [OF a] by blast
  have b: "tree_is t1 (plug E (Nd U g kg cg (Nd x p kp RB_BLACK y)))" using 1(2) by simp
  obtain t2 where 2: "SET_COLOR g RB_RED t1 = Some t2" "tree_is t2 (plug E (Nd U g kg RB_RED (Nd x p kp RB_BLACK y)))"
    "same_outside (plug E (Nd U g kg cg (Nd x p kp RB_BLACK y))) t1 t2" using color_step [OF b] by blast
  obtain t3 where 3: "rb_rotate_left g t2 = Some t3" "tree_is t3 (plug E (Nd (Nd U g kg RB_RED x) p kp RB_BLACK y))"
    "same_outside (plug E (Nd U g kg RB_RED (Nd x p kp RB_BLACK y))) t2 t3" using left_step [OF 2(2)] by blast
  let ?T = "plug E (Nd U g kg cg (Nd x p kp cp y))"
  have e: "ino ?T = ino (plug E (Nd U g kg cg (Nd x p kp RB_BLACK y)))" "ino ?T = ino (plug E (Nd U g kg RB_RED (Nd x p kp RB_BLACK y)))"
    by (rule ino_plug, simp)+
  have "same_outside ?T t t3"
    using 1(3) 2(3) 3(3) same_outside_ino [OF e(1)] same_outside_ino [OF e(2)] same_outside_trans by (metis plug.simps(2,3))
  then show ?thesis using that 1(1) 2(1) 3(1,2) by blast
qed

lemma rotate_LL:
  assumes "tree_is t (plug E (Nd (Nd S p kp cp s) g kg cg U))" and "col U = RB_BLACK" and "rt S \<noteq> 0"
  shows "\<exists>t'. insert_fixup_step t (rt S) p = Some (t', rt S) \<and> tree_is t' (plug E (Nd S p kp RB_BLACK (Nd s g kg RB_RED U))) \<and>
    same_outside (plug E (Nd (Nd S p kp cp s) g kg cg U)) t t'"
proof -
  have p: "rb_mem t p = Some \<lparr>rb_key = kp, rb_parent = g, rb_color = cp, rb_L = rt S, rb_R = rt s\<rparr>"
    using node_at [of t "FL g kg cg U # E" S p kp cp s] assms(1) by simp
  have g: "rb_mem t g = Some \<lparr>rb_key = kg, rb_parent = ctx_par E, rb_color = cg, rb_L = p, rb_R = rt U\<rparr>"
    using node_at [OF assms(1)] by simp
  have u: "is_red t (rt U) = Some False" using sub_node_at [of t "FR (Nd S p kp cp s) g kg cg # E" U] assms(1,2) by simp
  have "distinct (addrs (plug E (Nd (Nd S p kp cp s) g kg cg U)))" using assms(1) by (simp add: tree_is_def)
  then have "rt s \<noteq> rt S" unfolding distinct_plug using rt_in [of S] rt_in [of s] assms(3) by (cases "rt s = 0") auto
  then show ?thesis using finish_left [OF assms(1)] p g u
    by (force simp: insert_fixup_step_def GET_PARENT_def GET_L_def GET_R_def)
qed

lemma rotate_RR:
  assumes "tree_is t (plug E (Nd U g kg cg (Nd s p kp cp S)))" and "col U = RB_BLACK" and "rt S \<noteq> 0"
  shows "\<exists>t'. insert_fixup_step t (rt S) p = Some (t', rt S) \<and> tree_is t' (plug E (Nd (Nd U g kg RB_RED s) p kp RB_BLACK S)) \<and>
    same_outside (plug E (Nd U g kg cg (Nd s p kp cp S))) t t'"
proof -
  have p: "rb_mem t p = Some \<lparr>rb_key = kp, rb_parent = g, rb_color = cp, rb_L = rt s, rb_R = rt S\<rparr>" "p \<noteq> 0"
    using node_at [of t "FR U g kg cg # E" s p kp cp S] assms(1) by simp_all
  have g: "rb_mem t g = Some \<lparr>rb_key = kg, rb_parent = ctx_par E, rb_color = cg, rb_L = rt U, rb_R = p\<rparr>"
    using node_at [OF assms(1)] by simp
  have u: "is_red t (rt U) = Some False" using sub_node_at [of t "FL g kg cg (Nd s p kp cp S) # E" U] assms(1,2) by simp
  have d: "distinct (addrs (plug E (Nd U g kg cg (Nd s p kp cp S))))" using assms(1) by (simp add: tree_is_def)
  then have "rt s \<noteq> rt S" unfolding distinct_plug using rt_in [of S] rt_in [of s] assms(3) by (cases "rt s = 0") auto
  moreover have "p \<noteq> rt U" using d p(2) rt_in [of U] unfolding distinct_plug by auto
  ultimately show ?thesis using finish_right [OF assms(1)] p g u
    by (force simp: insert_fixup_step_def GET_PARENT_def GET_L_def GET_R_def)
qed

lemma rotate_LR:
  assumes "tree_is t (plug E (Nd (Nd s p kp cp (Nd l n k c r)) g kg cg U))" and "col U = RB_BLACK"
  shows "\<exists>t'. insert_fixup_step t n p = Some (t', p) \<and> tree_is t' (plug E (Nd (Nd s p kp cp l) n k RB_BLACK (Nd r g kg RB_RED U))) \<and>
    same_outside (plug E (Nd (Nd s p kp cp (Nd l n k c r)) g kg cg U)) t t'"
proof -
  let ?T = "plug E (Nd (Nd s p kp cp (Nd l n k c r)) g kg cg U)"
  have p: "rb_mem t p = Some \<lparr>rb_key = kp, rb_parent = g, rb_color = cp, rb_L = rt s, rb_R = n\<rparr>"
    using node_at [of t "FL g kg cg U # E" s p kp cp "Nd l n k c r"] assms(1) by simp
  have g: "rb_mem t g = Some \<lparr>rb_key = kg, rb_parent = ctx_par E, rb_color = cg, rb_L = p, rb_R = rt U\<rparr>"
    using node_at [OF assms(1)] by simp
  have u: "is_red t (rt U) = Some False" using sub_node_at [of t "FR (Nd s p kp cp (Nd l n k c r)) g kg cg # E" U] assms(1,2) by simp
  have a: "tree_is t (plug (FL g kg cg U # E) (Nd s p kp cp (Nd l n k c r)))" using assms(1) by simp
  obtain t0 where 0: "rb_rotate_left p t = Some t0" "tree_is t0 (plug (FL g kg cg U # E) (Nd (Nd s p kp cp l) n k c r))"
    "same_outside (plug (FL g kg cg U # E) (Nd s p kp cp (Nd l n k c r))) t t0" using left_step [OF a] by blast
  have b: "tree_is t0 (plug E (Nd (Nd (Nd s p kp cp l) n k c r) g kg cg U))" using 0(2) by simp
  obtain t1 t2 t3 where f: "SET_COLOR n RB_BLACK t0 = Some t1" "SET_COLOR g RB_RED t1 = Some t2" "rb_rotate_right g t2 = Some t3"
    "tree_is t3 (plug E (Nd (Nd s p kp cp l) n k RB_BLACK (Nd r g kg RB_RED U)))"
    "same_outside (plug E (Nd (Nd (Nd s p kp cp l) n k c r) g kg cg U)) t0 t3" using finish_left [OF b] by blast
  have "ino ?T = ino (plug E (Nd (Nd (Nd s p kp cp l) n k c r) g kg cg U))" by (rule ino_plug) simp
  then have "same_outside ?T t t3" using 0(3) f(5) same_outside_ino same_outside_trans by (metis plug.simps(2))
  then show ?thesis using p g u 0(1) f(1-4) by (simp add: insert_fixup_step_def GET_PARENT_def GET_L_def GET_R_def)
qed

lemma rotate_RL:
  assumes "tree_is t (plug E (Nd U g kg cg (Nd (Nd l n k c r) p kp cp s)))" and "col U = RB_BLACK"
  shows "\<exists>t'. insert_fixup_step t n p = Some (t', p) \<and> tree_is t' (plug E (Nd (Nd U g kg RB_RED l) n k RB_BLACK (Nd r p kp cp s))) \<and>
    same_outside (plug E (Nd U g kg cg (Nd (Nd l n k c r) p kp cp s))) t t'"
proof -
  let ?T = "plug E (Nd U g kg cg (Nd (Nd l n k c r) p kp cp s))"
  have p: "rb_mem t p = Some \<lparr>rb_key = kp, rb_parent = g, rb_color = cp, rb_L = n, rb_R = rt s\<rparr>" "p \<noteq> 0"
    using node_at [of t "FR U g kg cg # E" "Nd l n k c r" p kp cp s] assms(1) by simp_all
  have g: "rb_mem t g = Some \<lparr>rb_key = kg, rb_parent = ctx_par E, rb_color = cg, rb_L = rt U, rb_R = p\<rparr>"
    using node_at [OF assms(1)] by simp
  have u: "is_red t (rt U) = Some False" using sub_node_at [of t "FL g kg cg (Nd (Nd l n k c r) p kp cp s) # E" U] assms(1,2) by simp
  have "distinct (addrs ?T)" using assms(1) by (simp add: tree_is_def)
  then have pU: "p \<noteq> rt U" using p(2) rt_in [of U] unfolding distinct_plug by auto
  have a: "tree_is t (plug (FR U g kg cg # E) (Nd (Nd l n k c r) p kp cp s))" using assms(1) by simp
  obtain t0 where 0: "rb_rotate_right p t = Some t0" "tree_is t0 (plug (FR U g kg cg # E) (Nd l n k c (Nd r p kp cp s)))"
    "same_outside (plug (FR U g kg cg # E) (Nd (Nd l n k c r) p kp cp s)) t t0" using right_step [OF a] by blast
  have b: "tree_is t0 (plug E (Nd U g kg cg (Nd l n k c (Nd r p kp cp s))))" using 0(2) by simp
  obtain t1 t2 t3 where f: "SET_COLOR n RB_BLACK t0 = Some t1" "SET_COLOR g RB_RED t1 = Some t2" "rb_rotate_left g t2 = Some t3"
    "tree_is t3 (plug E (Nd (Nd U g kg RB_RED l) n k RB_BLACK (Nd r p kp cp s)))"
    "same_outside (plug E (Nd U g kg cg (Nd l n k c (Nd r p kp cp s)))) t0 t3" using finish_right [OF b] by blast
  have "ino ?T = ino (plug E (Nd U g kg cg (Nd l n k c (Nd r p kp cp s))))" by (rule ino_plug) simp
  then have "same_outside ?T t t3" using 0(3) f(5) same_outside_ino same_outside_trans by (metis plug.simps(3))
  then show ?thesis using p g u pU 0(1) f(1-4) by (simp add: insert_fixup_step_def GET_PARENT_def GET_L_def GET_R_def)
qed

text \<open>The loop ends under a black parent and leaves a red-black tree.\<close>

lemma fixup_done:
  assumes "tree_is t (plug C S)" and "S \<noteq> Lf" and "ctx_col C = RB_BLACK" and "invrb S" and "cvalid C (bh S)"
  shows "\<exists>t' T'. rb_insert_fixup t (rt S) = Some t' \<and> tree_is t' T' \<and> is_rbt T' \<and> ino T' = ino (plug C S) \<and>
    same_outside (plug C S) t t'"
proof -
  obtain l a k c r where S: "S = Nd l a k c r" using assms(2) by (cases S) auto
  have n: "rb_mem t a = Some \<lparr>rb_key = k, rb_parent = ctx_par C, rb_color = c, rb_L = rt l, rb_R = rt r\<rparr>"
    using node_at assms(1) S by blast
  have h: "holds (rb_mem t) 0 (plug C S)" "rb_root t = rt (plug C S)" using assms(1) by (auto simp: tree_is_def)
  have red: "is_red t (ctx_par C) = Some False"
    using assms(3) h(1) by (cases C rule: ctx_par.cases) (auto simp: is_red_def GET_COLOR_def holds_plug)
  have inv: "\<exists>l a k c r. plug C S = Nd l a k c r \<and> is_rbt (Nd l a k RB_BLACK r)"
  proof (cases "C = []")
    case True
    then show ?thesis using assms(4) S by (auto simp: is_rbt_def)
  next
    case False
    have "is_rbt (plug C S)" using plug_rbt [OF assms(4,5)] assms(3) False by simp
    moreover have "plug C S \<noteq> Lf" using rt_plug [OF False, of S Lf] h(1) holds_rt [OF h(1)] S
      by (metis addrs.simps(1) addrs.simps(2) append_is_Nil_conv empty_iff empty_set list.distinct(1) set_plug sup_eq_bot_iff set_empty)
    ultimately show ?thesis by (cases "plug C S") (auto simp: is_rbt_def)
  qed
  then obtain rl ra rk rc rr where T: "plug C S = Nd rl ra rk rc rr" "is_rbt (Nd rl ra rk RB_BLACK rr)" by blast
  obtain t' where t': "SET_COLOR ra RB_BLACK t = Some t'" "tree_is t' (plug [] (Nd rl ra rk RB_BLACK rr))"
    "same_outside (plug [] (Nd rl ra rk rc rr)) t t'" using color_step [of t "[]" rl ra rk rc rr] assms(1) T(1) by auto
  have "rb_insert_fixup t a = Some t'"
    by (subst rb_insert_fixup.simps) (use n red t'(1) h(2) T(1) in \<open>simp add: GET_PARENT_def\<close>)
  then show ?thesis using t' T S by (intro exI [of _ t'] exI [of _ "Nd rl ra rk RB_BLACK rr"]) simp
qed

lemma fixup_turn:
  assumes "tree_is t (plug C S)" and "S \<noteq> Lf" and "ctx_col C = RB_RED" and "insert_fixup_step t (rt S) (ctx_par C) = Some (t1, n1)"
  shows "rb_insert_fixup t (rt S) = rb_insert_fixup t1 n1"
proof -
  obtain l a k c r where S: "S = Nd l a k c r" using assms(2) by (cases S) auto
  have n: "rb_mem t a = Some \<lparr>rb_key = k, rb_parent = ctx_par C, rb_color = c, rb_L = rt l, rb_R = rt r\<rparr>"
    using node_at assms(1) S by blast
  have "is_red t (ctx_par C) = Some True"
    using assms(1,3) by (cases C rule: ctx_par.cases) (auto simp: is_red_def GET_COLOR_def holds_plug tree_is_def)
  then show ?thesis by (subst rb_insert_fixup.simps) (use n assms(4) S in \<open>simp add: GET_PARENT_def\<close>)
qed

text \<open>What the loop promises from a red node in a valid context.\<close>

definition fixup_goal :: "rb_tree \<Rightarrow> nat \<Rightarrow> ptree \<Rightarrow> bool" where
  "fixup_goal t n T \<longleftrightarrow> (\<exists>t' T'. rb_insert_fixup t n = Some t' \<and> tree_is t' T' \<and> is_rbt T' \<and> ino T' = ino T \<and> same_outside T t t')"

lemma fixup_goal_step:
  assumes "tree_is t (plug C S)" and "S \<noteq> Lf" and "ctx_col C = RB_RED" and "insert_fixup_step t (rt S) (ctx_par C) = Some (t1, n1)"
    and "fixup_goal t1 n1 T1" and "ino T1 = ino (plug C S)" and "same_outside (plug C S) t t1"
  shows "fixup_goal t (rt S) (plug C S)"
  using assms(5-7) fixup_turn [OF assms(1-4)] same_outside_trans unfolding fixup_goal_def same_outside_ino [OF assms(6)] by metis

lemma fixup_goal_done:
  assumes "tree_is t (plug C S)" and "S \<noteq> Lf" and "ctx_col C = RB_BLACK" and "invrb S" and "cvalid C (bh S)"
  shows "fixup_goal t (rt S) (plug C S)"
  using fixup_done [OF assms] by (auto simp: fixup_goal_def)

lemma fixup_red_left:
  assumes t: "tree_is t (plug (FL g kg RB_BLACK U # E) (Nd x p kp RB_RED y))" and n: "n = rt x \<or> n = rt y" and "n \<noteq> 0"
    and v: "invrb x" "invrb y" "bh x = bh y" "col (if n = rt x then y else x) = RB_BLACK" "col (if n = rt x then x else y) = RB_RED" "cvalid (FL g kg RB_BLACK U # E) (bh x)"
    and IH: "\<And>t S'. tree_is t (plug E S') \<Longrightarrow> S' \<noteq> Lf \<Longrightarrow> col S' = RB_RED \<Longrightarrow> invrb S' \<Longrightarrow> cvalid E (bh S') \<Longrightarrow> fixup_goal t (rt S') (plug E S')"
  shows "\<exists>t1 n1 T1. insert_fixup_step t n p = Some (t1, n1) \<and> fixup_goal t1 n1 T1 \<and>
    ino T1 = ino (plug (FL g kg RB_BLACK U # E) (Nd x p kp RB_RED y)) \<and> same_outside (plug (FL g kg RB_BLACK U # E) (Nd x p kp RB_RED y)) t t1"
proof -
  let ?T = "plug (FL g kg RB_BLACK U # E) (Nd x p kp RB_RED y)"
  have t0: "tree_is t (plug E (Nd (Nd x p kp RB_RED y) g kg RB_BLACK U))" using t by simp
  have U: "invrb U" "bh U = bh x" "cvalid E (bh x + 1)" using v(6) by simp_all
  consider (red) "col U = RB_RED" | (LL) "col U = RB_BLACK" "n = rt x" | (LR) "col U = RB_BLACK" "n \<noteq> rt x"
    using invrb_col [OF U(1)] by blast
  then show ?thesis
  proof cases
    case red
    then obtain ul u ku ur where Ueq: "U = Nd ul u ku RB_RED ur" by (cases U) auto
    let ?S = "Nd (Nd x p kp RB_BLACK y) g kg RB_RED (Nd ul u ku RB_BLACK ur)"
    obtain t1 where 1: "insert_fixup_step t n p = Some (t1, g)" "tree_is t1 (plug E ?S)"
      "same_outside (plug E (Nd (Nd x p kp RB_RED y) g kg RB_BLACK (Nd ul u ku RB_RED ur))) t t1"
      using uncle_left t0 unfolding Ueq by blast
    have "fixup_goal t1 g (plug E ?S)" using IH [OF 1(2)] U v Ueq by simp
    moreover have "ino (plug E ?S) = ino ?T" unfolding Ueq by (simp, rule ino_plug, simp)
    ultimately show ?thesis using 1 Ueq by auto
  next
    case LL
    let ?C = "FL p kp RB_BLACK (Nd y g kg RB_RED U) # E"
    obtain t1 where 1: "insert_fixup_step t n p = Some (t1, n)" "tree_is t1 (plug E (Nd x p kp RB_BLACK (Nd y g kg RB_RED U)))"
      "same_outside (plug E (Nd (Nd x p kp RB_RED y) g kg RB_BLACK U)) t t1"
      using rotate_LL [OF t0 LL(1)] LL(2) \<open>n \<noteq> 0\<close> by blast
    have "fixup_goal t1 n (plug ?C x)" unfolding LL(2)
      by (rule fixup_goal_done) (use 1(2) LL U v \<open>n \<noteq> 0\<close> in auto)
    moreover have "ino (plug ?C x) = ino ?T" by (simp, rule ino_plug, simp)
    ultimately show ?thesis using 1 by auto
  next
    case LR
    then obtain l k c r where y: "y = Nd l n k c r" using n \<open>n \<noteq> 0\<close> by (cases y) auto
    let ?C = "FL n k RB_BLACK (Nd r g kg RB_RED U) # E"
    obtain t1 where 1: "insert_fixup_step t n p = Some (t1, p)"
      "tree_is t1 (plug E (Nd (Nd x p kp RB_RED l) n k RB_BLACK (Nd r g kg RB_RED U)))"
      "same_outside (plug E (Nd (Nd x p kp RB_RED y) g kg RB_BLACK U)) t t1"
      using rotate_LR [OF t0 [unfolded y] LR(1)] y by blast
    have "fixup_goal t1 p (plug ?C (Nd x p kp RB_RED l))"
      using fixup_goal_done [of t1 ?C "Nd x p kp RB_RED l"] 1(2) LR U v y by simp
    moreover have "ino (plug ?C (Nd x p kp RB_RED l)) = ino ?T" unfolding y by (simp, rule ino_plug, simp)
    ultimately show ?thesis using 1 by auto
  qed
qed

lemma fixup_red_right:
  assumes t: "tree_is t (plug (FR U g kg RB_BLACK # E) (Nd x p kp RB_RED y))" and n: "n = rt x \<or> n = rt y" and "n \<noteq> 0"
    and v: "invrb x" "invrb y" "bh x = bh y" "col (if n = rt y then x else y) = RB_BLACK" "col (if n = rt y then y else x) = RB_RED" "cvalid (FR U g kg RB_BLACK # E) (bh x)"
    and IH: "\<And>t S'. tree_is t (plug E S') \<Longrightarrow> S' \<noteq> Lf \<Longrightarrow> col S' = RB_RED \<Longrightarrow> invrb S' \<Longrightarrow> cvalid E (bh S') \<Longrightarrow> fixup_goal t (rt S') (plug E S')"
  shows "\<exists>t1 n1 T1. insert_fixup_step t n p = Some (t1, n1) \<and> fixup_goal t1 n1 T1 \<and>
    ino T1 = ino (plug (FR U g kg RB_BLACK # E) (Nd x p kp RB_RED y)) \<and> same_outside (plug (FR U g kg RB_BLACK # E) (Nd x p kp RB_RED y)) t t1"
proof -
  let ?T = "plug (FR U g kg RB_BLACK # E) (Nd x p kp RB_RED y)"
  have t0: "tree_is t (plug E (Nd U g kg RB_BLACK (Nd x p kp RB_RED y)))" using t by simp
  have U: "invrb U" "bh U = bh x" "cvalid E (bh x + 1)" using v(6) by simp_all
  consider (red) "col U = RB_RED" | (RR) "col U = RB_BLACK" "n = rt y" | (RL) "col U = RB_BLACK" "n \<noteq> rt y"
    using invrb_col [OF U(1)] by blast
  then show ?thesis
  proof cases
    case red
    then obtain ul u ku ur where Ueq: "U = Nd ul u ku RB_RED ur" by (cases U) auto
    let ?S = "Nd (Nd ul u ku RB_BLACK ur) g kg RB_RED (Nd x p kp RB_BLACK y)"
    obtain t1 where 1: "insert_fixup_step t n p = Some (t1, g)" "tree_is t1 (plug E ?S)"
      "same_outside (plug E (Nd (Nd ul u ku RB_RED ur) g kg RB_BLACK (Nd x p kp RB_RED y))) t t1"
      using uncle_right t0 unfolding Ueq by blast
    have "fixup_goal t1 g (plug E ?S)" using IH [OF 1(2)] U v Ueq by simp
    moreover have "ino (plug E ?S) = ino ?T" unfolding Ueq by (simp, rule ino_plug, simp)
    ultimately show ?thesis using 1 Ueq by auto
  next
    case RR
    let ?C = "FR (Nd U g kg RB_RED x) p kp RB_BLACK # E"
    obtain t1 where 1: "insert_fixup_step t n p = Some (t1, n)" "tree_is t1 (plug E (Nd (Nd U g kg RB_RED x) p kp RB_BLACK y))"
      "same_outside (plug E (Nd U g kg RB_BLACK (Nd x p kp RB_RED y))) t t1"
      using rotate_RR [OF t0 RR(1)] RR(2) \<open>n \<noteq> 0\<close> by blast
    have "fixup_goal t1 n (plug ?C y)" unfolding RR(2)
      by (rule fixup_goal_done) (use 1(2) RR U v \<open>n \<noteq> 0\<close> in auto)
    moreover have "ino (plug ?C y) = ino ?T" by (simp, rule ino_plug, simp)
    ultimately show ?thesis using 1 by auto
  next
    case RL
    then obtain l k c r where x: "x = Nd l n k c r" using n \<open>n \<noteq> 0\<close> by (cases x) auto
    let ?C = "FR (Nd U g kg RB_RED l) n k RB_BLACK # E"
    obtain t1 where 1: "insert_fixup_step t n p = Some (t1, p)"
      "tree_is t1 (plug E (Nd (Nd U g kg RB_RED l) n k RB_BLACK (Nd r p kp RB_RED y)))"
      "same_outside (plug E (Nd U g kg RB_BLACK (Nd x p kp RB_RED y))) t t1"
      using rotate_RL [OF t0 [unfolded x] RL(1)] x by blast
    have "fixup_goal t1 p (plug ?C (Nd r p kp RB_RED y))"
      using fixup_goal_done [of t1 ?C "Nd r p kp RB_RED y"] 1(2) RL U v x by simp
    moreover have "ino (plug ?C (Nd r p kp RB_RED y)) = ino ?T" unfolding x by (simp, rule ino_plug, simp)
    ultimately show ?thesis using 1 by auto
  qed
qed

lemma insert_fixup_loop:
  "tree_is t (plug C S) \<Longrightarrow> S \<noteq> Lf \<Longrightarrow> col S = RB_RED \<Longrightarrow> invrb S \<Longrightarrow> cvalid C (bh S) \<Longrightarrow> fixup_goal t (rt S) (plug C S)"
proof (induction C arbitrary: t S rule: measure_induct_rule [of length])
  case (less C)
  have sz: "rt S \<noteq> 0" using less.prems(1,2) holds_rt by (metis tree_is_def holds_plug)
  show ?case
  proof (cases "ctx_col C = RB_BLACK")
    case True
    then show ?thesis using fixup_goal_done less.prems by blast
  next
    case False
    then obtain F D where C: "C = F # D" by (cases C) auto
    have red: "ctx_col C = RB_RED" using False less.prems(5) C by (cases F) auto
    have D: "D \<noteq> []" "ctx_col D = RB_BLACK" using red less.prems(5) C by (cases F; auto)+
    obtain G E where D2: "D = G # E" using D(1) by (cases D) auto
    have d: "distinct (addrs (plug C S))" using less.prems(1) by (simp add: tree_is_def)
    have IH: "tree_is t (plug E S') \<Longrightarrow> S' \<noteq> Lf \<Longrightarrow> col S' = RB_RED \<Longrightarrow> invrb S' \<Longrightarrow> cvalid E (bh S') \<Longrightarrow> fixup_goal t (rt S') (plug E S')"
      for t S' using less.IH [of E] C D2 by simp
    obtain x p kp y where P: "plug C S = plug D (Nd x p kp RB_RED y)" "ctx_par C = p" "rt S = rt x \<or> rt S = rt y"
      "invrb x" "invrb y" "bh x = bh y" "cvalid D (bh x)"
      "rt S = rt x \<and> col x = RB_RED \<and> col y = RB_BLACK \<and> rt S \<noteq> rt y \<or> rt S = rt y \<and> col y = RB_RED \<and> col x = RB_BLACK \<and> rt S \<noteq> rt x"
    proof (cases F)
      case (FL a k c r)
      have "rt r \<noteq> rt S" using d rt_in [of S] rt_in [of r] sz unfolding C FL distinct_plug by (cases "rt r = 0") auto
      then show ?thesis using that [of S a k r] less.prems C FL red by auto
    next
      case (FR l a k c)
      have "rt l \<noteq> rt S" using d rt_in [of S] rt_in [of l] sz unfolding C FR distinct_plug by (cases "rt l = 0") auto
      then show ?thesis using that [of l a k S] less.prems C FR red by auto
    qed
    have t: "tree_is t (plug D (Nd x p kp RB_RED y))" using less.prems(1) P(1) by simp
    have "\<exists>t1 n1 T1. insert_fixup_step t (rt S) p = Some (t1, n1) \<and> fixup_goal t1 n1 T1 \<and>
      ino T1 = ino (plug D (Nd x p kp RB_RED y)) \<and> same_outside (plug D (Nd x p kp RB_RED y)) t t1"
    proof (cases G)
      case (FL g kg cg U)
      then have G: "D = FL g kg RB_BLACK U # E" using D(2) D2 by simp
      show ?thesis unfolding G
        by (rule fixup_red_left [OF t [unfolded G] P(3) sz P(4-6) _ _ P(7) [unfolded G] IH]) (use P(8) in auto)
    next
      case (FR U g kg cg)
      then have G: "D = FR U g kg RB_BLACK # E" using D(2) D2 by simp
      show ?thesis unfolding G
        by (rule fixup_red_right [OF t [unfolded G] P(3) sz P(4-6) _ _ P(7) [unfolded G] IH]) (use P(8) in auto)
    qed
    then show ?thesis using fixup_goal_step [OF less.prems(1,2) red] unfolding P(1,2) by blast
  qed
qed

subsection \<open>Search trees\<close>

definition bst :: "ptree \<Rightarrow> bool" where
  "bst T \<longleftrightarrow> sorted_wrt (<) (map snd (ino T))"

text \<open>What stands to the left and to the right of a position.\<close>

fun ctx_l :: "frame list \<Rightarrow> (nat \<times> u64) list" where
  "ctx_l [] = []"
| "ctx_l (FL a k c r # C) = ctx_l C"
| "ctx_l (FR l a k c # C) = ctx_l C @ ino l @ [(a, k)]"

fun ctx_r :: "frame list \<Rightarrow> (nat \<times> u64) list" where
  "ctx_r [] = []"
| "ctx_r (FL a k c r # C) = (a, k) # ino r @ ctx_r C"
| "ctx_r (FR l a k c # C) = ctx_r C"

definition between :: "frame list \<Rightarrow> u64 \<Rightarrow> bool" where
  "between C key \<longleftrightarrow> (\<forall>x \<in> set (ctx_l C). snd x < key) \<and> (\<forall>x \<in> set (ctx_r C). key < snd x)"

lemma ino_split: "ino (plug C t) = ctx_l C @ ino t @ ctx_r C"
  by (induction C t rule: plug.induct) auto

lemma bst_sub:
  assumes "bst (plug C (Nd l a k c r))"
  shows "\<forall>x \<in> set (ino l). snd x < k" "\<forall>x \<in> set (ino r). k < snd x"
  using assms by (auto simp: bst_def ino_split sorted_wrt_append)

lemma plug_valid: "is_rbt (plug C S) \<Longrightarrow> invrb S \<and> cvalid C (bh S) \<and> (col S = RB_RED \<longrightarrow> C \<noteq> [] \<and> ctx_col C = RB_BLACK)"
  by (induction C S rule: plug.induct) (auto simp: is_rbt_def)

text \<open>A search and the descent of an insertion follow the same path.\<close>

lemma search_at:
  "tree_is t (plug C S) \<Longrightarrow> bst (plug C S) \<Longrightarrow>
    \<exists>a. rb_search t (rt S) key = Some a \<and> (if a = 0 then key \<notin> snd ` set (ino S) else (a, key) \<in> set (ino S))"
proof (induction S arbitrary: C)
  case Lf
  then show ?case by (subst rb_search.simps) simp
next
  case (Nd l a k c r)
  note n = node_at [OF Nd.prems(1)]
  note b = bst_sub [OF Nd.prems(2)]
  have L: "tree_is t (plug (FL a k c r # C) l)" "bst (plug (FL a k c r # C) l)" using Nd.prems by simp_all
  have R: "tree_is t (plug (FR l a k c # C) r)" "bst (plug (FR l a k c # C) r)" using Nd.prems by simp_all
  consider "key = k" | "key < k" | "k < key" by force
  then show ?case
  proof cases
    case 1
    then show ?thesis using n by (subst rb_search.simps) (auto simp: GET_KEY_def)
  next
    case 2
    have "rb_search t a key = rb_search t (rt l) key"
      by (subst rb_search.simps) (use n 2 in \<open>auto simp: GET_KEY_def GET_L_def\<close>)
    moreover have "key \<notin> snd ` set (ino r)" using b(2) 2 by (auto dest: order.strict_trans)
    moreover have "key \<noteq> k" using 2 by simp
    moreover obtain b where "rb_search t (rt l) key = Some b" "if b = 0 then key \<notin> snd ` set (ino l) else (b, key) \<in> set (ino l)"
      using Nd.IH(1) [OF L] by blast
    ultimately show ?thesis by (intro exI [of _ b]) (simp add: image_Un split: if_splits)
  next
    case 3
    have "rb_search t a key = rb_search t (rt r) key"
      by (subst rb_search.simps) (use n 3 in \<open>auto simp: GET_KEY_def GET_R_def\<close>)
    moreover have "key \<notin> snd ` set (ino l)" using b(1) 3 by (auto dest: order.strict_trans)
    moreover have "key \<noteq> k" using 3 by simp
    moreover obtain b where "rb_search t (rt r) key = Some b" "if b = 0 then key \<notin> snd ` set (ino r) else (b, key) \<in> set (ino r)"
      using Nd.IH(2) [OF R] by blast
    ultimately show ?thesis by (intro exI [of _ b]) (simp add: image_Un split: if_splits)
  qed
qed

lemma descend_at:
  "tree_is t (plug C S) \<Longrightarrow> bst (plug C S) \<Longrightarrow> between C key \<Longrightarrow>
    (\<exists>a. insert_descend t key (ctx_par C) (rt S) = Some (a, True) \<and> (a, key) \<in> set (ino S)) \<or>
    (\<exists>D. insert_descend t key (ctx_par C) (rt S) = Some (ctx_par D, False) \<and> plug D Lf = plug C S \<and> between D key)"
proof (induction S arbitrary: C)
  case Lf
  then show ?case by (intro disjI2 exI [of _ C]) (subst insert_descend.simps, simp)
next
  case (Nd l a k c r)
  note n = node_at [OF Nd.prems(1)]
  note b = bst_sub [OF Nd.prems(2)]
  have L: "tree_is t (plug (FL a k c r # C) l)" "bst (plug (FL a k c r # C) l)" using Nd.prems by simp_all
  have R: "tree_is t (plug (FR l a k c # C) r)" "bst (plug (FR l a k c # C) r)" using Nd.prems by simp_all
  consider "key = k" | "key < k" | "k < key" by force
  then show ?case
  proof cases
    case 1
    then show ?thesis using n by (intro disjI1) (subst insert_descend.simps, auto simp: GET_KEY_def)
  next
    case 2
    have "insert_descend t key (ctx_par C) a = insert_descend t key a (rt l)"
      by (subst insert_descend.simps) (use n 2 in \<open>auto simp: GET_KEY_def GET_L_def\<close>)
    moreover have "between (FL a k c r # C) key" using Nd.prems(3) b(2) 2 by (force simp: between_def)
    ultimately show ?thesis using Nd.IH(1) [OF L] by force
  next
    case 3
    have "insert_descend t key (ctx_par C) a = insert_descend t key a (rt r)"
      by (subst insert_descend.simps) (use n 3 in \<open>auto simp: GET_KEY_def GET_R_def\<close>)
    moreover have "between (FR l a k c # C) key" using Nd.prems(3) b(1) 3 by (force simp: between_def)
    ultimately show ?thesis using Nd.IH(2) [OF R] by force
  qed
qed

text \<open>Hanging a fresh red node into an empty position.\<close>

lemma attach:
  assumes "tree_is t (plug D Lf)" and "D \<noteq> []" and "n \<noteq> 0" "n \<notin> set (addrs (plug D Lf))" and "between D key"
    and n: "rb_mem t n = Some \<lparr>rb_key = key, rb_parent = q, rb_color = c, rb_L = 0, rb_R = 0\<rparr>"
  shows "\<exists>t'. do {
         t \<leftarrow> SET_PARENT n (ctx_par D) t;
         k \<leftarrow> GET_KEY t (ctx_par D);
         t \<leftarrow> (if key > k then SET_R (ctx_par D) n t else SET_L (ctx_par D) n t);
         SET_COLOR n RB_RED t } = Some t' \<and> tree_is t' (plug D (Nd Lf n key RB_RED Lf)) \<and>
       (\<forall>m. m \<notin> insert n (set (addrs (plug D Lf))) \<longrightarrow> rb_mem t' m = rb_mem t m)"
proof -
  let ?s = "rb_mem t"
  let ?y = "ctx_par D"
  let ?s' = "(\<lambda>m. if m = ?y then map_option (relink D n) (?s m) else ?s m)(n \<mapsto> \<lparr>rb_key = key, rb_parent = ?y, rb_color = RB_RED, rb_L = 0, rb_R = 0\<rparr>)"
  have h: "holds_ctx ?s 0 D" "?s 0 = None" and root: "rb_root t = rt (plug D Lf)" and d: "distinct (ctx_addrs D)"
    using assms(1) by (auto simp: tree_is_def holds_plug distinct_plug)
  have y: "?y \<noteq> 0" "?y \<in> set (ctx_addrs D)" using ctx_par_in [of D] holds_ctx_par [OF h(1)] assms(2) by auto
  have nD: "n \<notin> set (ctx_addrs D)" using assms(4) by (simp add: set_plug)
  then have ny: "n \<noteq> ?y" using y(2) by auto
  have "holds_ctx ?s' n D"
    by (rule holds_ctx_relink [OF h(1) assms(2) d]) (use nD ny in \<open>auto simp: relink_def [abs_def]\<close>)
  moreover have "rt (plug D (Nd Lf n key RB_RED Lf)) = rb_root t" using rt_plug [OF assms(2)] root by metis
  moreover have "?s' 0 = None" using h(2) assms(3) by simp
  moreover have "distinct (addrs (plug D (Nd Lf n key RB_RED Lf)))" using d nD by (simp add: distinct_plug)
  ultimately have T: "tree_is (t\<lparr>rb_mem := ?s'\<rparr>) (plug D (Nd Lf n key RB_RED Lf))" using assms(3) by (simp add: tree_is_def holds_plug)
  have op: "do { t \<leftarrow> SET_PARENT n ?y t; k \<leftarrow> GET_KEY t ?y; t \<leftarrow> (if key > k then SET_R ?y n t else SET_L ?y n t); SET_COLOR n RB_RED t }
    = Some (t\<lparr>rb_mem := ?s'\<rparr>)"
  proof (cases D rule: ctx_par.cases)
    case (2 a k c r C)
    have "key < k" using assms(5) 2 by (simp add: between_def)
    then have "\<not> k < key" by auto
    then show ?thesis using 2 n ny h(1) by (auto simp: rb_ops relink_def fun_eq_iff intro!: rb_tree.equality)
  next
    case (3 l a k c C)
    then have "k < key" using assms(5) by (simp add: between_def)
    then show ?thesis using 3 n ny h(1) by (auto simp: rb_ops relink_def fun_eq_iff intro!: rb_tree.equality)
  qed (use assms(2) in simp)
  show ?thesis unfolding op using T y by (auto simp: set_plug)
qed

lemma tree_is_outside: "tree_is t T \<Longrightarrow> n \<notin> set (addrs T) \<Longrightarrow> n \<noteq> 0 \<Longrightarrow> tree_is (t\<lparr>rb_mem := (rb_mem t)(n \<mapsto> x)\<rparr>) T"
  by (auto simp: tree_is_def intro!: holds_cong [of "rb_mem t"])

lemma rb_insert_unfold:
  assumes "do { t \<leftarrow> SET_R n 0 t; t \<leftarrow> SET_L n 0 t; SET_PARENT n 0 t } = Some t1"
  shows "rb_insert n t =
    (if rb_root t1 = 0 then do {
       t \<leftarrow> SET_COLOR n RB_BLACK t1;
       t \<leftarrow> rb_insert_fixup (t\<lparr>rb_root := n\<rparr>) n;
       Some (0, t) }
     else do {
       key \<leftarrow> GET_KEY t1 n;
       (y, existed) \<leftarrow> insert_descend t1 key 0 (rb_root t1);
       if existed then Some (y, t1)
       else do {
         t \<leftarrow> do { t \<leftarrow> SET_PARENT n y t1; k \<leftarrow> GET_KEY t y;
                  t \<leftarrow> (if key > k then SET_R y n t else SET_L y n t); SET_COLOR n RB_RED t };
         t \<leftarrow> rb_insert_fixup t n;
         Some (0, t) } })"
proof -
  obtain ta tb where "SET_R n 0 t = Some ta" "SET_L n 0 ta = Some tb" "SET_PARENT n 0 tb = Some t1"
    using assms by (auto simp: Option.bind_eq_Some_conv)
  then show ?thesis by (simp add: rb_insert_def cong: if_cong)
qed

text \<open>The state after the first assignments of \<open>rb_insert\<close>.\<close>

definition cleared :: "nat \<Rightarrow> rb_node \<Rightarrow> rb_tree \<Rightarrow> rb_tree" where
  "cleared n x t = t\<lparr>rb_mem := (rb_mem t)(n \<mapsto> \<lparr>rb_key = rb_key x, rb_parent = 0, rb_color = rb_color x, rb_L = 0, rb_R = 0\<rparr>)\<rparr>"

lemma cleared_steps: "rb_mem t n = Some x \<Longrightarrow> do { t \<leftarrow> SET_R n 0 t; t \<leftarrow> SET_L n 0 t; SET_PARENT n 0 t } = Some (cleared n x t)"
  by (cases x) (auto simp: cleared_def rb_ops intro!: rb_tree.equality)

text \<open>Keys are never written.\<close>

lemma tree_is_key: "tree_is t T \<Longrightarrow> (a, k) \<in> set (ino T) \<Longrightarrow> GET_KEY t a = Some k"
proof -
  have "holds s p T \<Longrightarrow> (a, k) \<in> set (ino T) \<Longrightarrow> map_option rb_key (s a) = Some k" for s p
    by (induction T arbitrary: p) auto
  then show "tree_is t T \<Longrightarrow> (a, k) \<in> set (ino T) \<Longrightarrow> GET_KEY t a = Some k"
    unfolding tree_is_def GET_KEY_def by (metis (no_types, lifting) bind_eq_Some_conv map_option_eq_Some)
qed

lemma same_keys:
  assumes "tree_is t T" and "tree_is t' T'" and "set (ino T) \<subseteq> insert (n, k) (set (ino T'))" and "GET_KEY t n = Some k" and "GET_KEY t' n = Some k"
    and "\<And>m. m \<notin> insert n (set (addrs T)) \<Longrightarrow> rb_mem t' m = rb_mem t m"
  shows "GET_KEY t' = GET_KEY t"
proof
  fix m
  show "GET_KEY t' m = GET_KEY t m"
  proof (cases "m \<noteq> n \<and> m \<in> set (addrs T)")
    case True
    then obtain km where "(m, km) \<in> set (ino T)" "m \<noteq> n" by (auto simp: addrs_ino)
    then show ?thesis using assms(1-3) tree_is_key by (metis (no_types, lifting) insert_iff prod.inject subsetD)
  next
    case False
    then show ?thesis using assms(4-6) by (cases "m = n") (auto simp: GET_KEY_def)
  qed
qed

text \<open>What an insertion of \<open>n\<close> with key \<open>k\<close> into \<open>T\<close> may do.\<close>

definition inserted :: "nat \<Rightarrow> u64 \<Rightarrow> ptree \<Rightarrow> rb_tree \<Rightarrow> bool" where
  "inserted n k T t \<longleftrightarrow> (\<exists>res t' T'. rb_insert n t = Some (res, t') \<and> tree_is t' T' \<and> is_rbt T' \<and> bst T' \<and>
    (if k \<in> snd ` set (ino T) then (res, k) \<in> set (ino T) \<and> T' = T else res = 0 \<and> set (ino T') = insert (n, k) (set (ino T))) \<and>
    (\<forall>m. m \<notin> insert n (set (addrs T)) \<longrightarrow> rb_mem t' m = rb_mem t m) \<and> GET_KEY t' = GET_KEY t)"

lemma insert_empty:
  assumes "tree_is t Lf" and "n \<noteq> 0" and x: "rb_mem t n = Some x"
  shows "inserted n (rb_key x) Lf t"
proof -
  let ?t1 = "cleared n x t"
  let ?N = "Nd Lf n (rb_key x) RB_BLACK Lf" and ?z = "\<lparr>rb_key = rb_key x, rb_parent = 0, rb_color = RB_BLACK, rb_L = 0, rb_R = 0\<rparr>"
  have e: "rb_root ?t1 = 0" using assms(1) by (simp add: tree_is_def cleared_def)
  let ?t2 = "?t1\<lparr>rb_mem := (rb_mem ?t1)(n \<mapsto> ?z), rb_root := n\<rparr>"
  have t2: "tree_is ?t2 (plug [] ?N)" using assms(1,2) by (simp add: tree_is_def cleared_def)
  then have "fixup_goal ?t2 n ?N" using fixup_goal_done [of ?t2 "[]" ?N] by simp
  then obtain t' T' where f: "rb_insert_fixup ?t2 n = Some t'" "tree_is t' T'" "is_rbt T'" "ino T' = [(n, rb_key x)]" "same_outside ?N ?t2 t'"
    by (auto simp: fixup_goal_def)
  have "SET_COLOR n RB_BLACK ?t1 = Some (?t1\<lparr>rb_mem := (rb_mem ?t1)(n \<mapsto> ?z)\<rparr>)" by (simp add: rb_ops cleared_def)
  then have "rb_insert n t = Some (0, t')" using f(1) unfolding rb_insert_unfold [OF cleared_steps [OF x]] by (simp only: e) simp
  moreover have o: "rb_mem t' m = rb_mem t m" if "m \<noteq> n" for m using f(5) that by (auto simp: same_outside_def cleared_def)
  moreover have "GET_KEY t' = GET_KEY t"
    by (rule same_keys [OF assms(1) f(2), of n "rb_key x"]) (use f(2,4) x o tree_is_key [of t' T'] in \<open>auto simp: GET_KEY_def\<close>)
  ultimately show ?thesis
    unfolding inserted_def using f(2-4) by (intro exI [of _ 0] exI [of _ t'] exI [of _ T']) (auto simp: bst_def)
qed

lemma insert_existing:
  assumes "tree_is t T" and "is_rbt T" and "bst T" and "n \<noteq> 0" and "n \<notin> set (addrs T)" and x: "rb_mem t n = Some x" and "T \<noteq> Lf"
    and "insert_descend (cleared n x t) (rb_key x) 0 (rt T) = Some (a, True)" and "(a, rb_key x) \<in> set (ino T)"
  shows "inserted n (rb_key x) T t"
proof -
  let ?t1 = "cleared n x t"
  have t1: "tree_is ?t1 T" using tree_is_outside [OF assms(1,5,4)] by (simp add: cleared_def)
  have root: "rb_root ?t1 = rt T" "rt T \<noteq> 0" using t1 assms(7) by (cases T; auto simp: tree_is_def)+
  have "GET_KEY ?t1 n = Some (rb_key x)" by (simp add: GET_KEY_def cleared_def)
  then have "rb_insert n t = Some (a, ?t1)" unfolding rb_insert_unfold [OF cleared_steps [OF x]] root(1) using assms(8) root(2) by simp
  moreover have "GET_KEY ?t1 = GET_KEY t" using x by (auto simp: GET_KEY_def cleared_def fun_eq_iff)
  moreover have "rb_key x \<in> snd ` set (ino T)" using assms(9) by force
  ultimately show ?thesis
    unfolding inserted_def using t1 assms(2,3,9) by (intro exI [of _ a] exI [of _ ?t1] exI [of _ T]) (auto simp: cleared_def)
qed

lemma insert_attach:
  assumes "tree_is t T" and "is_rbt T" and "bst T" and "n \<noteq> 0" and "n \<notin> set (addrs T)" and x: "rb_mem t n = Some x" and "T \<noteq> Lf"
    and "insert_descend (cleared n x t) (rb_key x) 0 (rt T) = Some (ctx_par D, False)" and T: "T = plug D Lf" and "between D (rb_key x)"
  shows "inserted n (rb_key x) T t"
proof -
  let ?t1 = "cleared n x t" and ?key = "rb_key x"
  let ?T2 = "plug D (Nd Lf n ?key RB_RED Lf)"
  have t1: "tree_is ?t1 T" using tree_is_outside [OF assms(1,5,4)] by (simp add: cleared_def)
  have root: "rb_root ?t1 = rt T" "rt T \<noteq> 0" using t1 assms(7) by (cases T; auto simp: tree_is_def)+
  have D: "D \<noteq> []" using T assms(7) by auto
  have n1: "rb_mem ?t1 n = Some \<lparr>rb_key = ?key, rb_parent = 0, rb_color = rb_color x, rb_L = 0, rb_R = 0\<rparr>" by (simp add: cleared_def)
  obtain t2 where t2: "do { t \<leftarrow> SET_PARENT n (ctx_par D) ?t1; k \<leftarrow> GET_KEY t (ctx_par D);
      t \<leftarrow> (if ?key > k then SET_R (ctx_par D) n t else SET_L (ctx_par D) n t); SET_COLOR n RB_RED t } = Some t2"
    "tree_is t2 ?T2" "\<forall>m. m \<notin> insert n (set (addrs T)) \<longrightarrow> rb_mem t2 m = rb_mem ?t1 m"
    using attach [of ?t1 D n ?key] t1 D assms(4,5,10) T n1 by auto
  have "fixup_goal t2 n ?T2" using insert_fixup_loop [OF t2(2)] plug_valid [of D Lf] assms(2) T by simp
  then obtain t' T' where f: "rb_insert_fixup t2 n = Some t'" "tree_is t' T'" "is_rbt T'" "ino T' = ino ?T2" "same_outside ?T2 t2 t'"
    by (auto simp: fixup_goal_def)
  have key: "GET_KEY ?t1 n = Some ?key" by (simp add: GET_KEY_def cleared_def)
  have r: "rb_insert n t = Some (0, t')"
    unfolding rb_insert_unfold [OF cleared_steps [OF x]] root(1) key bind.simps assms(8) t2(1) prod.case f(1) using root(2) by simp
  have i: "ino T = ctx_l D @ ctx_r D" "ino ?T2 = ctx_l D @ (n, ?key) # ctx_r D" using ino_split [of D] T by auto
  have "bst T'" using assms(3,10) unfolding bst_def f(4) i by (auto simp: sorted_wrt_append between_def)
  moreover have "?key \<notin> snd ` set (ino T)" using assms(10) unfolding i between_def by auto
  moreover have o: "rb_mem t' m = rb_mem t m" if "m \<notin> insert n (set (addrs T))" for m
    using that f(5) t2(3) T unfolding same_outside_def set_plug by (auto simp: set_plug cleared_def)
  moreover have "GET_KEY t' = GET_KEY t"
    by (rule same_keys [OF assms(1) f(2), of n ?key]) (use f(2,4) x o i tree_is_key [of t' T'] in \<open>auto simp: GET_KEY_def\<close>)
  ultimately show ?thesis
    unfolding inserted_def using r f i by (intro exI [of _ 0] exI [of _ t'] exI [of _ T']) auto
qed

lemma rb_insert_inserted:
  assumes "tree_is t T" and "is_rbt T" and "bst T" and "n \<noteq> 0" and "n \<notin> set (addrs T)" and "rb_mem t n = Some x"
  shows "inserted n (rb_key x) T t"
proof (cases "T = Lf")
  case True
  then show ?thesis using insert_empty assms by simp
next
  case False
  have "tree_is (cleared n x t) T" using tree_is_outside [OF assms(1,5,4)] by (simp add: cleared_def)
  then consider (old) a where "insert_descend (cleared n x t) (rb_key x) 0 (rt T) = Some (a, True)" "(a, rb_key x) \<in> set (ino T)"
    | (new) D where "insert_descend (cleared n x t) (rb_key x) 0 (rt T) = Some (ctx_par D, False)" "T = plug D Lf" "between D (rb_key x)"
    using descend_at [of "cleared n x t" "[]" T "rb_key x"] assms(3) by (auto simp: between_def)
  then show ?thesis using insert_existing insert_attach assms False by cases auto
qed

text \<open>C10: inserting a node into a red-black search tree.  \<open>rb_insert\<close> returns.  If a node of that key is
  there, its address is returned and the tree is as it was.  Otherwise \<open>NULL\<close> is returned and the
  pointer structure is again a red-black search tree, with the new node as its only addition.  No
  other memory and no key changes.\<close>

theorem rb_insert_correct:
  assumes "tree_is t T" and "is_rbt T" and "bst T" and "n \<noteq> 0" and "n \<notin> set (addrs T)" and "rb_mem t n = Some x"
  shows "\<exists>res t' T'. rb_insert n t = Some (res, t') \<and> tree_is t' T' \<and> is_rbt T' \<and> bst T' \<and>
    (if rb_key x \<in> snd ` set (ino T) then (res, rb_key x) \<in> set (ino T) \<and> T' = T
     else res = 0 \<and> set (ino T') = insert (n, rb_key x) (set (ino T))) \<and>
    (\<forall>m. m \<notin> insert n (set (addrs T)) \<longrightarrow> rb_mem t' m = rb_mem t m) \<and> GET_KEY t' = GET_KEY t"
  using rb_insert_inserted [OF assms] unfolding inserted_def .

text \<open>Looking a key up in a search tree returns, with the node of that key, or \<open>NULL\<close> when there is none.\<close>

lemma rb_search_correct:
  assumes "tree_is t T" and "bst T"
  shows "\<exists>a. rb_search t (rb_root t) key = Some a \<and> (if a = 0 then key \<notin> snd ` set (ino T) else (a, key) \<in> set (ino T))"
  using search_at [of t "[]" T key] assms by (simp add: tree_is_def)

text \<open>A tree of two nodes, keys 5 and 7, and a loose node of key 9: the insertion recolours and rotates.\<close>

definition two_nodes :: rb_tree where
  "two_nodes = \<lparr>rb_root = 16, rb_mem = [16 \<mapsto> \<lparr>rb_key = 5, rb_parent = 0, rb_color = RB_BLACK, rb_L = 0, rb_R = 32\<rparr>,
     32 \<mapsto> \<lparr>rb_key = 7, rb_parent = 16, rb_color = RB_RED, rb_L = 0, rb_R = 0\<rparr>,
     48 \<mapsto> \<lparr>rb_key = 9, rb_parent = 3, rb_color = 7, rb_L = 1, rb_R = 1\<rparr>]\<rparr>"

definition two_nodes_tree :: ptree where
  "two_nodes_tree = Nd Lf 16 5 RB_BLACK (Nd Lf 32 7 RB_RED Lf)"

lemma two_nodes_is: "tree_is two_nodes two_nodes_tree" "is_rbt two_nodes_tree" "bst two_nodes_tree"
  by (simp_all add: tree_is_def two_nodes_def two_nodes_tree_def is_rbt_def bst_def)

theorem rb_insert_correct_witness:
  "\<exists>t' T'. rb_insert 48 two_nodes = Some (0, t') \<and> tree_is t' T' \<and> is_rbt T' \<and> set (ino T') = {(48, 9), (16, 5), (32, 7)}"
  using rb_insert_correct [OF two_nodes_is, of 48 "\<lparr>rb_key = 9, rb_parent = 3, rb_color = 7, rb_L = 1, rb_R = 1\<rparr>"]
  by (force simp: two_nodes_def two_nodes_tree_def)

end
