(* ===== verification/Kmem.thy ===== *)
theory Kmem
  imports RB_Insert Spinlock
begin

text \<open>
  The small-object allocator of \<open>kernel/memory/kmem.c\<close>.  A pool is a stretch of memory that is
  tiled with blocks; a free block holds list links and a tree node behind its header, a block in use
  holds the caller's data between two canaries.  The store is typed: what lies at an address is a
  pool header, a block header, the links of a free block, its tree node or a word.  \<open>forget\<close> removes
  the typed view of a range that is given to a caller or filled with a pattern.
\<close>

record kmem_pool =
  pl_size :: u64
  next_pool :: nat
  pl_free :: u64
  free_tree :: nat
  pl_lock :: spinlock

record kmem_block =
  cookie :: u16
  btype :: u16
  bsize :: u32
  bpool :: nat

record kmem_block_free =
  prev_free :: nat
  next_free :: nat

record kmem =
  pools :: "nat \<Rightarrow> kmem_pool option"
  blocks :: "nat \<Rightarrow> kmem_block option"
  flinks :: "nat \<Rightarrow> kmem_block_free option"
  nodes :: rb_store
  kwords :: "nat \<Rightarrow> u64"
  memory_pool :: nat
  kmem_lock :: spinlock
  global_pool_lock :: spinlock

definition KMEM_COOKIE :: u16 where "KMEM_COOKIE = 0xD1AC"

definition KMEM_TYPE_FREE :: u16 where "KMEM_TYPE_FREE = 0x0001"

definition KMEM_TYPE_INUSE :: u16 where "KMEM_TYPE_INUSE = 0x1000"

definition KMEM_TYPE_HAVE_NEXT :: u16 where "KMEM_TYPE_HAVE_NEXT = 0x0002"

definition KMEM_TYPE_IN_TREE :: u16 where "KMEM_TYPE_IN_TREE = 0x0004"

definition KMEM_BEGIN_CANARY :: u64 where "KMEM_BEGIN_CANARY = 0xBEBEBEBEBEBEBEBE"

definition KMEM_END_CANARY :: u64 where "KMEM_END_CANARY = 0xEDEDEDEDEDEDEDED"

text \<open>The sizes the compiler gives: the pool header, the block header, a free block.\<close>

definition sizeof_kmem_pool :: nat where "sizeof_kmem_pool = 40"

definition kmem_block_head_size :: nat where "kmem_block_head_size = 16"

definition minimal_block_size :: nat where "minimal_block_size = 64"

definition canary_size :: nat where "canary_size = 8"

text \<open>Where the links and the tree node of a free block are, and back from the node.\<close>

definition links_at :: "nat \<Rightarrow> nat" where "links_at b = b + 16"

definition node_of :: "nat \<Rightarrow> nat" where "node_of b = b + 32"

definition block_of_node :: "nat \<Rightarrow> nat" where "block_of_node n = n - 32"

subsection \<open>Field updates\<close>

definition forget :: "nat \<Rightarrow> nat \<Rightarrow> kmem \<Rightarrow> kmem" where
  "forget lo hi k = k\<lparr>
     blocks := (\<lambda>a. if lo \<le> a \<and> a < hi then None else blocks k a),
     flinks := (\<lambda>a. if lo \<le> a \<and> a < hi then None else flinks k a),
     nodes := (\<lambda>a. if lo \<le> a \<and> a < hi then None else nodes k a)\<rparr>"

definition fill_words :: "nat \<Rightarrow> nat \<Rightarrow> u64 \<Rightarrow> kmem \<Rightarrow> kmem" where
  "fill_words lo hi v k = k\<lparr>kwords := (\<lambda>a. if lo \<le> a \<and> a < hi then v else kwords k a)\<rparr>"

definition upd_pool :: "nat \<Rightarrow> (kmem_pool \<Rightarrow> kmem_pool) \<Rightarrow> kmem \<Rightarrow> kmem option" where
  "upd_pool p f k = do { x \<leftarrow> pools k p; Some (k\<lparr>pools := (pools k)(p \<mapsto> f x)\<rparr>) }"

definition upd_block :: "nat \<Rightarrow> (kmem_block \<Rightarrow> kmem_block) \<Rightarrow> kmem \<Rightarrow> kmem option" where
  "upd_block b f k = do { x \<leftarrow> blocks k b; Some (k\<lparr>blocks := (blocks k)(b \<mapsto> f x)\<rparr>) }"

definition upd_links :: "nat \<Rightarrow> (kmem_block_free \<Rightarrow> kmem_block_free) \<Rightarrow> kmem \<Rightarrow> kmem option" where
  "upd_links b f k = do { x \<leftarrow> flinks k (links_at b); Some (k\<lparr>flinks := (flinks k)(links_at b \<mapsto> f x)\<rparr>) }"

definition set_prev_free :: "nat \<Rightarrow> nat \<Rightarrow> kmem \<Rightarrow> kmem option" where
  "set_prev_free b v = upd_links b (\<lambda>l. l\<lparr>prev_free := v\<rparr>)"

definition set_next_free :: "nat \<Rightarrow> nat \<Rightarrow> kmem \<Rightarrow> kmem option" where
  "set_next_free b v = upd_links b (\<lambda>l. l\<lparr>next_free := v\<rparr>)"

definition set_flags :: "nat \<Rightarrow> u16 \<Rightarrow> kmem \<Rightarrow> kmem option" where
  "set_flags b f = upd_block b (\<lambda>x. x\<lparr>btype := btype x OR f\<rparr>)"

definition clear_flags :: "nat \<Rightarrow> u16 \<Rightarrow> kmem \<Rightarrow> kmem option" where
  "clear_flags b f = upd_block b (\<lambda>x. x\<lparr>btype := btype x AND NOT f\<rparr>)"

definition has_flag :: "kmem_block \<Rightarrow> u16 \<Rightarrow> bool" where
  "has_flag x f \<longleftrightarrow> btype x AND f \<noteq> 0"

text \<open>A pool's tree, and the store after an operation on it.\<close>

definition tree_of :: "kmem \<Rightarrow> kmem_pool \<Rightarrow> rb_tree" where
  "tree_of k p = \<lparr>rb_root = free_tree p, rb_mem = nodes k\<rparr>"

definition put_tree :: "nat \<Rightarrow> rb_tree \<Rightarrow> kmem \<Rightarrow> kmem option" where
  "put_tree p t k = upd_pool p (\<lambda>x. x\<lparr>free_tree := rb_root t\<rparr>) (k\<lparr>nodes := rb_mem t\<rparr>)"

definition acquire_pool :: "nat \<Rightarrow> nat \<Rightarrow> kmem \<Rightarrow> kmem option" where
  "acquire_pool hart p k = do { x \<leftarrow> pools k p; l \<leftarrow> lock_acquire hart (pl_lock x); upd_pool p (\<lambda>x. x\<lparr>pl_lock := l\<rparr>) k }"

definition release_pool :: "nat \<Rightarrow> nat \<Rightarrow> kmem \<Rightarrow> kmem option" where
  "release_pool hart p k = do { x \<leftarrow> pools k p; l \<leftarrow> lock_release hart (pl_lock x); upd_pool p (\<lambda>x. x\<lparr>pl_lock := l\<rparr>) k }"

subsection \<open>The free memory of a tree\<close>

partial_function (option) chain_size :: "kmem \<Rightarrow> u64 \<Rightarrow> nat \<Rightarrow> u64 \<Rightarrow> u64 option" where
  "chain_size k key b sz = do {
     x \<leftarrow> blocks k b;
     if has_flag x KMEM_TYPE_HAVE_NEXT then do {
       l \<leftarrow> flinks k (links_at b);
       y \<leftarrow> blocks k (next_free l);
       kassert (ucast (bsize y) = key);
       chain_size k key (next_free l) (sz + ucast (bsize y)) }
     else Some sz }"

partial_function (option) get_tree_totalsize :: "kmem \<Rightarrow> nat \<Rightarrow> u64 option" where
  "get_tree_totalsize k n =
    (if n = 0 then Some 0
     else do {
       x \<leftarrow> nodes k n;
       sz \<leftarrow> chain_size k (rb_key x) (block_of_node n) (rb_key x);
       sl \<leftarrow> (if rb_L x \<noteq> 0 then get_tree_totalsize k (rb_L x) else Some 0);
       sr \<leftarrow> (if rb_R x \<noteq> 0 then get_tree_totalsize k (rb_R x) else Some 0);
       Some (sz + sl + sr) })"

subsection \<open>Blocks into and out of a pool\<close>

definition insert_into_pool :: "nat \<Rightarrow> nat \<Rightarrow> u64 \<Rightarrow> kmem \<Rightarrow> kmem option" where
  "insert_into_pool pool mem sz k = do {
     kassert (pool \<noteq> 0);
     kassert (mem \<noteq> 0);
     kassert (unat sz \<ge> minimal_block_size);
     let k = k\<lparr>
       blocks := (blocks k)(mem \<mapsto> \<lparr>cookie = KMEM_COOKIE, btype = KMEM_TYPE_FREE, bsize = ucast sz, bpool = pool\<rparr>),
       flinks := (flinks k)(links_at mem \<mapsto> \<lparr>prev_free = 0, next_free = 0\<rparr>),
       nodes := (nodes k)(node_of mem \<mapsto> \<lparr>rb_key = sz, rb_parent = 0, rb_color = 0, rb_L = 0, rb_R = 0\<rparr>)\<rparr>;
     p \<leftarrow> pools k pool;
     (existed, t) \<leftarrow> rb_insert (node_of mem) (tree_of k p);
     k \<leftarrow> put_tree pool t k;
     if existed \<noteq> 0 \<and> existed \<noteq> node_of mem then do {
       let eb = block_of_node existed;
       e \<leftarrow> blocks k eb;
       kassert (cookie e = KMEM_COOKIE);
       kassert (has_flag e KMEM_TYPE_IN_TREE);
       kassert (bpool e = pool);
       ek \<leftarrow> nodes k existed;
       kassert (rb_key ek = sz);
       if has_flag e KMEM_TYPE_HAVE_NEXT then do {
         el \<leftarrow> flinks k (links_at eb);
         let next = next_free el;
         kassert (next \<noteq> 0);
         nl \<leftarrow> flinks k (links_at next);
         kassert (prev_free nl = eb);
         k \<leftarrow> set_prev_free next mem k;
         k \<leftarrow> set_next_free mem next k;
         k \<leftarrow> set_next_free eb mem k;
         k \<leftarrow> set_prev_free mem eb k;
         set_flags mem KMEM_TYPE_HAVE_NEXT k }
       else do {
         k \<leftarrow> set_next_free eb mem k;
         k \<leftarrow> set_prev_free mem eb k;
         set_flags eb KMEM_TYPE_HAVE_NEXT k } }
     else do {
       k \<leftarrow> set_flags mem KMEM_TYPE_IN_TREE k;
       k \<leftarrow> set_next_free mem 0 k;
       set_prev_free mem 0 k } }"

text \<open>The checks \<open>remove_from_pool\<close> makes of the neighbours in the list.\<close>

definition check_prev :: "kmem \<Rightarrow> nat \<Rightarrow> nat \<Rightarrow> nat \<Rightarrow> unit option" where
  "check_prev k pool block prev = do {
     kassert (prev \<noteq> 0);
     x \<leftarrow> blocks k prev;
     kassert (cookie x = KMEM_COOKIE);
     kassert (bpool x = pool);
     l \<leftarrow> flinks k (links_at prev);
     kassert (next_free l = block) }"

definition check_next :: "kmem \<Rightarrow> nat \<Rightarrow> nat \<Rightarrow> nat \<Rightarrow> unit option" where
  "check_next k pool block next = do {
     kassert (next \<noteq> 0);
     x \<leftarrow> blocks k next;
     kassert (cookie x = KMEM_COOKIE);
     kassert (bpool x = pool);
     l \<leftarrow> flinks k (links_at next);
     kassert (prev_free l = block) }"

definition remove_from_pool :: "nat \<Rightarrow> kmem \<Rightarrow> kmem option" where
  "remove_from_pool block k = do {
     b \<leftarrow> blocks k block;
     kassert (cookie b = KMEM_COOKIE);
     kassert (bpool b \<noteq> 0);
     let pool = bpool b;
     l \<leftarrow> flinks k (links_at block);
     let prev = prev_free l;
     _ \<leftarrow> (if \<not> has_flag b KMEM_TYPE_IN_TREE then check_prev k pool block prev else kassert (prev = 0));
     let next = next_free l;
     _ \<leftarrow> (if has_flag b KMEM_TYPE_HAVE_NEXT then check_next k pool block next else kassert (next = 0));
     k \<leftarrow>
       (if has_flag b KMEM_TYPE_IN_TREE then do {
          n \<leftarrow> nodes k (node_of block);
          kassert (rb_key n \<noteq> 0);
          p \<leftarrow> pools k pool;
          if has_flag b KMEM_TYPE_HAVE_NEXT then do {
            t \<leftarrow> rb_replace (node_of block) (node_of next) (tree_of k p);
            k \<leftarrow> put_tree pool t k;
            k \<leftarrow> set_prev_free next 0 k;
            k \<leftarrow> set_flags next KMEM_TYPE_IN_TREE k;
            clear_flags block (KMEM_TYPE_HAVE_NEXT OR KMEM_TYPE_IN_TREE) k }
          else do {
            t \<leftarrow> rb_remove (node_of block) (tree_of k p);
            k \<leftarrow> put_tree pool t k;
            clear_flags block KMEM_TYPE_IN_TREE k } }
        else if has_flag b KMEM_TYPE_HAVE_NEXT then do {
          k \<leftarrow> set_next_free prev next k;
          k \<leftarrow> set_prev_free next prev k;
          clear_flags block KMEM_TYPE_HAVE_NEXT k }
        else do {
          k \<leftarrow> set_next_free prev 0 k;
          clear_flags prev KMEM_TYPE_HAVE_NEXT k });
     k \<leftarrow> set_next_free block 0 k;
     set_prev_free block 0 k }"

definition attach_to_memory_pool :: "nat \<Rightarrow> nat \<Rightarrow> u64 \<Rightarrow> kmem \<Rightarrow> kmem option" where
  "attach_to_memory_pool hart mem sz k =
    (if mem mod 16 \<noteq> 0 then Some k
     else if unat sz \<le> sizeof_kmem_pool then Some k
     else do {
       let size = sz - of_nat sizeof_kmem_pool;
       let k = k\<lparr>pools := (pools k)(mem \<mapsto> \<lparr>pl_size = size, next_pool = 0, pl_free = size, free_tree = 0,
                   pl_lock = \<lparr>sl_lock = False, sl_cpu = 0\<rparr>\<rparr>)\<rparr>;
       k \<leftarrow> acquire_pool hart mem k;
       kassert (mem + unat sz = mem + sizeof_kmem_pool + unat size);
       g \<leftarrow> lock_acquire hart (global_pool_lock k);
       k \<leftarrow> upd_pool mem (\<lambda>x. x\<lparr>next_pool := memory_pool k\<rparr>) k;
       k \<leftarrow> insert_into_pool mem (mem + sizeof_kmem_pool) size (k\<lparr>memory_pool := mem, global_pool_lock := g\<rparr>);
       g \<leftarrow> lock_release hart (global_pool_lock k);
       release_pool hart mem (k\<lparr>global_pool_lock := g\<rparr>) })"

subsection \<open>Allocation\<close>

partial_function (option) rb_search_upper :: "rb_tree \<Rightarrow> nat \<Rightarrow> u64 \<Rightarrow> nat \<Rightarrow> nat option" where
  "rb_search_upper t x key closet =
    (if x = 0 then Some closet
     else do {
       k \<leftarrow> GET_KEY t x;
       if k = key then Some x
       else if k > key then do {
         nearer \<leftarrow> (if closet = 0 then Some True else do { c \<leftarrow> GET_KEY t closet; Some (c > k) });
         l \<leftarrow> GET_L t x;
         rb_search_upper t l key (if nearer then x else closet) }
       else do { r \<leftarrow> GET_R t x; rb_search_upper t r key closet } })"

text \<open>The pool and the node to take, both \<open>0\<close> when no pool has a block; the pool's lock is held.\<close>

partial_function (option) find_block :: "nat \<Rightarrow> u64 \<Rightarrow> nat \<Rightarrow> kmem \<Rightarrow> (nat \<times> nat \<times> kmem) option" where
  "find_block hart need_size pool k = do {
     p \<leftarrow> pools k pool;
     n \<leftarrow> rb_search_upper (tree_of k p) (free_tree p) need_size 0;
     if n = 0 then do {
       kassert (\<not> need_size \<le> pl_free p);
       k \<leftarrow> release_pool hart pool k;
       if next_pool p = 0 then Some (0, 0, k)
       else do {
         k \<leftarrow> acquire_pool hart (next_pool p) k;
         find_block hart need_size (next_pool p) k } }
     else Some (pool, n, k) }"

text \<open>The size of the block needed and of its payload.\<close>

definition request_size :: "u64 \<Rightarrow> u64 \<times> u64" where
  "request_size sz = (let size = ROUNDUP_WITH 16 (sz + of_nat (canary_size * 2));
                          need = size + of_nat kmem_block_head_size
                      in if unat need < minimal_block_size
                         then (of_nat minimal_block_size, of_nat (minimal_block_size - kmem_block_head_size))
                         else (need, size))"

text \<open>Taking a block out of its pool and returning the rest of it.\<close>

definition carve :: "nat \<Rightarrow> nat \<Rightarrow> u64 \<Rightarrow> u64 \<Rightarrow> kmem \<Rightarrow> (u64 \<times> kmem) option" where
  "carve pool block need_size sz k = do {
     k \<leftarrow> remove_from_pool block k;
     b \<leftarrow> blocks k block;
     let remaining = ucast (bsize b) - need_size;
     (sz, k) \<leftarrow>
       (if unat remaining \<ge> minimal_block_size then do {
          k \<leftarrow> upd_block block (\<lambda>x. x\<lparr>bsize := ucast need_size\<rparr>) k;
          let new_block = block + kmem_block_head_size + unat sz;
          kassert (block + unat need_size = new_block);
          k \<leftarrow> insert_into_pool pool new_block remaining k;
          Some (sz, k) }
        else Some (ucast (bsize b) - of_nat kmem_block_head_size, k));
     k \<leftarrow> upd_block block (\<lambda>x. x\<lparr>btype := KMEM_TYPE_INUSE\<rparr>) k;
     b \<leftarrow> blocks k block;
     k \<leftarrow> upd_pool pool (\<lambda>x. x\<lparr>pl_free := pl_free x - ucast (bsize b)\<rparr>) k;
     Some (sz, k) }"

text \<open>The consistency check after every change of a pool.\<close>

definition check_pool :: "nat \<Rightarrow> kmem \<Rightarrow> unit option" where
  "check_pool pool k = do {
     p \<leftarrow> pools k pool;
     _ \<leftarrow> rb_validate (tree_of k p) (free_tree p);
     total \<leftarrow> get_tree_totalsize k (free_tree p);
     kassert (pl_free p = total) }"

text \<open>The canaries and the cleaning in between.\<close>

definition hand_out :: "nat \<Rightarrow> u64 \<Rightarrow> kmem \<Rightarrow> kmem" where
  "hand_out block sz k = (let lo = block + kmem_block_head_size; hi = lo + unat sz;
       k = forget lo hi k;
       k = k\<lparr>kwords := (kwords k)(lo := KMEM_BEGIN_CANARY, hi - canary_size := KMEM_END_CANARY)\<rparr>
     in fill_words (lo + canary_size) (hi - 2 * canary_size) 0 k)"

definition kmalloc :: "nat \<Rightarrow> u64 \<Rightarrow> kmem \<Rightarrow> (nat \<times> kmem) option" where
  "kmalloc hart sz k = do {
     l \<leftarrow> lock_acquire hart (kmem_lock k);
     let k = k\<lparr>kmem_lock := l\<rparr>;
     let (need_size, sz) = request_size sz;
     kassert (unat need_size \<ge> minimal_block_size);
     k \<leftarrow> acquire_pool hart (memory_pool k) k;
     (pool, n, k) \<leftarrow> find_block hart need_size (memory_pool k) k;
     if n = 0 then Some (0, k)
     else do {
       p \<leftarrow> pools k pool;
       _ \<leftarrow> rb_validate (tree_of k p) (free_tree p);
       let block = block_of_node n;
       (sz, k) \<leftarrow> carve pool block need_size sz k;
       _ \<leftarrow> check_pool pool k;
       k \<leftarrow> release_pool hart pool k;
       l \<leftarrow> lock_release hart (kmem_lock k);
       let k = hand_out block sz (k\<lparr>kmem_lock := l\<rparr>);
       Some (block + kmem_block_head_size + canary_size, k) } }"

subsection \<open>Release\<close>

text \<open>\<open>memset(m, 0xBA, sizeof(kmem_block))\<close>.\<close>

definition poison_head :: "nat \<Rightarrow> kmem \<Rightarrow> kmem" where
  "poison_head m k = k\<lparr>
     blocks := (blocks k)(m \<mapsto> \<lparr>cookie = 0xBABA, btype = 0xBABA, bsize = 0xBABABABA, bpool = 0xBABABABABABABABA\<rparr>),
     flinks := (flinks k)(links_at m \<mapsto> \<lparr>prev_free = 0xBABABABABABABABA, next_free = 0xBABABABABABABABA\<rparr>),
     nodes := (nodes k)(node_of m \<mapsto> \<lparr>rb_key = 0xBABABABABABABABA, rb_parent = 0xBABABABABABABABA, rb_color = 0,
                rb_L = 0xBABABABABABABABA, rb_R = 0xBABABABABABABABA\<rparr>)\<rparr>"

definition pool_end :: "nat \<Rightarrow> kmem_pool \<Rightarrow> nat" where
  "pool_end pool p = pool + sizeof_kmem_pool + unat (pl_size p)"

text \<open>Free blocks right behind the released one are taken out of the pool and joined to it.\<close>

partial_function (option) join_following :: "nat \<Rightarrow> nat \<Rightarrow> nat \<Rightarrow> kmem \<Rightarrow> kmem option" where
  "join_following pool block next k = do {
     y \<leftarrow> blocks k next;
     if has_flag y KMEM_TYPE_FREE then do {
       kassert (bpool y = pool);
       k \<leftarrow> remove_from_pool next k;
       k \<leftarrow> upd_pool pool (\<lambda>x. x\<lparr>pl_free := pl_free x - ucast (bsize y)\<rparr>) k;
       k \<leftarrow> upd_block block (\<lambda>x. x\<lparr>bsize := bsize x + bsize y\<rparr>) k;
       p \<leftarrow> pools k pool;
       let after = next + unat (bsize y);
       let k = poison_head next k;
       if after \<ge> pool_end pool p then Some k else join_following pool block after k }
     else Some k }"

definition kfree :: "nat \<Rightarrow> nat \<Rightarrow> kmem \<Rightarrow> kmem option" where
  "kfree hart p k = do {
     l \<leftarrow> lock_acquire hart (kmem_lock k);
     let k = k\<lparr>kmem_lock := l\<rparr>;
     let block = p - kmem_block_head_size - canary_size;
     b \<leftarrow> blocks k block;
     kassert (cookie b = KMEM_COOKIE);
     kassert (btype b = KMEM_TYPE_INUSE);
     let lo = block + kmem_block_head_size;
     let hi = block + unat (bsize b);
     kassert (kwords k lo = KMEM_BEGIN_CANARY);
     kassert (kwords k (hi - canary_size) = KMEM_END_CANARY);
     let k = fill_words lo hi 0xFAFAFAFAFAFAFAFA k;
     let pool = bpool b;
     q \<leftarrow> pools k pool;
     total \<leftarrow> get_tree_totalsize k (free_tree q);
     kassert (pl_free q = total);
     k \<leftarrow> acquire_pool hart pool k;
     _ \<leftarrow> rb_validate (tree_of k q) (free_tree q);
     k \<leftarrow>
       (if hi < pool_end pool q then do {
          nb \<leftarrow> blocks k hi;
          kassert (cookie nb = KMEM_COOKIE);
          join_following pool block hi k }
        else Some k);
     b \<leftarrow> blocks k block;
     k \<leftarrow> insert_into_pool pool block (ucast (bsize b)) k;
     k \<leftarrow> upd_pool pool (\<lambda>x. x\<lparr>pl_free := pl_free x + ucast (bsize b)\<rparr>) k;
     _ \<leftarrow> check_pool pool k;
     k \<leftarrow> release_pool hart pool k;
     l \<leftarrow> lock_release hart (kmem_lock k);
     Some (k\<lparr>kmem_lock := l\<rparr>) }"

end
