(* ===== verification/Kmem_Props.thy ===== *)
theory Kmem_Props
  imports Kmem
begin

text \<open>
  Properties of the kernel heap: the tree search finds the best fit, and what happens when the last
  free block of a pool is taken.
\<close>

text \<open>The reference: the first block, in the order of sizes, that is large enough.\<close>

definition best_fit :: "(nat \<times> u64) list \<Rightarrow> u64 \<Rightarrow> nat" where
  "best_fit xs key = (case find (\<lambda>x. key \<le> snd x) xs of None \<Rightarrow> 0 | Some x \<Rightarrow> fst x)"

definition nearest :: "frame list \<Rightarrow> nat" where
  "nearest C = (case ctx_r C of [] \<Rightarrow> 0 | x # xs \<Rightarrow> fst x)"

lemma find_skip: "\<forall>x \<in> set xs. \<not> P x \<Longrightarrow> find P (xs @ ys) = find P ys"
  by (induction xs) auto

lemma best_fit_skip: "\<forall>x \<in> set xs. snd x < key \<Longrightarrow> best_fit (xs @ ys) key = best_fit ys key"
  unfolding best_fit_def by (subst find_skip) auto

lemma best_fit_hit: "key \<le> snd x \<Longrightarrow> best_fit (x # ys) key = fst x"
  by (simp add: best_fit_def)

lemma ino_node: "holds s q t \<Longrightarrow> x \<in> set (ino t) \<Longrightarrow> fst x \<noteq> 0 \<and> (\<exists>y. s (fst x) = Some y \<and> rb_key y = snd x)"
  by (induction t arbitrary: q) auto

lemma ctx_r_node: "holds_ctx s p C \<Longrightarrow> x \<in> set (ctx_r C) \<Longrightarrow> fst x \<noteq> 0 \<and> (\<exists>y. s (fst x) = Some y \<and> rb_key y = snd x)"
proof (induction s p C rule: holds_ctx.induct)
  case (2 s p a k c r C)
  then show ?case using ino_node [of s a r x] by auto
qed auto

lemma search_upper_at:
  "tree_is t (plug C S) \<Longrightarrow> bst (plug C S) \<Longrightarrow> \<forall>x \<in> set (ctx_r C). key \<le> snd x \<Longrightarrow>
    rb_search_upper t (rt S) key (nearest C) = Some (best_fit (ino S @ ctx_r C) key)"
proof (induction S arbitrary: C)
  case Lf
  then show ?case
    by (subst rb_search_upper.simps) (auto simp: nearest_def best_fit_def split: list.splits)
next
  case (Nd l a k c r)
  note n = node_at [OF Nd.prems(1)]
  note b = bst_sub [OF Nd.prems(2)]
  have L: "tree_is t (plug (FL a k c r # C) l)" "bst (plug (FL a k c r # C) l)" using Nd.prems by simp_all
  have R: "tree_is t (plug (FR l a k c # C) r)" "bst (plug (FR l a k c # C) r)" using Nd.prems by simp_all
  consider "k = key" | "key < k" | "k < key" by force
  then show ?case
  proof cases
    case 1
    have "best_fit (ino (Nd l a k c r) @ ctx_r C) key = a"
      using best_fit_skip [of "ino l" key] b(1) 1 by (simp add: best_fit_hit)
    then show ?thesis by (subst rb_search_upper.simps) (use n 1 in \<open>auto simp: GET_KEY_def\<close>)
  next
    case 2
    have near: "nearest C = 0 \<or> (\<exists>y. rb_mem t (nearest C) = Some y \<and> k < rb_key y)"
    proof (cases "ctx_r C")
      case (Cons x xs)
      have "holds_ctx (rb_mem t) a C" using Nd.prems(1) by (simp add: tree_is_def holds_plug)
      then obtain y where "rb_mem t (fst x) = Some y" "rb_key y = snd x" using ctx_r_node [of _ _ C x] Cons by auto
      moreover have "k < snd x" using Nd.prems(2) Cons by (simp add: bst_def ino_split sorted_wrt_append)
      ultimately show ?thesis using Cons by (auto simp: nearest_def)
    qed (simp add: nearest_def)
    have "rb_search_upper t a key (nearest C) = rb_search_upper t (rt l) key a"
      by (subst rb_search_upper.simps) (use n 2 near in \<open>auto simp: GET_KEY_def GET_L_def\<close>)
    moreover have "\<forall>x \<in> set (ctx_r (FL a k c r # C)). key \<le> snd x" using Nd.prems(3) b(2) 2 by force
    moreover have "nearest (FL a k c r # C) = a" by (simp add: nearest_def)
    ultimately show ?thesis using Nd.IH(1) [OF L] by simp
  next
    case 3
    have "rb_search_upper t a key (nearest C) = rb_search_upper t (rt r) key (nearest C)"
      by (subst rb_search_upper.simps) (use n 3 in \<open>auto simp: GET_KEY_def GET_R_def\<close>)
    moreover have "nearest (FR l a k c # C) = nearest C" by (simp add: nearest_def)
    moreover have "best_fit (ino (Nd l a k c r) @ ctx_r C) key = best_fit (ino r @ ctx_r C) key"
      using best_fit_skip [of "ino l @ [(a, k)]" key "ino r @ ctx_r C"] b(1) 3 by fastforce
    ultimately show ?thesis using Nd.IH(2) [OF R] Nd.prems(3) by simp
  qed
qed

text \<open>C34: the search of \<open>kmalloc\<close> is the best fit: on a search tree it returns, with the node of the smallest
  size that is at least the one asked for, or \<open>NULL\<close> when every free block is too small.\<close>

theorem rb_search_upper_best_fit:
  assumes "tree_is t T" and "bst T"
  shows "rb_search_upper t (rb_root t) key 0 = Some (best_fit (ino T) key)"
  using search_upper_at [of t "[]" T key] assms by (simp add: tree_is_def nearest_def)

theorem rb_search_upper_best_fit_witness: "rb_search_upper two_nodes (rb_root two_nodes) 6 0 = Some 32"
  using rb_search_upper_best_fit [OF two_nodes_is(1,3), of 6] by (simp add: two_nodes_tree_def best_fit_def)

subsection \<open>Taking the last free block\<close>

text \<open>The pool has one free block, \<open>b\<close>, and nothing else in its tree.\<close>

definition sole_block :: "kmem \<Rightarrow> nat \<Rightarrow> nat \<Rightarrow> u32 \<Rightarrow> bool" where
  "sole_block k pool b s \<longleftrightarrow> pool \<noteq> 0 \<and> nodes k 0 = None \<and> s \<noteq> 0 \<and>
     nodes k (node_of b) = Some \<lparr>rb_key = ucast s, rb_parent = 0, rb_color = RB_BLACK, rb_L = 0, rb_R = 0\<rparr> \<and>
     flinks k (links_at b) = Some \<lparr>prev_free = 0, next_free = 0\<rparr> \<and>
     blocks k b = Some \<lparr>cookie = KMEM_COOKIE, btype = KMEM_TYPE_FREE OR KMEM_TYPE_IN_TREE, bsize = s, bpool = pool\<rparr> \<and>
     map_option free_tree (pools k pool) = Some (node_of b)"

definition kmem_unlocked :: "kmem \<Rightarrow> bool" where
  "kmem_unlocked k \<longleftrightarrow> \<not> sl_lock (kmem_lock k) \<and> map_option (sl_lock \<circ> pl_lock) (pools k (memory_pool k)) = Some False"

lemma kmem_flags [simp]:
  "has_flag \<lparr>cookie = c, btype = KMEM_TYPE_FREE OR KMEM_TYPE_IN_TREE, bsize = s, bpool = q\<rparr> KMEM_TYPE_IN_TREE"
  "\<not> has_flag \<lparr>cookie = c, btype = KMEM_TYPE_FREE OR KMEM_TYPE_IN_TREE, bsize = s, bpool = q\<rparr> KMEM_TYPE_HAVE_NEXT"
  by (simp_all add: has_flag_def KMEM_TYPE_FREE_def KMEM_TYPE_IN_TREE_def KMEM_TYPE_HAVE_NEXT_def)

lemma remove_only_node:
  assumes "rb_root t = n" and "rb_mem t n = Some \<lparr>rb_key = k, rb_parent = 0, rb_color = RB_BLACK, rb_L = 0, rb_R = 0\<rparr>"
  shows "rb_remove n t = Some (t\<lparr>rb_root := 0\<rparr>)"
  using assms
  by (simp add: rb_remove_def unlink_simple_def GET_L_def GET_R_def GET_PARENT_def GET_COLOR_def rb_remove_fixup_def remove_fixup_loop.simps is_black_def)

lemma clear_in_tree: "(KMEM_TYPE_FREE OR KMEM_TYPE_IN_TREE) AND NOT KMEM_TYPE_IN_TREE = KMEM_TYPE_FREE"
  by (simp add: KMEM_TYPE_FREE_def KMEM_TYPE_IN_TREE_def)

lemma remove_only_block:
  assumes "sole_block k pool b s" and "pools k pool = Some p"
  shows "\<exists>k'. remove_from_pool b k = Some k' \<and> pools k' = (pools k)(pool \<mapsto> p\<lparr>free_tree := 0\<rparr>) \<and> nodes k' = nodes k \<and>
    blocks k' = (blocks k)(b \<mapsto> \<lparr>cookie = KMEM_COOKIE, btype = KMEM_TYPE_FREE, bsize = s, bpool = pool\<rparr>)"
proof -
  have "rb_remove (node_of b) (tree_of k p) = Some (tree_of k p\<lparr>rb_root := 0\<rparr>)"
    by (rule remove_only_node) (use assms in \<open>auto simp: sole_block_def tree_of_def\<close>)
  moreover have "ucast s \<noteq> (0 :: u64)" using assms(1) unat_ucast_u32 [of s] unat_eq_zero [of s] by (auto simp: sole_block_def simp del: unat_ucast_u32)
  ultimately show ?thesis using assms
    by (simp add: sole_block_def remove_from_pool_def put_tree_def upd_pool_def clear_flags_def upd_block_def set_next_free_def
        set_prev_free_def upd_links_def tree_of_def clear_in_tree)
qed

text \<open>C35: \<open>kmalloc\<close> does not survive taking the last free block of the first pool.  When the only free block fits
  and leaves less than a block behind, the block is taken out and the tree is empty, and the check that
  follows dereferences its root, which is \<open>NULL\<close>: control never comes back to the caller.\<close>

theorem kmalloc_last_block_panics:
  assumes "sole_block k (memory_pool k) b s" and "kmem_unlocked k"
    and "request_size sz = (need, payload)" and "minimal_block_size \<le> unat need"
    and "unat need \<le> unat s" and "unat s < unat need + minimal_block_size"
  shows "kmalloc hart sz k = None"
proof -
  obtain p where p: "pools k (memory_pool k) = Some p" "\<not> sl_lock (pl_lock p)" "free_tree p = node_of b"
    using assms(1,2) by (auto simp: sole_block_def kmem_unlocked_def)
  let ?l = "kmem_lock k\<lparr>sl_lock := True, sl_cpu := hart\<rparr>"
  let ?p = "p\<lparr>pl_lock := pl_lock p\<lparr>sl_lock := True, sl_cpu := hart\<rparr>\<rparr>"
  let ?k = "k\<lparr>kmem_lock := ?l, pools := (pools k)(memory_pool k \<mapsto> ?p)\<rparr>"
  have l: "lock_acquire hart (kmem_lock k) = Some ?l" "lock_acquire hart (pl_lock p) = Some (pl_lock p\<lparr>sl_lock := True, sl_cpu := hart\<rparr>)"
    using lock_acquire_free assms(2) p(2) by (auto simp: kmem_unlocked_def)
  have a: "acquire_pool hart (memory_pool k) (k\<lparr>kmem_lock := ?l\<rparr>) = Some ?k"
    using p(1) l(2) by (simp add: acquire_pool_def upd_pool_def)
  have sole: "sole_block ?k (memory_pool k) b s" using assms(1) p(3) by (simp add: sole_block_def)
  have key: "need \<le> ucast s" using assms(5) by (simp add: word_le_nat_alt)
  have "tree_is (tree_of ?k ?p) (Nd Lf (node_of b) (ucast s) RB_BLACK Lf)"
    using sole p(3) by (auto simp: sole_block_def tree_is_def tree_of_def node_of_def)
  then have "rb_search_upper (tree_of ?k ?p) (node_of b) need 0 = Some (node_of b)"
    using search_upper_at [of "tree_of ?k ?p" "[]" "Nd Lf (node_of b) (ucast s) RB_BLACK Lf" need] key
    by (simp add: bst_def nearest_def best_fit_def)
  then have f: "find_block hart need (memory_pool k) ?k = Some (memory_pool k, node_of b, ?k)"
    using p(3) by (subst find_block.simps) (simp add: node_of_def)
  obtain k1 where k1: "remove_from_pool b ?k = Some k1" "pools k1 = (pools k)(memory_pool k \<mapsto> ?p\<lparr>free_tree := 0\<rparr>)" "nodes k1 = nodes k"
    "blocks k1 = (blocks k)(b \<mapsto> \<lparr>cookie = KMEM_COOKIE, btype = KMEM_TYPE_FREE, bsize = s, bpool = memory_pool k\<rparr>)"
    using remove_only_block [OF sole, of ?p] by auto
  have rest: "\<not> minimal_block_size \<le> unat (ucast s - need)"
    using assms(5,6) key by (simp add: unat_sub)
  obtain pay k2 where c: "carve (memory_pool k) b need payload ?k = Some (pay, k2)" "nodes k2 = nodes k"
    "map_option free_tree (pools k2 (memory_pool k)) = Some 0"
    using k1 rest by (simp add: carve_def upd_block_def upd_pool_def)
  have "nodes k 0 = None" using assms(1) by (simp add: sole_block_def)
  then have v: "check_pool (memory_pool k) k2 = None" using c
    by (cases "pools k2 (memory_pool k)") (simp_all add: check_pool_def tree_of_def rb_validate.simps [of _ 0] GET_L_def)
  have b: "block_of_node (node_of b) = b" "node_of b \<noteq> 0" by (simp_all add: block_of_node_def node_of_def)
  show ?thesis using l(1) a f b c(1) v assms(3,4) by (simp add: kmalloc_def)
qed

definition last_block_kmem :: kmem where
  "last_block_kmem = \<lparr>
     pools = [16 \<mapsto> \<lparr>pl_size = 96, next_pool = 0, pl_free = 96, free_tree = 88, pl_lock = \<lparr>sl_lock = False, sl_cpu = 0\<rparr>\<rparr>],
     blocks = [56 \<mapsto> \<lparr>cookie = KMEM_COOKIE, btype = KMEM_TYPE_FREE OR KMEM_TYPE_IN_TREE, bsize = 96, bpool = 16\<rparr>],
     flinks = [72 \<mapsto> \<lparr>prev_free = 0, next_free = 0\<rparr>],
     nodes = [88 \<mapsto> \<lparr>rb_key = 96, rb_parent = 0, rb_color = RB_BLACK, rb_L = 0, rb_R = 0\<rparr>],
     kwords = (\<lambda>a. 0), memory_pool = 16,
     kmem_lock = \<lparr>sl_lock = False, sl_cpu = 0\<rparr>, global_pool_lock = \<lparr>sl_lock = False, sl_cpu = 0\<rparr>\<rparr>"

theorem kmalloc_last_block_panics_witness: "kmalloc 1 8 last_block_kmem = None"
proof -
  have "sole_block last_block_kmem (memory_pool last_block_kmem) 56 96" "kmem_unlocked last_block_kmem"
    by (simp_all add: sole_block_def kmem_unlocked_def last_block_kmem_def node_of_def links_at_def)
  moreover have "request_size 8 = (64, 48)"
    by (simp add: request_size_def ROUNDUP_WITH_def canary_size_def kmem_block_head_size_def minimal_block_size_def)
  ultimately show ?thesis using kmalloc_last_block_panics by (simp add: minimal_block_size_def)
qed

end
