(* ===== verification/Bio.thy ===== *)
theory Bio
  imports Spinlock
begin

text \<open>
  Sleep locks (\<open>kernel/lib/sys/sleeplock.c\<close>) and the block cache
  (\<open>kernel/dev/buffered_io.c\<close>).  The cache is the list of its buffers in the order of the
  kernel's ring, most recently used first; a buffer is named by its address.  The disk driver is a
  pair of functions \<open>rd\<close> and \<open>wr\<close> on a state \<open>'d\<close> of the devices, and \<open>alloc\<close> gives the
  address \<open>kmalloc\<close> returns; they are parameters, gathered in a \<open>bio_env\<close> with the hart and the
  process that run.
\<close>

subsection \<open>Sleep locks\<close>

record sleeplock =
  slk_lock :: bool
  slk_spin :: spinlock
  slk_pid :: nat

definition sleeplock_init :: sleeplock where
  "sleeplock_init = \<lparr>slk_lock = False, slk_spin = \<lparr>sl_lock = False, sl_cpu = 0\<rparr>, slk_pid = 0\<rparr>"

text \<open>A process that finds the lock taken sleeps on it; in a run in which nobody else gives it up
  the call does not come back.\<close>

definition sleeplock_acquire :: "nat \<Rightarrow> nat \<Rightarrow> sleeplock \<Rightarrow> sleeplock option" where
  "sleeplock_acquire hart pid l = do {
     s \<leftarrow> lock_acquire hart (slk_spin l);
     kassert (\<not> slk_lock l);
     s \<leftarrow> lock_release hart s;
     Some \<lparr>slk_lock = True, slk_spin = s, slk_pid = pid\<rparr> }"

definition sleeplock_release :: "nat \<Rightarrow> sleeplock \<Rightarrow> sleeplock option" where
  "sleeplock_release hart l = do {
     s \<leftarrow> lock_acquire hart (slk_spin l);
     s \<leftarrow> lock_release hart s;
     Some \<lparr>slk_lock = False, slk_spin = s, slk_pid = 0\<rparr> }"

subsection \<open>The cache\<close>

definition MAX_BIO_CACHE :: nat where "MAX_BIO_CACHE = 16"

definition BUFFER_SIZE :: nat where "BUFFER_SIZE = 512"

record buffered_io =
  b_at :: nat
  b_valid :: bool
  b_dirty :: bool
  b_dev :: u16
  b_addr :: u64
  b_data :: "u8 list"
  b_reference :: int
  b_lock :: sleeplock

record bio_cache =
  bc_lock :: spinlock
  bc_list :: "buffered_io list"
  bc_dev_rw :: "u16 \<Rightarrow> bool"

record 'd bio_env =
  hart :: nat
  cur_pid :: nat
  alloc :: "buffered_io list \<Rightarrow> nat"
  rd :: "'d \<Rightarrow> u16 \<Rightarrow> u64 \<Rightarrow> u8 list"
  wr :: "'d \<Rightarrow> u16 \<Rightarrow> u64 \<Rightarrow> u8 list \<Rightarrow> 'd"

text \<open>An update of the buffer at an address.\<close>

definition upd_buf :: "nat \<Rightarrow> (buffered_io \<Rightarrow> buffered_io) \<Rightarrow> bio_cache \<Rightarrow> bio_cache" where
  "upd_buf a f c = c\<lparr>bc_list := map (\<lambda>b. if b_at b = a then f b else b) (bc_list c)\<rparr>"

definition get_buf :: "nat \<Rightarrow> bio_cache \<Rightarrow> buffered_io option" where
  "get_buf a c = find (\<lambda>b. b_at b = a) (bc_list c)"

definition lock_buf :: "'d bio_env \<Rightarrow> nat \<Rightarrow> bio_cache \<Rightarrow> bio_cache option" where
  "lock_buf e a c = do {
     b \<leftarrow> get_buf a c;
     l \<leftarrow> sleeplock_acquire (hart e) (cur_pid e) (b_lock b);
     Some (upd_buf a (\<lambda>b. b\<lparr>b_lock := l\<rparr>) c) }"

definition bio_cache_flush :: "'d bio_env \<Rightarrow> buffered_io \<Rightarrow> bio_cache \<Rightarrow> 'd \<Rightarrow> 'd option" where
  "bio_cache_flush e b c d = do {
     kassert (slk_lock (b_lock b));
     kassert (bc_dev_rw c (b_dev b));
     Some (if b_dirty b then wr e d (b_dev b) (b_addr b) (b_data b) else d) }"

text \<open>Making room: the least recently used buffer that nobody refers to goes.\<close>

definition bio_evict :: "'d bio_env \<Rightarrow> bio_cache \<Rightarrow> 'd \<Rightarrow> (bio_cache \<times> 'd) option" where
  "bio_evict e c d =
    (if length (bc_list c) \<ge> MAX_BIO_CACHE then
       (case find (\<lambda>b. b_reference b = 0) (rev (bc_list c)) of
          None \<Rightarrow> Some (c, d)
        | Some v \<Rightarrow> do {
            d \<leftarrow> (if b_dirty v then bio_cache_flush e v c d else Some d);
            Some (c\<lparr>bc_list := filter (\<lambda>b. b_at b \<noteq> b_at v) (bc_list c)\<rparr>, d) })
     else Some (c, d))"

definition new_buffer :: "nat \<Rightarrow> u16 \<Rightarrow> u64 \<Rightarrow> buffered_io" where
  "new_buffer a dev adr = \<lparr>b_at = a, b_valid = False, b_dirty = False, b_dev = dev, b_addr = adr,
     b_data = replicate BUFFER_SIZE 0, b_reference = 1, b_lock = sleeplock_init\<rparr>"

definition bio_cache_get :: "'d bio_env \<Rightarrow> u16 \<Rightarrow> u64 \<Rightarrow> bio_cache \<Rightarrow> 'd \<Rightarrow> (nat \<times> bio_cache \<times> 'd) option" where
  "bio_cache_get e dev adr c d = do {
     l \<leftarrow> lock_acquire (hart e) (bc_lock c);
     let c = c\<lparr>bc_lock := l\<rparr>;
     case find (\<lambda>b. b_dev b = dev \<and> b_addr b = adr) (bc_list c) of
       Some b \<Rightarrow> do {
         let b = b\<lparr>b_reference := b_reference b + 1\<rparr>;
         let c = c\<lparr>bc_list := b # filter (\<lambda>x. b_at x \<noteq> b_at b) (bc_list c)\<rparr>;
         l \<leftarrow> lock_release (hart e) (bc_lock c);
         c \<leftarrow> lock_buf e (b_at b) (c\<lparr>bc_lock := l\<rparr>);
         Some (b_at b, c, d) }
     | None \<Rightarrow> do {
         (c, d) \<leftarrow> bio_evict e c d;
         let a = alloc e (bc_list c);
         kassert (a \<noteq> 0);
         let c = c\<lparr>bc_list := new_buffer a dev adr # bc_list c\<rparr>;
         l \<leftarrow> lock_release (hart e) (bc_lock c);
         c \<leftarrow> lock_buf e a (c\<lparr>bc_lock := l\<rparr>);
         Some (a, c, d) } }"

definition bio_cache_read :: "'d bio_env \<Rightarrow> u16 \<Rightarrow> u64 \<Rightarrow> bio_cache \<Rightarrow> 'd \<Rightarrow> (nat \<times> bio_cache \<times> 'd) option" where
  "bio_cache_read e dev adr c d = do {
     kassert (unat adr mod BUFFER_SIZE = 0);
     (a, c, d) \<leftarrow> bio_cache_get e dev adr c d;
     b \<leftarrow> get_buf a c;
     if b_valid b then Some (a, c, d)
     else do {
       kassert (bc_dev_rw c dev);
       Some (a, upd_buf a (\<lambda>b. b\<lparr>b_data := rd e d dev adr, b_valid := True\<rparr>) c, d) } }"

definition bio_cache_release :: "'d bio_env \<Rightarrow> nat \<Rightarrow> bio_cache \<Rightarrow> bio_cache option" where
  "bio_cache_release e a c = do {
     b \<leftarrow> get_buf a c;
     kassert (slk_lock (b_lock b));
     sl \<leftarrow> sleeplock_release (hart e) (b_lock b);
     let c = upd_buf a (\<lambda>b. b\<lparr>b_lock := sl\<rparr>) c;
     l \<leftarrow> lock_acquire (hart e) (bc_lock c);
     let c = upd_buf a (\<lambda>b. b\<lparr>b_reference := b_reference b - 1\<rparr>) (c\<lparr>bc_lock := l\<rparr>);
     l \<leftarrow> lock_release (hart e) (bc_lock c);
     Some (c\<lparr>bc_lock := l\<rparr>) }"

definition bio_cache_pin :: "nat \<Rightarrow> bio_cache \<Rightarrow> bio_cache" where
  "bio_cache_pin a = upd_buf a (\<lambda>b. b\<lparr>b_reference := b_reference b + 1\<rparr>)"

definition bio_cache_unpin :: "nat \<Rightarrow> bio_cache \<Rightarrow> bio_cache" where
  "bio_cache_unpin a = upd_buf a (\<lambda>b. b\<lparr>b_reference := b_reference b - 1\<rparr>)"

subsection \<open>Reading and writing ranges\<close>

text \<open>The blocks of a range; a copy that leaves the 512 bytes of a buffer has no C meaning.\<close>

partial_function (option) bio_read_loop ::
  "'d bio_env \<Rightarrow> u16 \<Rightarrow> u64 \<Rightarrow> u64 \<Rightarrow> u64 \<Rightarrow> u64 \<Rightarrow> u64 \<Rightarrow> u8 list \<Rightarrow> bio_cache \<Rightarrow> 'd \<Rightarrow> (u8 list \<times> bio_cache \<times> 'd) option" where
  "bio_read_loop e dev start stop first_off last_len p out c d =
    (if p \<le> stop then do {
       let c_offset = (if p = start then unat first_off else 0);
       let c_len = (if p = stop then unat last_len else BUFFER_SIZE);
       (a, c, d) \<leftarrow> bio_cache_read e dev p c d;
       b \<leftarrow> get_buf a c;
       kassert (c_offset + c_len \<le> BUFFER_SIZE);
       let out = out @ take c_len (drop c_offset (b_data b));
       c \<leftarrow> bio_cache_release e a c;
       bio_read_loop e dev start stop first_off last_len (p + 512) out c d }
     else Some (out, c, d))"

definition bio_read :: "'d bio_env \<Rightarrow> u16 \<Rightarrow> u64 \<Rightarrow> u64 \<Rightarrow> bio_cache \<Rightarrow> 'd \<Rightarrow> (u8 list \<times> bio_cache \<times> 'd) option" where
  "bio_read e dev offset len c d =
    (let first_block_offset = offset mod 512; last_block_len = len mod 512;
         start = ROUNDDOWN_WITH 512 offset; stop = ROUNDDOWN_WITH 512 (start + first_block_offset + len)
     in bio_read_loop e dev start stop first_block_offset last_block_len start [] c d)"

partial_function (option) bio_write_loop ::
  "'d bio_env \<Rightarrow> u16 \<Rightarrow> u64 \<Rightarrow> u64 \<Rightarrow> u64 \<Rightarrow> u64 \<Rightarrow> u64 \<Rightarrow> u8 list \<Rightarrow> bio_cache \<Rightarrow> 'd \<Rightarrow> (bio_cache \<times> 'd) option" where
  "bio_write_loop e dev start stop first_off last_len p buf c d =
    (if p \<le> stop then do {
       let c_offset = (if p = start then unat first_off else 0);
       let c_len = (if p = stop then unat last_len else BUFFER_SIZE);
       (a, c, d) \<leftarrow> (if c_offset \<noteq> 0 \<or> c_len \<noteq> BUFFER_SIZE then bio_cache_read e dev p c d else bio_cache_get e dev p c d);
       b \<leftarrow> get_buf a c;
       kassert (c_offset + c_len \<le> BUFFER_SIZE);
       let c = upd_buf a (\<lambda>b. b\<lparr>b_data := take c_offset (b_data b) @ take c_len buf @ drop (c_offset + c_len) (b_data b)\<rparr>) c;
       c \<leftarrow> bio_cache_release e a c;
       bio_write_loop e dev start stop first_off last_len (p + 512) (drop c_len buf) c d }
     else Some (c, d))"

definition bio_write :: "'d bio_env \<Rightarrow> u16 \<Rightarrow> u8 list \<Rightarrow> u64 \<Rightarrow> bio_cache \<Rightarrow> 'd \<Rightarrow> (bio_cache \<times> 'd) option" where
  "bio_write e dev buf offset c d =
    (let len = of_nat (length buf); first_block_offset = offset mod 512; last_block_len = len mod 512;
         start = ROUNDDOWN_WITH 512 offset; stop = ROUNDDOWN_WITH 512 (start + first_block_offset + len)
     in bio_write_loop e dev start stop first_block_offset last_block_len start buf c d)"

text \<open>An empty cache; its table of driver functions is left as it is.\<close>

definition bio_cache_init :: "(u16 \<Rightarrow> bool) \<Rightarrow> bio_cache" where
  "bio_cache_init rw = \<lparr>bc_lock = \<lparr>sl_lock = False, sl_cpu = 0\<rparr>, bc_list = [], bc_dev_rw = rw\<rparr>"

end
