(* ===== verification/Bio_Props.thy ===== *)
theory Bio_Props
  imports Bio
begin

text \<open>
  Properties of the block cache.  \<open>cache_held e c d h\<close> is the invariant: buffers are found by their
  address and by their block, none is dirty, a valid one agrees with the disk, and the only buffer whose
  sleep lock is taken is \<open>h\<close>.
\<close>

definition buffer_ok :: "'d bio_env \<Rightarrow> 'd \<Rightarrow> nat option \<Rightarrow> buffered_io \<Rightarrow> bool" where
  "buffer_ok e d h b \<longleftrightarrow> b_at b \<noteq> 0 \<and> \<not> b_dirty b \<and> \<not> sl_lock (slk_spin (b_lock b)) \<and>
     (slk_lock (b_lock b) \<longleftrightarrow> h = Some (b_at b)) \<and> (b_valid b \<longrightarrow> b_data b = rd e d (b_dev b) (b_addr b))"

definition cache_held :: "'d bio_env \<Rightarrow> bio_cache \<Rightarrow> 'd \<Rightarrow> nat option \<Rightarrow> bool" where
  "cache_held e c d h \<longleftrightarrow> \<not> sl_lock (bc_lock c) \<and> distinct (map b_at (bc_list c)) \<and>
     distinct (map (\<lambda>b. (b_dev b, b_addr b)) (bc_list c)) \<and> (\<forall>b \<in> set (bc_list c). buffer_ok e d h b)"

definition alloc_fresh :: "'d bio_env \<Rightarrow> bool" where
  "alloc_fresh e \<longleftrightarrow> (\<forall>xs. alloc e xs \<noteq> 0 \<and> alloc e xs \<notin> b_at ` set xs)"

lemma lock_cycle:
  assumes "\<not> sl_lock l"
  shows "\<exists>l1 l2. lock_acquire h l = Some l1 \<and> lock_release h l1 = Some l2 \<and> \<not> sl_lock l2"
  using lock_acquire_free [OF assms, of h] lock_release_held [of h l] by auto

lemma sleeplock_free:
  assumes "\<not> slk_lock l" and "\<not> sl_lock (slk_spin l)"
  shows "\<exists>l'. sleeplock_acquire h p l = Some l' \<and> slk_lock l' \<and> \<not> sl_lock (slk_spin l')"
  using lock_cycle [OF assms(2), of h] assms(1) by (auto simp: sleeplock_acquire_def)

lemma sleeplock_held:
  assumes "\<not> sl_lock (slk_spin l)"
  shows "\<exists>l'. sleeplock_release h l = Some l' \<and> \<not> slk_lock l' \<and> \<not> sl_lock (slk_spin l')"
  using lock_cycle [OF assms, of h] by (auto simp: sleeplock_release_def)

lemma get_buf_in:
  assumes "distinct (map b_at (bc_list c))" and "b \<in> set (bc_list c)"
  shows "get_buf (b_at b) c = Some b"
proof -
  obtain b' where b': "find (\<lambda>x. b_at x = b_at b) (bc_list c) = Some b'" using assms(2) by (cases "find (\<lambda>x. b_at x = b_at b) (bc_list c)") (auto simp: find_None_iff)
  then have "b' \<in> set (bc_list c)" "b_at b' = b_at b" by (auto simp: find_Some_iff)
  then have "b' = b" using assms by (auto simp: distinct_map dest: inj_onD)
  then show ?thesis using b' by (simp add: get_buf_def)
qed

lemma get_buf_Some: "get_buf a c = Some b \<Longrightarrow> b \<in> set (bc_list c) \<and> b_at b = a"
  by (auto simp: get_buf_def find_Some_iff)

lemma upd_buf_get: "get_buf a c = Some b \<Longrightarrow> (\<And>x. b_at (f x) = b_at x) \<Longrightarrow> get_buf a (upd_buf a f c) = Some (f b)"
proof -
  have "find (\<lambda>b. b_at b = a) xs = Some b \<Longrightarrow> (\<And>x. b_at (f x) = b_at x) \<Longrightarrow>
    find (\<lambda>b. b_at b = a) (map (\<lambda>b. if b_at b = a then f b else b) xs) = Some (f b)" for xs
    by (induction xs) auto
  then show "get_buf a c = Some b \<Longrightarrow> (\<And>x. b_at (f x) = b_at x) \<Longrightarrow> get_buf a (upd_buf a f c) = Some (f b)"
    by (simp add: get_buf_def upd_buf_def)
qed

text \<open>An update of one buffer that keeps its name and block.\<close>

lemma upd_buf_held:
  assumes "cache_held e c d h" and "get_buf a c = Some b" and "\<And>x. b_at (f x) = b_at x \<and> b_dev (f x) = b_dev x \<and> b_addr (f x) = b_addr x"
    and "buffer_ok e d h' (f b)" and "\<And>x. b_at x \<noteq> a \<Longrightarrow> buffer_ok e d h x \<Longrightarrow> buffer_ok e d h' x"
  shows "cache_held e (upd_buf a f c) d h'"
proof -
  let ?g = "\<lambda>b. if b_at b = a then f b else b"
  have d: "distinct (map b_at (bc_list c))" using assms(1) by (simp add: cache_held_def)
  have m: "map b_at (map ?g xs) = map b_at xs" "map (\<lambda>b. (b_dev b, b_addr b)) (map ?g xs) = map (\<lambda>b. (b_dev b, b_addr b)) xs" for xs
    using assms(3) by auto
  have "buffer_ok e d h' (?g x)" if "x \<in> set (bc_list c)" for x
  proof (cases "b_at x = a")
    case True
    then have "x = b" using get_buf_in [OF d that] assms(2) by simp
    then show ?thesis using assms(4) True by simp
  next
    case False
    then show ?thesis using assms(1,5) that by (auto simp: cache_held_def)
  qed
  then have "\<forall>x \<in> set (map ?g (bc_list c)). buffer_ok e d h' x" unfolding set_map by blast
  moreover have "distinct (map b_at (map ?g (bc_list c)))" "distinct (map (\<lambda>b. (b_dev b, b_addr b)) (map ?g (bc_list c)))"
    using assms(1) unfolding m by (simp_all add: cache_held_def)
  ultimately show ?thesis using assms(1) by (simp add: cache_held_def upd_buf_def del: map_map set_map)
qed

text \<open>Locking a buffer of the cache.\<close>

lemma lock_buf_ok:
  assumes "cache_held e c d None" and "get_buf a c = Some b"
  shows "\<exists>c' l. lock_buf e a c = Some c' \<and> cache_held e c' d (Some a) \<and> get_buf a c' = Some (b\<lparr>b_lock := l\<rparr>) \<and> bc_dev_rw c' = bc_dev_rw c"
proof -
  have b: "buffer_ok e d None b" "b_at b = a" using assms get_buf_Some [OF assms(2)] by (auto simp: cache_held_def)
  then obtain l where l: "sleeplock_acquire (hart e) (cur_pid e) (b_lock b) = Some l" "slk_lock l" "\<not> sl_lock (slk_spin l)"
    using sleeplock_free [of "b_lock b"] by (auto simp: buffer_ok_def)
  let ?c = "upd_buf a (\<lambda>b. b\<lparr>b_lock := l\<rparr>) c"
  have "cache_held e ?c d (Some a)"
    by (rule upd_buf_held [OF assms]) (use b l in \<open>auto simp: buffer_ok_def\<close>)
  moreover have "get_buf a ?c = Some (b\<lparr>b_lock := l\<rparr>)" using upd_buf_get [OF assms(2)] by simp
  ultimately show ?thesis using assms(2) l(1) by (intro exI [of _ ?c] exI [of _ l]) (simp add: lock_buf_def upd_buf_def)
qed

lemma cache_cong: "bc_list c' = bc_list c \<Longrightarrow> \<not> sl_lock (bc_lock c') \<Longrightarrow> cache_held e c d h \<Longrightarrow> cache_held e c' d h"
  by (simp add: cache_held_def)

lemma cache_filter: "cache_held e c d h \<Longrightarrow> bc_list c' = filter P (bc_list c) \<Longrightarrow> \<not> sl_lock (bc_lock c') \<Longrightarrow> cache_held e c' d h"
  by (auto simp: cache_held_def distinct_map intro: inj_on_subset)

lemma cache_cons:
  assumes "cache_held e c d h" and "bc_list c' = b # bc_list c" and "\<not> sl_lock (bc_lock c')" and "buffer_ok e d h b"
    and "\<forall>x \<in> set (bc_list c). b_at x \<noteq> b_at b \<and> (b_dev x, b_addr x) \<noteq> (b_dev b, b_addr b)"
  shows "cache_held e c' d h"
  using assms by (auto simp: cache_held_def image_iff)

lemma evict_ok:
  assumes "\<forall>b \<in> set (bc_list c). \<not> b_dirty b"
  shows "\<exists>P. bio_evict e c d = Some (c\<lparr>bc_list := filter P (bc_list c)\<rparr>, d)"
proof (cases "find (\<lambda>b. b_reference b = 0) (rev (bc_list c))")
  case None
  then show ?thesis by (intro exI [of _ "\<lambda>b. True"]) (simp add: bio_evict_def)
next
  case (Some v)
  then have "\<not> b_dirty v" using assms by (auto simp: find_Some_iff) (metis length_rev nth_mem set_rev)
  then show ?thesis using Some
    by (cases "length (bc_list c) \<ge> MAX_BIO_CACHE") (auto simp: bio_evict_def intro: exI [of _ "\<lambda>b. True"])
qed

lemma cache_get_ok:
  assumes "cache_held e c d None" and "alloc_fresh e"
  shows "\<exists>a c' b. bio_cache_get e dev adr c d = Some (a, c', d) \<and> cache_held e c' d (Some a) \<and> get_buf a c' = Some b \<and>
    b_dev b = dev \<and> b_addr b = adr \<and> bc_dev_rw c' = bc_dev_rw c \<and>
    ((\<forall>x \<in> set (bc_list c). b_dev x = dev \<longrightarrow> b_addr x \<noteq> adr) \<longrightarrow> \<not> b_valid b)"
proof -
  obtain l1 l2 where l: "lock_acquire (hart e) (bc_lock c) = Some l1" "lock_release (hart e) l1 = Some l2" "\<not> sl_lock l2"
    using lock_cycle assms(1) by (metis cache_held_def)
  show ?thesis
  proof (cases "find (\<lambda>b. b_dev b = dev \<and> b_addr b = adr) (bc_list c)")
    case (Some b)
    let ?b = "b\<lparr>b_reference := b_reference b + 1\<rparr>"
    let ?c = "c\<lparr>bc_list := ?b # filter (\<lambda>x. b_at x \<noteq> b_at b) (bc_list c), bc_lock := l2\<rparr>"
    have b: "b \<in> set (bc_list c)" "b_dev b = dev" "b_addr b = adr" using Some by (auto simp: find_Some_iff)
    have inj: "inj_on (\<lambda>b. (b_dev b, b_addr b)) (set (bc_list c))" using assms(1) by (simp add: cache_held_def distinct_map)
    have u: "\<forall>x \<in> set (filter (\<lambda>x. b_at x \<noteq> b_at b) (bc_list c)). b_at x \<noteq> b_at ?b \<and> (b_dev x, b_addr x) \<noteq> (b_dev ?b, b_addr ?b)"
    proof
      fix x assume x: "x \<in> set (filter (\<lambda>x. b_at x \<noteq> b_at b) (bc_list c))"
      then have "x \<noteq> b" by auto
      then have "(b_dev x, b_addr x) \<noteq> (b_dev b, b_addr b)" using inj_onD [OF inj, of x b] b(1) x by auto
      then show "b_at x \<noteq> b_at ?b \<and> (b_dev x, b_addr x) \<noteq> (b_dev ?b, b_addr ?b)" using x by simp
    qed
    have f: "cache_held e (c\<lparr>bc_lock := l2, bc_list := filter (\<lambda>x. b_at x \<noteq> b_at b) (bc_list c)\<rparr>) d None"
      by (rule cache_filter [OF assms(1)]) (use l(3) in auto)
    have "buffer_ok e d None ?b" using assms(1) b(1) by (simp add: cache_held_def buffer_ok_def)
    then have h: "cache_held e ?c d None" by (intro cache_cons [OF f]) (use u l(3) in auto)
    have g: "get_buf (b_at b) ?c = Some ?b" by (simp add: get_buf_def)
    obtain c' k where c': "lock_buf e (b_at b) ?c = Some c'" "cache_held e c' d (Some (b_at b))" "get_buf (b_at b) c' = Some (?b\<lparr>b_lock := k\<rparr>)"
      "bc_dev_rw c' = bc_dev_rw ?c" using lock_buf_ok [OF h g] by blast
    have "bio_cache_get e dev adr c d = Some (b_at b, c', d)" using Some l c'(1) by (simp add: bio_cache_get_def)
    then show ?thesis using c' b by (intro exI [of _ "b_at b"] exI [of _ c'] exI [of _ "?b\<lparr>b_lock := k\<rparr>"]) auto
  next
    case None
    obtain P where P: "bio_evict e (c\<lparr>bc_lock := l1\<rparr>) d = Some (c\<lparr>bc_lock := l1, bc_list := filter P (bc_list c)\<rparr>, d)"
      using evict_ok [of "c\<lparr>bc_lock := l1\<rparr>" e d] assms(1) by (auto simp: cache_held_def buffer_ok_def)
    let ?xs = "filter P (bc_list c)"
    let ?a = "alloc e ?xs"
    let ?c = "c\<lparr>bc_list := new_buffer ?a dev adr # ?xs, bc_lock := l2\<rparr>"
    have a: "?a \<noteq> 0" "?a \<notin> b_at ` set ?xs" using assms(2) unfolding alloc_fresh_def by blast+
    have "\<forall>x \<in> set (bc_list c). \<not> (b_dev x = dev \<and> b_addr x = adr)" using None by (simp add: find_None_iff)
    then have "(dev, adr) \<notin> (\<lambda>b. (b_dev b, b_addr b)) ` set ?xs" by auto
    then have u: "\<forall>x \<in> set ?xs. b_at x \<noteq> b_at (new_buffer ?a dev adr) \<and>
        (b_dev x, b_addr x) \<noteq> (b_dev (new_buffer ?a dev adr), b_addr (new_buffer ?a dev adr))"
      using a(2) by (auto simp: new_buffer_def image_iff)
    have f: "cache_held e (c\<lparr>bc_lock := l2, bc_list := ?xs\<rparr>) d None" by (rule cache_filter [OF assms(1)]) (use l(3) in auto)
    have "buffer_ok e d None (new_buffer ?a dev adr)" using a(1) by (simp add: buffer_ok_def new_buffer_def sleeplock_init_def)
    then have h: "cache_held e ?c d None" by (intro cache_cons [OF f]) (use u l(3) in auto)
    have g: "get_buf ?a ?c = Some (new_buffer ?a dev adr)" by (simp add: get_buf_def new_buffer_def)
    obtain c' k where c': "lock_buf e ?a ?c = Some c'" "cache_held e c' d (Some ?a)" "get_buf ?a c' = Some (new_buffer ?a dev adr\<lparr>b_lock := k\<rparr>)"
      "bc_dev_rw c' = bc_dev_rw ?c" using lock_buf_ok [OF h g] by blast
    have "bio_cache_get e dev adr c d = Some (?a, c', d)" using None l P a(1) c'(1) by (simp add: bio_cache_get_def Let_def)
    then show ?thesis using c' by (intro exI [of _ ?a] exI [of _ c'] exI [of _ "new_buffer ?a dev adr\<lparr>b_lock := k\<rparr>"]) (simp add: new_buffer_def)
  qed
qed

lemma cache_read_ok:
  assumes "cache_held e c d None" and "alloc_fresh e" and "unat adr mod 512 = 0" and "bc_dev_rw c dev"
  shows "\<exists>a c' b. bio_cache_read e dev adr c d = Some (a, c', d) \<and> cache_held e c' d (Some a) \<and> get_buf a c' = Some b \<and>
    b_data b = rd e d dev adr \<and> bc_dev_rw c' = bc_dev_rw c"
proof -
  obtain a c1 b where g: "bio_cache_get e dev adr c d = Some (a, c1, d)" "cache_held e c1 d (Some a)" "get_buf a c1 = Some b"
    "b_dev b = dev" "b_addr b = adr" "bc_dev_rw c1 = bc_dev_rw c" using cache_get_ok [OF assms(1,2)] by metis
  have b: "buffer_ok e d (Some a) b" using g(2) get_buf_Some [OF g(3)] by (auto simp: cache_held_def)
  have al: "unat adr mod BUFFER_SIZE = 0" using assms(3) by (simp add: BUFFER_SIZE_def)
  show ?thesis
  proof (cases "b_valid b")
    case True
    then show ?thesis using g b al by (auto simp: bio_cache_read_def buffer_ok_def)
  next
    case False
    let ?f = "\<lambda>b. b\<lparr>b_data := rd e d dev adr, b_valid := True\<rparr>"
    have "cache_held e (upd_buf a ?f c1) d (Some a)"
      by (rule upd_buf_held [OF g(2,3)]) (use b g(4,5) in \<open>auto simp: buffer_ok_def\<close>)
    moreover have "get_buf a (upd_buf a ?f c1) = Some (?f b)" using upd_buf_get [OF g(3)] by simp
    ultimately show ?thesis using g False al assms(4)
      by (intro exI [of _ a] exI [of _ "upd_buf a ?f c1"] exI [of _ "?f b"]) (simp add: bio_cache_read_def upd_buf_def)
  qed
qed

lemma cache_release_ok:
  assumes "cache_held e c d (Some a)" and "get_buf a c = Some b"
  shows "\<exists>c'. bio_cache_release e a c = Some c' \<and> cache_held e c' d None \<and> bc_dev_rw c' = bc_dev_rw c \<and>
    map (\<lambda>b. (b_dev b, b_addr b, b_valid b)) (bc_list c') = map (\<lambda>b. (b_dev b, b_addr b, b_valid b)) (bc_list c)"
proof -
  have b: "buffer_ok e d (Some a) b" "b_at b = a" using assms get_buf_Some [OF assms(2)] by (auto simp: cache_held_def)
  then obtain k where k: "sleeplock_release (hart e) (b_lock b) = Some k" "\<not> slk_lock k" "\<not> sl_lock (slk_spin k)"
    using sleeplock_held [of "b_lock b"] by (auto simp: buffer_ok_def)
  obtain l1 l2 where l: "lock_acquire (hart e) (bc_lock c) = Some l1" "lock_release (hart e) l1 = Some l2" "\<not> sl_lock l2"
    using lock_cycle assms(1) by (metis cache_held_def)
  let ?c1 = "upd_buf a (\<lambda>b. b\<lparr>b_lock := k\<rparr>) c"
  have h1: "cache_held e ?c1 d None" by (rule upd_buf_held [OF assms]) (use b k in \<open>auto simp: buffer_ok_def\<close>)
  have g1: "get_buf a ?c1 = Some (b\<lparr>b_lock := k\<rparr>)" using upd_buf_get [OF assms(2)] by simp
  let ?c2 = "upd_buf a (\<lambda>b. b\<lparr>b_reference := b_reference b - 1\<rparr>) ?c1"
  have "cache_held e ?c2 d None"
    by (rule upd_buf_held [OF h1 g1]) (use b k in \<open>auto simp: buffer_ok_def\<close>)
  then have "cache_held e (?c2\<lparr>bc_lock := l2\<rparr>) d None" by (rule cache_cong [rotated 2]) (use l(3) in auto)
  moreover have "bio_cache_release e a c = Some (?c2\<lparr>bc_lock := l2\<rparr>)"
    using assms(2) b k(1) l by (simp add: bio_cache_release_def buffer_ok_def upd_buf_def Let_def)
  ultimately show ?thesis by (auto simp: upd_buf_def)
qed

subsection \<open>Reading a range\<close>

text \<open>The bytes of \<open>n\<close> blocks from an address on.\<close>

definition disk_bytes :: "'d bio_env \<Rightarrow> 'd \<Rightarrow> u16 \<Rightarrow> u64 \<Rightarrow> nat \<Rightarrow> u8 list" where
  "disk_bytes e d dev start n = concat (map (\<lambda>i. rd e d dev (start + of_nat (512 * i))) [0..<n])"

lemma unat_block:
  assumes "unat start + 512 * n < 2 ^ 64"
  shows "unat (start + of_nat (512 * n) :: u64) = unat start + 512 * n"
proof -
  have "unat (of_nat m :: u64) = m" if "m < 2 ^ 64" for m using that by (simp add: unat_of_nat take_bit_nat_eq_self)
  then have "unat (of_nat (512 * n) :: u64) = 512 * n" using assms by (metis add_lessD1 add.commute)
  then show ?thesis using assms by (simp only: unat_plus_if_size) (simp add: word_size)
qed

lemma read_block:
  assumes "cache_held e c d None" and "alloc_fresh e" and "unat p mod 512 = 0" and "bc_dev_rw c dev" and "p \<le> stop"
    and "n \<le> 512" and "(if p = stop then unat ll else BUFFER_SIZE) = n"
  shows "\<exists>c'. cache_held e c' d None \<and> bc_dev_rw c' = bc_dev_rw c \<and>
    bio_read_loop e dev start stop 0 ll p out c d = bio_read_loop e dev start stop 0 ll (p + 512) (out @ take n (rd e d dev p)) c' d"
proof -
  obtain a c1 b where r: "bio_cache_read e dev p c d = Some (a, c1, d)" "cache_held e c1 d (Some a)" "get_buf a c1 = Some b"
    "b_data b = rd e d dev p" "bc_dev_rw c1 = bc_dev_rw c" using cache_read_ok [OF assms(1-4)] by metis
  obtain c' where c': "bio_cache_release e a c1 = Some c'" "cache_held e c' d None" "bc_dev_rw c' = bc_dev_rw c1"
    using cache_release_ok [OF r(2,3)] by metis
  have "bio_read_loop e dev start stop 0 ll p out c d = bio_read_loop e dev start stop 0 ll (p + 512) (out @ take n (rd e d dev p)) c' d"
    by (subst bio_read_loop.simps) (use r c'(1) assms(5-7) in \<open>simp add: BUFFER_SIZE_def Let_def split: if_splits\<close>)
  then show ?thesis using c' r(5) by auto
qed

lemma read_blocks:
  assumes "alloc_fresh e" and "unat start mod 512 = 0" and "unat start + 512 * n + 512 < 2 ^ 64" and "unat ll < 512"
    and "\<And>a. length (rd e d dev a) = 512" and "stop = start + of_nat (512 * n)"
  shows "i \<le> n \<Longrightarrow> cache_held e c d None \<Longrightarrow> bc_dev_rw c dev \<Longrightarrow>
    \<exists>c'. bio_read_loop e dev start stop 0 ll (start + of_nat (512 * i)) (disk_bytes e d dev start i) c d
      = Some (disk_bytes e d dev start n @ take (unat ll) (rd e d dev stop), c', d) \<and> cache_held e c' d None \<and> bc_dev_rw c' = bc_dev_rw c"
proof (induction "n - i" arbitrary: i c)
  case 0
  then have i: "i = n" by simp
  have u: "unat stop = unat start + 512 * n" unfolding assms(6) by (rule unat_block) (use assms(3) in simp)
  then have m: "unat stop mod 512 = 0" using assms(2) by (simp add: mod_add_right_eq)
  obtain c' where c': "cache_held e c' d None" "bc_dev_rw c' = bc_dev_rw c"
    "bio_read_loop e dev start stop 0 ll stop (disk_bytes e d dev start n) c d =
     bio_read_loop e dev start stop 0 ll (stop + 512) (disk_bytes e d dev start n @ take (unat ll) (rd e d dev stop)) c' d"
    using read_block [OF 0(3) assms(1) m 0(4), of stop "unat ll" ll start "disk_bytes e d dev start n"] assms(4) by auto
  have "unat (stop + 512) = unat stop + 512" using unat_block [of start "Suc n"] u assms(3,6) by (simp add: algebra_simps)
  then have "\<not> stop + 512 \<le> stop" by (simp add: word_le_nat_alt)
  then show ?case using c' unfolding i assms(6) [symmetric]
    by (subst (asm) (2) bio_read_loop.simps) auto
next
  case (Suc k)
  let ?p = "start + of_nat (512 * i)"
  have u: "unat ?p = unat start + 512 * i" "unat stop = unat start + 512 * n"
    unfolding assms(6) by (rule unat_block, use assms(3) Suc(2) in simp)+
  then have m: "unat ?p mod 512 = 0" using assms(2) by (simp add: mod_add_right_eq)
  have ps: "?p \<le> stop" "?p \<noteq> stop" using u Suc(2) by (auto simp: word_le_nat_alt)
  obtain c' where c': "cache_held e c' d None" "bc_dev_rw c' = bc_dev_rw c"
    "bio_read_loop e dev start stop 0 ll ?p (disk_bytes e d dev start i) c d =
     bio_read_loop e dev start stop 0 ll (?p + 512) (disk_bytes e d dev start i @ take 512 (rd e d dev ?p)) c' d"
    using read_block [OF Suc(4) assms(1) m Suc(5) ps(1), of 512 ll start "disk_bytes e d dev start i"] ps(2) by (auto simp: BUFFER_SIZE_def)
  have q: "?p + 512 = start + of_nat (512 * Suc i)" by (simp add: algebra_simps)
  have o: "disk_bytes e d dev start i @ take 512 (rd e d dev ?p) = disk_bytes e d dev start (Suc i)"
    using assms(5) by (simp add: disk_bytes_def)
  show ?case unfolding c'(3) q o using Suc(1) [of "Suc i" c'] c'(1,2) Suc(2,5) by simp
qed

lemma unat_ROUNDDOWN_512: "unat (ROUNDDOWN_WITH 512 a) = unat a div 512 * 512"
  using unat_ROUNDDOWN_pow2 [of 9 a] by simp

text \<open>The first and the last block of an aligned range.\<close>

lemma range_blocks:
  assumes "unat offset mod 512 = 0" and "unat offset + unat len + 512 < 2 ^ 64"
  shows "ROUNDDOWN_WITH 512 offset = offset" "offset mod 512 = 0" "unat (len mod 512 :: u64) = unat len mod 512"
    "ROUNDDOWN_WITH 512 (offset + len) = offset + of_nat (512 * (unat len div 512))"
proof -
  have m: "unat offset div 512 * 512 = unat offset" using assms(1) by auto
  show "ROUNDDOWN_WITH 512 offset = offset" using unat_ROUNDDOWN_512 [of offset] m by (simp add: word_unat_eq_iff)
  show "offset mod 512 = 0" using assms(1) by (simp add: word_unat_eq_iff unat_mod_distrib)
  show "unat (len mod 512 :: u64) = unat len mod 512" by (simp add: unat_mod_distrib)
  have s: "unat (offset + len) = unat offset + unat len" using assms(2) by (simp add: unat_plus_if_size word_size)
  have "(unat offset + unat len) div 512 = unat offset div 512 + unat len div 512" using assms(1) by (simp add: div_add1_eq)
  then have "unat (ROUNDDOWN_WITH 512 (offset + len)) = unat offset + 512 * (unat len div 512)"
    unfolding unat_ROUNDDOWN_512 s using m by (simp add: algebra_simps)
  moreover have "512 * (unat len div 512) \<le> unat len" by simp
  then have "unat offset + 512 * (unat len div 512) < 2 ^ 64" using assms(2) by linarith
  ultimately show "ROUNDDOWN_WITH 512 (offset + len) = offset + of_nat (512 * (unat len div 512))"
    by (simp only: word_unat_eq_iff unat_block)
qed

lemma disk_bytes_take:
  assumes "\<And>a. length (rd e d dev a) = 512" and "r < 512"
  shows "disk_bytes e d dev start n @ take r (rd e d dev (start + of_nat (512 * n))) = take (512 * n + r) (disk_bytes e d dev start (Suc n))"
proof -
  have "length (disk_bytes e d dev start n) = 512 * n" using assms(1) by (induction n) (simp_all add: disk_bytes_def)
  then show ?thesis by (simp add: disk_bytes_def)
qed

lemma read_aligned:
  assumes "cache_held e c d None" and "alloc_fresh e" and "bc_dev_rw c dev" and "\<forall>a. length (rd e d dev a) = 512"
    and "unat offset mod 512 = 0" and "unat offset + unat len + 512 < 2 ^ 64"
  shows "\<exists>c'. bio_read e dev offset len c d = Some (take (unat len) (disk_bytes e d dev offset (unat len div 512 + 1)), c', d) \<and>
    cache_held e c' d None"
proof -
  let ?n = "unat len div 512"
  let ?stop = "offset + of_nat (512 * ?n)"
  note r = range_blocks [OF assms(5,6)]
  have "512 * ?n \<le> unat len" by simp
  then have b: "unat offset + 512 * ?n + 512 < 2 ^ 64" using assms(6) by linarith
  obtain c' where "bio_read_loop e dev offset ?stop 0 (len mod 512) (offset + of_nat (512 * 0)) (disk_bytes e d dev offset 0) c d
      = Some (disk_bytes e d dev offset ?n @ take (unat (len mod 512)) (rd e d dev ?stop), c', d)" "cache_held e c' d None"
    using read_blocks [OF assms(2,5) b, of "len mod 512" d dev ?stop 0 c] r(3) assms(1,3,4) by auto
  moreover have "512 * ?n + unat len mod 512 = unat len" by simp
  ultimately show ?thesis using disk_bytes_take [of e d dev "unat len mod 512" offset ?n] r assms(4)
    by (simp add: bio_read_def disk_bytes_def)
qed

text \<open>C36: reading a range that starts at a block boundary through the cache.  The call returns, the bytes are those
  of the disk, whatever is in the cache and whatever is pushed out of it, the disk is not written, and the cache
  is consistent with the disk afterwards.\<close>

theorem bio_read_aligned:
  assumes "cache_held e c d None" and "alloc_fresh e" and "bc_dev_rw c dev" and "\<forall>a. length (rd e d dev a) = 512"
    and "unat offset mod 512 = 0" and "unat offset + unat len + 512 < 2 ^ 64"
  shows "\<exists>c'. bio_read e dev offset len c d = Some (take (unat len) (disk_bytes e d dev offset (unat len div 512 + 1)), c', d) \<and>
    cache_held e c' d None"
  using read_aligned [OF assms] .


text \<open>A device whose blocks are filled with one byte each, and an allocator of fresh addresses.\<close>

definition example_bio :: "(u16 \<Rightarrow> u64 \<Rightarrow> u8) bio_env" where
  "example_bio = \<lparr>hart = 0, cur_pid = 1, alloc = (\<lambda>xs. Suc (sum_list (map b_at xs))),
     rd = (\<lambda>d dev a. replicate 512 (d dev a)), wr = (\<lambda>d dev a s. d(dev := (d dev)(a := hd s)))\<rparr>"

lemma example_bio_ok:
  "alloc_fresh example_bio" "cache_held example_bio (bio_cache_init (\<lambda>dev. dev = 3)) d None"
  "\<forall>a. length (rd example_bio d dev a) = 512"
proof -
  have "x \<in> set xs \<Longrightarrow> x \<noteq> Suc (sum_list xs)" for x and xs :: "nat list" using member_le_sum_list [of x xs] by auto
  then have "Suc (sum_list (map b_at xs)) \<notin> b_at ` set xs" for xs :: "buffered_io list" by (metis set_map)
  then show "alloc_fresh example_bio" by (simp add: alloc_fresh_def example_bio_def)
qed (simp_all add: example_bio_def cache_held_def bio_cache_init_def)

theorem bio_read_aligned_witness:
  "\<exists>c'. bio_read example_bio 3 1024 5 (bio_cache_init (\<lambda>dev. dev = 3)) (\<lambda>dev a. ucast a + 7) = Some (replicate 5 7, c', \<lambda>dev a. ucast a + 7)"
proof -
  have "take 5 (disk_bytes example_bio (\<lambda>dev a. ucast a + 7) 3 1024 1) = replicate 5 7"
    by (simp add: disk_bytes_def example_bio_def)
  moreover have "bc_dev_rw (bio_cache_init (\<lambda>dev. dev = 3)) 3" by (simp add: bio_cache_init_def)
  ultimately show ?thesis
    using bio_read_aligned [OF example_bio_ok(2,1) _ example_bio_ok(3), of 3 1024 5 "\<lambda>dev a. ucast a + 7"] by auto
qed


end
