(* ===== verification/Vfs.thy ===== *)
theory Vfs
  imports Prelude
begin

text \<open>
  The virtual file system of \<open>kernel/fs/vfs.c\<close>.  Directory entries, inodes, open files, mounts
  and superblocks live in stores indexed by address, with \<open>0\<close> for \<open>NULL\<close>; a directory's ring of
  entries is the list of their addresses.  Operation tables are named by address too, and what they
  hold, the functions of the file systems and drivers, is the parameter \<open>ops\<close>: a missing entry is
  \<open>None\<close>.  \<open>kalloc\<close> gives the address \<open>kmalloc\<close> returns, and \<open>junk\<close> what an uninitialised name
  buffer happens to hold.
\<close>

datatype inode_type = inode_rootfs | inode_dev | inode_file | inode_dir

definition D_NAME_LEN :: nat where "D_NAME_LEN = 32"

definition D_TYPE_FILE :: u8 where "D_TYPE_FILE = 1"

definition D_TYPE_DIR :: u8 where "D_TYPE_DIR = 2"

definition D_TYPE_MOUNTED :: u8 where "D_TYPE_MOUNTED = 4"

record inode =
  i_ino :: int
  i_nlinks :: int
  i_counts :: int
  i_size :: u64
  i_dev :: "u16 \<times> u16"
  i_type :: inode_type
  i_op :: nat
  i_sb :: nat
  i_f_op :: nat
  i_atime :: u64
  i_mtime :: u64
  i_ctime :: u64
  i_fs_data :: nat

record dentry =
  d_parent :: nat
  d_name :: string
  d_inode :: nat
  d_type :: u8
  d_loaded :: bool
  d_mount :: nat
  d_subdirs :: "nat list"

text \<open>What \<open>f_fs_data\<close> of an open directory points at: nothing yet, the list node of an entry, or
  the head of the list again.\<close>

datatype dir_pos = AtStart | AtEntry nat | AtHead

record vfs_file =
  f_inode :: nat
  f_offset :: u64
  f_dentry :: nat
  f_op :: nat
  f_mode :: int
  f_counts :: int
  f_fs_data :: dir_pos

record vfs_mount_t =
  m_sb :: nat
  m_root :: nat

record superblock =
  s_dev :: "u16 \<times> u16"
  s_op :: nat
  s_root :: nat
  s_fs_data :: nat

record vfs =
  dentries :: "nat \<Rightarrow> dentry option"
  inodes :: "nat \<Rightarrow> inode option"
  vfiles :: "nat \<Rightarrow> vfs_file option"
  mounts :: "nat \<Rightarrow> vfs_mount_t option"
  superblocks :: "nat \<Rightarrow> superblock option"
  filesystems :: "(string \<times> nat) list"

text \<open>The tables of \<open>kernel/header/vfs.h\<close>.\<close>

record inode_ops =
  op_lookup :: "(nat \<Rightarrow> string \<Rightarrow> vfs \<Rightarrow> (int \<times> nat \<times> vfs) option) option"
  op_link :: "(nat \<Rightarrow> nat \<Rightarrow> string \<Rightarrow> vfs \<Rightarrow> (int \<times> vfs) option) option"
  op_mkdir :: "(nat \<Rightarrow> string \<Rightarrow> vfs \<Rightarrow> (int \<times> nat \<times> vfs) option) option"
  op_read_dir :: "(nat \<Rightarrow> (nat \<Rightarrow> vfs \<Rightarrow> (int \<times> vfs) option) \<Rightarrow> vfs \<Rightarrow> (int \<times> vfs) option) option"

record file_ops =
  op_read :: "(nat \<Rightarrow> u64 \<Rightarrow> u64 \<Rightarrow> vfs \<Rightarrow> (int \<times> u8 list \<times> vfs) option) option"
  op_write :: "(nat \<Rightarrow> u8 list \<Rightarrow> u64 \<Rightarrow> vfs \<Rightarrow> (int \<times> vfs) option) option"
  op_open :: "(nat \<Rightarrow> vfs \<Rightarrow> (int \<times> vfs) option) option"
  op_close :: "(nat \<Rightarrow> vfs \<Rightarrow> (int \<times> vfs) option) option"

record superblock_ops =
  op_alloc_inode :: "(nat \<Rightarrow> vfs \<Rightarrow> (nat \<times> vfs) option) option"
  op_write_inode :: "(nat \<Rightarrow> nat \<Rightarrow> vfs \<Rightarrow> (int \<times> vfs) option) option"

record fs_ops =
  op_init_fs :: "(vfs \<Rightarrow> (int \<times> vfs) option) option"
  op_mount :: "(nat \<Rightarrow> nat \<Rightarrow> nat \<Rightarrow> vfs \<Rightarrow> (nat \<times> vfs) option) option"

record vfs_env =
  inode_tab :: "nat \<Rightarrow> inode_ops"
  file_tab :: "nat \<Rightarrow> file_ops"
  sb_tab :: "nat \<Rightarrow> superblock_ops"
  fs_tab :: "nat \<Rightarrow> fs_ops"
  kalloc :: "vfs \<Rightarrow> nat"
  junk :: string

text \<open>The statically allocated entries and inodes.\<close>

definition root_dentry :: nat where "root_dentry = 1"

definition dev_dentry :: nat where "dev_dentry = 2"

definition sys_dentry :: nat where "sys_dentry = 3"

definition static_inode :: "int \<Rightarrow> inode" where
  "static_inode n = \<lparr>i_ino = n, i_nlinks = 0, i_counts = 0, i_size = 0, i_dev = (0, 0), i_type = inode_dir, i_op = 0, i_sb = 0, i_f_op = 0, i_atime = 0, i_mtime = 0, i_ctime = 0, i_fs_data = 0\<rparr>"

definition static_dentry :: "string \<Rightarrow> nat \<Rightarrow> nat \<Rightarrow> dentry" where
  "static_dentry nm par ino = \<lparr>d_parent = par, d_name = nm, d_inode = ino, d_type = D_TYPE_DIR, d_loaded = False, d_mount = 0, d_subdirs = []\<rparr>"

definition static_vfs :: vfs where
  "static_vfs = \<lparr>
     dentries = [root_dentry \<mapsto> static_dentry ''/'' 0 1, dev_dentry \<mapsto> static_dentry ''dev'' root_dentry 2,
                 sys_dentry \<mapsto> static_dentry ''sys'' root_dentry 3],
     inodes = [1 \<mapsto> static_inode 1, 2 \<mapsto> static_inode 2, 3 \<mapsto> static_inode 3],
     vfiles = (\<lambda>a. None), mounts = (\<lambda>a. None), superblocks = (\<lambda>a. None), filesystems = []\<rparr>"

subsection \<open>Updates\<close>

definition upd_dentry :: "nat \<Rightarrow> (dentry \<Rightarrow> dentry) \<Rightarrow> vfs \<Rightarrow> vfs option" where
  "upd_dentry a f v = do { x \<leftarrow> dentries v a; Some (v\<lparr>dentries := (dentries v)(a \<mapsto> f x)\<rparr>) }"

definition upd_inode :: "nat \<Rightarrow> (inode \<Rightarrow> inode) \<Rightarrow> vfs \<Rightarrow> vfs option" where
  "upd_inode a f v = do { x \<leftarrow> inodes v a; Some (v\<lparr>inodes := (inodes v)(a \<mapsto> f x)\<rparr>) }"

definition upd_file :: "nat \<Rightarrow> (vfs_file \<Rightarrow> vfs_file) \<Rightarrow> vfs \<Rightarrow> vfs option" where
  "upd_file a f v = do { x \<leftarrow> vfiles v a; Some (v\<lparr>vfiles := (vfiles v)(a \<mapsto> f x)\<rparr>) }"

text \<open>\<open>list_add\<close> of an entry to a directory.\<close>

definition add_subdir :: "nat \<Rightarrow> nat \<Rightarrow> vfs \<Rightarrow> vfs option" where
  "add_subdir child par = upd_dentry par (\<lambda>p. p\<lparr>d_subdirs := child # d_subdirs p\<rparr>)"

definition init_fs :: "vfs_env \<Rightarrow> string \<times> nat \<Rightarrow> vfs \<Rightarrow> vfs option" where
  "init_fs e fs v = (case op_init_fs (fs_tab e (snd fs)) of
       None \<Rightarrow> Some (v\<lparr>filesystems := fs # filesystems v\<rparr>)
     | Some f \<Rightarrow> do { (r, v) \<leftarrow> f v; Some (if r \<noteq> 0 then v else v\<lparr>filesystems := fs # filesystems v\<rparr>) })"

definition init_vfs :: "vfs_env \<Rightarrow> (string \<times> nat) list \<Rightarrow> vfs \<Rightarrow> vfs option" where
  "init_vfs e sect v = do {
     v \<leftarrow> add_subdir sys_dentry root_dentry v;
     v \<leftarrow> add_subdir dev_dentry root_dentry v;
     fold_opt (init_fs e) sect v }"

subsection \<open>Paths\<close>

definition vfs_read_dir_callback :: "nat \<Rightarrow> nat \<Rightarrow> vfs \<Rightarrow> (int \<times> vfs) option" where
  "vfs_read_dir_callback parent dent v = do {
     v \<leftarrow> upd_dentry dent (\<lambda>d. d\<lparr>d_parent := parent\<rparr>) v;
     v \<leftarrow> add_subdir dent parent v;
     Some (0, v) }"

text \<open>The first entry of a directory with a name; \<open>0\<close> when there is none.\<close>

fun find_child :: "vfs \<Rightarrow> string \<Rightarrow> nat list \<Rightarrow> nat option" where
  "find_child v nm [] = Some 0"
| "find_child v nm (c # cs) = do { d \<leftarrow> dentries v c; if nm = d_name d then Some c else find_child v nm cs }"

text \<open>The inode that lists a directory: that of the file system mounted there, or its own.\<close>

definition dir_inode :: "vfs \<Rightarrow> dentry \<Rightarrow> nat option" where
  "dir_inode v p = (if d_mount p \<noteq> 0 then do { m \<leftarrow> mounts v (d_mount p); Some (m_root m) } else Some (d_inode p))"

text \<open>An entry of directory \<open>par\<close>: among the ones known, else from the file system.  An entry that
  \<open>lookup\<close> finds is added to the directory \<open>cwd\<close> the walk started in.\<close>

definition lookup_child :: "vfs_env \<Rightarrow> nat \<Rightarrow> nat \<Rightarrow> string \<Rightarrow> vfs \<Rightarrow> (nat \<times> vfs) option" where
  "lookup_child e cwd par nm v = do {
     p \<leftarrow> dentries v par;
     c \<leftarrow> find_child v nm (d_subdirs p);
     if c \<noteq> 0 then Some (c, v)
     else do {
       di \<leftarrow> dir_inode v p;
       if di = 0 then Some (0, v)
       else do {
         i \<leftarrow> inodes v di;
         if i_op i = 0 then Some (0, v)
         else (case op_lookup (inode_tab e (i_op i)) of
             Some f \<Rightarrow> do {
               (ret, r, v) \<leftarrow> f di nm v;
               if ret \<noteq> 0 \<or> r = 0 then Some (0, v)
               else do { v \<leftarrow> add_subdir r cwd v; Some (r, v) } }
           | None \<Rightarrow> (case op_read_dir (inode_tab e (i_op i)) of
               Some f \<Rightarrow>
                 if d_loaded p then Some (0, v)
                 else do {
                   (ret, v) \<leftarrow> f di (vfs_read_dir_callback par) v;
                   if ret = 0 then do {
                     v \<leftarrow> upd_dentry par (\<lambda>p. p\<lparr>d_loaded := True\<rparr>) v;
                     p \<leftarrow> dentries v par;
                     c \<leftarrow> find_child v nm (d_subdirs p);
                     Some (c, v) }
                   else Some (0, v) }
             | None \<Rightarrow> Some (0, v))) } } }"

text \<open>One component of a path.\<close>

definition path_step :: "vfs_env \<Rightarrow> nat \<Rightarrow> nat \<Rightarrow> string \<Rightarrow> vfs \<Rightarrow> (nat \<times> vfs) option" where
  "path_step e cwd par dname v =
    (if dname = ''..'' then do {
       p \<leftarrow> dentries v par;
       Some (if d_parent p \<noteq> 0 then d_parent p else root_dentry, v) }
     else if dname = [] \<or> dname = ''.'' then Some (par, v)
     else lookup_child e cwd par dname v)"

text \<open>The loop over the characters: \<open>cur\<close> are those since \<open>last\<close>, and a component is looked up when
  the first character after its slash is seen.  The result is the parent, \<open>0\<close> when a component is
  not found, and the last component, which is left alone in that case.\<close>

fun walk_path :: "vfs_env \<Rightarrow> nat \<Rightarrow> nat \<Rightarrow> string \<Rightarrow> string \<Rightarrow> bool \<Rightarrow> string \<Rightarrow> vfs \<Rightarrow> (nat \<times> string \<times> vfs) option" where
  "walk_path e cwd par dname cur meet [] v = do {
     kassert (length cur < D_NAME_LEN);
     Some (par, cur, v) }"
| "walk_path e cwd par dname cur meet (c # cs) v =
    (if c = CHR ''/'' then do {
       kassert (length cur < D_NAME_LEN);
       walk_path e cwd par cur [] True cs v }
     else if meet then do {
       (par, v) \<leftarrow> path_step e cwd par dname v;
       if par = 0 then Some (0, junk e, v)
       else walk_path e cwd par dname (cur @ [c]) False cs v }
     else walk_path e cwd par dname (cur @ [c]) False cs v)"

definition vfs_get_parent_dentry :: "vfs_env \<Rightarrow> string \<Rightarrow> nat \<Rightarrow> vfs \<Rightarrow> (nat \<times> string \<times> vfs) option" where
  "vfs_get_parent_dentry e path cwd v =
    (let cwd = (if cwd = 0 then root_dentry else cwd);
         (cwd, path) = (case path of c # cs \<Rightarrow> if c = CHR ''/'' then (root_dentry, cs) else (cwd, path) | [] \<Rightarrow> (cwd, path))
     in if path = [] then Some (0, ''/'', v) else walk_path e cwd cwd [] [] False path v)"

text \<open>The entry \<open>lookup\<close> finds for the last component is added to the caller's \<open>cwd\<close>, which may be
  \<open>NULL\<close>.\<close>

definition vfs_get_dentry :: "vfs_env \<Rightarrow> string \<Rightarrow> nat \<Rightarrow> vfs \<Rightarrow> (nat \<times> vfs) option" where
  "vfs_get_dentry e path cwd v = do {
     (parent, cname, v) \<leftarrow> vfs_get_parent_dentry e path cwd v;
     if parent = 0 then Some (if cname = ''/'' then root_dentry else 0, v)
     else if cname = ''..'' then do { p \<leftarrow> dentries v parent; Some (d_parent p, v) }
     else if cname = ''.'' then Some (parent, v)
     else lookup_child e cwd parent cname v }"

text \<open>The path of an entry, built backwards into a buffer of 128 bytes.  An empty name is read past its
  end.\<close>

partial_function (option) fullpath_loop :: "vfs \<Rightarrow> nat \<Rightarrow> string \<Rightarrow> string option" where
  "fullpath_loop v dent p = do {
     d \<leftarrow> dentries v dent;
     kassert (d_name d \<noteq> []);
     let p = d_name d @ p;
     kassert (length p < 128);
     if d_parent d = 0 then Some p
     else do {
       q \<leftarrow> dentries v (d_parent d);
       if (d_type q = D_TYPE_DIR \<or> d_type q = D_TYPE_MOUNTED) \<and> hd (d_name q) \<noteq> CHR ''/''
       then do { kassert (Suc (length p) < 128); fullpath_loop v (d_parent d) (CHR ''/'' # p) }
       else fullpath_loop v (d_parent d) p } }"

text \<open>\<open>buf\<close> is what \<open>kmalloc(128)\<close> returns.\<close>

definition vfs_get_dentry_fullpath :: "vfs \<Rightarrow> nat \<Rightarrow> nat \<Rightarrow> string option option" where
  "vfs_get_dentry_fullpath v buf dent =
    (if buf = 0 then Some None else do { p \<leftarrow> fullpath_loop v dent []; Some (Some p) })"

subsection \<open>Inodes and directory entries\<close>

definition new_inode :: inode where
  "new_inode = \<lparr>i_ino = 0, i_nlinks = 0, i_counts = 0, i_size = 0, i_dev = (0, 0), i_type = inode_rootfs, i_op = 0, i_sb = 0, i_f_op = 0, i_atime = 0, i_mtime = 0, i_ctime = 0, i_fs_data = 0\<rparr>"

definition vfs_alloc_inode :: "vfs_env \<Rightarrow> nat \<Rightarrow> vfs \<Rightarrow> (nat \<times> vfs) option" where
  "vfs_alloc_inode e sb v =
    (if sb = 0 then do {
       let a = kalloc e v;
       kassert (a \<noteq> 0);
       Some (a, v\<lparr>inodes := (inodes v)(a \<mapsto> new_inode)\<rparr>) }
     else do {
       s \<leftarrow> superblocks v sb;
       case op_alloc_inode (sb_tab e (s_op s)) of
         None \<Rightarrow> Some (0, v)
       | Some f \<Rightarrow> f sb v })"

definition vfs_write_inode :: "vfs_env \<Rightarrow> nat \<Rightarrow> vfs \<Rightarrow> (int \<times> vfs) option" where
  "vfs_write_inode e a v = do {
     i \<leftarrow> inodes v a;
     if i_sb i \<noteq> 0 then do {
       s \<leftarrow> superblocks v (i_sb i);
       case op_write_inode (sb_tab e (s_op s)) of
         None \<Rightarrow> Some (- 1, v)
       | Some f \<Rightarrow> f (i_sb i) a v }
     else Some (0, v) }"

definition new_dentry :: "nat \<Rightarrow> string \<Rightarrow> nat \<Rightarrow> u8 \<Rightarrow> dentry" where
  "new_dentry par nm ino ty = \<lparr>d_parent = par, d_name = nm, d_inode = ino, d_type = ty, d_loaded = False, d_mount = 0, d_subdirs = []\<rparr>"

definition vfs_link_inode :: "vfs_env \<Rightarrow> nat \<Rightarrow> nat \<Rightarrow> string \<Rightarrow> vfs \<Rightarrow> (int \<times> vfs) option" where
  "vfs_link_inode e ino par nm v = do {
     p \<leftarrow> dentries v par;
     i \<leftarrow> inodes v ino;
     (r, v) \<leftarrow>
       (if d_inode p = 0 then do { v \<leftarrow> upd_inode ino (\<lambda>i. i\<lparr>i_nlinks := i_nlinks i + 1\<rparr>) v; Some (0, v) }
        else do {
          kassert (i_op i \<noteq> 0);
          case op_link (inode_tab e (i_op i)) of
            None \<Rightarrow> do { v \<leftarrow> upd_inode ino (\<lambda>i. i\<lparr>i_nlinks := i_nlinks i + 1\<rparr>) v; Some (0, v) }
          | Some f \<Rightarrow> f ino (d_inode p) nm v });
     let a = kalloc e v;
     kassert (a \<noteq> 0);
     kassert (length nm < D_NAME_LEN);
     i \<leftarrow> inodes v ino;
     let v = v\<lparr>dentries := (dentries v)(a \<mapsto> new_dentry par nm ino (if i_type i = inode_dir then D_TYPE_DIR else D_TYPE_FILE))\<rparr>;
     v \<leftarrow> add_subdir a par v;
     Some (r, v) }"

definition vfs_mkdir :: "vfs_env \<Rightarrow> nat \<Rightarrow> string \<Rightarrow> vfs \<Rightarrow> (nat \<times> vfs) option" where
  "vfs_mkdir e parent path v = do {
     (parent, dname, v) \<leftarrow> vfs_get_parent_dentry e path parent v;
     if dname = ''.'' \<or> (length dname = 3 \<and> dname ! 0 = CHR ''.'' \<and> dname ! 2 = CHR ''.'') then Some (0, v)
     else do {
       p \<leftarrow> dentries v parent;
       c \<leftarrow> find_child v dname (d_subdirs p);
       if c \<noteq> 0 then Some (0, v)
       else do {
         pi \<leftarrow> inodes v (d_inode p);
         (ok, di, v) \<leftarrow>
           (case (if i_op pi \<noteq> 0 then op_mkdir (inode_tab e (i_op pi)) else None) of
              Some f \<Rightarrow> do { (r, di, v) \<leftarrow> f (d_inode p) dname v; Some (r = 0, di, v) }
            | None \<Rightarrow> do { (di, v) \<leftarrow> vfs_alloc_inode e (i_sb pi) v; Some (True, di, v) });
         if \<not> ok \<or> di = 0 then Some (0, v)
         else do {
           let a = kalloc e v;
           kassert (a \<noteq> 0);
           let v = v\<lparr>dentries := (dentries v)(a \<mapsto> new_dentry parent dname di D_TYPE_DIR)\<rparr>;
           v \<leftarrow> add_subdir a parent v;
           Some (a, v) } } } }"

subsection \<open>Open files\<close>

definition vfs_open :: "vfs_env \<Rightarrow> nat \<Rightarrow> int \<Rightarrow> vfs \<Rightarrow> (nat \<times> vfs) option" where
  "vfs_open e dent md v = do {
     let a = kalloc e v;
     kassert (a \<noteq> 0);
     d \<leftarrow> dentries v dent;
     i \<leftarrow> inodes v (d_inode d);
     let v = v\<lparr>vfiles := (vfiles v)(a \<mapsto> \<lparr>f_inode = d_inode d, f_offset = 0, f_dentry = dent, f_op = i_f_op i, f_mode = md,
                 f_counts = 1, f_fs_data = AtStart\<rparr>)\<rparr>;
     v \<leftarrow> (case (if i_f_op i \<noteq> 0 then op_open (file_tab e (i_f_op i)) else None) of
            None \<Rightarrow> Some v
          | Some f \<Rightarrow> do { (r, v) \<leftarrow> f a v; kassert (r = 0); Some v });
     x \<leftarrow> vfiles v a;
     v \<leftarrow> upd_inode (f_inode x) (\<lambda>i. i\<lparr>i_counts := i_counts i + 1\<rparr>) v;
     Some (a, v) }"

definition vfs_fdup :: "nat \<Rightarrow> vfs \<Rightarrow> (nat \<times> vfs) option" where
  "vfs_fdup old v = do { v \<leftarrow> upd_file old (\<lambda>x. x\<lparr>f_counts := f_counts x + 1\<rparr>) v; Some (old, v) }"

definition vfs_close :: "vfs_env \<Rightarrow> nat \<Rightarrow> vfs \<Rightarrow> (int \<times> vfs) option" where
  "vfs_close e a v = do {
     v \<leftarrow> upd_file a (\<lambda>x. x\<lparr>f_counts := f_counts x - 1\<rparr>) v;
     x \<leftarrow> vfiles v a;
     if f_counts x < 0 then None
     else if f_counts x = 0 then do {
       (r, v) \<leftarrow> (case (if f_op x \<noteq> 0 then op_close (file_tab e (f_op x)) else None) of
                  None \<Rightarrow> Some (0, v)
                | Some f \<Rightarrow> f a v);
       Some (r, v\<lparr>vfiles := (vfiles v)(a := None)\<rparr>) }
     else Some (0, v) }"

text \<open>The offset moves by the length asked for, whatever the driver transferred.\<close>

definition vfs_read :: "vfs_env \<Rightarrow> nat \<Rightarrow> u64 \<Rightarrow> u64 \<Rightarrow> vfs \<Rightarrow> (int \<times> u8 list \<times> vfs) option" where
  "vfs_read e a offset len v = do {
     x \<leftarrow> vfiles v a;
     case (if f_op x \<noteq> 0 then op_read (file_tab e (f_op x)) else None) of
       None \<Rightarrow> Some (- 1, [], v)
     | Some f \<Rightarrow> do {
         (r, bs, v) \<leftarrow> f a (f_offset x + offset) len v;
         v \<leftarrow> upd_file a (\<lambda>x. x\<lparr>f_offset := f_offset x + len\<rparr>) v;
         Some (r, bs, v) } }"

definition vfs_write :: "vfs_env \<Rightarrow> nat \<Rightarrow> u8 list \<Rightarrow> u64 \<Rightarrow> vfs \<Rightarrow> (int \<times> vfs) option" where
  "vfs_write e a bs offset v = do {
     x \<leftarrow> vfiles v a;
     case (if f_op x \<noteq> 0 then op_write (file_tab e (f_op x)) else None) of
       None \<Rightarrow> Some (- 1, v)
     | Some f \<Rightarrow> do {
         (r, v) \<leftarrow> f a bs (f_offset x + offset) v;
         v \<leftarrow> upd_file a (\<lambda>x. x\<lparr>f_offset := f_offset x + of_nat (length bs)\<rparr>) v;
         Some (r, v) } }"

definition SEEK_SET :: int where "SEEK_SET = 0"

definition SEEK_CUR :: int where "SEEK_CUR = 1"

definition SEEK_END :: int where "SEEK_END = 2"

definition vfs_lseek :: "nat \<Rightarrow> u64 \<Rightarrow> int \<Rightarrow> vfs \<Rightarrow> (u64 \<times> vfs) option" where
  "vfs_lseek a offset whence v = do {
     x \<leftarrow> vfiles v a;
     d \<leftarrow> dentries v (f_dentry x);
     if d_type d = D_TYPE_DIR \<and> offset = 0 then do {
       v \<leftarrow> upd_file a (\<lambda>x. x\<lparr>f_fs_data := AtStart\<rparr>) v;
       Some (0, v) }
     else do {
       off \<leftarrow> (if whence = SEEK_SET then Some offset
              else if whence = SEEK_CUR then Some (f_offset x + offset)
              else if whence = SEEK_END then do { i \<leftarrow> inodes v (f_inode x); Some (i_size i + offset) }
              else Some (f_offset x));
       v \<leftarrow> upd_file a (\<lambda>x. x\<lparr>f_offset := off\<rparr>) v;
       Some (off, v) } }"

text \<open>The list node after an entry of a directory.\<close>

definition next_pos :: "nat list \<Rightarrow> nat \<Rightarrow> dir_pos" where
  "next_pos xs a = (case dropWhile (\<lambda>x. x \<noteq> a) xs of _ # b # _ \<Rightarrow> AtEntry b | _ \<Rightarrow> AtHead)"

definition load_dir :: "vfs_env \<Rightarrow> nat \<Rightarrow> nat \<Rightarrow> vfs \<Rightarrow> vfs option" where
  "load_dir e dent ino v = do {
     d \<leftarrow> dentries v dent;
     if d_loaded d then Some v
     else do {
       pi \<leftarrow> (if d_mount d \<noteq> 0 then do { m \<leftarrow> mounts v (d_mount d); Some (m_root m) } else Some ino);
       i \<leftarrow> inodes v pi;
       case (if i_op i \<noteq> 0 then op_read_dir (inode_tab e (i_op i)) else None) of
         None \<Rightarrow> Some v
       | Some f \<Rightarrow> do {
           (r, v) \<leftarrow> f pi (vfs_read_dir_callback dent) v;
           if r = 0 then upd_dentry dent (\<lambda>d. d\<lparr>d_loaded := True\<rparr>) v else Some v } } }"

text \<open>One entry per call: \<open>-1\<close> at the end, else the inode and the name.\<close>

definition vfs_read_dir :: "vfs_env \<Rightarrow> nat \<Rightarrow> vfs \<Rightarrow> (int \<times> (nat \<times> string) option \<times> vfs) option" where
  "vfs_read_dir e a v = do {
     x \<leftarrow> vfiles v a;
     v \<leftarrow> load_dir e (f_dentry x) (f_inode x) v;
     x \<leftarrow> vfiles v a;
     d \<leftarrow> dentries v (f_dentry x);
     let pos = (case f_fs_data x of AtStart \<Rightarrow> (case d_subdirs d of [] \<Rightarrow> AtHead | c # cs \<Rightarrow> AtEntry c) | p \<Rightarrow> p);
     case pos of
       AtEntry c \<Rightarrow> do {
         s \<leftarrow> dentries v c;
         v \<leftarrow> upd_file a (\<lambda>x. x\<lparr>f_fs_data := next_pos (d_subdirs d) c\<rparr>) v;
         Some (0, Some (d_inode s, d_name s), v) }
     | _ \<Rightarrow> Some (- 1, None, v) }"

subsection \<open>Mounting\<close>

definition vfs_get_root :: nat where "vfs_get_root = root_dentry"

definition vfs_create_superblock :: "vfs_env \<Rightarrow> vfs \<Rightarrow> (nat \<times> vfs) option" where
  "vfs_create_superblock e v = do {
     let a = kalloc e v;
     kassert (a \<noteq> 0);
     Some (a, v\<lparr>superblocks := (superblocks v)(a \<mapsto> \<lparr>s_dev = (0, 0), s_op = 0, s_root = 0, s_fs_data = 0\<rparr>)\<rparr>) }"

definition vfs_destroy_superblock :: "nat \<Rightarrow> vfs \<Rightarrow> vfs" where
  "vfs_destroy_superblock sb v = v\<lparr>superblocks := (superblocks v)(sb := None)\<rparr>"

text \<open>The last registered file system of a name; every list node is visited.\<close>

definition find_fs :: "string \<Rightarrow> (string \<times> nat) list \<Rightarrow> nat" where
  "find_fs nm xs = (case filter (\<lambda>f. fst f = nm) xs of [] \<Rightarrow> 0 | ys \<Rightarrow> snd (last ys))"

definition vfs_mount :: "vfs_env \<Rightarrow> nat \<Rightarrow> string \<Rightarrow> string \<Rightarrow> string \<Rightarrow> nat \<Rightarrow> vfs \<Rightarrow> (int \<times> vfs) option" where
  "vfs_mount e cwd dev mountpoint fstype flags v =
    (let fs = find_fs fstype (filesystems v)
     in if fs = 0 then Some (- 1, v)
        else do {
          (dent_dev, v) \<leftarrow> vfs_get_dentry e dev cwd v;
          (dent_mp, v) \<leftarrow> vfs_get_dentry e mountpoint cwd v;
          if dent_dev = 0 then Some (- 3, v)
          else if dent_mp = 0 then Some (- 4, v)
          else do {
            mp \<leftarrow> dentries v dent_mp;
            if d_type mp = D_TYPE_MOUNTED then Some (- 6, v)
            else (case op_mount (fs_tab e fs) of
                None \<Rightarrow> Some (- 2, v)
              | Some f \<Rightarrow> do {
                  (sb, v) \<leftarrow> vfs_create_superblock e v;
                  dd \<leftarrow> dentries v dent_dev;
                  di \<leftarrow> inodes v (d_inode dd);
                  let v = v\<lparr>superblocks := (superblocks v)(sb \<mapsto> \<lparr>s_dev = i_dev di, s_op = 0, s_root = 0, s_fs_data = 0\<rparr>)\<rparr>;
                  (ret_sb, v) \<leftarrow> f sb (d_inode dd) flags v;
                  if ret_sb = 0 then Some (- 5, vfs_destroy_superblock sb v)
                  else do {
                    v \<leftarrow> upd_dentry dent_mp (\<lambda>d. d\<lparr>d_type := D_TYPE_MOUNTED\<rparr>) v;
                    let a = kalloc e v;
                    kassert (a \<noteq> 0);
                    s \<leftarrow> superblocks v ret_sb;
                    let v = v\<lparr>mounts := (mounts v)(a \<mapsto> \<lparr>m_sb = ret_sb, m_root = s_root s\<rparr>)\<rparr>;
                    v \<leftarrow> upd_dentry dent_mp (\<lambda>d. d\<lparr>d_mount := a\<rparr>) v;
                    Some (0, v) } }) } })"

end
