(* ===== verification/Vfs_Props.thy ===== *)
theory Vfs_Props
  imports Vfs
begin

text \<open>
  Paths: the path printed for an entry leads back to it; a doubled slash loses what stands before it.
  Reading a directory hands out its entries one after the other.
\<close>

text \<open>A name that can be a component of a path, and a chain of entries from the root down.\<close>

definition good_name :: "string \<Rightarrow> bool" where
  "good_name nm \<longleftrightarrow> nm \<noteq> [] \<and> CHR ''/'' \<notin> set nm \<and> length nm < D_NAME_LEN \<and> nm \<noteq> ''.'' \<and> nm \<noteq> ''..''"

fun chain_down :: "vfs \<Rightarrow> nat \<Rightarrow> nat list \<Rightarrow> bool" where
  "chain_down v p [] \<longleftrightarrow> True"
| "chain_down v p (c # cs) \<longleftrightarrow> c \<noteq> 0 \<and> p \<noteq> 0 \<and> (\<exists>d q. dentries v c = Some d \<and> dentries v p = Some q \<and> d_parent d = p \<and> good_name (d_name d) \<and>
      (d_type q = D_TYPE_DIR \<or> d_type q = D_TYPE_MOUNTED) \<and> find_child v (d_name d) (d_subdirs q) = Some c) \<and> chain_down v c cs"

definition name_of :: "vfs \<Rightarrow> nat \<Rightarrow> string" where
  "name_of v c = (case dentries v c of None \<Rightarrow> [] | Some d \<Rightarrow> d_name d)"

text \<open>The names of a chain, joined by slashes.\<close>

fun join :: "string list \<Rightarrow> string" where
  "join [] = []"
| "join [n] = n"
| "join (n # ns) = n @ CHR ''/'' # join ns"

lemma join_Cons: "ns \<noteq> [] \<Longrightarrow> join (n # ns) = n @ CHR ''/'' # join ns"
  by (cases ns) auto

subsection \<open>Walking\<close>

lemma walk_name:
  "CHR ''/'' \<notin> set nm \<Longrightarrow> walk_path e cwd par dname cur False (nm @ rest) v = walk_path e cwd par dname (cur @ nm) False rest v"
  by (induction nm arbitrary: cur) auto

lemma lookup_known:
  assumes "dentries v p = Some q" and "find_child v nm (d_subdirs q) = Some c" and "c \<noteq> 0"
  shows "lookup_child e cwd p nm v = Some (c, v)"
  using assms by (simp add: lookup_child_def)

lemma step_known:
  assumes "dentries v p = Some q" and "find_child v nm (d_subdirs q) = Some c" and "c \<noteq> 0" and "good_name nm"
  shows "path_step e cwd p nm v = Some (c, v)"
  using assms lookup_known [OF assms(1-3)] by (simp add: path_step_def good_name_def)

lemma walk_component:
  assumes "dentries v p = Some q" and "find_child v nm (d_subdirs q) = Some c" and "c \<noteq> 0" and "good_name nm"
    and "x \<noteq> CHR ''/''"
  shows "walk_path e cwd p dn [] False (nm @ CHR ''/'' # x # cs) v = walk_path e cwd c nm [x] False cs v"
  using assms step_known [OF assms(1-4)] by (simp add: walk_name good_name_def)

lemma join_start: "good_name n \<Longrightarrow> \<exists>x cs. join (n # ns) = x # cs \<and> x \<noteq> CHR ''/''"
  by (cases n; cases ns) (auto simp: good_name_def)

lemma good_last: "good_name nm \<Longrightarrow> walk_path e cwd p dn [] False nm v = Some (p, nm, v)"
  using walk_name [of nm e cwd p dn "[]" "[]" v] by (simp add: good_name_def)

lemma chain_name: "chain_down v p (c # cs) \<Longrightarrow> good_name (name_of v c)"
  by (auto simp: name_of_def)

lemma chain_find:
  "chain_down v p (c # cs) \<Longrightarrow> \<exists>q. dentries v p = Some q \<and> find_child v (name_of v c) (d_subdirs q) = Some c \<and> c \<noteq> 0"
  by (auto simp: name_of_def)

lemma walk_chain:
  "chain_down v p (cs @ [c]) \<Longrightarrow>
    walk_path e cwd p dn0 [] False (join (map (name_of v) (cs @ [c]))) v = Some (last (p # cs), name_of v c, v)"
proof (induction cs arbitrary: p dn0)
  case Nil
  then show ?case using good_last [OF chain_name [of v p c "[]"]] by simp
next
  case (Cons a cs)
  have a: "good_name (name_of v a)" using chain_name Cons.prems by simp
  obtain q where q: "dentries v p = Some q" "find_child v (name_of v a) (d_subdirs q) = Some a" "a \<noteq> 0"
    using chain_find [of v p a "cs @ [c]"] Cons.prems by auto
  have tl: "chain_down v a (cs @ [c])" using Cons.prems by simp
  let ?rest = "join (map (name_of v) (cs @ [c]))"
  obtain b bs where bs: "cs @ [c] = b # bs" by (cases cs) auto
  then have hd: "good_name (hd (map (name_of v) (cs @ [c])))" using chain_name [of v a b bs] tl by simp
  then obtain x xs where x: "?rest = x # xs" "x \<noteq> CHR ''/''"
    using join_start [of "hd (map (name_of v) (cs @ [c]))" "tl (map (name_of v) (cs @ [c]))"] by auto
  have "walk_path e cwd p dn0 [] False (name_of v a @ CHR ''/'' # x # xs) v = walk_path e cwd a (name_of v a) [] False (x # xs) v"
    using walk_component [OF q a x(2)] x(2) by simp
  moreover have "join (map (name_of v) ((a # cs) @ [c])) = name_of v a @ CHR ''/'' # ?rest"
    using join_Cons [of "map (name_of v) (cs @ [c])"] by simp
  ultimately show ?case using Cons.IH [OF tl] x(1) by simp
qed

lemma chain_append: "chain_down v p (xs @ ys) \<longleftrightarrow> chain_down v p xs \<and> chain_down v (last (p # xs)) ys"
  by (induction xs arbitrary: p) auto

lemma join_snoc: "ns \<noteq> [] \<Longrightarrow> join (ns @ [n]) = join ns @ CHR ''/'' # n"
  by (induction ns rule: join.induct) (auto simp: join_Cons)

definition root_ok :: "vfs \<Rightarrow> bool" where
  "root_ok v \<longleftrightarrow> (\<exists>d. dentries v root_dentry = Some d \<and> d_parent d = 0 \<and> d_name d = ''/'')"

lemma fullpath_chain:
  "root_ok v \<Longrightarrow> chain_down v root_dentry (cs @ [c]) \<Longrightarrow> length (join (map (name_of v) (cs @ [c]))) + length acc < 127 \<Longrightarrow>
    fullpath_loop v c acc = Some (CHR ''/'' # join (map (name_of v) (cs @ [c])) @ acc)"
proof (induction cs arbitrary: c acc rule: rev_induct)
  case Nil
  then obtain d r where d: "dentries v c = Some d" "dentries v root_dentry = Some r" "d_parent d = root_dentry" "good_name (d_name d)"
    "d_parent r = 0" "d_name r = ''/''" by (auto simp: root_ok_def)
  have l: "length (d_name d) + length acc < 127" using Nil(3) d(1) by (simp add: name_of_def)
  have "fullpath_loop v root_dentry (d_name d @ acc) = Some (CHR ''/'' # d_name d @ acc)"
    by (subst fullpath_loop.simps) (use d l in simp)
  then show ?case by (subst fullpath_loop.simps) (use d l in \<open>simp add: name_of_def good_name_def root_dentry_def\<close>)
next
  case (snoc b cs)
  have ch: "chain_down v root_dentry (cs @ [b])" "chain_down v b [c]" using snoc.prems(2) by (simp_all add: chain_append)
  then obtain d q where d: "dentries v c = Some d" "dentries v b = Some q" "d_parent d = b" "good_name (d_name d)" "b \<noteq> 0"
    "d_type q = D_TYPE_DIR \<or> d_type q = D_TYPE_MOUNTED" by auto
  have q: "good_name (d_name q)" using chain_append [of v root_dentry cs "[b]"] ch(1) d(2) by auto
  then have hq: "hd (d_name q) \<noteq> CHR ''/''" by (cases "d_name q") (auto simp: good_name_def)
  have j: "join (map (name_of v) ((cs @ [b]) @ [c])) = join (map (name_of v) (cs @ [b])) @ CHR ''/'' # d_name d"
    using join_snoc [of "map (name_of v) (cs @ [b])" "d_name d"] d(1) by (simp add: name_of_def)
  have l: "length (join (map (name_of v) (cs @ [b]))) + length (CHR ''/'' # d_name d @ acc) < 127" using snoc.prems(3) unfolding j by simp
  have "fullpath_loop v c acc = fullpath_loop v b (CHR ''/'' # d_name d @ acc)"
    by (subst fullpath_loop.simps) (use d hq l in \<open>auto simp: good_name_def\<close>)
  also have "\<dots> = Some (CHR ''/'' # join (map (name_of v) (cs @ [b])) @ CHR ''/'' # d_name d @ acc)"
    by (rule snoc.IH [OF snoc.prems(1) ch(1) l])
  finally show ?case unfolding j by simp
qed

text \<open>C38: the path of an entry leads back to it.  For an entry below the root whose ancestors are directories that
  know their entries by usable names, \<open>vfs_get_dentry_fullpath\<close> returns a path, and \<open>vfs_get_dentry\<close> of that path,
  from whatever working directory, returns the entry and changes nothing.\<close>

theorem vfs_path_round_trip:
  assumes "root_ok v" and "chain_down v root_dentry (cs @ [c])" and "length (join (map (name_of v) (cs @ [c]))) < 127" and "buf \<noteq> 0"
  shows "\<exists>path. vfs_get_dentry_fullpath v buf c = Some (Some path) \<and> vfs_get_dentry e path cwd v = Some (c, v)"
proof -
  let ?j = "join (map (name_of v) (cs @ [c]))"
  have p: "vfs_get_dentry_fullpath v buf c = Some (Some (CHR ''/'' # ?j))"
    using fullpath_chain [OF assms(1,2), of "[]"] assms(3,4) by (simp add: vfs_get_dentry_fullpath_def)
  have ch: "chain_down v (last (root_dentry # cs)) [c]" using assms(2) by (simp add: chain_append)
  then obtain q where q: "dentries v (last (root_dentry # cs)) = Some q" "find_child v (name_of v c) (d_subdirs q) = Some c" "c \<noteq> 0"
    using chain_find by blast
  have g: "good_name (name_of v c)" using chain_name [OF ch] .
  have ne: "last (root_dentry # cs) \<noteq> 0" using ch by simp
  have "?j \<noteq> []" using g by (cases cs rule: rev_cases) (auto simp: good_name_def join_snoc [of "map (name_of v) _ @ [_]", simplified])
  then have "vfs_get_parent_dentry e (CHR ''/'' # ?j) cwd v = Some (last (root_dentry # cs), name_of v c, v)"
    using walk_chain [OF assms(2), of e root_dentry "[]"] by (simp add: vfs_get_parent_dentry_def)
  then have "vfs_get_dentry e (CHR ''/'' # ?j) cwd v = Some (c, v)"
    using lookup_known [OF q] ne g by (simp add: vfs_get_dentry_def good_name_def)
  then show ?thesis using p by blast
qed

text \<open>A doubled slash loses what stands before it.  The component before the first of two slashes is never looked
  up: \<open>a//b\<close> leads to where \<open>b\<close> alone leads, whatever \<open>a\<close> is.\<close>

lemma double_slash_drops_component:
  assumes "a \<noteq> []" and "CHR ''/'' \<notin> set a" and "length a < D_NAME_LEN" and "b \<noteq> []" and "hd b \<noteq> CHR ''/''" and "cwd \<noteq> 0"
  shows "vfs_get_dentry e (a @ ''//'' @ b) cwd v = vfs_get_dentry e b cwd v"
proof -
  obtain x xs where b: "b = x # xs" "x \<noteq> CHR ''/''" using assms(4,5) by (cases b) auto
  obtain y ys where a: "a = y # ys" "y \<noteq> CHR ''/''" using assms(1,2) by (cases a) auto
  have "walk_path e cwd cwd [] [] False (a @ ''//'' @ b) v = walk_path e cwd cwd [] [x] False xs v"
    unfolding walk_name [OF assms(2)] using b assms(3,6) by (simp add: path_step_def D_NAME_LEN_def)
  then have "walk_path e cwd cwd [] [] False (a @ ''//'' @ b) v = walk_path e cwd cwd [] [] False b v"
    using b by simp
  then have "vfs_get_parent_dentry e (a @ ''//'' @ b) cwd v = vfs_get_parent_dentry e b cwd v"
    using a b assms(6) by (simp add: vfs_get_parent_dentry_def)
  then show ?thesis by (simp add: vfs_get_dentry_def)
qed

subsection \<open>Reading a directory\<close>

text \<open>Calls of \<open>vfs_read_dir\<close> until it reports the end, at most \<open>n\<close>.\<close>

fun read_entries :: "vfs_env \<Rightarrow> nat \<Rightarrow> nat \<Rightarrow> vfs \<Rightarrow> (int \<times> (nat \<times> string) list \<times> vfs) option" where
  "read_entries e a 0 v = Some (0, [], v)"
| "read_entries e a (Suc n) v = do {
     (r, x, v) \<leftarrow> vfs_read_dir e a v;
     case x of None \<Rightarrow> Some (r, [], v)
     | Some y \<Rightarrow> do { (r, ys, v) \<leftarrow> read_entries e a n v; Some (r, y # ys, v) } }"

definition entry_of :: "vfs \<Rightarrow> nat \<Rightarrow> nat \<times> string" where
  "entry_of v c = (case dentries v c of None \<Rightarrow> (0, []) | Some d \<Rightarrow> (d_inode d, d_name d))"

definition set_pos :: "nat \<Rightarrow> vfs_file \<Rightarrow> dir_pos \<Rightarrow> vfs \<Rightarrow> vfs" where
  "set_pos a x p v = v\<lparr>vfiles := (vfiles v)(a \<mapsto> x\<lparr>f_fs_data := p\<rparr>)\<rparr>"

fun pos_of :: "nat list \<Rightarrow> dir_pos" where
  "pos_of [] = AtHead"
| "pos_of (c # cs) = AtEntry c"

lemma next_pos_split: "distinct (ys @ c # cs) \<Longrightarrow> next_pos (ys @ c # cs) c = pos_of cs"
proof -
  assume "distinct (ys @ c # cs)"
  then have "dropWhile (\<lambda>x. x \<noteq> c) (ys @ c # cs) = c # cs" by (subst dropWhile_append2) auto
  then show ?thesis by (cases cs) (simp_all add: next_pos_def)
qed

lemma read_from:
  assumes "dentries v (f_dentry x) = Some d" and "d_loaded d" and "distinct (d_subdirs d)"
  shows "d_subdirs d = ys @ cs \<Longrightarrow> \<forall>c \<in> set cs. dentries v c \<noteq> None \<Longrightarrow> length cs < n \<Longrightarrow>
    read_entries e a n (set_pos a x (pos_of cs) v) = Some (- 1, map (entry_of v) cs, set_pos a x AtHead v)"
proof (induction cs arbitrary: ys n)
  case Nil
  then show ?case using assms by (cases n) (simp_all add: vfs_read_dir_def load_dir_def set_pos_def)
next
  case (Cons c cs)
  then obtain s m where s: "dentries v c = Some s" "n = Suc m" by (cases n) auto
  have "next_pos (d_subdirs d) c = pos_of cs" using next_pos_split [of ys c cs] assms(3) Cons.prems(1) by simp
  then have "vfs_read_dir e a (set_pos a x (pos_of (c # cs)) v) = Some (0, Some (entry_of v c), set_pos a x (pos_of cs) v)"
    using assms s(1) by (simp add: vfs_read_dir_def load_dir_def set_pos_def upd_file_def entry_of_def)
  then show ?case using Cons.IH [of "ys @ [c]" m] Cons.prems s(2) by simp
qed

text \<open>C39: reading a directory that is loaded hands out every entry once, in the order of the directory, and then
  reports the end.\<close>

theorem vfs_read_dir_enumerates:
  assumes "vfiles v a = Some x" and "f_fs_data x = AtStart" and "dentries v (f_dentry x) = Some d" and "d_loaded d"
    and "distinct (d_subdirs d)" and "\<forall>c \<in> set (d_subdirs d). dentries v c \<noteq> None" and "length (d_subdirs d) < n"
  shows "read_entries e a n v = Some (- 1, map (entry_of v) (d_subdirs d), v\<lparr>vfiles := (vfiles v)(a \<mapsto> x\<lparr>f_fs_data := if d_subdirs d = [] then AtStart else AtHead\<rparr>)\<rparr>)"
proof (cases "d_subdirs d")
  case Nil
  have "v\<lparr>vfiles := (vfiles v)(a \<mapsto> x\<lparr>f_fs_data := AtStart\<rparr>)\<rparr> = v" using assms(1,2) by (cases v; cases x) auto
  then show ?thesis using Nil assms by (cases n) (simp_all add: vfs_read_dir_def load_dir_def)
next
  case (Cons c cs)
  have "vfs_read_dir e a v = vfs_read_dir e a (set_pos a x (pos_of (d_subdirs d)) v)"
    using assms Cons by (simp add: vfs_read_dir_def load_dir_def set_pos_def upd_file_def)
  then have "read_entries e a n v = read_entries e a n (set_pos a x (pos_of (d_subdirs d)) v)" using assms(7) by (cases n) simp_all
  then show ?thesis using read_from [OF assms(3-5), of "[]" "d_subdirs d" n e a] assms(6,7) Cons by (simp add: set_pos_def)
qed

text \<open>The tree after start-up, the root loaded and opened as file 9; no file system offers any operation.\<close>

definition example_vfs :: vfs where
  "example_vfs = static_vfs\<lparr>
     dentries := (dentries static_vfs)(root_dentry \<mapsto> (static_dentry ''/'' 0 1)\<lparr>d_loaded := True, d_subdirs := [dev_dentry, sys_dentry]\<rparr>),
     vfiles := [9 \<mapsto> \<lparr>f_inode = 1, f_offset = 0, f_dentry = root_dentry, f_op = 0, f_mode = 0, f_counts = 1, f_fs_data = AtStart\<rparr>]\<rparr>"

definition example_vfs_env :: vfs_env where
  "example_vfs_env = \<lparr>
     inode_tab = (\<lambda>a. \<lparr>op_lookup = None, op_link = None, op_mkdir = None, op_read_dir = None\<rparr>),
     file_tab = (\<lambda>a. \<lparr>op_read = None, op_write = None, op_open = None, op_close = None\<rparr>),
     sb_tab = (\<lambda>a. \<lparr>op_alloc_inode = None, op_write_inode = None\<rparr>),
     fs_tab = (\<lambda>a. \<lparr>op_init_fs = None, op_mount = None\<rparr>), kalloc = (\<lambda>v. 77), junk = []\<rparr>"

lemmas example_vfs_defs = example_vfs_def static_vfs_def static_dentry_def root_dentry_def dev_dentry_def sys_dentry_def

theorem vfs_path_round_trip_witness:
  "\<exists>path. vfs_get_dentry_fullpath example_vfs 640 sys_dentry = Some (Some path) \<and>
    vfs_get_dentry example_vfs_env path dev_dentry example_vfs = Some (sys_dentry, example_vfs)"
proof -
  have "root_ok example_vfs" by (simp add: root_ok_def example_vfs_defs)
  moreover have "chain_down example_vfs root_dentry ([] @ [sys_dentry])" by (simp add: example_vfs_defs good_name_def D_NAME_LEN_def)
  moreover have "length (join (map (name_of example_vfs) ([] @ [sys_dentry]))) < 127" by (simp add: name_of_def example_vfs_defs)
  ultimately show ?thesis by (rule vfs_path_round_trip) simp
qed

theorem vfs_read_dir_enumerates_witness:
  "\<exists>v'. read_entries example_vfs_env 9 3 example_vfs = Some (- 1, [(2, ''dev''), (3, ''sys'')], v')"
  using vfs_read_dir_enumerates [of example_vfs 9 _ _ 3 example_vfs_env] by (simp add: example_vfs_defs entry_of_def)

end
