(* ===== verification/Fat.thy ===== *)
theory Fat
  imports Vfs RB_Insert
begin

text \<open>
  The read-only FAT32 file system of \<open>kernel/fs/fatfs/fatfs_impl_omochaos.c\<close>.  The disk is a
  function \<open>dsk\<close> from byte addresses, multiples of 512, to the 512 bytes of the block there: what a
  \<open>bio_cache_read\<close> that is followed by its \<open>bio_cache_release\<close> lets the code see.  Names and
  directory entries are lists of bytes (\<open>char\<close> is unsigned on RISC-V); 32-bit sector arithmetic
  wraps.
\<close>

type_synonym disk = "u64 \<Rightarrow> u8 list"

subsection \<open>On-disk structures\<close>

definition get16 :: "u8 list \<Rightarrow> nat \<Rightarrow> u16" where
  "get16 bs i = of_nat (unat (bs ! i) + 256 * unat (bs ! (i + 1)))"

definition get32 :: "u8 list \<Rightarrow> nat \<Rightarrow> u32" where
  "get32 bs i = of_nat (unat (bs ! i) + 256 * unat (bs ! (i + 1)) + 65536 * unat (bs ! (i + 2)) + 16777216 * unat (bs ! (i + 3)))"

record FAT32_FileSystem =
  OEMName :: "u8 list"
  BytesPerSec :: u64
  SecPerClus :: u32
  FATstartSct :: u32
  NumFATs :: u8
  HiddenSector :: u32
  TotalSector :: u32
  FATSize :: u32
  ExtFlags :: u16
  RootClus :: u32
  FSInfo :: u16
  BackupBootSector :: u16
  Signature :: u8
  VolumeID :: u32
  VolumeLabel :: "u8 list"
  FileSystemType :: "u8 list"
  FirstDataClus :: u32
  drv :: u16
  FreeClusCount :: u32
  NextFreeClusCount :: u32

text \<open>The boot sector and the free-space sector; the fields at the offsets of the packed structures.\<close>

definition fat_read_superblock :: "disk \<Rightarrow> u16 \<Rightarrow> FAT32_FileSystem option" where
  "fat_read_superblock dsk dr = do {
     let b = dsk 0;
     kassert (b ! 66 = 0x29);
     kassert (get16 b 19 = 0);
     kassert (get16 b 22 = 0);
     kassert (get16 b 17 = 0);
     kassert (get16 b 11 = 512);
     let i = dsk (ucast (get16 b 48) * ucast (get16 b 11));
     kassert (get32 i 0 = 0x41615252);
     kassert (get32 i 484 = 0x61417272);
     kassert (get32 i (484 + 24) = 0xAA550000);
     Some \<lparr>OEMName = take 8 (drop 3 b), BytesPerSec = ucast (get16 b 11), SecPerClus = ucast (b ! 13), FATstartSct = ucast (get16 b 14),
       NumFATs = b ! 16, HiddenSector = get32 b 28, TotalSector = get32 b 32, FATSize = get32 b 36, ExtFlags = get16 b 40,
       RootClus = get32 b 44, FSInfo = get16 b 48, BackupBootSector = get16 b 50, Signature = b ! 66, VolumeID = get32 b 67,
       VolumeLabel = take 11 (drop 71 b), FileSystemType = take 8 (drop 82 b),
       FirstDataClus = ucast (get16 b 14) + get32 b 36 * ucast (b ! 16), drv = dr,
       FreeClusCount = get32 i (484 + 4), NextFreeClusCount = get32 i (484 + 8)\<rparr> }"

definition ATTR_VOLUME_ID :: u8 where "ATTR_VOLUME_ID = 0x8"

definition ATTR_DIR :: u8 where "ATTR_DIR = 0x10"

definition FS_ATTR_LONGNAME :: u8 where "FS_ATTR_LONGNAME = 0xF"

definition CLUS2SECTOR :: "FAT32_FileSystem \<Rightarrow> u32 \<Rightarrow> u32" where
  "CLUS2SECTOR fs n = FirstDataClus fs + (n - RootClus fs) * SecPerClus fs"

text \<open>The byte address of a sector.\<close>

definition sector_at :: "FAT32_FileSystem \<Rightarrow> u32 \<Rightarrow> u64" where
  "sector_at fs s = ucast s * BytesPerSec fs"

subsection \<open>Names\<close>

fun checksum_from :: "u8 \<Rightarrow> u8 list \<Rightarrow> u8" where
  "checksum_from s [] = s"
| "checksum_from s (c # cs) = checksum_from (((drop_bit 1 s AND 0x7F) OR push_bit 7 (s AND 1)) + c) cs"

definition checksum_fname :: "u8 list \<Rightarrow> u8" where
  "checksum_fname fname = checksum_from 0 (take 11 fname)"

definition char_upper :: "u8 \<Rightarrow> u8" where
  "char_upper c = c - (if c \<ge> 97 \<and> c \<le> 122 then 32 else 0)"

text \<open>Dropping the spaces at the end; the name is left alone when it is empty.\<close>

definition strip_spaces :: "u8 list \<Rightarrow> u8 list" where
  "strip_spaces cs = rev (dropWhile (\<lambda>c. c = 32) (rev cs))"

text \<open>From the 11 bytes of an entry to a name.  The loop over the spaces of the extension stops at the
  extension's first byte at the latest.\<close>

definition read_8_3_filename :: "u8 list \<Rightarrow> u8 list" where
  "read_8_3_filename fname =
    (let base = strip_spaces (take 8 fname)
     in if fname ! 8 = 32 then base else base @ [46] @ strip_spaces (take 3 (drop 8 fname)))"

text \<open>The position after the last dot, if there is one.\<close>

definition dot_index :: "u8 list \<Rightarrow> nat option" where
  "dot_index fname = find (\<lambda>i. fname ! i = 46) (rev [0..<length fname])"

definition pad_to :: "nat \<Rightarrow> u8 list \<Rightarrow> u8 list" where
  "pad_to n cs = take n cs @ replicate (n - length cs) 32"

definition write_8_3_filename :: "u8 list \<Rightarrow> u8 list" where
  "write_8_3_filename fname =
    (let (base, ext) = (case dot_index fname of None \<Rightarrow> (fname, []) | Some i \<Rightarrow> (take i fname, drop (Suc i) fname));
         first = (if length base > 8 then map char_upper (take 6 base) @ [126, 49] else pad_to 8 (map char_upper base))
     in first @ pad_to 3 (map char_upper (take 3 ext)))"

subsection \<open>Clusters and file contents\<close>

definition get_next_clus_in_FAT :: "FAT32_FileSystem \<Rightarrow> disk \<Rightarrow> u32 \<Rightarrow> u32" where
  "get_next_clus_in_FAT fs dsk clus =
    (let s = clus div 128; b = dsk (sector_at fs (FATstartSct fs + s))
     in get32 b (4 * unat (clus - 128 * s)) AND 0x0FFFFFFF)"

text \<open>To the cluster of an offset: \<open>p\<close> counts in 32 bits.\<close>

partial_function (option) walk_clus :: "FAT32_FileSystem \<Rightarrow> disk \<Rightarrow> u32 \<Rightarrow> u64 \<Rightarrow> u32 \<Rightarrow> u32 \<Rightarrow> u32 option" where
  "walk_clus fs dsk bpc offset p clus =
    (if ucast p \<le> offset then walk_clus fs dsk bpc offset (p + bpc) (get_next_clus_in_FAT fs dsk clus) else Some clus)"

partial_function (option) read_sectors :: "FAT32_FileSystem \<Rightarrow> disk \<Rightarrow> u32 \<Rightarrow> u32 \<Rightarrow> u32 \<Rightarrow> u64 \<Rightarrow> u8 list \<Rightarrow> u8 list option" where
  "read_sectors fs dsk bpc clus p_clus r_size out =
    (let b = dsk (sector_at fs (CLUS2SECTOR fs clus + p_clus div 512))
     in if r_size > 512 then
          (if p_clus + 512 \<ge> bpc
           then read_sectors fs dsk bpc (get_next_clus_in_FAT fs dsk clus) 0 (r_size - 512) (out @ b)
           else read_sectors fs dsk bpc clus (p_clus + 512) (r_size - 512) (out @ b))
        else Some (if r_size \<noteq> 0 then out @ take (unat r_size) b else out))"

text \<open>The length returned and the bytes put into the buffer.  The first, unaligned piece is always
  taken from the first sector of the cluster.\<close>

definition fat_read :: "FAT32_FileSystem \<Rightarrow> disk \<Rightarrow> u32 \<Rightarrow> u64 \<Rightarrow> u64 \<Rightarrow> u64 \<Rightarrow> (u64 \<times> u8 list) option" where
  "fat_read fs dsk start_clus fsize offset len = do {
     let len = (if offset + len > fsize then fsize - offset else len);
     let bpc = 512 * SecPerClus fs;
     clus \<leftarrow> walk_clus fs dsk bpc offset bpc start_clus;
     kassert (bpc \<noteq> 0);
     let p_clus = ucast (offset mod ucast bpc);
     let (p_clus, r_size, out) =
       (if p_clus mod 512 \<noteq> 0 then
          (let s = min (ucast (512 - p_clus mod 512)) len; b = dsk (sector_at fs (CLUS2SECTOR fs clus))
           in (p_clus + ucast s, len - s, take (unat s) (drop (unat (p_clus mod 512)) b)))
        else (p_clus, len, []));
     if r_size = 0 then Some (len, out)
     else do {
       kassert (p_clus \<le> bpc);
       let (clus, p_clus) = (if p_clus = bpc then (get_next_clus_in_FAT fs dsk clus, 0) else (clus, p_clus));
       out \<leftarrow> read_sectors fs dsk bpc clus p_clus r_size out;
       Some (len, out) } }"

subsection \<open>Times\<close>

definition IS_LEAP_YEAR :: "int \<Rightarrow> bool" where
  "IS_LEAP_YEAR y \<longleftrightarrow> (y mod 4 = 0 \<and> y mod 100 \<noteq> 0) \<or> y mod 400 = 0"

definition days_till_a_month :: "int list" where
  "days_till_a_month = [0, 0, 31, 59, 90, 120, 151, 181, 212, 243, 273, 304, 334]"

text \<open>The result is computed in \<open>int\<close>, 32 bits wide, and then widened with its sign.\<close>

definition to_int32 :: "int \<Rightarrow> u64" where
  "to_int32 n = scast (of_int n :: u32)"

definition fat_date2ts :: "u16 \<Rightarrow> u64 option" where
  "fat_date2ts date = do {
     let day = uint (date AND 0x1F);
     let month = unat (drop_bit 5 date AND 0xF);
     let year = uint (drop_bit 9 date AND 0x7F) + 1980;
     m \<leftarrow> aget days_till_a_month month;
     let days = day - 1 + m;
     let days = (if month > 2 \<and> IS_LEAP_YEAR year then days + 1 else days);
     let days = days + sum_list (map (\<lambda>i. if IS_LEAP_YEAR i then 366 else 365) [1970..year - 1]);
     Some (to_int32 (days * (60 * 60 * 24))) }"

definition fat_time2ts :: "u16 \<Rightarrow> u64" where
  "fat_time2ts t = to_int32 (uint (t AND 0x1F) * 2 + uint (drop_bit 5 t AND 0x3F) * 60 + uint (drop_bit 11 t AND 0x1F) * 60 * 60)"

subsection \<open>Directories\<close>

text \<open>A long name that is being put together, from its end: its checksum, the bytes so far and how
  many more the buffer takes.\<close>

record long_name =
  ln_chksum :: u8
  ln_chars :: "u8 list"
  ln_room :: nat

text \<open>The characters of a long-name entry, last first; of each pair of bytes the low one.\<close>

definition long_positions :: "nat list" where
  "long_positions = [30, 28, 24, 22, 20, 18, 16, 14, 9, 7, 5, 3, 1]"

definition push_char :: "u8 list \<Rightarrow> nat \<Rightarrow> long_name \<Rightarrow> long_name option" where
  "push_char ent i ln =
    (if ent ! i \<noteq> 0 \<and> ent ! i \<noteq> 0xFF then do {
       kassert (0 < ln_room ln);
       Some (ln\<lparr>ln_chars := ent ! i # ln_chars ln, ln_room := ln_room ln - 1\<rparr>) }
     else Some ln)"

definition start_long :: "u8 list \<Rightarrow> long_name option \<Rightarrow> long_name option" where
  "start_long ent ln = (case ln of
       None \<Rightarrow> do {
         kassert (ent ! 0 AND 0x40 \<noteq> 0);
         Some \<lparr>ln_chksum = ent ! 13, ln_chars = [], ln_room = unat (ent ! 0 AND 0x1F) * 13\<rparr> }
     | Some l \<Rightarrow> do { kassert (ent ! 13 = ln_chksum l); Some l })"

text \<open>What the loop does after an entry: go on, leave the sector, or return.\<close>

datatype loop_ctrl = Go_On | Leave_Sector | Return_Now

type_synonym 's dirent_callback = "u8 list \<Rightarrow> u8 list \<Rightarrow> 's \<Rightarrow> (int \<times> 's) option"

definition dirent_step :: "'s dirent_callback \<Rightarrow> u8 list \<Rightarrow> long_name option \<Rightarrow> 's \<Rightarrow> (loop_ctrl \<times> long_name option \<times> 's) option" where
  "dirent_step callback ent ln s =
    (if ent ! 0 = 0 then Some (Leave_Sector, ln, s)
     else if ent ! 0 = 0xE5 \<or> ent ! 0 = 0x05 then Some (Go_On, ln, s)
     else if ent ! 0 = 0x2E then Some (Go_On, ln, s)
     else do {
       ln \<leftarrow> (if ent ! 11 = FS_ATTR_LONGNAME then do {
              l \<leftarrow> start_long ent ln;
              l \<leftarrow> fold_opt (push_char ent) long_positions l;
              Some (Some l) }
            else Some ln);
       if ent ! 11 AND ATTR_VOLUME_ID \<noteq> 0 then Some (Go_On, ln, s)
       else (case ln of
           Some l \<Rightarrow> do {
             kassert (ln_chksum l = checksum_fname ent);
             (r, s) \<leftarrow> callback ent (ln_chars l) s;
             Some (if r \<noteq> 0 then (Return_Now, ln, s) else (Go_On, None, s)) }
         | None \<Rightarrow> do {
             (r, s) \<leftarrow> callback ent (read_8_3_filename (take 11 ent)) s;
             Some (if r \<noteq> 0 then (Return_Now, None, s) else (Go_On, None, s)) }) })"

fun dirent_entries :: "'s dirent_callback \<Rightarrow> u8 list list \<Rightarrow> long_name option \<Rightarrow> 's \<Rightarrow> (bool \<times> long_name option \<times> 's) option" where
  "dirent_entries callback [] ln s = Some (False, ln, s)"
| "dirent_entries callback (ent # ents) ln s = do {
     (ctl, ln, s) \<leftarrow> dirent_step callback ent ln s;
     case ctl of
       Go_On \<Rightarrow> dirent_entries callback ents ln s
     | Leave_Sector \<Rightarrow> Some (False, ln, s)
     | Return_Now \<Rightarrow> Some (True, ln, s) }"

text \<open>The 16 entries of a sector.\<close>

definition entries_of :: "u8 list \<Rightarrow> u8 list list" where
  "entries_of b = map (\<lambda>i. take 32 (drop (32 * i) b)) [0..<16]"

fun dirent_sectors :: "FAT32_FileSystem \<Rightarrow> disk \<Rightarrow> 's dirent_callback \<Rightarrow> u32 list \<Rightarrow> long_name option \<Rightarrow> 's \<Rightarrow> (bool \<times> long_name option \<times> 's) option" where
  "dirent_sectors fs dsk callback [] ln s = Some (False, ln, s)"
| "dirent_sectors fs dsk callback (x # xs) ln s = do {
     (ret, ln, s) \<leftarrow> dirent_entries callback (entries_of (dsk (sector_at fs x))) ln s;
     if ret then Some (True, ln, s) else dirent_sectors fs dsk callback xs ln s }"

definition end_of_chain :: "u32 \<Rightarrow> bool" where
  "end_of_chain clus \<longleftrightarrow> clus \<ge> 0xFFFFFF8 \<and> clus \<le> 0xFFFFFFF"

partial_function (option) loop_fat_dirent ::
  "FAT32_FileSystem \<Rightarrow> disk \<Rightarrow> 's dirent_callback \<Rightarrow> u32 \<Rightarrow> long_name option \<Rightarrow> 's \<Rightarrow> 's option" where
  "loop_fat_dirent fs dsk callback clus ln s = do {
     (ret, ln, s) \<leftarrow> dirent_sectors fs dsk callback (map (\<lambda>i. CLUS2SECTOR fs clus + of_nat i) [0..<unat (SecPerClus fs)]) ln s;
     if ret then Some s
     else (let next = get_next_clus_in_FAT fs dsk clus
           in if end_of_chain next then Some s else loop_fat_dirent fs dsk callback next ln s) }"

subsection \<open>Inodes and mounting\<close>

text \<open>The file system's own state: the next inode number, the index tree, the first cluster of an
  inode and the inode of an index node, and the mounted file systems.  \<open>fresh k\<close> is the address the
  \<open>k\<close>-th allocation returns.\<close>

record fatfs =
  inode_idx :: int
  inode_tree :: rb_tree
  start_clus :: "nat \<Rightarrow> u32 option"
  index_inode :: "nat \<Rightarrow> nat option"
  fat_sbs :: "nat \<Rightarrow> FAT32_FileSystem option"
  allocs :: nat

text \<open>The addresses of the static operation tables.\<close>

definition fat_inode_ops :: nat where "fat_inode_ops = 0x100"

definition fat_file_ops :: nat where "fat_file_ops = 0x200"

definition fat_s_op :: nat where "fat_s_op = 0x300"

definition fat_alloc_inode :: "(nat \<Rightarrow> nat) \<Rightarrow> nat \<Rightarrow> vfs \<times> fatfs \<Rightarrow> (nat \<times> vfs \<times> fatfs) option" where
  "fat_alloc_inode fresh sb st = (case st of (v, f) \<Rightarrow> do {
     let ino = fresh (allocs f);
     let dat = fresh (allocs f + 1);
     let idx = fresh (allocs f + 2);
     kassert (ino \<noteq> 0 \<and> dat \<noteq> 0 \<and> idx \<noteq> 0);
     s \<leftarrow> superblocks v sb;
     let v = v\<lparr>inodes := (inodes v)(ino \<mapsto> \<lparr>i_ino = inode_idx f, i_nlinks = 0, i_counts = 0, i_size = 0, i_dev = s_dev s,
       i_type = inode_rootfs, i_op = fat_inode_ops, i_sb = sb, i_f_op = fat_file_ops, i_atime = 0, i_mtime = 0, i_ctime = 0, i_fs_data = dat\<rparr>)\<rparr>;
     let t = (inode_tree f)\<lparr>rb_mem := (rb_mem (inode_tree f))(idx \<mapsto>
       \<lparr>rb_key = of_int (inode_idx f), rb_parent = 0, rb_color = 0, rb_L = 0, rb_R = 0\<rparr>)\<rparr>;
     (_, t) \<leftarrow> rb_insert idx t;
     Some (ino, v, f\<lparr>start_clus := (start_clus f)(dat \<mapsto> 0), index_inode := (index_inode f)(idx \<mapsto> ino), inode_tree := t,
       inode_idx := inode_idx f + 1, allocs := allocs f + 3\<rparr>) })"

definition byte_chars :: "u8 list \<Rightarrow> string" where
  "byte_chars bs = map (\<lambda>b. char_of (unat b)) bs"

text \<open>What \<open>read_dir\<close> does with one entry: a new inode, a new directory entry, and the callback of
  the VFS.\<close>

definition looper :: "(nat \<Rightarrow> nat) \<Rightarrow> nat \<Rightarrow> (nat \<Rightarrow> vfs \<Rightarrow> (int \<times> vfs) option) \<Rightarrow> (vfs \<times> fatfs) dirent_callback" where
  "looper fresh sb callback ent nm st = do {
     (ino, v, f) \<leftarrow> fat_alloc_inode fresh sb st;
     i \<leftarrow> inodes v ino;
     let f = f\<lparr>start_clus := (start_clus f)(i_fs_data i \<mapsto> push_bit 16 (ucast (get16 ent 20)) OR ucast (get16 ent 26))\<rparr>;
     let dent = fresh (allocs f);
     kassert (dent \<noteq> 0);
     wd \<leftarrow> fat_date2ts (get16 ent 24);
     cd \<leftarrow> fat_date2ts (get16 ent 16);
     ad \<leftarrow> fat_date2ts (get16 ent 18);
     let is_dir = (ent ! 11 AND ATTR_DIR \<noteq> 0);
     let i = i\<lparr>i_size := ucast (get32 ent 28), i_nlinks := 1, i_mtime := wd + fat_time2ts (get16 ent 22),
                i_ctime := cd + fat_time2ts (get16 ent 14), i_atime := ad,
                i_type := (if is_dir then inode_dir else inode_file)\<rparr>;
     let v = v\<lparr>inodes := (inodes v)(ino \<mapsto> i),
                dentries := (dentries v)(dent \<mapsto> new_dentry 0 (byte_chars (take 31 nm)) ino (if is_dir then D_TYPE_DIR else D_TYPE_FILE))\<rparr>;
     (_, v) \<leftarrow> callback dent v;
     Some (0, v, f\<lparr>allocs := allocs f + 1\<rparr>) }"

definition fat_read_dir :: "(nat \<Rightarrow> nat) \<Rightarrow> (u16 \<Rightarrow> disk) \<Rightarrow> nat \<Rightarrow> (nat \<Rightarrow> vfs \<Rightarrow> (int \<times> vfs) option) \<Rightarrow> vfs \<times> fatfs \<Rightarrow> (int \<times> vfs \<times> fatfs) option" where
  "fat_read_dir fresh disks dir callback st = (case st of (v, f) \<Rightarrow> do {
     i \<leftarrow> inodes v dir;
     kassert (i_type i = inode_dir);
     s \<leftarrow> superblocks v (i_sb i);
     fs \<leftarrow> fat_sbs f (s_fs_data s);
     clus \<leftarrow> start_clus f (i_fs_data i);
     st \<leftarrow> loop_fat_dirent fs (disks (drv fs)) (looper fresh (i_sb i) callback) clus None (v, f);
     Some (0, st) })"

definition fat_file_read :: "(u16 \<Rightarrow> disk) \<Rightarrow> nat \<Rightarrow> u64 \<Rightarrow> u64 \<Rightarrow> vfs \<times> fatfs \<Rightarrow> (u64 \<times> u8 list) option" where
  "fat_file_read disks a offset len st = (case st of (v, f) \<Rightarrow> do {
     x \<leftarrow> vfiles v a;
     i \<leftarrow> inodes v (f_inode x);
     clus \<leftarrow> start_clus f (i_fs_data i);
     s \<leftarrow> superblocks v (i_sb i);
     fs \<leftarrow> fat_sbs f (s_fs_data s);
     fat_read fs (disks (drv fs)) clus (i_size i) offset len })"

definition do_mount_fatfs :: "(nat \<Rightarrow> nat) \<Rightarrow> (u16 \<Rightarrow> disk) \<Rightarrow> nat \<Rightarrow> nat \<Rightarrow> vfs \<times> fatfs \<Rightarrow> (nat \<times> vfs \<times> fatfs) option" where
  "do_mount_fatfs fresh disks sb dev st = (case st of (v, f) \<Rightarrow> do {
     s \<leftarrow> superblocks v sb;
     di \<leftarrow> inodes v dev;
     let a = fresh (allocs f);
     kassert (a \<noteq> 0);
     fs \<leftarrow> fat_read_superblock (disks (snd (i_dev di))) (snd (i_dev di));
     let v = v\<lparr>superblocks := (superblocks v)(sb \<mapsto> s\<lparr>s_op := fat_s_op, s_fs_data := a\<rparr>)\<rparr>;
     let f = f\<lparr>fat_sbs := (fat_sbs f)(a \<mapsto> fs), allocs := allocs f + 1\<rparr>;
     (root, v, f) \<leftarrow> fat_alloc_inode fresh sb (v, f);
     r \<leftarrow> inodes v root;
     let v = v\<lparr>inodes := (inodes v)(root \<mapsto> r\<lparr>i_type := inode_dir\<rparr>)\<rparr>;
     let f = f\<lparr>start_clus := (start_clus f)(i_fs_data r \<mapsto> RootClus fs)\<rparr>;
     s \<leftarrow> superblocks v sb;
     Some (sb, v\<lparr>superblocks := (superblocks v)(sb \<mapsto> s\<lparr>s_root := root\<rparr>)\<rparr>, f) })"

end

