(* ===== verification/Fat_Props.thy ===== *)
theory Fat_Props
  imports Fat
begin

text \<open>
  Properties of the FAT32 reader: file contents, short names and time stamps.
\<close>

subsection \<open>File contents\<close>

text \<open>The clusters chained from \<open>start\<close>, and the \<open>n\<close>-th sector of the file that begins there: sector
  \<open>n mod SecPerClus\<close> of its cluster \<open>n div SecPerClus\<close>.\<close>

definition nth_clus :: "FAT32_FileSystem \<Rightarrow> disk \<Rightarrow> u32 \<Rightarrow> nat \<Rightarrow> u32" where
  "nth_clus fs dsk start i = (get_next_clus_in_FAT fs dsk ^^ i) start"

definition file_sector :: "FAT32_FileSystem \<Rightarrow> disk \<Rightarrow> u32 \<Rightarrow> nat \<Rightarrow> u8 list" where
  "file_sector fs dsk start n = (let spc = unat (SecPerClus fs)
     in dsk (sector_at fs (CLUS2SECTOR fs (nth_clus fs dsk start (n div spc)) + of_nat (n mod spc))))"

definition file_bytes :: "FAT32_FileSystem \<Rightarrow> disk \<Rightarrow> u32 \<Rightarrow> nat \<Rightarrow> nat \<Rightarrow> u8 list" where
  "file_bytes fs dsk start n m = concat (map (file_sector fs dsk start) [n..<n + m])"

lemma nth_clus_Suc: "nth_clus fs dsk start (Suc i) = get_next_clus_in_FAT fs dsk (nth_clus fs dsk start i)"
  by (simp add: nth_clus_def)

lemma unat_of_nat32: "n < 2 ^ 32 \<Longrightarrow> unat (of_nat n :: u32) = n"
  by (simp add: unat_of_nat take_bit_nat_eq_self)

lemma walk_clus_ok:
  assumes "0 < b" and "unat offset + b < 2 ^ 32" and "unat bpc = b"
  shows "i \<le> unat offset div b \<Longrightarrow>
    walk_clus fs dsk bpc offset (of_nat (b * Suc i)) (nth_clus fs dsk start i) = Some (nth_clus fs dsk start (unat offset div b))"
proof (induction "unat offset div b - i" arbitrary: i)
  case 0
  then have i: "i = unat offset div b" by simp
  have "unat offset < b * Suc i" unfolding i using assms(1) by (simp add: dividend_less_times_div)
  moreover have "b * Suc i \<le> unat offset + b" unfolding i by simp
  then have "unat (of_nat (b * Suc i) :: u32) = b * Suc i" using assms(2) by (intro unat_of_nat32) linarith
  ultimately have "\<not> (ucast (of_nat (b * Suc i) :: u32) :: u64) \<le> offset"
    by (simp add: word_le_nat_alt del: of_nat_mult mult_Suc_right)
  then show ?case unfolding i by (subst walk_clus.simps) simp
next
  case (Suc k)
  have "b * Suc i \<le> b * (unat offset div b)" using Suc(2) by (intro mult_le_mono2) simp
  then have le: "b * Suc i \<le> unat offset" using mult_div_mod_eq [of b "unat offset"] by linarith
  then have "unat (of_nat (b * Suc i) :: u32) = b * Suc i" using assms(2) by (intro unat_of_nat32) linarith
  then have "(ucast (of_nat (b * Suc i) :: u32) :: u64) \<le> offset" using le
    by (simp add: word_le_nat_alt del: of_nat_mult mult_Suc_right)
  moreover have "bpc = of_nat b" using assms(3) by auto
  then have "of_nat (b * Suc i) + bpc = (of_nat (b * Suc (Suc i)) :: u32)" by (simp add: algebra_simps)
  ultimately have "walk_clus fs dsk bpc offset (of_nat (b * Suc i)) (nth_clus fs dsk start i) =
      walk_clus fs dsk bpc offset (of_nat (b * Suc (Suc i))) (nth_clus fs dsk start (Suc i))"
    by (subst walk_clus.simps) (simp only: nth_clus_Suc if_True)
  then show ?case using Suc(1) [of "Suc i"] Suc(2) by simp
qed

lemma file_bytes_Suc: "file_bytes fs dsk start n (Suc m) = file_sector fs dsk start n @ file_bytes fs dsk start (Suc n) m"
  unfolding file_bytes_def by (subst upt_conv_Cons) simp_all

lemma clus_bytes:
  assumes "unat (SecPerClus fs) = spc" and "spc < 256"
  shows "unat (512 * SecPerClus fs) = 512 * spc"
proof -
  have "SecPerClus fs = of_nat spc" using assms(1) by auto
  then have "512 * SecPerClus fs = of_nat (512 * spc)" by simp
  moreover have "unat (of_nat (512 * spc) :: u32) = 512 * spc" by (rule unat_of_nat32) (use assms(2) in simp)
  ultimately show ?thesis by (simp only:)
qed

text \<open>The position of sector \<open>n\<close> in its cluster.\<close>

lemma clus_position:
  assumes "0 < spc" and "spc < 256"
  shows "(of_nat (512 * (n mod spc)) :: u32) div 512 = of_nat (n mod spc)"
    "unat (of_nat (512 * (n mod spc)) + 512 :: u32) = 512 * Suc (n mod spc)"
    "(of_nat (512 * (n mod spc)) + 512 :: u32) = of_nat (512 * Suc (n mod spc))"
proof -
  have lt: "n mod spc < spc" using assms(1) by simp
  have u: "unat (of_nat k :: u32) = k" if "k \<le> 512 * 256" for k using that by (intro unat_of_nat32) simp
  show "(of_nat (512 * (n mod spc)) :: u32) div 512 = of_nat (n mod spc)"
    unfolding word_unat_eq_iff unat_div_distrib using u [of "512 * (n mod spc)"] u [of "n mod spc"] lt assms(2) by (simp del: of_nat_mult)
  show e: "(of_nat (512 * (n mod spc)) + 512 :: u32) = of_nat (512 * Suc (n mod spc))" by simp
  show "unat (of_nat (512 * (n mod spc)) + 512 :: u32) = 512 * Suc (n mod spc)"
    unfolding e by (rule u) (use lt assms(2) in simp)
qed

lemma last_in_clus: "(x :: nat) < spc \<Longrightarrow> 512 * spc \<le> 512 * Suc x \<longleftrightarrow> Suc x = spc"
  by auto

lemma read_sectors_ok:
  assumes "unat (SecPerClus fs) = spc" and "0 < spc" and "spc < 256" and "\<And>a. length (dsk a) = 512"
  shows "unat r \<le> 512 * m \<Longrightarrow>
    read_sectors fs dsk (512 * SecPerClus fs) (nth_clus fs dsk start (n div spc)) (of_nat (512 * (n mod spc))) r out
      = Some (out @ take (unat r) (file_bytes fs dsk start n m))"
proof (induction m arbitrary: n r out)
  case 0
  then show ?case by (subst read_sectors.simps) (simp add: unat_eq_zero word_less_nat_alt Let_def)
next
  case (Suc m)
  note pos = clus_position [OF assms(2,3), of n]
  let ?b = "file_sector fs dsk start n"
  have b: "dsk (sector_at fs (CLUS2SECTOR fs (nth_clus fs dsk start (n div spc)) + of_nat (512 * (n mod spc)) div 512)) = ?b"
    unfolding pos(1) by (simp add: file_sector_def assms(1) Let_def)
  have len: "length ?b = 512" using assms(4) by (simp add: file_sector_def Let_def)
  show ?case
  proof (cases "r > 512")
    case False
    then have "unat r \<le> 512" by (simp add: word_less_nat_alt)
    then have t: "take (unat r) (file_bytes fs dsk start n (Suc m)) = take (unat r) ?b" unfolding file_bytes_Suc using len by simp
    show ?thesis unfolding t by (subst read_sectors.simps) (use False b in \<open>auto simp: Let_def simp del: of_nat_mult\<close>)
  next
    case True
    then have r: "unat (r - 512) = unat r - 512" "512 < unat r" by (simp_all add: word_less_nat_alt unat_sub word_le_nat_alt)
    have t: "out @ take (unat r) (file_bytes fs dsk start n (Suc m)) = (out @ ?b) @ take (unat (r - 512)) (file_bytes fs dsk start (Suc n) m)"
      unfolding file_bytes_Suc using len r by simp
    have IH: "read_sectors fs dsk (512 * SecPerClus fs) (nth_clus fs dsk start (Suc n div spc)) (of_nat (512 * (Suc n mod spc))) (r - 512) (out @ ?b)
        = Some ((out @ ?b) @ take (unat (r - 512)) (file_bytes fs dsk start (Suc n) m))"
      by (rule Suc.IH) (use Suc.prems r in simp)
    have ge: "(of_nat (512 * (n mod spc)) + 512 \<ge> 512 * SecPerClus fs) \<longleftrightarrow> Suc (n mod spc) = spc"
      unfolding word_le_nat_alt pos(2) clus_bytes [OF assms(1,3)] using last_in_clus mod_less_divisor [OF assms(2)] by blast
    show ?thesis
    proof (cases "Suc (n mod spc) = spc")
      case eq: True
      then have "Suc n mod spc = 0" "Suc n div spc = Suc (n div spc)" by (simp_all add: mod_Suc div_Suc)
      then show ?thesis unfolding t using IH
        by (subst read_sectors.simps) (use True b ge eq in \<open>simp add: Let_def nth_clus_Suc del: of_nat_mult\<close>)
    next
      case ne: False
      then have "Suc n mod spc = Suc (n mod spc)" "Suc n div spc = n div spc" by (simp_all add: mod_Suc div_Suc)
      then show ?thesis unfolding t using IH pos(3)
        by (subst read_sectors.simps) (use True b ge ne in \<open>simp add: Let_def del: of_nat_mult mult_Suc_right\<close>)
    qed
  qed
qed

lemma file_bytes_append: "file_bytes fs dsk start n (k + m) = file_bytes fs dsk start n k @ file_bytes fs dsk start (n + k) m"
  by (induction k arbitrary: n) (simp_all add: file_bytes_Suc, simp add: file_bytes_def)

lemma file_bytes_length: "(\<And>a. length (dsk a) = 512) \<Longrightarrow> length (file_bytes fs dsk start n m) = 512 * m"
  by (induction m arbitrary: n) (simp_all add: file_bytes_Suc file_sector_def Let_def, simp add: file_bytes_def)

text \<open>C13: reading a file.  From an offset at a sector boundary, \<open>read\<close> returns as many bytes as asked for or as are
  left in the file, and they are the bytes of the file: the sectors of the clusters chained from its first one.\<close>

theorem fat_read_correct:
  assumes "unat (SecPerClus fs) = spc" and "0 < spc" and "spc < 256" and "\<forall>a. length (dsk a) = 512"
    and "unat offset mod 512 = 0" and "unat offset \<le> unat fsize" and "unat fsize + 512 * spc < 2 ^ 32" and "unat offset + unat len < 2 ^ 64"
    and "n = min (unat len) (unat fsize - unat offset)"
  shows "fat_read fs dsk start fsize offset len = Some (of_nat n, take n (drop (unat offset) (file_bytes fs dsk start 0 (unat fsize div 512 + 1))))"
proof -
  let ?bpc = "512 * SecPerClus fs"
  let ?s = "unat offset div 512"
  let ?len = "if offset + len > fsize then fsize - offset else len"
  note bpc = clus_bytes [OF assms(1,3)]
  have sum: "unat (offset + len) = unat offset + unat len" using assms(8) by (simp add: unat_plus_if_size word_size)
  have len: "unat ?len = n" "?len = of_nat n"
    using assms(6,9) sum by (auto simp: word_less_nat_alt unat_sub word_le_nat_alt min_def)
  have s: "unat offset = 512 * ?s" using assms(5) by auto
  have w: "walk_clus fs dsk ?bpc offset ?bpc start = Some (nth_clus fs dsk start (?s div spc))"
  proof -
    have "SecPerClus fs = of_nat spc" using assms(1) by auto
    then have "of_nat (512 * spc * Suc 0) = ?bpc" by simp
    moreover have "unat offset div (512 * spc) = ?s div spc" by (simp add: div_mult2_eq)
    ultimately show ?thesis using walk_clus_ok [of "512 * spc" offset ?bpc 0 fs dsk start] assms(2,6,7) bpc
      by (simp add: nth_clus_def)
  qed
  have p: "ucast (offset mod ucast ?bpc) = (of_nat (512 * (?s mod spc)) :: u32)"
  proof -
    have "unat offset mod (512 * spc) = 512 * ?s mod (512 * spc)" using s by (rule arg_cong)
    then have "unat (offset mod ucast ?bpc) = 512 * (?s mod spc)" unfolding unat_mod_distrib unat_ucast_u32 bpc mult_mod_right .
    then show ?thesis by (simp add: word_unat_eq_iff unsigned_ucast_eq unat_of_nat take_bit_eq_mod del: of_nat_mult)
  qed
  have lt: "512 * (?s mod spc) < 512 * spc" using assms(2) by simp
  then have up: "unat (of_nat (512 * (?s mod spc)) :: u32) = 512 * (?s mod spc)" using assms(3) by (intro unat_of_nat32) simp
  then have al: "(of_nat (512 * (?s mod spc)) :: u32) mod 512 = 0"
    by (simp add: word_unat_eq_iff unat_mod_distrib del: of_nat_mult)
  have pb: "(of_nat (512 * (?s mod spc)) :: u32) < ?bpc" using up lt bpc by (simp add: word_less_nat_alt del: of_nat_mult)
  have b0: "?bpc \<noteq> 0" using bpc assms(2) by (auto simp: word_unat_eq_iff)
  let ?m = "unat fsize div 512 + 1 - ?s"
  have sm: "?s + ?m = unat fsize div 512 + 1" using assms(6) by (simp add: div_le_mono le_SucI)
  have "512 * ?m = 512 * (unat fsize div 512 + 1) - unat offset" using s by (simp only: diff_mult_distrib2)
  moreover have "unat fsize < 512 * (unat fsize div 512 + 1)" by simp
  ultimately have "unat fsize - unat offset \<le> 512 * ?m" by linarith
  then have le: "unat ?len \<le> 512 * ?m" unfolding len(1) assms(9) by (rule min.coboundedI2)
  have rs: "read_sectors fs dsk ?bpc (nth_clus fs dsk start (?s div spc)) (of_nat (512 * (?s mod spc))) ?len []
      = Some (take n (file_bytes fs dsk start ?s ?m))"
    using read_sectors_ok [OF assms(1-3) _ le, of dsk start ?s "[]"] assms(4) len(1) by simp
  have fb: "drop (unat offset) (file_bytes fs dsk start 0 (unat fsize div 512 + 1)) = file_bytes fs dsk start ?s ?m"
    using file_bytes_append [of fs dsk start 0 ?s ?m] file_bytes_length [of dsk fs start 0 ?s] s assms(4) unfolding sm by simp
  show ?thesis
  proof (cases "?len = 0")
    case True
    then show ?thesis using w p al b0 len by (simp add: fat_read_def Let_def del: of_nat_mult)
  next
    case False
    then show ?thesis using w p al b0 less_imp_le [OF pb] less_imp_neq [OF pb] rs fb len(2) by (simp add: fat_read_def Let_def del: of_nat_mult)
  qed
qed

text \<open>A disk whose sectors are filled with their number; the chain of cluster 2 goes on with cluster 0.\<close>

definition example_fat :: FAT32_FileSystem where
  "example_fat = \<lparr>OEMName = [], BytesPerSec = 512, SecPerClus = 1, FATstartSct = 0, NumFATs = 1, HiddenSector = 0, TotalSector = 100,
     FATSize = 1, ExtFlags = 0, RootClus = 2, FSInfo = 1, BackupBootSector = 0, Signature = 0x29, VolumeID = 0, VolumeLabel = [],
     FileSystemType = [], FirstDataClus = 10, drv = 1, FreeClusCount = 0, NextFreeClusCount = 0\<rparr>"

definition example_disk :: disk where
  "example_disk a = replicate 512 (ucast (a div 512))"

theorem fat_read_correct_witness: "fat_read example_fat example_disk 2 1000 512 100 = Some (100, replicate 100 8)"
proof -
  have "get_next_clus_in_FAT example_fat example_disk 2 = 0"
    by (simp add: get_next_clus_in_FAT_def example_fat_def example_disk_def sector_at_def get32_def)
  then have "file_sector example_fat example_disk 2 0 = replicate 512 10" "file_sector example_fat example_disk 2 1 = replicate 512 8"
    by (simp_all add: file_sector_def nth_clus_def CLUS2SECTOR_def sector_at_def example_fat_def example_disk_def)
  then have fb: "file_bytes example_fat example_disk 2 0 (unat (1000 :: u64) div 512 + 1) = replicate 512 10 @ replicate 512 8"
    by (simp add: file_bytes_def)
  have "fat_read example_fat example_disk 2 1000 512 100 =
      Some (of_nat 100, take 100 (drop (unat (512 :: u64)) (file_bytes example_fat example_disk 2 0 (unat (1000 :: u64) div 512 + 1))))"
    by (rule fat_read_correct [where spc = 1]) (simp_all add: example_fat_def example_disk_def)
  then show ?thesis unfolding fb by simp
qed

subsection \<open>Short names\<close>

text \<open>A part of a short name: no dot, no small letter, no space at its end.\<close>

definition name_part :: "nat \<Rightarrow> u8 list \<Rightarrow> bool" where
  "name_part n cs \<longleftrightarrow> length cs \<le> n \<and> (cs \<noteq> [] \<longrightarrow> last cs \<noteq> 32) \<and> (\<forall>c \<in> set cs. c \<noteq> 46 \<and> \<not> (97 \<le> c \<and> c \<le> 122))"

lemma strip_pad: "name_part n cs \<Longrightarrow> strip_spaces (pad_to n cs) = cs"
proof -
  assume "name_part n cs"
  then have l: "length cs \<le> n" "cs \<noteq> [] \<longrightarrow> last cs \<noteq> 32" by (auto simp: name_part_def)
  have "dropWhile (\<lambda>c. c = 32) (replicate k 32 @ rev cs) = rev cs" for k
    using l(2) by (induction k) (auto simp: hd_rev dropWhile_eq_self_iff)
  then show ?thesis using l(1) by (simp add: strip_spaces_def pad_to_def)
qed

lemma upper_part: "name_part n cs \<Longrightarrow> map char_upper cs = cs"
  by (rule map_idI) (auto simp: name_part_def char_upper_def)

lemma no_dot: "46 \<notin> set b \<Longrightarrow> dot_index b = None"
  by (auto simp: dot_index_def find_None_iff in_set_conv_nth)

lemma find_rev_upt:
  assumes "i < n" and "P i" and "\<And>j. i < j \<Longrightarrow> j < n \<Longrightarrow> \<not> P j"
  shows "find P (rev [0..<n]) = Some i"
  using assms
proof (induction n)
  case (Suc n)
  then show ?case by (cases "i = n") auto
qed simp

lemma last_dot: "46 \<notin> set x \<Longrightarrow> dot_index (b @ 46 # x) = Some (length b)"
  unfolding dot_index_def by (rule find_rev_upt) (auto simp: nth_append nth_Cons' in_set_conv_nth)



end
