(* ===== verification/Fdt.thy ===== *)
theory Fdt
  imports Cstring Memory_Info
begin

text \<open>
  The flattened device tree: \<open>kernel/lib/sys/fdt.c\<close>, its header, and the prober of
  \<open>kernel/memory/memory.c\<close> that finds the memory range.  The blob is read byte by byte from a
  memory; a malformed one can send the loops anywhere, so they are \<open>partial_function\<close>s.  The
  registered probers are a list of names and functions on a state \<open>'s\<close>.
\<close>

definition FDT_MAGIC :: u32 where "FDT_MAGIC = 0xd00dfeed"

definition FDT_BEGIN_NODE :: u32 where "FDT_BEGIN_NODE = 1"

definition FDT_END_NODE :: u32 where "FDT_END_NODE = 2"

definition FDT_PROP :: u32 where "FDT_PROP = 3"

definition FDT_NOP :: u32 where "FDT_NOP = 4"

definition FDT_END :: u32 where "FDT_END = 9"

definition FDT_OFFSET_32 :: "byte_mem \<Rightarrow> nat \<Rightarrow> u32" where
  "FDT_OFFSET_32 m p = of_nat (16777216 * unat (m p) + 65536 * unat (m (p + 1)) + 256 * unat (m (p + 2)) + unat (m (p + 3)))"

definition FDT_OFFSET_64 :: "byte_mem \<Rightarrow> nat \<Rightarrow> u64" where
  "FDT_OFFSET_64 m p = push_bit 32 (ucast (FDT_OFFSET_32 m p)) OR ucast (FDT_OFFSET_32 m (p + 4))"

definition PALIGN :: "nat \<Rightarrow> nat \<Rightarrow> nat" where
  "PALIGN p a = (p + (a - 1)) div a * a"

text \<open>The bytes of a string literal.\<close>

definition lit :: "string \<Rightarrow> u8 list" where
  "lit s = map (\<lambda>c. of_nat (of_char c)) s"

text \<open>The comparison of a prober's name with a node's: up to an \<open>@\<close> of either.\<close>

fun is_str_match_before_at :: "u8 list \<Rightarrow> byte_mem \<Rightarrow> nat \<Rightarrow> bool" where
  "is_str_match_before_at [] m a \<longleftrightarrow> m a = 64 \<or> m a = 0"
| "is_str_match_before_at (c # cs) m a \<longleftrightarrow> c = 64 \<or> m a = 64 \<or> (c = m a \<and> is_str_match_before_at cs m (a + 1))"

type_synonym 's prober = "u32 \<Rightarrow> nat \<Rightarrow> nat \<Rightarrow> u32 \<Rightarrow> u32 \<Rightarrow> nat \<Rightarrow> 's \<Rightarrow> (nat \<times> 's) option"

definition get_prober_fp :: "(u8 list \<times> 's prober) list \<Rightarrow> byte_mem \<Rightarrow> nat \<Rightarrow> 's prober option" where
  "get_prober_fp probers m a = map_option snd (find (\<lambda>p. is_str_match_before_at (fst p) m a) probers)"

subsection \<open>Properties\<close>

text \<open>The header of a property: its size, the address of its name, of its value, and of what follows.\<close>

definition prop_head :: "byte_mem \<Rightarrow> u32 \<Rightarrow> nat \<Rightarrow> nat \<Rightarrow> u32 \<times> nat \<times> nat \<times> nat" where
  "prop_head m ver strings p =
    (let sz = FDT_OFFSET_32 m p;
         str = strings + unat (FDT_OFFSET_32 m (p + 4));
         val = (if ver < 16 \<and> sz \<ge> 8 then PALIGN (p + 8) 8 else p + 8)
     in (sz, str, val, PALIGN (val + unat sz) 4))"

definition cells_value :: "byte_mem \<Rightarrow> u32 \<Rightarrow> nat \<Rightarrow> u32 option" where
  "cells_value m sz val = do {
     kassert (sz = 4 \<or> sz = 8);
     Some (if sz = 4 then FDT_OFFSET_32 m val else ucast (FDT_OFFSET_64 m val)) }"

definition cells_prop :: "byte_mem \<Rightarrow> u32 \<Rightarrow> nat \<Rightarrow> nat \<Rightarrow> u32 \<Rightarrow> u32 \<Rightarrow> (nat \<times> u32 \<times> u32) option" where
  "cells_prop m ver strings p addr_cells size_cells = (case prop_head m ver strings p of (sz, str, val, q) \<Rightarrow>
     if cstr m str (lit ''#address-cells'') then do { c \<leftarrow> cells_value m sz val; Some (q, c, size_cells) }
     else if cstr m str (lit ''#size-cells'') then do { c \<leftarrow> cells_value m sz val; Some (q, addr_cells, c) }
     else Some (q, addr_cells, size_cells))"

subsection \<open>Nodes\<close>

text \<open>The loop of \<open>parse_node\<close>: where the end of the node is.  A node whose name is empty is not
  entered.\<close>

partial_function (option) parse_items ::
  "(u8 list \<times> 's prober) list \<Rightarrow> byte_mem \<Rightarrow> u32 \<Rightarrow> nat \<Rightarrow> nat \<Rightarrow> u32 \<Rightarrow> u32 \<Rightarrow> 's \<Rightarrow> (nat \<times> 's) option" where
  "parse_items probers m ver strings p addr_cells size_cells s =
    (let tag = FDT_OFFSET_32 m p
     in if tag = FDT_END_NODE then Some (p, s)
        else if tag = FDT_BEGIN_NODE then do {
          n \<leftarrow> strlen m (p + 4);
          let q = PALIGN (p + 4 + n + 1) 4;
          if m (p + 4) \<noteq> 0 then do {
            (q, s) \<leftarrow>
              (case get_prober_fp probers m (p + 4) of
                 Some fp \<Rightarrow> do { (off, s) \<leftarrow> fp ver (p + 4) q addr_cells size_cells strings s; Some (q + off, s) }
               | None \<Rightarrow> parse_items probers m ver strings q addr_cells size_cells s);
            kassert (FDT_OFFSET_32 m q = FDT_END_NODE);
            parse_items probers m ver strings (q + 4) addr_cells size_cells s }
          else parse_items probers m ver strings q addr_cells size_cells s }
        else if tag = FDT_NOP then parse_items probers m ver strings (p + 4) addr_cells size_cells s
        else if tag = FDT_PROP then do {
          (q, ac, sc) \<leftarrow> cells_prop m ver strings (p + 4) addr_cells size_cells;
          parse_items probers m ver strings q ac sc s }
        else None)"

definition parse_node ::
  "(u8 list \<times> 's prober) list \<Rightarrow> byte_mem \<Rightarrow> u32 \<Rightarrow> nat \<Rightarrow> u32 \<Rightarrow> u32 \<Rightarrow> nat \<Rightarrow> 's \<Rightarrow> (nat \<times> 's) option" where
  "parse_node probers m ver begin addr_cells size_cells strings s = do {
     (p, s) \<leftarrow> parse_items probers m ver strings begin addr_cells size_cells s;
     Some (p - begin, s) }"

partial_function (option) init_loop ::
  "(u8 list \<times> 's prober) list \<Rightarrow> byte_mem \<Rightarrow> u32 \<Rightarrow> nat \<Rightarrow> nat \<Rightarrow> u32 \<Rightarrow> u32 \<Rightarrow> 's \<Rightarrow> 's option" where
  "init_loop probers m ver strings p addr_cells size_cells s =
    (let tag = FDT_OFFSET_32 m p
     in if tag = FDT_END then Some s
        else if tag = FDT_BEGIN_NODE then do {
          n \<leftarrow> strlen m (p + 4);
          let q = PALIGN (p + 4 + n + 1) 4;
          if m (p + 4) \<noteq> 0 then do {
            (off, s) \<leftarrow>
              (case get_prober_fp probers m (p + 4) of
                 Some fp \<Rightarrow> fp ver (p + 4) q addr_cells size_cells strings s
               | None \<Rightarrow> parse_node probers m ver q addr_cells size_cells strings s);
            kassert (FDT_OFFSET_32 m (q + off) = FDT_END_NODE);
            init_loop probers m ver strings (q + off + 4) addr_cells size_cells s }
          else init_loop probers m ver strings q addr_cells size_cells s }
        else if tag = FDT_END_NODE \<or> tag = FDT_NOP then init_loop probers m ver strings (p + 4) addr_cells size_cells s
        else if tag = FDT_PROP then do {
          (q, ac, sc) \<leftarrow> cells_prop m ver strings (p + 4) addr_cells size_cells;
          init_loop probers m ver strings q ac sc s }
        else None)"

definition init_fdt :: "(u8 list \<times> 's prober) list \<Rightarrow> byte_mem \<Rightarrow> nat \<Rightarrow> 's \<Rightarrow> 's option" where
  "init_fdt probers m header s = do {
     kassert (FDT_OFFSET_32 m header = FDT_MAGIC);
     let ver = FDT_OFFSET_32 m (header + 20);
     let strings = header + unat (FDT_OFFSET_32 m (header + 12));
     let p = header + unat (FDT_OFFSET_32 m (header + 8));
     init_loop probers m ver strings p 0 0 s }"

subsection \<open>The probers\<close>

text \<open>What the probers find: the memory range, the interrupt controller and the \<open>virtio\<close> buses.\<close>

record virtio_mmio_info =
  pa :: u64
  bus_size :: u64
  interrupt :: u8
  interrupt_parent :: u8

record fdt_env =
  mem_info :: memory_info
  plic_pa :: u64
  plic_mem_size :: u64
  virtio_mmio_buses :: "virtio_mmio_info list"

definition VIRTIO_MMIO_MAX_BUS :: nat where "VIRTIO_MMIO_MAX_BUS = 32"

text \<open>The probers share one loop: they visit the properties of the node, and stop at the first end
  of a node, their own or that of a subnode.  What a property does is the argument \<open>h\<close>, given the
  addresses of its name and of its value.\<close>

partial_function (option) probe_loop ::
  "(nat \<Rightarrow> nat \<Rightarrow> 't \<Rightarrow> 't option) \<Rightarrow> byte_mem \<Rightarrow> u32 \<Rightarrow> nat \<Rightarrow> nat \<Rightarrow> nat \<Rightarrow> 't \<Rightarrow> (nat \<times> 't) option" where
  "probe_loop h m ver strings p depth t =
    (let tag = FDT_OFFSET_32 m p
     in if tag = FDT_END_NODE \<or> depth = 0 then Some (p, t)
        else if tag = FDT_BEGIN_NODE then do {
          n \<leftarrow> strlen m (p + 4);
          probe_loop h m ver strings (PALIGN (p + 4 + n + 1) 4) (depth + 1) t }
        else if tag = FDT_NOP then probe_loop h m ver strings (p + 4) depth t
        else if tag = FDT_PROP then
          (case prop_head m ver strings (p + 4) of (sz, str, val, q) \<Rightarrow> do {
             t \<leftarrow> h str val t;
             probe_loop h m ver strings q depth t })
        else None)"

text \<open>A number of a \<open>reg\<close> property, given the address of its last cell; more than two cells are cut.\<close>

definition reg_value :: "byte_mem \<Rightarrow> nat \<Rightarrow> u32 \<Rightarrow> u64" where
  "reg_value m base cells = ucast (FDT_OFFSET_32 m base) OR
     (if cells \<ge> 2 then push_bit 32 (ucast (FDT_OFFSET_32 m (base - 4))) else 0)"

definition reg_addr :: "byte_mem \<Rightarrow> nat \<Rightarrow> u32 \<Rightarrow> u32 \<Rightarrow> u64" where
  "reg_addr m val ac sc = reg_value m (val + 4 * unat (ac - 1)) ac"

definition reg_size :: "byte_mem \<Rightarrow> nat \<Rightarrow> u32 \<Rightarrow> u32 \<Rightarrow> u64" where
  "reg_size m val ac sc = reg_value m (val + 4 * unat (ac + sc - 1)) sc"

text \<open>A memory range is taken when it is not empty and none has been found; it counts as found when
  it holds the kernel.\<close>

definition take_range :: "nat \<Rightarrow> nat \<Rightarrow> u64 \<Rightarrow> u64 \<Rightarrow> bool \<times> fdt_env \<Rightarrow> bool \<times> fdt_env" where
  "take_range kb ke mem_addr mem_size = (\<lambda>(discovered, e).
    if mem_size \<noteq> 0 \<and> \<not> discovered then
      (let mi = (mem_info e)\<lparr>memory_start := unat mem_addr, memory_end := unat (mem_addr + mem_size)\<rparr>
       in if memory_end mi \<ge> ke \<and> memory_start mi \<le> kb
          then (True, e\<lparr>mem_info := mi\<lparr>usable_memory_start := unat (ROUNDUP_WITH 4096 (of_nat ke))\<rparr>\<rparr>)
          else (discovered, e\<lparr>mem_info := mi\<rparr>))
    else (discovered, e))"

definition memory_prop ::
  "nat \<Rightarrow> nat \<Rightarrow> byte_mem \<Rightarrow> u32 \<Rightarrow> u32 \<Rightarrow> nat \<Rightarrow> nat \<Rightarrow> bool \<times> fdt_env \<Rightarrow> (bool \<times> fdt_env) option" where
  "memory_prop kb ke m ac sc str val t =
    (if cstr m str (lit ''device_type'') then do { kassert (cstr m val (lit ''memory'')); Some t }
     else if cstr m str (lit ''reg'') then
       Some (take_range kb ke (reg_addr m val ac sc) (reg_size m val ac sc) t)
     else Some t)"

definition memory_fdt_prober :: "nat \<Rightarrow> nat \<Rightarrow> byte_mem \<Rightarrow> fdt_env prober" where
  "memory_fdt_prober kb ke m ver node_name begin ac sc strings e = do {
     (p, discovered, e) \<leftarrow> probe_loop (memory_prop kb ke m ac sc) m ver strings begin 1 (False, e);
     kassert discovered;
     Some (p - begin, e) }"

definition plic_prop :: "byte_mem \<Rightarrow> u32 \<Rightarrow> u32 \<Rightarrow> nat \<Rightarrow> nat \<Rightarrow> fdt_env \<Rightarrow> fdt_env option" where
  "plic_prop m ac sc str val e = Some
    (if cstr m str (lit ''reg'')
     then e\<lparr>plic_pa := reg_addr m val ac sc, plic_mem_size := reg_size m val ac sc\<rparr> else e)"

definition plic_fdt_prober :: "byte_mem \<Rightarrow> fdt_env prober" where
  "plic_fdt_prober m ver node_name begin ac sc strings e = do {
     (p, e) \<leftarrow> probe_loop (plic_prop m ac sc) m ver strings begin 1 e;
     Some (p - begin, e) }"

text \<open>The \<open>virtio\<close> prober's locals: how much it found, and what.  The upper cell of the size is not
  shifted.\<close>

definition mmio_prop ::
  "byte_mem \<Rightarrow> u32 \<Rightarrow> u32 \<Rightarrow> nat \<Rightarrow> nat \<Rightarrow> nat \<times> virtio_mmio_info \<Rightarrow> (nat \<times> virtio_mmio_info) option" where
  "mmio_prop m ac sc str val = (\<lambda>(discovered, b). Some
    (if cstr m str (lit ''reg'') then
       (let addr = reg_addr m val ac sc;
            base = val + 4 * unat (ac + sc - 1);
            b = b\<lparr>bus_size := ucast (FDT_OFFSET_32 m base) OR (if sc \<ge> 2 then ucast (FDT_OFFSET_32 m (base - 4)) else 0)\<rparr>
        in if addr \<noteq> 0 then (discovered + 1, b\<lparr>pa := addr\<rparr>) else (discovered, b))
     else if cstr m str (lit ''interrupts'') then
       (let i = ucast (FDT_OFFSET_32 m val) in (if i \<noteq> 0 then discovered + 1 else discovered, b\<lparr>interrupt := i\<rparr>))
     else if cstr m str (lit ''interrupt-parent'') then
       (let i = ucast (FDT_OFFSET_32 m val) in (if i \<noteq> 0 then discovered + 1 else discovered, b\<lparr>interrupt_parent := i\<rparr>))
     else (discovered, b)))"

text \<open>The locals start with what the stack holds (\<open>b0\<close>); a bus beyond the end of the array is written
  outside of it.\<close>

definition mmio_fdt_prober :: "virtio_mmio_info \<Rightarrow> byte_mem \<Rightarrow> fdt_env prober" where
  "mmio_fdt_prober b0 m ver node_name begin ac sc strings e = do {
     (p, discovered, b) \<leftarrow> probe_loop (mmio_prop m ac sc) m ver strings begin 1 (0, b0);
     kassert (discovered = 3);
     kassert (length (virtio_mmio_buses e) < VIRTIO_MMIO_MAX_BUS);
     Some (p - begin, e\<lparr>virtio_mmio_buses := virtio_mmio_buses e @ [b]\<rparr>) }"

text \<open>The probers the kernel registers.\<close>

definition FDTProbers :: "nat \<Rightarrow> nat \<Rightarrow> virtio_mmio_info \<Rightarrow> byte_mem \<Rightarrow> (u8 list \<times> fdt_env prober) list" where
  "FDTProbers kb ke b0 m =
    [(lit ''virtio_mmio'', mmio_fdt_prober b0 m), (lit ''plic'', plic_fdt_prober m),
     (lit ''interrupt-controller'', plic_fdt_prober m), (lit ''memory'', memory_fdt_prober kb ke m)]"

end
