(* ===== verification/Fdt_Props.thy ===== *)
theory Fdt_Props
  imports Fdt "HOL-Library.Sublist"
begin

text \<open>
  The device tree as a tree: \<open>flats\<close> writes a list of nodes and properties in the flattened format,
  \<open>visits\<close> says what walking the tree means, and the parser of \<open>kernel/lib/sys/fdt/fdt.c\<close> is shown
  to compute it.  What a prober owes the parser is the locale \<open>fdt_probers\<close>, interpreted on the
  probers of the kernel.
\<close>

subsection \<open>The flattened format\<close>

datatype fdt_item = FNode "u8 list" "fdt_item list" | FProp "u8 list" "u8 list" | FNop

definition be32 :: "u32 \<Rightarrow> u8 list" where
  "be32 w = [ucast (drop_bit 24 w), ucast (drop_bit 16 w), ucast (drop_bit 8 w), ucast w]"

definition pad4 :: "u8 list \<Rightarrow> u8 list" where
  "pad4 v = v @ replicate (PALIGN (length v) 4 - length v) 0"

fun flats :: "(u8 list \<Rightarrow> u32) \<Rightarrow> fdt_item list \<Rightarrow> u8 list" where
  "flats off [] = []"
| "flats off (FNop # is) = be32 FDT_NOP @ flats off is"
| "flats off (FProp n v # is) =
     be32 FDT_PROP @ be32 (of_nat (length v)) @ be32 (off n) @ pad4 v @ flats off is"
| "flats off (FNode n its # is) =
     be32 FDT_BEGIN_NODE @ pad4 (n @ [0]) @ flats off its @ be32 FDT_END_NODE @ flats off is"

definition be_num :: "u8 list \<Rightarrow> nat" where
  "be_num = foldl (\<lambda>x b. 256 * x + unat b) 0"

fun bytes_at :: "byte_mem \<Rightarrow> nat \<Rightarrow> u8 list \<Rightarrow> bool" where
  "bytes_at m a [] \<longleftrightarrow> True"
| "bytes_at m a (b # bs) \<longleftrightarrow> m a = b \<and> bytes_at m (a + 1) bs"

lemma bytes_at_append [simp]: "bytes_at m a (xs @ ys) \<longleftrightarrow> bytes_at m a xs \<and> bytes_at m (a + length xs) ys"
  by (induction xs arbitrary: a) auto

lemma bytes_at_nth: "bytes_at m a bs \<Longrightarrow> i < length bs \<Longrightarrow> m (a + i) = bs ! i"
proof (induction bs arbitrary: a i)
  case (Cons b bs)
  then show ?case using Cons.IH [of "a + 1" "i - 1"] by (cases i) auto
qed simp

lemma cstr_bytes: "bytes_at m a (n @ [0]) \<Longrightarrow> 0 \<notin> set n \<Longrightarrow> cstr m a n"
  by (induction n arbitrary: a) auto

lemma cstr_unique: "cstr m a xs \<Longrightarrow> cstr m a ys \<longleftrightarrow> ys = xs"
proof (induction xs arbitrary: a ys)
  case Nil then show ?case by (cases ys) auto
next
  case (Cons x xs) then show ?case by (cases ys) auto
qed

lemma length_be32 [simp]: "length (be32 w) = 4"
  by (simp add: be32_def)

lemma PALIGN_dvd [simp]: "a dvd PALIGN p a"
  by (simp add: PALIGN_def)

lemma PALIGN_ge: "0 < a \<Longrightarrow> p \<le> PALIGN p a"
  using div_mult_mod_eq [of "p + (a - 1)" a] mod_less_divisor [of a "p + (a - 1)"] unfolding PALIGN_def by linarith

lemma PALIGN_add: "4 dvd p \<Longrightarrow> PALIGN (p + n) 4 = p + PALIGN n 4"
  unfolding PALIGN_def by presburger

lemma length_pad4 [simp]: "length (pad4 v) = PALIGN (length v) 4"
  using PALIGN_ge [of 4 "length v"] by (simp add: pad4_def)

lemma length_flats [simp]: "4 dvd length (flats off its)"
  by (induction off its rule: flats.induct) auto

lemma tag_distinct:
  "FDT_BEGIN_NODE \<noteq> FDT_END_NODE" "FDT_NOP \<noteq> FDT_END_NODE" "FDT_NOP \<noteq> FDT_BEGIN_NODE" "FDT_PROP \<noteq> FDT_END_NODE"
  "FDT_PROP \<noteq> FDT_BEGIN_NODE" "FDT_PROP \<noteq> FDT_NOP" "FDT_BEGIN_NODE \<noteq> FDT_END" "FDT_END_NODE \<noteq> FDT_END"
  "FDT_NOP \<noteq> FDT_END" "FDT_PROP \<noteq> FDT_END" "FDT_END_NODE \<noteq> FDT_BEGIN_NODE"
  by (simp_all add: FDT_BEGIN_NODE_def FDT_END_NODE_def FDT_NOP_def FDT_PROP_def FDT_END_def)

lemma offset_32_num: "FDT_OFFSET_32 m p = of_nat (be_num [m p, m (p + 1), m (p + 2), m (p + 3)])"
  by (simp add: FDT_OFFSET_32_def be_num_def algebra_simps)

lemma be_num_be32: "be_num (be32 w) = unat w"
proof -
  have d: "unat w div 65536 = unat w div 256 div 256" "unat w div 16777216 = unat w div 256 div 256 div 256"
    by (simp_all add: div_mult2_eq [symmetric])
  have "unat w < 256 * 256 * 256 * 256" using unsigned_less [of w] by simp
  then have "unat w div 256 div 256 div 256 < 256" by (simp only: less_mult_imp_div_less)
  moreover have "256 * (k div 256) + k mod 256 = k" for k :: nat by simp
  note this [of "unat w"] this [of "unat w div 256"] this [of "unat w div 256 div 256"]
  ultimately show ?thesis
    by (simp add: be_num_def be32_def unsigned_ucast_eq take_bit_eq_mod drop_bit_eq_div unat_div_distrib d)
qed

lemma offset_32_be32: "bytes_at m p (be32 w) \<Longrightarrow> FDT_OFFSET_32 m p = w"
proof -
  assume a: "bytes_at m p (be32 w)"
  then have "[m p, m (p + 1), m (p + 2), m (p + 3)] = be32 w"
    by (simp add: be32_def add.assoc numeral_2_eq_2 numeral_3_eq_3)
  then show ?thesis using be_num_be32 [of w] by (simp add: offset_32_num)
qed

lemma be_num_append: "be_num (xs @ ys) = be_num xs * 256 ^ length ys + be_num ys"
proof -
  have "foldl (\<lambda>x b. 256 * x + unat b) k ys = k * 256 ^ length ys + foldl (\<lambda>x b. 256 * x + unat b) 0 ys" for k
  proof (induction ys rule: rev_induct)
    case (snoc y ys) then show ?case by (simp add: algebra_simps)
  qed simp
  from this [of "be_num xs"] show ?thesis by (simp add: be_num_def)
qed

lemma be_num_less: "be_num xs < 256 ^ length xs"
proof (induction xs rule: rev_induct)
  case (snoc x xs)
  moreover have "unat x < 256" using unsigned_less [of x] by simp
  ultimately show ?case by (simp add: be_num_def)
qed (simp add: be_num_def)

lemma push_or_add: "push_bit 32 (ucast (a :: u32)) OR ucast (b :: u32) = (push_bit 32 (ucast a) + ucast b :: u64)"
  by (subst disjunctive_add_eq_or [symmetric]) (auto simp: bit_eq_iff bit_simps dest: bit_imp_le_length)

lemma two_cells:
  assumes "x < 2 ^ 32" "y < 2 ^ 32"
  shows "push_bit 32 (ucast (of_nat x :: u32)) OR ucast (of_nat y :: u32) = (of_nat (x * 2 ^ 32 + y) :: u64)"
proof -
  have "(ucast (of_nat x :: u32) :: u64) = of_nat x" "(ucast (of_nat y :: u32) :: u64) = of_nat y"
    using assms by (simp_all add: word_unat_eq_iff unsigned_ucast_eq unat_of_nat take_bit_nat_eq_self)
  then show ?thesis
    using push_or_add [of "of_nat x" "of_nat y"] by (simp add: push_bit_eq_mult)
qed

subsection \<open>Walking the tree\<close>

type_synonym 's act = "u32 \<times> u32 \<Rightarrow> fdt_item list \<Rightarrow> 's \<Rightarrow> 's option"

text \<open>A prober is chosen by the node's name up to its \<open>@\<close>; a prefix of the prober's name will do there.\<close>

definition name_match :: "u8 list \<Rightarrow> u8 list \<Rightarrow> bool" where
  "name_match p n \<longleftrightarrow> (if 64 \<in> set n then prefix (takeWhile (\<lambda>c. c \<noteq> 64) n) p else n = p)"

definition find_act :: "(u8 list \<times> 's act) list \<Rightarrow> u8 list \<Rightarrow> 's act option" where
  "find_act acts n = map_option snd (find (\<lambda>g. name_match (fst g) n) acts)"

definition cells_after :: "u8 list \<Rightarrow> u8 list \<Rightarrow> u32 \<times> u32 \<Rightarrow> u32 \<times> u32" where
  "cells_after n v c =
    (if n = lit ''#address-cells'' then (of_nat (be_num v), snd c)
     else if n = lit ''#size-cells'' then (fst c, of_nat (be_num v)) else c)"

fun visits :: "(u8 list \<times> 's act) list \<Rightarrow> u32 \<times> u32 \<Rightarrow> fdt_item list \<Rightarrow> 's \<Rightarrow> 's option" where
  "visits acts c [] s = Some s"
| "visits acts c (FNop # is) s = visits acts c is s"
| "visits acts c (FProp n v # is) s = visits acts (cells_after n v c) is s"
| "visits acts c (FNode n its # is) s =
    Option.bind (case find_act acts n of Some g \<Rightarrow> g c its s | None \<Rightarrow> visits acts c its s) (visits acts c is)"

fun cells_end :: "u32 \<times> u32 \<Rightarrow> fdt_item list \<Rightarrow> u32 \<times> u32" where
  "cells_end c [] = c"
| "cells_end c (FProp n v # is) = cells_end (cells_after n v c) is"
| "cells_end c (i # is) = cells_end c is"

lemma items_induct [case_names Nil Nop Prop Node]:
  assumes "\<And>c. P c []" "\<And>c is. P c is \<Longrightarrow> P c (FNop # is)"
    and "\<And>c n v is. P (cells_after n v c) is \<Longrightarrow> P c (FProp n v # is)"
    and "\<And>c n its is. P c its \<Longrightarrow> P c is \<Longrightarrow> P c (FNode n its # is)"
  shows "P c its"
proof -
  have "\<forall>c. P c its" by (induction "\<lambda>_ :: u8 list. 0 :: u32" its rule: flats.induct) (use assms in blast)+
  then show ?thesis by blast
qed

subsection \<open>Well-formed trees\<close>

definition named :: "byte_mem \<Rightarrow> nat \<Rightarrow> (u8 list \<Rightarrow> u32) \<Rightarrow> u8 list \<Rightarrow> bool" where
  "named m strings off n \<longleftrightarrow> cstr m (strings + unat (off n)) n"

text \<open>The properties of a node that a prober reads: \<open>reg\<close> has one address and one size of one or two
  cells each, interrupts are one cell, and the device type is a string.\<close>

fun prop_ok :: "(u8 list \<Rightarrow> bool) \<Rightarrow> u32 \<times> u32 \<Rightarrow> fdt_item \<Rightarrow> bool" where
  "prop_ok str c (FNode n its) \<longleftrightarrow> False"
| "prop_ok str c FNop \<longleftrightarrow> True"
| "prop_ok str c (FProp n v) \<longleftrightarrow> str n \<and> length v < 2 ^ 32 \<and>
     (n = lit ''reg'' \<longrightarrow> fst c \<in> {1, 2} \<and> snd c \<in> {1, 2} \<and> length v = 4 * unat (fst c + snd c)) \<and>
     (n = lit ''interrupts'' \<or> n = lit ''interrupt-parent'' \<longrightarrow> length v = 4) \<and>
     (n = lit ''device_type'' \<longrightarrow> v \<noteq> [] \<and> hd (rev v) = 0 \<and> 0 \<notin> set (butlast v))"

fun items_ok :: "(u8 list \<Rightarrow> bool) \<Rightarrow> (u8 list \<times> 's act) list \<Rightarrow> u32 \<times> u32 \<Rightarrow> fdt_item list \<Rightarrow> bool" where
  "items_ok str acts c [] \<longleftrightarrow> True"
| "items_ok str acts c (FNop # is) \<longleftrightarrow> items_ok str acts c is"
| "items_ok str acts c (FProp n v # is) \<longleftrightarrow> str n \<and> length v < 2 ^ 32 \<and>
     (n = lit ''#address-cells'' \<or> n = lit ''#size-cells'' \<longrightarrow> length v = 4 \<or> length v = 8) \<and>
     items_ok str acts (cells_after n v c) is"
| "items_ok str acts c (FNode n its # is) \<longleftrightarrow> n \<noteq> [] \<and> 0 \<notin> set n \<and>
     (case find_act acts n of None \<Rightarrow> items_ok str acts c its | Some g \<Rightarrow> list_all (prop_ok str c) its) \<and>
     items_ok str acts c is"

subsection \<open>What a prober owes the parser\<close>

text \<open>Given the start of the contents of a node, it returns their length and does what \<open>g\<close> says.\<close>

definition serves :: "byte_mem \<Rightarrow> u32 \<Rightarrow> nat \<Rightarrow> (u8 list \<Rightarrow> u32) \<Rightarrow> 's prober \<Rightarrow> 's act \<Rightarrow> bool" where
  "serves m ver strings off fp g \<longleftrightarrow> (\<forall>a q c its s. 4 dvd q \<longrightarrow>
     bytes_at m q (flats off its @ be32 FDT_END_NODE) \<longrightarrow> list_all (prop_ok (named m strings off) c) its \<longrightarrow>
     fp ver a q (fst c) (snd c) strings s = map_option (Pair (length (flats off its))) (g c its s))"

lemma find_act_simps [simp]:
  "find_act [] n = None"
  "find_act (g # gs) n = (if name_match (fst g) n then Some (snd g) else find_act gs n)"
  by (simp_all add: find_act_def)

lemma get_prober_fp_simps [simp]:
  "get_prober_fp [] m a = None"
  "get_prober_fp (p # ps) m a = (if is_str_match_before_at (fst p) m a then Some (snd p) else get_prober_fp ps m a)"
  by (simp_all add: get_prober_fp_def)

subsection \<open>Reading properties\<close>

lemma list_4: "length v = 4 \<Longrightarrow> \<exists>a b c d. v = [a, b, c, d]"
  by (auto simp: length_Suc_conv numeral_eq_Suc)

lemma offset_32_bytes:
  assumes "bytes_at m p v" "length v = 4"
  shows "FDT_OFFSET_32 m p = of_nat (be_num v)"
proof -
  obtain a b c d where "v = [a, b, c, d]" using list_4 assms(2) by blast
  then show ?thesis using assms(1) by (simp add: offset_32_num add.assoc numeral_2_eq_2 numeral_3_eq_3)
qed

lemma offset_32_in:
  assumes "bytes_at m p v" "k + 4 \<le> length v"
  shows "FDT_OFFSET_32 m (p + k) = of_nat (be_num (take 4 (drop k v)))"
proof (rule offset_32_bytes)
  have "bytes_at m p (take k v @ take 4 (drop k v) @ drop 4 (drop k v))" using assms(1) by (simp del: drop_drop bytes_at_append)
  then show "bytes_at m (p + k) (take 4 (drop k v))" using assms(2) by simp
qed (use assms in auto)

lemma be_num_4: "length v = 4 \<Longrightarrow> be_num v < 2 ^ 32"
  using be_num_less [of v] by simp

lemma cell_bytes:
  assumes "bytes_at m p v" "k + 4 \<le> length v"
  shows "ucast (FDT_OFFSET_32 m (p + k)) = (of_nat (be_num (take 4 (drop k v))) :: u64)"
proof -
  have "be_num (take 4 (drop k v)) < 2 ^ 32" using be_num_4 [of "take 4 (drop k v)"] assms(2) by simp
  then show ?thesis
    using offset_32_in [OF assms] by (simp add: word_unat_eq_iff unsigned_ucast_eq unat_of_nat take_bit_nat_eq_self)
qed

lemma two_cells_bytes:
  assumes "bytes_at m p v" "k + 8 \<le> length v"
  shows "push_bit 32 (ucast (FDT_OFFSET_32 m (p + k))) OR ucast (FDT_OFFSET_32 m (p + k + 4))
    = (of_nat (be_num (take 8 (drop k v))) :: u64)"
proof -
  let ?x = "take 4 (drop k v)" and ?y = "take 4 (drop (k + 4) v)"
  have "take 8 (drop k v) = ?x @ ?y" using take_add [of 4 4 "drop k v"] by (simp add: add.commute)
  moreover have "length ?y = 4" "length ?x = 4" using assms(2) by auto
  ultimately show ?thesis
    using offset_32_in [OF assms(1), of k] offset_32_in [OF assms(1), of "k + 4"] assms(2)
      two_cells [OF be_num_4 be_num_4, of ?x ?y] by (simp add: be_num_append add.assoc)
qed

lemma offset_64_bytes: "bytes_at m p v \<Longrightarrow> length v = 8 \<Longrightarrow> FDT_OFFSET_64 m p = of_nat (be_num v)"
  using two_cells_bytes [of m p v 0] by (simp add: FDT_OFFSET_64_def)

lemma ucast_of_nat_32: "ucast (of_nat n :: u64) = (of_nat n :: u32)"
  by (simp add: word_unat_eq_iff unsigned_ucast_eq unat_of_nat take_bit_eq_mod mod_mod_cancel)

lemma cells_value_bytes:
  "bytes_at m val v \<Longrightarrow> length v = 4 \<or> length v = 8 \<Longrightarrow> cells_value m (of_nat (length v)) val = Some (of_nat (be_num v))"
  by (auto simp: cells_value_def offset_32_bytes offset_64_bytes ucast_of_nat_32)

lemma prop_head_bytes:
  assumes "bytes_at m p (be32 (of_nat (length v)) @ be32 (off n) @ pad4 v)" "4 dvd p" "16 \<le> ver" "length v < 2 ^ 32"
  shows "prop_head m ver strings p = (of_nat (length v), strings + unat (off n), p + 8, p + 8 + PALIGN (length v) 4)"
proof -
  have "FDT_OFFSET_32 m p = of_nat (length v)" "FDT_OFFSET_32 m (p + 4) = off n"
    using assms(1) by (auto intro!: offset_32_be32)
  moreover have "unat (of_nat (length v) :: u32) = length v"
    using assms(4) by (simp add: unat_of_nat take_bit_nat_eq_self)
  moreover have "\<not> ver < 16" using assms(3) by (simp add: not_less)
  moreover have "4 dvd p + 8" using assms(2) by simp
  ultimately show ?thesis by (simp add: prop_head_def Let_def PALIGN_add del: One_nat_def)
qed

lemma bytes_at_pad4: "bytes_at m p (pad4 v) \<Longrightarrow> bytes_at m p v"
  by (simp add: pad4_def)

lemma cells_prop_bytes:
  assumes "bytes_at m p (be32 (of_nat (length v)) @ be32 (off n) @ pad4 v)" "4 dvd p" "16 \<le> ver" "length v < 2 ^ 32"
    and "named m strings off n"
    and "n = lit ''#address-cells'' \<or> n = lit ''#size-cells'' \<longrightarrow> length v = 4 \<or> length v = 8"
  shows "cells_prop m ver strings p (fst c) (snd c) = Some (p + 8 + PALIGN (length v) 4, cells_after n v c)"
proof -
  have "bytes_at m (p + 8) v" using assms(1) bytes_at_pad4 [of m "p + 8" v] by (simp add: add.assoc)
  then have "cells_value m (of_nat (length v)) (p + 8) = Some (of_nat (be_num v))"
    if "n = lit ''#address-cells'' \<or> n = lit ''#size-cells''" using assms(6) that by (auto intro!: cells_value_bytes)
  then show ?thesis
    using prop_head_bytes [where off = off and n = n, OF assms(1-4), of strings] cstr_unique [OF assms(5) [unfolded named_def]]
    by (auto simp: cells_prop_def cells_after_def)
qed

locale fdt_probers =
  fixes m :: byte_mem and ver :: u32 and strings :: nat and off :: "u8 list \<Rightarrow> u32"
    and probers :: "(u8 list \<times> 's prober) list" and acts :: "(u8 list \<times> 's act) list"
  assumes version: "16 \<le> ver"
    and names: "\<And>n fp. (n, fp) \<in> set probers \<Longrightarrow> 64 \<notin> set n \<and> 0 \<notin> set n"
    and provide: "list_all2 (\<lambda>p g. fst p = fst g \<and> serves m ver strings off (snd p) (snd g)) probers acts"
begin

lemma match_name: "cstr m a n \<Longrightarrow> 64 \<notin> set p \<Longrightarrow> 0 \<notin> set p \<Longrightarrow> is_str_match_before_at p m a \<longleftrightarrow> name_match p n"
proof (induction p arbitrary: a n)
  case Nil
  then show ?case by (cases n) (auto simp: name_match_def)
next
  case (Cons x p)
  then show ?case by (cases n) (auto simp: name_match_def)
qed

lemma prober_of_node:
  assumes "cstr m a n"
  shows "case find_act acts n of None \<Rightarrow> get_prober_fp probers m a = None
    | Some g \<Rightarrow> \<exists>fp. get_prober_fp probers m a = Some fp \<and> serves m ver strings off fp g"
  using provide names
proof (induction rule: list_all2_induct)
  case (Cons p ps g gs)
  have "64 \<notin> set (fst p) \<and> 0 \<notin> set (fst p)" using Cons.prems [of "fst p" "snd p"] by simp
  then have "is_str_match_before_at (fst p) m a \<longleftrightarrow> name_match (fst g) n"
    using Cons.hyps(1) match_name [OF assms, of "fst p"] by simp
  moreover have "case find_act gs n of None \<Rightarrow> get_prober_fp ps m a = None
    | Some g \<Rightarrow> \<exists>fp. get_prober_fp ps m a = Some fp \<and> serves m ver strings off fp g"
    using Cons.IH Cons.prems by auto
  ultimately show ?case using Cons.hyps(1) by (cases "find_act gs n") auto
qed simp

lemmas parse_step = parse_items.simps [of probers m ver strings]

lemma parse_end: "bytes_at m p (be32 FDT_END_NODE) \<Longrightarrow> parse_items probers m ver strings p ac sc s = Some (p, s)"
  by (subst parse_step) (simp add: offset_32_be32)

text \<open>One node, whether it has a prober or is walked.\<close>

lemma node_contents:
  assumes "cstr m (p + 4) n" "4 dvd q" "bytes_at m q (flats off its @ be32 FDT_END_NODE)"
    and "find_act acts n = None \<Longrightarrow> parse_items probers m ver strings q (fst c) (snd c) s
      = map_option (Pair (q + length (flats off its))) (visits acts c its s)"
    and "\<And>g. find_act acts n = Some g \<Longrightarrow> list_all (prop_ok (named m strings off) c) its"
  shows "(case get_prober_fp probers m (p + 4) of
      Some fp \<Rightarrow> Option.bind (fp ver (p + 4) q (fst c) (snd c) strings s) (\<lambda>(l, s). Some (q + l, s))
    | None \<Rightarrow> parse_items probers m ver strings q (fst c) (snd c) s)
    = map_option (Pair (q + length (flats off its)))
        (case find_act acts n of Some g \<Rightarrow> g c its s | None \<Rightarrow> visits acts c its s)"
proof (cases "find_act acts n")
  case None
  then show ?thesis using prober_of_node [OF assms(1)] assms(4) by simp
next
  case (Some g)
  then obtain fp where fp: "get_prober_fp probers m (p + 4) = Some fp" "serves m ver strings off fp g"
    using prober_of_node [OF assms(1)] by auto
  then show ?thesis
    using Some assms(2,3,5) unfolding serves_def by (cases "g c its s") auto
qed

lemma name_read:
  assumes "bytes_at m (p + 4) (pad4 (n @ [0]))" "0 \<notin> set n" "4 dvd p" "n \<noteq> []"
  shows "cstr m (p + 4) n" "PALIGN (p + 4 + length n + 1) 4 = p + 4 + PALIGN (length n + 1) 4" "m (p + 4) \<noteq> 0"
proof -
  show "cstr m (p + 4) n" using assms(1,2) bytes_at_pad4 by (blast intro: cstr_bytes)
  then show "m (p + 4) \<noteq> 0" using assms(4) by (cases n) auto
  show "PALIGN (p + 4 + length n + 1) 4 = p + 4 + PALIGN (length n + 1) 4"
    using PALIGN_add [of "p + 4" "length n + 1"] assms(3) by (simp add: add.assoc)
qed

lemma parse_items_visits:
  assumes "4 dvd p" "bytes_at m p (flats off its)" "items_ok (named m strings off) acts c its"
  shows "parse_items probers m ver strings p (fst c) (snd c) s = Option.bind (visits acts c its s)
    (parse_items probers m ver strings (p + length (flats off its)) (fst (cells_end c its)) (snd (cells_end c its)))"
  using assms
proof (induction c its arbitrary: p s rule: items_induct)
  case (Nil c)
  then show ?case by simp
next
  case (Nop c "is")
  have "FDT_OFFSET_32 m p = FDT_NOP" using Nop.prems by (simp add: offset_32_be32)
  then have "parse_items probers m ver strings p (fst c) (snd c) s = parse_items probers m ver strings (p + 4) (fst c) (snd c) s"
    by (subst parse_step) (simp add: tag_distinct)
  then show ?case using Nop.IH [of "p + 4" s] Nop.prems by (simp add: add.assoc)
next
  case (Prop c n v "is")
  have "FDT_OFFSET_32 m p = FDT_PROP" using Prop.prems by (simp add: offset_32_be32)
  moreover have "cells_prop m ver strings (p + 4) (fst c) (snd c) = Some (p + 12 + PALIGN (length v) 4, cells_after n v c)"
    using cells_prop_bytes [where off = off and n = n and v = v and p = "p + 4" and c = c] Prop.prems version
    by (simp add: add.assoc)
  ultimately have "parse_items probers m ver strings p (fst c) (snd c) s
      = parse_items probers m ver strings (p + 12 + PALIGN (length v) 4) (fst (cells_after n v c)) (snd (cells_after n v c)) s"
    by (subst parse_step) (simp add: tag_distinct split_beta)
  then show ?case using Prop.IH [of "p + 12 + PALIGN (length v) 4" s] Prop.prems by (simp add: add.assoc)
next
  case (Node c n its "is")
  define q where "q = p + 4 + PALIGN (length n + 1) 4"
  let ?e = "q + length (flats off its)" and ?v = "case find_act acts n of Some g \<Rightarrow> g c its s | None \<Rightarrow> visits acts c its s"
  have q: "4 dvd q" using Node.prems(1) by (simp add: q_def)
  have b: "FDT_OFFSET_32 m p = FDT_BEGIN_NODE" "bytes_at m (p + 4) (pad4 (n @ [0]))" "bytes_at m q (flats off its @ be32 FDT_END_NODE)"
      "bytes_at m (?e + 4) (flats off is)"
    using Node.prems(2) by (simp_all add: offset_32_be32 q_def add.assoc)
  have n: "0 \<notin> set n" "n \<noteq> []" using Node.prems(3) by auto
  have e: "FDT_OFFSET_32 m ?e = FDT_END_NODE" using b(3) by (simp add: offset_32_be32)
  note nm = name_read [OF b(2) n(1) Node.prems(1) n(2)]
  note cont = node_contents [where p = p and c = c and s = s, OF nm(1) q b(3)]
  have cont': "(case get_prober_fp probers m (p + 4) of
      Some fp \<Rightarrow> Option.bind (fp ver (p + 4) q (fst c) (snd c) strings s) (\<lambda>(l, s). Some (q + l, s))
    | None \<Rightarrow> parse_items probers m ver strings q (fst c) (snd c) s) = map_option (Pair ?e) ?v"
  proof -
    have "parse_items probers m ver strings q (fst c) (snd c) s = map_option (Pair ?e) (visits acts c its s)"
      if "find_act acts n = None"
      using Node.IH(1) [of q s] q b(3) Node.prems(3) that
      by (cases "visits acts c its s") (auto simp: parse_end)
    moreover have "find_act acts n = Some g \<Longrightarrow> list_all (prop_ok (named m strings off) c) its" for g
      using Node.prems(3) by simp
    ultimately show ?thesis by (rule cont)
  qed
  have "parse_items probers m ver strings p (fst c) (snd c) s = Option.bind ?v
      (parse_items probers m ver strings (?e + 4) (fst c) (snd c))"
    using cont' strlen_cstr [OF nm(1)] nm(3) nm(2) [folded q_def] e
    by (subst parse_step) (cases ?v; simp add: b(1) tag_distinct Let_def cong: option.case_cong)
  moreover have "4 dvd ?e + 4" "items_ok (named m strings off) acts c is" using q Node.prems(3) by auto
  note Node.IH(2) [OF this(1) b(4) this(2)]
  then have "parse_items probers m ver strings (?e + 4) (fst c) (snd c) = (\<lambda>s. Option.bind (visits acts c is s)
      (parse_items probers m ver strings (?e + 4 + length (flats off is)) (fst (cells_end c is)) (snd (cells_end c is))))"
    by (rule ext)
  ultimately show ?case by (simp add: q_def add.assoc)
qed

lemma parse_node_visits:
  assumes "4 dvd q" "bytes_at m q (flats off its @ be32 FDT_END_NODE)" "items_ok (named m strings off) acts c its"
  shows "parse_node probers m ver q (fst c) (snd c) strings s = map_option (Pair (length (flats off its))) (visits acts c its s)"
  using parse_items_visits [of q its c s] assms
  by (cases "visits acts c its s") (auto simp: parse_node_def parse_end)

lemma node_offset:
  assumes "cstr m (p + 4) n" "4 dvd q" "bytes_at m q (flats off its @ be32 FDT_END_NODE)"
    and "items_ok (named m strings off) acts c (FNode n its # is)"
  shows "(case get_prober_fp probers m (p + 4) of Some fp \<Rightarrow> fp ver (p + 4) q (fst c) (snd c) strings s
    | None \<Rightarrow> parse_node probers m ver q (fst c) (snd c) strings s)
    = map_option (Pair (length (flats off its))) (case find_act acts n of Some g \<Rightarrow> g c its s | None \<Rightarrow> visits acts c its s)"
proof (cases "find_act acts n")
  case None
  then show ?thesis using prober_of_node [OF assms(1)] parse_node_visits [OF assms(2,3)] assms(4) by simp
next
  case (Some g)
  then obtain fp where "get_prober_fp probers m (p + 4) = Some fp" "serves m ver strings off fp g"
    using prober_of_node [OF assms(1)] by auto
  then show ?thesis using Some assms unfolding serves_def by auto
qed

lemmas init_step = init_loop.simps [of probers m ver strings]

lemma init_loop_visits:
  assumes "4 dvd p" "bytes_at m p (flats off its)" "items_ok (named m strings off) acts c its"
  shows "init_loop probers m ver strings p (fst c) (snd c) s = Option.bind (visits acts c its s)
    (init_loop probers m ver strings (p + length (flats off its)) (fst (cells_end c its)) (snd (cells_end c its)))"
  using assms
proof (induction c its arbitrary: p s rule: items_induct)
  case (Nil c)
  then show ?case by simp
next
  case (Nop c "is")
  have "FDT_OFFSET_32 m p = FDT_NOP" using Nop.prems by (simp add: offset_32_be32)
  then have "init_loop probers m ver strings p (fst c) (snd c) s = init_loop probers m ver strings (p + 4) (fst c) (snd c) s"
    by (subst init_step) (simp add: tag_distinct)
  then show ?case using Nop.IH [of "p + 4" s] Nop.prems by (simp add: add.assoc)
next
  case (Prop c n v "is")
  have "FDT_OFFSET_32 m p = FDT_PROP" using Prop.prems by (simp add: offset_32_be32)
  moreover have "cells_prop m ver strings (p + 4) (fst c) (snd c) = Some (p + 12 + PALIGN (length v) 4, cells_after n v c)"
    using cells_prop_bytes [where off = off and n = n and v = v and p = "p + 4" and c = c] Prop.prems version
    by (simp add: add.assoc)
  ultimately have "init_loop probers m ver strings p (fst c) (snd c) s
      = init_loop probers m ver strings (p + 12 + PALIGN (length v) 4) (fst (cells_after n v c)) (snd (cells_after n v c)) s"
    by (subst init_step) (simp add: tag_distinct split_beta)
  then show ?case using Prop.IH [of "p + 12 + PALIGN (length v) 4" s] Prop.prems by (simp add: add.assoc)
next
  case (Node c n its "is")
  define q where "q = p + 4 + PALIGN (length n + 1) 4"
  let ?e = "q + length (flats off its)" and ?v = "case find_act acts n of Some g \<Rightarrow> g c its s | None \<Rightarrow> visits acts c its s"
  have q: "4 dvd q" using Node.prems(1) by (simp add: q_def)
  have b: "FDT_OFFSET_32 m p = FDT_BEGIN_NODE" "bytes_at m (p + 4) (pad4 (n @ [0]))" "bytes_at m q (flats off its @ be32 FDT_END_NODE)"
      "bytes_at m (?e + 4) (flats off is)"
    using Node.prems(2) by (simp_all add: offset_32_be32 q_def add.assoc)
  have n: "0 \<notin> set n" "n \<noteq> []" using Node.prems(3) by auto
  have e: "FDT_OFFSET_32 m ?e = FDT_END_NODE" using b(3) by (simp add: offset_32_be32)
  note nm = name_read [OF b(2) n(1) Node.prems(1) n(2)]
  have "init_loop probers m ver strings p (fst c) (snd c) s = Option.bind ?v
      (init_loop probers m ver strings (?e + 4) (fst c) (snd c))"
    using node_offset [OF nm(1) q b(3) Node.prems(3), of s] strlen_cstr [OF nm(1)] nm(3) nm(2) [folded q_def] e
    by (subst init_step) (cases ?v; simp add: b(1) tag_distinct Let_def cong: option.case_cong)
  moreover have "4 dvd ?e + 4" "items_ok (named m strings off) acts c is" using q Node.prems(3) by auto
  note Node.IH(2) [OF this(1) b(4) this(2)]
  then have "init_loop probers m ver strings (?e + 4) (fst c) (snd c) = (\<lambda>s. Option.bind (visits acts c is s)
      (init_loop probers m ver strings (?e + 4 + length (flats off is)) (fst (cells_end c is)) (snd (cells_end c is))))"
    by (rule ext)
  ultimately show ?case by (simp add: q_def add.assoc)
qed

text \<open>The root has the empty name, so that the loop goes straight on to its contents.\<close>

lemma init_loop_root:
  assumes "4 dvd p" "bytes_at m p (be32 FDT_BEGIN_NODE @ [0, 0, 0, 0] @ flats off its @ be32 FDT_END_NODE @ be32 FDT_END)"
    and "items_ok (named m strings off) acts (0, 0) its"
  shows "init_loop probers m ver strings p 0 0 s = visits acts (0, 0) its s"
proof -
  have b: "FDT_OFFSET_32 m p = FDT_BEGIN_NODE" "m (p + 4) = 0" "bytes_at m (p + 8) (flats off its)"
    and e: "FDT_OFFSET_32 m (p + 8 + length (flats off its)) = FDT_END_NODE"
      "FDT_OFFSET_32 m (p + 8 + length (flats off its) + 4) = FDT_END"
    using assms(2) by (simp_all add: offset_32_be32 ac_simps)
  have "PALIGN (p + 5) 4 = p + 8" using PALIGN_add [OF assms(1), of 5] by (simp add: PALIGN_def)
  then have "init_loop probers m ver strings p 0 0 s = init_loop probers m ver strings (p + 8) 0 0 s"
    using b by (subst init_step) (simp add: tag_distinct strlen.simps add.commute)
  moreover have "init_loop probers m ver strings (p + 8 + length (flats off its)) ac sc s = Some s" for ac sc s
    using e by (subst init_step, simp add: tag_distinct, subst init_step) (simp add: tag_distinct)
  ultimately show ?thesis
    using init_loop_visits [of "p + 8" its "(0, 0)" s] assms(1,3) b(3) by (cases "visits acts (0, 0) its s") auto
qed

end

subsection \<open>The probers of the kernel\<close>

fun probes :: "(u8 list \<Rightarrow> u8 list \<Rightarrow> 't \<Rightarrow> 't option) \<Rightarrow> fdt_item list \<Rightarrow> 't \<Rightarrow> 't option" where
  "probes h [] t = Some t"
| "probes h (FProp n v # is) t = Option.bind (h n v t) (probes h is)"
| "probes h (i # is) t = probes h is t"

definition reg_num :: "u8 list \<Rightarrow> u64" where
  "reg_num v = of_nat (be_num v)"

definition addr_part :: "u32 \<times> u32 \<Rightarrow> u8 list \<Rightarrow> u8 list" where
  "addr_part c v = take (4 * unat (fst c)) v"

definition size_part :: "u32 \<times> u32 \<Rightarrow> u8 list \<Rightarrow> u8 list" where
  "size_part c v = drop (4 * unat (fst c)) v"

definition memory_item :: "nat \<Rightarrow> nat \<Rightarrow> u32 \<times> u32 \<Rightarrow> u8 list \<Rightarrow> u8 list \<Rightarrow> bool \<times> fdt_env \<Rightarrow> (bool \<times> fdt_env) option" where
  "memory_item kb ke c n v t =
    (if n = lit ''device_type'' then if v = lit ''memory'' @ [0] then Some t else None
     else if n = lit ''reg'' then Some (take_range kb ke (reg_num (addr_part c v)) (reg_num (size_part c v)) t)
     else Some t)"

definition memory_act :: "nat \<Rightarrow> nat \<Rightarrow> fdt_env act" where
  "memory_act kb ke c its e = Option.bind (probes (memory_item kb ke c) its (False, e))
    (\<lambda>(discovered, e). if discovered then Some e else None)"

definition plic_act :: "fdt_env act" where
  "plic_act c its e = probes (\<lambda>n v e. Some (if n = lit ''reg''
     then e\<lparr>plic_pa := reg_num (addr_part c v), plic_mem_size := reg_num (size_part c v)\<rparr> else e)) its e"

text \<open>The size of a \<open>virtio\<close> bus is the union of its two cells.\<close>

definition mmio_item :: "u32 \<times> u32 \<Rightarrow> u8 list \<Rightarrow> u8 list \<Rightarrow> nat \<times> virtio_mmio_info \<Rightarrow> (nat \<times> virtio_mmio_info) option" where
  "mmio_item c n v = (\<lambda>(k, b). Some
     (if n = lit ''reg'' then
        (let b = b\<lparr>bus_size := if snd c = 2 then reg_num (drop 4 (size_part c v)) OR reg_num (take 4 (size_part c v))
                   else reg_num (size_part c v)\<rparr>
         in if reg_num (addr_part c v) \<noteq> 0 then (k + 1, b\<lparr>pa := reg_num (addr_part c v)\<rparr>) else (k, b))
      else if n = lit ''interrupts'' then (if v ! 3 \<noteq> 0 then k + 1 else k, b\<lparr>interrupt := v ! 3\<rparr>)
      else if n = lit ''interrupt-parent'' then (if v ! 3 \<noteq> 0 then k + 1 else k, b\<lparr>interrupt_parent := v ! 3\<rparr>)
      else (k, b)))"

definition mmio_act :: "virtio_mmio_info \<Rightarrow> fdt_env act" where
  "mmio_act b0 c its e = Option.bind (probes (mmio_item c) its (0, b0))
    (\<lambda>(k, b). if k = 3 \<and> length (virtio_mmio_buses e) < VIRTIO_MMIO_MAX_BUS
       then Some (e\<lparr>virtio_mmio_buses := virtio_mmio_buses e @ [b]\<rparr>) else None)"

definition kernel_acts :: "nat \<Rightarrow> nat \<Rightarrow> virtio_mmio_info \<Rightarrow> (u8 list \<times> fdt_env act) list" where
  "kernel_acts kb ke b0 =
    [(lit ''virtio_mmio'', mmio_act b0), (lit ''plic'', plic_act),
     (lit ''interrupt-controller'', plic_act), (lit ''memory'', memory_act kb ke)]"

lemma probe_loop_probes:
  assumes "\<And>n v str val t. prop_ok (named m strings off) c (FProp n v) \<Longrightarrow> cstr m str n \<Longrightarrow> bytes_at m val v \<Longrightarrow> h str val t = h' n v t"
    and "16 \<le> ver"
  shows "4 dvd p \<Longrightarrow> bytes_at m p (flats off its @ be32 FDT_END_NODE) \<Longrightarrow> list_all (prop_ok (named m strings off) c) its \<Longrightarrow>
    probe_loop h m ver strings p 1 t = map_option (Pair (p + length (flats off its))) (probes h' its t)"
proof (induction its arbitrary: p t)
  case Nil
  then show ?case by (subst probe_loop.simps) (simp add: offset_32_be32)
next
  case (Cons i "is")
  show ?case
  proof (cases i)
    case FNop
    then have "FDT_OFFSET_32 m p = FDT_NOP" using Cons.prems by (simp add: offset_32_be32)
    then have "probe_loop h m ver strings p 1 t = probe_loop h m ver strings (p + 4) 1 t"
      by (subst probe_loop.simps) (simp add: tag_distinct)
    then show ?thesis using Cons.IH [of "p + 4"] Cons.prems FNop by (simp add: ac_simps)
  next
    case (FProp n v)
    then have b: "FDT_OFFSET_32 m p = FDT_PROP" "bytes_at m (p + 4) (be32 (of_nat (length v)) @ be32 (off n) @ pad4 v)"
      "named m strings off n" "length v < 2 ^ 32"
      using Cons.prems by (simp_all add: offset_32_be32 ac_simps)
    note hd = prop_head_bytes [where off = off and n = n, OF b(2) _ assms(2) b(4), of strings]
    have "h (strings + unat (off n)) (p + 12) t = h' n v t"
      using assms(1) [of n v] Cons.prems(3) b(2,3) bytes_at_pad4 [of m "p + 12" v] FProp by (simp add: named_def ac_simps)
    then have "probe_loop h m ver strings p 1 t
        = Option.bind (h' n v t) (probe_loop h m ver strings (p + 12 + PALIGN (length v) 4) 1)"
      using hd Cons.prems(1) by (subst probe_loop.simps) (simp add: tag_distinct b(1) ac_simps)
    then show ?thesis
      using Cons.IH [of "p + 12 + PALIGN (length v) 4"] Cons.prems FProp
      by (cases "h' n v t") (simp_all add: ac_simps)
  qed (use Cons.prems in simp)
qed

lemma reg_bytes:
  assumes "bytes_at m val v" "fst c \<in> {1, 2}" "snd c \<in> {1, 2}" "length v = 4 * unat (fst c + snd c)"
  shows "reg_addr m val (fst c) (snd c) = reg_num (addr_part c v)" "reg_size m val (fst c) (snd c) = reg_num (size_part c v)"
proof -
  have a: "fst c = 1 \<or> fst c = 2" and s: "snd c = 1 \<or> snd c = 2" using assms(2,3) by auto
  have lt: "\<not> 2 \<le> (1 :: u32)" by (simp add: word_le_nat_alt)
  have one: "ucast (FDT_OFFSET_32 m (val + k)) = reg_num (take 4 (drop k v))" if "k + 4 \<le> length v" for k
    using cell_bytes [OF assms(1) that] by (simp add: reg_num_def)
  have two: "ucast (FDT_OFFSET_32 m (val + (k + 4))) OR push_bit 32 (ucast (FDT_OFFSET_32 m (val + k))) = reg_num (take 8 (drop k v))"
    if "k + 8 \<le> length v" for k
    using two_cells_bytes [OF assms(1) that] by (simp add: reg_num_def or.commute add.assoc)
  show "reg_addr m val (fst c) (snd c) = reg_num (addr_part c v)"
    using a s one [of 0] two [of 0] assms(4) by (auto simp: lt reg_addr_def reg_value_def addr_part_def)
  show "reg_size m val (fst c) (snd c) = reg_num (size_part c v)"
    using a s one [of 4] one [of 8] two [of 4] two [of 8] assms(4) by (auto simp: lt reg_size_def reg_value_def size_part_def add.commute [of 4 val] add.commute [of 8 val])
qed

lemma plic_serves: "16 \<le> ver \<Longrightarrow> serves m ver strings off (plic_fdt_prober m) plic_act"
proof -
  assume v: "16 \<le> ver"
  have "plic_prop m (fst c) (snd c) str val e = Some (if n = lit ''reg''
      then e\<lparr>plic_pa := reg_num (addr_part c v), plic_mem_size := reg_num (size_part c v)\<rparr> else e)"
    if "prop_ok (named m strings off) c (FProp n v)" "cstr m str n" "bytes_at m val v" for n v str val c e
    using that cstr_unique [OF that(2)] reg_bytes [of m val v c] by (auto simp: plic_prop_def)
  from probe_loop_probes [OF this v] show ?thesis
    by (auto simp: serves_def plic_fdt_prober_def plic_act_def option.map_comp comp_def Option.map_conv_bind_option)
qed

lemma memory_prop_item:
  assumes "prop_ok (named m strings off) c (FProp n v)" "cstr m str n" "bytes_at m val v"
  shows "memory_prop kb ke m (fst c) (snd c) str val t = memory_item kb ke c n v t"
proof -
  have "cstr m val (lit ''memory'') \<longleftrightarrow> v = lit ''memory'' @ [0]" if v: "v \<noteq> []" "hd (rev v) = 0" "0 \<notin> set (butlast v)"
  proof -
    obtain w where w: "v = w @ [0]" "0 \<notin> set w" using v append_butlast_last_id [of v] by (metis hd_rev)
    then have "cstr m val w" using assms(3) by (auto intro: cstr_bytes)
    from cstr_unique [OF this] show ?thesis using w by auto
  qed
  then show ?thesis
    using assms cstr_unique [OF assms(2)] reg_bytes [of m val v c] by (auto simp: memory_prop_def memory_item_def)
qed

lemma memory_serves:
  assumes "16 \<le> ver"
  shows "serves m ver strings off (memory_fdt_prober kb ke m) (memory_act kb ke)"
  unfolding serves_def
proof (intro allI impI)
  fix a q c its s
  assume "4 dvd q" "bytes_at m q (flats off its @ be32 FDT_END_NODE)" "list_all (prop_ok (named m strings off) c) its"
  from probe_loop_probes [OF memory_prop_item assms this]
  show "memory_fdt_prober kb ke m ver a q (fst c) (snd c) strings s = map_option (Pair (length (flats off its))) (memory_act kb ke c its s)"
    by (cases "probes (memory_item kb ke c) its (False, s)") (auto simp: memory_fdt_prober_def memory_act_def)
qed

lemma cell_low_byte:
  assumes "bytes_at m val v" "length v = 4"
  shows "ucast (FDT_OFFSET_32 m val) = v ! 3"
proof -
  obtain a b c d where v: "v = [a, b, c, d]" using list_4 assms(2) by blast
  have "unat d < 256" using unsigned_less [of d] by simp
  moreover have "be_num v = 256 * be_num [a, b, c] + unat d" by (simp add: v be_num_def)
  ultimately have "be_num v mod 256 = unat (v ! 3)" by (simp add: v)
  then show ?thesis
    using offset_32_bytes [OF assms]
    by (simp add: word_unat_eq_iff unsigned_ucast_eq unat_of_nat take_bit_eq_mod mod_mod_cancel)
qed

lemma mmio_prop_item:
  assumes "prop_ok (named m strings off) c (FProp n v)" "cstr m str n" "bytes_at m val v"
  shows "mmio_prop m (fst c) (snd c) str val t = mmio_item c n v t"
proof (cases "n = lit ''reg''")
  case True
  have lt: "\<not> 2 \<le> (1 :: u32)" by (simp add: word_le_nat_alt)
  have c: "fst c = 1 \<or> fst c = 2" "snd c = 1 \<or> snd c = 2" "length v = 4 * unat (fst c + snd c)"
    using True assms(1) by auto
  note one = cell_bytes [OF assms(3), folded reg_num_def]
  have "ucast (FDT_OFFSET_32 m (val + 4 * unat (fst c + snd c - 1))) OR
      (if 2 \<le> snd c then ucast (FDT_OFFSET_32 m (val + 4 * unat (fst c + snd c - 1) - 4)) else 0) =
      (if snd c = 2 then reg_num (drop 4 (size_part c v)) OR reg_num (take 4 (size_part c v)) else reg_num (size_part c v))"
    using c one [of 4] one [of 8] one [of 12]
    by (auto simp: lt size_part_def add.commute [of 4 val] add.commute [of 8 val])
  then show ?thesis using True cstr_unique [OF assms(2)] reg_bytes [OF assms(3), of c] assms(1)
    by (simp add: mmio_prop_def mmio_item_def split_beta Let_def)
next
  case False
  then show ?thesis
    using assms(1) cstr_unique [OF assms(2)] cell_low_byte [OF assms(3)]
    by (simp add: mmio_prop_def mmio_item_def split_beta Let_def)
qed

lemma mmio_serves:
  assumes "16 \<le> ver"
  shows "serves m ver strings off (mmio_fdt_prober b0 m) (mmio_act b0)"
  unfolding serves_def
proof (intro allI impI)
  fix a q c its s
  assume "4 dvd q" "bytes_at m q (flats off its @ be32 FDT_END_NODE)" "list_all (prop_ok (named m strings off) c) its"
  from probe_loop_probes [OF mmio_prop_item assms this]
  show "mmio_fdt_prober b0 m ver a q (fst c) (snd c) strings s = map_option (Pair (length (flats off its))) (mmio_act b0 c its s)"
    by (cases "probes (mmio_item c) its (0, b0)") (auto simp: mmio_fdt_prober_def mmio_act_def kassert_def)
qed

interpretation kernel_probers: fdt_probers m 17 strings off "FDTProbers kb ke b0 m" "kernel_acts kb ke b0"
  for m strings off kb ke b0
proof
  show ver: "16 \<le> (17 :: u32)" by (simp add: word_le_nat_alt)
  show "64 \<notin> set n \<and> 0 \<notin> set n" if "(n, fp) \<in> set (FDTProbers kb ke b0 m)" for n fp
    using that by (auto simp: FDTProbers_def lit_def)
  show "list_all2 (\<lambda>p g. fst p = fst g \<and> serves m 17 strings off (snd p) (snd g)) (FDTProbers kb ke b0 m) (kernel_acts kb ke b0)"
    using mmio_serves [OF ver] plic_serves [OF ver] memory_serves [OF ver] by (simp add: FDTProbers_def kernel_acts_def)
qed

subsection \<open>Properties\<close>

text \<open>A flattened device tree at \<open>h\<close>: the words of its header that are used, and its structure block.\<close>

definition fdt_blob :: "byte_mem \<Rightarrow> nat \<Rightarrow> nat \<Rightarrow> nat \<Rightarrow> (u8 list \<Rightarrow> u32) \<Rightarrow> fdt_item list \<Rightarrow> bool" where
  "fdt_blob m h struct strings off its \<longleftrightarrow>
    bytes_at m h (be32 FDT_MAGIC) \<and> bytes_at m (h + 8) (be32 (of_nat struct)) \<and>
    bytes_at m (h + 12) (be32 (of_nat strings)) \<and> bytes_at m (h + 20) (be32 17) \<and>
    struct < 2 ^ 32 \<and> strings < 2 ^ 32 \<and> 4 dvd h + struct \<and>
    bytes_at m (h + struct) (be32 FDT_BEGIN_NODE @ [0, 0, 0, 0] @ flats off its @ be32 FDT_END_NODE @ be32 FDT_END)"

text \<open>C14: The parser refines the walk of the tree.  Given a version 17 blob that encodes the tree
  \<open>its\<close>, \<open>init_fdt\<close> returns and has done exactly what visiting the nodes in order means: the
  prober of each node that has one acts on the node's properties with the address and size cells in
  force there, every other node is entered, and nothing else happens; it stops for good precisely
  when a prober does.\<close>

theorem init_fdt_visits:
  assumes "fdt_blob m h struct strings off its"
    and "items_ok (named m (h + strings) off) (kernel_acts kb ke b0) (0, 0) its"
  shows "init_fdt (FDTProbers kb ke b0 m) m h e = visits (kernel_acts kb ke b0) (0, 0) its e"
proof -
  have "FDT_OFFSET_32 m h = FDT_MAGIC" "FDT_OFFSET_32 m (h + 8) = of_nat struct"
    "FDT_OFFSET_32 m (h + 12) = of_nat strings" "FDT_OFFSET_32 m (h + 20) = 17"
    using assms(1) by (auto simp: fdt_blob_def intro!: offset_32_be32)
  moreover have "unat (of_nat struct :: u32) = struct" "unat (of_nat strings :: u32) = strings"
    using assms(1) by (simp_all add: fdt_blob_def unat_of_nat take_bit_nat_eq_self)
  moreover have "init_loop (FDTProbers kb ke b0 m) m 17 (h + strings) (h + struct) 0 0 e = visits (kernel_acts kb ke b0) (0, 0) its e"
    using assms by (intro kernel_probers.init_loop_root) (simp_all add: fdt_blob_def)
  ultimately show ?thesis by (simp add: init_fdt_def)
qed

text \<open>A tree with 128 MiB of memory at 2 GiB.\<close>

definition sample_tree :: "fdt_item list" where
  "sample_tree =
    [FProp (lit ''#address-cells'') [0, 0, 0, 2], FProp (lit ''#size-cells'') [0, 0, 0, 2],
     FNode (lit ''memory@80000000'') [FProp (lit ''reg'') [0, 0, 0, 0, 0x80, 0, 0, 0, 0, 0, 0, 0, 8, 0, 0, 0], FNop]]"

definition sample_off :: "u8 list \<Rightarrow> u32" where
  "sample_off n = (if n = lit ''reg'' then 0 else if n = lit ''#size-cells'' then 4 else 16)"

definition sample_dtb :: "u8 list" where
  "sample_dtb = be32 FDT_MAGIC @ be32 0 @ be32 56 @ be32 24 @ be32 0 @ be32 17 @
     (lit ''reg'' @ [0] @ lit ''#size-cells'' @ [0] @ lit ''#address-cells'' @ [0, 0]) @
     be32 FDT_BEGIN_NODE @ [0, 0, 0, 0] @ flats sample_off sample_tree @ be32 FDT_END_NODE @ be32 FDT_END"

definition sample_mem :: byte_mem where
  "sample_mem a = (if a < length sample_dtb then sample_dtb ! a else 0)"

lemma bytes_at_mid: "sample_dtb = xs @ bs @ ys \<Longrightarrow> length xs = a \<Longrightarrow> bytes_at sample_mem a bs"
proof (induction bs arbitrary: xs a)
  case (Cons b bs)
  have "sample_mem a = b" unfolding sample_mem_def Cons.prems(1) using Cons.prems(2) by (simp add: nth_append)
  then show ?case using Cons.IH [of "xs @ [b]" "a + 1"] Cons.prems by simp
qed simp

lemma length_lit [simp]: "length (lit s) = length s"
  by (simp add: lit_def)

lemma sample_blob: "fdt_blob sample_mem 0 56 24 sample_off sample_tree"
proof -
  have "bytes_at sample_mem 0 (be32 FDT_MAGIC)"
    by (rule bytes_at_mid [where xs = "[]"]) (simp_all add: sample_dtb_def)
  moreover have "bytes_at sample_mem 8 (be32 56)"
    by (rule bytes_at_mid [where xs = "be32 FDT_MAGIC @ be32 0"]) (simp_all add: sample_dtb_def)
  moreover have "bytes_at sample_mem 12 (be32 24)"
    by (rule bytes_at_mid [where xs = "be32 FDT_MAGIC @ be32 0 @ be32 56"]) (simp_all add: sample_dtb_def)
  moreover have "bytes_at sample_mem 20 (be32 17)"
    by (rule bytes_at_mid [where xs = "be32 FDT_MAGIC @ be32 0 @ be32 56 @ be32 24 @ be32 0"]) (simp_all add: sample_dtb_def)
  moreover have "bytes_at sample_mem 56 (be32 FDT_BEGIN_NODE @ [0, 0, 0, 0] @ flats sample_off sample_tree @ be32 FDT_END_NODE @ be32 FDT_END)"
    by (rule bytes_at_mid [where xs = "be32 FDT_MAGIC @ be32 0 @ be32 56 @ be32 24 @ be32 0 @ be32 17 @
      lit ''reg'' @ [0] @ lit ''#size-cells'' @ [0] @ lit ''#address-cells'' @ [0, 0]" and ys = "[]"])
      (simp_all add: sample_dtb_def)
  ultimately show ?thesis by (simp add: fdt_blob_def del: bytes_at_append)
qed

lemma sample_names:
  "named sample_mem 24 sample_off (lit ''reg'')" "named sample_mem 24 sample_off (lit ''#size-cells'')"
  "named sample_mem 24 sample_off (lit ''#address-cells'')"
proof -
  let ?h = "be32 FDT_MAGIC @ be32 0 @ be32 56 @ be32 24 @ be32 0 @ be32 17"
  have "bytes_at sample_mem 24 (lit ''reg'' @ [0])"
    by (rule bytes_at_mid [where xs = ?h]) (simp_all add: sample_dtb_def)
  then show "named sample_mem 24 sample_off (lit ''reg'')"
    by (auto simp: named_def sample_off_def lit_def intro!: cstr_bytes)
  have "bytes_at sample_mem 28 (lit ''#size-cells'' @ [0])"
    by (rule bytes_at_mid [where xs = "?h @ lit ''reg'' @ [0]"]) (simp_all add: sample_dtb_def)
  then show "named sample_mem 24 sample_off (lit ''#size-cells'')"
    by (auto simp: named_def sample_off_def lit_def intro!: cstr_bytes)
  have "bytes_at sample_mem 40 (lit ''#address-cells'' @ [0])"
    by (rule bytes_at_mid [where xs = "?h @ lit ''reg'' @ [0] @ lit ''#size-cells'' @ [0]"]) (simp_all add: sample_dtb_def)
  then show "named sample_mem 24 sample_off (lit ''#address-cells'')"
    by (auto simp: named_def sample_off_def lit_def intro!: cstr_bytes)
qed

theorem init_fdt_visits_witness:
  "fdt_blob sample_mem 0 56 24 sample_off sample_tree \<and>
   (\<forall>e b. map_option (\<lambda>e. (memory_start (mem_info e), memory_end (mem_info e)))
      (init_fdt (FDTProbers 0x80200000 0x80300000 b sample_mem) sample_mem 0 e) = Some (0x80000000, 0x88000000))"
proof (intro conjI allI, rule sample_blob)
  fix e b
  have "items_ok (named sample_mem (0 + 24) sample_off) (kernel_acts 0x80200000 0x80300000 b) (0, 0) sample_tree"
    using sample_names
    by (simp add: sample_tree_def kernel_acts_def name_match_def cells_after_def be_num_def lit_def)
  from init_fdt_visits [OF sample_blob this, of e]
  show "map_option (\<lambda>e. (memory_start (mem_info e), memory_end (mem_info e)))
      (init_fdt (FDTProbers 0x80200000 0x80300000 b sample_mem) sample_mem 0 e) = Some (0x80000000, 0x88000000)"
    by (simp add: sample_tree_def kernel_acts_def name_match_def cells_after_def be_num_def lit_def
        memory_act_def memory_item_def take_range_def addr_part_def size_part_def reg_num_def)
qed

end
