(* ===== verification/RB_Remove.thy ===== *)
theory RB_Remove
  imports RB_Insert
begin

text \<open>
  Removal.  After a black node has gone, one position of the tree lacks a black node: \<open>lacking t C S\<close>.
  The loop moves the lack up or ends it.  Its two halves are mirror images of each other, so the
  right one is proved from the left one through \<open>mirror\<close>.
\<close>

subsection \<open>Operations as transformations of the tree\<close>

definition does :: "ptree \<Rightarrow> (rb_tree \<Rightarrow> rb_tree option) \<Rightarrow> ptree \<Rightarrow> bool" where
  "does T f T' \<longleftrightarrow> ino T' = ino T \<and>
    (\<forall>t. tree_is t T \<longrightarrow> (\<exists>t'. f t = Some t' \<and> tree_is t' T' \<and> same_outside T t t'))"

lemma does_color: "does (plug C (Nd l a k c r)) (SET_COLOR a c') (plug C (Nd l a k c' r))"
  unfolding does_def using color_step ino_color by metis

lemma does_left: "does (plug C (Nd a x kx cx (Nd b y ky cy c))) (rb_rotate_left x) (plug C (Nd (Nd a x kx cx b) y ky cy c))"
  unfolding does_def by (intro conjI allI impI, rule ino_plug, simp) (metis left_step)

lemma does_right: "does (plug C (Nd (Nd a x kx cx b) y ky cy c)) (rb_rotate_right y) (plug C (Nd a x kx cx (Nd b y ky cy c)))"
  unfolding does_def by (intro conjI allI impI, rule ino_plug, simp) (metis right_step)

lemma does_bind: "does T f T1 \<Longrightarrow> does T1 g T2 \<Longrightarrow> does T (\<lambda>t. Option.bind (f t) g) T2"
  unfolding does_def using same_outside_ino same_outside_trans by (metis bind.bind_lunit)

lemma doesD: "does T f T' \<Longrightarrow> tree_is t T \<Longrightarrow> \<exists>t'. f t = Some t' \<and> tree_is t' T' \<and> same_outside T t t' \<and> ino T' = ino T"
  unfolding does_def by blast

lemma is_black_at: "tree_is t (plug C S) \<Longrightarrow> is_black t (rt S) = Some (col S = RB_BLACK)"
  by (cases S) (auto simp: is_black_def GET_COLOR_def dest: node_at)

subsection \<open>A missing black node\<close>

fun blacken :: "ptree \<Rightarrow> ptree" where
  "blacken Lf = Lf"
| "blacken (Nd l a k c r) = Nd l a k RB_BLACK r"

definition lacking :: "rb_tree \<Rightarrow> frame list \<Rightarrow> ptree \<Rightarrow> bool" where
  "lacking t C S \<longleftrightarrow> tree_is t (plug C S) \<and> invrb (blacken S) \<and> (col S = RB_BLACK \<or> col S = RB_RED) \<and> cvalid C (bh S + 1)"

text \<open>A turn of the loop either ends with a red-black tree, or the lack has moved: up, or to a red node.\<close>

definition turned :: "nat \<Rightarrow> ptree \<Rightarrow> rb_tree \<Rightarrow> (rb_tree \<times> nat \<times> nat \<times> bool) option \<Rightarrow> bool" where
  "turned len T t r \<longleftrightarrow> (\<exists>t' n p left. r = Some (t', n, p, left) \<and> same_outside T t t' \<and>
     (if left then n = rb_root t' \<and> (\<exists>T'. tree_is t' T' \<and> is_rbt T' \<and> ino T' = ino T)
      else (\<exists>C S. n = rt S \<and> p = ctx_par C \<and> S \<noteq> Lf \<and> lacking t' C S \<and> ino (plug C S) = ino T \<and>
        (col S = RB_RED \<or> length C < len))))"

lemma turnedI:
  assumes "r = Some (t', n, p, left)" and "same_outside T t t'"
    and "if left then n = rb_root t' \<and> (\<exists>T'. tree_is t' T' \<and> is_rbt T' \<and> ino T' = ino T)
      else (\<exists>C S. n = rt S \<and> p = ctx_par C \<and> S \<noteq> Lf \<and> lacking t' C S \<and> ino (plug C S) = ino T \<and>
        (col S = RB_RED \<or> length C < len))"
  shows "turned len T t r"
  using assms unfolding turned_def by blast

lemma turned_trans:
  assumes "turned len T1 t1 r" and "same_outside T t t1" and "ino T1 = ino T"
  shows "turned len T t r"
proof -
  obtain t' n p left where r: "r = Some (t', n, p, left)" "same_outside T1 t1 t'"
    "if left then n = rb_root t' \<and> (\<exists>T'. tree_is t' T' \<and> is_rbt T' \<and> ino T' = ino T1)
      else (\<exists>C S. n = rt S \<and> p = ctx_par C \<and> S \<noteq> Lf \<and> lacking t' C S \<and> ino (plug C S) = ino T1 \<and>
        (col S = RB_RED \<or> length C < len))"
    using assms(1) unfolding turned_def by blast
  have "same_outside T t t'" using same_outside_trans [OF assms(2)] r(2) same_outside_ino [OF assms(3)] by simp
  from turnedI [OF r(1) this r(3) [unfolded assms(3)]] show ?thesis .
qed

text \<open>The sibling is black.\<close>

lemma read_other:
  assumes "tree_is t (plug C (Nd S a k c (Nd sl b kb RB_BLACK sr)))"
  shows "GET_L t b = Some (rt sl)" "GET_R t b = Some (rt sr)" "is_black t (rt sl) = Some (col sl = RB_BLACK)"
    "is_black t (rt sr) = Some (col sr = RB_BLACK)"
proof -
  have T: "tree_is t (plug (FR S a k c # C) (Nd sl b kb RB_BLACK sr))" using assms by simp
  show "GET_L t b = Some (rt sl)" "GET_R t b = Some (rt sr)" using node_at [OF T] by (simp_all add: GET_L_def GET_R_def)
  show "is_black t (rt sl) = Some (col sl = RB_BLACK)" by (rule is_black_at [of t "FL b kb RB_BLACK sr # FR S a k c # C"]) (use T in simp)
  show "is_black t (rt sr) = Some (col sr = RB_BLACK)" by (rule is_black_at [of t "FR sl b kb RB_BLACK # FR S a k c # C"]) (use T in simp)
qed

lemma both_black:
  assumes "lacking t (FL a k c (Nd sl b kb RB_BLACK sr) # C) S" and "col S = RB_BLACK" "col sl = RB_BLACK" "col sr = RB_BLACK"
    and "c = RB_RED \<or> length C < len"
  shows "turned len (plug (FL a k c (Nd sl b kb RB_BLACK sr) # C) S) t (settle_left a b t)"
proof -
  let ?S' = "Nd S a k c (Nd sl b kb RB_RED sr)"
  have T: "tree_is t (plug C (Nd S a k c (Nd sl b kb RB_BLACK sr)))" "tree_is t (plug (FR S a k c # C) (Nd sl b kb RB_BLACK sr))"
    using assms(1) by (simp_all add: lacking_def)
  obtain t' where t': "SET_COLOR b RB_RED t = Some t'" "tree_is t' (plug C ?S')" "same_outside (plug C (Nd S a k c (Nd sl b kb RB_BLACK sr))) t t'"
    "ino (plug C ?S') = ino (plug C (Nd S a k c (Nd sl b kb RB_BLACK sr)))"
    using doesD [OF does_color T(2), of RB_RED] by auto
  have "GET_PARENT t' a = Some (ctx_par C)" using node_at [OF t'(2)] by (simp add: GET_PARENT_def)
  then have "settle_left a b t = Some (t', a, ctx_par C, False)"
    using read_other [OF T(1)] t'(1) assms(3,4) by (simp add: settle_left_def)
  moreover have "invrb S" using assms(1,2) by (cases S) (auto simp: lacking_def)
  then have "lacking t' C ?S'" using assms t'(2) by (auto simp: lacking_def)
  ultimately show ?thesis
    using t'(3,4) assms(5) unfolding turned_def by (intro exI [of _ t'] exI [of _ a] exI [of _ "ctx_par C"] exI [of _ False]) force
qed

text \<open>The rotation that ends the loop.\<close>

lemma far_red:
  assumes "tree_is t (plug C (Nd S a k c (Nd sl b kb cb (Nd x d kd cd y))))"
  shows "\<exists>t'. do {
       pc \<leftarrow> GET_COLOR t a; t \<leftarrow> SET_COLOR b pc t; t \<leftarrow> SET_COLOR a RB_BLACK t;
       far \<leftarrow> GET_R t b; t \<leftarrow> SET_COLOR far RB_BLACK t; t \<leftarrow> rb_rotate_left a t;
       Some (t, rb_root t, a, True) } = Some (t', rb_root t', a, True) \<and>
     tree_is t' (plug C (Nd (Nd S a k RB_BLACK sl) b kb c (Nd x d kd RB_BLACK y))) \<and>
     same_outside (plug C (Nd S a k c (Nd sl b kb cb (Nd x d kd cd y)))) t t'"
proof -
  let ?T = "plug C (Nd S a k c (Nd sl b kb cb (Nd x d kd cd y)))"
  obtain t1 where 1: "Option.bind (SET_COLOR b c t) (SET_COLOR a RB_BLACK) = Some t1" "same_outside ?T t t1"
    "tree_is t1 (plug C (Nd S a k RB_BLACK (Nd sl b kb c (Nd x d kd cd y))))"
    "ino (plug C (Nd S a k RB_BLACK (Nd sl b kb c (Nd x d kd cd y)))) = ino ?T"
    using doesD [OF does_bind [OF does_color [of "FR S a k c # C" sl b kb cb "Nd x d kd cd y" c, simplified] does_color] assms] by blast
  have "GET_COLOR t a = Some c" using node_at [OF assms] by (simp add: GET_COLOR_def)
  moreover have "GET_R t1 b = Some d"
    using node_at [of t1 "FR S a k RB_BLACK # C" sl b kb c "Nd x d kd cd y"] 1(3) by (simp add: GET_R_def)
  moreover obtain t2 where "Option.bind (SET_COLOR d RB_BLACK t1) (rb_rotate_left a) = Some t2"
    "tree_is t2 (plug C (Nd (Nd S a k RB_BLACK sl) b kb c (Nd x d kd RB_BLACK y)))" "same_outside ?T t1 t2"
    using doesD [OF does_bind [OF does_color [of "FR sl b kb c # FR S a k RB_BLACK # C" x d kd cd y RB_BLACK, simplified] does_left] 1(3)]
      same_outside_ino [OF 1(4)] by auto
  ultimately show ?thesis using 1 same_outside_trans [OF 1(2)] by (auto simp: Option.bind_eq_Some_conv)
qed

lemma settled:
  assumes "lacking t (FL a k c (Nd sl b kb RB_BLACK sr) # C) S" and "col S = RB_BLACK"
    and "settle_left a b t = Some (t', rb_root t', a, True)" and "tree_is t' (plug C (Nd (Nd S a k RB_BLACK u) e ke c (Nd v f kf RB_BLACK w)))"
    and "same_outside (plug C (Nd S a k c (Nd sl b kb RB_BLACK sr))) t t'"
    and "ino (plug C (Nd (Nd S a k RB_BLACK u) e ke c (Nd v f kf RB_BLACK w))) = ino (plug C (Nd S a k c (Nd sl b kb RB_BLACK sr)))"
    and "invrb u" "bh u = bh S" "invrb v" "invrb w" "bh v = bh S" "bh w = bh S"
  shows "turned len (plug (FL a k c (Nd sl b kb RB_BLACK sr) # C) S) t (settle_left a b t)"
proof -
  have "invrb S" using assms(1,2) by (cases S) (auto simp: lacking_def)
  then have "is_rbt (plug C (Nd (Nd S a k RB_BLACK u) e ke c (Nd v f kf RB_BLACK w)))"
    using assms by (intro plug_rbt) (auto simp: lacking_def)
  then show ?thesis
    using assms(3-6) unfolding turned_def
    by (intro exI [of _ t'] exI [of _ "rb_root t'"] exI [of _ a] exI [of _ True]) auto
qed

lemma settle_far:
  assumes "lacking t (FL a k c (Nd sl b kb RB_BLACK sr) # C) S" and "col S = RB_BLACK" "col sr = RB_RED"
  shows "turned len (plug (FL a k c (Nd sl b kb RB_BLACK sr) # C) S) t (settle_left a b t)"
proof -
  obtain x d kd y where sr: "sr = Nd x d kd RB_RED y" using assms(3) by (cases sr) auto
  have T: "tree_is t (plug C (Nd S a k c (Nd sl b kb RB_BLACK sr)))" using assms(1) by (simp add: lacking_def)
  obtain t' where t': "do {
       pc \<leftarrow> GET_COLOR t a; t \<leftarrow> SET_COLOR b pc t; t \<leftarrow> SET_COLOR a RB_BLACK t;
       far \<leftarrow> GET_R t b; t \<leftarrow> SET_COLOR far RB_BLACK t; t \<leftarrow> rb_rotate_left a t;
       Some (t, rb_root t, a, True) } = Some (t', rb_root t', a, True)"
     "tree_is t' (plug C (Nd (Nd S a k RB_BLACK sl) b kb c (Nd x d kd RB_BLACK y)))"
     "same_outside (plug C (Nd S a k c (Nd sl b kb RB_BLACK sr))) t t'"
    using far_red T unfolding sr by blast
  have "settle_left a b t = Some (t', rb_root t', a, True)"
    unfolding settle_left_def using read_other [OF T] t'(1) assms(3) by simp
  then show ?thesis
    by (rule settled [OF assms(1,2) _ t'(2,3)]) (use assms(1) sr in \<open>auto simp: lacking_def intro!: ino_plug\<close>)
qed

lemma settle_near:
  assumes "lacking t (FL a k c (Nd sl b kb RB_BLACK sr) # C) S" and "col S = RB_BLACK" "col sr = RB_BLACK" "col sl = RB_RED"
  shows "turned len (plug (FL a k c (Nd sl b kb RB_BLACK sr) # C) S) t (settle_left a b t)"
proof -
  obtain x d kd y where sl: "sl = Nd x d kd RB_RED y" using assms(4) by (cases sl) auto
  let ?T = "plug C (Nd S a k c (Nd sl b kb RB_BLACK sr))"
  have T: "tree_is t ?T" using assms(1) by (simp add: lacking_def)
  obtain t1 where 1: "Option.bind (Option.bind (SET_COLOR d RB_BLACK t) (SET_COLOR b RB_RED)) (rb_rotate_right b) = Some t1"
    "tree_is t1 (plug C (Nd S a k c (Nd x d kd RB_BLACK (Nd y b kb RB_RED sr))))" "same_outside ?T t t1"
    "ino (plug C (Nd S a k c (Nd x d kd RB_BLACK (Nd y b kb RB_RED sr)))) = ino ?T"
    using doesD [OF does_bind [OF does_bind [OF does_color [of "FL b kb RB_BLACK sr # FR S a k c # C" x d kd RB_RED y RB_BLACK, simplified]
        does_color [of "FR S a k c # C" "Nd x d kd RB_BLACK y" b kb RB_BLACK sr RB_RED, simplified]]
        does_right [of "FR S a k c # C" x d kd RB_BLACK y b kb RB_RED sr, simplified]] T [unfolded sl]] sl by auto
  have g: "GET_R t1 a = Some d" using node_at [OF 1(2)] by (simp add: GET_R_def)
  obtain t' where t': "do {
       pc \<leftarrow> GET_COLOR t1 a; t \<leftarrow> SET_COLOR d pc t1; t \<leftarrow> SET_COLOR a RB_BLACK t;
       far \<leftarrow> GET_R t d; t \<leftarrow> SET_COLOR far RB_BLACK t; t \<leftarrow> rb_rotate_left a t;
       Some (t, rb_root t, a, True) } = Some (t', rb_root t', a, True)"
     "tree_is t' (plug C (Nd (Nd S a k RB_BLACK x) d kd c (Nd y b kb RB_BLACK sr)))"
     "same_outside ?T t1 t'"
    using far_red [OF 1(2)] same_outside_ino [OF 1(4)] by auto
  have "settle_left a b t = Some (t', rb_root t', a, True)"
    unfolding settle_left_def using read_other [OF T] 1(1) g t'(1) assms(3,4) sl by (auto simp: Option.bind_eq_Some_conv)
  then show ?thesis
    by (rule settled [OF assms(1,2) _ t'(2) same_outside_trans [OF 1(3) t'(3)]]) (use assms(1) sl in \<open>auto simp: lacking_def intro!: ino_plug\<close>)
qed

lemma settle_turned:
  assumes "lacking t (FL a k c (Nd sl b kb RB_BLACK sr) # C) S" and "col S = RB_BLACK" and "c = RB_RED \<or> length C < len"
  shows "turned len (plug (FL a k c (Nd sl b kb RB_BLACK sr) # C) S) t (settle_left a b t)"
proof -
  have "invrb sl" "invrb sr" using assms(1) by (auto simp: lacking_def)
  then consider "col sr = RB_RED" | "col sr = RB_BLACK" "col sl = RB_RED" | "col sr = RB_BLACK" "col sl = RB_BLACK"
    using invrb_col by blast
  then show ?thesis using settle_far settle_near both_black assms by cases auto
qed

text \<open>A red sibling is rotated away first; the parent is then red, so that the loop ends with the
  node that it recolours.\<close>

lemma left_turned:
  assumes "lacking t (FL a k c s # C) S" and "col S = RB_BLACK"
  shows "turned (Suc (length C)) (plug (FL a k c s # C) S) t (Option.bind (red_other_left a t) (\<lambda>(t, other). settle_left a other t))"
proof -
  obtain sl b kb cb sr where s: "s = Nd sl b kb cb sr" using assms(1) by (cases s) (auto simp: lacking_def)
  have T: "tree_is t (plug C (Nd S a k c s))" using assms(1) by (simp add: lacking_def)
  have o: "GET_R t a = Some b" "GET_COLOR t b = Some cb"
    using node_at [OF T] node_at [of t "FR S a k c # C" sl b kb cb sr] T s by (simp_all add: GET_R_def GET_COLOR_def)
  have "cb = RB_BLACK \<or> cb = RB_RED" using assms(1) s by (auto simp: lacking_def)
  then show ?thesis
  proof
    assume "cb = RB_BLACK"
    then show ?thesis using settle_turned [of t a k c sl b kb sr C S] assms o s by (simp add: red_other_left_def)
  next
    assume cb: "cb = RB_RED"
    then have c: "c = RB_BLACK" using assms(1) s by (auto simp: lacking_def)
    let ?T1 = "plug C (Nd (Nd S a k RB_RED sl) b kb RB_BLACK sr)"
    obtain t1 where 1: "Option.bind (Option.bind (SET_COLOR b RB_BLACK t) (SET_COLOR a RB_RED)) (rb_rotate_left a) = Some t1"
      "tree_is t1 ?T1" "same_outside (plug C (Nd S a k c s)) t t1" "ino ?T1 = ino (plug C (Nd S a k c s))"
      using doesD [OF does_bind [OF does_bind [OF does_color [of "FR S a k c # C" sl b kb cb sr RB_BLACK, simplified]
          does_color [of C S a k c "Nd sl b kb RB_BLACK sr" RB_RED]] does_left] T [unfolded s]] s by auto
    obtain l d kd r where sl: "sl = Nd l d kd RB_BLACK r" using assms(1) s cb by (cases sl) (auto simp: lacking_def)
    have "lacking t1 (FL a k RB_RED sl # FL b kb RB_BLACK sr # C) S"
      using assms(1) 1(2) s cb c by (auto simp: lacking_def)
    then have "turned (Suc (length C)) ?T1 t1 (settle_left a d t1)"
      using settle_turned [of t1 a k RB_RED l d kd r "FL b kb RB_BLACK sr # C" S "Suc (length C)"] assms(2) sl by simp
    moreover have "GET_R t1 a = Some d"
      using node_at [of t1 "FL b kb RB_BLACK sr # C" S a k RB_RED sl] 1(2) sl by (simp add: GET_R_def)
    then have "red_other_left a t = Some (t1, d)" using o cb 1(1) by (auto simp: red_other_left_def Option.bind_eq_Some_conv)
    ultimately show ?thesis using turned_trans [OF _ 1(3,4)] by simp
  qed
qed

subsection \<open>The mirror image\<close>

fun mirror_p :: "ptree \<Rightarrow> ptree" where
  "mirror_p Lf = Lf"
| "mirror_p (Nd l a k c r) = Nd (mirror_p r) a k c (mirror_p l)"

fun mirror_f :: "frame \<Rightarrow> frame" where
  "mirror_f (FL a k c r) = FR (mirror_p r) a k c"
| "mirror_f (FR l a k c) = FL a k c (mirror_p l)"

definition mirror_node :: "rb_node \<Rightarrow> rb_node" where
  "mirror_node x = x\<lparr>rb_L := rb_R x, rb_R := rb_L x\<rparr>"

definition mirror :: "rb_tree \<Rightarrow> rb_tree" where
  "mirror t = t\<lparr>rb_mem := (\<lambda>n. map_option mirror_node (rb_mem t n))\<rparr>"

lemma mirror_p_props [simp]:
  "mirror_p (mirror_p T) = T" "rt (mirror_p T) = rt T" "col (mirror_p T) = col T" "mirror_p T = Lf \<longleftrightarrow> T = Lf"
  "addrs (mirror_p T) = rev (addrs T)" "ino (mirror_p T) = rev (ino T)"
  by (induction T) auto

lemma bh_mirror_p [simp]: "invrb T \<Longrightarrow> bh (mirror_p T) = bh T"
  by (induction T) auto

lemma invrb_mirror [simp]: "invrb (mirror_p T) \<longleftrightarrow> invrb T"
proof -
  have "invrb T \<Longrightarrow> invrb (mirror_p T)" for T by (induction T) auto
  from this [of T] this [of "mirror_p T"] show ?thesis by auto
qed

lemma mirror_node_props [simp]:
  "rb_L (mirror_node x) = rb_R x" "rb_R (mirror_node x) = rb_L x" "rb_parent (mirror_node x) = rb_parent x"
  "rb_color (mirror_node x) = rb_color x" "rb_key (mirror_node x) = rb_key x" "mirror_node (mirror_node x) = x"
  "mirror_node \<lparr>rb_key = k, rb_parent = p, rb_color = c, rb_L = l, rb_R = r\<rparr> = \<lparr>rb_key = k, rb_parent = p, rb_color = c, rb_L = r, rb_R = l\<rparr>"
  by (simp_all add: mirror_node_def)

lemma mirror_mirror [simp]: "mirror (mirror t) = t"
  by (simp add: mirror_def option.map_comp comp_def option.map_ident)

lemma rb_root_mirror [simp]: "rb_root (mirror t) = rb_root t"
  by (simp add: mirror_def)

lemma holds_mirror: "holds s p T \<Longrightarrow> holds (\<lambda>n. map_option mirror_node (s n)) p (mirror_p T)"
  by (induction T arbitrary: p) auto

lemma tree_is_mirror: "tree_is (mirror t) (mirror_p T) \<longleftrightarrow> tree_is t T"
proof -
  have "tree_is t T \<Longrightarrow> tree_is (mirror t) (mirror_p T)" for t T
    using holds_mirror by (auto simp: tree_is_def mirror_def)
  from this [of t T] this [of "mirror t" "mirror_p T"] show ?thesis by auto
qed

lemma plug_mirror: "plug (map mirror_f C) (mirror_p S) = mirror_p (plug C S)"
  by (induction C S rule: plug.induct) auto

lemma ctx_mirror [simp]: "ctx_par (map mirror_f C) = ctx_par C" "ctx_col (map mirror_f C) = ctx_col C"
  by (cases C rule: ctx_par.cases; simp)+

lemma cvalid_mirror: "cvalid C h \<Longrightarrow> cvalid (map mirror_f C) h"
  by (induction C h rule: cvalid.induct) auto

lemma is_rbt_mirror [simp]: "is_rbt (mirror_p T) \<longleftrightarrow> is_rbt T"
  by (simp add: is_rbt_def)

lemma blacken_mirror: "blacken (mirror_p S) = mirror_p (blacken S)"
  by (cases S) auto

lemma bh_blacken: "invrb (blacken S) \<Longrightarrow> bh (mirror_p S) = bh S"
  by (cases S) auto

lemma lacking_mirror: "lacking t C S \<Longrightarrow> lacking (mirror t) (map mirror_f C) (mirror_p S)"
  by (simp add: lacking_def plug_mirror tree_is_mirror blacken_mirror bh_blacken cvalid_mirror)

lemma same_outside_mirror: "same_outside T t t' \<Longrightarrow> same_outside (mirror_p T) (mirror t) (mirror t')"
  by (simp add: same_outside_def mirror_def)

definition mirror_res :: "(rb_tree \<times> 'a) \<Rightarrow> (rb_tree \<times> 'a)" where
  "mirror_res = apfst mirror"

lemma turned_mirror:
  assumes "turned len T t r"
  shows "turned len (mirror_p T) (mirror t) (map_option mirror_res r)"
proof -
  obtain t' n p left where r: "r = Some (t', n, p, left)" "same_outside T t t'"
    and c: "if left then n = rb_root t' \<and> (\<exists>T'. tree_is t' T' \<and> is_rbt T' \<and> ino T' = ino T)
      else (\<exists>C S. n = rt S \<and> p = ctx_par C \<and> S \<noteq> Lf \<and> lacking t' C S \<and> ino (plug C S) = ino T \<and>
        (col S = RB_RED \<or> length C < len))"
    using assms unfolding turned_def by blast
  show ?thesis
  proof (rule turnedI [where t' = "mirror t'" and n = n and p = p and left = left])
    show "map_option mirror_res r = Some (mirror t', n, p, left)" using r(1) by (simp add: mirror_res_def)
    show "same_outside (mirror_p T) (mirror t) (mirror t')" using r(2) by (rule same_outside_mirror)
    show "if left then n = rb_root (mirror t') \<and> (\<exists>T'. tree_is (mirror t') T' \<and> is_rbt T' \<and> ino T' = ino (mirror_p T))
      else (\<exists>C S. n = rt S \<and> p = ctx_par C \<and> S \<noteq> Lf \<and> lacking (mirror t') C S \<and> ino (plug C S) = ino (mirror_p T) \<and>
        (col S = RB_RED \<or> length C < len))"
    proof (cases left)
      case True
      then obtain T' where "n = rb_root t'" "tree_is t' T'" "is_rbt T'" "ino T' = ino T" using c by auto
      then show ?thesis using True tree_is_mirror [of t' T'] by (auto intro!: exI [of _ "mirror_p T'"])
    next
      case False
      then obtain C S where "n = rt S" "p = ctx_par C" "S \<noteq> Lf" "lacking t' C S" "ino (plug C S) = ino T" "col S = RB_RED \<or> length C < len"
        using c by auto
      then show ?thesis using False lacking_mirror [of t' C S]
        by (auto intro!: exI [of _ "map mirror_f C"] exI [of _ "mirror_p S"] simp: plug_mirror)
    qed
  qed
qed

lemma mirror_get [simp]:
  "GET_L (mirror t) n = GET_R t n" "GET_R (mirror t) n = GET_L t n" "GET_PARENT (mirror t) n = GET_PARENT t n"
  "GET_COLOR (mirror t) n = GET_COLOR t n" "is_black (mirror t) n = is_black t n"
  by (simp_all add: mirror_def rb_ops is_black_def bind_map_option comp_def)

lemma upd_node_mirror: "(\<And>x. f (mirror_node x) = mirror_node (g x)) \<Longrightarrow> upd_node f n (mirror t) = map_option mirror (upd_node g n t)"
  by (cases "rb_mem t n") (auto simp: upd_node_def mirror_def fun_eq_iff)

lemma mirror_set [simp]:
  "SET_L n c (mirror t) = map_option mirror (SET_R n c t)" "SET_R n c (mirror t) = map_option mirror (SET_L n c t)"
  "SET_PARENT n c (mirror t) = map_option mirror (SET_PARENT n c t)" "SET_COLOR n c (mirror t) = map_option mirror (SET_COLOR n c t)"
  "mirror t\<lparr>rb_root := c\<rparr> = mirror (t\<lparr>rb_root := c\<rparr>)"
  unfolding SET_L_def SET_R_def SET_PARENT_def SET_COLOR_def
  by (rule upd_node_mirror, simp add: mirror_node_def)+ (simp add: mirror_def)

lemma bind_if: "Option.bind (if b then x else y) f = (if b then Option.bind x f else Option.bind y f)"
  by simp

lemmas mirror_push = bind_map_option map_option_bind comp_def bind_if if_distrib [of "map_option mirror"]
  if_distrib [of "map_option mirror_res"]

lemma rotate_mirror [simp]: "rb_rotate_right n (mirror t) = map_option mirror (rb_rotate_left n t)"
  unfolding rb_rotate_right_def rb_rotate_left_def by (simp add: mirror_push cong: if_cong)

lemma rotate_mirror' [simp]: "rb_rotate_left n (mirror t) = map_option mirror (rb_rotate_right n t)"
  using rotate_mirror [of n "mirror t"] by (simp add: option.map_comp comp_def option.map_ident)

lemma mirror_res_pair [simp]: "mirror_res (t, x) = (mirror t, x)"
  by (simp add: mirror_res_def)

lemma red_other_mirror: "red_other_right p (mirror t) = map_option mirror_res (red_other_left p t)"
  unfolding red_other_right_def red_other_left_def by (simp add: mirror_push cong: if_cong)

lemma settle_mirror: "settle_right p b (mirror t) = map_option mirror_res (settle_left p b t)"
proof (cases "rb_mem t b")
  case None
  then have "GET_L t b = None" "GET_R t b = None" by (simp_all add: GET_L_def GET_R_def)
  then show ?thesis by (simp add: settle_right_def settle_left_def)
next
  case (Some x)
  then have g: "GET_L t b = Some (rb_L x)" "GET_R t b = Some (rb_R x)" by (simp_all add: GET_L_def GET_R_def)
  show ?thesis
    by (cases "is_black t (rb_L x)"; cases "is_black t (rb_R x)")
      (simp_all add: settle_right_def settle_left_def g conj_commute mirror_push cong: if_cong)
qed

lemma right_turned:
  assumes "lacking t (FR s a k c # C) S" and "col S = RB_BLACK"
  shows "turned (Suc (length C)) (plug (FR s a k c # C) S) t (Option.bind (red_other_right a t) (\<lambda>(t, other). settle_right a other t))"
proof -
  let ?r = "Option.bind (red_other_left a (mirror t)) (\<lambda>(t, other). settle_left a other t)"
  have "turned (Suc (length C)) (mirror_p (plug (FR s a k c # C) S)) (mirror t) ?r"
    using left_turned [of "mirror t" a k c "mirror_p s" "map mirror_f C" "mirror_p S"] lacking_mirror [OF assms(1)] assms(2)
      plug_mirror [of "FR s a k c # C" S] by simp
  from turned_mirror [OF this]
  have "turned (Suc (length C)) (plug (FR s a k c # C) S) t (map_option mirror_res ?r)" by simp
  moreover have "map_option mirror_res ?r = Option.bind (red_other_right a t) (\<lambda>(t, other). settle_right a other t)"
    using red_other_mirror [of a "mirror t"] settle_mirror [of a _ "mirror _"]
    by (cases "red_other_left a (mirror t)") (auto simp: settle_mirror)
  ultimately show ?thesis by simp
qed

subsection \<open>The loop\<close>

lemma step_turned:
  assumes "lacking t C S" and "col S = RB_BLACK" and "C \<noteq> []"
  shows "turned (length C) (plug C S) t (remove_fixup_step t (rt S) (ctx_par C))"
proof -
  have T: "tree_is t (plug C S)" using assms(1) by (simp add: lacking_def)
  show ?thesis
  proof (cases C rule: ctx_par.cases)
    case (2 a k c s D)
    then have "GET_L t a = Some (rt S)" using node_at [of t D S a k c s] T by (simp add: GET_L_def)
    then show ?thesis using left_turned [of t a k c s D S] assms 2 by (simp add: remove_fixup_step_def)
  next
    case (3 s a k c D)
    then have g: "GET_L t a = Some (rt s)" using node_at [of t D s a k c S] T by (simp add: GET_L_def)
    obtain sl b kb cb sr where s: "s = Nd sl b kb cb sr" using assms(1) 3 by (cases s) (auto simp: lacking_def)
    moreover have "rt S \<noteq> b" using T 3 s rt_in [of S] unfolding tree_is_def holds_plug distinct_plug by auto
    ultimately show ?thesis using right_turned [of t s a k c D S] assms 3 g by (simp add: remove_fixup_step_def)
  qed (use assms(3) in simp)
qed

definition repaired :: "rb_tree \<Rightarrow> ptree \<Rightarrow> rb_tree option \<Rightarrow> bool" where
  "repaired t T r \<longleftrightarrow> (\<exists>t' T'. r = Some t' \<and> tree_is t' T' \<and> is_rbt T' \<and> ino T' = ino T \<and> same_outside T t t')"

lemma repaired_trans:
  "repaired t1 T1 r \<Longrightarrow> same_outside T t t1 \<Longrightarrow> ino T1 = ino T \<Longrightarrow> repaired t T r"
  unfolding repaired_def using same_outside_ino same_outside_trans by metis

text \<open>At the root, or at a red node, the last assignment is enough.\<close>

lemma fixup_ends:
  assumes "lacking t C S" and "col S = RB_RED \<or> C = []"
  shows "repaired t (plug C S) (rb_remove_fixup t (rt S) p)"
proof -
  have T: "tree_is t (plug C S)" using assms(1) by (simp add: lacking_def)
  have "is_black t (rt S) = Some (col S = RB_BLACK)" using is_black_at [OF T] .
  moreover have "rt S = rb_root t" if "C = []" using T that by (simp add: tree_is_def)
  ultimately have loop: "remove_fixup_loop t (rt S) p = Some (t, rt S)"
    using assms(2) by (subst remove_fixup_loop.simps) auto
  show ?thesis
  proof (cases S)
    case Lf
    then have "C = []" using assms(2) by simp
    then show ?thesis using Lf T loop by (auto simp: repaired_def rb_remove_fixup_def is_rbt_def same_outside_def)
  next
    case (Nd l a k c r)
    obtain t' where t': "SET_COLOR a RB_BLACK t = Some t'" "tree_is t' (plug C (blacken S))" "same_outside (plug C S) t t'"
      "ino (plug C (blacken S)) = ino (plug C S)" using doesD [OF does_color, of t C l a k c r RB_BLACK] T Nd by auto
    have "is_rbt (plug C (blacken S))"
      using assms Nd by (intro plug_rbt) (auto simp: lacking_def)
    moreover have "rb_remove_fixup t (rt S) p = Some t'"
      using loop t'(1) node_at [of t C l a k c r] T Nd by (simp add: rb_remove_fixup_def)
    ultimately show ?thesis using t' by (auto simp: repaired_def)
  qed
qed

lemma root_blackened:
  assumes "tree_is t T" and "is_rbt T"
  shows "repaired t T (if rb_root t \<noteq> 0 then SET_COLOR (rb_root t) RB_BLACK t else Some t)"
proof (cases T)
  case Lf
  then have "rb_root t = 0" using assms(1) by (simp add: tree_is_def)
  then show ?thesis using assms by (auto simp: repaired_def same_outside_def)
next
  case (Nd l a k c r)
  then have "c = RB_BLACK" "rb_root t = a" "a \<noteq> 0" using assms by (auto simp: is_rbt_def tree_is_def)
  then obtain t' where "SET_COLOR a RB_BLACK t = Some t'" "tree_is t' T" "same_outside T t t'"
    using doesD [OF does_color [of "[]" l a k c r RB_BLACK], of t] assms Nd by auto
  then show ?thesis using assms(2) \<open>rb_root t = a\<close> \<open>a \<noteq> 0\<close> by (auto simp: repaired_def)
qed

lemma fixup_unfold:
  assumes "lacking t C S" and "col S = RB_BLACK" and "C \<noteq> []" and "remove_fixup_step t (rt S) (ctx_par C) = Some (t', n, p, left)"
  shows "rb_remove_fixup t (rt S) (ctx_par C) =
    (if left then if n \<noteq> 0 then SET_COLOR n RB_BLACK t' else Some t' else rb_remove_fixup t' n p)"
proof -
  have T: "tree_is t (plug C S)" using assms(1) by (simp add: lacking_def)
  have "rt S \<noteq> rb_root t"
  proof (cases S)
    case Lf
    have "plug C S \<noteq> Lf" using assms(3) set_plug [of C S] ctx_par_in [of C] by (cases C rule: ctx_par.cases) auto
    then show ?thesis using T Lf holds_rt [of "rb_mem t" 0 "plug C S"] by (auto simp: tree_is_def)
  next
    case (Nd l a k c r)
    have "rt (plug C S) = rt (plug C Lf)" by (rule rt_plug [OF assms(3)])
    moreover have "rt (plug C Lf) = 0 \<or> rt (plug C Lf) \<in> set (ctx_addrs C)" using rt_in [of "plug C Lf"] by (auto simp: set_plug)
    ultimately show ?thesis using T Nd node_at [of t C l a k c r] unfolding tree_is_def distinct_plug by auto
  qed
  then have "remove_fixup_loop t (rt S) (ctx_par C) = (if left then Some (t', n) else remove_fixup_loop t' n p)"
    using is_black_at [OF T] assms(2,4) by (subst remove_fixup_loop.simps) simp
  then show ?thesis by (simp add: rb_remove_fixup_def)
qed

lemma fixup_repairs: "lacking t C S \<Longrightarrow> repaired t (plug C S) (rb_remove_fixup t (rt S) (ctx_par C))"
proof (induction "length C" arbitrary: t C S rule: less_induct)
  case less
  show ?case
  proof (cases "col S = RB_RED \<or> C = []")
    case True
    then show ?thesis using fixup_ends [OF less.prems] by simp
  next
    case False
    then have S: "col S = RB_BLACK" "C \<noteq> []" using less.prems by (auto simp: lacking_def)
    obtain t' n p left where r: "remove_fixup_step t (rt S) (ctx_par C) = Some (t', n, p, left)" "same_outside (plug C S) t t'"
      and c: "if left then n = rb_root t' \<and> (\<exists>T'. tree_is t' T' \<and> is_rbt T' \<and> ino T' = ino (plug C S))
        else (\<exists>D U. n = rt U \<and> p = ctx_par D \<and> U \<noteq> Lf \<and> lacking t' D U \<and> ino (plug D U) = ino (plug C S) \<and>
          (col U = RB_RED \<or> length D < length C))"
      using step_turned [OF less.prems S] unfolding turned_def by blast
    show ?thesis
    proof (cases left)
      case True
      then obtain T' where T': "n = rb_root t'" "tree_is t' T'" "is_rbt T'" "ino T' = ino (plug C S)" using c by auto
      from repaired_trans [OF root_blackened [OF T'(2,3)] r(2) T'(4)] show ?thesis
        unfolding fixup_unfold [OF less.prems S r(1)] using True T'(1) by (simp split: if_splits)
    next
      case False
      then obtain D U where U: "n = rt U" "p = ctx_par D" "lacking t' D U" "ino (plug D U) = ino (plug C S)" "col U = RB_RED \<or> length D < length C"
        using c by auto
      have "repaired t' (plug D U) (rb_remove_fixup t' n p)"
        using less.hyps [of D t' U] fixup_ends [of t' D U p] U by auto
      from repaired_trans [OF this r(2) U(4)] show ?thesis
        unfolding fixup_unfold [OF less.prems S r(1)] using False by simp
    qed
  qed
qed

subsection \<open>Unlinking\<close>

text \<open>The two kinds of pointer that change: the link from above, and a child's link to its parent.\<close>

definition relink_at :: "frame list \<Rightarrow> nat \<Rightarrow> rb_store \<Rightarrow> rb_store" where
  "relink_at C q s = (\<lambda>m. if m \<noteq> 0 \<and> m = ctx_par C then map_option (relink C q) (s m) else s m)"

definition repar :: "nat \<Rightarrow> nat \<Rightarrow> rb_store \<Rightarrow> rb_store" where
  "repar q x s = (\<lambda>m. if m \<noteq> 0 \<and> m = x then map_option (\<lambda>z. z\<lparr>rb_parent := q\<rparr>) (s m) else s m)"

lemma link_parent:
  assumes "holds_ctx (rb_mem t) a C" and "a \<noteq> 0" and "a \<notin> set (ctx_addrs C)"
  shows "(if ctx_par C \<noteq> 0 then do { pl \<leftarrow> GET_L t (ctx_par C); if pl = a then SET_L (ctx_par C) q t else SET_R (ctx_par C) q t }
      else Some (t\<lparr>rb_root := q\<rparr>)) = Some \<lparr>rb_root = (if C = [] then q else rb_root t), rb_mem = relink_at C q (rb_mem t)\<rparr>"
proof (cases C rule: ctx_par.cases)
  case 1
  then show ?thesis by (auto simp: relink_at_def intro!: rb_tree.equality)
next
  case (2 p k c r D)
  then show ?thesis using assms(1) by (auto simp: relink_at_def relink_def rb_ops fun_eq_iff intro!: rb_tree.equality)
next
  case (3 l p k c D)
  then have "rt l \<noteq> a" using assms(2,3) rt_in [of l] by auto
  then show ?thesis using 3 assms(1) by (auto simp: relink_at_def relink_def rb_ops fun_eq_iff intro!: rb_tree.equality)
qed

lemma set_parent_repar: "x \<noteq> 0 \<Longrightarrow> rb_mem t x = Some z \<Longrightarrow> SET_PARENT x q t = Some (t\<lparr>rb_mem := repar q x (rb_mem t)\<rparr>)"
  by (auto simp: rb_ops repar_def fun_eq_iff intro!: rb_tree.equality)

lemma repar_0 [simp]: "repar q 0 s = s"
  by (simp add: repar_def fun_eq_iff)

lemma holds_ctx_relink_at:
  assumes "holds_ctx s p C" and "distinct (ctx_addrs C)"
  shows "holds_ctx (relink_at C q s) q C"
proof (cases "C = []")
  case False
  then show ?thesis
    using holds_ctx_par [OF assms(1)] by (intro holds_ctx_relink [OF assms(1) False assms(2)]) (auto simp: relink_at_def relink_def [abs_def])
qed simp

lemma relink_at_holds: "holds s p T \<Longrightarrow> ctx_par C = 0 \<or> ctx_par C \<notin> set (addrs T) \<Longrightarrow> holds (relink_at C q s) p T"
  by (rule holds_cong, assumption) (auto simp: relink_at_def)

lemma repar_holds: "holds s p T \<Longrightarrow> x = 0 \<or> x \<notin> set (addrs T) \<Longrightarrow> holds (repar q x s) p T"
  by (rule holds_cong, assumption) (auto simp: repar_def)

lemma repar_holds_ctx: "holds_ctx s p C \<Longrightarrow> x = 0 \<or> x \<notin> set (ctx_addrs C) \<Longrightarrow> holds_ctx (repar q x s) p C"
  by (rule holds_ctx_cong, assumption) (auto simp: repar_def)

lemma repar_moves: "holds s p T \<Longrightarrow> distinct (addrs T) \<Longrightarrow> holds (repar q (rt T) s) q T"
  by (rule holds_reparent, assumption) (auto simp: repar_def dest: holds_rt)

text \<open>A node with one child is replaced by it.\<close>

definition spliced :: "frame list \<Rightarrow> ptree \<Rightarrow> rb_store \<Rightarrow> rb_store" where
  "spliced C X s = relink_at C (rt X) (repar (ctx_par C) (rt X) s)"

lemma spliced_tree:
  assumes "tree_is t (plug C (Nd l a k c r))" and "l = Lf \<and> X = r \<or> r = Lf \<and> X = l"
  shows "tree_is \<lparr>rb_root = (if C = [] then rt X else rb_root t), rb_mem = spliced C X (rb_mem t)\<rparr> (plug C X)"
proof -
  let ?s = "rb_mem t"
  have h: "holds_ctx ?s a C" "holds ?s a X" "?s 0 = None" and root: "rb_root t = rt (plug C (Nd l a k c r))"
    and d: "distinct (ctx_addrs C @ addrs X)"
    using assms by (auto simp: tree_is_def holds_plug distinct_plug)
  have "rt X = 0 \<or> rt X \<notin> set (ctx_addrs C)" using rt_in [of X] d by auto
  then have "holds_ctx (spliced C X ?s) (rt X) C"
    unfolding spliced_def using h(1) d by (intro holds_ctx_relink_at repar_holds_ctx) auto
  moreover have "ctx_par C = 0 \<or> ctx_par C \<notin> set (addrs X)" using ctx_par_in [of C] d by auto
  then have "holds (spliced C X ?s) (ctx_par C) X"
    unfolding spliced_def using repar_moves [OF h(2)] d by (intro relink_at_holds) auto
  moreover have "(if C = [] then rt X else rb_root t) = rt (plug C X)" using root rt_plug [of C X "Nd l a k c r"] by auto
  moreover have "spliced C X ?s 0 = None" using h(3) by (simp add: spliced_def relink_at_def repar_def)
  ultimately show ?thesis using d by (simp add: tree_is_def holds_plug distinct_plug)
qed

lemma unlink_simple_at:
  assumes "tree_is t (plug C (Nd l a k c r))" and "l = Lf \<and> X = r \<or> r = Lf \<and> X = l"
  shows "\<exists>t'. unlink_simple t a (rt X) = Some (t', rt X, ctx_par C, c) \<and> tree_is t' (plug C X) \<and> same_outside (plug C X) t t'"
proof -
  let ?t' = "\<lparr>rb_root = (if C = [] then rt X else rb_root t), rb_mem = spliced C X (rb_mem t)\<rparr>"
  have h: "holds_ctx (rb_mem t) a C" "holds (rb_mem t) a X" "a \<notin> set (ctx_addrs C)" and d: "distinct (ctx_addrs C @ addrs X)"
    using assms by (auto simp: tree_is_def holds_plug distinct_plug)
  have n: "GET_PARENT t a = Some (ctx_par C)" "GET_COLOR t a = Some c" "a \<noteq> 0"
    using node_at [OF assms(1)] by (simp_all add: GET_PARENT_def GET_COLOR_def)
  define t1 where "t1 = t\<lparr>rb_mem := repar (ctx_par C) (rt X) (rb_mem t)\<rparr>"
  have "(if rt X \<noteq> 0 then SET_PARENT (rt X) (ctx_par C) t else Some t) = Some t1"
    using h(2) set_parent_repar [of "rt X" t] by (cases X) (auto simp: t1_def)
  moreover have "holds_ctx (rb_mem t1) a C"
    using rt_in [of X] d by (auto simp: t1_def intro!: repar_holds_ctx [OF h(1)])
  note link_parent [OF this n(3) h(3), of "rt X"]
  ultimately have "unlink_simple t a (rt X) = Some (?t', rt X, ctx_par C, c)"
    unfolding unlink_simple_def n bind.bind_lunit by (simp only: bind.bind_lunit) (simp add: spliced_def t1_def)
  moreover have "same_outside (plug C X) t ?t'"
    using rt_in [of X] ctx_par_in [of C] assms(2) by (auto simp: same_outside_def spliced_def relink_at_def repar_def set_plug)
  ultimately show ?thesis using spliced_tree [OF assms] by blast
qed

text \<open>A node outside of the tree takes the place of one inside.\<close>

definition replaced :: "frame list \<Rightarrow> ptree \<Rightarrow> nat \<Rightarrow> u64 \<Rightarrow> nat \<Rightarrow> ptree \<Rightarrow> rb_store \<Rightarrow> rb_store" where
  "replaced C l n kn c r s = (relink_at C n (repar n (rt r) (repar n (rt l) s)))
    (n \<mapsto> \<lparr>rb_key = kn, rb_parent = ctx_par C, rb_color = c, rb_L = rt l, rb_R = rt r\<rparr>)"

lemma replaced_tree:
  assumes "tree_is t (plug C (Nd l a k c r))" and "n \<noteq> 0" and "n \<notin> set (addrs (plug C (Nd l a k c r)))"
  shows "tree_is \<lparr>rb_root = (if C = [] then n else rb_root t), rb_mem = replaced C l n kn c r (rb_mem t)\<rparr> (plug C (Nd l n kn c r))"
proof -
  let ?s = "rb_mem t" and ?s' = "replaced C l n kn c r (rb_mem t)"
  let ?s1 = "repar n (rt r) (repar n (rt l) ?s)"
  have h: "holds_ctx ?s a C" "holds ?s a l" "holds ?s a r" "?s 0 = None" and root: "rb_root t = rt (plug C (Nd l a k c r))"
    and d: "distinct (ctx_addrs C @ addrs l @ addrs r)"
    and n: "n \<notin> set (ctx_addrs C)" "n \<notin> set (addrs l)" "n \<notin> set (addrs r)"
    using assms by (auto simp: tree_is_def holds_plug distinct_plug set_plug)
  have o: "rt l = 0 \<or> rt l \<notin> set (ctx_addrs C) \<and> rt l \<notin> set (addrs r)" "rt r = 0 \<or> rt r \<notin> set (ctx_addrs C) \<and> rt r \<notin> set (addrs l)"
    "ctx_par C = 0 \<or> ctx_par C \<notin> set (addrs l) \<and> ctx_par C \<notin> set (addrs r)"
    using rt_in [of l] rt_in [of r] ctx_par_in [of C] d by auto
  have up: "holds (s(n := z)) p T" if "holds s p T" "n \<notin> set (addrs T)" for s z p T
    by (rule holds_cong [OF that(1)]) (use that(2) in auto)
  have "holds_ctx (relink_at C n ?s1) n C"
    using h(1) d o by (intro holds_ctx_relink_at repar_holds_ctx) auto
  then have "holds_ctx ?s' n C"
    unfolding replaced_def by (rule holds_ctx_cong) (use n in auto)
  moreover have "holds (repar n (rt r) (repar n (rt l) ?s)) n l"
    by (rule repar_holds [OF repar_moves [OF h(2)]]) (use d o in auto)
  then have "holds ?s' n l" unfolding replaced_def using o n by (intro up relink_at_holds) auto
  moreover have "holds (repar n (rt r) (repar n (rt l) ?s)) n r"
    by (rule repar_moves [OF repar_holds [OF h(3)]]) (use d o in auto)
  then have "holds ?s' n r" unfolding replaced_def using o n by (intro up relink_at_holds) auto
  moreover have "(if C = [] then n else rb_root t) = rt (plug C (Nd l n kn c r))"
    using root rt_plug [of C "Nd l n kn c r" "Nd l a k c r"] by auto
  moreover have "?s' 0 = None" using h(4) assms(2) by (simp add: replaced_def relink_at_def repar_def)
  ultimately show ?thesis using d n assms(2) by (auto simp: tree_is_def holds_plug distinct_plug replaced_def)
qed

lemma plug_append: "plug (D @ E) S = plug E (plug D S)"
  by (induction D S rule: plug.induct) auto

lemma ctx_append:
  "ctx_par (D @ E) = (if D = [] then ctx_par E else ctx_par D)" "ctx_addrs (D @ E) = ctx_addrs D @ ctx_addrs E"
  by (induction D rule: ctx_addrs.induct) auto

fun is_FL :: "frame \<Rightarrow> bool" where
  "is_FL (FL a k c r) \<longleftrightarrow> True"
| "is_FL (FR l a k c) \<longleftrightarrow> False"

lemma leftmost_at:
  "tree_is t (plug C S) \<Longrightarrow> S \<noteq> Lf \<Longrightarrow>
    \<exists>D n k c x. leftmost t (rt S) = Some n \<and> S = plug D (Nd Lf n k c x) \<and> list_all is_FL D"
proof (induction S arbitrary: C)
  case (Nd l a k c r)
  have g: "GET_L t a = Some (rt l)" using node_at [OF Nd.prems(1)] by (simp add: GET_L_def)
  show ?case
  proof (cases "l = Lf")
    case True
    then have "leftmost t a = Some a" using g by (subst leftmost.simps) simp
    then show ?thesis using True by (intro exI [of _ "[]"]) auto
  next
    case False
    have l: "tree_is t (plug (FL a k c r # C) l)" using Nd.prems(1) by simp
    then have "rt l \<noteq> 0" using False holds_rt [of "rb_mem t" a l] by (auto simp: tree_is_def holds_plug)
    then have "leftmost t a = leftmost t (rt l)" using g by (subst leftmost.simps) simp
    moreover obtain D n k' c' x where "leftmost t (rt l) = Some n" "l = plug D (Nd Lf n k' c' x)" "list_all is_FL D"
      using Nd.IH(1) [OF l False] by blast
    ultimately show ?thesis by (intro exI [of _ "D @ [FL a k c r]"] exI [of _ n]) (auto simp: plug_append)
  qed
qed simp

text \<open>The successor of an inner node is unlinked and put in its place.\<close>

definition inner_result :: "rb_tree \<Rightarrow> frame list \<Rightarrow> ptree \<Rightarrow> nat \<Rightarrow> u64 \<Rightarrow> nat \<Rightarrow> frame list \<Rightarrow> nat \<Rightarrow> u64 \<Rightarrow> nat \<Rightarrow> ptree \<Rightarrow> bool" where
  "inner_result t D l a k c C n kn cn x \<longleftrightarrow> (\<exists>t'. unlink_inner t a = Some (t', rt x, ctx_par (D @ FR l n kn c # C), cn) \<and>
     rb_root t' = (if C = [] then n else rb_root t) \<and> rb_mem t' a = rb_mem t a \<and>
     (\<forall>m. m \<noteq> a \<longrightarrow> rb_mem t' m = replaced C l n kn c (plug D x) (spliced (D @ FR l a k c # C) x (rb_mem t)) m))"

lemma inner_direct:
  assumes "tree_is t (plug C (Nd l a k c (Nd Lf n kn cn x)))" and "l \<noteq> Lf" and "leftmost t n = Some n"
  shows "inner_result t [] l a k c C n kn cn x"
proof -
  let ?s = "rb_mem t"
  have h: "holds_ctx ?s a C" "holds ?s a l" "holds ?s n x" "a \<noteq> 0" "n \<noteq> 0"
    and sa: "?s a = Some \<lparr>rb_key = k, rb_parent = ctx_par C, rb_color = c, rb_L = rt l, rb_R = n\<rparr>"
    and sn: "?s n = Some \<lparr>rb_key = kn, rb_parent = a, rb_color = cn, rb_L = 0, rb_R = rt x\<rparr>"
    and d: "distinct (ctx_addrs C @ addrs l @ a # n # addrs x)"
    using assms(1) by (auto simp: tree_is_def holds_plug distinct_plug)
  obtain zl where sl: "?s (rt l) = Some zl" "rt l \<noteq> 0" using h(2) assms(2) by (cases l) auto
  have sx: "rt x \<noteq> 0 \<Longrightarrow> map_option (\<lambda>z. z\<lparr>rb_parent := n\<rparr>) (?s (rt x)) = ?s (rt x)" using h(3) by (cases x) auto
  have o: "a \<noteq> n" "rt l \<noteq> a" "rt l \<noteq> n" "rt x \<noteq> a" "rt x \<noteq> n" "rt x \<noteq> rt l" "ctx_par C \<noteq> a" "ctx_par C \<noteq> n"
    "ctx_par C \<noteq> rt l" "rt x \<noteq> 0 \<Longrightarrow> rt x \<noteq> ctx_par C"
    using d rt_in [of l] rt_in [of x] ctx_par_in [of C] h(4,5) sl(2) by fastforce+
  have ca: "a \<notin> set (ctx_addrs C)" using d by auto
  define t1 where "t1 = \<lparr>rb_root = (if C = [] then n else rb_root t), rb_mem = relink_at C n ?s\<rparr>"
  note lp = link_parent [OF h(1,4) ca, of n, folded t1_def]
  have m1: "rb_mem t1 a = ?s a" "rb_mem t1 n = ?s n" "rb_mem t1 (rt l) = ?s (rt l)" using o by (auto simp: t1_def relink_at_def)
  have g: "GET_R t a = Some n" "GET_PARENT t a = Some (ctx_par C)" using sa by (simp_all add: rb_ops)
  let ?t' = "t1\<lparr>rb_mem := (rb_mem t1)(n \<mapsto> \<lparr>rb_key = kn, rb_parent = ctx_par C, rb_color = c, rb_L = rt l, rb_R = rt x\<rparr>,
      rt l \<mapsto> zl\<lparr>rb_parent := n\<rparr>)\<rparr>"
  have "unlink_inner t a = Some (?t', rt x, n, cn)"
    unfolding unlink_inner_def g bind.bind_lunit assms(3) lp
    using m1 sa sn sl o by (simp add: rb_ops)
  moreover have "rb_mem ?t' m = replaced C l n kn c x (spliced (FR l a k c # C) x ?s) m" if "m \<noteq> a" for m
  proof -
    consider "m = n" | "m = rt l" | "m = rt x" "m \<noteq> 0" | "m = ctx_par C" "m \<noteq> 0" | "m \<notin> {n, rt l, rt x, ctx_par C}" | "m = 0" by auto
    then show ?thesis
      using sl sx o h(4,5) that
      by cases (auto simp: t1_def replaced_def spliced_def relink_at_def repar_def option.map_comp comp_def)
  qed
  moreover have "rb_mem ?t' a = ?s a" using m1 o by simp
  ultimately show ?thesis by (simp add: inner_result_def t1_def)
qed

lemma mem_update_eq: "t\<lparr>rb_mem := M\<rparr> = t\<lparr>rb_mem := M'\<rparr> \<longleftrightarrow> M = M'"
  by (cases t) simp

text \<open>The part of \<open>unlink_inner\<close> that moves a successor \<open>n\<close> deep in the right subtree, whose parent
  is \<open>p\<close> and whose root is \<open>q\<close>.\<close>

lemma inner_deep_steps:
  assumes s: "rb_mem t a = Some \<lparr>rb_key = k, rb_parent = pa, rb_color = c, rb_L = rl, rb_R = q\<rparr>"
      "rb_mem t p = Some \<lparr>rb_key = kp, rb_parent = pp, rb_color = cp, rb_L = n, rb_R = rr\<rparr>"
      "rb_mem t n = Some \<lparr>rb_key = kn, rb_parent = p, rb_color = cn, rb_L = 0, rb_R = rx\<rparr>"
      "rb_mem t q = Some zq" "rb_mem t rl = Some zl" "rx \<noteq> 0 \<Longrightarrow> \<exists>zx. rb_mem t rx = Some zx"
    and o: "a \<noteq> n" "a \<noteq> p" "n \<noteq> p" "a \<noteq> q" "n \<noteq> q" "rl \<noteq> a" "rl \<noteq> n" "rl \<noteq> p" "rl \<noteq> q" "rx \<noteq> a" "rx \<noteq> n" "rx \<noteq> p" "rx \<noteq> rl" "rx \<noteq> q"
      "p \<noteq> 0" "n \<noteq> 0" "q \<noteq> 0" "rl \<noteq> 0"
  shows "do {
      child \<leftarrow> GET_R t n; parent \<leftarrow> GET_PARENT t n; color \<leftarrow> GET_COLOR t n;
      (t, parent) \<leftarrow>
        (if parent = a then Some (t, n)
         else do {
           t \<leftarrow> (if child \<noteq> 0 then SET_PARENT child parent t else Some t);
           t \<leftarrow> SET_L parent child t; oldr \<leftarrow> GET_R t a; t \<leftarrow> SET_R n oldr t; t \<leftarrow> SET_PARENT oldr n t; Some (t, parent) });
      op \<leftarrow> GET_PARENT t a; oc \<leftarrow> GET_COLOR t a; t \<leftarrow> SET_PARENT n op t; t \<leftarrow> SET_COLOR n oc t;
      oldl \<leftarrow> GET_L t a; t \<leftarrow> SET_L n oldl t; t \<leftarrow> SET_PARENT oldl n t;
      Some (t, child, parent, color) } =
    Some (t\<lparr>rb_mem := (repar n rl (repar n q ((repar p rx (rb_mem t))(p \<mapsto> \<lparr>rb_key = kp, rb_parent = pp, rb_color = cp, rb_L = rx, rb_R = rr\<rparr>))))
      (n \<mapsto> \<lparr>rb_key = kn, rb_parent = pa, rb_color = c, rb_L = rl, rb_R = q\<rparr>)\<rparr>, rx, p, cn)"
proof -
  define t2 where "t2 = t\<lparr>rb_mem := repar p rx (rb_mem t)\<rparr>"
  have 2: "(if rx \<noteq> 0 then SET_PARENT rx p t else Some t) = Some t2"
    using s(6) set_parent_repar [of rx t _ p] by (auto simp: t2_def)
  have m2: "rb_mem t2 a = rb_mem t a" "rb_mem t2 p = rb_mem t p" "rb_mem t2 n = rb_mem t n" "rb_mem t2 q = rb_mem t q" "rb_mem t2 rl = rb_mem t rl"
    using o by (auto simp: t2_def repar_def)
  have g: "GET_R t n = Some rx" "GET_PARENT t n = Some p" "GET_COLOR t n = Some cn" using s by (simp_all add: rb_ops)
  show ?thesis
    unfolding g bind.bind_lunit 2 using o s(1-5) m2
    by (cases "p = q") (simp_all add: 2 rb_ops mem_update_eq, auto simp: repar_def t2_def fun_eq_iff mem_update_eq)
qed

lemma inner_deep:
  assumes "tree_is t (plug (FL p kp cp rp # D @ FR l a k c # C) (Nd Lf n kn cn x))" and "l \<noteq> Lf"
    and "leftmost t (rt (plug D (Nd x p kp cp rp))) = Some n"
  shows "inner_result t (FL p kp cp rp # D) l a k c C n kn cn x"
proof -
  let ?s = "rb_mem t" and ?R = "plug D (Nd x p kp cp rp)"
  define q where "q = rt ?R"
  have rt: "rt (plug D (Nd (Nd Lf n kn cn x) p kp cp rp)) = q"
    unfolding q_def using rt_plug [of D "Nd (Nd Lf n kn cn x) p kp cp rp" "Nd x p kp cp rp"] by (cases "D = []") auto
  have T: "tree_is t (plug C (Nd l a k c (plug D (Nd (Nd Lf n kn cn x) p kp cp rp))))" using assms(1) by (simp add: plug_append)
  have h: "holds_ctx ?s a C" "holds ?s a l" "a \<noteq> 0" and sa: "?s a = Some \<lparr>rb_key = k, rb_parent = ctx_par C, rb_color = c, rb_L = rt l, rb_R = q\<rparr>"
    and hr: "holds ?s a (plug D (Nd (Nd Lf n kn cn x) p kp cp rp))"
    using T by (auto simp: tree_is_def holds_plug rt)
  have h': "p \<noteq> 0" "n \<noteq> 0" "holds ?s n x" and sp: "?s p = Some \<lparr>rb_key = kp, rb_parent = ctx_par (D @ FR l a k c # C), rb_color = cp, rb_L = n, rb_R = rt rp\<rparr>"
    and sn: "?s n = Some \<lparr>rb_key = kn, rb_parent = p, rb_color = cn, rb_L = 0, rb_R = rt x\<rparr>"
    using assms(1) by (auto simp: tree_is_def holds_plug)
  have d: "distinct (p # addrs rp @ ctx_addrs D @ a # addrs l @ ctx_addrs C @ n # addrs x)"
    using assms(1) unfolding tree_is_def distinct_plug by (auto simp: ctx_append)
  have "plug D (Nd (Nd Lf n kn cn x) p kp cp rp) \<noteq> Lf" using set_plug [of D "Nd (Nd Lf n kn cn x) p kp cp rp"] by auto
  then have q0: "q \<noteq> 0" using holds_rt [OF hr] rt by simp
  have qin: "q \<in> insert p (set (ctx_addrs D))"
    unfolding q_def using rt_plug [of D "Nd x p kp cp rp" Lf] rt_in [of "plug D Lf"] q0 [unfolded q_def]
    by (cases "D = []") (auto simp: set_plug)
  obtain zq where sq: "?s q = Some zq" using hr q0 rt by (cases "plug D (Nd (Nd Lf n kn cn x) p kp cp rp)") auto
  obtain zl where sl: "?s (rt l) = Some zl" "rt l \<noteq> 0" using h(2) assms(2) by (cases l) auto
  have sx: "rt x \<noteq> 0 \<Longrightarrow> \<exists>zx. ?s (rt x) = Some zx" using h'(3) by (cases x) auto
  have o: "a \<noteq> n" "a \<noteq> p" "n \<noteq> p" "a \<noteq> q" "n \<noteq> q" "rt l \<noteq> a" "rt l \<noteq> n" "rt l \<noteq> p" "rt l \<noteq> q" "rt x \<noteq> a" "rt x \<noteq> n" "rt x \<noteq> p"
    "rt x \<noteq> rt l" "rt x \<noteq> q" "ctx_par C \<noteq> a" "ctx_par C \<noteq> n" "ctx_par C \<noteq> p" "ctx_par C \<noteq> q" "ctx_par C \<noteq> rt l" "rt x \<noteq> 0 \<Longrightarrow> rt x \<noteq> ctx_par C"
    using d qin q0 rt_in [of l] rt_in [of x] ctx_par_in [of C] h(3) h'(1,2) sl(2) by fastforce+
  have ca: "a \<notin> set (ctx_addrs C)" using d by auto
  define t1 where "t1 = \<lparr>rb_root = (if C = [] then n else rb_root t), rb_mem = relink_at C n ?s\<rparr>"
  note lp = link_parent [OF h(1,3) ca, of n, folded t1_def]
  have m1: "rb_mem t1 a = ?s a" "rb_mem t1 p = ?s p" "rb_mem t1 n = ?s n" "rb_mem t1 q = ?s q" "rb_mem t1 (rt l) = ?s (rt l)"
    "rt x \<noteq> 0 \<Longrightarrow> rb_mem t1 (rt x) = ?s (rt x)"
    using o by (auto simp: t1_def relink_at_def)
  have g: "GET_R t a = Some q" "GET_PARENT t a = Some (ctx_par C)" using sa by (simp_all add: rb_ops)
  let ?M = "(repar n (rt l) (repar n q ((repar p (rt x) (rb_mem t1))(p \<mapsto>
      \<lparr>rb_key = kp, rb_parent = ctx_par (D @ FR l a k c # C), rb_color = cp, rb_L = rt x, rb_R = rt rp\<rparr>))))
      (n \<mapsto> \<lparr>rb_key = kn, rb_parent = ctx_par C, rb_color = c, rb_L = rt l, rb_R = q\<rparr>)"
  have "unlink_inner t a = Some (t1\<lparr>rb_mem := ?M\<rparr>, rt x, p, cn)"
    unfolding unlink_inner_def g bind.bind_lunit assms(3) [folded q_def] lp
    by (rule inner_deep_steps [of t1]) (use m1 sa sp sn sq sl sx o h' q0 in auto)
  moreover have "?M m = replaced C l n kn c ?R (spliced (FL p kp cp rp # D @ FR l a k c # C) x ?s) m" if "m \<noteq> a" for m
  proof -
    consider "m = n" | "m = rt l" | "m = rt x" "m \<noteq> 0" | "m = ctx_par C" "m \<noteq> 0" | "m = q" "m = p" | "m = q" "m \<noteq> p" | "m = p" "m \<noteq> q"
      | "m \<notin> {n, rt l, rt x, ctx_par C, p, q}" | "m = 0" by auto
    then show ?thesis
      unfolding replaced_def q_def [symmetric] using sl sp sq o h' q0 that
      by cases (auto simp: t1_def spliced_def relink_at_def relink_def repar_def)
  qed
  moreover have "?M a = ?s a" using o m1(1) by (simp add: repar_def)
  ultimately show ?thesis by (simp add: inner_result_def t1_def)
qed

lemma tree_is_cong:
  assumes "tree_is t T" and "rb_root t' = rb_root t" and "\<And>m. m \<in> insert 0 (set (addrs T)) \<Longrightarrow> rb_mem t' m = rb_mem t m"
  shows "tree_is t' T"
  using assms holds_cong [of "rb_mem t" 0 T "rb_mem t'"] by (auto simp: tree_is_def)

lemma unlink_inner_at:
  assumes "tree_is t (plug C (Nd l a k c r))" and "l \<noteq> Lf" and "r \<noteq> Lf"
  shows "\<exists>D n kn cn x t'. r = plug D (Nd Lf n kn cn x) \<and> ctx_l D = [] \<and>
    unlink_inner t a = Some (t', rt x, ctx_par (D @ FR l n kn c # C), cn) \<and>
    tree_is t' (plug (D @ FR l n kn c # C) x) \<and> same_outside (plug (D @ FR l n kn c # C) x) t t'"
proof -
  have "tree_is t (plug (FR l a k c # C) r)" using assms(1) by simp
  then obtain D n kn cn x where lm: "leftmost t (rt r) = Some n" and r: "r = plug D (Nd Lf n kn cn x)" and fl: "list_all is_FL D"
    using leftmost_at [OF _ assms(3)] by blast
  let ?E = "D @ FR l a k c # C"
  have T: "tree_is t (plug ?E (Nd Lf n kn cn x))" using assms(1) r by (simp add: plug_append)
  have "inner_result t D l a k c C n kn cn x"
  proof (cases D)
    case Nil
    then show ?thesis using inner_direct [of t C l a k c n kn cn x] assms(1,2) r lm by simp
  next
    case (Cons f D')
    then obtain p kp cp rp where f: "f = FL p kp cp rp" using fl by (cases f) auto
    have "rt r = rt (plug D' (Nd x p kp cp rp))"
      using r Cons f rt_plug [of D' "Nd (Nd Lf n kn cn x) p kp cp rp" "Nd x p kp cp rp"] by (cases "D' = []") auto
    then show ?thesis using inner_deep [of t p kp cp rp D' l a k c C n kn cn x] T Cons f assms(2) lm by simp
  qed
  then obtain t' where t': "unlink_inner t a = Some (t', rt x, ctx_par (D @ FR l n kn c # C), cn)"
    "rb_root t' = (if C = [] then n else rb_root t)" "rb_mem t' a = rb_mem t a"
    "\<And>m. m \<noteq> a \<Longrightarrow> rb_mem t' m = replaced C l n kn c (plug D x) (spliced ?E x (rb_mem t)) m"
    unfolding inner_result_def by blast
  have d: "distinct (addrs (plug ?E (Nd Lf n kn cn x)))" "n \<noteq> 0" using T node_at [OF T] by (simp_all add: tree_is_def)
  have an: "a \<noteq> n" "n \<notin> set (addrs (plug ?E x))" "a \<notin> set (addrs (plug (D @ FR l n kn c # C) x))"
    using d unfolding distinct_plug set_plug by (auto simp: ctx_append)
  have 1: "tree_is \<lparr>rb_root = rb_root t, rb_mem = spliced ?E x (rb_mem t)\<rparr> (plug C (Nd l a k c (plug D x)))"
    using spliced_tree [OF T, of x] by (simp add: plug_append)
  have "tree_is \<lparr>rb_root = (if C = [] then n else rb_root t), rb_mem = replaced C l n kn c (plug D x) (spliced ?E x (rb_mem t))\<rparr>
      (plug (D @ FR l n kn c # C) x)"
    using replaced_tree [OF 1 d(2), of kn] an(2) by (simp add: plug_append cong: if_cong)
  then have "tree_is t' (plug (D @ FR l n kn c # C) x)"
    by (rule tree_is_cong) (use t'(2,4) an(3) node_at [OF assms(1)] in force)+
  moreover have "same_outside (plug (D @ FR l n kn c # C) x) t t'"
    unfolding same_outside_def
  proof (intro allI impI)
    fix m assume "m \<notin> set (addrs (plug (D @ FR l n kn c # C) x))"
    then have m: "m \<notin> set (ctx_addrs C)" "m \<notin> set (addrs l)" "m \<noteq> n" "m \<notin> set (ctx_addrs D)" "m \<notin> set (addrs x)"
      by (auto simp: set_plug ctx_append)
    then show "rb_mem t' m = rb_mem t m"
      using t'(3,4) rt_in [of l] rt_in [of x] rt_in [of "plug D x"] ctx_par_in [of C] ctx_par_in [of D]
      by (cases "m = a") (auto simp: replaced_def spliced_def relink_at_def repar_def ctx_append set_plug split: if_splits)
  qed
  moreover have "ctx_l D = []" using fl by (induction D rule: ctx_l.induct) auto
  ultimately show ?thesis using r t'(1) by blast
qed

subsection \<open>Properties\<close>

lemma finish_removal:
  assumes "tree_is t (plug E X)" and "invrb X" and "cvalid E (bh X + blk c)" and "c = RB_BLACK \<or> c = RB_RED \<and> col X = RB_BLACK"
  shows "repaired t (plug E X) (if c = RB_BLACK then rb_remove_fixup t (rt X) (ctx_par E) else Some t)"
proof (cases "c = RB_BLACK")
  case True
  have "invrb (blacken X)" using assms(2) by (cases X) auto
  then show ?thesis using fixup_repairs [of t E X] assms True invrb_col [OF assms(2)] by (simp add: lacking_def)
next
  case False
  then have "is_rbt (plug E X)" using assms by (intro plug_rbt) auto
  then show ?thesis using False assms(1) by (auto simp: repaired_def same_outside_def)
qed

lemma find_position: "n \<in> set (addrs T) \<Longrightarrow> \<exists>C l k c r. T = plug C (Nd l n k c r)"
proof (induction T)
  case (Nd l a k c r)
  then consider "n = a" | "n \<in> set (addrs l)" | "n \<in> set (addrs r)" by auto
  then show ?case
  proof cases
    case 1
    then show ?thesis by (intro exI [of _ "[]"]) auto
  next
    case 2
    then obtain C l' k' c' r' where "l = plug C (Nd l' n k' c' r')" using Nd.IH(1) by blast
    then show ?thesis by (intro exI [of _ "C @ [FL a k c r]"]) (auto simp: plug_append)
  next
    case 3
    then obtain C l' k' c' r' where "r = plug C (Nd l' n k' c' r')" using Nd.IH(2) by blast
    then show ?thesis by (intro exI [of _ "C @ [FR l a k c]"]) (auto simp: plug_append)
  qed
qed simp

lemma cvalid_rename: "cvalid (D @ FR l a k c # C) h \<longleftrightarrow> cvalid (D @ FR l b kb c # C) h"
proof (induction D arbitrary: h)
  case (Cons f D)
  have "ctx_col (D @ FR l a k c # C) = ctx_col (D @ FR l b kb c # C)" by (cases D rule: ctx_col.cases) auto
  then show ?case using Cons by (cases f) auto
qed simp

lemma remove_position:
  assumes "tree_is t (plug C (Nd l n k c r))" and "is_rbt (plug C (Nd l n k c r))"
  shows "\<exists>t' E X cc. rb_remove n t = (if cc = RB_BLACK then rb_remove_fixup t' (rt X) (ctx_par E) else Some t') \<and>
    tree_is t' (plug E X) \<and> invrb X \<and> cvalid E (bh X + blk cc) \<and> (cc = RB_BLACK \<or> cc = RB_RED \<and> col X = RB_BLACK) \<and>
    ino (plug E X) = ctx_l C @ ino l @ ino r @ ctx_r C \<and> same_outside (plug E X) t t'"
proof (cases "l = Lf \<or> r = Lf")
  case True
  define X where "X = (if l = Lf then r else l)"
  have X: "l = Lf \<and> X = r \<or> r = Lf \<and> X = l" using True by (auto simp: X_def)
  obtain t' where t': "unlink_simple t n (rt X) = Some (t', rt X, ctx_par C, c)" "tree_is t' (plug C X)"
    "same_outside (plug C X) t t'" using unlink_simple_at [OF assms(1) X] by blast
  have v: "invrb (Nd l n k c r)" "cvalid C (bh (Nd l n k c r))" using plug_valid [OF assms(2)] by auto
  have z: "holds (rb_mem t) n l" "holds (rb_mem t) n r" using assms(1) by (auto simp: tree_is_def holds_plug)
  have op: "rb_remove n t = (if c = RB_BLACK then rb_remove_fixup t' (rt X) (ctx_par C) else Some t')"
    using node_at [OF assms(1)] t'(1) True holds_rt [OF z(1)] holds_rt [OF z(2)]
    by (auto simp: rb_remove_def GET_L_def GET_R_def X_def split: if_splits)
  have "cvalid C (bh X + blk c)" "invrb X" "c = RB_BLACK \<or> c = RB_RED \<and> col X = RB_BLACK" using v X by auto
  moreover have "ino (plug C X) = ctx_l C @ ino l @ ino r @ ctx_r C" using X by (auto simp: ino_split)
  ultimately show ?thesis using op t'(2,3) by blast
next
  case False
  then obtain D m km cm x t' where r: "r = plug D (Nd Lf m km cm x)" "ctx_l D = []"
    and t': "unlink_inner t n = Some (t', rt x, ctx_par (D @ FR l m km c # C), cm)"
      "tree_is t' (plug (D @ FR l m km c # C) x)" "same_outside (plug (D @ FR l m km c # C) x) t t'"
    using unlink_inner_at [OF assms(1)] by blast
  have "is_rbt (plug (D @ FR l n k c # C) (Nd Lf m km cm x))" using assms(2) r(1) by (simp add: plug_append)
  from plug_valid [OF this] have v: "invrb (Nd Lf m km cm x)" "cvalid (D @ FR l n k c # C) (bh (Nd Lf m km cm x))" by auto
  have z: "holds (rb_mem t) n l" "holds (rb_mem t) n r" using assms(1) by (auto simp: tree_is_def holds_plug)
  have op: "rb_remove n t = (if cm = RB_BLACK then rb_remove_fixup t' (rt x) (ctx_par (D @ FR l m km c # C)) else Some t')"
    using node_at [OF assms(1)] t'(1) False holds_rt [OF z(1)] holds_rt [OF z(2)]
    by (simp add: rb_remove_def GET_L_def GET_R_def split: if_splits)
  have "cvalid (D @ FR l m km c # C) (bh x + blk cm)" "invrb x" "cm = RB_BLACK \<or> cm = RB_RED \<and> col x = RB_BLACK"
    using v cvalid_rename [of D l n k c C _ m km] by auto
  moreover have "ino (plug (D @ FR l m km c # C) x) = ctx_l C @ ino l @ ino r @ ctx_r C"
    using r by (simp add: plug_append ino_split)
  ultimately show ?thesis using op t'(2,3) by blast
qed

lemma rb_remove_removes:
  assumes "tree_is t T" and "is_rbt T" and "bst T" and "n \<in> set (addrs T)"
  shows "\<exists>t' T'. rb_remove n t = Some t' \<and> tree_is t' T' \<and> is_rbt T' \<and> bst T' \<and>
    ino T' = filter (\<lambda>e. fst e \<noteq> n) (ino T) \<and> same_outside T' t t'"
proof -
  obtain C l k c r where T: "T = plug C (Nd l n k c r)" using find_position [OF assms(4)] by blast
  obtain t1 E X cc where r: "rb_remove n t = (if cc = RB_BLACK then rb_remove_fixup t1 (rt X) (ctx_par E) else Some t1)"
    "tree_is t1 (plug E X)" "invrb X" "cvalid E (bh X + blk cc)" "cc = RB_BLACK \<or> cc = RB_RED \<and> col X = RB_BLACK"
    "ino (plug E X) = ctx_l C @ ino l @ ino r @ ctx_r C" "same_outside (plug E X) t t1"
    using remove_position assms(1,2) unfolding T by blast
  obtain t' T' where t': "rb_remove n t = Some t'" "tree_is t' T'" "is_rbt T'" "ino T' = ino (plug E X)" "same_outside (plug E X) t1 t'"
    using finish_removal [OF r(2-5)] r(1) unfolding repaired_def by auto
  have i: "ino T = ctx_l C @ ino l @ (n, k) # ino r @ ctx_r C" unfolding T by (simp add: ino_split)
  have "distinct (map fst (ino T))" using assms(1) by (simp add: tree_is_def addrs_ino)
  moreover have "filter (\<lambda>e. fst e \<noteq> n) xs = xs" if "n \<notin> fst ` set xs" for xs :: "(nat \<times> u64) list"
    using that by (force simp: filter_id_conv)
  ultimately have ino: "ino T' = filter (\<lambda>e. fst e \<noteq> n) (ino T)" unfolding t'(4) r(6) i by simp
  have "bst T'" using assms(3) unfolding bst_def ino sorted_wrt_map by (rule sorted_wrt_filter)
  moreover have "same_outside T' t t'" using same_outside_trans [OF r(7) t'(5)] same_outside_ino [OF t'(4)] by simp
  ultimately show ?thesis using t'(1-3) ino by blast
qed

text \<open>C11: removing a node from a red-black search tree.  \<open>rb_remove\<close> returns, the pointer structure is
  again a red-black search tree, its nodes are the old ones in the old order without the removed one,
  and no memory outside of the new tree changes, that of the removed node included.\<close>

theorem rb_remove_correct:
  assumes "tree_is t T" and "is_rbt T" and "bst T" and "n \<in> set (addrs T)"
  shows "\<exists>t' T'. rb_remove n t = Some t' \<and> tree_is t' T' \<and> is_rbt T' \<and> bst T' \<and>
    ino T' = filter (\<lambda>e. fst e \<noteq> n) (ino T) \<and> (\<forall>m. m \<notin> set (addrs T') \<longrightarrow> rb_mem t' m = rb_mem t m)"
  using rb_remove_removes [OF assms] unfolding same_outside_def .

text \<open>Removing the black root of the tree of two nodes: its red child takes its place.\<close>

theorem rb_remove_correct_witness:
  "\<exists>t' T'. rb_remove 16 two_nodes = Some t' \<and> tree_is t' T' \<and> is_rbt T' \<and> ino T' = [(32, 7)]"
  using rb_remove_correct [OF two_nodes_is, of 16] by (simp add: two_nodes_tree_def) blast

end
