(* ===== verification/RB_Map.thy ===== *)
theory RB_Map
  imports RB_Remove
begin

text \<open>
  The tree as a map from keys to nodes.  The interface its clients rely on (the kernel heap keeps its
  free blocks in one, the FAT driver its open inodes) is the locale \<open>node_map\<close>; what holds of any
  sequence of calls is proved there once, and the locale is interpreted on the operations of
  \<open>kernel/lib/rb_tree.c\<close>.
\<close>

datatype map_cmd = Add nat | Del nat | Look u64

text \<open>A sequence of calls with what they return: the clashing node or \<open>NULL\<close> for an insertion, the
  node found or \<open>NULL\<close> for a search.\<close>

fun run_cmds :: "(nat \<Rightarrow> 's \<Rightarrow> (nat \<times> 's) option) \<Rightarrow> (nat \<Rightarrow> 's \<Rightarrow> 's option) \<Rightarrow> ('s \<Rightarrow> u64 \<Rightarrow> nat option) \<Rightarrow>
    map_cmd list \<Rightarrow> 's \<Rightarrow> (nat list \<times> 's) option" where
  "run_cmds ins rem look [] s = Some ([], s)"
| "run_cmds ins rem look (Add n # cs) s = do { (r, s) \<leftarrow> ins n s; (rs, s) \<leftarrow> run_cmds ins rem look cs s; Some (r # rs, s) }"
| "run_cmds ins rem look (Del n # cs) s = do { s \<leftarrow> rem n s; (rs, s) \<leftarrow> run_cmds ins rem look cs s; Some (n # rs, s) }"
| "run_cmds ins rem look (Look k # cs) s = do { r \<leftarrow> look s k; (rs, s) \<leftarrow> run_cmds ins rem look cs s; Some (r # rs, s) }"

definition node_or_null :: "nat option \<Rightarrow> nat" where
  "node_or_null x = (case x of None \<Rightarrow> 0 | Some a \<Rightarrow> a)"

text \<open>The same calls on a map; \<open>key\<close> gives the keys of the nodes.\<close>

fun map_cmds :: "(nat \<Rightarrow> u64 option) \<Rightarrow> map_cmd list \<Rightarrow> (u64 \<rightharpoonup> nat) \<Rightarrow> nat list \<times> (u64 \<rightharpoonup> nat)" where
  "map_cmds key [] m = ([], m)"
| "map_cmds key (Add n # cs) m = (let k = the (key n) in
     apfst ((#) (node_or_null (m k))) (map_cmds key cs (if m k = None then m(k \<mapsto> n) else m)))"
| "map_cmds key (Del n # cs) m = apfst ((#) n) (map_cmds key cs (m(the (key n) := None)))"
| "map_cmds key (Look k # cs) m = apfst ((#) (node_or_null (m k))) (map_cmds key cs m)"

text \<open>A client only adds existing nodes that are not in the map, and only removes nodes that are.\<close>

fun legal :: "(nat \<Rightarrow> u64 option) \<Rightarrow> map_cmd list \<Rightarrow> (u64 \<rightharpoonup> nat) \<Rightarrow> bool" where
  "legal key [] m \<longleftrightarrow> True"
| "legal key (Add n # cs) m \<longleftrightarrow> (let k = the (key n) in n \<noteq> 0 \<and> key n \<noteq> None \<and> m k \<noteq> Some n \<and>
     legal key cs (if m k = None then m(k \<mapsto> n) else m))"
| "legal key (Del n # cs) m \<longleftrightarrow> key n \<noteq> None \<and> m (the (key n)) = Some n \<and> legal key cs (m(the (key n) := None))"
| "legal key (Look k # cs) m \<longleftrightarrow> legal key cs m"

locale node_map =
  fixes rep :: "'s \<Rightarrow> (u64 \<rightharpoonup> nat) \<Rightarrow> bool" and key :: "'s \<Rightarrow> nat \<Rightarrow> u64 option"
    and ins :: "nat \<Rightarrow> 's \<Rightarrow> (nat \<times> 's) option" and rem :: "nat \<Rightarrow> 's \<Rightarrow> 's option" and look :: "'s \<Rightarrow> u64 \<Rightarrow> nat option"
  assumes look: "rep s m \<Longrightarrow> look s k = Some (node_or_null (m k))"
    and ins: "rep s m \<Longrightarrow> key s n = Some k \<Longrightarrow> n \<noteq> 0 \<Longrightarrow> m k \<noteq> Some n \<Longrightarrow>
      \<exists>s'. ins n s = Some (node_or_null (m k), s') \<and> rep s' (if m k = None then m(k \<mapsto> n) else m) \<and> key s' = key s"
    and rem: "rep s m \<Longrightarrow> key s n = Some k \<Longrightarrow> m k = Some n \<Longrightarrow> \<exists>s'. rem n s = Some s' \<and> rep s' (m(k := None)) \<and> key s' = key s"
begin

lemma run_refines:
  "rep s m \<Longrightarrow> legal (key s) cs m \<Longrightarrow> \<exists>s'. run_cmds ins rem look cs s = Some (fst (map_cmds (key s) cs m), s') \<and>
    rep s' (snd (map_cmds (key s) cs m)) \<and> key s' = key s"
proof (induction cs arbitrary: s m)
  case (Cons c cs)
  show ?case
  proof (cases c)
    case (Add n)
    then obtain k where k: "key s n = Some k" "n \<noteq> 0" "m k \<noteq> Some n" using Cons.prems(2) by (auto simp: Let_def)
    define m' where "m' = (if m k = None then m(k \<mapsto> n) else m)"
    from k obtain s1 where s1: "ins n s = Some (node_or_null (m k), s1)" "rep s1 m'" "key s1 = key s"
      unfolding m'_def using ins [OF Cons.prems(1)] by blast
    have "legal (key s1) cs m'" using Cons.prems(2) k s1(3) Add by (simp add: m'_def Let_def)
    from Cons.IH [OF s1(2) this] show ?thesis using Add k s1 by (auto simp: Let_def m'_def [symmetric])
  next
    case (Del n)
    then obtain k where k: "key s n = Some k" "m k = Some n" using Cons.prems(2) by auto
    define m' where "m' = m(k := None)"
    from k obtain s1 where s1: "rem n s = Some s1" "rep s1 m'" "key s1 = key s"
      unfolding m'_def using rem [OF Cons.prems(1)] by blast
    have "legal (key s1) cs m'" using Cons.prems(2) k s1(3) Del by (simp add: m'_def)
    from Cons.IH [OF s1(2) this] show ?thesis using Del k s1 by (auto simp: m'_def [symmetric])
  next
    case (Look k)
    then show ?thesis using Cons.IH [OF Cons.prems(1)] Cons.prems(2) look [OF Cons.prems(1)] by auto
  qed
qed simp

text \<open>A node that has been added is found until it is removed.\<close>

lemma look_after_ins:
  "rep s m \<Longrightarrow> key s n = Some k \<Longrightarrow> n \<noteq> 0 \<Longrightarrow> m k = None \<Longrightarrow>
    \<exists>s'. ins n s = Some (0, s') \<and> look s' k = Some n \<and> (\<forall>k'. k' \<noteq> k \<longrightarrow> look s' k' = look s k')"
  using ins [of s m n k] look by (fastforce simp: node_or_null_def)

lemma rem_undoes_ins:
  assumes "rep s m" and "key s n = Some k" and "n \<noteq> 0" and "m k = None"
  shows "\<exists>s' s''. ins n s = Some (0, s') \<and> rem n s' = Some s'' \<and> rep s'' m"
proof -
  obtain s' where s': "ins n s = Some (0, s')" "rep s' (m(k \<mapsto> n))" "key s' = key s"
    using ins [OF assms(1-3)] assms(4) by (auto simp: node_or_null_def)
  moreover obtain s'' where "rem n s' = Some s''" "rep s'' ((m(k \<mapsto> n))(k := None))" using rem [OF s'(2), of n k] assms(2) s'(3) by auto
  moreover have "(m(k \<mapsto> n))(k := None) = m" using assms(4) by auto
  ultimately show ?thesis by auto
qed

end

subsection \<open>The red-black tree is such a map\<close>

definition content :: "ptree \<Rightarrow> (u64 \<rightharpoonup> nat)" where
  "content T = map_of (map prod.swap (ino T))"

definition rb_rep :: "rb_tree \<Rightarrow> (u64 \<rightharpoonup> nat) \<Rightarrow> bool" where
  "rb_rep t m \<longleftrightarrow> (\<exists>T. tree_is t T \<and> is_rbt T \<and> bst T \<and> m = content T)"

definition rb_lookup :: "rb_tree \<Rightarrow> u64 \<Rightarrow> nat option" where
  "rb_lookup t key = rb_search t (rb_root t) key"

lemma content_iff:
  assumes "bst T"
  shows "content T k = Some a \<longleftrightarrow> (a, k) \<in> set (ino T)"
proof -
  have "distinct (map fst (map prod.swap (ino T)))" using assms by (simp add: bst_def strict_sorted_iff comp_def)
  then show ?thesis by (auto simp: content_def map_of_eq_Some_iff)
qed

lemma content_None: "content T k = None \<longleftrightarrow> k \<notin> snd ` set (ino T)"
  by (force simp: content_def map_of_eq_None_iff)

lemma content_nonzero: "tree_is t T \<Longrightarrow> (a, k) \<in> set (ino T) \<Longrightarrow> a \<noteq> 0"
  using tree_is_key [of t T a k] by (intro notI) (auto simp: tree_is_def GET_KEY_def)

lemma map_eqI: "(\<And>k a. m k = Some a \<longleftrightarrow> m' k = Some a) \<Longrightarrow> m = m'"
  by (rule ext) (metis not_None_eq)

interpretation rbm: node_map rb_rep GET_KEY rb_insert rb_remove rb_lookup
proof
  fix s m and k :: u64
  assume "rb_rep s m"
  then obtain T where T: "tree_is s T" "is_rbt T" "bst T" "m = content T" by (auto simp: rb_rep_def)
  obtain a where a: "rb_search s (rb_root s) k = Some a" "if a = 0 then k \<notin> snd ` set (ino T) else (a, k) \<in> set (ino T)"
    using search_at [of s "[]" T k] T(1,3) by (auto simp: tree_is_def)
  then have "node_or_null (m k) = a"
    using content_iff [OF T(3), of k a] content_None [of T k] T(4) by (cases "a = 0") (auto simp: node_or_null_def)
  then show "rb_lookup s k = Some (node_or_null (m k))" using a(1) by (simp add: rb_lookup_def)
next
  fix s m n and k :: u64
  assume r: "rb_rep s m" and k: "GET_KEY s n = Some k" and n: "n \<noteq> 0" "m k \<noteq> Some n"
  obtain T where T: "tree_is s T" "is_rbt T" "bst T" "m = content T" using r by (auto simp: rb_rep_def)
  have nT: "n \<notin> set (addrs T)"
  proof
    assume "n \<in> set (addrs T)"
    then obtain k' where "(n, k') \<in> set (ino T)" by (auto simp: addrs_ino)
    then show False using tree_is_key [OF T(1)] k n(2) content_iff [OF T(3)] T(4) by auto
  qed
  obtain x where x: "rb_mem s n = Some x" "rb_key x = k" using k by (auto simp: GET_KEY_def Option.bind_eq_Some_conv)
  obtain res s' T' where i: "rb_insert n s = Some (res, s')" "tree_is s' T'" "is_rbt T'" "bst T'" "GET_KEY s' = GET_KEY s"
    "if k \<in> snd ` set (ino T) then (res, k) \<in> set (ino T) \<and> T' = T else res = 0 \<and> set (ino T') = insert (n, k) (set (ino T))"
    using rb_insert_inserted [OF T(1-3) n(1) nT x(1)] x(2) unfolding inserted_def by auto
  show "\<exists>s'. rb_insert n s = Some (node_or_null (m k), s') \<and> rb_rep s' (if m k = None then m(k \<mapsto> n) else m) \<and> GET_KEY s' = GET_KEY s"
  proof (cases "k \<in> snd ` set (ino T)")
    case True
    then have "m k = Some res" "T' = T" using i(6) content_iff [OF T(3)] T(4) by auto
    then show ?thesis using i(1-5) T by (intro exI [of _ s']) (auto simp: rb_rep_def node_or_null_def)
  next
    case False
    then have "m k = None" "res = 0" "set (ino T') = insert (n, k) (set (ino T))" using i(6) content_None [of T k] T(4) by auto
    moreover from this have "content T' = m(k \<mapsto> n)"
      using False content_iff [OF i(4)] content_iff [OF T(3)] T(4) by (intro map_eqI) (auto simp: image_iff)
    ultimately show ?thesis using i(1-5) by (intro exI [of _ s']) (auto simp: rb_rep_def node_or_null_def)
  qed
next
  fix s m n and k :: u64
  assume r: "rb_rep s m" and k: "GET_KEY s n = Some k" "m k = Some n"
  obtain T where T: "tree_is s T" "is_rbt T" "bst T" "m = content T" using r by (auto simp: rb_rep_def)
  have nk: "(n, k) \<in> set (ino T)" using k(2) content_iff [OF T(3)] T(4) by simp
  then have "n \<in> set (addrs T)" by (force simp: addrs_ino)
  then obtain s' T' where d: "rb_remove n s = Some s'" "tree_is s' T'" "is_rbt T'" "bst T'"
    "ino T' = filter (\<lambda>e. fst e \<noteq> n) (ino T)" "same_outside T' s s'" using rb_remove_removes [OF T(1-3)] by blast
  have only: "fst e = n \<longleftrightarrow> e = (n, k)" if "e \<in> set (ino T)" for e
    using that nk tree_is_key [OF T(1), of "fst e" "snd e"] k(1) by (cases e) auto
  have "content T' = m(k := None)"
  proof (rule map_eqI)
    fix k' a
    have "(a, k) \<in> set (ino T) \<Longrightarrow> a = n" using content_iff [OF T(3), of k a] k(2) T(4) by simp
    moreover have "(n, k') \<in> set (ino T) \<Longrightarrow> k' = k" using only [of "(n, k')"] by simp
    moreover have "content T' k' = Some a \<longleftrightarrow> (a, k') \<in> set (ino T) \<and> a \<noteq> n" using content_iff [OF d(4), of k' a] d(5) by auto
    moreover have "m k' = Some a \<longleftrightarrow> (a, k') \<in> set (ino T)" using content_iff [OF T(3), of k' a] T(4) by simp
    ultimately show "content T' k' = Some a \<longleftrightarrow> (m(k := None)) k' = Some a" by (cases "k' = k") auto
  qed
  moreover have "GET_KEY s' = GET_KEY s"
  proof (rule same_keys [OF T(1) d(2), of n k])
    show "set (ino T) \<subseteq> insert (n, k) (set (ino T'))" using only by (auto simp: d(5))
    have "n \<notin> set (addrs T')" by (auto simp: addrs_ino d(5))
    then show "GET_KEY s' n = Some k" using d(6) k(1) by (simp add: same_outside_def GET_KEY_def)
    show "rb_mem s' j = rb_mem s j" if "j \<notin> insert n (set (addrs T))" for j
      using that d(6) by (auto simp: same_outside_def addrs_ino d(5))
  qed (rule k(1))
  ultimately show "\<exists>s'. rb_remove n s = Some s' \<and> rb_rep s' (m(k := None)) \<and> GET_KEY s' = GET_KEY s"
    using d by (auto simp: rb_rep_def)
qed

subsection \<open>Properties\<close>

text \<open>C12: The red-black tree refines a map from keys to nodes.  Starting from a tree that holds the map
  \<open>m\<close>, every sequence of insertions of nodes that are not in the tree, removals of nodes that are, and
  searches runs to its end, each call returns what the map says, and the tree then holds the map that
  the same calls lead to.\<close>

theorem rb_tree_refines_map:
  assumes "rb_rep t m" and "legal (GET_KEY t) cs m"
  shows "\<exists>t'. run_cmds rb_insert rb_remove rb_lookup cs t = Some (fst (map_cmds (GET_KEY t) cs m), t') \<and>
    rb_rep t' (snd (map_cmds (GET_KEY t) cs m))"
  using rbm.run_refines [OF assms] by blast

theorem rb_tree_refines_map_witness:
  "\<exists>t'. run_cmds rb_insert rb_remove rb_lookup [Add 48, Look 9, Del 16, Look 5] two_nodes = Some ([0, 48, 16, 0], t') \<and>
    rb_rep t' [7 \<mapsto> 32, 9 \<mapsto> 48]"
proof -
  have r: "rb_rep two_nodes [5 \<mapsto> 16, 7 \<mapsto> 32]"
    unfolding rb_rep_def using two_nodes_is by (intro exI [of _ two_nodes_tree]) (auto simp: content_def two_nodes_tree_def fun_eq_iff)
  have l: "legal (GET_KEY two_nodes) [Add 48, Look 9, Del 16, Look 5] [5 \<mapsto> 16, 7 \<mapsto> 32]"
    by (simp add: GET_KEY_def two_nodes_def)
  have "((([5 \<mapsto> 16, 7 \<mapsto> 32] :: u64 \<rightharpoonup> nat)(9 \<mapsto> 48))(5 := None)) = [7 \<mapsto> 32, 9 \<mapsto> 48]" by (auto simp: fun_eq_iff)
  then show ?thesis using rb_tree_refines_map [OF r l] by (simp add: GET_KEY_def two_nodes_def node_or_null_def)
qed

end
