(* ===== verification/Virtio.thy ===== *)
theory Virtio
  imports Bitset Spinlock
begin

text \<open>
  \<open>kernel/dev/virtio/virtio_mmio.c\<close> and \<open>virtio_disk.c\<close>: the descriptor queue that the driver
  shares with the device, a transfer on it and the interrupt handler.  A call of
  \<open>virtio_disk_rw\<close> is two kinds of stretches between its sleeps: \<open>virtio_disk_rw\<close> itself,
  which ends when it has no descriptors or has issued the request, and \<open>rw_resume\<close>, which a process
  runs when it is woken.  Both end in \<open>Asleep\<close> or \<open>Done\<close>; the channels woken on the way
  are part of the result.  The addresses of the variables the device is told of are parameters.
\<close>

definition VIRTIO_MMIO_QUEUE_NUM_VALUE :: nat where "VIRTIO_MMIO_QUEUE_NUM_VALUE = 8"

definition VIRTIO_MMIO_QUEUE_DESC_F_NEXT :: u16 where "VIRTIO_MMIO_QUEUE_DESC_F_NEXT = 1"

definition VIRTIO_MMIO_QUEUE_DESC_F_WRITE_ONLY :: u16 where "VIRTIO_MMIO_QUEUE_DESC_F_WRITE_ONLY = 2"

record virtio_mmio_queue_desc =
  q_addr :: u64
  q_length :: u32
  q_flags :: u16
  q_next :: u16

record virtio_mmio_queue_avail =
  av_flags :: u16
  av_idx :: u16
  av_ring :: "u16 list"

record virtio_mmio_queue_used =
  us_flags :: u16
  us_idx :: u16
  us_ring :: "(u32 \<times> u32) list"

record virtio_mmio_ring =
  desc :: "virtio_mmio_queue_desc list"
  avail :: virtio_mmio_queue_avail
  used :: virtio_mmio_queue_used

record virtio_mmio_queue =
  desc_used_map :: bitset
  used_idx :: u32
  io_ring :: virtio_mmio_ring

text \<open>The wait channels: the map of descriptors and the trace of a request.\<close>

datatype disk_chan = DescUsedMap | TraceOf nat

subsection \<open>Descriptors\<close>

definition virtio_queue_desc_alloc :: "virtio_mmio_queue \<Rightarrow> (int \<times> virtio_mmio_queue) option" where
  "virtio_queue_desc_alloc q = do {
     (r, bs) \<leftarrow> set_first_unset_bit (desc_used_map q) 1;
     let idx = sint (of_nat r :: u32);
     let q = q\<lparr>desc_used_map := bs\<rparr>;
     Some (if idx \<ge> int VIRTIO_MMIO_QUEUE_NUM_VALUE then - 1 else idx, q) }"

definition upd_desc :: "nat \<Rightarrow> (virtio_mmio_queue_desc \<Rightarrow> virtio_mmio_queue_desc) \<Rightarrow> virtio_mmio_queue \<Rightarrow> virtio_mmio_queue option" where
  "upd_desc i f q = do {
     x \<leftarrow> aget (desc (io_ring q)) i;
     ds \<leftarrow> aset (desc (io_ring q)) i (f x);
     Some (q\<lparr>io_ring := (io_ring q)\<lparr>desc := ds\<rparr>\<rparr>) }"

definition virtio_queue_desc_free :: "virtio_mmio_queue \<Rightarrow> int \<Rightarrow> (disk_chan list \<times> virtio_mmio_queue) option" where
  "virtio_queue_desc_free q idx =
    (if idx \<ge> int VIRTIO_MMIO_QUEUE_NUM_VALUE then Some ([], q)
     else do {
       kassert (0 \<le> idx);
       c \<leftarrow> check_bit (desc_used_map q) (nat idx);
       if c = 0 then Some ([], q)
       else do {
         q \<leftarrow> upd_desc (nat idx) (\<lambda>x. x\<lparr>q_addr := 0\<rparr>) q;
         bs \<leftarrow> clear_bit (desc_used_map q) (nat idx);
         Some ([DescUsedMap], q\<lparr>desc_used_map := bs\<rparr>) } })"

fun desc_free_all :: "virtio_mmio_queue \<Rightarrow> int list \<Rightarrow> (disk_chan list \<times> virtio_mmio_queue) option" where
  "desc_free_all q [] = Some ([], q)"
| "desc_free_all q (i # is') = do {
     (w, q) \<leftarrow> virtio_queue_desc_free q i;
     (ws, q) \<leftarrow> desc_free_all q is';
     Some (w @ ws, q) }"

text \<open>The loop of \<open>virtio_queue_desc_alloc_some\<close>: \<open>n\<close> descriptors to go, \<open>idxs\<close> those it has.\<close>

fun alloc_some_loop :: "nat \<Rightarrow> int list \<Rightarrow> virtio_mmio_queue \<Rightarrow> (int \<times> int list \<times> disk_chan list \<times> virtio_mmio_queue) option" where
  "alloc_some_loop 0 idxs q = Some (0, idxs, [], q)"
| "alloc_some_loop (Suc n) idxs q = do {
     (i, q) \<leftarrow> virtio_queue_desc_alloc q;
     if i < 0 then do {
       (w, q) \<leftarrow> desc_free_all q idxs;
       Some (- 1, idxs @ [i], w, q) }
     else alloc_some_loop n (idxs @ [i]) q }"

definition virtio_queue_desc_alloc_some :: "virtio_mmio_queue \<Rightarrow> nat \<Rightarrow> (int \<times> int list \<times> disk_chan list \<times> virtio_mmio_queue) option" where
  "virtio_queue_desc_alloc_some q num =
    (if num \<ge> VIRTIO_MMIO_QUEUE_NUM_VALUE then Some (- 1, [], [], q)
     else alloc_some_loop num [] q)"

partial_function (option) virtio_queue_desc_free_chain ::
  "virtio_mmio_queue \<Rightarrow> int \<Rightarrow> (disk_chan list \<times> virtio_mmio_queue) option" where
  "virtio_queue_desc_free_chain q idx = do {
     (w, q) \<leftarrow> virtio_queue_desc_free q idx;
     kassert (0 \<le> idx);
     x \<leftarrow> aget (desc (io_ring q)) (nat idx);
     if q_flags x AND VIRTIO_MMIO_QUEUE_DESC_F_NEXT \<noteq> 0 then do {
       (ws, q) \<leftarrow> virtio_queue_desc_free_chain q (int (unat (q_next x)));
       Some (w @ ws, q) }
     else Some (w, q) }"

subsection \<open>Transfers\<close>

definition VIRTIO_BLK_T_IN :: u32 where "VIRTIO_BLK_T_IN = 0"

definition VIRTIO_BLK_T_OUT :: u32 where "VIRTIO_BLK_T_OUT = 1"

definition SECTOR_SIZE :: u64 where "SECTOR_SIZE = 512"

record disk_trace =
  tr_addr :: u64
  tr_size :: u64
  tr_status :: u8
  tr_ok :: u8

record virtio_disk =
  io_addr :: u64
  initialized :: bool
  queue :: virtio_mmio_queue
  trace :: "disk_trace list"
  vd_lock :: spinlock

text \<open>The first descriptor's data: what is to be done and where.\<close>

record request_head =
  rq_type :: u32
  rq_rsvd :: u32
  rq_sector :: u64

definition request_of :: "u64 \<Rightarrow> int \<Rightarrow> request_head" where
  "request_of sector func =
    \<lparr>rq_type = (if func = 0 then VIRTIO_BLK_T_IN else VIRTIO_BLK_T_OUT), rq_rsvd = 0, rq_sector = sector\<rparr>"

definition set_descs :: "u64 \<Rightarrow> u64 \<Rightarrow> u64 \<Rightarrow> u64 \<Rightarrow> int \<Rightarrow> nat \<Rightarrow> nat \<Rightarrow> nat \<Rightarrow> virtio_mmio_queue \<Rightarrow> virtio_mmio_queue option" where
  "set_descs buf0 stat buf count func i0 i1 i2 q = do {
     q \<leftarrow> upd_desc i0 (\<lambda>_. \<lparr>q_addr = buf0, q_length = 16,
            q_flags = VIRTIO_MMIO_QUEUE_DESC_F_NEXT, q_next = of_nat i1\<rparr>) q;
     q \<leftarrow> upd_desc i1 (\<lambda>_. \<lparr>q_addr = buf, q_length = ucast (count * SECTOR_SIZE),
            q_flags = (if func = 0 then VIRTIO_MMIO_QUEUE_DESC_F_WRITE_ONLY else 0) OR VIRTIO_MMIO_QUEUE_DESC_F_NEXT,
            q_next = of_nat i2\<rparr>) q;
     upd_desc i2 (\<lambda>_. \<lparr>q_addr = stat, q_length = 1,
            q_flags = VIRTIO_MMIO_QUEUE_DESC_F_WRITE_ONLY, q_next = 0\<rparr>) q }"

definition put_avail :: "nat \<Rightarrow> virtio_mmio_queue \<Rightarrow> virtio_mmio_queue option" where
  "put_avail i q = (let av = avail (io_ring q) in do {
     r \<leftarrow> aset (av_ring av) (unat (av_idx av) mod VIRTIO_MMIO_QUEUE_NUM_VALUE) (of_nat i);
     Some (q\<lparr>io_ring := (io_ring q)\<lparr>avail := av\<lparr>av_ring := r, av_idx := av_idx av + 1\<rparr>\<rparr>\<rparr>) })"

datatype rw_result = Asleep disk_chan | Done int

text \<open>With the lock held: the loop that waits for the interrupt, up to its sleep or its end.\<close>

definition rw_wait :: "nat \<Rightarrow> nat \<Rightarrow> u64 \<Rightarrow> virtio_disk \<Rightarrow> (rw_result \<times> disk_chan list \<times> virtio_disk) option" where
  "rw_wait hart i0 count d = do {
     t \<leftarrow> aget (trace d) i0;
     if tr_ok t = 0 then do {
       l \<leftarrow> lock_release hart (vd_lock d);
       Some (Asleep (TraceOf i0), [], d\<lparr>vd_lock := l\<rparr>) }
     else do {
       (w, q) \<leftarrow> virtio_queue_desc_free_chain (queue d) (int i0);
       l \<leftarrow> lock_release hart (vd_lock d);
       Some (Done (sint (ucast count :: u32)), w, d\<lparr>queue := q, vd_lock := l\<rparr>) } }"

definition rw_resume :: "nat \<Rightarrow> nat \<Rightarrow> u64 \<Rightarrow> virtio_disk \<Rightarrow> (rw_result \<times> disk_chan list \<times> virtio_disk) option" where
  "rw_resume hart i0 count d = do {
     l \<leftarrow> lock_acquire hart (vd_lock d);
     rw_wait hart i0 count (d\<lparr>vd_lock := l\<rparr>) }"

definition rw_issue :: "u64 \<Rightarrow> (nat \<Rightarrow> u64) \<Rightarrow> u64 \<Rightarrow> u64 \<Rightarrow> u64 \<Rightarrow> int \<Rightarrow> nat \<Rightarrow> nat \<Rightarrow> nat \<Rightarrow> virtio_disk \<Rightarrow> virtio_disk option" where
  "rw_issue buf0 stat sector buf count func i0 i1 i2 d = do {
     q \<leftarrow> set_descs buf0 (stat i0) buf count func i0 i1 i2 (queue d);
     ts \<leftarrow> aset (trace d) i0 \<lparr>tr_addr = sector, tr_size = count * SECTOR_SIZE, tr_status = 0, tr_ok = 0\<rparr>;
     q \<leftarrow> put_avail i0 q;
     Some (d\<lparr>queue := q, trace := ts\<rparr>) }"

text \<open>The head of the chain is part of the result once the request is issued.\<close>

definition virtio_disk_rw :: "nat \<Rightarrow> u64 \<Rightarrow> (nat \<Rightarrow> u64) \<Rightarrow> u64 \<Rightarrow> u64 \<Rightarrow> u64 \<Rightarrow> int \<Rightarrow> virtio_disk \<Rightarrow>
    (nat option \<times> rw_result \<times> disk_chan list \<times> virtio_disk) option" where
  "virtio_disk_rw hart buf0 stat sector buf count func d = do {
     l \<leftarrow> lock_acquire hart (vd_lock d);
     (r, idx, w, q) \<leftarrow> virtio_queue_desc_alloc_some (queue d) 3;
     let d = d\<lparr>vd_lock := l, queue := q\<rparr>;
     if r \<noteq> 0 then do {
       l \<leftarrow> lock_release hart (vd_lock d);
       Some (None, Asleep DescUsedMap, w, d\<lparr>vd_lock := l\<rparr>) }
     else do {
       let i0 = nat (idx ! 0);
       d \<leftarrow> rw_issue buf0 stat sector buf count func i0 (nat (idx ! 1)) (nat (idx ! 2)) d;
       (res, w', d) \<leftarrow> rw_wait hart i0 count d;
       Some (Some i0, res, w @ w', d) } }"

text \<open>The interrupt handler; the function ends without a return value.\<close>

partial_function (option) used_loop :: "disk_chan list \<Rightarrow> virtio_disk \<Rightarrow> (disk_chan list \<times> virtio_disk) option" where
  "used_loop ws d = (let q = queue d; us = used (io_ring q) in
     if unat (used_idx q) mod VIRTIO_MMIO_QUEUE_NUM_VALUE \<noteq> unat (us_idx us) mod VIRTIO_MMIO_QUEUE_NUM_VALUE then do {
       (i, _) \<leftarrow> aget (us_ring us) (unat (used_idx q));
       t \<leftarrow> aget (trace d) (unat i);
       kassert (tr_status t = 0);
       ts \<leftarrow> aset (trace d) (unat i) (t\<lparr>tr_ok := 1\<rparr>);
       used_loop (ws @ [TraceOf (unat i)])
         (d\<lparr>trace := ts, queue := q\<lparr>used_idx := (used_idx q + 1) mod 8\<rparr>\<rparr>) }
     else Some (ws, d))"

definition virtio_disk_interrupt_handler :: "nat \<Rightarrow> virtio_disk \<Rightarrow> (disk_chan list \<times> virtio_disk) option" where
  "virtio_disk_interrupt_handler hart d = do {
     l \<leftarrow> lock_acquire hart (vd_lock d);
     (ws, d) \<leftarrow> used_loop [] (d\<lparr>vd_lock := l\<rparr>);
     l \<leftarrow> lock_release hart (vd_lock d);
     Some (ws, d\<lparr>vd_lock := l\<rparr>) }"

subsection \<open>Ranges of bytes\<close>

text \<open>
  The readers and writers of byte ranges go through a buffer of whole sectors.  \<open>rw d s buf func\<close>
  is what a completed transfer of the buffer \<open>buf\<close> from sector \<open>s\<close> on does to the buffer and the
  device.  The buffer \<open>kmalloc\<close> returns is not checked; it is cleared at once.
\<close>

type_synonym 'd transfer = "'d \<Rightarrow> u64 \<Rightarrow> u8 list \<Rightarrow> int \<Rightarrow> u8 list \<times> 'd"

definition rounded_size :: "u64 \<Rightarrow> u64" where
  "rounded_size elen = (if elen < 4096 then ROUNDUP_WITH SECTOR_SIZE elen else PG_ROUNDUP elen)"

definition sector_buffer :: "u64 \<Rightarrow> u64 \<Rightarrow> u64 \<times> nat \<times> u8 list" where
  "sector_buffer offset len =
    (let sector_offset = offset mod SECTOR_SIZE; n = rounded_size (len + sector_offset)
     in (offset div SECTOR_SIZE, unat sector_offset, replicate (unat (n div SECTOR_SIZE) * 512) 0))"

definition virtio_disk_rw_lba :: "'d transfer \<Rightarrow> u64 \<Rightarrow> u64 \<Rightarrow> int \<Rightarrow> 'd \<Rightarrow> u8 list \<times> 'd" where
  "virtio_disk_rw_lba rw offset len func d =
    (let (sector, off, kbuf) = sector_buffer offset len; (kbuf, d) = rw d sector kbuf func
     in (take (unat len) (drop off kbuf), d))"

definition virtio_disk_read :: "'d transfer \<Rightarrow> u64 \<Rightarrow> u64 \<Rightarrow> 'd \<Rightarrow> u8 list \<times> 'd" where
  "virtio_disk_read rw offset len d =
    (let (sector, off, kbuf) = sector_buffer offset len; (kbuf, d) = rw d sector kbuf 0
     in (take (unat len) (drop off kbuf), d))"

definition virtio_disk_write :: "'d transfer \<Rightarrow> u8 list \<Rightarrow> u64 \<Rightarrow> 'd \<Rightarrow> 'd" where
  "virtio_disk_write rw buffer offset d =
    (let (sector, off, kbuf) = sector_buffer offset (of_nat (length buffer));
         (kbuf, d) = rw d sector kbuf 0;
         kbuf = take off kbuf @ buffer @ drop (off + length buffer) kbuf
     in snd (rw d sector kbuf 1))"

end
