(* ===== verification/Virtio_Queue.thy ===== *)
theory Virtio_Queue
  imports Virtio
begin

text \<open>
  The descriptors of the disk queue: \<open>virtio_queue_desc_alloc_some\<close> gives out distinct
  descriptors that nobody has, or gives back what it took, and \<open>virtio_queue_desc_free_chain\<close>
  releases a chain of three.
\<close>

definition used_set :: "virtio_mmio_queue \<Rightarrow> nat set" where
  "used_set q = {j. j < 8 \<and> bset_view (desc_used_map q) j}"

definition queue_ok :: "virtio_mmio_queue \<Rightarrow> bool" where
  "queue_ok q \<longleftrightarrow> length (desc_used_map q) = 1 \<and> length (desc (io_ring q)) = 8"

text \<open>Only the map of descriptors and the descriptors outside of \<open>K\<close> may differ.\<close>

definition queue_frame :: "nat set \<Rightarrow> virtio_mmio_queue \<Rightarrow> virtio_mmio_queue \<Rightarrow> bool" where
  "queue_frame K q q' \<longleftrightarrow> used_idx q' = used_idx q \<and> avail (io_ring q') = avail (io_ring q) \<and>
     used (io_ring q') = used (io_ring q) \<and> (\<forall>j \<in> K. desc (io_ring q') ! j = desc (io_ring q) ! j)"

lemma queue_frame_refl [simp]: "queue_frame K q q"
  by (simp add: queue_frame_def)

lemma queue_frame_trans: "queue_frame K q q' \<Longrightarrow> queue_frame K' q' q'' \<Longrightarrow> queue_frame (K \<inter> K') q q''"
  by (auto simp: queue_frame_def)

lemma queue_frame_mono: "queue_frame K q q' \<Longrightarrow> K' \<subseteq> K \<Longrightarrow> queue_frame K' q q'"
  by (auto simp: queue_frame_def)

lemma sint_small: "r < 32 \<Longrightarrow> sint (of_nat r :: u32) = int r"
  by (simp add: signed_of_nat signed_take_bit_int_eq_self)

lemma view_below: "length bs = 1 \<Longrightarrow> bset_size bs = 32"
  by (simp add: bset_size_def)

subsection \<open>One descriptor\<close>

lemma first_unset_in_map:
  assumes "length bs = 1"
  shows "\<exists>r bs'. set_first_unset_bit bs 1 = Some (r, bs') \<and> length bs' = 1 \<and>
    (r < 32 \<and> \<not> bset_view bs r \<and> (\<forall>k<r. bset_view bs k) \<and> (\<forall>k<32. bset_view bs' k = (k = r \<or> bset_view bs k)) \<or>
     (\<forall>k<32. bset_view bs k) \<and> r = NO_BIT \<and> bs' = bs)"
proof -
  obtain r bs' where r: "set_first_unset_bit bs 1 = Some (r, bs')" and s: "first_clear_spec bs 1 0 r bs'"
    using sfub_loop_spec [of 1 bs 0] assms by (auto simp: set_first_unset_bit_def)
  show ?thesis
  proof (cases "\<exists>j. 32 * 0 \<le> j \<and> j < 32 * 1 \<and> \<not> bset_view bs j")
    case True
    then show ?thesis using r s assms unfolding first_clear_spec_def if_P [OF True] by (auto simp: view_below)
  next
    case False
    then have "length bs' = length bs" "r = NO_BIT" "bs' = bs"
      using s unfolding first_clear_spec_def if_not_P [OF False] by blast+
    then show ?thesis using r assms False by (intro exI [of _ r] exI [of _ bs']) auto
  qed
qed

lemma desc_alloc_free:
  assumes q: "queue_ok q" and f: "used_set q \<noteq> {0..<8}"
  shows "\<exists>i q'. virtio_queue_desc_alloc q = Some (int i, q') \<and> i < 8 \<and> i \<notin> used_set q \<and>
    used_set q' = insert i (used_set q) \<and> queue_ok q' \<and> queue_frame UNIV q q'"
proof -
  have "\<not> (\<forall>j<8. bset_view (desc_used_map q) j)" using f by (auto simp: used_set_def)
  then obtain j where j: "j < 8" "\<not> bset_view (desc_used_map q) j" by blast
  moreover have "length (desc_used_map q) = 1" using q by (simp add: queue_ok_def)
  ultimately obtain r bs where r: "set_first_unset_bit (desc_used_map q) 1 = Some (r, bs)" "length bs = 1"
      "r < 32" "\<not> bset_view (desc_used_map q) r" "\<forall>k<r. bset_view (desc_used_map q) k"
    and v: "\<forall>k<32. bset_view bs k = (k = r \<or> bset_view (desc_used_map q) k)"
    using first_unset_in_map [of "desc_used_map q"] by force
  have r8: "r < 8" using r(5) j by (meson leI less_le_trans)
  have "virtio_queue_desc_alloc q = Some (int r, q\<lparr>desc_used_map := bs\<rparr>)"
    using r r8 by (simp add: virtio_queue_desc_alloc_def sint_small VIRTIO_MMIO_QUEUE_NUM_VALUE_def Let_def)
  moreover have "used_set (q\<lparr>desc_used_map := bs\<rparr>) = insert r (used_set q)"
    using v r8 by (auto simp: used_set_def)
  ultimately show ?thesis
    using r8 r q by (intro exI [of _ r] exI [of _ "q\<lparr>desc_used_map := bs\<rparr>"])
      (auto simp: used_set_def queue_ok_def queue_frame_def)
qed

lemma desc_alloc_full:
  assumes q: "queue_ok q" and f: "used_set q = {0..<8}"
  shows "\<exists>q'. virtio_queue_desc_alloc q = Some (- 1, q') \<and> used_set q' = used_set q \<and> queue_ok q' \<and> queue_frame UNIV q q'"
proof -
  have l: "length (desc_used_map q) = 1" using q by (simp add: queue_ok_def)
  have "j < 8 \<Longrightarrow> j \<in> used_set q" for j by (simp add: f)
  then have a: "j < 8 \<Longrightarrow> bset_view (desc_used_map q) j" for j by (simp add: used_set_def)
  obtain r bs where r: "set_first_unset_bit (desc_used_map q) 1 = Some (r, bs)" "length bs = 1"
      "r = NO_BIT \<and> bs = desc_used_map q \<or>
       r < 32 \<and> \<not> bset_view (desc_used_map q) r \<and> (\<forall>k<32. bset_view bs k = (k = r \<or> bset_view (desc_used_map q) k))"
    using first_unset_in_map [OF l] by blast
  have n: "sint (of_nat NO_BIT :: u32) = - 1" by (simp add: NO_BIT_def)
  have i: "r = NO_BIT \<or> 8 \<le> r \<and> r < 32" using r(3) a [of r] not_less by blast
  have v: "\<forall>k<8. bset_view bs k" using r(3) a by auto
  have "virtio_queue_desc_alloc q = Some (- 1, q\<lparr>desc_used_map := bs\<rparr>)"
    using i r(1) n by (elim disjE) (simp_all add: virtio_queue_desc_alloc_def sint_small VIRTIO_MMIO_QUEUE_NUM_VALUE_def Let_def)
  moreover have "used_set (q\<lparr>desc_used_map := bs\<rparr>) = used_set q" using v a by (auto simp: used_set_def)
  ultimately show ?thesis
    using q r(2) by (intro exI [of _ "q\<lparr>desc_used_map := bs\<rparr>"]) (auto simp: queue_ok_def queue_frame_def)
qed

lemma desc_free_used:
  assumes q: "queue_ok q" and i: "i \<in> used_set q"
  shows "\<exists>q'. virtio_queue_desc_free q (int i) = Some ([DescUsedMap], q') \<and> used_set q' = used_set q - {i} \<and>
    queue_ok q' \<and> queue_frame (- {i}) q q' \<and> desc (io_ring q') ! i = (desc (io_ring q) ! i)\<lparr>q_addr := 0\<rparr>"
proof -
  have b: "i < bset_size (desc_used_map q)" "i < 8" "bset_view (desc_used_map q) i"
    using i q by (auto simp: used_set_def queue_ok_def view_below)
  from clear_bit_spec [OF b(1)] obtain bs where c: "clear_bit (desc_used_map q) i = Some bs" "length bs = length (desc_used_map q)"
    "\<forall>j < bset_size (desc_used_map q). bset_view bs j = (j \<noteq> i \<and> bset_view (desc_used_map q) j)" by auto
  let ?q = "q\<lparr>desc_used_map := bs, io_ring := (io_ring q)\<lparr>desc := (desc (io_ring q))[i := (desc (io_ring q) ! i)\<lparr>q_addr := 0\<rparr>]\<rparr>\<rparr>"
  have "virtio_queue_desc_free q (int i) = Some ([DescUsedMap], ?q)"
    using b c(1) q by (simp add: virtio_queue_desc_free_def VIRTIO_MMIO_QUEUE_NUM_VALUE_def check_bit_view upd_desc_def queue_ok_def)
  moreover have "used_set ?q = used_set q - {i}"
    using c(3) q by (auto simp: used_set_def queue_ok_def view_below split: if_splits)
  ultimately show ?thesis using b c(2) q by (intro exI [of _ ?q]) (auto simp: queue_ok_def queue_frame_def)
qed

subsection \<open>Several descriptors\<close>

lemma desc_free_all_used:
  assumes "queue_ok q" and "distinct xs" and "set xs \<subseteq> used_set q"
  shows "\<exists>w q'. desc_free_all q (map int xs) = Some (w, q') \<and> used_set q' = used_set q - set xs \<and> queue_ok q' \<and>
    queue_frame (- set xs) q q'"
  using assms
proof (induction xs arbitrary: q)
  case (Cons x xs)
  obtain q1 where 1: "virtio_queue_desc_free q (int x) = Some ([DescUsedMap], q1)" "used_set q1 = used_set q - {x}"
    "queue_ok q1" "queue_frame (- {x}) q q1" using desc_free_used [of q x] Cons.prems by auto
  have "set xs \<subseteq> used_set q1" using 1(2) Cons.prems by auto
  then obtain w q' where 2: "desc_free_all q1 (map int xs) = Some (w, q')" "used_set q' = used_set q1 - set xs" "queue_ok q'"
    "queue_frame (- set xs) q1 q'" using Cons.IH [OF 1(3)] Cons.prems by auto
  have "queue_frame (- set (x # xs)) q q'" using queue_frame_trans [OF 1(4) 2(4)] by (rule queue_frame_mono) auto
  then show ?case using 1 2 by auto
qed simp

definition allocated :: "nat \<Rightarrow> nat list \<Rightarrow> virtio_mmio_queue \<Rightarrow> int \<Rightarrow> int list \<Rightarrow> virtio_mmio_queue \<Rightarrow> bool" where
  "allocated n xs q r idxs q' \<longleftrightarrow> queue_ok q' \<and>
     ((\<exists>ys. r = 0 \<and> idxs = map int (xs @ ys) \<and> length ys = n \<and> distinct ys \<and> set ys \<inter> used_set q = {} \<and> set ys \<subseteq> {0..<8} \<and>
        used_set q' = used_set q \<union> set ys \<and> queue_frame UNIV q q') \<or>
      (r = - 1 \<and> card ({0..<8} - used_set q) < n \<and> used_set q' = used_set q - set xs \<and> queue_frame (used_set q - set xs) q q'))"

lemma used_set_bound: "used_set q \<subseteq> {0..<8}"
  by (auto simp: used_set_def)

lemma allocated_step:
  assumes i: "i < 8" "i \<notin> used_set q" and q1: "used_set q1 = insert i (used_set q)" "queue_frame UNIV q q1"
    and a: "allocated n (xs @ [i]) q1 r idxs q'"
  shows "allocated (Suc n) xs q r idxs q'"
proof -
  consider ys where "r = 0" "idxs = map int ((xs @ [i]) @ ys)" "length ys = n" "distinct ys" "set ys \<inter> used_set q1 = {}"
      "set ys \<subseteq> {0..<8}" "used_set q' = used_set q1 \<union> set ys" "queue_frame UNIV q1 q'"
    | "r = - 1" "card ({0..<8} - used_set q1) < n" "used_set q' = used_set q1 - set (xs @ [i])"
      "queue_frame (used_set q1 - set (xs @ [i])) q1 q'"
    using a unfolding allocated_def by blast
  then show ?thesis
  proof cases
    case 1
    have "queue_frame UNIV q q'" using queue_frame_trans [OF q1(2) 1(8)] by simp
    then show ?thesis using 1 a i q1 unfolding allocated_def
      by (intro conjI disjI1 exI [of _ "i # ys"]) auto
  next
    case 2
    have "{0..<8} - used_set q = insert i ({0..<8} - used_set q1)" using i q1 by auto
    moreover have "i \<notin> {0..<8} - used_set q1" using q1 by simp
    ultimately have "card ({0..<8} - used_set q) < Suc n" using 2(2) by simp
    moreover have "used_set q1 - set (xs @ [i]) = used_set q - set xs" using i q1 by auto
    ultimately show ?thesis using 2 a queue_frame_trans [OF q1(2) 2(4)] unfolding allocated_def by auto
  qed
qed

lemma alloc_some_loop_ok:
  assumes "queue_ok q" and "distinct xs" and "set xs \<subseteq> used_set q"
  shows "\<exists>r idxs w q'. alloc_some_loop n (map int xs) q = Some (r, idxs, w, q') \<and> allocated n xs q r idxs q'"
  using assms
proof (induction n arbitrary: xs q)
  case 0
  then show ?case by (auto simp: allocated_def)
next
  case (Suc n)
  show ?case
  proof (cases "used_set q = {0..<8}")
    case True
    obtain q1 where 1: "virtio_queue_desc_alloc q = Some (- 1, q1)" "used_set q1 = used_set q" "queue_ok q1" "queue_frame UNIV q q1"
      using desc_alloc_full [OF Suc.prems(1) True] by blast
    obtain w q' where 2: "desc_free_all q1 (map int xs) = Some (w, q')" "used_set q' = used_set q1 - set xs" "queue_ok q'"
      "queue_frame (- set xs) q1 q'" using desc_free_all_used [of q1 xs] Suc.prems 1 by auto
    have "queue_frame (used_set q - set xs) q q'"
      using queue_frame_trans [OF 1(4) 2(4)] by (rule queue_frame_mono) auto
    then show ?thesis using 1 2 True by (auto simp: allocated_def)
  next
    case False
    obtain i q1 where 1: "virtio_queue_desc_alloc q = Some (int i, q1)" "i < 8" "i \<notin> used_set q"
      "used_set q1 = insert i (used_set q)" "queue_ok q1" "queue_frame UNIV q q1"
      using desc_alloc_free [OF Suc.prems(1) False] by blast
    have "distinct (xs @ [i])" "set (xs @ [i]) \<subseteq> used_set q1" using Suc.prems 1 by auto
    from Suc.IH [OF 1(5) this] obtain r idxs w q' where
      2: "alloc_some_loop n (map int (xs @ [i])) q1 = Some (r, idxs, w, q')" "allocated n (xs @ [i]) q1 r idxs q'" by blast
    have "alloc_some_loop (Suc n) (map int xs) q = Some (r, idxs, w, q')" using 1(1) 2(1) by simp
    then show ?thesis using allocated_step [OF 1(2,3,4,6) 2(2)] by blast
  qed
qed

lemma alloc_three:
  assumes "queue_ok q"
  shows "\<exists>r idxs w q'. virtio_queue_desc_alloc_some q 3 = Some (r, idxs, w, q') \<and> queue_ok q' \<and>
    ((\<exists>a b c. r = 0 \<and> idxs = [int a, int b, int c] \<and> distinct [a, b, c] \<and> {a, b, c} \<inter> used_set q = {} \<and> {a, b, c} \<subseteq> {0..<8} \<and>
        used_set q' = used_set q \<union> {a, b, c} \<and> queue_frame UNIV q q') \<or>
     (r = - 1 \<and> 5 < card (used_set q) \<and> used_set q' = used_set q \<and> queue_frame (used_set q) q q'))"
proof -
  obtain r idxs w q' where 1: "alloc_some_loop 3 (map int []) q = Some (r, idxs, w, q')" "allocated 3 [] q r idxs q'"
    using alloc_some_loop_ok [OF assms, of "[]" 3] by auto
  have "card ({0..<8} - used_set q) = 8 - card (used_set q)"
    using used_set_bound [of q] by (simp add: card_Diff_subset finite_subset)
  moreover have "\<exists>a b c. ys = [a, b, c]" if "length ys = 3" for ys :: "nat list"
    using that by (auto simp: numeral_3_eq_3 length_Suc_conv)
  ultimately show ?thesis
    using 1 unfolding allocated_def virtio_queue_desc_alloc_some_def VIRTIO_MMIO_QUEUE_NUM_VALUE_def by fastforce
qed

subsection \<open>Chains of three\<close>

definition q_desc :: "virtio_mmio_queue \<Rightarrow> nat \<Rightarrow> virtio_mmio_queue_desc" where
  "q_desc q i = desc (io_ring q) ! i"

definition succ_of :: "virtio_mmio_queue \<Rightarrow> nat \<Rightarrow> nat" where
  "succ_of q i = unat (q_next (q_desc q i))"

definition chain_of :: "virtio_mmio_queue \<Rightarrow> nat \<Rightarrow> nat set" where
  "chain_of q i = {i, succ_of q i, succ_of q (succ_of q i)}"

definition has_next :: "virtio_mmio_queue \<Rightarrow> nat \<Rightarrow> bool" where
  "has_next q i \<longleftrightarrow> q_flags (q_desc q i) AND VIRTIO_MMIO_QUEUE_DESC_F_NEXT \<noteq> 0"

definition chain_ok :: "virtio_mmio_queue \<Rightarrow> nat \<Rightarrow> bool" where
  "chain_ok q i \<longleftrightarrow> distinct [i, succ_of q i, succ_of q (succ_of q i)] \<and> chain_of q i \<subseteq> used_set q \<and>
     has_next q i \<and> has_next q (succ_of q i) \<and> \<not> has_next q (succ_of q (succ_of q i))"

lemma free_chain_step:
  assumes q: "queue_ok q" and i: "i \<in> used_set q"
  shows "\<exists>q1. used_set q1 = used_set q - {i} \<and> queue_ok q1 \<and> queue_frame (- {i}) q q1 \<and>
    virtio_queue_desc_free_chain q (int i) =
     (if has_next q i then do { (ws, q') \<leftarrow> virtio_queue_desc_free_chain q1 (int (succ_of q i)); Some (DescUsedMap # ws, q') }
      else Some ([DescUsedMap], q1))"
proof -
  obtain q1 where 1: "virtio_queue_desc_free q (int i) = Some ([DescUsedMap], q1)" "used_set q1 = used_set q - {i}"
    "queue_ok q1" "queue_frame (- {i}) q q1" "desc (io_ring q1) ! i = (desc (io_ring q) ! i)\<lparr>q_addr := 0\<rparr>"
    using desc_free_used [OF q i] by blast
  have "i < length (desc (io_ring q1))" using i 1(3) by (auto simp: queue_ok_def used_set_def)
  then show ?thesis using 1
    by (intro exI [of _ q1]) (subst virtio_queue_desc_free_chain.simps, auto simp: has_next_def succ_of_def q_desc_def)
qed

lemma frame_desc:
  "queue_frame K q q' \<Longrightarrow> j \<in> K \<Longrightarrow> q_desc q' j = q_desc q j"
  "queue_frame K q q' \<Longrightarrow> j \<in> K \<Longrightarrow> has_next q' j = has_next q j"
  "queue_frame K q q' \<Longrightarrow> j \<in> K \<Longrightarrow> succ_of q' j = succ_of q j"
  by (auto simp: queue_frame_def q_desc_def has_next_def succ_of_def)

lemma free_chain_three:
  assumes q: "queue_ok q" and c: "chain_ok q i"
  shows "\<exists>q'. virtio_queue_desc_free_chain q (int i) = Some ([DescUsedMap, DescUsedMap, DescUsedMap], q') \<and>
    used_set q' = used_set q - chain_of q i \<and> queue_ok q' \<and> queue_frame (- chain_of q i) q q'"
proof -
  define j k where "j = succ_of q i" and "k = succ_of q j"
  have d: "i \<noteq> j" "i \<noteq> k" "j \<noteq> k" and u: "i \<in> used_set q" "j \<in> used_set q" "k \<in> used_set q"
    and n: "has_next q i" "has_next q j" "\<not> has_next q k" and ch: "chain_of q i = {i, j, k}"
    using c by (auto simp: chain_ok_def chain_of_def j_def k_def)
  obtain q1 where 1: "used_set q1 = used_set q - {i}" "queue_ok q1" "queue_frame (- {i}) q q1"
    "virtio_queue_desc_free_chain q (int i) = do { (ws, q') \<leftarrow> virtio_queue_desc_free_chain q1 (int j); Some (DescUsedMap # ws, q') }"
    using free_chain_step [OF q u(1)] n(1) by (auto simp: j_def)
  have "j \<in> used_set q1" "has_next q1 j" "succ_of q1 j = k" using 1 u d n frame_desc [OF 1(3), of j] by (auto simp: k_def)
  then obtain q2 where 2: "used_set q2 = used_set q1 - {j}" "queue_ok q2" "queue_frame (- {j}) q1 q2"
    "virtio_queue_desc_free_chain q1 (int j) = do { (ws, q') \<leftarrow> virtio_queue_desc_free_chain q2 (int k); Some (DescUsedMap # ws, q') }"
    using free_chain_step [OF 1(2), of j] by auto
  have "k \<in> used_set q2" "\<not> has_next q2 k" using 1 2 u d n frame_desc [OF 1(3), of k] frame_desc [OF 2(3), of k] by auto
  then obtain q3 where 3: "used_set q3 = used_set q2 - {k}" "queue_ok q3" "queue_frame (- {k}) q2 q3"
    "virtio_queue_desc_free_chain q2 (int k) = Some ([DescUsedMap], q3)"
    using free_chain_step [OF 2(2), of k] by auto
  have "queue_frame (- chain_of q i) q q3"
    using queue_frame_trans [OF queue_frame_trans [OF 1(3) 2(3)] 3(3)] unfolding ch by (rule queue_frame_mono) auto
  moreover have "used_set q3 = used_set q - chain_of q i" unfolding ch 3 2 1 by auto
  ultimately show ?thesis using 1(4) 2(4) 3 by simp
qed

end
