(* ===== verification/Virtio_System.thy ===== *)
theory Virtio_System
  imports Virtio_Queue
begin

text \<open>
  The disk driver together with the device and the callers.  The step relation interleaves calls of
  \<open>virtio_disk_rw\<close>, callers that are woken, the interrupt handler and the two things the
  device does according to the virtio specification: it takes the next head off the available ring,
  and it reports a request it has carried out on the used ring with status 0.
\<close>

record disk_sys =
  disk :: virtio_disk
  seen :: u16
  fetched :: "nat set"
  callers :: "nat set"

definition head_at :: "disk_sys \<Rightarrow> nat \<Rightarrow> nat" where
  "head_at s k = unat (av_ring (avail (io_ring (queue (disk s)))) ! ((unat (seen s) + k) mod 8))"

definition device_reports :: "nat \<Rightarrow> u32 \<Rightarrow> virtio_disk \<Rightarrow> virtio_disk" where
  "device_reports i n d = (let us = used (io_ring (queue d)) in
     d\<lparr>queue := (queue d)\<lparr>io_ring := (io_ring (queue d))\<lparr>used :=
         us\<lparr>us_ring := (us_ring us)[unat (us_idx us) mod 8 := (of_nat i, n)], us_idx := us_idx us + 1\<rparr>\<rparr>\<rparr>,
       trace := (trace d)[i := (trace d ! i)\<lparr>tr_status := 0\<rparr>]\<rparr>)"

inductive disk_step :: "disk_sys \<Rightarrow> disk_sys \<Rightarrow> bool" where
  request: "virtio_disk_rw hart buf0 stat sector buf count func (disk s) = Some (Some i, res, w, d) \<Longrightarrow>
     disk_step s (s\<lparr>disk := d, callers := insert i (callers s)\<rparr>)"
| refused: "virtio_disk_rw hart buf0 stat sector buf count func (disk s) = Some (None, res, w, d) \<Longrightarrow>
     disk_step s (s\<lparr>disk := d\<rparr>)"
| fetch: "seen s \<noteq> av_idx (avail (io_ring (queue (disk s)))) \<Longrightarrow>
     disk_step s (s\<lparr>seen := seen s + 1, fetched := insert (head_at s 0) (fetched s)\<rparr>)"
| report: "i \<in> fetched s \<Longrightarrow>
     disk_step s (s\<lparr>disk := device_reports i n (disk s), fetched := fetched s - {i}\<rparr>)"
| interrupt: "virtio_disk_interrupt_handler hart (disk s) = Some (ws, d) \<Longrightarrow> disk_step s (s\<lparr>disk := d\<rparr>)"
| woken: "i \<in> callers s \<Longrightarrow> rw_resume hart i count (disk s) = Some (Asleep c, w, d) \<Longrightarrow> disk_step s (s\<lparr>disk := d\<rparr>)"
| finished: "i \<in> callers s \<Longrightarrow> rw_resume hart i count (disk s) = Some (Done r, w, d) \<Longrightarrow>
     disk_step s (s\<lparr>disk := d, callers := callers s - {i}\<rparr>)"

text \<open>After \<open>virtio_disk_setup\<close>: everything cleared.\<close>

definition zero_queue :: virtio_mmio_queue where
  "zero_queue = \<lparr>desc_used_map = [0], used_idx = 0, io_ring =
     \<lparr>desc = replicate 8 \<lparr>q_addr = 0, q_length = 0, q_flags = 0, q_next = 0\<rparr>,
      avail = \<lparr>av_flags = 0, av_idx = 0, av_ring = replicate 8 0\<rparr>,
      used = \<lparr>us_flags = 0, us_idx = 0, us_ring = replicate 8 (0, 0)\<rparr>\<rparr>\<rparr>"

definition fresh_disk :: "u64 \<Rightarrow> virtio_disk" where
  "fresh_disk a = \<lparr>io_addr = a, initialized = True, queue = zero_queue,
     trace = replicate 8 \<lparr>tr_addr = 0, tr_size = 0, tr_status = 0, tr_ok = 0\<rparr>, vd_lock = \<lparr>sl_lock = False, sl_cpu = 0\<rparr>\<rparr>"

definition init_sys :: "u64 \<Rightarrow> disk_sys" where
  "init_sys a = \<lparr>disk = fresh_disk a, seen = 0, fetched = {}, callers = {}\<rparr>"

definition disk_reach :: "disk_sys \<Rightarrow> bool" where
  "disk_reach s \<longleftrightarrow> (\<exists>a. disk_step\<^sup>*\<^sup>* (init_sys a) s)"

text \<open>The requests the device still has: those on the available ring and those it has taken.\<close>

definition waiting_heads :: "disk_sys \<Rightarrow> nat list" where
  "waiting_heads s = map (head_at s) [0..<unat (av_idx (avail (io_ring (queue (disk s)))) - seen s)]"

definition at_device :: "disk_sys \<Rightarrow> nat set" where
  "at_device s = fetched s \<union> set (waiting_heads s)"

subsection \<open>Stretches of a ring\<close>

definition ring_seg :: "'a list \<Rightarrow> nat \<Rightarrow> 'a list \<Rightarrow> bool" where
  "ring_seg r s xs \<longleftrightarrow> (\<forall>k < length xs. r ! ((s + k) mod 8) = xs ! k)"

lemma ring_seg_mod [simp]: "ring_seg r (s mod 8) xs = ring_seg r s xs"
  by (simp add: ring_seg_def mod_simps)

lemma ring_seg_cong: "s mod 8 = s' mod 8 \<Longrightarrow> ring_seg r s xs = ring_seg r s' xs"
  by (metis ring_seg_mod)

lemma ring_seg_pop: "ring_seg r s (x # xs) \<longleftrightarrow> r ! (s mod 8) = x \<and> ring_seg r (Suc s) xs"
  by (auto simp: ring_seg_def All_less_Suc2)

lemma ring_pos_inj:
  fixes s :: nat
  assumes "k < 8" and "k' < 8" and "(s + k) mod 8 = (s + k') mod 8"
  shows "k = k'"
proof -
  have m: "(s + x) mod 8 = (if s mod 8 + x < 8 then s mod 8 + x else s mod 8 + x - 8)" if "x < 8" for x
  proof -
    have "s mod 8 < 8" by simp
    then have "(s mod 8 + x) mod 8 = (if s mod 8 + x < 8 then s mod 8 + x else s mod 8 + x - 8)"
      using that by (simp add: mod_if [of "s mod 8 + x"])
    then show ?thesis by (simp only: mod_add_left_eq)
  qed
  show ?thesis using assms unfolding m [OF assms(1)] m [OF assms(2)] by (simp split: if_splits)
qed

lemma ring_seg_push:
  assumes "length r = 8" and "length xs < 8" and "ring_seg r s xs"
  shows "ring_seg (r[(s + length xs) mod 8 := x]) s (xs @ [x])"
  unfolding ring_seg_def
proof (intro allI impI)
  fix k assume k: "k < length (xs @ [x])"
  show "r[(s + length xs) mod 8 := x] ! ((s + k) mod 8) = (xs @ [x]) ! k"
  proof (cases "k = length xs")
    case False
    then have "k < length xs" "(s + length xs) mod 8 \<noteq> (s + k) mod 8"
      using k assms(2) ring_pos_inj [of "length xs" k s] by auto
    then show ?thesis using assms(3) by (simp add: ring_seg_def nth_append)
  qed (simp add: assms(1))
qed

lemma unat_u16_succ_mod: "unat (w + 1 :: u16) mod 8 = Suc (unat w) mod 8"
proof -
  have "unat (w + 1) = (unat w + 1) mod 2 ^ 16" by (simp add: unat_word_ariths)
  moreover have "(8 :: nat) dvd 2 ^ 16" by (simp add: dvd_def)
  ultimately show ?thesis by (simp only: mod_mod_cancel) simp
qed

lemma unat_u32_succ_mod: "unat ((w + 1) mod 8 :: u32) = Suc (unat w) mod 8"
proof -
  have "unat (w + 1) = (unat w + 1) mod 2 ^ 32" by (simp add: unat_word_ariths)
  moreover have "(8 :: nat) dvd 2 ^ 32" by (simp add: dvd_def)
  ultimately have "unat (w + 1) mod 8 = Suc (unat w) mod 8" by (simp only: mod_mod_cancel) simp
  then show ?thesis by (simp add: unat_mod)
qed

subsection \<open>The invariant\<close>

text \<open>\<open>sv\<close> are the requests reported and not yet seen by the handler, \<open>dn\<close> those it has seen.\<close>

definition disk_ok :: "virtio_disk \<Rightarrow> bool" where
  "disk_ok d \<longleftrightarrow> queue_ok (queue d) \<and> \<not> sl_lock (vd_lock d) \<and> length (trace d) = 8 \<and> unat (used_idx (queue d)) < 8 \<and>
     length (av_ring (avail (io_ring (queue d)))) = 8 \<and> length (us_ring (used (io_ring (queue d)))) = 8"

definition chains_ok :: "virtio_mmio_queue \<Rightarrow> nat set \<Rightarrow> bool" where
  "chains_ok q C \<longleftrightarrow> (\<forall>i \<in> C. chain_ok q i) \<and> (\<forall>i \<in> C. \<forall>j \<in> C. i \<noteq> j \<longrightarrow> chain_of q i \<inter> chain_of q j = {}) \<and>
     used_set q = (\<Union>i \<in> C. chain_of q i)"

definition sent_ok :: "virtio_mmio_queue \<Rightarrow> u16 \<Rightarrow> nat list \<Rightarrow> bool" where
  "sent_ok q sn st \<longleftrightarrow> av_idx (avail (io_ring q)) = sn + of_nat (length st) \<and>
     ring_seg (av_ring (avail (io_ring q))) (unat sn) (map of_nat st)"

definition served_ok :: "virtio_mmio_queue \<Rightarrow> nat list \<Rightarrow> bool" where
  "served_ok q sv \<longleftrightarrow> unat (us_idx (used (io_ring q))) mod 8 = (unat (used_idx q) + length sv) mod 8 \<and>
     ring_seg (map fst (us_ring (used (io_ring q)))) (unat (used_idx q)) (map of_nat sv)"

definition trace_ok :: "disk_trace list \<Rightarrow> nat set \<Rightarrow> nat set \<Rightarrow> bool" where
  "trace_ok ts C dn \<longleftrightarrow> (\<forall>i \<in> C. tr_status (ts ! i) = 0 \<and> (tr_ok (ts ! i) \<noteq> 0 \<longleftrightarrow> i \<in> dn))"

definition phases_ok :: "nat set \<Rightarrow> nat list \<Rightarrow> nat set \<Rightarrow> nat list \<Rightarrow> nat set \<Rightarrow> bool" where
  "phases_ok C st ft sv dn \<longleftrightarrow> C = set st \<union> ft \<union> set sv \<union> dn \<and> distinct st \<and> distinct sv \<and>
     set st \<inter> ft = {} \<and> set st \<inter> set sv = {} \<and> set st \<inter> dn = {} \<and> ft \<inter> set sv = {} \<and> ft \<inter> dn = {} \<and> set sv \<inter> dn = {}"

definition sys_inv :: "disk_sys \<Rightarrow> nat list \<Rightarrow> nat list \<Rightarrow> nat set \<Rightarrow> bool" where
  "sys_inv s st sv dn \<longleftrightarrow> disk_ok (disk s) \<and> chains_ok (queue (disk s)) (callers s) \<and> sent_ok (queue (disk s)) (seen s) st \<and>
     served_ok (queue (disk s)) sv \<and> trace_ok (trace (disk s)) (callers s) dn \<and> phases_ok (callers s) st (fetched s) sv dn"

lemma chain_ok_card: "chain_ok q i \<Longrightarrow> card (chain_of q i) = 3"
  by (simp add: chain_ok_def chain_of_def)

lemma chain_ok_less: "chain_ok q i \<Longrightarrow> i < 8"
  by (auto simp: chain_ok_def chain_of_def used_set_def)

lemma chains_less: "chains_ok q C \<Longrightarrow> i \<in> C \<Longrightarrow> i < 8"
  by (auto simp: chains_ok_def intro: chain_ok_less)

lemma chains_finite: "chains_ok q C \<Longrightarrow> finite C"
  by (rule finite_subset [of _ "{0..<8}"]) (auto dest: chains_less)

text \<open>Eight descriptors are two chains of three: never more than two requests.\<close>

lemma chains_used_card:
  assumes "chains_ok q C"
  shows "card (used_set q) = 3 * card C"
proof -
  have "card (\<Union>i \<in> C. chain_of q i) = (\<Sum>i \<in> C. card (chain_of q i))"
    using assms by (intro card_UN_disjoint chains_finite) (auto simp: chains_ok_def chain_of_def)
  also have "\<dots> = (\<Sum>i \<in> C. 3)" using assms by (intro sum.cong) (auto simp: chains_ok_def chain_ok_card)
  finally show ?thesis using assms by (simp add: chains_ok_def)
qed

lemma chains_card:
  assumes "chains_ok q C"
  shows "card C \<le> 2"
  using chains_used_card [OF assms] card_mono [OF _ used_set_bound [of q]] by simp

lemma phases_length:
  assumes "chains_ok q C" and "phases_ok C st ft sv dn"
  shows "length st \<le> 2" "length sv \<le> 2"
proof -
  have "card (set st) \<le> card C" "card (set sv) \<le> card C"
    using assms chains_finite [OF assms(1)] by (auto simp: phases_ok_def intro!: card_mono)
  then show "length st \<le> 2" "length sv \<le> 2"
    using chains_card [OF assms(1)] assms(2) by (auto simp: phases_ok_def distinct_card)
qed

text \<open>What a change of the queue outside of the chains in use keeps.\<close>

lemma chain_frame:
  assumes "queue_frame K q q'" and "chain_of q i \<subseteq> K"
  shows "chain_of q' i = chain_of q i"
    and "chain_of q i \<subseteq> used_set q' \<Longrightarrow> chain_ok q i \<Longrightarrow> chain_ok q' i"
proof -
  have "i \<in> K" "succ_of q i \<in> K" "succ_of q (succ_of q i) \<in> K" using assms(2) by (auto simp: chain_of_def)
  note f = frame_desc [OF assms(1) this(1)] frame_desc [OF assms(1) this(2)] frame_desc [OF assms(1) this(3)]
  show e: "chain_of q' i = chain_of q i" by (simp add: chain_of_def f)
  show "chain_of q i \<subseteq> used_set q' \<Longrightarrow> chain_ok q i \<Longrightarrow> chain_ok q' i" unfolding chain_ok_def e by (simp add: f)
qed

lemma chains_frame:
  assumes c: "chains_ok q C" and f: "queue_frame (used_set q) q q'" and u: "used_set q' = used_set q"
  shows "chains_ok q' C"
proof -
  have "chain_of q i \<subseteq> used_set q" if "i \<in> C" for i using c that by (auto simp: chains_ok_def)
  then show ?thesis using c chain_frame [OF f] by (auto simp: chains_ok_def u)
qed

lemma chains_remove:
  assumes c: "chains_ok q C" and i: "i \<in> C" and f: "queue_frame (- chain_of q i) q q'"
    and u: "used_set q' = used_set q - chain_of q i"
  shows "chains_ok q' (C - {i})"
proof -
  have o: "chain_of q j \<subseteq> - chain_of q i" "chain_of q j \<subseteq> used_set q" if "j \<in> C - {i}" for j
    using c i that by (auto simp: chains_ok_def)
  have e: "chain_of q' j = chain_of q j" if "j \<in> C - {i}" for j using chain_frame(1) [OF f o(1) [OF that]] .
  have k: "chain_ok q' j" if "j \<in> C - {i}" for j
    using chain_frame(2) [OF f o(1) [OF that]] o [OF that] c that by (auto simp: u chains_ok_def)
  have "used_set q - chain_of q i = (\<Union>j \<in> C - {i}. chain_of q j)"
    using c i o(1) by (auto simp: chains_ok_def)
  then show ?thesis using c e k u by (auto simp: chains_ok_def)
qed

subsection \<open>A call of \<open>virtio_disk_rw\<close>\<close>

lemma upd_desc_in: "queue_ok q \<Longrightarrow> i < 8 \<Longrightarrow>
  upd_desc i f q = Some (q\<lparr>io_ring := (io_ring q)\<lparr>desc := (desc (io_ring q))[i := f (desc (io_ring q) ! i)]\<rparr>\<rparr>)"
  by (simp add: upd_desc_def queue_ok_def)

lemma unat_small_u16 [simp]: "i < 8 \<Longrightarrow> unat (of_nat i :: u16) = i"
  by (simp add: unat_of_nat take_bit_nat_eq_self)

lemma unat_small_u32 [simp]: "i < 8 \<Longrightarrow> unat (of_nat i :: u32) = i"
  by (simp add: unat_of_nat take_bit_nat_eq_self)

lemma set_descs_ok:
  assumes q: "queue_ok q" and d: "distinct [a, b, c]" and u: "{a, b, c} \<subseteq> used_set q"
  shows "\<exists>q'. set_descs buf0 stat buf count func a b c q = Some q' \<and> queue_ok q' \<and> desc_used_map q' = desc_used_map q \<and>
    queue_frame (- {a, b, c}) q q' \<and> chain_ok q' a \<and> chain_of q' a = {a, b, c}"
proof -
  have l: "a < 8" "b < 8" "c < 8" using u by (auto simp: used_set_def)
  define D where "D = desc (io_ring q)"
  let ?da = "\<lparr>q_addr = buf0, q_length = 16, q_flags = VIRTIO_MMIO_QUEUE_DESC_F_NEXT, q_next = of_nat b\<rparr>"
  let ?db = "\<lparr>q_addr = buf, q_length = ucast (count * SECTOR_SIZE),
    q_flags = (if func = 0 then VIRTIO_MMIO_QUEUE_DESC_F_WRITE_ONLY else 0) OR VIRTIO_MMIO_QUEUE_DESC_F_NEXT, q_next = of_nat c\<rparr>"
  let ?dc = "\<lparr>q_addr = stat, q_length = 1, q_flags = VIRTIO_MMIO_QUEUE_DESC_F_WRITE_ONLY, q_next = 0\<rparr>"
  define q' where "q' = q\<lparr>io_ring := (io_ring q)\<lparr>desc := D[a := ?da, b := ?db, c := ?dc]\<rparr>\<rparr>"
  have "length D = 8" using q by (simp add: D_def queue_ok_def)
  then have n: "q_desc q' a = ?da" "q_desc q' b = ?db" "q_desc q' c = ?dc"
    using d l by (auto simp: q_desc_def q'_def nth_list_update)
  have ok: "queue_ok q'" using q by (simp add: q'_def queue_ok_def D_def)
  have s: "set_descs buf0 stat buf count func a b c q = Some q'"
    using q l by (simp add: set_descs_def q'_def D_def upd_desc_in queue_ok_def)
  have f: "has_next q' a" "has_next q' b" "\<not> has_next q' c" "succ_of q' a = b" "succ_of q' b = c"
    using l by (auto simp: has_next_def succ_of_def n VIRTIO_MMIO_QUEUE_DESC_F_NEXT_def VIRTIO_MMIO_QUEUE_DESC_F_WRITE_ONLY_def)
  have "used_set q' = used_set q" by (simp add: used_set_def q'_def)
  then have "chain_of q' a = {a, b, c}" "chain_ok q' a" using d u f by (auto simp: chain_of_def chain_ok_def)
  moreover have "queue_frame (- {a, b, c}) q q'" by (auto simp: queue_frame_def q'_def D_def)
  ultimately show ?thesis using s ok by (simp add: q'_def)
qed

lemma put_avail_ok:
  assumes "length (av_ring (avail (io_ring q))) = 8" and "sent_ok q sn st" and "length st < 8"
  shows "\<exists>q'. put_avail i q = Some q' \<and> desc_used_map q' = desc_used_map q \<and> desc (io_ring q') = desc (io_ring q) \<and>
    used_idx q' = used_idx q \<and> used (io_ring q') = used (io_ring q) \<and> length (av_ring (avail (io_ring q'))) = 8 \<and>
    sent_ok q' sn (st @ [i])"
proof -
  define A where "A = avail (io_ring q)"
  have x: "av_idx A = sn + of_nat (length st)" "ring_seg (av_ring A) (unat sn) (map of_nat st)"
    using assms(2) by (auto simp: sent_ok_def A_def)
  have "unat (av_idx A) = (unat sn + length st) mod 2 ^ 16"
    using assms(3) by (simp add: x(1) unat_word_ariths unat_of_nat take_bit_nat_eq_self)
  moreover have "(8 :: nat) dvd 2 ^ 16" by (simp add: dvd_def)
  ultimately have p: "unat (av_idx A) mod 8 = (unat sn + length st) mod 8" by (simp only: mod_mod_cancel)
  let ?q = "q\<lparr>io_ring := (io_ring q)\<lparr>avail := A\<lparr>av_ring := (av_ring A)[unat (av_idx A) mod 8 := of_nat i], av_idx := av_idx A + 1\<rparr>\<rparr>\<rparr>"
  have "ring_seg ((av_ring A)[unat (av_idx A) mod 8 := of_nat i]) (unat sn) (map of_nat (st @ [i]))"
    using ring_seg_push [of "av_ring A" "map of_nat st" "unat sn" "of_nat i"] assms(1,3) x(2) unfolding p by (simp add: A_def)
  then have "sent_ok ?q sn (st @ [i])" by (simp add: sent_ok_def x(1))
  moreover have "put_avail i q = Some ?q"
    using assms(1) by (simp add: put_avail_def Let_def A_def VIRTIO_MMIO_QUEUE_NUM_VALUE_def)
  ultimately show ?thesis using assms(1) by (intro exI [of _ ?q]) (simp add: A_def)
qed

lemma chains_cong:
  assumes "desc_used_map q' = desc_used_map q" and "desc (io_ring q') = desc (io_ring q)"
  shows "chains_ok q' C = chains_ok q C" and "chain_of q' = chain_of q" and "used_set q' = used_set q" and "queue_ok q' = queue_ok q"
proof -
  have "q_desc q' = q_desc q" "used_set q' = used_set q" using assms by (auto simp: q_desc_def used_set_def)
  then show "chains_ok q' C = chains_ok q C" "chain_of q' = chain_of q" "used_set q' = used_set q" "queue_ok q' = queue_ok q"
    using assms by (auto simp: chains_ok_def chain_ok_def chain_of_def has_next_def succ_of_def fun_eq_iff queue_ok_def)
qed

lemma frame_sent: "queue_frame K q q' \<Longrightarrow> sent_ok q' sn st = sent_ok q sn st"
  by (simp add: queue_frame_def sent_ok_def)

lemma frame_served: "queue_frame K q q' \<Longrightarrow> served_ok q' sv = served_ok q sv"
  by (simp add: queue_frame_def served_ok_def)

lemma served_cong: "used_idx q' = used_idx q \<Longrightarrow> used (io_ring q') = used (io_ring q) \<Longrightarrow> served_ok q' sv = served_ok q sv"
  by (simp add: served_ok_def)

lemma chains_insert:
  assumes c: "chains_ok q C" and new: "chain_ok q' i" "chain_of q' i \<inter> used_set q = {}"
    and f: "queue_frame (- chain_of q' i) q q'" and u: "used_set q' = used_set q \<union> chain_of q' i"
  shows "chains_ok q' (insert i C)"
proof -
  have s: "chain_of q j \<subseteq> used_set q" if "j \<in> C" for j using c that by (auto simp: chains_ok_def)
  have o: "chain_of q j \<subseteq> - chain_of q' i" if "j \<in> C" for j using s [OF that] new(2) by blast
  have e: "chain_of q' j = chain_of q j" if "j \<in> C" for j using chain_frame(1) [OF f o [OF that]] .
  have k: "chain_ok q' j" if "j \<in> C" for j
    using chain_frame(2) [OF f o [OF that]] s [OF that] c that by (auto simp: u chains_ok_def)
  have "used_set q' = (\<Union>j \<in> insert i C. chain_of q' j)" using c e u by (auto simp: chains_ok_def)
  moreover have "chain_of q' i \<inter> chain_of q' j = {}" if "j \<in> C" for j using o [OF that] e [OF that] by blast
  ultimately show ?thesis using c e k new(1) by (auto simp: chains_ok_def)
qed

definition issued :: "virtio_disk \<Rightarrow> nat set \<Rightarrow> u16 \<Rightarrow> nat list \<Rightarrow> nat list \<Rightarrow> nat set \<Rightarrow> nat \<Rightarrow> virtio_disk \<Rightarrow> bool" where
  "issued d C sn st sv dn i d' \<longleftrightarrow> i \<notin> C \<and> disk_ok (d'\<lparr>vd_lock := spinlock_init (vd_lock d')\<rparr>) \<and> chains_ok (queue d') (insert i C) \<and>
     sent_ok (queue d') sn (st @ [i]) \<and> served_ok (queue d') sv \<and> trace_ok (trace d') (insert i C) dn \<and>
     vd_lock d' = vd_lock d \<and> tr_ok (trace d' ! i) = 0 \<and> length (trace d') = 8"

lemma rw_issue_ok:
  assumes q: "queue_ok (queue d)" "length (trace d) = 8" "unat (used_idx (queue d)) < 8"
      "length (av_ring (avail (io_ring (queue d)))) = 8" "length (us_ring (used (io_ring (queue d)))) = 8"
    and q0: "chains_ok q0 C" "used_set (queue d) = used_set q0 \<union> {a, b, c}" "queue_frame UNIV q0 (queue d)"
      "distinct [a, b, c]" "{a, b, c} \<inter> used_set q0 = {}" "{a, b, c} \<subseteq> {0..<8}"
    and p: "sent_ok (queue d) sn st" "length st < 8" "served_ok (queue d) sv" "trace_ok (trace d) C dn" "dn \<subseteq> C"
  shows "\<exists>d'. rw_issue buf0 stat sector buf count func a b c d = Some d' \<and> issued d C sn st sv dn a d'"
proof -
  obtain q1 where 1: "set_descs buf0 (stat a) buf count func a b c (queue d) = Some q1" "queue_ok q1"
    "desc_used_map q1 = desc_used_map (queue d)" "queue_frame (- {a, b, c}) (queue d) q1" "chain_ok q1 a" "chain_of q1 a = {a, b, c}"
    using set_descs_ok [OF q(1) q0(4)] q0(2) by blast
  have u1: "used_set q1 = used_set q0 \<union> {a, b, c}" using 1(3) q0(2) by (simp add: used_set_def)
  have "queue_frame (- chain_of q1 a) q0 q1" using queue_frame_trans [OF q0(3) 1(4)] by (simp add: 1(6))
  then have c1: "chains_ok q1 (insert a C)" using chains_insert [OF q0(1) 1(5)] q0(5) u1 1(6) by auto
  have n: "a \<notin> C" using q0(1,5) by (auto simp: chains_ok_def chain_of_def)
  have l: "length (av_ring (avail (io_ring q1))) = 8" "sent_ok q1 sn st" "served_ok q1 sv"
    using 1(4) q(4) p frame_sent [OF 1(4)] frame_served [OF 1(4)] by (auto simp: queue_frame_def)
  obtain q2 where 2: "put_avail a q1 = Some q2" "desc_used_map q2 = desc_used_map q1" "desc (io_ring q2) = desc (io_ring q1)"
    "used_idx q2 = used_idx q1" "used (io_ring q2) = used (io_ring q1)" "length (av_ring (avail (io_ring q2))) = 8" "sent_ok q2 sn (st @ [a])"
    using put_avail_ok [OF l(1,2) p(2)] by blast
  let ?t = "\<lparr>tr_addr = sector, tr_size = count * SECTOR_SIZE, tr_status = 0, tr_ok = 0\<rparr>"
  let ?d = "d\<lparr>queue := q2, trace := (trace d)[a := ?t]\<rparr>"
  have a8: "a < length (trace d)" using q0(6) q(2) by simp
  have "rw_issue buf0 stat sector buf count func a b c d = Some ?d" using 1(1) 2(1) a8 by (simp add: rw_issue_def)
  moreover have "trace_ok ((trace d)[a := ?t]) (insert a C) dn"
    using p(4,5) n a8 by (auto simp: trace_ok_def nth_list_update)
  moreover have "used_idx q2 = used_idx (queue d)" "used (io_ring q2) = used (io_ring (queue d))"
    using 2 1(4) by (auto simp: queue_frame_def)
  ultimately show ?thesis
    using n q a8 2 c1 l 1(2) chains_cong [OF 2(2,3)] served_cong [OF 2(4,5)]
    by (simp add: issued_def disk_ok_def spinlock_init_def)
qed

text \<open>Both outcomes of a call: it is refused, and then two requests are under way, or it is issued.\<close>

lemma virtio_disk_rw_ok:
  assumes I: "disk_ok d" "chains_ok (queue d) C" "sent_ok (queue d) sn st" "length st < 8" "served_ok (queue d) sv"
    "trace_ok (trace d) C dn" "dn \<subseteq> C"
  shows "\<exists>h res w d'. virtio_disk_rw hart buf0 stat sector buf count func d = Some (h, res, w, d') \<and> disk_ok d' \<and>
    (case h of
       None \<Rightarrow> res = Asleep DescUsedMap \<and> card C = 2 \<and> chains_ok (queue d') C \<and> sent_ok (queue d') sn st \<and>
         served_ok (queue d') sv \<and> trace d' = trace d
     | Some i \<Rightarrow> res = Asleep (TraceOf i) \<and> i \<notin> C \<and> chains_ok (queue d') (insert i C) \<and> sent_ok (queue d') sn (st @ [i]) \<and>
         served_ok (queue d') sv \<and> trace_ok (trace d') (insert i C) dn)"
proof -
  let ?l = "(vd_lock d)\<lparr>sl_lock := True, sl_cpu := hart\<rparr>"
  let ?u = "(vd_lock d)\<lparr>sl_lock := False, sl_cpu := 0\<rparr>"
  have L: "lock_acquire hart (vd_lock d) = Some ?l" using I(1) by (simp add: disk_ok_def lock_acquire_free)
  have q: "queue_ok (queue d)" using I(1) by (simp add: disk_ok_def)
  from alloc_three [OF q] obtain r idxs w q1 where A: "virtio_queue_desc_alloc_some (queue d) 3 = Some (r, idxs, w, q1)" "queue_ok q1"
    and cases: "(\<exists>a b c. r = 0 \<and> idxs = [int a, int b, int c] \<and> distinct [a, b, c] \<and> {a, b, c} \<inter> used_set (queue d) = {} \<and>
        {a, b, c} \<subseteq> {0..<8} \<and> used_set q1 = used_set (queue d) \<union> {a, b, c} \<and> queue_frame UNIV (queue d) q1) \<or>
     (r = - 1 \<and> 5 < card (used_set (queue d)) \<and> used_set q1 = used_set (queue d) \<and> queue_frame (used_set (queue d)) (queue d) q1)"
    by (elim exE conjE) (rule that)
  let ?d1 = "d\<lparr>vd_lock := ?l, queue := q1\<rparr>"
  from cases show ?thesis
  proof (elim disjE exE conjE)
    fix a b c assume r: "r = 0" "idxs = [int a, int b, int c]" "distinct [a, b, c]" "{a, b, c} \<inter> used_set (queue d) = {}"
      "{a, b, c} \<subseteq> {0..<8}" "used_set q1 = used_set (queue d) \<union> {a, b, c}" and f: "queue_frame UNIV (queue d) q1"
    have "\<exists>d'. rw_issue buf0 stat sector buf count func a b c ?d1 = Some d' \<and> issued ?d1 C sn st sv dn a d'"
      using I A(2) r f frame_sent [OF f] frame_served [OF f] by (intro rw_issue_ok) (auto simp: disk_ok_def queue_frame_def)
    then obtain d' where d': "rw_issue buf0 stat sector buf count func a b c ?d1 = Some d'" "issued ?d1 C sn st sv dn a d'" by blast
    have "a < length (trace d')" "tr_ok (trace d' ! a) = 0" "vd_lock d' = ?l" using d'(2) r(5) by (auto simp: issued_def)
    then have "rw_wait hart a count d' = Some (Asleep (TraceOf a), [], d'\<lparr>vd_lock := ?u\<rparr>)"
      by (simp add: rw_wait_def lock_release_held)
    then have "virtio_disk_rw hart buf0 stat sector buf count func d = Some (Some a, Asleep (TraceOf a), w, d'\<lparr>vd_lock := ?u\<rparr>)"
      using L A(1) r(1,2) d'(1) by (simp add: virtio_disk_rw_def Let_def)
    then show ?thesis using d'(2) by (auto simp: issued_def disk_ok_def spinlock_init_def)
  next
    assume r: "r = - 1" "5 < card (used_set (queue d))" "used_set q1 = used_set (queue d)"
      and f: "queue_frame (used_set (queue d)) (queue d) q1"
    have "virtio_disk_rw hart buf0 stat sector buf count func d = Some (None, Asleep DescUsedMap, w, d\<lparr>vd_lock := ?u, queue := q1\<rparr>)"
      using L A(1) r(1) by (simp add: virtio_disk_rw_def Let_def lock_release_held)
    moreover have "card C = 2" using chains_card [OF I(2)] chains_used_card [OF I(2)] r(2) by simp
    moreover have "disk_ok (d\<lparr>vd_lock := ?u, queue := q1\<rparr>)" using I(1) A(2) f by (simp add: disk_ok_def queue_frame_def)
    ultimately show ?thesis using I chains_frame [OF I(2) f r(3)] by (simp add: frame_sent [OF f] frame_served [OF f])
  qed
qed

subsection \<open>The interrupt handler\<close>

definition mark_ok :: "nat list \<Rightarrow> disk_trace list \<Rightarrow> disk_trace list" where
  "mark_ok sv ts = fold (\<lambda>i ts. ts[i := (ts ! i)\<lparr>tr_ok := 1\<rparr>]) sv ts"

lemma mark_ok_length [simp]: "length (mark_ok sv ts) = length ts"
  by (induction sv arbitrary: ts) (auto simp: mark_ok_def)

lemma mark_ok_nth:
  "set sv \<subseteq> {0..<length ts} \<Longrightarrow> mark_ok sv ts ! i = (if i \<in> set sv then (ts ! i)\<lparr>tr_ok := 1\<rparr> else ts ! i)"
  by (induction sv arbitrary: ts) (auto simp: mark_ok_def nth_list_update)

lemma used_loop_ok:
  assumes "served_ok (queue d) sv" "length sv < 8" "set sv \<subseteq> {0..<8}" "\<forall>i \<in> set sv. tr_status (trace d ! i) = 0"
    "length (trace d) = 8" "unat (used_idx (queue d)) < 8" "length (us_ring (used (io_ring (queue d)))) = 8"
  shows "\<exists>u. used_loop ws d = Some (ws @ map TraceOf sv, d\<lparr>trace := mark_ok sv (trace d), queue := (queue d)\<lparr>used_idx := u\<rparr>\<rparr>) \<and>
    unat u < 8 \<and> unat u = unat (us_idx (used (io_ring (queue d)))) mod 8"
  using assms
proof (induction sv arbitrary: d ws)
  case Nil
  then have "used_loop ws d = Some (ws, d)"
    by (subst used_loop.simps) (simp add: served_ok_def VIRTIO_MMIO_QUEUE_NUM_VALUE_def Let_def)
  then show ?case using Nil by (intro exI [of _ "used_idx (queue d)"]) (simp add: mark_ok_def served_ok_def)
next
  case (Cons i sv)
  define q us where "q = queue d" and "us = used (io_ring q)"
  have u8: "unat (used_idx q) < 8" and i: "i < 8" using Cons.prems by (auto simp: q_def)
  have s: "unat (us_idx us) mod 8 = (unat (used_idx q) + Suc (length sv)) mod 8"
    "map fst (us_ring us) ! unat (used_idx q) = of_nat i" "ring_seg (map fst (us_ring us)) (Suc (unat (used_idx q))) (map of_nat sv)"
    using Cons.prems(1) u8 by (auto simp: served_ok_def us_def q_def ring_seg_pop)
  have ne: "unat (used_idx q) mod 8 \<noteq> unat (us_idx us) mod 8"
    unfolding s(1) using ring_pos_inj [of 0 "Suc (length sv)" "unat (used_idx q)"] Cons.prems(2) by auto
  have f: "fst (us_ring us ! unat (used_idx q)) = of_nat i" using s(2) u8 Cons.prems(7) by (simp add: us_def q_def)
  define q' where "q' = q\<lparr>used_idx := (used_idx q + 1) mod 8\<rparr>"
  define d' where "d' = d\<lparr>trace := (trace d)[i := (trace d ! i)\<lparr>tr_ok := 1\<rparr>], queue := q'\<rparr>"
  have l: "used_loop ws d = used_loop (ws @ [TraceOf i]) d'"
    using ne f u8 i Cons.prems(4,5,7)
    by (subst used_loop.simps) (auto simp: Let_def VIRTIO_MMIO_QUEUE_NUM_VALUE_def d'_def q'_def q_def us_def split: prod.split)
  have "served_ok (queue d') sv" "unat (used_idx (queue d')) < 8"
    using s by (auto simp: served_ok_def d'_def q'_def us_def unat_u32_succ_mod mod_simps)
  moreover have "\<forall>j \<in> set sv. tr_status (trace d' ! j) = 0"
    using Cons.prems(4,5) i by (auto simp: d'_def nth_list_update)
  ultimately obtain u where "used_loop (ws @ [TraceOf i]) d' =
      Some ((ws @ [TraceOf i]) @ map TraceOf sv, d'\<lparr>trace := mark_ok sv (trace d'), queue := (queue d')\<lparr>used_idx := u\<rparr>\<rparr>)"
      "unat u < 8" "unat u = unat (us_idx (used (io_ring (queue d')))) mod 8"
    using Cons.IH [of d' "ws @ [TraceOf i]"] Cons.prems by (auto simp: d'_def q'_def q_def)
  then show ?case unfolding l by (intro exI [of _ u]) (simp add: d'_def q'_def q_def mark_ok_def)
qed

lemma handler_ok:
  assumes I: "disk_ok d" "chains_ok (queue d) C" "served_ok (queue d) sv" "trace_ok (trace d) C dn" "set sv \<subseteq> C" "length sv < 8"
  shows "\<exists>d'. virtio_disk_interrupt_handler hart d = Some (map TraceOf sv, d') \<and> disk_ok d' \<and> chains_ok (queue d') C \<and>
    avail (io_ring (queue d')) = avail (io_ring (queue d)) \<and> served_ok (queue d') [] \<and> trace_ok (trace d') C (dn \<union> set sv) \<and>
    used_set (queue d') = used_set (queue d) \<and> chain_of (queue d') = chain_of (queue d)"
proof -
  let ?l = "(vd_lock d)\<lparr>sl_lock := True, sl_cpu := hart\<rparr>" and ?u = "(vd_lock d)\<lparr>sl_lock := False, sl_cpu := 0\<rparr>"
  have L: "lock_acquire hart (vd_lock d) = Some ?l" using I(1) by (simp add: disk_ok_def lock_acquire_free)
  have sv: "set sv \<subseteq> {0..<8}" using I(2,5) chains_less by auto
  obtain u where u: "used_loop [] (d\<lparr>vd_lock := ?l\<rparr>) =
      Some (map TraceOf sv, d\<lparr>vd_lock := ?l, trace := mark_ok sv (trace d), queue := (queue d)\<lparr>used_idx := u\<rparr>\<rparr>)"
    "unat u < 8" "unat u = unat (us_idx (used (io_ring (queue d)))) mod 8"
    using used_loop_ok [of "d\<lparr>vd_lock := ?l\<rparr>" sv "[]"] I sv by (auto simp: disk_ok_def trace_ok_def)
  let ?d = "d\<lparr>trace := mark_ok sv (trace d), queue := (queue d)\<lparr>used_idx := u\<rparr>, vd_lock := ?u\<rparr>"
  have "virtio_disk_interrupt_handler hart d = Some (map TraceOf sv, ?d)"
    using L u(1) by (simp add: virtio_disk_interrupt_handler_def lock_release_held)
  moreover have "trace_ok (mark_ok sv (trace d)) C (dn \<union> set sv)"
    using I(1,4) sv by (auto simp: trace_ok_def disk_ok_def mark_ok_nth)
  moreover have "served_ok (queue ?d) []" using u by (simp add: served_ok_def ring_seg_def)
  moreover have "disk_ok ?d" using I(1) u(2) by (simp add: disk_ok_def queue_ok_def)
  ultimately show ?thesis using I(2) chains_cong [of "queue ?d" "queue d"] by (intro exI [of _ ?d]) simp
qed

subsection \<open>A caller that is woken\<close>

lemma rw_resume_ok:
  assumes I: "disk_ok d" "chains_ok (queue d) C" "trace_ok (trace d) C dn" "i \<in> C"
  shows "if i \<in> dn
    then \<exists>d'. rw_resume hart i count d = Some (Done (sint (ucast count :: u32)), [DescUsedMap, DescUsedMap, DescUsedMap], d') \<and>
      disk_ok d' \<and> chains_ok (queue d') (C - {i}) \<and> used_set (queue d') = used_set (queue d) - chain_of (queue d) i \<and>
      trace d' = trace d \<and> queue_frame (- chain_of (queue d) i) (queue d) (queue d')
    else rw_resume hart i count d = Some (Asleep (TraceOf i), [], d\<lparr>vd_lock := (vd_lock d)\<lparr>sl_lock := False, sl_cpu := 0\<rparr>\<rparr>)"
proof -
  let ?l = "(vd_lock d)\<lparr>sl_lock := True, sl_cpu := hart\<rparr>" and ?u = "(vd_lock d)\<lparr>sl_lock := False, sl_cpu := 0\<rparr>"
  have L: "lock_acquire hart (vd_lock d) = Some ?l" using I(1) by (simp add: disk_ok_def lock_acquire_free)
  have i: "i < length (trace d)" "tr_ok (trace d ! i) \<noteq> 0 \<longleftrightarrow> i \<in> dn" and ch: "chain_ok (queue d) i"
    using I chains_less [OF I(2,4)] by (auto simp: disk_ok_def trace_ok_def chains_ok_def)
  show ?thesis
  proof (cases "i \<in> dn")
    case True
    obtain q' where q': "virtio_queue_desc_free_chain (queue d) (int i) = Some ([DescUsedMap, DescUsedMap, DescUsedMap], q')"
      "used_set q' = used_set (queue d) - chain_of (queue d) i" "queue_ok q'" "queue_frame (- chain_of (queue d) i) (queue d) q'"
      using free_chain_three [OF _ ch] I(1) by (auto simp: disk_ok_def)
    have "rw_resume hart i count d =
        Some (Done (sint (ucast count :: u32)), [DescUsedMap, DescUsedMap, DescUsedMap], d\<lparr>queue := q', vd_lock := ?u\<rparr>)"
      using L i True q'(1) by (simp add: rw_resume_def rw_wait_def lock_release_held)
    moreover have "disk_ok (d\<lparr>queue := q', vd_lock := ?u\<rparr>)" using I(1) q'(3,4) by (auto simp: disk_ok_def queue_frame_def)
    ultimately show ?thesis using True q' chains_remove [OF I(2,4) q'(4,2)] by simp
  next
    case False
    then show ?thesis using L i by (simp add: rw_resume_def rw_wait_def lock_release_held)
  qed
qed

subsection \<open>The device\<close>

lemma report_served:
  assumes "served_ok (queue d) sv" "length sv < 8" "length (us_ring (used (io_ring (queue d)))) = 8"
  shows "served_ok (queue (device_reports i n d)) (sv @ [i])"
proof -
  define us u where "us = used (io_ring (queue d))" and "u = unat (used_idx (queue d))"
  have s: "unat (us_idx us) mod 8 = (u + length sv) mod 8" "ring_seg (map fst (us_ring us)) u (map of_nat sv)"
    using assms(1) by (auto simp: served_ok_def us_def u_def)
  have "ring_seg ((map fst (us_ring us))[(u + length sv) mod 8 := of_nat i]) u (map of_nat sv @ [of_nat i])"
    using ring_seg_push [OF _ _ s(2)] assms(2,3) by (simp add: us_def)
  moreover have "map fst ((us_ring us)[unat (us_idx us) mod 8 := (of_nat i, n)]) = (map fst (us_ring us))[(u + length sv) mod 8 := of_nat i]"
    by (simp add: map_update s(1))
  moreover have "unat (us_idx us + 1) mod 8 = (u + Suc (length sv)) mod 8"
    using s(1) mod_Suc_eq [of "unat (us_idx us)" 8] mod_Suc_eq [of "u + length sv" 8] by (simp add: unat_u16_succ_mod)
  ultimately show ?thesis
    by (simp add: served_ok_def device_reports_def Let_def us_def [symmetric] u_def [symmetric])
qed

lemma report_ok:
  assumes I: "disk_ok d" "chains_ok (queue d) C" "trace_ok (trace d) C dn"
  shows "disk_ok (device_reports i n d)" "chains_ok (queue (device_reports i n d)) C" "trace_ok (trace (device_reports i n d)) C dn"
    "avail (io_ring (queue (device_reports i n d))) = avail (io_ring (queue d))"
proof -
  have "tr_ok ((trace d)[i := (trace d ! i)\<lparr>tr_status := 0\<rparr>] ! j) = tr_ok (trace d ! j) \<and>
      (tr_status (trace d ! j) = 0 \<longrightarrow> tr_status ((trace d)[i := (trace d ! i)\<lparr>tr_status := 0\<rparr>] ! j) = 0)" for j
    by (cases "i < length (trace d)") (auto simp: nth_list_update list_update_beyond not_less)
  then show "trace_ok (trace (device_reports i n d)) C dn" using I(3) by (simp add: trace_ok_def device_reports_def Let_def)
  show "disk_ok (device_reports i n d)" using I(1) by (simp add: disk_ok_def device_reports_def Let_def queue_ok_def)
  show "chains_ok (queue (device_reports i n d)) C"
    using I(2) chains_cong(1) [of "queue (device_reports i n d)" "queue d"] by (simp add: device_reports_def Let_def)
qed (simp add: device_reports_def Let_def)

lemma sent_pop:
  assumes "sent_ok q sn st" "length st \<le> 2" "sn \<noteq> av_idx (avail (io_ring q))" "set st \<subseteq> {0..<8}"
  shows "\<exists>st'. st = unat (av_ring (avail (io_ring q)) ! (unat sn mod 8)) # st' \<and> sent_ok q (sn + 1) st'"
proof (cases st)
  case (Cons i st')
  have s: "av_ring (avail (io_ring q)) ! (unat sn mod 8) = of_nat i" "ring_seg (av_ring (avail (io_ring q))) (Suc (unat sn)) (map of_nat st')"
    using assms(1) by (auto simp: sent_ok_def Cons ring_seg_pop)
  have "ring_seg (av_ring (avail (io_ring q))) (unat (sn + 1)) (map of_nat st')"
    using s(2) ring_seg_cong [OF unat_u16_succ_mod] by blast
  then show ?thesis using assms s(1) by (auto simp: Cons sent_ok_def)
qed (use assms in \<open>simp add: sent_ok_def\<close>)

subsection \<open>Every step keeps the invariant\<close>

lemma sys_inv_bounds:
  assumes "sys_inv s st sv dn"
  shows "length st \<le> 2" "length sv \<le> 2" "callers s \<subseteq> {0..<8}" "dn \<subseteq> callers s" "set sv \<subseteq> callers s" "set st \<subseteq> {0..<8}"
proof -
  have c: "chains_ok (queue (disk s)) (callers s)" and p: "phases_ok (callers s) st (fetched s) sv dn"
    using assms by (auto simp: sys_inv_def)
  show "length st \<le> 2" "length sv \<le> 2" using phases_length [OF c p] by auto
  show 8: "callers s \<subseteq> {0..<8}" using chains_less [OF c] by auto
  show "dn \<subseteq> callers s" "set sv \<subseteq> callers s" "set st \<subseteq> {0..<8}" using p 8 by (auto simp: phases_ok_def)
qed

lemma init_inv: "sys_inv (init_sys a) [] [] {}"
  by (auto simp: sys_inv_def init_sys_def fresh_disk_def zero_queue_def disk_ok_def queue_ok_def chains_ok_def used_set_def
      bset_view_def sent_ok_def served_ok_def ring_seg_def trace_ok_def phases_ok_def)

lemma call_inv:
  assumes "sys_inv s st sv dn" and "virtio_disk_rw hart buf0 stat sector buf count func (disk s) = Some (h, res, w, d)"
  shows "case h of None \<Rightarrow> sys_inv (s\<lparr>disk := d\<rparr>) st sv dn
    | Some i \<Rightarrow> sys_inv (s\<lparr>disk := d, callers := insert i (callers s)\<rparr>) (st @ [i]) sv dn"
  using virtio_disk_rw_ok [of "disk s" "callers s" "seen s" st sv dn hart buf0 stat sector buf count func] assms sys_inv_bounds [OF assms(1)]
  by (auto simp: sys_inv_def phases_ok_def split: option.splits)

lemma fetch_inv:
  assumes I: "sys_inv s st sv dn" and n: "seen s \<noteq> av_idx (avail (io_ring (queue (disk s))))"
  shows "\<exists>st'. sys_inv (s\<lparr>seen := seen s + 1, fetched := insert (head_at s 0) (fetched s)\<rparr>) st' sv dn"
proof -
  obtain st' where "st = head_at s 0 # st'" "sent_ok (queue (disk s)) (seen s + 1) st'"
    using sent_pop [of "queue (disk s)" "seen s" st] I n sys_inv_bounds [OF I] by (auto simp: sys_inv_def head_at_def)
  then show ?thesis using I by (intro exI [of _ st']) (auto simp: sys_inv_def phases_ok_def)
qed

lemma report_inv:
  assumes I: "sys_inv s st sv dn" and i: "i \<in> fetched s"
  shows "sys_inv (s\<lparr>disk := device_reports i n (disk s), fetched := fetched s - {i}\<rparr>) st (sv @ [i]) dn"
  using report_ok [of "disk s" "callers s" dn i n] report_served [of "disk s" sv i n] I i sys_inv_bounds [OF I]
  by (auto simp: sys_inv_def phases_ok_def sent_ok_def disk_ok_def)

lemma interrupt_inv:
  assumes I: "sys_inv s st sv dn"
  shows "\<exists>d. virtio_disk_interrupt_handler hart (disk s) = Some (map TraceOf sv, d) \<and> sys_inv (s\<lparr>disk := d\<rparr>) st [] (dn \<union> set sv) \<and>
    used_set (queue d) = used_set (queue (disk s)) \<and> chain_of (queue d) = chain_of (queue (disk s))"
proof -
  obtain d where "virtio_disk_interrupt_handler hart (disk s) = Some (map TraceOf sv, d)" "disk_ok d" "chains_ok (queue d) (callers s)"
    "avail (io_ring (queue d)) = avail (io_ring (queue (disk s)))" "served_ok (queue d) []" "trace_ok (trace d) (callers s) (dn \<union> set sv)"
    "used_set (queue d) = used_set (queue (disk s))" "chain_of (queue d) = chain_of (queue (disk s))"
    using handler_ok [of "disk s" "callers s" sv dn hart] I sys_inv_bounds [OF I] by (auto simp: sys_inv_def)
  moreover have "phases_ok (callers s) st (fetched s) [] (dn \<union> set sv)" using I by (auto simp: sys_inv_def phases_ok_def)
  ultimately show ?thesis using I by (auto simp: sys_inv_def sent_ok_def)
qed

lemma resume_inv:
  assumes I: "sys_inv s st sv dn" and i: "i \<in> callers s" and r: "rw_resume hart i count (disk s) = Some (res, w, d)"
  shows "case res of Asleep c \<Rightarrow> sys_inv (s\<lparr>disk := d\<rparr>) st sv dn
    | Done r \<Rightarrow> sys_inv (s\<lparr>disk := d, callers := callers s - {i}\<rparr>) st sv (dn - {i})"
proof (cases "i \<in> dn")
  case True
  have "disk_ok (disk s)" "chains_ok (queue (disk s)) (callers s)" "trace_ok (trace (disk s)) (callers s) dn"
    using I by (auto simp: sys_inv_def)
  from rw_resume_ok [OF this i, of hart count] True r have d: "\<exists>x. res = Done x" "disk_ok d"
    "chains_ok (queue d) (callers s - {i})" "trace d = trace (disk s)" and f: "queue_frame (- chain_of (queue (disk s)) i) (queue (disk s)) (queue d)"
    by auto
  have "phases_ok (callers s - {i}) st (fetched s) sv (dn - {i})" "trace_ok (trace d) (callers s - {i}) (dn - {i})"
    using I True d(4) by (auto simp: sys_inv_def phases_ok_def trace_ok_def)
  then show ?thesis using I d by (auto simp: sys_inv_def frame_sent [OF f] frame_served [OF f])
next
  case False
  then have "res = Asleep (TraceOf i)" "d = (disk s)\<lparr>vd_lock := (vd_lock (disk s))\<lparr>sl_lock := False, sl_cpu := 0\<rparr>\<rparr>"
    using rw_resume_ok [of "disk s" "callers s" dn i hart count] I i r by (auto simp: sys_inv_def)
  then show ?thesis using I by (simp add: sys_inv_def disk_ok_def)
qed

lemma step_inv:
  assumes "disk_step s s'" and "sys_inv s st sv dn"
  shows "\<exists>st' sv' dn'. sys_inv s' st' sv' dn'"
  using assms
proof (cases rule: disk_step.cases)
  case (interrupt hart ws d)
  then show ?thesis using interrupt_inv [OF assms(2), of hart] by auto
qed (use call_inv [OF assms(2)] fetch_inv [OF assms(2)] report_inv [OF assms(2)] resume_inv [OF assms(2)] in \<open>fastforce+\<close>)

lemma reach_inv:
  assumes "disk_reach s"
  shows "\<exists>st sv dn. sys_inv s st sv dn"
proof -
  obtain a where "disk_step\<^sup>*\<^sup>* (init_sys a) s" using assms by (auto simp: disk_reach_def)
  then show ?thesis
  proof (induction rule: rtranclp_induct)
    case base
    show ?case using init_inv [of a] by (intro exI)
  next
    case (step s s')
    from step.IH obtain st sv dn where "sys_inv s st sv dn" by (elim exE)
    then show ?case by (rule step_inv [OF step(2)])
  qed
qed

lemma waiting_heads_eq:
  assumes "sys_inv s st sv dn"
  shows "waiting_heads s = st"
proof -
  have s: "sent_ok (queue (disk s)) (seen s) st" and l: "length st \<le> 2" "set st \<subseteq> {0..<8}"
    using assms sys_inv_bounds [OF assms] by (auto simp: sys_inv_def)
  then have "unat (av_idx (avail (io_ring (queue (disk s)))) - seen s) = length st"
    by (simp add: sent_ok_def unat_of_nat take_bit_nat_eq_self)
  moreover have "head_at s k = st ! k" if "k < length st" for k
  proof -
    have "st ! k < 8" using l(2) nth_mem [OF that] by auto
    then show ?thesis using s that by (simp add: sent_ok_def ring_seg_def head_at_def)
  qed
  ultimately show ?thesis unfolding waiting_heads_def by (intro nth_equalityI) (simp_all only: length_map length_upt nth_map nth_upt, simp_all)
qed

subsection \<open>Properties\<close>

text \<open>C16: Whatever the interleaving of callers, interrupts and the device, the requests under way own
  disjoint chains of three descriptors, together exactly the descriptors marked as used; so there are
  never more than two of them.  A further call of \<open>virtio_disk_rw\<close> always comes to its sleep: it
  waits for descriptors exactly when two requests are under way, and otherwise it waits for its own
  request, with a head nobody else has.\<close>

theorem virtio_disk_chains_disjoint:
  assumes "disk_reach s"
  shows "card (callers s) \<le> 2 \<and> used_set (queue (disk s)) = (\<Union>i \<in> callers s. chain_of (queue (disk s)) i) \<and>
    (\<forall>i \<in> callers s. card (chain_of (queue (disk s)) i) = 3) \<and>
    (\<forall>i \<in> callers s. \<forall>j \<in> callers s. i \<noteq> j \<longrightarrow> chain_of (queue (disk s)) i \<inter> chain_of (queue (disk s)) j = {}) \<and>
    (\<exists>h res w d. virtio_disk_rw hart buf0 stat sector buf count func (disk s) = Some (h, res, w, d) \<and>
      (case h of None \<Rightarrow> res = Asleep DescUsedMap \<and> card (callers s) = 2
       | Some i \<Rightarrow> res = Asleep (TraceOf i) \<and> i \<notin> callers s \<and> card (callers s) < 2))"
proof -
  obtain st sv dn where I: "sys_inv s st sv dn" using reach_inv [OF assms] by (elim exE)
  have c: "chains_ok (queue (disk s)) (callers s)" using I by (simp add: sys_inv_def)
  obtain h res w d where r: "virtio_disk_rw hart buf0 stat sector buf count func (disk s) = Some (h, res, w, d)"
    "case h of None \<Rightarrow> res = Asleep DescUsedMap \<and> card (callers s) = 2
       | Some i \<Rightarrow> res = Asleep (TraceOf i) \<and> i \<notin> callers s \<and> chains_ok (queue d) (insert i (callers s))"
    using virtio_disk_rw_ok [of "disk s" "callers s" "seen s" st sv dn hart buf0 stat sector buf count func] I sys_inv_bounds [OF I]
    by (fastforce simp: sys_inv_def split: option.splits)
  have "card (callers s) < 2" if "i \<notin> callers s" "chains_ok (queue d) (insert i (callers s))" for i
    using chains_card [OF that(2)] that(1) chains_finite [OF c] by simp
  then show ?thesis using r c chains_card [OF c] chain_ok_card by (auto simp: chains_ok_def split: option.splits)
qed

text \<open>C17: A request that the device has carried out comes to its end.  The handler always comes back;
  if the caller still waits it is among those woken, and when it runs the call returns and gives
  back the three descriptors, waking those who wait for some.  In particular the handler's comparison
  of the two ring indices modulo 8 never misses a report.\<close>

theorem virtio_disk_request_completes:
  assumes "disk_reach s" and "i \<in> callers s" and "i \<notin> at_device s"
  shows "\<exists>ws d. virtio_disk_interrupt_handler hart (disk s) = Some (ws, d) \<and>
    (tr_ok (trace (disk s) ! i) = 0 \<longrightarrow> TraceOf i \<in> set ws) \<and>
    (\<exists>w d'. rw_resume hart' i count d = Some (Done (sint (ucast count :: u32)), w, d') \<and> DescUsedMap \<in> set w \<and>
      used_set (queue d') = used_set (queue (disk s)) - chain_of (queue (disk s)) i)"
proof -
  obtain st sv dn where I: "sys_inv s st sv dn" using reach_inv [OF assms(1)] by (elim exE)
  have i: "i \<in> set sv \<union> dn" "tr_ok (trace (disk s) ! i) \<noteq> 0 \<longleftrightarrow> i \<in> dn"
    using assms(2,3) I waiting_heads_eq [OF I] by (auto simp: at_device_def sys_inv_def phases_ok_def trace_ok_def)
  obtain d where d: "virtio_disk_interrupt_handler hart (disk s) = Some (map TraceOf sv, d)" "sys_inv (s\<lparr>disk := d\<rparr>) st [] (dn \<union> set sv)"
    "used_set (queue d) = used_set (queue (disk s))" "chain_of (queue d) = chain_of (queue (disk s))"
    using interrupt_inv [OF I] by blast
  have "disk_ok d" "chains_ok (queue d) (callers s)" "trace_ok (trace d) (callers s) (dn \<union> set sv)"
    using d(2) by (auto simp: sys_inv_def)
  from rw_resume_ok [OF this assms(2), of hart' count] i(1) obtain d' where
    "rw_resume hart' i count d = Some (Done (sint (ucast count :: u32)), [DescUsedMap, DescUsedMap, DescUsedMap], d')"
    "used_set (queue d') = used_set (queue d) - chain_of (queue d) i" by auto
  then show ?thesis using d i by auto
qed

subsection \<open>An example run\<close>

text \<open>One read of sector 7 has been issued.\<close>

definition example_disk :: virtio_disk where
  "example_disk = \<lparr>io_addr = 0, initialized = True, queue =
     \<lparr>desc_used_map = [7], used_idx = 0, io_ring =
       \<lparr>desc = [\<lparr>q_addr = 0x80001000, q_length = 16, q_flags = 1, q_next = 1\<rparr>, \<lparr>q_addr = 0x80002000, q_length = 512, q_flags = 3, q_next = 2\<rparr>,
          \<lparr>q_addr = 0x80003000, q_length = 1, q_flags = 2, q_next = 0\<rparr>] @ replicate 5 \<lparr>q_addr = 0, q_length = 0, q_flags = 0, q_next = 0\<rparr>,
        avail = \<lparr>av_flags = 0, av_idx = 1, av_ring = replicate 8 0\<rparr>,
        used = \<lparr>us_flags = 0, us_idx = 0, us_ring = replicate 8 (0, 0)\<rparr>\<rparr>\<rparr>,
     trace = \<lparr>tr_addr = 7, tr_size = 512, tr_status = 0, tr_ok = 0\<rparr> # replicate 7 \<lparr>tr_addr = 0, tr_size = 0, tr_status = 0, tr_ok = 0\<rparr>,
     vd_lock = \<lparr>sl_lock = False, sl_cpu = 0\<rparr>\<rparr>"

lemma example_call:
  "virtio_disk_rw 0 0x80001000 (\<lambda>i. 0x80003000 + of_nat i) 7 0x80002000 1 0 (fresh_disk 0) =
    Some (Some 0, Asleep (TraceOf 0), [], example_disk)"
  by code_simp

definition example_sys :: disk_sys where
  "example_sys = \<lparr>disk = example_disk, seen = 0, fetched = {}, callers = {0}\<rparr>"

lemma example_reach: "disk_reach example_sys"
proof -
  have "disk (init_sys 0) = fresh_disk 0" by (simp add: init_sys_def)
  then have "disk_step (init_sys 0) ((init_sys 0)\<lparr>disk := example_disk, callers := insert 0 (callers (init_sys 0))\<rparr>)"
    using example_call by (intro disk_step.request) simp
  then have "disk_step (init_sys 0) example_sys" by (simp add: init_sys_def example_sys_def)
  then show ?thesis unfolding disk_reach_def by blast
qed

text \<open>The device takes it and reports it.\<close>

definition reported_sys :: disk_sys where
  "reported_sys = \<lparr>disk = device_reports 0 513 example_disk, seen = 1, fetched = {}, callers = {0}\<rparr>"

lemma reported_reach: "disk_reach reported_sys"
proof -
  let ?s = "example_sys\<lparr>seen := seen example_sys + 1, fetched := insert (head_at example_sys 0) (fetched example_sys)\<rparr>"
  have f: "disk_step example_sys ?s" by (rule disk_step.fetch) (simp add: example_sys_def example_disk_def)
  have h: "head_at example_sys 0 = 0" by (simp add: head_at_def example_sys_def example_disk_def)
  have "disk_step ?s (?s\<lparr>disk := device_reports 0 513 (disk ?s), fetched := fetched ?s - {0}\<rparr>)"
    by (rule disk_step.report) (simp add: h)
  then have "disk_step ?s reported_sys" unfolding h by (simp add: reported_sys_def example_sys_def)
  then show ?thesis using example_reach f unfolding disk_reach_def by (meson rtranclp.rtrancl_into_rtrancl)
qed

theorem virtio_disk_chains_disjoint_witness:
  "used_set (queue example_disk) = chain_of (queue example_disk) 0 \<and> card (chain_of (queue example_disk) 0) = 3"
  using virtio_disk_chains_disjoint [OF example_reach, of 0 0 "\<lambda>_. 0" 0 0 0 0] by (simp add: example_sys_def)

theorem virtio_disk_request_completes_witness:
  "\<exists>ws d. virtio_disk_interrupt_handler 1 (device_reports 0 513 example_disk) = Some (ws, d) \<and> TraceOf 0 \<in> set ws \<and>
     (\<exists>w d'. rw_resume 0 0 1 d = Some (Done 1, w, d'))"
proof -
  have t: "tr_ok (trace (device_reports 0 513 example_disk) ! 0) = 0" by (simp add: device_reports_def Let_def example_disk_def)
  have a: "0 \<notin> at_device reported_sys"
    by (simp add: at_device_def waiting_heads_def reported_sys_def device_reports_def Let_def example_disk_def)
  show ?thesis using virtio_disk_request_completes [OF reported_reach _ a, of 1 0 1] t by (auto simp: reported_sys_def)
qed

end
