(* ===== verification/Virtio_Range.thy ===== *)
theory Virtio_Range
  imports Virtio
begin

text \<open>
  Byte ranges on the disk: \<open>virtio_disk_read\<close> and \<open>virtio_disk_write\<close> on top of whole
  sectors, for a device that transfers sectors as the virtio specification says.
\<close>

text \<open>\<open>byte d a\<close> is the byte at address \<open>a\<close> of the device.  A transfer of type 0 fills the buffer, one
  of type 1 stores it.\<close>

definition block_device :: "'d transfer \<Rightarrow> ('d \<Rightarrow> nat \<Rightarrow> u8) \<Rightarrow> bool" where
  "block_device rw byte \<longleftrightarrow> (\<forall>d s buf. 512 dvd length buf \<longrightarrow>
     fst (rw d s buf 0) = map (byte d) [512 * unat s..<512 * unat s + length buf] \<and> byte (snd (rw d s buf 0)) = byte d \<and>
     fst (rw d s buf 1) = buf \<and>
     byte (snd (rw d s buf 1)) =
       (\<lambda>a. if 512 * unat s \<le> a \<and> a < 512 * unat s + length buf then buf ! (a - 512 * unat s) else byte d a))"

lemma block_device_read:
  assumes "block_device rw byte" "512 dvd length buf"
  shows "fst (rw d s buf 0) = map (byte d) [512 * unat s..<512 * unat s + length buf]" "byte (snd (rw d s buf 0)) = byte d"
  using assms by (auto simp: block_device_def)

lemma block_device_write:
  assumes "block_device rw byte" "512 dvd length buf"
  shows "fst (rw d s buf 1) = buf" "byte (snd (rw d s buf 1)) =
    (\<lambda>a. if 512 * unat s \<le> a \<and> a < 512 * unat s + length buf then buf ! (a - 512 * unat s) else byte d a)"
  using assms by (auto simp: block_device_def)

lemma rounded_size_ok:
  assumes "unat e + 4095 < 2 ^ 64"
  shows "unat e \<le> unat (rounded_size e) div 512 * 512"
proof (cases "e < 4096")
  case True
  then show ?thesis using assms unat_ROUNDUP_512 [of e] by (simp add: rounded_size_def SECTOR_SIZE_def)
next
  case False
  have "(unat e + 4095) div 4096 * 4096 div 512 * 512 = (unat e + 4095) div 4096 * 4096" by simp
  then show ?thesis using False assms unat_PG_ROUNDUP_small [of e] by (simp add: rounded_size_def)
qed

text \<open>The buffer covers the range: it starts in the sector of the offset and is long enough.\<close>

lemma sector_buffer_ok:
  assumes "unat offset + unat len + 4607 < 2 ^ 64" and "sector_buffer offset len = (s, off, kbuf)"
  shows "512 dvd length kbuf" "512 * unat s + off = unat offset" "off + unat len \<le> length kbuf" "kbuf = replicate (length kbuf) 0"
proof -
  define e where "e = len + offset mod SECTOR_SIZE"
  have m: "unat (offset mod SECTOR_SIZE) = unat offset mod 512" by (simp add: SECTOR_SIZE_def unat_mod)
  have "unat offset mod 512 < 512" by simp
  moreover have "unat e = (unat len + unat offset mod 512) mod 2 ^ 64"
    unfolding e_def m [symmetric] by (simp only: unat_word_ariths) simp
  ultimately have e: "unat e = unat len + unat offset mod 512" using assms(1) by simp
  then have "unat e + 4095 < 2 ^ 64" using assms(1) \<open>unat offset mod 512 < 512\<close> by simp
  then have r: "unat e \<le> unat (rounded_size e) div 512 * 512" by (rule rounded_size_ok)
  have "kbuf = replicate (unat (rounded_size e) div 512 * 512) 0" "off = unat offset mod 512" "unat s = unat offset div 512"
    using assms(2) m by (auto simp: sector_buffer_def Let_def e_def unat_div SECTOR_SIZE_def)
  then show "512 dvd length kbuf" "512 * unat s + off = unat offset" "off + unat len \<le> length kbuf" "kbuf = replicate (length kbuf) 0"
    using e r by auto
qed

lemma range_read:
  assumes "block_device rw byte" and "unat offset + unat len + 4607 < 2 ^ 64"
  shows "fst (virtio_disk_read rw offset len d) = map (byte d) [unat offset..<unat offset + unat len]"
    "byte (snd (virtio_disk_read rw offset len d)) = byte d"
proof -
  obtain s off kbuf where b: "sector_buffer offset len = (s, off, kbuf)" by (metis prod_cases3)
  note k = sector_buffer_ok [OF assms(2) b]
  note r = block_device_read [OF assms(1) k(1), of d s]
  show "fst (virtio_disk_read rw offset len d) = map (byte d) [unat offset..<unat offset + unat len]"
    using k by (auto simp: virtio_disk_read_def b r(1) split_beta take_map drop_map)
  show "byte (snd (virtio_disk_read rw offset len d)) = byte d"
    by (simp add: virtio_disk_read_def b r(2) split_beta)
qed

lemma range_write:
  assumes "block_device rw byte" and "unat offset + length buffer + 4607 < 2 ^ 64"
  shows "byte (virtio_disk_write rw buffer offset d) =
    (\<lambda>a. if unat offset \<le> a \<and> a < unat offset + length buffer then buffer ! (a - unat offset) else byte d a)"
proof -
  obtain s off kbuf where b: "sector_buffer offset (of_nat (length buffer)) = (s, off, kbuf)" by (metis prod_cases3)
  have l: "unat (of_nat (length buffer) :: u64) = length buffer" using assms(2) by (simp add: unat_of_nat take_bit_nat_eq_self)
  have k: "512 dvd length kbuf" "512 * unat s + off = unat offset" "off + length buffer \<le> length kbuf"
    using sector_buffer_ok [OF _ b] assms(2) by (auto simp: l)
  note r = block_device_read [OF assms(1) k(1), of d s]
  define old where "old = map (byte d) [512 * unat s..<512 * unat s + length kbuf]"
  define d1 where "d1 = snd (rw d s kbuf 0)"
  define new where "new = take off old @ buffer @ drop (off + length buffer) old"
  have n: "length new = length kbuf" using k(3) by (simp add: new_def old_def)
  have "virtio_disk_write rw buffer offset d = snd (rw d1 s new 1)"
    by (simp add: virtio_disk_write_def b split_beta new_def old_def d1_def r(1))
  moreover have "byte (snd (rw d1 s new 1)) =
      (\<lambda>a. if 512 * unat s \<le> a \<and> a < 512 * unat s + length kbuf then new ! (a - 512 * unat s) else byte d a)"
    using block_device_write(2) [OF assms(1), of new d1 s] k(1) n r(2) [folded d1_def] by (simp cong: if_cong)
  moreover have "new ! (a - 512 * unat s) = (if unat offset \<le> a \<and> a < unat offset + length buffer then buffer ! (a - unat offset) else byte d a)"
    if "512 * unat s \<le> a" "a < 512 * unat s + length kbuf" for a
    using that k(3) unfolding k(2) [symmetric] by (auto simp: new_def old_def nth_append)
  ultimately show ?thesis using k by (auto simp: fun_eq_iff)
qed

lemma map_index_range: "map (\<lambda>a. if n \<le> a \<and> a < n + length xs then xs ! (a - n) else f a) [n..<n + length xs] = xs"
  by (intro nth_equalityI) simp_all

subsection \<open>Properties\<close>


text \<open>The function the block cache writes back with, \<open>virtio_disk_rw_lba\<close> with \<open>func = 1\<close>,
  never looks at the caller's buffer: it stores zeros over the whole sectors of the range and
  overwrites the buffer with zeros.\<close>

lemma virtio_disk_rw_lba_erases:
  assumes "block_device rw byte" and "unat offset + unat len + 4607 < 2 ^ 64"
  shows "fst (virtio_disk_rw_lba rw offset len 1 d) = replicate (unat len) 0 \<and>
    (\<forall>a. unat offset \<le> a \<and> a < unat offset + unat len \<longrightarrow> byte (snd (virtio_disk_rw_lba rw offset len 1 d)) a = 0)"
proof -
  obtain s off kbuf where b: "sector_buffer offset len = (s, off, kbuf)" by (metis prod_cases3)
  note k = sector_buffer_ok [OF assms(2) b]
  note w = block_device_write [OF assms(1) k(1), of d s]
  have z: "kbuf ! j = 0" if "j < length kbuf" for j using that k(4) by (metis nth_replicate)
  have "take (unat len) (drop off kbuf) = replicate (unat len) 0"
    using k(3) z by (auto simp: list_eq_iff_nth_eq)
  moreover have "byte (snd (rw d s kbuf 1)) a = 0" if "unat offset \<le> a" "a < unat offset + unat len" for a
    using that k(2,3) z [of "a - 512 * unat s"] unfolding w(2) by auto
  ultimately show ?thesis using w(1) by (simp add: virtio_disk_rw_lba_def b split_beta)
qed

text \<open>A device that is nothing but its bytes.\<close>

definition plain_device :: "(nat \<Rightarrow> u8) transfer" where
  "plain_device d s buf func =
    (if func = 0 then (map d [512 * unat s..<512 * unat s + length buf], d)
     else (buf, \<lambda>a. if 512 * unat s \<le> a \<and> a < 512 * unat s + length buf then buf ! (a - 512 * unat s) else d a))"

lemma plain_device_ok: "block_device plain_device (\<lambda>d. d)"
  by (simp add: block_device_def plain_device_def)


end
