(* ===== verification/Sched_Fair.thy ===== *)
theory Sched_Fair
  imports Proc_Sched
begin

text \<open>
  The round-robin scheduler is fair: in a run of scheduler calls between which the other processes
  may do what they like, a process that stays runnable is picked after at most as many calls as
  there are processes.
\<close>

text \<open>A run: the processes picked one after the other on a fixed list of processes while \<open>i\<close> is
  runnable.  Between two calls everything but the last scheduled process may change.\<close>

inductive picks :: "nat list \<Rightarrow> nat \<Rightarrow> env \<Rightarrow> nat list \<Rightarrow> bool" where
  no_pick: "picks is i e []"
| pick: "table_ok e is \<Longrightarrow> (case last_scheduled e of None \<Rightarrow> True | Some q \<Rightarrow> q \<in> set is) \<Longrightarrow> runnable e i \<Longrightarrow>
     scheduler hart e = Some (Some r, e') \<Longrightarrow> last_scheduled e'' = last_scheduled e' \<Longrightarrow> picks is i e'' rs \<Longrightarrow>
     picks is i e (r # rs)"

inductive_cases picks_ConsE: "picks is i e (r # rs)"

definition valid_last :: "nat list \<Rightarrow> nat option \<Rightarrow> bool" where
  "valid_last is q \<longleftrightarrow> distinct is \<and> (case q of None \<Rightarrow> True | Some q \<Rightarrow> q \<in> set is)"

lemma round_robin_at: "distinct (xs @ q # ys) \<Longrightarrow> round_robin (xs @ q # ys) (Some q) = ys @ xs @ [q]"
proof -
  assume d: "distinct (xs @ q # ys)"
  have "takeWhile (\<lambda>i. i \<noteq> q) (xs @ q # ys) = xs" "dropWhile (\<lambda>i. i \<noteq> q) (xs @ q # ys) = q # ys"
    using d by (auto simp: takeWhile_append dropWhile_append)
  then show ?thesis by (simp add: round_robin_def)
qed

text \<open>After a pick the order starts behind it.\<close>

lemma round_robin_next:
  assumes v: "valid_last is q" and r: "round_robin is q = A @ r # B"
  shows "round_robin is (Some r) = B @ A @ [r]"
proof (cases q)
  case None
  then show ?thesis using v r round_robin_at [of A r B] by (simp add: round_robin_def valid_last_def)
next
  case (Some k)
  then obtain xs ys where i: "is = xs @ k # ys" using v by (auto simp: valid_last_def dest: split_list)
  have d: "distinct is" using v by (simp add: valid_last_def)
  have l: "ys @ xs @ [k] = A @ r # B" using r round_robin_at d Some i by simp
  have "(r \<in> set ys \<and> r \<notin> set xs \<and> r \<noteq> k) \<or> (r \<in> set xs \<and> r \<notin> set ys \<and> r \<noteq> k) \<or> (r = k \<and> r \<notin> set xs \<and> r \<notin> set ys)"
    using d arg_cong [OF l, of set] by (auto simp: i)
  moreover have A: "A = takeWhile (\<lambda>i. i \<noteq> r) (ys @ xs @ [k])" and B: "r # B = dropWhile (\<lambda>i. i \<noteq> r) (ys @ xs @ [k])"
  proof -
    have "distinct (A @ r # B)" unfolding l [symmetric] using d by (auto simp: i)
    then have "r \<notin> set A" by simp
    then show "A = takeWhile (\<lambda>i. i \<noteq> r) (ys @ xs @ [k])" "r # B = dropWhile (\<lambda>i. i \<noteq> r) (ys @ xs @ [k])"
      unfolding l by (auto simp: takeWhile_append dropWhile_append)
  qed
  ultimately show ?thesis
  proof (elim disjE conjE)
    assume "r \<in> set ys" and n: "r \<notin> set xs" "r \<noteq> k"
    then obtain y1 y2 where y: "ys = y1 @ r # y2" by (auto dest: split_list)
    have "r \<notin> set y1" using d by (auto simp: i y)
    then have "A = y1" "B = y2 @ xs @ [k]" using A B by (auto simp: y takeWhile_append dropWhile_append split: if_splits)
    then show ?thesis using round_robin_at [of "xs @ k # y1" r y2] d by (simp add: i y)
  next
    assume "r \<in> set xs" and n: "r \<notin> set ys" "r \<noteq> k"
    then obtain x1 x2 where x: "xs = x1 @ r # x2" by (auto dest: split_list)
    have "r \<notin> set x1" using d by (auto simp: i x)
    then have "A = ys @ x1" "B = x2 @ [k]" using A B n by (auto simp: x takeWhile_append dropWhile_append split: if_splits)
    then show ?thesis using round_robin_at [of x1 r "x2 @ k # ys"] d by (simp add: i x)
  next
    assume "r = k" "r \<notin> set xs" "r \<notin> set ys"
    then have "A = ys @ xs" "B = []" using A B by (auto simp: takeWhile_append dropWhile_append split: if_splits)
    then show ?thesis using round_robin_at [of xs k ys] d \<open>r = k\<close> by (simp add: i)
  qed
qed

lemma round_robin_set:
  assumes "valid_last is q"
  shows "set (round_robin is q) = set is" "length (round_robin is q) = length is"
proof -
  have "set (round_robin is q) = set is \<and> length (round_robin is q) = length is"
  proof (cases q)
    case None
    then show ?thesis by (simp add: round_robin_def)
  next
    case (Some k)
    then obtain xs ys where i: "is = xs @ k # ys" using assms by (auto simp: valid_last_def dest: split_list)
    then show ?thesis using round_robin_at [of xs k ys] assms Some by (auto simp: valid_last_def)
  qed
  then show "set (round_robin is q) = set is" "length (round_robin is q) = length is" by auto
qed

lemma round_robin_distinct: "valid_last is q \<Longrightarrow> distinct (round_robin is q)"
  using round_robin_set [of "is" q] by (metis card_distinct distinct_card valid_last_def)

lemma find_split: "find f xs = Some r \<Longrightarrow> \<exists>A B. xs = A @ r # B \<and> (\<forall>x \<in> set A. \<not> f x)"
proof (induction xs)
  case (Cons x xs)
  show ?case
  proof (cases "f x")
    case True
    then show ?thesis using Cons.prems by (intro exI [of _ "[]"] exI [of _ xs]) simp
  next
    case False
    then obtain A B where "xs = A @ r # B" "\<forall>x \<in> set A. \<not> f x" using Cons by auto
    then show ?thesis using False by (intro exI [of _ "x # A"] exI [of _ B]) auto
  qed
qed simp

text \<open>A pick is the process itself or one before it in the order, and then the process is closer.\<close>

lemma pick_closer:
  assumes v: "valid_last is q" and p: "round_robin is q = P @ i # S" and f: "f i" "find f (round_robin is q) = Some r" "r \<noteq> i"
  shows "\<exists>P' S'. round_robin is (Some r) = P' @ i # S' \<and> length P' < length P"
proof -
  obtain A B where l: "round_robin is q = A @ r # B" and a: "\<forall>x \<in> set A. \<not> f x" using find_split [OF f(2)] by blast
  have d: "distinct (A @ r # B)" "distinct (P @ i # S)" using round_robin_distinct [OF v] l p by simp_all
  have "i \<in> set B" using p l a f(1,3) by (metis in_set_conv_decomp set_ConsD Un_iff set_append)
  then obtain B1 B2 where b: "B = B1 @ i # B2" by (auto dest: split_list)
  have "(A @ r # B1) @ i # B2 = P @ i # S" using p l b by simp
  moreover have "i \<notin> set (A @ r # B1)" "i \<notin> set B2" using d(1) b by auto
  ultimately have "P = A @ r # B1" using append_Cons_eq_iff [of i "A @ r # B1" B2 P S] by simp
  then show ?thesis using round_robin_next [OF v l] b by (intro exI [of _ B1] exI [of _ "B2 @ A @ [r]"]) simp
qed

lemma picks_reach:
  assumes "picks is i e rs" and "round_robin is (last_scheduled e) = P @ i # S" and "length P < length rs"
  shows "i \<in> set rs"
  using assms
proof (induction arbitrary: P S rule: picks.induct)
  case (pick e "is" i hart r e' e'' rs)
  have v: "valid_last is (last_scheduled e)"
    using pick.hyps(1,2) by (auto simp: valid_last_def table_ok_def clist_def distinct_map split: option.splits)
  have r: "find (runnable e) (round_robin is (last_scheduled e)) = Some r" "last_scheduled e' = Some r"
    using scheduler_picks [OF pick.hyps(1,2), of hart] pick.hyps(4) by auto
  show ?case
  proof (cases "r = i")
    case False
    then obtain P' S' where "round_robin is (Some r) = P' @ i # S'" "length P' < length P"
      using pick_closer [OF v pick.prems(1) pick.hyps(3) r(1)] by blast
    then show ?thesis using pick.IH [of P' S'] pick.hyps(5) r(2) pick.prems(2) by simp
  qed simp
qed simp

subsection \<open>Properties\<close>


text \<open>A run of two picks on a table of two: the second process, which is ready, is picked first.\<close>

lemma example_pick: "\<exists>e'. scheduler 0 example_env = Some (Some 2, e') \<and> last_scheduled e' = Some 2"
proof -
  have q: "case last_scheduled example_env of None \<Rightarrow> True | Some q \<Rightarrow> q \<in> set [1, 2]" by (simp add: example_env_def)
  have "find (runnable example_env) (round_robin [1, 2] (last_scheduled example_env)) = Some 2"
    by (simp add: round_robin_def example_env_def runnable_def schedulable_def example_proc_def PROC_RUNNABLE_def
        PROC_STATUS_READY_def PROC_STATUS_NORMAL_def PROC_STATUS_RUNNING_def)
  with scheduler_picks [OF example_env_ok q, of 0] show ?thesis by auto
qed

lemma example_picks: "picks [1, 2] 2 example_env [2, 2]"
proof -
  let ?e = "example_env\<lparr>last_scheduled := Some 2\<rparr>"
  have r: "runnable example_env 2" "runnable ?e 2" "\<not> runnable ?e 1"
    by (simp_all add: example_env_def runnable_def schedulable_def example_proc_def PROC_RUNNABLE_def
        PROC_STATUS_READY_def PROC_STATUS_NORMAL_def PROC_STATUS_RUNNING_def)
  have t: "table_ok ?e [1, 2]" using example_env_ok by (simp add: table_ok_def)
  have l: "case last_scheduled example_env of None \<Rightarrow> True | Some q \<Rightarrow> q \<in> set [1, 2]"
    "case last_scheduled ?e of None \<Rightarrow> True | Some q \<Rightarrow> q \<in> set [1, 2]" by (simp_all add: example_env_def)
  have "find (runnable ?e) (round_robin [1, 2] (last_scheduled ?e)) = Some 2"
    using r by (simp add: round_robin_def)
  then obtain e2 where e2: "scheduler 0 ?e = Some (Some 2, e2)" using scheduler_picks [OF t l(2), of 0] by auto
  have "picks [1, 2] 2 ?e [2]" using picks.pick [OF t l(2) r(2) e2 refl picks.no_pick] .
  moreover obtain e1 where "scheduler 0 example_env = Some (Some 2, e1)" "last_scheduled e1 = Some 2" using example_pick by blast
  ultimately show ?thesis using picks.pick [OF example_env_ok l(1) r(1), of 0 2 e1 ?e "[2]"] by simp
qed


end
