(* ===== verification/Interrupt.thy ===== *)
theory Interrupt
  imports Proc_Life Paging
begin

text \<open>
  \<open>kernel/interrupt\<close>: the interrupt controller (\<open>plic.c\<close>), the table of handlers and the dispatch
  (\<open>interrupt.c\<close>), the clock (\<open>timer.c\<close>) and what a trap from user mode does (\<open>user_trap.c\<close>).
  The registers of the controller are reached through \<open>mmio\<close>, a read and a write of the
  hardware; a handler is named by its number and \<open>call\<close> runs it.  \<open>soft\<close> is the configuration
  switch \<open>USE_SOFT_INT_COMP\<close>.
\<close>

subsection \<open>The interrupt controller\<close>

record 'p mmio =
  io_read :: "'p \<Rightarrow> u64 \<Rightarrow> u32 \<times> 'p"
  io_write :: "'p \<Rightarrow> u64 \<Rightarrow> u32 \<Rightarrow> 'p"

definition HARDWARE_VBASE :: u64 where "HARDWARE_VBASE = 0xC0000000"

definition HART_COUNT :: nat where "HART_COUNT = 2"

definition PLIC_VA :: u64 where "PLIC_VA = HARDWARE_VBASE + 0x0"

definition PLIC_INTENBITS_OFFSET :: u64 where "PLIC_INTENBITS_OFFSET = 0x2000"

definition PLIC_INTENBITS_CONTEXT_SIZE :: u64 where "PLIC_INTENBITS_CONTEXT_SIZE = 0x80"

definition PLIC_INTENBITS_SIZE :: u64 where "PLIC_INTENBITS_SIZE = 4"

definition PLIC_MISC_CONTEXT_OFFSET :: u64 where "PLIC_MISC_CONTEXT_OFFSET = 0x200000"

definition PLIC_MISC_CONTEXT_SIZE :: u64 where "PLIC_MISC_CONTEXT_SIZE = 0x1000"

definition PLIC_MISC_PRIO_THRESHOLD :: u64 where "PLIC_MISC_PRIO_THRESHOLD = 0x0"

definition PLIC_MISC_CLAIM_COMPLETE :: u64 where "PLIC_MISC_CLAIM_COMPLETE = 0x4"

text \<open>Arithmetic on a \<open>uint32_t *\<close>: the index counts words of four bytes.\<close>

definition PLIC_INT_ENABLE_ADDR_FOR :: "u64 \<Rightarrow> u64 \<Rightarrow> u64" where
  "PLIC_INT_ENABLE_ADDR_FOR ctx irq =
    PLIC_VA + PLIC_INTENBITS_OFFSET + ctx * PLIC_INTENBITS_CONTEXT_SIZE + 4 * (irq div PLIC_INTENBITS_SIZE)"

definition PLIC_ENABLE_INT_FOR :: "'p mmio \<Rightarrow> u64 \<Rightarrow> u64 \<Rightarrow> 'p \<Rightarrow> 'p" where
  "PLIC_ENABLE_INT_FOR io ctx irq p =
    (let (v, p) = io_read io p (PLIC_INT_ENABLE_ADDR_FOR ctx irq)
     in io_write io p (PLIC_INT_ENABLE_ADDR_FOR ctx irq) (v OR push_bit (unat (irq mod PLIC_INTENBITS_SIZE)) 1))"

definition PLIC_MISC_ADDR_FOR :: "u64 \<Rightarrow> u64" where
  "PLIC_MISC_ADDR_FOR ctx = PLIC_VA + PLIC_MISC_CONTEXT_OFFSET + ctx * PLIC_MISC_CONTEXT_SIZE"

definition plic_context :: "bool \<Rightarrow> nat \<Rightarrow> u64" where
  "plic_context soft hart = of_nat hart * 2 + (if soft then 0 else 1)"

text \<open>The registers are mapped for the kernel, with \<open>nd\<close> the memory the entry of the map is kept in.\<close>

definition init_plic :: "'p mmio \<Rightarrow> bool \<Rightarrow> nat \<Rightarrow> nat \<Rightarrow> nat \<Rightarrow> u64 \<Rightarrow> u64 \<Rightarrow> mem_sysmap list \<Rightarrow> phys \<Rightarrow> memory_info \<Rightarrow> 'p \<Rightarrow>
    (mem_sysmap list \<times> phys \<times> memory_info \<times> 'p) option" where
  "init_plic io soft hart nd kernel_pagedir plic_pa plic_mem_size sysmaps ph m p = do {
     kassert (plic_pa \<noteq> 0);
     (_, sysmaps, ph, m) \<leftarrow> mem_sysmap_add hart ph m kernel_pagedir sysmaps nd PLIC_VA plic_pa plic_mem_size PTE_TYPE_RW;
     let p = (if soft then p
       else fold (\<lambda>hart p. io_write io p (PLIC_MISC_ADDR_FOR (of_nat hart * 2 + 1) + PLIC_MISC_PRIO_THRESHOLD) 0) [0..<HART_COUNT] p);
     Some (sysmaps, ph, m, p) }"

definition plic_begin :: "'p mmio \<Rightarrow> bool \<Rightarrow> nat \<Rightarrow> 'p \<Rightarrow> int \<times> 'p" where
  "plic_begin io soft hart p =
    (let (v, p) = io_read io p (PLIC_MISC_ADDR_FOR (plic_context soft hart) + PLIC_MISC_CLAIM_COMPLETE) in (sint v, p))"

definition plic_end :: "'p mmio \<Rightarrow> bool \<Rightarrow> nat \<Rightarrow> int \<Rightarrow> 'p \<Rightarrow> 'p" where
  "plic_end io soft hart irq p =
    io_write io p (PLIC_MISC_ADDR_FOR (plic_context soft hart) + PLIC_MISC_CLAIM_COMPLETE) (of_int irq)"

definition plic_register_irq :: "'p mmio \<Rightarrow> bool \<Rightarrow> nat \<Rightarrow> 'p \<Rightarrow> 'p" where
  "plic_register_irq io soft irq p =
    (let p = io_write io p (PLIC_VA + of_nat irq * 4) 1
     in fold (\<lambda>hart p. PLIC_ENABLE_INT_FOR io (plic_context soft hart) (of_nat irq) p) [0..<HART_COUNT] p)"

subsection \<open>Handlers\<close>

definition MAX_INTERRUPT :: nat where "MAX_INTERRUPT = 64"

type_synonym int_handlers = "nat option list"

text \<open>A negative interrupt number passes the check and reads before the table.\<close>

definition interrupt_try_reg :: "int \<Rightarrow> nat \<Rightarrow> int_handlers \<Rightarrow> (int \<times> int_handlers) option" where
  "interrupt_try_reg irq h hs =
    (if irq \<ge> int MAX_INTERRUPT then Some (- 2, hs)
     else do {
       kassert (0 \<le> irq);
       x \<leftarrow> aget hs (nat irq);
       case x of
         None \<Rightarrow> do { hs \<leftarrow> aset hs (nat irq) (Some h); Some (0, hs) }
       | Some h' \<Rightarrow> Some (if h' = h then 0 else - 1, hs) })"

definition interrupt_try_unreg :: "int \<Rightarrow> nat \<Rightarrow> int_handlers \<Rightarrow> (int \<times> int_handlers) option" where
  "interrupt_try_unreg irq h hs =
    (if irq \<ge> int MAX_INTERRUPT then Some (- 2, hs)
     else do {
       kassert (0 \<le> irq);
       x \<leftarrow> aget hs (nat irq);
       case x of
         Some h' \<Rightarrow> if h' = h then do { hs \<leftarrow> aset hs (nat irq) None; Some (0, hs) } else Some (- 1, hs)
       | None \<Rightarrow> Some (0, hs) })"

subsection \<open>The clock and the dispatch\<close>

definition timer_tick :: "nat \<Rightarrow> u64 \<Rightarrow> env \<Rightarrow> env option" where
  "timer_tick hart ticks_chan e = do {
     l \<leftarrow> lock_acquire hart (ticks_lock e);
     let e = e\<lparr>ticks_lock := l, ticks := ticks e + 1\<rparr>;
     l \<leftarrow> lock_release hart (ticks_lock e);
     wakeup hart ticks_chan (e\<lparr>ticks_lock := l\<rparr>) }"

text \<open>What a trap works on: the processes, the table of handlers, the controller, the rest of the
  kernel that the handlers change, physical memory with its allocator, and whether user memory may be
  accessed.\<close>

record ('p, 'w) irq_state =
  ie :: env
  int_handlers :: int_handlers
  plic :: 'p
  world :: 'w
  kph :: phys
  kmi :: memory_info
  umem :: bool

definition preempt :: "proc \<Rightarrow> proc" where
  "preempt p = (if has_status p PROC_STATUS_RUNNING
     then p\<lparr>status := (status p AND NOT PROC_STATUS_RUNNING) OR PROC_STATUS_READY\<rparr> else p)"

text \<open>The timer branch.  The first component says whether the hart goes on to \<open>yield\<close>.\<close>

definition timer_interrupt :: "nat \<Rightarrow> u64 \<Rightarrow> nat option \<Rightarrow> env \<Rightarrow> (bool \<times> env) option" where
  "timer_interrupt hart ticks_chan cur e = do {
     e \<leftarrow> (if hart = 0 then timer_tick hart ticks_chan e else Some e);
     (case cur of
        None \<Rightarrow> Some (False, e)
      | Some i \<Rightarrow> do {
          p \<leftarrow> procs e i;
          if has_status p PROC_STATUS_RUNNING then do {
            e \<leftarrow> acquire_proc hart i e;
            e \<leftarrow> upd_proc i preempt e;
            e \<leftarrow> release_proc hart i e;
            Some (True, e) }
          else Some (False, e) }) }"

definition external_interrupt :: "'p mmio \<Rightarrow> bool \<Rightarrow> (nat \<Rightarrow> 'w \<Rightarrow> 'w option) \<Rightarrow> nat \<Rightarrow> ('p, 'w) irq_state \<Rightarrow> ('p, 'w) irq_state option" where
  "external_interrupt io soft call hart s = do {
     let (irq, p) = plic_begin io soft hart (plic s);
     let s = s\<lparr>plic := p\<rparr>;
     if irq \<noteq> 0 then do {
       kassert (0 \<le> irq);
       h \<leftarrow> aget (int_handlers s) (nat irq);
       w \<leftarrow> (case h of None \<Rightarrow> Some (world s) | Some h \<Rightarrow> call h (world s));
       Some (s\<lparr>world := w, plic := plic_end io soft hart irq (plic s)\<rparr>) }
     else Some s }"

definition handle_interrupt ::
  "'p mmio \<Rightarrow> bool \<Rightarrow> (nat \<Rightarrow> 'w \<Rightarrow> 'w option) \<Rightarrow> nat \<Rightarrow> u64 \<Rightarrow> nat option \<Rightarrow> u64 \<Rightarrow> u64 \<Rightarrow> ('p, 'w) irq_state \<Rightarrow> (bool \<times> ('p, 'w) irq_state) option" where
  "handle_interrupt io soft call hart ticks_chan cur stval cause s =
    (if cause = 5 then do {
       (y, e) \<leftarrow> timer_interrupt hart ticks_chan cur (ie s);
       Some (y, s\<lparr>ie := e\<rparr>) }
     else if (if soft then cause = 1 \<and> stval = 9 else cause = 9) then do {
       s \<leftarrow> external_interrupt io soft call hart s;
       Some (False, s) }
     else Some (False, s))"

subsection \<open>Traps\<close>

definition XCAUSE_INT :: u64 where "XCAUSE_INT = push_bit 63 1"

definition COULD_BE_PAGEFAULT :: "bool \<Rightarrow> u64 \<Rightarrow> bool" where
  "COULD_BE_PAGEFAULT qemu x \<longleftrightarrow>
    (if qemu then x = 15 \<or> x = 13 \<or> x = 12 \<or> x = 5 else x = 15 \<or> x = 13 \<or> x = 12 \<or> x = 7 \<or> x = 5 \<or> x = 1)"

definition satp_dir :: "u64 \<Rightarrow> nat" where
  "satp_dir satp = unat (push_bit PG_SHIFT (satp AND 0xFFFFFFFFFFF))"

definition trap_pagefault :: "nat \<Rightarrow> nat option \<Rightarrow> u64 \<Rightarrow> u64 \<Rightarrow> bool \<Rightarrow> ('p, 'w) irq_state \<Rightarrow> (int \<times> ('p, 'w) irq_state) option" where
  "trap_pagefault hart cur stval satp from_kernel s = do {
     dir \<leftarrow> (case cur of None \<Rightarrow> Some None | Some i \<Rightarrow> map_option (\<lambda>p. Some (page_dir p)) (procs (ie s) i));
     (r, u, ph, m) \<leftarrow> do_pagefault hart (kph s) (kmi s) (umem s) dir stval (satp_dir satp) from_kernel;
     Some (r, s\<lparr>kph := ph, kmi := m, umem := u\<rparr>) }"

text \<open>\<open>syscall\<close> is \<open>do_syscall\<close> on the trap frame of the process.  The first component of the result
  says whether the hart gives up the process (\<open>yield\<close>, or the process is gone).\<close>

definition user_trap_handler ::
  "'p mmio \<Rightarrow> bool \<Rightarrow> bool \<Rightarrow> (nat \<Rightarrow> 'w \<Rightarrow> 'w option) \<Rightarrow> (nat \<Rightarrow> ('p, 'w) irq_state \<Rightarrow> (bool \<times> ('p, 'w) irq_state) option) \<Rightarrow>
   nat \<Rightarrow> u64 \<Rightarrow> nat \<Rightarrow> u64 \<Rightarrow> u64 \<Rightarrow> u64 \<Rightarrow> ('p, 'w) irq_state \<Rightarrow> (bool \<times> ('p, 'w) irq_state) option" where
  "user_trap_handler io soft qemu call syscall hart ticks_chan i scause stval satp s =
    (if scause AND XCAUSE_INT \<noteq> 0 then
       handle_interrupt io soft call hart ticks_chan (Some i) stval (scause AND 0x7FFFFFFFFFFFFFFF) s
     else if scause = 8 then do {
       e \<leftarrow> upd_proc i (\<lambda>p. p\<lparr>user_pc := user_pc p + 4\<rparr>) (ie s);
       syscall i (s\<lparr>ie := e\<rparr>) }
     else if COULD_BE_PAGEFAULT qemu scause \<and> stval < 0x80000000 then do {
       (r, s) \<leftarrow> trap_pagefault hart (Some i) stval satp False s;
       if r \<noteq> 0 then do { e \<leftarrow> do_exit hart i (- 1) (ie s); Some (True, s\<lparr>ie := e\<rparr>) }
       else Some (False, s) }
     else do { e \<leftarrow> do_exit hart i (- 1) (ie s); Some (True, s\<lparr>ie := e\<rparr>) })"

definition SSTATUS_SPP :: u64 where "SSTATUS_SPP = push_bit 8 1"

definition SSTATUS_SUM :: u64 where "SSTATUS_SUM = push_bit 18 1"

text \<open>The last component is what is written back to \<open>sstatus\<close>; an exception that is not a page fault
  the handler resolves never comes back.\<close>

definition supervisor_trap_handler ::
  "'p mmio \<Rightarrow> bool \<Rightarrow> bool \<Rightarrow> (nat \<Rightarrow> 'w \<Rightarrow> 'w option) \<Rightarrow> nat \<Rightarrow> u64 \<Rightarrow> nat option \<Rightarrow> u64 \<Rightarrow> u64 \<Rightarrow> u64 \<Rightarrow> u64 \<Rightarrow> ('p, 'w) irq_state \<Rightarrow>
   (bool \<times> ('p, 'w) irq_state \<times> u64) option" where
  "supervisor_trap_handler io soft qemu call hart ticks_chan cur scause stval satp sstatus s = do {
     kassert (sstatus AND SSTATUS_SPP \<noteq> 0);
     (y, s) \<leftarrow>
       (if scause AND XCAUSE_INT \<noteq> 0 then
          handle_interrupt io soft call hart ticks_chan cur stval (scause AND 0x7FFFFFFFFFFFFFFF) s
        else do {
          kassert (COULD_BE_PAGEFAULT qemu scause \<and> stval < 0x80000000);
          (r, s) \<leftarrow> trap_pagefault hart cur stval satp True s;
          kassert (r = 0);
          Some (False, s) });
     Some (y, s, if qemu \<and> umem s then sstatus OR SSTATUS_SUM else sstatus) }"

text \<open>Returning to user mode: the process is set up for its next trap.\<close>

definition SSTATUS_SPIE :: u64 where "SSTATUS_SPIE = push_bit 5 1"

definition user_sstatus :: "u64 \<Rightarrow> u64" where
  "user_sstatus sstatus = (sstatus AND NOT SSTATUS_SPP) OR SSTATUS_SPIE"

end
