(* ===== verification/Interrupt_Props.thy ===== *)
theory Interrupt_Props
  imports Interrupt
begin

text \<open>
  The clock interrupt on a well-formed process table: time advances, sleepers wake, the running
  process becomes ready again.  And the arithmetic of the controller's enable registers.
\<close>

subsection \<open>The clock\<close>

lemma timer_tick_ok:
  assumes t: "table_ok e is" and l: "\<not> sl_lock (ticks_lock e)"
  shows "\<exists>e'. timer_tick hart chan e = Some e' \<and> table_ok e' is \<and> ticks e' = ticks e + 1 \<and> \<not> sl_lock (ticks_lock e') \<and>
    last_scheduled e' = last_scheduled e \<and>
    (\<forall>i p. i \<in> set is \<longrightarrow> procs e i = Some p \<longrightarrow>
       (\<exists>l. procs e' i = Some ((wake_if_waiting chan p)\<lparr>pr_lock := l\<rparr>)))"
proof -
  let ?e = "e\<lparr>ticks := ticks e + 1, ticks_lock := (ticks_lock e)\<lparr>sl_lock := False, sl_cpu := 0\<rparr>\<rparr>"
  have "table_ok ?e is" using t by (simp add: table_ok_def)
  from wakeup_table [OF this, of hart chan] show ?thesis
    using lock_acquire_free [OF l, of hart] by (auto simp: timer_tick_def Let_def lock_release_held)
qed

lemma table_proc:
  assumes "table_ok e is" and "i \<in> set is"
  obtains p where "procs e i = Some p" "\<not> sl_lock (pr_lock p)"
  using assms by (auto simp: table_ok_def)

text \<open>With its lock taken and given back, the process of the hart is preempted.\<close>

lemma preempt_ok:
  assumes t: "table_ok e is" and i: "i \<in> set is" "procs e i = Some p" and r: "has_status p PROC_STATUS_RUNNING"
  shows "\<exists>e'. (do { e \<leftarrow> acquire_proc hart i e; e \<leftarrow> upd_proc i preempt e; release_proc hart i e }) = Some e' \<and> table_ok e' is \<and>
    procs e' = (procs e)(i \<mapsto> (preempt p)\<lparr>pr_lock := (pr_lock p)\<lparr>sl_lock := False, sl_cpu := 0\<rparr>\<rparr>) \<and> ticks e' = ticks e \<and>
    last_scheduled e' = last_scheduled e"
proof -
  have l: "\<not> sl_lock (pr_lock p)" using t i by (auto simp: table_ok_def)
  have "preempt (p\<lparr>pr_lock := k\<rparr>) = (preempt p)\<lparr>pr_lock := k\<rparr>" for k
    by (simp add: preempt_def has_status_def)
  then show ?thesis
    using t i l by (auto simp: acquire_proc_def upd_proc_def release_proc_def lock_acquire_free lock_release_held table_ok_def)
qed

lemma preempt_status:
  assumes "has_status p PROC_STATUS_RUNNING"
  shows "\<not> has_status (preempt p) PROC_STATUS_RUNNING \<and> has_status (preempt p) PROC_STATUS_READY"
  using assms bit_eq_iff
  by (auto simp: preempt_def has_status_def PROC_STATUS_RUNNING_def PROC_STATUS_READY_def bit_eq_iff [of _ 0] bit_simps)

lemma wake_running:
  "has_status (wake_if_waiting chan p) PROC_STATUS_RUNNING = has_status p PROC_STATUS_RUNNING"
proof -
  have "((status p AND NOT PROC_STATUS_WAITING) OR (PROC_STATUS_READY OR PROC_STATUS_NORMAL)) AND PROC_STATUS_RUNNING =
      status p AND PROC_STATUS_RUNNING"
    unfolding bit.conj_disj_distrib2 and.assoc
    by (simp add: PROC_STATUS_RUNNING_def PROC_STATUS_READY_def PROC_STATUS_NORMAL_def PROC_STATUS_WAITING_def)
  then show ?thesis by (simp add: wake_if_waiting_def wake_def has_status_def)
qed

lemma has_status_lock [simp]: "has_status (q\<lparr>pr_lock := l\<rparr>) f = has_status q f"
  by (simp add: has_status_def)

subsection \<open>Properties\<close>

text \<open>C25: The clock interrupt on the master hart always comes back on a well-formed table: the tick counter
  goes up by one, exactly the processes that wait for a tick are made ready, and a process that was
  running is ready and no longer marked as running, so that the hart yields and the scheduler may
  pick it again.\<close>

theorem timer_interrupt_preempts:
  assumes "table_ok e is" and "\<not> sl_lock (ticks_lock e)" and "i \<in> set is" and "procs e i = Some p" and "has_status p PROC_STATUS_RUNNING"
  shows "\<exists>e' p'. timer_interrupt 0 chan (Some i) e = Some (True, e') \<and> table_ok e' is \<and> ticks e' = ticks e + 1 \<and>
    last_scheduled e' = last_scheduled e \<and> procs e' i = Some p' \<and>
    \<not> has_status p' PROC_STATUS_RUNNING \<and> has_status p' PROC_STATUS_READY \<and>
    (\<forall>j q. j \<in> set is \<longrightarrow> j \<noteq> i \<longrightarrow> procs e j = Some q \<longrightarrow>
      (\<exists>l. procs e' j = Some ((if has_status q PROC_STATUS_WAITING \<and> waiting_chan q = chan then wake q else q)\<lparr>pr_lock := l\<rparr>)))"
proof -
  obtain e1 where 1: "timer_tick 0 chan e = Some e1" "table_ok e1 is" "ticks e1 = ticks e + 1" "last_scheduled e1 = last_scheduled e"
    and pr: "\<forall>i p. i \<in> set is \<longrightarrow> procs e i = Some p \<longrightarrow> (\<exists>l. procs e1 i = Some ((wake_if_waiting chan p)\<lparr>pr_lock := l\<rparr>))"
    using timer_tick_ok [OF assms(1,2), of 0 chan] by blast
  obtain l where p1: "procs e1 i = Some ((wake_if_waiting chan p)\<lparr>pr_lock := l\<rparr>)" using pr assms(3,4) by blast
  let ?p = "(wake_if_waiting chan p)\<lparr>pr_lock := l\<rparr>"
  have r: "has_status ?p PROC_STATUS_RUNNING" using assms(5) by (simp add: wake_running)
  obtain e2 where 2: "(do { e \<leftarrow> acquire_proc 0 i e1; e \<leftarrow> upd_proc i preempt e; release_proc 0 i e }) = Some e2" "table_ok e2 is"
    "procs e2 = (procs e1)(i \<mapsto> (preempt ?p)\<lparr>pr_lock := (pr_lock ?p)\<lparr>sl_lock := False, sl_cpu := 0\<rparr>\<rparr>)" "ticks e2 = ticks e1"
    "last_scheduled e2 = last_scheduled e1" using preempt_ok [OF 1(2) assms(3) p1 r, of 0] by blast
  have "timer_interrupt 0 chan (Some i) e = Some (True, e2)"
    using 1(1) p1 r 2(1) by (auto simp: timer_interrupt_def Option.bind_eq_Some_conv)
  then show ?thesis using 1 2 preempt_status [OF r] pr [unfolded wake_if_waiting_def] by auto
qed

definition running_env :: env where
  "running_env = example_env\<lparr>procs := (procs example_env)(2 \<mapsto> example_proc\<lparr>pid := 2, status := 0x11\<rparr>)\<rparr>"

theorem timer_interrupt_preempts_witness:
  "\<exists>e' p'. timer_interrupt 0 77 (Some 2) running_env = Some (True, e') \<and> ticks e' = 1 \<and> procs e' 2 = Some p' \<and> has_status p' PROC_STATUS_READY"
proof -
  have t: "table_ok running_env [1, 2]"
    by (simp add: table_ok_def clist_def running_env_def example_env_def example_proc_def)
  have "\<not> sl_lock (ticks_lock running_env)" "procs running_env 2 = Some (example_proc\<lparr>pid := 2, status := 0x11\<rparr>)"
    "has_status (example_proc\<lparr>pid := 2, status := 0x11\<rparr>) PROC_STATUS_RUNNING" "ticks running_env = 0"
    by (simp_all add: running_env_def example_env_def has_status_def PROC_STATUS_RUNNING_def)
  then show ?thesis using timer_interrupt_preempts [OF t, of 2 _ 77] by fastforce
qed

subsection \<open>The enable registers of the controller\<close>

text \<open>Registers that read back what was written to them last.\<close>

definition plain_registers :: "'p mmio \<Rightarrow> ('p \<Rightarrow> u64 \<Rightarrow> u32) \<Rightarrow> bool" where
  "plain_registers io reg \<longleftrightarrow> (\<forall>p a. fst (io_read io p a) = reg p a \<and> reg (snd (io_read io p a)) = reg p) \<and>
     (\<forall>p a v. reg (io_write io p a v) = (reg p)(a := v))"

text \<open>The register and the bit that the controller's documentation gives to a source.\<close>

definition source_enabled :: "('p \<Rightarrow> u64 \<Rightarrow> u32) \<Rightarrow> 'p \<Rightarrow> u64 \<Rightarrow> nat \<Rightarrow> bool" where
  "source_enabled reg p ctx irq \<longleftrightarrow>
     bit (reg p (PLIC_VA + PLIC_INTENBITS_OFFSET + ctx * PLIC_INTENBITS_CONTEXT_SIZE + 4 * of_nat (irq div 32))) (irq mod 32)"

lemma enable_int_reg:
  "plain_registers io reg \<Longrightarrow> reg (PLIC_ENABLE_INT_FOR io ctx irq p) =
    (reg p)(PLIC_INT_ENABLE_ADDR_FOR ctx irq := reg p (PLIC_INT_ENABLE_ADDR_FOR ctx irq) OR push_bit (unat (irq mod PLIC_INTENBITS_SIZE)) 1)"
  by (simp add: plain_registers_def PLIC_ENABLE_INT_FOR_def split_beta del: push_bit_of_1)

definition source_reg :: "u64 \<Rightarrow> nat \<Rightarrow> u64" where
  "source_reg ctx irq = PLIC_VA + PLIC_INTENBITS_OFFSET + ctx * PLIC_INTENBITS_CONTEXT_SIZE + 4 * of_nat (irq div 32)"

lemma enable_reg_unat:
  assumes "c < 4" and "k < 16"
  shows "unat (PLIC_VA + PLIC_INTENBITS_OFFSET + of_nat c * PLIC_INTENBITS_CONTEXT_SIZE + 4 * of_nat k) = 0xC0002000 + 128 * c + 4 * k"
proof -
  have "PLIC_VA + PLIC_INTENBITS_OFFSET + of_nat c * PLIC_INTENBITS_CONTEXT_SIZE + 4 * of_nat k = (of_nat (0xC0002000 + 128 * c + 4 * k) :: u64)"
    by (simp add: PLIC_VA_def HARDWARE_VBASE_def PLIC_INTENBITS_OFFSET_def PLIC_INTENBITS_CONTEXT_SIZE_def)
  then show ?thesis using assms by (simp only: unat_of_nat) (simp add: take_bit_nat_eq_self)
qed

lemma enable_addr_eq:
  assumes "irq < 64"
  shows "PLIC_INT_ENABLE_ADDR_FOR ctx (of_nat irq) =
    PLIC_VA + PLIC_INTENBITS_OFFSET + ctx * PLIC_INTENBITS_CONTEXT_SIZE + 4 * of_nat (irq div 4)"
proof -
  have "(of_nat irq :: u64) div 4 = of_nat (irq div 4)"
    using assms by (simp add: word_unat_eq_iff unat_div unat_of_nat take_bit_nat_eq_self)
  then show ?thesis by (simp add: PLIC_INT_ENABLE_ADDR_FOR_def PLIC_INTENBITS_SIZE_def)
qed

lemma plic_context_eq: "plic_context soft hart = of_nat (2 * hart + (if soft then 0 else 1))"
  by (simp add: plic_context_def)

text \<open>The registers written are never the one of the source.\<close>

lemma registers_written:
  assumes "4 \<le> irq" and "irq < 64" and "hart < 2" and "hart' < 2"
  shows "source_reg (plic_context soft hart) irq \<noteq> PLIC_VA + of_nat irq * 4"
    and "source_reg (plic_context soft hart) irq \<noteq> PLIC_INT_ENABLE_ADDR_FOR (plic_context soft hart') (of_nat irq)"
proof -
  define c c' :: nat where "c = 2 * hart + (if soft then 0 else 1)" and "c' = 2 * hart' + (if soft then 0 else 1)"
  have c: "c < 4" "c' < 4" using assms by (auto simp: c_def c'_def)
  have k: "irq div 32 < 16" "irq div 4 < 16" "irq div 32 < irq div 4" using assms by (auto simp: less_mult_imp_div_less)
  have s: "unat (source_reg (plic_context soft hart) irq) = 0xC0002000 + 128 * c + 4 * (irq div 32)"
    unfolding source_reg_def plic_context_eq c_def [symmetric] using enable_reg_unat [OF c(1) k(1)] .
  have "PLIC_VA + of_nat irq * 4 = (of_nat (0xC0000000 + 4 * irq) :: u64)" by (simp add: PLIC_VA_def HARDWARE_VBASE_def)
  then have "unat (PLIC_VA + of_nat irq * 4) = 0xC0000000 + 4 * irq"
    using assms(2) by (simp only: unat_of_nat) (simp add: take_bit_nat_eq_self)
  then show "source_reg (plic_context soft hart) irq \<noteq> PLIC_VA + of_nat irq * 4" using s assms(2) by auto
  have "unat (PLIC_INT_ENABLE_ADDR_FOR (plic_context soft hart') (of_nat irq)) = 0xC0002000 + 128 * c' + 4 * (irq div 4)"
    unfolding enable_addr_eq [OF assms(2)] plic_context_eq c'_def [symmetric] using enable_reg_unat [OF c(2) k(2)] .
  moreover have "128 * c + 4 * x \<noteq> 128 * c' + 4 * y" if "x < y" "y < 16" for x y :: nat
    using that by (cases "c \<le> c'") simp_all
  then have "128 * c + 4 * (irq div 32) \<noteq> 128 * c' + 4 * (irq div 4)" using k by blast
  ultimately show "source_reg (plic_context soft hart) irq \<noteq> PLIC_INT_ENABLE_ADDR_FOR (plic_context soft hart') (of_nat irq)" using s by auto
qed

text \<open>Registering an interrupt numbered 4 or more leaves its source disabled: the enable bits are
  addressed as if a 32-bit register held four of them, so that for such a number another register of
  the context is written and the bit the controller looks at stays as it was, on every hart.\<close>

lemma plic_register_misses_source:
  assumes "plain_registers io reg" and "4 \<le> irq" and "irq < 64" and "hart < HART_COUNT"
  shows "source_enabled reg (plic_register_irq io soft irq p) (plic_context soft hart) irq = source_enabled reg p (plic_context soft hart) irq"
proof -
  have h: "hart < 2" using assms(4) by (simp add: HART_COUNT_def)
  note n = registers_written [OF assms(2,3) h, of 0 soft] registers_written [OF assms(2,3) h, of 1 soft]
  have f: "fold f [0..<HART_COUNT] q = f 1 (f 0 q)" for f :: "nat \<Rightarrow> 'a \<Rightarrow> 'a" and q by (simp add: HART_COUNT_def upt_rec)
  have "reg (io_write io p (PLIC_VA + of_nat irq * 4) 1) = (reg p)(PLIC_VA + of_nat irq * 4 := 1)"
    using assms(1) by (simp add: plain_registers_def)
  then have "reg (plic_register_irq io soft irq p) (source_reg (plic_context soft hart) irq) = reg p (source_reg (plic_context soft hart) irq)"
    using n unfolding plic_register_irq_def Let_def f enable_int_reg [OF assms(1)] by simp
  then show ?thesis by (simp add: source_enabled_def source_reg_def)
qed

definition word_registers :: "(u64 \<Rightarrow> u32) mmio" where
  "word_registers = \<lparr>io_read = (\<lambda>p a. (p a, p)), io_write = (\<lambda>p a v. p(a := v))\<rparr>"

end
