(* ===== verification/Drivers.thy ===== *)
theory Drivers
  imports Linklist
begin

text \<open>
  \<open>kernel/dev/dev.c\<close>: the drivers registered in the linker section \<open>DevDrivers\<close> are put in the order
  of their loading sequence and initialised one after the other.  A driver is named by its number in
  the store; what its \<open>init\<close> function does to the rest of the kernel is a parameter.
\<close>

definition MAX_DEV_ID :: nat where "MAX_DEV_ID = 32"

record dev_driver =
  dev_id :: u8
  loading_sequence :: u8
  dd_initialized :: bool

datatype driver_node = DriverHead | DriverLink nat

record 'w driver_env =
  drivers :: "nat \<Rightarrow> dev_driver"
  driver_list :: "driver_node links"
  devfs :: "nat option list"
  dworld :: 'w

text \<open>The first driver of the list that is not to be loaded before the level.\<close>

fun first_later :: "(nat \<Rightarrow> dev_driver) \<Rightarrow> u8 \<Rightarrow> driver_node list \<Rightarrow> driver_node" where
  "first_later ds dlevel [] = DriverHead"
| "first_later ds dlevel (DriverLink i # ns) =
    (if loading_sequence (ds i) \<ge> dlevel then DriverLink i else first_later ds dlevel ns)"
| "first_later ds dlevel (DriverHead # ns) = first_later ds dlevel ns"

definition add_driver :: "(nat \<Rightarrow> dev_driver) \<Rightarrow> nat \<Rightarrow> driver_node links \<Rightarrow> driver_node links option" where
  "add_driver ds i L =
    (if loading_sequence (ds i) = 0xFF then Some L
     else do {
       ns \<leftarrow> list_entries L DriverHead;
       Some (list_add_tail L (DriverLink i) (first_later ds (loading_sequence (ds i)) ns)) })"

text \<open>The loop that initialises.  A driver whose device id is taken is passed over; a driver that fails
  ends the loop with 1.\<close>

fun init_drivers :: "(nat \<Rightarrow> 'w \<Rightarrow> int \<times> 'w) \<Rightarrow> driver_node list \<Rightarrow> 'w driver_env \<Rightarrow> (int \<times> 'w driver_env) option" where
  "init_drivers init [] e = Some (0, e)"
| "init_drivers init (DriverHead # ns) e = None"
| "init_drivers init (DriverLink i # ns) e = (let d = drivers e i; n = unat (dev_id d) in do {
     kassert (n < MAX_DEV_ID);
     slot \<leftarrow> aget (devfs e) n;
     if n \<noteq> 0 \<and> slot \<noteq> None then init_drivers init ns e
     else do {
       fs \<leftarrow> (if n \<noteq> 0 then aset (devfs e) n (Some i) else Some (devfs e));
       let e = e\<lparr>devfs := fs\<rparr>;
       if dd_initialized d then init_drivers init ns e
       else do {
         let (ret, w) = init i (dworld e);
         let e = e\<lparr>dworld := w\<rparr>;
         if ret \<noteq> 0 then Some (1, e)
         else init_drivers init ns (e\<lparr>drivers := (drivers e)(i := d\<lparr>dd_initialized := True\<rparr>)\<rparr>) } } })"

definition init_driver :: "(nat \<Rightarrow> 'w \<Rightarrow> int \<times> 'w) \<Rightarrow> nat list \<Rightarrow> 'w driver_env \<Rightarrow> (int \<times> 'w driver_env) option" where
  "init_driver init sect e = do {
     let e = e\<lparr>devfs := replicate MAX_DEV_ID None\<rparr>;
     L \<leftarrow> fold_opt (add_driver (drivers e)) sect (driver_list e);
     ns \<leftarrow> list_entries L DriverHead;
     init_drivers init ns (e\<lparr>driver_list := L\<rparr>) }"

text \<open>Looking up a device that no driver has taken reads through a null pointer.\<close>

definition get_driver :: "'w driver_env \<Rightarrow> u8 \<Rightarrow> nat option" where
  "get_driver e n = do { slot \<leftarrow> aget (devfs e) (unat n); slot }"

subsection \<open>Rings\<close>

lemma list_add_tail_clist:
  assumes c: "clist L h (xs @ ys)" and new: "new \<notin> set (h # xs @ ys)" and n: "n = (if ys = [] then h else hd ys)"
  shows "clist (list_add_tail L new n) h (xs @ new # ys)"
proof -
  define L' where "L' = list_add_tail L new n"
  define pr where "pr = (if xs = [] then h else last xs)"
  have d: "distinct (h # xs @ ys)" using c by (simp add: clist_def)
  have p: "lpath L h (xs @ ys) h" using c by (simp add: clist_def)
  have pv: "lprev L n = pr"
  proof (cases ys)
    case Nil
    then show ?thesis using lpath_ends [OF p] n by (simp add: pr_def)
  next
    case (Cons y ws)
    then have "lpath L h xs y" using p by (simp add: lpath_append)
    then show ?thesis using lpath_ends [of L h xs y] Cons n by (simp add: pr_def)
  qed
  have pn: "pr \<in> set (h # xs)" "n \<in> set (h # ys)" using n by (auto simp: pr_def)
  have dj: "n \<notin> set xs" "pr \<notin> set ys" using pn d by auto
  have fr: "lnext L' a = (if a = pr then new else if a = new then n else lnext L a)"
    "lprev L' a = (if a = new then pr else if a = n then new else lprev L a)" for a
    using new pn by (auto simp: L'_def list_add_tail_def list_add_between_def Let_def pv)
  have "lpath L' h xs new"
  proof (cases xs rule: rev_cases)
    case (snoc zs z)
    have "lpath L h zs z" using p snoc by (cases ys) (auto simp: lpath_append)
    moreover have "lpath L' h zs z = lpath L h zs z"
      using snoc d new dj by (intro lpath_cong) (auto simp: fr pr_def)
    ultimately show ?thesis using snoc new by (simp add: lpath_append fr pr_def)
  qed (simp add: fr pr_def)
  moreover have "lpath L' new ys h"
  proof (cases ys)
    case Nil
    then show ?thesis using n new pn by (auto simp: fr)
  next
    case (Cons y ws)
    have "lpath L y ws h" using p Cons by (simp add: lpath_append)
    moreover have "lpath L' y ws h = lpath L y ws h" using Cons d new n dj by (intro lpath_cong) (auto simp: fr)
    ultimately show ?thesis using Cons n new pn by (auto simp: fr)
  qed
  ultimately show ?thesis using d new by (auto simp: clist_def lpath_append L'_def)
qed

subsection \<open>The order of the drivers\<close>

lemma first_later_insort:
  "\<exists>xs ys. is = xs @ ys \<and> insort_key (\<lambda>i. loading_sequence (ds i)) i is = xs @ i # ys \<and>
    first_later ds (loading_sequence (ds i)) (map DriverLink is) = (if ys = [] then DriverHead else DriverLink (hd ys))"
proof (induction "is")
  case (Cons j "is")
  show ?case
  proof (cases "loading_sequence (ds i) \<le> loading_sequence (ds j)")
    case True
    then show ?thesis by (intro exI [of _ "[]"] exI [of _ "j # is"]) simp
  next
    case False
    obtain xs ys where "is = xs @ ys" "insort_key (\<lambda>i. loading_sequence (ds i)) i is = xs @ i # ys"
      "first_later ds (loading_sequence (ds i)) (map DriverLink is) = (if ys = [] then DriverHead else DriverLink (hd ys))"
      using Cons.IH by blast
    then show ?thesis using False by (intro exI [of _ "j # xs"] exI [of _ ys]) simp
  qed
qed simp

lemma add_driver_ok:
  assumes c: "clist L DriverHead (map DriverLink is)" and i: "i \<notin> set is" and l: "loading_sequence (ds i) \<noteq> 0xFF"
  shows "\<exists>L'. add_driver ds i L = Some L' \<and> clist L' DriverHead (map DriverLink (insort_key (\<lambda>i. loading_sequence (ds i)) i is))"
proof -
  obtain xs ys where x: "is = xs @ ys" "insort_key (\<lambda>i. loading_sequence (ds i)) i is = xs @ i # ys"
    "first_later ds (loading_sequence (ds i)) (map DriverLink is) = (if ys = [] then DriverHead else DriverLink (hd ys))"
    using first_later_insort by blast
  have "clist (list_add_tail L (DriverLink i) (if ys = [] then DriverHead else DriverLink (hd ys))) DriverHead
      (map DriverLink xs @ DriverLink i # map DriverLink ys)"
    using c i by (intro list_add_tail_clist) (auto simp: x(1) hd_map)
  then show ?thesis using l list_entries_clist [OF c] x by (simp add: add_driver_def)
qed

text \<open>The list the code builds, as the library sorts.\<close>

definition loading_order :: "(nat \<Rightarrow> dev_driver) \<Rightarrow> nat list \<Rightarrow> nat list" where
  "loading_order ds sect = sort_key (\<lambda>i. loading_sequence (ds i)) (rev (filter (\<lambda>i. loading_sequence (ds i) \<noteq> 0xFF) sect))"

lemma add_drivers_ok:
  assumes "clist L DriverHead (map DriverLink is)" and "distinct (is @ sect)"
  shows "\<exists>L'. fold_opt (add_driver ds) sect L = Some L' \<and> clist L' DriverHead
    (map DriverLink (fold (insort_key (\<lambda>i. loading_sequence (ds i))) (filter (\<lambda>i. loading_sequence (ds i) \<noteq> 0xFF) sect) is))"
  using assms
proof (induction sect arbitrary: L "is")
  case (Cons i sect)
  show ?case
  proof (cases "loading_sequence (ds i) = 0xFF")
    case True
    then show ?thesis using Cons by (simp add: add_driver_def)
  next
    case False
    obtain L' where L': "add_driver ds i L = Some L'" "clist L' DriverHead (map DriverLink (insort_key (\<lambda>i. loading_sequence (ds i)) i is))"
      using add_driver_ok [of L "is" i ds] Cons.prems False by auto
    have "distinct (insort_key (\<lambda>i. loading_sequence (ds i)) i is @ sect)"
      using Cons.prems(2) by (auto simp: distinct_insort set_insort_key)
    then show ?thesis using Cons.IH [OF L'(2)] L'(1) False by simp
  qed
qed simp

lemma loading_order_fold:
  "fold (insort_key (\<lambda>i. loading_sequence (ds i))) (filter (\<lambda>i. loading_sequence (ds i) \<noteq> 0xFF) sect) [] = loading_order ds sect"
  by (simp add: loading_order_def sort_key_def foldr_conv_fold)

subsection \<open>Initialising in order\<close>

fun run_inits :: "(nat \<Rightarrow> 'w \<Rightarrow> int \<times> 'w) \<Rightarrow> nat list \<Rightarrow> 'w \<Rightarrow> int \<times> 'w" where
  "run_inits init [] w = (0, w)"
| "run_inits init (i # is) w = (let (r, w) = init i w in if r \<noteq> 0 then (1, w) else run_inits init is w)"

definition fresh_ids :: "(nat \<Rightarrow> dev_driver) \<Rightarrow> nat option list \<Rightarrow> nat list \<Rightarrow> bool" where
  "fresh_ids ds fs is \<longleftrightarrow> length fs = MAX_DEV_ID \<and>
     (\<forall>i \<in> set is. unat (dev_id (ds i)) < MAX_DEV_ID \<and> \<not> dd_initialized (ds i) \<and> (dev_id (ds i) \<noteq> 0 \<longrightarrow> fs ! unat (dev_id (ds i)) = None)) \<and>
     distinct (filter (\<lambda>n. n \<noteq> 0) (map (\<lambda>i. dev_id (ds i)) is))"

lemma init_drivers_ok:
  assumes "fresh_ids (drivers e) (devfs e) is" and "distinct is"
  shows "\<exists>r e'. init_drivers init (map DriverLink is) e = Some (r, e') \<and> (r, dworld e') = run_inits init is (dworld e) \<and>
    (r = 0 \<longrightarrow> (\<forall>i. drivers e' i = (if i \<in> set is then (drivers e i)\<lparr>dd_initialized := True\<rparr> else drivers e i)) \<and>
      (\<forall>i \<in> set is. dev_id (drivers e i) \<noteq> 0 \<longrightarrow> devfs e' ! unat (dev_id (drivers e i)) = Some i) \<and>
      (\<forall>n < MAX_DEV_ID. devfs e ! n \<noteq> None \<longrightarrow> devfs e' ! n = devfs e ! n) \<and> length (devfs e') = MAX_DEV_ID)"
  using assms
proof (induction "is" arbitrary: e)
  case Nil
  then show ?case by (simp add: fresh_ids_def)
next
  case (Cons i "is")
  let ?d = "drivers e i" and ?n = "unat (dev_id (drivers e i))"
  have n: "?n < MAX_DEV_ID" "\<not> dd_initialized ?d" "dev_id ?d \<noteq> 0 \<longrightarrow> devfs e ! ?n = None" "length (devfs e) = MAX_DEV_ID"
    using Cons.prems(1) by (auto simp: fresh_ids_def)
  obtain ret w where iw: "init i (dworld e) = (ret, w)" by force
  define fs where "fs = (if ?n \<noteq> 0 then (devfs e)[?n := Some i] else devfs e)"
  define e1 where "e1 = e\<lparr>devfs := fs, dworld := w, drivers := (drivers e)(i := ?d\<lparr>dd_initialized := True\<rparr>)\<rparr>"
  have z: "?n \<noteq> 0 \<longleftrightarrow> dev_id ?d \<noteq> 0" by (simp add: unat_eq_0)
  have step: "init_drivers init (map DriverLink (i # is)) e =
      (if ret \<noteq> 0 then Some (1, e\<lparr>devfs := fs, dworld := w\<rparr>) else init_drivers init (map DriverLink is) e1)"
    using n z iw by (auto simp: Let_def fs_def e1_def)
  show ?case
  proof (cases "ret = 0")
    case False
    then show ?thesis using step iw by simp
  next
    case True
    have len: "length fs = MAX_DEV_ID" using n by (simp add: fs_def)
    have ne: "j \<noteq> i \<and> (dev_id (drivers e j) \<noteq> 0 \<longrightarrow> dev_id (drivers e j) \<noteq> dev_id ?d)" if "j \<in> set is" for j
      using Cons.prems that by (auto simp: fresh_ids_def image_iff split: if_splits)
    have id1: "dev_id (drivers e1 j) = dev_id (drivers e j)" for j by (simp add: e1_def)
    have "devfs e1 ! unat (dev_id (drivers e j)) = devfs e ! unat (dev_id (drivers e j))" if "j \<in> set is" "dev_id (drivers e j) \<noteq> 0" for j
      using ne [OF that(1)] that(2) by (auto simp: e1_def fs_def word_unat_eq_iff)
    moreover have "\<not> dd_initialized (drivers e1 j)" if "j \<in> set is" for j
      using Cons.prems that by (auto simp: e1_def fresh_ids_def)
    ultimately have "fresh_ids (drivers e1) (devfs e1) is"
      using Cons.prems(1) len unfolding fresh_ids_def id1 by (auto simp: e1_def split: if_splits)
    then obtain r e' where r: "init_drivers init (map DriverLink is) e1 = Some (r, e')" "(r, dworld e') = run_inits init is (dworld e1)"
      and ok: "r = 0 \<longrightarrow> (\<forall>j. drivers e' j = (if j \<in> set is then (drivers e1 j)\<lparr>dd_initialized := True\<rparr> else drivers e1 j)) \<and>
        (\<forall>j \<in> set is. dev_id (drivers e1 j) \<noteq> 0 \<longrightarrow> devfs e' ! unat (dev_id (drivers e1 j)) = Some j) \<and>
        (\<forall>n < MAX_DEV_ID. devfs e1 ! n \<noteq> None \<longrightarrow> devfs e' ! n = devfs e1 ! n) \<and> length (devfs e') = MAX_DEV_ID"
      using Cons.IH [of e1] Cons.prems(2) by auto
    have run: "run_inits init (i # is) (dworld e) = run_inits init is (dworld e1)" using iw True by (simp add: e1_def)
    have d1: "drivers e1 j = (if j = i then ?d\<lparr>dd_initialized := True\<rparr> else drivers e j)" for j by (simp add: e1_def)
    have old: "devfs e1 ! k = devfs e ! k" if "devfs e ! k \<noteq> None" for k
      using that n(3) z nth_list_update_neq [of ?n k "devfs e" "Some i"] by (cases "k = ?n") (auto simp: e1_def fs_def)
    have me: "dev_id ?d \<noteq> 0 \<longrightarrow> devfs e1 ! ?n = Some i" using z n by (auto simp: e1_def fs_def)
    have "(\<forall>j. drivers e' j = (if j \<in> set (i # is) then (drivers e j)\<lparr>dd_initialized := True\<rparr> else drivers e j))" if "r = 0"
      using ok that ne by (auto simp: d1)
    moreover have "\<forall>j \<in> set (i # is). dev_id (drivers e j) \<noteq> 0 \<longrightarrow> devfs e' ! unat (dev_id (drivers e j)) = Some j" if "r = 0"
    proof -
      have "dev_id ?d \<noteq> 0 \<longrightarrow> devfs e' ! ?n = Some i" using ok that me n(1) by auto
      moreover have "dev_id (drivers e j) \<noteq> 0 \<longrightarrow> devfs e' ! unat (dev_id (drivers e j)) = Some j" if "j \<in> set is" for j
        using ok \<open>r = 0\<close> that ne [OF that] d1 [of j] by auto
      ultimately show ?thesis by simp
    qed
    moreover have "\<forall>k < MAX_DEV_ID. devfs e ! k \<noteq> None \<longrightarrow> devfs e' ! k = devfs e ! k" if "r = 0"
      using ok that old by metis
    ultimately show ?thesis using step True r ok run by auto
  qed
qed

subsection \<open>Properties\<close>

text \<open>C26: \<open>init_driver\<close> builds the list of all drivers but those marked 0xFF sorted by loading
  sequence, drivers of the same level in the reverse of the order in which they are registered.
  When the device ids differ it calls the initialisation functions in exactly this order, stops with
  1 at the first that fails, and otherwise ends with every driver marked as initialised and found
  under its device id.\<close>

theorem init_driver_in_order:
  assumes "clist (driver_list e) DriverHead []" and "distinct sect" and "fresh_ids (drivers e) (replicate MAX_DEV_ID None) (loading_order (drivers e) sect)"
  shows "\<exists>r e'. init_driver init sect e = Some (r, e') \<and>
    (r, dworld e') = run_inits init (loading_order (drivers e) sect) (dworld e) \<and>
    (r = 0 \<longrightarrow> (\<forall>i \<in> set (loading_order (drivers e) sect).
       dd_initialized (drivers e' i) \<and> (dev_id (drivers e i) \<noteq> 0 \<longrightarrow> get_driver e' (dev_id (drivers e i)) = Some i)))"
proof -
  let ?is = "loading_order (drivers e) sect"
  obtain L where L: "fold_opt (add_driver (drivers e)) sect (driver_list e) = Some L" "clist L DriverHead (map DriverLink ?is)"
    using add_drivers_ok [of "driver_list e" "[]" sect "drivers e"] assms(1,2) by (auto simp: loading_order_fold)
  define e1 where "e1 = e\<lparr>devfs := replicate MAX_DEV_ID None, driver_list := L\<rparr>"
  have f: "fresh_ids (drivers e1) (devfs e1) ?is" using assms(3) by (simp add: e1_def)
  have d: "distinct ?is" using assms(2) by (simp add: loading_order_def)
  obtain r e' where r: "init_drivers init (map DriverLink ?is) e1 = Some (r, e')" "(r, dworld e') = run_inits init ?is (dworld e1)"
    and ok: "r = 0 \<longrightarrow> (\<forall>j. drivers e' j = (if j \<in> set ?is then (drivers e1 j)\<lparr>dd_initialized := True\<rparr> else drivers e1 j)) \<and>
        (\<forall>j \<in> set ?is. dev_id (drivers e1 j) \<noteq> 0 \<longrightarrow> devfs e' ! unat (dev_id (drivers e1 j)) = Some j) \<and> length (devfs e') = MAX_DEV_ID"
    using init_drivers_ok [OF f d, of init] by blast
  have "init_driver init sect e = Some (r, e')"
    using L(1) list_entries_clist [OF L(2)] r(1) by (simp add: init_driver_def e1_def Let_def)
  moreover have "unat (dev_id (drivers e i)) < MAX_DEV_ID" if "i \<in> set ?is" for i using assms(3) that by (auto simp: fresh_ids_def)
  ultimately show ?thesis using r ok by (auto simp: e1_def get_driver_def)
qed

text \<open>Three drivers, registered as 0, 1 and 2: two of level 2 around one of level 1.\<close>

definition example_drivers :: "nat list driver_env" where
  "example_drivers = \<lparr>drivers = (\<lambda>i. \<lparr>dev_id = of_nat i + 1, loading_sequence = (if i = 1 then 1 else 2), dd_initialized = False\<rparr>),
     driver_list = \<lparr>lnext = (\<lambda>n. n), lprev = (\<lambda>n. n)\<rparr>, devfs = [], dworld = []\<rparr>"

theorem init_driver_in_order_witness:
  "\<exists>r e'. init_driver (\<lambda>i w. (0, w @ [i])) [0, 1, 2] example_drivers = Some (r, e') \<and> dworld e' = [1, 2, 0] \<and> get_driver e' 3 = Some 2"
proof -
  have o: "loading_order (drivers example_drivers) [0, 1, 2] = [1, 2, 0]" by (simp add: loading_order_def example_drivers_def word_le_nat_alt)
  have c: "clist (driver_list example_drivers) DriverHead []" by (simp add: clist_def example_drivers_def)
  have f: "fresh_ids (drivers example_drivers) (replicate MAX_DEV_ID None) (loading_order (drivers example_drivers) [0, 1, 2])"
    unfolding o by (simp add: fresh_ids_def MAX_DEV_ID_def example_drivers_def)
  from init_driver_in_order [OF c _ f, of "\<lambda>i w. (0, w @ [i])"] show ?thesis unfolding o by (auto simp: example_drivers_def)
qed

end
