(* ===== verification/Elf.thy ===== *)
theory Elf
  imports Proc Paging Cstring
begin

text \<open>
  \<open>kernel/lib/elf.c\<close>: the ELF headers and the loader.  The file is reached through \<open>reader\<close>, which
  for an offset and a size gives the bytes it delivers and the next state of the file; a header that
  is not delivered in full stays uninitialised, which has no meaning here.  Page tables live in
  \<open>phys\<close>, the contents of the pages in a byte memory, both at the physical addresses the kernel is
  mapped to one to one.
\<close>

definition ELFCLASS64 :: u8 where "ELFCLASS64 = 2"

definition ELFDATA2LSB :: u8 where "ELFDATA2LSB = 1"

definition EV_CURRENT :: u8 where "EV_CURRENT = 1"

definition EM_RISCV :: u16 where "EM_RISCV = 243"

definition ET_EXEC :: u16 where "ET_EXEC = 2"

definition PT_LOAD :: u32 where "PT_LOAD = 1"

definition PF_X :: u32 where "PF_X = 1"

definition PF_W :: u32 where "PF_W = 2"

definition PF_R :: u32 where "PF_R = 4"

record Elf64_Ehdr =
  e_ident :: "u8 list"
  e_type :: u16
  e_machine :: u16
  e_version :: u32
  e_entry :: u64
  e_phoff :: u64
  e_shoff :: u64
  e_flags :: u32
  e_ehsize :: u16
  e_phentsize :: u16
  e_phnum :: u16
  e_shentsize :: u16
  e_shnum :: u16
  e_shstrndx :: u16

record Elf64_Phdr =
  p_type :: u32
  p_flags :: u32
  p_offset :: u64
  p_vaddr :: u64
  p_paddr :: u64
  p_filesz :: u64
  p_memsz :: u64
  p_align :: u64

text \<open>The structures as they lie in memory: little endian, each field at its offset.\<close>

fun le_nat :: "u8 list \<Rightarrow> nat" where
  "le_nat [] = 0"
| "le_nat (b # bs) = unat b + 256 * le_nat bs"

definition field :: "u8 list \<Rightarrow> nat \<Rightarrow> nat \<Rightarrow> 'a::len word" where
  "field bs off n = of_nat (le_nat (take n (drop off bs)))"

definition ehdr_of :: "u8 list \<Rightarrow> Elf64_Ehdr" where
  "ehdr_of bs = \<lparr>e_ident = take 16 bs, e_type = field bs 16 2, e_machine = field bs 18 2, e_version = field bs 20 4,
     e_entry = field bs 24 8, e_phoff = field bs 32 8, e_shoff = field bs 40 8, e_flags = field bs 48 4, e_ehsize = field bs 52 2,
     e_phentsize = field bs 54 2, e_phnum = field bs 56 2, e_shentsize = field bs 58 2, e_shnum = field bs 60 2, e_shstrndx = field bs 62 2\<rparr>"

definition phdr_of :: "u8 list \<Rightarrow> Elf64_Phdr" where
  "phdr_of bs = \<lparr>p_type = field bs 0 4, p_flags = field bs 4 4, p_offset = field bs 8 8, p_vaddr = field bs 16 8,
     p_paddr = field bs 24 8, p_filesz = field bs 32 8, p_memsz = field bs 40 8, p_align = field bs 48 8\<rparr>"

definition sizeof_Ehdr :: nat where "sizeof_Ehdr = 64"

definition sizeof_Phdr :: nat where "sizeof_Phdr = 56"

definition sizeof_Shdr :: nat where "sizeof_Shdr = 64"

definition elf_check_header :: "Elf64_Ehdr \<Rightarrow> bool" where
  "elf_check_header h =
    (if take 4 (e_ident h) \<noteq> [0x7F, 0x45, 0x4C, 0x46] then False
     else if e_ident h ! 4 \<noteq> ELFCLASS64 then False
     else if e_ident h ! 5 \<noteq> ELFDATA2LSB then False
     else if e_ident h ! 6 \<noteq> EV_CURRENT then False
     else if e_machine h \<noteq> EM_RISCV then False
     else if e_type h \<noteq> ET_EXEC then False
     else True)"

subsection \<open>The loader\<close>

type_synonym 'r reader = "'r \<Rightarrow> u64 \<Rightarrow> u64 \<Rightarrow> (u8 list \<times> 'r) option"

record 'r loader =
  l_proc :: proc
  l_ph :: phys
  l_mi :: memory_info
  l_mem :: byte_mem
  l_file :: 'r

definition put_bytes :: "byte_mem \<Rightarrow> nat \<Rightarrow> u8 list \<Rightarrow> byte_mem" where
  "put_bytes m a bs = (\<lambda>x. if a \<le> x \<and> x < a + length bs then bs ! (x - a) else m x)"

definition read_header :: "'r reader \<Rightarrow> u64 \<Rightarrow> nat \<Rightarrow> 'r loader \<Rightarrow> (u8 list \<times> 'r loader) option" where
  "read_header reader off n s = do {
     (bs, r) \<leftarrow> reader (l_file s) off (of_nat n);
     kassert (length bs = n);
     Some (bs, s\<lparr>l_file := r\<rparr>) }"

definition PTE_TYPE_BIT_R :: u64 where "PTE_TYPE_BIT_R = 1"

definition PTE_TYPE_BIT_X :: u64 where "PTE_TYPE_BIT_X = 4"

definition PTE_TYPE_RO :: u64 where "PTE_TYPE_RO = 1"

definition PTE_TYPE_XO :: u64 where "PTE_TYPE_XO = 4"

definition PTE_TYPE_RX :: u64 where "PTE_TYPE_RX = 5"

definition segment_type :: "u32 \<Rightarrow> u64" where
  "segment_type flags =
    (if flags AND PF_R \<noteq> 0 then PTE_TYPE_BIT_R else 0) OR
    (if flags AND PF_W \<noteq> 0 then PTE_TYPE_BIT_W else 0) OR
    (if flags AND PF_X \<noteq> 0 then PTE_TYPE_BIT_X else 0)"

definition segment_bounds :: "Elf64_Phdr \<Rightarrow> proc \<Rightarrow> proc" where
  "segment_bounds P p =
    (let p = (if prog_image_start p > p_vaddr P then p\<lparr>prog_image_start := p_vaddr P\<rparr> else p)
     in if prog_break p < p_vaddr P + p_memsz P then p\<lparr>prog_break := p_vaddr P + p_memsz P\<rparr> else p)"

text \<open>The contents of a segment in the pages at \<open>pa\<close>: what the reader delivers, then the clearing
  before and after it.\<close>

definition segment_fill :: "Elf64_Phdr \<Rightarrow> nat \<Rightarrow> u8 list \<Rightarrow> byte_mem \<Rightarrow> byte_mem option" where
  "segment_fill P pa bs mem = do {
     let va_offset = unat (p_vaddr P - PG_ROUNDDOWN (p_vaddr P));
     let mem = put_bytes mem (pa + va_offset) bs;
     let mem = (if va_offset \<noteq> 0 then memset mem pa 0 va_offset else mem);
     if p_filesz P \<noteq> p_memsz P then do {
       kassert (\<not> p_filesz P > p_memsz P);
       Some (memset mem (pa + va_offset + unat (p_filesz P)) 0 (unat (p_memsz P - p_filesz P))) }
     else Some mem }"

text \<open>The result of \<open>page_alloc\<close> is used and that of \<open>map_pages\<close> ignored without a check.\<close>

definition load_segment :: "nat \<Rightarrow> 'r reader \<Rightarrow> Elf64_Phdr \<Rightarrow> 'r loader \<Rightarrow> 'r loader option" where
  "load_segment hart reader P s = do {
     let s = s\<lparr>l_proc := segment_bounds P (l_proc s)\<rparr>;
     let memsz = PG_ROUNDUP (p_memsz P);
     (pa, m) \<leftarrow> page_alloc hart (l_mi s) (memsz div 4096) (PAGE_TYPE_INUSE OR PAGE_TYPE_USER);
     (bs, r) \<leftarrow> reader (l_file s) (p_offset P) (p_filesz P);
     mem \<leftarrow> segment_fill P pa bs (l_mem s);
     let ty = segment_type (p_flags P);
     kassert (ty = PTE_TYPE_RWX \<or> ty = PTE_TYPE_RW \<or> ty = PTE_TYPE_XO \<or> ty = PTE_TYPE_RO \<or> ty = PTE_TYPE_RX);
     (_, ph, m) \<leftarrow> map_pages hart (l_ph s) m (page_dir (l_proc s)) (PG_ROUNDDOWN (p_vaddr P)) (of_nat pa) (p_memsz P) ty True False;
     Some (s\<lparr>l_ph := ph, l_mi := m, l_mem := mem, l_file := r\<rparr>) }"

text \<open>The loop over the program headers from \<open>i\<close> on, \<open>n\<close> of them to go.\<close>

fun load_headers :: "nat \<Rightarrow> 'r reader \<Rightarrow> u64 \<Rightarrow> nat \<Rightarrow> nat \<Rightarrow> 'r loader \<Rightarrow> 'r loader option" where
  "load_headers hart reader phoff i 0 s = Some s"
| "load_headers hart reader phoff i (Suc n) s = do {
     (bs, s) \<leftarrow> read_header reader (phoff + of_nat (i * sizeof_Phdr)) sizeof_Phdr s;
     s \<leftarrow> (if p_type (phdr_of bs) = PT_LOAD then load_segment hart reader (phdr_of bs) s else Some s);
     load_headers hart reader phoff (Suc i) n s }"

definition elf_load_to_process :: "nat \<Rightarrow> 'r reader \<Rightarrow> 'r loader \<Rightarrow> (bool \<times> 'r loader) option" where
  "elf_load_to_process hart reader s = do {
     (bs, s) \<leftarrow> read_header reader 0 sizeof_Ehdr s;
     let E = ehdr_of bs;
     if \<not> elf_check_header E then Some (False, s)
     else do {
       let s = s\<lparr>l_proc := (l_proc s)\<lparr>prog_image_start := 0xFFFFFFFFFFFFFFFF, prog_break := 0, prog_size := 0\<rparr>\<rparr>;
       if sizeof_Phdr \<noteq> unat (e_phentsize E) then Some (False, s)
       else if sizeof_Shdr \<noteq> unat (e_shentsize E) then Some (False, s)
       else do {
         s \<leftarrow> load_headers hart reader (e_phoff E) 0 (unat (e_phnum E)) s;
         let p = l_proc s;
         Some (True, s\<lparr>l_proc := p\<lparr>prog_size := prog_break p - prog_image_start p, user_pc := e_entry E\<rparr>\<rparr>) } } }"

end
