(* ===== verification/Elf_Props.thy ===== *)
theory Elf_Props
  imports Elf Brk
begin

text \<open>
  Loading a segment: fresh pages hold the bytes of the file followed by zeros and are mapped at the
  segment's address.  This brings together the page allocator, the page tables and the loader.
\<close>

subsection \<open>Blocks of several pages\<close>

lemma frames_alloc_block:
  assumes "frames_in m L"
  shows "\<exists>g m'. page_alloc hart m pages attr = Some (g, m') \<and>
    (g = 0 \<and> frames_in m' L \<or>
     g \<noteq> 0 \<and> 4096 dvd g \<and> page_order pages < 9 \<and> g + 2 ^ page_order pages * 4096 \<le> 2 ^ 38 \<and> (\<forall>j < 2 ^ page_order pages. g + j * 4096 \<notin> L) \<and>
     frames_in m' (L \<union> {g + j * 4096 | j. j < 2 ^ page_order pages}))"
proof -
  let ?k = "page_order pages"
  obtain n A where A: "buddy_ok m n A" "4096 dvd usable_memory_start m" "usable_memory_start m + n * 4096 \<le> 2 ^ 38"
    "L = {usable_memory_start m + p * 4096 | p. \<exists>k i. (k, i) \<in> A \<and> in_block k i p}"
    using assms by (auto simp: frames_in_def)
  obtain F where F: "buddy_inv m n F A" "coalesced F" "\<not> sl_lock (mem_lock m)" using A(1) by (auto simp: buddy_ok_def)
  from page_alloc_cases [OF F, of hart pages attr] show ?thesis
  proof (elim disjE exE conjE)
    fix i m' assume m': "page_alloc hart m pages attr = Some (baddr m ?k i, m')" "?k < 9" "(?k, i) \<notin> A"
      "buddy_ok m' n (insert (?k, i) A)" "usable_memory_start m' = usable_memory_start m"
    let ?g = "baddr m ?k i" and ?us = "usable_memory_start m"
    have g: "?g + j * 4096 = ?us + (i * 2 ^ ?k + j) * 4096" for j by (simp add: baddr_def PG_SIZE_def algebra_simps)
    have ib: "in_block ?k i (i * 2 ^ ?k + j) \<longleftrightarrow> j < 2 ^ ?k" for j by (auto simp: in_block_iff)
    have b: "i * 2 ^ ?k + j < n" if "j < 2 ^ ?k" for j using block_page_bound [OF m'(4), of ?k i] ib that by blast
    obtain F' where "part_inv n F' (insert (?k, i) A)" using m'(4) unfolding buddy_ok_def buddy_inv_def by blast
    then have "disjoint_blocks (fblocks F' \<union> insert (?k, i) A)" by (simp only: part_inv_def)
    then have dj: "disjoint_blocks (insert (?k, i) A)" by (rule disjoint_blocks_mono) blast
    have new: "?g + j * 4096 \<notin> L" if "j < 2 ^ ?k" for j
    proof
      assume "?g + j * 4096 \<in> L"
      then obtain p k i' where p: "?us + (i * 2 ^ ?k + j) * 4096 = ?us + p * 4096" "(k, i') \<in> A" "in_block k i' p" unfolding A(4) g by blast
      then have "p = i * 2 ^ ?k + j" by simp
      then have "(k, i') \<in> A" "in_block k i' (i * 2 ^ ?k + j)" using p by auto
      moreover from this have "(k, i') = (?k, i)" using dj ib that unfolding disjoint_blocks_def by blast
      ultimately show False using m'(3) by simp
    qed
    have "\<exists>j < 2 ^ ?k. p = i * 2 ^ ?k + j" if "in_block ?k i p" for p
      using that by (intro exI [of _ "p - i * 2 ^ ?k"]) (auto simp: in_block_iff)
    then have "L \<union> {?g + j * 4096 | j. j < 2 ^ ?k} = {?us + p * 4096 | p. \<exists>k i'. (k, i') \<in> insert (?k, i) A \<and> in_block k i' p}"
      unfolding A(4) g using ib by blast
    then have "frames_in m' (L \<union> {?g + j * 4096 | j. j < 2 ^ ?k})"
      unfolding frames_in_def using m'(4,5) A(2,3) by (intro exI [of _ n] exI [of _ "insert (?k, i) A"]) simp
    moreover have "?g + 2 ^ ?k * 4096 \<le> 2 ^ 38" using b [of "2 ^ ?k - 1"] A(3) unfolding g by (simp add: algebra_simps) 
    moreover have "4096 dvd ?g" "?g \<noteq> 0" using A(2) F(1) by (auto simp: baddr_def PG_SIZE_def buddy_inv_def arena_ok_def)
    ultimately show ?thesis using m'(1,2) new by auto
  next
    fix l assume "page_alloc hart m pages attr = Some (0, m\<lparr>mem_lock := l\<rparr>)" "\<not> sl_lock l"
    moreover from this have "frames_in (m\<lparr>mem_lock := l\<rparr>) L" using A F by (auto simp: frames_in_def buddy_ok_def inv_lock)
    ultimately show ?thesis by simp
  qed
qed

subsection \<open>The contents of a segment\<close>

lemma segment_fill_ok:
  assumes "p_filesz P \<le> p_memsz P" and "length bs = unat (p_filesz P)"
  shows "\<exists>mem'. segment_fill P pa bs mem = Some mem' \<and>
    (\<forall>a. mem' a = (let o' = unat (p_vaddr P - PG_ROUNDDOWN (p_vaddr P)) in
      if pa + o' \<le> a \<and> a < pa + o' + unat (p_memsz P)
      then (if a < pa + o' + unat (p_filesz P) then bs ! (a - (pa + o')) else 0)
      else if pa \<le> a \<and> a < pa + o' then 0 else mem a))"
proof -
  have l: "unat (p_filesz P) \<le> unat (p_memsz P)" "unat (p_memsz P - p_filesz P) = unat (p_memsz P) - unat (p_filesz P)"
    and n: "\<not> p_memsz P < p_filesz P"
    using assms(1) by (auto simp: word_le_nat_alt word_less_nat_alt unat_sub)
  define off where "off = unat (p_vaddr P - PG_ROUNDDOWN (p_vaddr P))"
  define m1 where "m1 = put_bytes mem (pa + off) bs"
  define m2 where "m2 = (if off \<noteq> 0 then memset m1 pa 0 off else m1)"
  define m3 where "m3 = (if p_filesz P \<noteq> p_memsz P then memset m2 (pa + off + unat (p_filesz P)) 0 (unat (p_memsz P - p_filesz P)) else m2)"
  have "segment_fill P pa bs mem = Some m3"
    using n by (simp add: segment_fill_def Let_def m3_def m2_def m1_def off_def)
  moreover have "m2 a = (if pa + off \<le> a \<and> a < pa + off + unat (p_filesz P) then bs ! (a - (pa + off)) else if pa \<le> a \<and> a < pa + off then 0 else mem a)" for a
    by (auto simp: m2_def m1_def memset_spec put_bytes_def assms(2))
  ultimately show ?thesis using l by (auto simp: Let_def off_def [symmetric] m3_def memset_spec)
qed

subsection \<open>Properties\<close>


text \<open>A segment of two pages at \<open>0x2000\<close> of which the file holds four bytes.\<close>

definition example_segment :: Elf64_Phdr where
  "example_segment = \<lparr>p_type = PT_LOAD, p_flags = 6, p_offset = 0x1000, p_vaddr = 0x2000, p_paddr = 0x2000,
     p_filesz = 4, p_memsz = 0x1800, p_align = 0x1000\<rparr>"


end
