(* ===== verification/Kernel.thy ===== *)
theory Kernel
  imports Proc_Life Pipe Vfs Elf Usercopy Brk
begin

text \<open>
  The kernel as one state.  \<open>k_env\<close> is the process table, \<open>k_vfs\<close> the file system, \<open>k_ph\<close> and
  \<open>k_mi\<close> the page tables and the page allocator, \<open>k_pipes\<close> the pipes, with \<open>k_pipe_at\<close> for the
  \<open>f_fs_data\<close> of a pipe's files, \<open>k_mem\<close> the address space the kernel sees while the current process
  runs (from \<open>KERNEL_MEM_START\<close> on its own, below it the process's) and \<open>k_umem\<close> the access bit.
  Here are the operations that create and end a process with all that belongs to them, which
  \<open>Proc_Life\<close> treats for the process table alone: \<open>proc_alloc\<close>, \<open>proc_free\<close>, \<open>init_proc\<close>
  (\<open>kernel/proc/proc.c\<close>), \<open>do_fork\<close> (\<open>kernel/proc/fork.c\<close>) and \<open>do_exit\<close> (\<open>kernel/proc/exit.c\<close>).

  \<open>sys_ctx\<close> holds what a call finds around it: the hart and its current process, the tables of the
  file systems and drivers, the address \<open>kmalloc\<close> returns in a state, an address on the kernel stack
  for local variables, the address of \<open>os_env.ticks\<close> and the device mappings.
\<close>

record kernel =
  k_env :: env
  k_vfs :: vfs
  k_pipes :: "nat \<Rightarrow> pipe option"
  k_pipe_at :: "nat \<Rightarrow> nat option"
  k_ph :: phys
  k_mi :: memory_info
  k_mem :: byte_mem
  k_umem :: bool

record sys_ctx =
  x_hart :: nat
  x_cur :: nat
  x_venv :: vfs_env
  x_kmalloc :: "kernel \<Rightarrow> u64"
  x_stack :: u64
  x_ticks_chan :: u64
  x_pipe_ops :: nat
  x_sysmaps :: "mem_sysmap list"

definition PROC_STACK_SIZE :: u64 where "PROC_STACK_SIZE = 8192"

definition PROG_KSTACK_SIZE :: u64 where "PROG_KSTACK_SIZE = 8192"

definition PROC_STACK_BASE :: u64 where "PROC_STACK_BASE = 0x80000000"

definition c_string :: "string \<Rightarrow> u8 list" where
  "c_string s = map (\<lambda>c. of_nat (of_char c)) s"

definition set_proc_k :: "nat \<Rightarrow> (proc \<Rightarrow> proc) \<Rightarrow> kernel \<Rightarrow> kernel option" where
  "set_proc_k i f s = do { e \<leftarrow> upd_proc i f (k_env s); Some (s\<lparr>k_env := e\<rparr>) }"

subsection \<open>Creating a process\<close>

text \<open>What \<open>proc_alloc\<close> obtains from the other components, in its order.  The kernel stack is cleared
  without a check, and only its first page.\<close>

definition proc_resources :: "sys_ctx \<Rightarrow> kernel \<Rightarrow> (proc_res \<times> kernel) option" where
  "proc_resources x s = do {
     (kst, m) \<leftarrow> page_alloc (x_hart x) (k_mi s) (PG_ROUNDUP PROG_KSTACK_SIZE div 4096) PAGE_TYPE_SYSTEM;
     let mem = memset (k_mem s) kst 0 PG_SIZE;
     (dir, ph, m) \<leftarrow> alloc_page_dir (x_hart x) (k_ph s) m (x_sysmaps x);
     let s = s\<lparr>k_mi := m, k_mem := mem, k_ph := ph\<rparr>;
     let res = \<lparr>res_kstack = kst, res_pagedir = dir, res_tty_in = 0, res_tty_out = 0, res_root = vfs_get_root\<rparr>;
     if dir = 0 then Some (res, s)
     else do {
       (dent, v) \<leftarrow> vfs_get_dentry (x_venv x) ''/dev/tty'' 0 (k_vfs s);
       (f_out, v) \<leftarrow> vfs_open (x_venv x) dent (uint O_WRONLY) v;
       (f_in, v) \<leftarrow> vfs_open (x_venv x) dent (uint O_RDONLY) v;
       (f_err, v) \<leftarrow> vfs_fdup f_out v;
       Some (res\<lparr>res_tty_in := f_in, res_tty_out := f_err\<rparr>, s\<lparr>k_vfs := v\<rparr>) } }"

text \<open>Nothing is obtained when every pid is taken.\<close>

definition pid_resources :: "sys_ctx \<Rightarrow> kernel \<Rightarrow> (proc_res \<times> kernel) option" where
  "pid_resources x s = do {
     (i, _) \<leftarrow> set_first_unset_bit (proc_bitmap (k_env s))
        (MAX_PROC div BITS_PER_BITSET + (if MAX_PROC mod BITS_PER_BITSET \<noteq> 0 then 1 else 0));
     if i = NO_BIT then Some (\<lparr>res_kstack = 0, res_pagedir = 0, res_tty_in = 0, res_tty_out = 0, res_root = 0\<rparr>, s)
     else proc_resources x s }"

definition k_proc_alloc :: "sys_ctx \<Rightarrow> kernel \<Rightarrow> (nat option \<times> kernel) option" where
  "k_proc_alloc x s = do {
     (res, s) \<leftarrow> pid_resources x s;
     (r, e) \<leftarrow> proc_alloc (x_hart x) res (k_env s);
     Some (r, s\<lparr>k_env := e\<rparr>) }"

text \<open>The image of the first process is read from the kernel's own memory, which loading does not
  change: the reader's state is that memory.\<close>

definition memory_reader :: "nat \<Rightarrow> byte_mem reader" where
  "memory_reader data mem offset sz = Some (map (\<lambda>k. mem (data + unat offset + k)) [0..<unat sz], mem)"

definition k_elf_load :: "sys_ctx \<Rightarrow> 'r reader \<Rightarrow> 'r \<Rightarrow> nat \<Rightarrow> kernel \<Rightarrow> (bool \<times> 'r \<times> kernel) option" where
  "k_elf_load x reader r i s = do {
     p \<leftarrow> procs (k_env s) i;
     (ok, l) \<leftarrow> elf_load_to_process (x_hart x) reader
       \<lparr>l_proc = p, l_ph = k_ph s, l_mi = k_mi s, l_mem = k_mem s, l_file = r\<rparr>;
     s \<leftarrow> set_proc_k i (\<lambda>_. l_proc l) s;
     Some (ok, l_file l, s\<lparr>k_ph := l_ph l, k_mi := l_mi l, k_mem := l_mem l\<rparr>) }"

definition setup_init_process :: "sys_ctx \<Rightarrow> nat \<Rightarrow> kernel \<Rightarrow> kernel option" where
  "setup_init_process x init_code_start s = do {
     (r, s) \<leftarrow> k_proc_alloc x s;
     i \<leftarrow> r;
     p \<leftarrow> procs (k_env s) i;
     kassert (pid p = 1);
     (ok, _, s) \<leftarrow> k_elf_load x (memory_reader init_code_start) (k_mem s) i s;
     kassert ok;
     let stack_pages = PG_ROUNDUP PROC_STACK_SIZE div 4096;
     (process_stack, m) \<leftarrow> page_alloc (x_hart x) (k_mi s) stack_pages (PAGE_TYPE_INUSE OR PAGE_TYPE_USER);
     kassert (process_stack \<noteq> 0);
     let process_stack_top = PROC_STACK_BASE - stack_pages * 4096;
     p \<leftarrow> procs (k_env s) i;
     (_, ph, m) \<leftarrow> map_pages (x_hart x) (k_ph s) m (page_dir p) process_stack_top (of_nat process_stack) PROC_STACK_SIZE
       PTE_TYPE_RW True False;
     s \<leftarrow> set_proc_k i (\<lambda>p. p\<lparr>trapframe := (trapframe p)\<lparr>sp := PROC_STACK_BASE\<rparr>, stack_bottom := PROC_STACK_BASE,
            stack_top := process_stack_top, pname := c_string ''init'', status := status p OR PROC_STATUS_READY\<rparr>)
          (s\<lparr>k_ph := ph, k_mi := m\<rparr>);
     e \<leftarrow> release_proc (x_hart x) i (k_env s);
     Some (s\<lparr>k_env := e\<rparr>) }"

definition init_proc :: "sys_ctx \<Rightarrow> nat \<Rightarrow> kernel \<Rightarrow> kernel option" where
  "init_proc x init_code_start s = do {
     e \<leftarrow> acquire_table (x_hart x) (k_env s);
     bm \<leftarrow> set_bit_b (proc_bitmap e) 0;
     e \<leftarrow> release_table (x_hart x) (e\<lparr>proc_bitmap := bm, proc_count := proc_count e + 1\<rparr>);
     setup_init_process x init_code_start (s\<lparr>k_env := e\<rparr>) }"

subsection \<open>Fork and exit\<close>

text \<open>The loop that shares the open files from descriptor 3 on.\<close>

definition dup_files :: "nat option list \<Rightarrow> vfs \<Rightarrow> vfs option" where
  "dup_files fs = fold_opt (\<lambda>f v. case f of None \<Rightarrow> Some v | Some a \<Rightarrow> do { (_, v) \<leftarrow> vfs_fdup a v; Some v })
     (map ((!) fs) [3..<MAX_FILE_OPEN])"

text \<open>\<open>do_fork\<close> up to its \<open>yield\<close>: the process table, then the memory and the files of the child.\<close>

definition k_do_fork :: "sys_ctx \<Rightarrow> nat \<Rightarrow> u64 \<Rightarrow> kernel \<Rightarrow> (int \<times> kernel) option" where
  "k_do_fork x par child_stack s = do {
     p \<leftarrow> procs (k_env s) par;
     (res, s) \<leftarrow> pid_resources x s;
     (r, e) \<leftarrow> do_fork (x_hart x) res par child_stack (k_env s);
     let s = s\<lparr>k_env := e\<rparr>;
     if r < 0 then Some (r, s)
     else do {
       (ph, m) \<leftarrow> vm_copy (x_hart x) (k_ph s) (k_mi s) (res_pagedir res) (page_dir p) (prog_image_start p) (prog_break p);
       (ph, m) \<leftarrow> vm_copy (x_hart x) ph m (res_pagedir res) (page_dir p) (stack_top p) (stack_bottom p);
       v \<leftarrow> dup_files (files p) (k_vfs s);
       Some (r, s\<lparr>k_ph := ph, k_mi := m, k_vfs := v\<rparr>) } }"

definition close_files :: "vfs_env \<Rightarrow> nat option list \<Rightarrow> vfs \<Rightarrow> vfs option" where
  "close_files ve fs = fold_opt (\<lambda>f v. case f of None \<Rightarrow> Some v | Some a \<Rightarrow> do { (_, v) \<leftarrow> vfs_close ve a v; Some v })
     (map ((!) fs) [0..<MAX_FILE_OPEN])"

definition unmap_user :: "nat \<Rightarrow> proc \<Rightarrow> phys \<Rightarrow> memory_info \<Rightarrow> (phys \<times> memory_info) option" where
  "unmap_user hart p ph m = do {
     (ph, m) \<leftarrow> unmap_pages hart ph m (page_dir p) (prog_image_start p) (PG_ROUNDUP (prog_size p) div 4096) True;
     unmap_pages hart ph m (page_dir p) (stack_top p) (PG_ROUNDUP (stack_bottom p - stack_top p) div 4096) True }"

definition proc_free :: "sys_ctx \<Rightarrow> proc \<Rightarrow> kernel \<Rightarrow> kernel option" where
  "proc_free x p s = do {
     kassert (sl_lock (pr_lock p));
     v \<leftarrow> close_files (x_venv x) (files p) (k_vfs s);
     (ph, m) \<leftarrow> unmap_user (x_hart x) p (k_ph s) (k_mi s);
     m \<leftarrow> dealloc_page_dir (x_hart x) ph m (page_dir p);
     Some (s\<lparr>k_vfs := v, k_ph := ph, k_mi := m\<rparr>) }"

text \<open>\<open>do_exit\<close> up to its \<open>yield\<close>: what the process holds is given back under its lock, then the
  process table follows.\<close>

definition k_do_exit :: "sys_ctx \<Rightarrow> nat \<Rightarrow> u64 \<Rightarrow> kernel \<Rightarrow> kernel option" where
  "k_do_exit x i ec s = do {
     e \<leftarrow> acquire_proc (x_hart x) i (k_env s);
     p \<leftarrow> procs e i;
     kassert (pid p \<noteq> 1);
     s \<leftarrow> proc_free x p s;
     e \<leftarrow> do_exit (x_hart x) i ec (k_env s);
     Some (s\<lparr>k_env := e\<rparr>) }"

end
