(* ===== verification/Execve.thy ===== *)
theory Execve
  imports Kernel
begin

text \<open>
  \<open>kernel/proc/execve.c\<close>: a process becomes another program.  The new stack is built in freshly
  allocated pages at their kernel addresses, before the pages are mapped below \<open>PROC_STACK_BASE\<close>.
  \<open>argv\<close> and \<open>env\<close> are given by the contents of their strings and \<open>argv_ptr\<close> is the kernel's
  pointer to the first of these arrays, which the code pushes as it is.
\<close>

definition vfs_reader :: "vfs_env \<Rightarrow> nat \<Rightarrow> vfs reader" where
  "vfs_reader ve f v offset sz = do {
     (_, v) \<leftarrow> vfs_lseek f offset SEEK_SET v;
     (_, bs, v) \<leftarrow> vfs_read ve f 0 sz v;
     Some (bs, v) }"

definition get_offset_addr :: "u64 \<Rightarrow> u64 \<Rightarrow> u64 \<Rightarrow> u64" where
  "get_offset_addr base addr vbase = vbase + (addr - base)"

definition put_u64 :: "byte_mem \<Rightarrow> u64 \<Rightarrow> u64 \<Rightarrow> byte_mem" where
  "put_u64 mem a w = put_bytes mem (unat a) (map (\<lambda>k. ucast (drop_bit (8 * k) w)) [0..<8])"

definition get_u64 :: "byte_mem \<Rightarrow> u64 \<Rightarrow> u64" where
  "get_u64 mem a = of_nat (le_nat (map (\<lambda>k. mem (unat a + k)) [0..<8]))"

text \<open>The strings are pushed from the last to the first, each with its terminator.\<close>

fun push_strings :: "u8 list list \<Rightarrow> u64 \<times> byte_mem \<Rightarrow> u64 \<times> byte_mem" where
  "push_strings [] st = st"
| "push_strings (e # es) st =
    (let (sp, mem) = push_strings es st;
         sp = sp - (of_nat (length e) + 1)
     in (sp, put_bytes mem (unat sp) (e @ [0])))"

text \<open>The pointers from entry \<open>i\<close> on: \<open>prev\<close> is entry \<open>i - 1\<close>, and the strings from number \<open>i - 1\<close>
  on are still to come.\<close>

fun put_pointers :: "u8 list list \<Rightarrow> u64 \<Rightarrow> u64 \<Rightarrow> byte_mem \<Rightarrow> byte_mem" where
  "put_pointers [] a prev mem = mem"
| "put_pointers [e] a prev mem = put_u64 mem a 0"
| "put_pointers (e # es) a prev mem =
    (let q = prev + of_nat (length e) + 1 in put_pointers es (a + 8) q (put_u64 mem a q))"

definition put_table :: "u8 list list \<Rightarrow> u64 \<Rightarrow> u64 \<Rightarrow> byte_mem \<Rightarrow> byte_mem" where
  "put_table strs a first mem = put_pointers strs (a + 8) first (put_u64 mem a first)"

record exec_stack =
  xs_sp :: u64
  xs_argv :: u64
  xs_envp :: u64
  xs_mem :: byte_mem

text \<open>The stack in the pages at \<open>process_stack\<close>: final stack pointer, the offsets that become
  \<open>argv_va\<close> and \<open>envp_va\<close>, memory.\<close>

definition build_stack :: "u64 \<Rightarrow> u64 \<Rightarrow> u8 list list \<Rightarrow> u8 list list \<Rightarrow> byte_mem \<Rightarrow> exec_stack" where
  "build_stack process_stack argv_ptr argv env mem =
    (let stack_bottom = process_stack + PG_ROUNDUP PROC_STACK_SIZE;
         (head_of_envp, mem) = push_strings env (stack_bottom, mem);
         sp = ROUNDDOWN_WITH 8 head_of_envp;
         (head_of_argv, mem) = push_strings argv (sp, mem);
         sp = ROUNDDOWN_WITH 8 head_of_argv;
         sp = sp - 8 * (of_nat (length env) + 1);
         envp = sp;
         mem = put_table env envp (get_offset_addr process_stack head_of_envp (PROC_STACK_BASE - PROC_STACK_SIZE)) mem;
         offset_envp = stack_bottom - sp;
         sp = sp - 8 * (of_nat (length argv) + 1);
         argvp = sp;
         mem = put_table argv argvp (get_offset_addr process_stack head_of_argv (PROC_STACK_BASE - PROC_STACK_SIZE)) mem;
         offset_argv = stack_bottom - sp;
         sp = sp - 8;
         mem = put_u64 mem sp envp;
         sp = sp - 8;
         mem = put_u64 mem sp argv_ptr;
         sp = sp - 8;
         mem = put_u64 mem sp (of_nat (length argv))
     in \<lparr>xs_sp = sp, xs_argv = PROC_STACK_SIZE - offset_argv, xs_envp = PROC_STACK_SIZE - offset_envp, xs_mem = mem\<rparr>)"

text \<open>The state of the process after the new image is in place.\<close>

definition exec_proc :: "u64 \<Rightarrow> u64 \<Rightarrow> exec_stack \<Rightarrow> string \<Rightarrow> proc \<Rightarrow> proc" where
  "exec_proc stack_bottom' process_stack_top k nm p = p\<lparr>
     trapframe := (trapframe p)\<lparr>sp := ROUNDDOWN_WITH 8 (PROC_STACK_BASE - (stack_bottom' - xs_sp k)),
                                a1 := xs_argv k, a2 := xs_envp k\<rparr>,
     stack_bottom := PROC_STACK_BASE, stack_top := process_stack_top, pname := c_string nm,
     status := PROC_STATUS_READY OR PROC_STATUS_NORMAL\<rparr>"

text \<open>Returning \<open>-4\<close> the lock of the process stays held.  A name that does not fit into the process's
  field is copied past its end.\<close>

definition do_execve :: "sys_ctx \<Rightarrow> nat \<Rightarrow> nat \<Rightarrow> string \<Rightarrow> u64 \<Rightarrow> u8 list list \<Rightarrow> u8 list list \<Rightarrow> kernel \<Rightarrow> (int \<times> kernel) option" where
  "do_execve x old cwd' path argv_ptr argv env' s = do {
     (dent, v) \<leftarrow> vfs_get_dentry (x_venv x) path cwd' (k_vfs s);
     let s = s\<lparr>k_vfs := v\<rparr>;
     if dent = 0 then Some (- 1, s)
     else do {
       d \<leftarrow> dentries v dent;
       if d_type d \<noteq> D_TYPE_FILE then Some (- 2, s)
       else do {
         (f, v) \<leftarrow> vfs_open (x_venv x) dent 0 v;
         let s = s\<lparr>k_vfs := v\<rparr>;
         if f = 0 then Some (- 3, s)
         else do {
           e \<leftarrow> acquire_proc (x_hart x) old (k_env s);
           let s = s\<lparr>k_env := e\<rparr>;
           let stack_pages = PG_ROUNDUP PROC_STACK_SIZE div 4096;
           (pstack, m) \<leftarrow> page_alloc (x_hart x) (k_mi s) stack_pages (PAGE_TYPE_INUSE OR PAGE_TYPE_USER);
           let s = s\<lparr>k_mi := m\<rparr>;
           if pstack = 0 then Some (- 4, s)
           else do {
             let process_stack = of_nat pstack;
             let k = build_stack process_stack argv_ptr argv env' (k_mem s);
             p \<leftarrow> procs (k_env s) old;
             (ph, m) \<leftarrow> unmap_user (x_hart x) p (k_ph s) (k_mi s);
             e \<leftarrow> release_proc (x_hart x) old (k_env s);
             (ok, v, s) \<leftarrow> k_elf_load x (vfs_reader (x_venv x) f) (k_vfs s) old
               (s\<lparr>k_mem := xs_mem k, k_ph := ph, k_mi := m, k_env := e\<rparr>);
             kassert ok;
             let process_stack_top = PROC_STACK_BASE - stack_pages * 4096;
             (_, ph, m) \<leftarrow> map_pages (x_hart x) (k_ph s) (k_mi s) (page_dir p) process_stack_top process_stack PROC_STACK_SIZE
               PTE_TYPE_RW True False;
             (_, v) \<leftarrow> vfs_close (x_venv x) f v;
             d \<leftarrow> dentries v dent;
             kassert (length (d_name d) < PROC_NAME_SIZE);
             s \<leftarrow> set_proc_k old (exec_proc (process_stack + PG_ROUNDUP PROC_STACK_SIZE) process_stack_top k (d_name d))
               (s\<lparr>k_ph := ph, k_mi := m, k_vfs := v\<rparr>);
             Some (int (length argv), s) } } } } }"

end
