(* ===== verification/Execve_Props.thy ===== *)
theory Execve_Props
  imports Execve
begin

text \<open>
  The stack \<open>do_execve\<close> builds.  Every step writes one block of bytes: the strings, the two tables of
  pointers and the three words pushed last.  The blocks follow each other downwards without overlap,
  so that each can be read back from the finished stack.
\<close>

subsection \<open>Blocks of bytes\<close>

lemma put_bytes_append: "put_bytes (put_bytes m a xs) (a + length xs) ys = put_bytes m a (xs @ ys)"
  by (rule ext) (auto simp: put_bytes_def nth_append)

lemma put_bytes_prepend: "put_bytes (put_bytes m (a + length xs) ys) a xs = put_bytes m a (xs @ ys)"
  by (rule ext) (auto simp: put_bytes_def nth_append)

lemma put_bytes_in: "k < length bs \<Longrightarrow> put_bytes m a bs (a + k) = bs ! k"
  by (simp add: put_bytes_def)

lemma put_bytes_out: "x < a \<or> a + length bs \<le> x \<Longrightarrow> put_bytes m a bs x = m x"
  by (auto simp: put_bytes_def)

subsection \<open>Words in memory\<close>

definition bytes8 :: "u64 \<Rightarrow> u8 list" where
  "bytes8 w = map (\<lambda>k. ucast (drop_bit (8 * k) w)) [0..<8]"

lemma length_bytes8 [simp]: "length (bytes8 w) = 8" by (simp add: bytes8_def)

lemma le_nat_digits: "le_nat (map (\<lambda>k. of_nat (x div 256 ^ k)) [0..<n]) = x mod 256 ^ n"
proof (induction n arbitrary: x)
  case (Suc n)
  have "map (\<lambda>k. of_nat (x div 256 ^ k)) [0..<Suc n] = of_nat x # map (\<lambda>k. of_nat (x div 256 div 256 ^ k) :: u8) [0..<n]"
    by (simp add: upt_conv_Cons map_Suc_upt [symmetric] div_mult2_eq del: upt_Suc)
  then have "le_nat (map (\<lambda>k. of_nat (x div 256 ^ k)) [0..<Suc n]) = x mod 256 + 256 * (x div 256 mod 256 ^ n)"
    by (simp only: le_nat.simps Suc.IH) (simp add: unat_of_nat)
  then show ?case by (simp add: mod_mult2_eq)
qed simp

lemma le_nat_bytes8: "le_nat (bytes8 w) = unat w"
proof -
  have d: "unat (drop_bit (8 * k) w) = unat w div 256 ^ k" for k
    by (simp only: unat_drop_bit_eq) (simp add: drop_bit_eq_div power_mult)
  have "(ucast (drop_bit (8 * k) w) :: u8) = of_nat (unat w div 256 ^ k)" for k
    using d [of k] by (simp add: word_unat_eq_iff unsigned_ucast_eq unat_of_nat take_bit_eq_mod)
  then have "le_nat (bytes8 w) = unat w mod 256 ^ 8" using le_nat_digits [of "unat w" 8] by (simp add: bytes8_def)
  moreover have "unat w < 256 ^ 8" using unsigned_less [of w, where ?'a = nat] by simp
  ultimately show ?thesis by simp
qed

lemma put_u64_bytes: "put_u64 mem a w = put_bytes mem (unat a) (bytes8 w)"
  by (simp add: put_u64_def bytes8_def)

lemma get_u64_at:
  assumes "\<forall>k<8. mem (unat a + k) = bytes8 w ! k"
  shows "get_u64 mem a = w"
proof -
  have "map (\<lambda>k. mem (unat a + k)) [0..<8] = bytes8 w" using assms by (intro nth_equalityI) auto
  then show ?thesis by (simp add: get_u64_def le_nat_bytes8)
qed

lemma concat_bytes8_nth: "i < length ws \<Longrightarrow> k < 8 \<Longrightarrow> concat (map bytes8 ws) ! (8 * i + k) = bytes8 (ws ! i) ! k"
proof (induction ws arbitrary: i)
  case (Cons w ws)
  then show ?case by (cases i) (auto simp: nth_append)
qed simp

lemma length_concat_bytes8 [simp]: "length (concat (map bytes8 ws)) = 8 * length ws"
  by (induction ws) auto

subsection \<open>Strings\<close>

definition strings :: "u8 list list \<Rightarrow> u8 list" where
  "strings es = concat (map (\<lambda>e. e @ [0]) es)"

lemma strings_simps [simp]: "strings [] = []" "strings (e # es) = e @ 0 # strings es"
  by (simp_all add: strings_def)

lemma push_strings_spec:
  assumes "length (strings es) \<le> unat b"
  shows "\<exists>c. push_strings es (b, mem) = (c, put_bytes mem (unat c) (strings es)) \<and> unat c = unat b - length (strings es)"
  using assms
proof (induction es)
  case Nil
  then show ?case by (auto simp: put_bytes_def fun_eq_iff)
next
  case (Cons e es)
  then obtain b1 where b1: "push_strings es (b, mem) = (b1, put_bytes mem (unat b1) (strings es))"
    "unat b1 = unat b - length (strings es)" by auto
  let ?b = "b1 - (of_nat (length e) + 1)"
  have n: "length e + 1 \<le> unat b1" using Cons.prems b1(2) by simp
  then have "unat (of_nat (length e) + 1 :: u64) = length e + 1"
    using unsigned_less [of b1, where ?'a = nat] by (simp add: unat_of_nat unat_word_ariths)
  then have u: "unat ?b = unat b1 - (length e + 1)" using n by (subst unat_sub) (auto simp: word_le_nat_alt)
  then have "unat b1 = unat ?b + length (e @ [0])" using n by simp
  then show ?case using b1 u put_bytes_prepend [of mem "unat ?b" "e @ [0]" "strings es"] by (auto simp: Let_def)
qed

lemma strings_cstr:
  assumes "i < length es" and "\<forall>e\<in>set es. 0 \<notin> set e" and "\<forall>k < length (strings es). m (a + k) = strings es ! k"
  shows "cstr m (a + length (strings (take i es))) (es ! i)"
  using assms
proof (induction es arbitrary: i a)
  case (Cons e es)
  have block: "m (a + k) = (e @ 0 # strings es) ! k" if "k < length e + 1 + length (strings es)" for k
    using Cons.prems(3) that by simp
  show ?case
  proof (cases i)
    case 0
    have "cstr m b s" if "0 \<notin> set s" "\<forall>k < length s. m (b + k) = s ! k" "m (b + length s) = 0" for b s
      using that
    proof (induction s arbitrary: b)
      case (Cons c s)
      have "cstr m (b + 1) s"
      proof (rule Cons.IH)
        show "\<forall>k < length s. m (b + 1 + k) = s ! k" using Cons.prems(2) by (auto dest: spec [of _ "Suc _"])
      qed (use Cons.prems in auto)
      moreover have "m b = c" using Cons.prems(2) by (metis length_greater_0_conv list.distinct(1) nth_Cons_0 add_0_right)
      ultimately show ?case using Cons.prems(1) by auto
    qed simp
    moreover have "\<forall>k < length e. m (a + k) = e ! k" using block by (auto simp: nth_append)
    moreover have "m (a + length e) = 0" using block [of "length e"] by simp
    ultimately show ?thesis using 0 Cons.prems(2) by simp
  next
    case (Suc j)
    have "\<forall>k < length (strings es). m (a + (length e + 1) + k) = strings es ! k"
    proof (intro allI impI)
      fix k assume "k < length (strings es)"
      then show "m (a + (length e + 1) + k) = strings es ! k" using block [of "length e + 1 + k"] by (simp add: nth_append add.assoc)
    qed
    then have "cstr m (a + (length e + 1) + length (strings (take j es))) (es ! j)"
      using Cons.IH [of j "a + (length e + 1)"] Cons.prems Suc by simp
    then show ?thesis using Suc by (simp add: algebra_simps)
  qed
qed simp

subsection \<open>Tables of pointers\<close>

text \<open>The entries of a table after its first.\<close>

fun pointers :: "u8 list list \<Rightarrow> u64 \<Rightarrow> u64 list" where
  "pointers [] p = []"
| "pointers [e] p = [0]"
| "pointers (e # es) p = (p + of_nat (length e) + 1) # pointers es (p + of_nat (length e) + 1)"

lemma length_pointers [simp]: "length (pointers es p) = length es"
  by (induction es p rule: pointers.induct) auto

lemma pointers_nth: "i < length es \<Longrightarrow> (p # pointers es p) ! i = p + of_nat (length (strings (take i es)))"
proof (induction es p arbitrary: i rule: pointers.induct)
  case (3 e f es p)
  then show ?case by (cases i) (auto simp: algebra_simps)
qed auto

lemma pointers_end: "es \<noteq> [] \<Longrightarrow> (p # pointers es p) ! length es = 0"
  by (induction es p rule: pointers.induct) auto

lemma unat_plus8: "unat (a :: u64) + 8 < 2 ^ 64 \<Longrightarrow> unat (a + 8) = unat a + 8"
  by (simp add: unat_word_ariths)

lemma put_pointers_bytes:
  "unat a + 8 * length es < 2 ^ 64 \<Longrightarrow>
    put_pointers es a p mem = put_bytes mem (unat a) (concat (map bytes8 (pointers es p)))"
proof (induction es a p mem rule: put_pointers.induct)
  case (1 a p mem)
  then show ?case by (auto simp: fun_eq_iff put_bytes_def)
next
  case (2 e a p mem)
  then show ?case by (simp add: put_u64_bytes)
next
  case (3 e f es a p mem)
  have u: "unat (a + 8) = unat a + 8" using 3(2) by (intro unat_plus8) simp
  then show ?case using 3 put_bytes_append [of mem "unat a" "bytes8 (p + of_nat (length e) + 1)"]
    by (simp add: put_u64_bytes Let_def)
qed

lemma put_table_bytes:
  assumes "unat a + 8 * length es + 8 < 2 ^ 64"
  shows "put_table es a p mem = put_bytes mem (unat a) (concat (map bytes8 (p # pointers es p)))"
proof -
  have u: "unat (a + 8) = unat a + 8" using assms by (intro unat_plus8) simp
  then show ?thesis using assms put_bytes_append [of mem "unat a" "bytes8 p"]
    by (simp add: put_table_def put_pointers_bytes put_u64_bytes)
qed

subsection \<open>The whole stack\<close>

text \<open>The addresses from top to bottom, as natural numbers.\<close>

definition env_strs :: "nat \<Rightarrow> u8 list list \<Rightarrow> nat" where
  "env_strs P env = P + 8192 - length (strings env)"

definition arg_strs :: "nat \<Rightarrow> u8 list list \<Rightarrow> u8 list list \<Rightarrow> nat" where
  "arg_strs P argv env = env_strs P env div 8 * 8 - length (strings argv)"

definition env_tab :: "nat \<Rightarrow> u8 list list \<Rightarrow> u8 list list \<Rightarrow> nat" where
  "env_tab P argv env = arg_strs P argv env div 8 * 8 - 8 * (length env + 1)"

definition arg_tab :: "nat \<Rightarrow> u8 list list \<Rightarrow> u8 list list \<Rightarrow> nat" where
  "arg_tab P argv env = env_tab P argv env - 8 * (length argv + 1)"

definition fits :: "u8 list list \<Rightarrow> u8 list list \<Rightarrow> bool" where
  "fits argv env \<longleftrightarrow> length (strings argv) + length (strings env) + 8 * (length argv + length env) + 64 \<le> 8192"

lemma stack_order:
  assumes "fits argv env" and "8 dvd P"
  shows "P + 24 \<le> arg_tab P argv env" and "arg_tab P argv env + 8 * (length argv + 1) = env_tab P argv env"
    and "env_tab P argv env + 8 * (length env + 1) \<le> arg_strs P argv env"
    and "arg_strs P argv env + length (strings argv) \<le> env_strs P env"
    and "env_strs P env + length (strings env) = P + 8192"
    and "8 dvd arg_tab P argv env" "8 dvd env_tab P argv env"
proof -
  define A B E where "A = length (strings argv)" and "B = length (strings env)" and "E = P + 8192 - B"
  define F where "F = E div 8 * 8 - A"
  have f: "A + B + 8 * (length argv + length env) + 64 \<le> 8192" using assms(1) by (simp add: fits_def A_def B_def)
  have e: "env_strs P env = E" "arg_strs P argv env = F" "env_tab P argv env = F div 8 * 8 - 8 * (length env + 1)"
    by (simp_all add: env_strs_def arg_strs_def env_tab_def A_def B_def E_def F_def)
  have E: "E + B = P + 8192" "E div 8 * 8 \<le> E" "E \<le> E div 8 * 8 + 7" using f by (auto simp: E_def)
  have F: "F + A = E div 8 * 8" "F div 8 * 8 \<le> F" "F \<le> F div 8 * 8 + 7" using f E by (auto simp: F_def)
  define G where "G = F div 8"
  have G: "G * 8 \<le> F" "F \<le> G * 8 + 7" using F by (auto simp: G_def)
  have lo: "P + 24 + 8 * (length env + 1) + 8 * (length argv + 1) \<le> G * 8" 
  proof -
    define H where "H = E div 8"
    have "E \<le> H * 8 + 7" "F + A = H * 8" using E F by (auto simp: H_def)
    then show ?thesis using f E(1) G(2) by simp
  qed
  have "P + 24 \<le> arg_tab P argv env \<and> arg_tab P argv env + 8 * (length argv + 1) = env_tab P argv env \<and>
    env_tab P argv env + 8 * (length env + 1) \<le> arg_strs P argv env"
    unfolding arg_tab_def e G_def [symmetric] using lo G by auto
  then show "P + 24 \<le> arg_tab P argv env" "arg_tab P argv env + 8 * (length argv + 1) = env_tab P argv env"
    "env_tab P argv env + 8 * (length env + 1) \<le> arg_strs P argv env" by blast+
  show "arg_strs P argv env + length (strings argv) \<le> env_strs P env" "env_strs P env + length (strings env) = P + 8192"
    unfolding e A_def [symmetric] B_def [symmetric] using E F by auto
  have "8 dvd G * 8 - 8 * (length env + 1)" "8 dvd G * 8 - 8 * (length env + 1) - 8 * (length argv + 1)"
    by (auto intro: dvd_diff_nat)
  then show "8 dvd arg_tab P argv env" "8 dvd env_tab P argv env" unfolding arg_tab_def e G_def [symmetric] by auto
qed

lemma unat_minus_of_nat: "n \<le> unat (a :: u64) \<Longrightarrow> unat (a - of_nat n) = unat a - n"
  using unsigned_less [of a, where ?'a = nat] by (subst unat_sub) (auto simp: word_le_nat_alt unat_of_nat)

lemma minus_table: "8 * (of_nat n + 1) = (of_nat (8 * (n + 1)) :: u64)" by simp

text \<open>The finished stack as blocks, the last three words being one.\<close>

definition stack_mem :: "nat \<Rightarrow> u64 \<Rightarrow> u8 list list \<Rightarrow> u8 list list \<Rightarrow> byte_mem \<Rightarrow> byte_mem" where
  "stack_mem P argv_ptr argv env mem =
    (let va = (\<lambda>a. 0x7FFFE000 + of_nat (a - P));
         mem = put_bytes mem (env_strs P env) (strings env);
         mem = put_bytes mem (arg_strs P argv env) (strings argv);
         mem = put_bytes mem (env_tab P argv env) (concat (map bytes8 (va (env_strs P env) # pointers env (va (env_strs P env)))));
         mem = put_bytes mem (arg_tab P argv env) (concat (map bytes8 (va (arg_strs P argv env) # pointers argv (va (arg_strs P argv env)))))
     in put_bytes mem (arg_tab P argv env - 24) (bytes8 (of_nat (length argv)) @ bytes8 argv_ptr @ bytes8 (of_nat (env_tab P argv env))))"

lemma build_stack_blocks:
  assumes "fits argv env" and "8 dvd unat ps" and "unat ps + 8192 < 2 ^ 64"
    and k: "k = build_stack ps argv_ptr argv env mem"
  shows "unat (xs_sp k) = arg_tab (unat ps) argv env - 24" and "unat (ps + xs_argv k) = arg_tab (unat ps) argv env"
    and "unat (ps + xs_envp k) = env_tab (unat ps) argv env" and "xs_mem k = stack_mem (unat ps) argv_ptr argv env mem"
proof -
  let ?P = "unat ps"
  note so = stack_order [OF assms(1,2)]
  have pg: "PG_ROUNDUP PROC_STACK_SIZE = 8192" by (simp add: PG_ROUNDUP_def PROC_STACK_SIZE_def)
  have top: "unat (ps + 8192) = ?P + 8192" using assms(3) by (simp add: unat_word_ariths)
  have rd: "unat (ROUNDDOWN_WITH 8 a) = unat a div 8 * 8" for a using unat_ROUNDDOWN_pow2 [of 3 a] by simp
  have fit: "length (strings argv) + length (strings env) + 8 * (length argv + length env) + 64 \<le> 8192" using assms(1) by (simp add: fits_def)
  have "length (strings env) \<le> unat (ps + 8192)" using so(5) by (simp add: top)
  then obtain b1 where b1: "push_strings env (ps + 8192, mem) = (b1, put_bytes mem (unat b1) (strings env))"
    "unat b1 = env_strs ?P env" using push_strings_spec [of env "ps + 8192" mem] top by (auto simp: env_strs_def)
  let ?m1 = "put_bytes mem (unat b1) (strings env)"
  have "length (strings argv) \<le> unat (ROUNDDOWN_WITH 8 b1)"
    unfolding rd b1(2) using so(1-4) by (simp add: arg_strs_def)
  then obtain b2 where b2: "push_strings argv (ROUNDDOWN_WITH 8 b1, ?m1) = (b2, put_bytes ?m1 (unat b2) (strings argv))"
    "unat b2 = arg_strs ?P argv env"
    using push_strings_spec [of argv "ROUNDDOWN_WITH 8 b1" ?m1] b1(2) by (auto simp: arg_strs_def rd)
  define b3 where "b3 = ROUNDDOWN_WITH 8 b2 - of_nat (8 * (length env + 1))"
  define b4 where "b4 = b3 - of_nat (8 * (length argv + 1))"
  have u3: "unat b3 = env_tab ?P argv env"
    unfolding b3_def env_tab_def using so(1,2,3) b2(2) rd [of b2] by (subst unat_minus_of_nat) (auto simp: env_tab_def)
  have u4: "unat b4 = arg_tab ?P argv env"
    unfolding b4_def arg_tab_def using so(2) u3 by (subst unat_minus_of_nat) auto
  have va: "get_offset_addr ps b (PROC_STACK_BASE - PROC_STACK_SIZE) = 0x7FFFE000 + of_nat (unat b - ?P)" if "?P \<le> unat b" for b
    using that by (simp add: get_offset_addr_def PROC_STACK_BASE_def PROC_STACK_SIZE_def of_nat_diff)
  have le: "?P \<le> unat b1" "?P \<le> unat b2" using so(1-5) b1(2) b2(2) by linarith+
  have w: "unat (b4 - 8) = unat b4 - 8" "unat (b4 - 8 - 8) = unat b4 - 16" "unat (b4 - 8 - 8 - 8) = unat b4 - 24"
    using so(1) u4 by (simp_all add: unat_sub word_le_nat_alt)
  have t: "unat b3 + 8 * length env + 8 < 2 ^ 64" "unat b4 + 8 * length argv + 8 < 2 ^ 64"
    using so(1-5) u3 u4 assms(3) by simp_all
  have k0: "k = \<lparr>xs_sp = b4 - 8 - 8 - 8, xs_argv = 8192 - (ps + 8192 - b4), xs_envp = 8192 - (ps + 8192 - b3),
    xs_mem = put_u64 (put_u64 (put_u64 (put_table argv b4 (0x7FFFE000 + of_nat (unat b2 - ?P))
      (put_table env b3 (0x7FFFE000 + of_nat (unat b1 - ?P)) (put_bytes ?m1 (unat b2) (strings argv))))
        (b4 - 8) b3) (b4 - 8 - 8) argv_ptr) (b4 - 8 - 8 - 8) (of_nat (length argv))\<rparr>"
    unfolding k build_stack_def pg Let_def b1(1) b2(1) case_prod_conv minus_table b3_def [symmetric] b4_def [symmetric] va [OF le(1)] va [OF le(2)]
    by (simp add: PROC_STACK_SIZE_def)
  have words: "put_u64 (put_u64 (put_u64 m (b4 - 8) x) (b4 - 8 - 8) y) (b4 - 8 - 8 - 8) z =
      put_bytes m (unat b4 - 24) (bytes8 z @ bytes8 y @ bytes8 x)" for m x y z
    using put_bytes_prepend [of m "unat b4 - 16" "bytes8 y" "bytes8 x"] put_bytes_prepend [of m "unat b4 - 24" "bytes8 z" "bytes8 y @ bytes8 x"]
      so(1) u4 unfolding put_u64_bytes w by simp
  have b3: "of_nat (env_tab ?P argv env) = b3" using u3 by (metis of_nat_unat ucast_id)
  have "xs_mem k = stack_mem ?P argv_ptr argv env mem"
    unfolding k0 exec_stack.simps words put_table_bytes [OF t(1)] put_table_bytes [OF t(2)] stack_mem_def Let_def b3 b1(2) b2(2) u3 u4 ..
  then show "unat (xs_sp k) = arg_tab ?P argv env - 24" "unat (ps + xs_argv k) = arg_tab ?P argv env"
    "unat (ps + xs_envp k) = env_tab ?P argv env" "xs_mem k = stack_mem ?P argv_ptr argv env mem"
    using w(3) u3 u4 k0 by simp_all
qed

lemma stack_reads:
  assumes "fits argv env" and "8 dvd P" and M: "M = stack_mem P argv_ptr argv env mem"
  defines "va \<equiv> \<lambda>a. 0x7FFFE000 + of_nat (a - P) :: u64"
  shows "\<forall>k < length (strings env). M (env_strs P env + k) = strings env ! k"
    and "\<forall>k < length (strings argv). M (arg_strs P argv env + k) = strings argv ! k"
    and "\<And>k. k < 8 * (length env + 1) \<Longrightarrow> M (env_tab P argv env + k) =
      concat (map bytes8 (va (env_strs P env) # pointers env (va (env_strs P env)))) ! k"
    and "\<And>k. k < 8 * (length argv + 1) \<Longrightarrow> M (arg_tab P argv env + k) =
      concat (map bytes8 (va (arg_strs P argv env) # pointers argv (va (arg_strs P argv env)))) ! k"
    and "\<And>k. k < 24 \<Longrightarrow> M (arg_tab P argv env - 24 + k) =
      (bytes8 (of_nat (length argv)) @ bytes8 argv_ptr @ bytes8 (of_nat (env_tab P argv env))) ! k"
    and "\<And>x. \<not> (P \<le> x \<and> x < P + 8192) \<Longrightarrow> M x = mem x"
proof -
  note so = stack_order(1-5) [OF assms(1,2)]
  have l: "length (concat (map bytes8 (p # pointers es p))) = 8 * (length es + 1)" for es p
    by (simp only: length_concat_bytes8) simp
  note M' = M [unfolded stack_mem_def Let_def]
  show "\<forall>k < length (strings env). M (env_strs P env + k) = strings env ! k"
    "\<forall>k < length (strings argv). M (arg_strs P argv env + k) = strings argv ! k"
    unfolding M' using so by (simp_all add: put_bytes_in put_bytes_out l del: list.map concat.simps)
  show "M (env_tab P argv env + k) = concat (map bytes8 (va (env_strs P env) # pointers env (va (env_strs P env)))) ! k"
    if "k < 8 * (length env + 1)" for k
    unfolding M' va_def using so that by (simp add: put_bytes_in put_bytes_out l del: list.map concat.simps)
  show "M (arg_tab P argv env + k) = concat (map bytes8 (va (arg_strs P argv env) # pointers argv (va (arg_strs P argv env)))) ! k"
    if "k < 8 * (length argv + 1)" for k
    unfolding M' va_def using so that by (simp add: put_bytes_in put_bytes_out l del: list.map concat.simps)
  show "M (arg_tab P argv env - 24 + k) = (bytes8 (of_nat (length argv)) @ bytes8 argv_ptr @ bytes8 (of_nat (env_tab P argv env))) ! k"
    if "k < 24" for k
    unfolding M' using that by (simp only: put_bytes_in length_append length_bytes8)
  show "M x = mem x" if "\<not> (P \<le> x \<and> x < P + 8192)" for x
    unfolding M' using so that by (auto simp add: put_bytes_out l simp del: list.map concat.simps)
qed

text \<open>Entry \<open>i\<close> of a table.\<close>

lemma table_entry:
  assumes "\<And>k. k < 8 * (length es + 1) \<Longrightarrow> M (t + k) = concat (map bytes8 (p # pointers es p)) ! k"
    and "unat a = t" and "t + 8 * length es + 8 < 2 ^ 64" and "i \<le> length es"
  shows "get_u64 M (a + 8 * of_nat i) = (p # pointers es p) ! i"
proof (rule get_u64_at, intro allI impI)
  fix k :: nat assume k: "k < 8"
  have "unat (8 * of_nat i :: u64) = 8 * i" using assms(3,4) by (simp add: unat_word_ariths unat_of_nat)
  then have "unat (a + 8 * of_nat i) = t + 8 * i" using assms(2,3,4) by (simp add: unat_word_ariths)
  then have "M (unat (a + 8 * of_nat i) + k) = concat (map bytes8 (p # pointers es p)) ! (8 * i + k)"
    using assms(1) [of "8 * i + k"] assms(4) k by (simp add: add.assoc)
  also have "\<dots> = bytes8 ((p # pointers es p) ! i) ! k" by (rule concat_bytes8_nth) (use assms(4) k in auto)
  finally show "M (unat (a + 8 * of_nat i) + k) = bytes8 ((p # pointers es p) ! i) ! k" .
qed

text \<open>The strings a table leads to, as the process finds them: the pages at \<open>ps\<close> are mapped from
  \<open>PROC_STACK_BASE - PROC_STACK_SIZE\<close> on.\<close>

definition stack_at :: "u64 \<Rightarrow> u64 \<Rightarrow> u64" where
  "stack_at ps va = ps + (va - (PROC_STACK_BASE - PROC_STACK_SIZE))"

lemma table_strings:
  assumes "\<And>k. k < 8 * (length es + 1) \<Longrightarrow> M (t + k) = concat (map bytes8 (p # pointers es p)) ! k"
    and "unat a = t" and "t + 8 * length es + 8 < 2 ^ 64" and "\<forall>k < length (strings es). M (b + k) = strings es ! k"
    and "\<forall>e\<in>set es. 0 \<notin> set e" and "p = 0x7FFFE000 + of_nat (b - unat ps)" and "unat ps \<le> b" and "b + length (strings es) < 2 ^ 64"
  shows "(\<forall>i < length es. cstr M (unat (stack_at ps (get_u64 M (a + 8 * of_nat i)))) (es ! i)) \<and>
    (es \<noteq> [] \<longrightarrow> get_u64 M (a + 8 * of_nat (length es)) = 0)"
proof (intro conjI allI impI)
  fix i assume i: "i < length es"
  let ?n = "length (strings (take i es))"
  have "strings es = strings (take i es) @ strings (drop i es)" unfolding strings_def by (metis append_take_drop_id concat_append map_append)
  then have n: "?n \<le> length (strings es)" by simp
  have "get_u64 M (a + 8 * of_nat i) = p + of_nat ?n"
    using table_entry [OF assms(1-3), of i] i by (simp add: pointers_nth)
  then have "stack_at ps (get_u64 M (a + 8 * of_nat i)) = of_nat (b + ?n)"
    using assms(6,7) by (simp add: stack_at_def PROC_STACK_BASE_def PROC_STACK_SIZE_def of_nat_diff)
  moreover have "unat (of_nat (b + ?n) :: u64) = b + ?n" using assms(8) n by (subst unat_of_nat) simp
  ultimately show "cstr M (unat (stack_at ps (get_u64 M (a + 8 * of_nat i)))) (es ! i)"
    using strings_cstr [OF i assms(5,4)] by simp
next
  assume ne: "es \<noteq> []"
  have "get_u64 M (a + 8 * of_nat (length es)) = (p # pointers es p) ! length es"
    by (rule table_entry [OF _ assms(2,3) le_refl]) (rule assms(1))
  then show "get_u64 M (a + 8 * of_nat (length es)) = 0" unfolding pointers_end [OF ne] .
qed

subsection \<open>Properties\<close>

text \<open>C15: The stack of a new program.  When the arguments and the environment fit into the stack's two
  pages, nothing outside of them is written; the final stack pointer is aligned, lies inside, and
  points at the argument count.  At the offsets that are handed over in \<open>a1\<close> and \<open>a2\<close> lie the tables
  of arguments and of the environment: entry \<open>i\<close> is the address, in the process's address space, at
  which string \<open>i\<close> lies with its terminator, and a table that is not empty ends with \<open>NULL\<close>.\<close>

theorem execve_stack_layout:
  assumes "8 dvd unat ps" and "unat ps + 8192 < 2 ^ 64" and "\<forall>e\<in>set argv \<union> set env. 0 \<notin> set e"
    and "length (strings argv) + length (strings env) + 8 * (length argv + length env) + 64 \<le> 8192"
    and "k = build_stack ps argv_ptr argv env mem"
  shows "(\<forall>a. \<not> (unat ps \<le> a \<and> a < unat ps + 8192) \<longrightarrow> xs_mem k a = mem a) \<and>
    unat ps \<le> unat (xs_sp k) \<and> unat (xs_sp k) < unat ps + 8192 \<and> 8 dvd unat (xs_sp k) \<and>
    get_u64 (xs_mem k) (xs_sp k) = of_nat (length argv) \<and>
    (\<forall>i < length argv. cstr (xs_mem k) (unat (stack_at ps (get_u64 (xs_mem k) (ps + xs_argv k + 8 * of_nat i)))) (argv ! i)) \<and>
    (argv \<noteq> [] \<longrightarrow> get_u64 (xs_mem k) (ps + xs_argv k + 8 * of_nat (length argv)) = 0) \<and>
    (\<forall>i < length env. cstr (xs_mem k) (unat (stack_at ps (get_u64 (xs_mem k) (ps + xs_envp k + 8 * of_nat i)))) (env ! i)) \<and>
    (env \<noteq> [] \<longrightarrow> get_u64 (xs_mem k) (ps + xs_envp k + 8 * of_nat (length env)) = 0)"
proof -
  have f: "fits argv env" using assms(4) by (simp add: fits_def)
  note so = stack_order [OF f assms(1)] and b = build_stack_blocks [OF f assms(1,2,5)]
  note r = stack_reads [OF f assms(1) b(4)]
  have z: "\<forall>e\<in>set argv. 0 \<notin> set e" "\<forall>e\<in>set env. 0 \<notin> set e" using assms(3) by auto
  have le: "arg_tab (unat ps) argv env + 8 * length argv + 8 < 2 ^ 64" "env_tab (unat ps) argv env + 8 * length env + 8 < 2 ^ 64"
    "arg_strs (unat ps) argv env + length (strings argv) < 2 ^ 64" "env_strs (unat ps) env + length (strings env) < 2 ^ 64"
    "unat ps \<le> arg_strs (unat ps) argv env" "unat ps \<le> env_strs (unat ps) env"
    using so(1-5) assms(2) by simp_all
  have sp: "get_u64 (xs_mem k) (xs_sp k) = of_nat (length argv)"
  proof (rule get_u64_at, intro allI impI)
    fix i :: nat assume "i < 8"
    then show "xs_mem k (unat (xs_sp k) + i) = bytes8 (of_nat (length argv)) ! i" unfolding b(1) using r(5) [of i] by (simp add: nth_append)
  qed
  have "8 dvd unat (xs_sp k)" unfolding b(1) using so(6) by (intro dvd_diff_nat) auto
  moreover have "unat ps \<le> unat (xs_sp k)" "unat (xs_sp k) < unat ps + 8192" unfolding b(1) using so(1-5) by simp_all
  ultimately show ?thesis
    using r(6) sp table_strings [OF r(4) b(2) le(1) r(2) z(1) refl le(5,3)] table_strings [OF r(3) b(3) le(2) r(1) z(2) refl le(6,4)]
    by blast
qed

theorem execve_stack_layout_witness:
  "let k = build_stack 0x80400000 0x80500000 [[108, 115], [45, 97]] [[65]] (\<lambda>_. 7) in
     get_u64 (xs_mem k) (xs_sp k) = 2 \<and>
     cstr (xs_mem k) (unat (stack_at 0x80400000 (get_u64 (xs_mem k) (0x80400000 + xs_argv k + 8 * of_nat 1)))) [45, 97] \<and>
     get_u64 (xs_mem k) (0x80400000 + xs_argv k + 8 * of_nat 2) = 0 \<and>
     cstr (xs_mem k) (unat (stack_at 0x80400000 (get_u64 (xs_mem k) (0x80400000 + xs_envp k + 8 * of_nat 0)))) [65] \<and>
     xs_mem k 0x80402000 = 7"
proof -
  define k where "k = build_stack 0x80400000 0x80500000 [[108, 115], [45, 97]] [[65]] (\<lambda>_. 7)"
  have "8 dvd unat (0x80400000 :: u64)" "unat (0x80400000 :: u64) + 8192 < 2 ^ 64"
    "\<forall>e\<in>set [[108, 115], [45, 97]] \<union> set [[65]]. (0 :: u8) \<notin> set e"
    "length (strings [[108, 115], [45, 97]]) + length (strings [[65]]) + 8 * (length [[108, 115], [45, 97] :: u8 list] + length [[65 :: u8]]) + 64 \<le> 8192"
    by simp_all
  note L = execve_stack_layout [OF this k_def]
  have "get_u64 (xs_mem k) (xs_sp k) = 2" "xs_mem k 0x80402000 = 7" using L by simp_all
  moreover have "cstr (xs_mem k) (unat (stack_at 0x80400000 (get_u64 (xs_mem k) (0x80400000 + xs_argv k + 8 * of_nat 1)))) ([[108, 115], [45, 97]] ! 1)"
    using L by (elim conjE allE [of _ 1]) (erule mp, simp)
  moreover have "cstr (xs_mem k) (unat (stack_at 0x80400000 (get_u64 (xs_mem k) (0x80400000 + xs_envp k + 8 * of_nat 0)))) ([[65]] ! 0)"
    using L by (elim conjE allE [of _ 0]) (erule mp, simp)
  moreover have "get_u64 (xs_mem k) (0x80400000 + xs_argv k + 8 * of_nat 2) = 0" using L by simp
  ultimately show ?thesis unfolding Let_def k_def [symmetric] by simp
qed

end
