(* ===== verification/Syscalls.thy ===== *)
theory Syscalls
  imports Execve
begin

text \<open>
  \<open>kernel/syscall/syscalls.c\<close>: the system calls and their dispatch.  A call finds its arguments in the
  trap frame \<open>t\<close> of the current process and works on the whole kernel state.  It returns a value,
  gives up the processor and returns a value once it runs again, goes to sleep until it is resumed, or
  ends the process.  \<open>None\<close> is a panic, an access through a bad pointer or descriptor, or a value the
  function never computed.  What only concerns the kernel heap, the release of buffers, is left out;
  the address of a buffer comes from \<open>x_kmalloc\<close>.
\<close>

datatype sleeping_call = WaitTicks u64 u64 | WaitChild int u64 int

datatype sys_result = SysRet u64 | SysYield u64 | SysAsleep sleeping_call | SysGone

type_synonym syscall = "sys_ctx \<Rightarrow> trap_context \<Rightarrow> kernel \<Rightarrow> (sys_result \<times> kernel) option"

definition AT_FDCWD :: int where "AT_FDCWD = - 100"

definition SIGCHLD :: int where "SIGCHLD = 17"

text \<open>The conversion of a register to \<open>int\<close>.\<close>

definition int_arg :: "u64 \<Rightarrow> int" where
  "int_arg a = sint (ucast a :: u32)"

definition cur_proc :: "sys_ctx \<Rightarrow> kernel \<Rightarrow> proc option" where
  "cur_proc x s = procs (k_env s) (x_cur x)"

text \<open>\<open>files[fd]\<close>; the source does not check that \<open>fd\<close> is an index of the array.\<close>

definition fd_get :: "proc \<Rightarrow> int \<Rightarrow> nat option option" where
  "fd_get p fd = (if 0 \<le> fd then aget (files p) (nat fd) else None)"

definition fd_set :: "sys_ctx \<Rightarrow> int \<Rightarrow> nat option \<Rightarrow> kernel \<Rightarrow> kernel option" where
  "fd_set x fd f s = do {
     p \<leftarrow> cur_proc x s;
     kassert (0 \<le> fd);
     fs \<leftarrow> aset (files p) (nat fd) f;
     set_proc_k (x_cur x) (\<lambda>p. p\<lparr>files := fs\<rparr>) s }"

definition free_fds :: "proc \<Rightarrow> nat list" where
  "free_fds p = filter (\<lambda>i. files p ! i = None) [3..<MAX_FILE_OPEN]"

text \<open>A string of the caller in a kernel buffer, \<open>0\<close> when there is none, and its characters.\<close>

definition user_string :: "sys_ctx \<Rightarrow> u64 \<Rightarrow> kernel \<Rightarrow> (u64 \<times> kernel) option" where
  "user_string x ustr s = do {
     (k, um, mem) \<leftarrow> ustrcpy_out (k_umem s) (k_mem s) ustr (x_kmalloc x s);
     Some (k, s\<lparr>k_umem := um, k_mem := mem\<rparr>) }"

definition kbytes :: "byte_mem \<Rightarrow> u64 \<Rightarrow> u8 list option" where
  "kbytes mem k = do {
     kassert (k \<noteq> 0);
     n \<leftarrow> strlen mem (unat k);
     Some (map (\<lambda>i. mem (unat k + i)) [0..<n]) }"

definition kstring :: "byte_mem \<Rightarrow> u64 \<Rightarrow> string option" where
  "kstring mem k = map_option (map (\<lambda>b. char_of (unat b))) (kbytes mem k)"

definition k_umemcpy :: "u64 \<Rightarrow> u64 \<Rightarrow> u64 \<Rightarrow> kernel \<Rightarrow> kernel option" where
  "k_umemcpy dst src sz s = do {
     (um, mem) \<leftarrow> umemcpy (k_mem s) dst src sz;
     Some (s\<lparr>k_umem := um, k_mem := mem\<rparr>) }"

text \<open>A local variable of the kernel is copied out to the caller.\<close>

definition copy_local :: "sys_ctx \<Rightarrow> u64 \<Rightarrow> u8 list \<Rightarrow> kernel \<Rightarrow> kernel option" where
  "copy_local x dst bs s =
    k_umemcpy dst (x_stack x) (of_nat (length bs)) (s\<lparr>k_mem := put_bytes (k_mem s) (unat (x_stack x)) bs\<rparr>)"

definition le_bytes :: "nat \<Rightarrow> u64 \<Rightarrow> u8 list" where
  "le_bytes n w = map (\<lambda>k. ucast (drop_bit (8 * k) w)) [0..<n]"

subsection \<open>Time\<close>

definition read_ticks :: "sys_ctx \<Rightarrow> kernel \<Rightarrow> (u64 \<times> kernel) option" where
  "read_ticks x s = do {
     l \<leftarrow> lock_acquire (x_hart x) (ticks_lock (k_env s));
     l \<leftarrow> lock_release (x_hart x) l;
     Some (ticks (k_env s), s\<lparr>k_env := (k_env s)\<lparr>ticks_lock := l\<rparr>\<rparr>) }"

definition sys_ticks :: syscall where
  "sys_ticks x t s = do { (r, s) \<leftarrow> read_ticks x s; Some (SysRet r, s) }"

text \<open>One round of the loop that waits for \<open>n\<close> ticks after \<open>start\<close>, with \<open>ticks_lock\<close> held.\<close>

definition ticks_round :: "sys_ctx \<Rightarrow> u64 \<Rightarrow> u64 \<Rightarrow> kernel \<Rightarrow> (sys_result \<times> kernel) option" where
  "ticks_round x n start s = do {
     let e = k_env s;
     if ticks e - start < n then do {
       p \<leftarrow> procs e (x_cur x);
       if has_status p PROC_STATUS_STOP then do {
         l \<leftarrow> lock_release (x_hart x) (ticks_lock e);
         Some (SysRet (- 1), s\<lparr>k_env := e\<lparr>ticks_lock := l\<rparr>\<rparr>) }
       else do {
         (l, e) \<leftarrow> sleep_begin (x_hart x) (Some (ticks_lock e)) (x_cur x) (x_ticks_chan x) e;
         l \<leftarrow> l;
         Some (SysAsleep (WaitTicks n start), s\<lparr>k_env := e\<lparr>ticks_lock := l\<rparr>\<rparr>) } }
     else do {
       l \<leftarrow> lock_release (x_hart x) (ticks_lock e);
       Some (SysRet 0, s\<lparr>k_env := e\<lparr>ticks_lock := l\<rparr>\<rparr>) } }"

definition wait_ticks :: "sys_ctx \<Rightarrow> u64 \<Rightarrow> kernel \<Rightarrow> (sys_result \<times> kernel) option" where
  "wait_ticks x n s = do {
     l \<leftarrow> lock_acquire (x_hart x) (ticks_lock (k_env s));
     let e = (k_env s)\<lparr>ticks_lock := l\<rparr>;
     ticks_round x n (ticks e) (s\<lparr>k_env := e\<rparr>) }"

definition resume_ticks :: "sys_ctx \<Rightarrow> u64 \<Rightarrow> u64 \<Rightarrow> kernel \<Rightarrow> (sys_result \<times> kernel) option" where
  "resume_ticks x n start s = do {
     (l, e) \<leftarrow> sleep_end (x_hart x) (Some (ticks_lock (k_env s))) (x_cur x) (k_env s);
     l \<leftarrow> l;
     ticks_round x n start (s\<lparr>k_env := e\<lparr>ticks_lock := l\<rparr>\<rparr>) }"

definition sys_sleep :: syscall where
  "sys_sleep x t s = wait_ticks x (a0 t) s"

definition sys_nanosleep :: syscall where
  "sys_nanosleep x t s =
    (if a0 t = 0 then Some (SysRet (- 1), s)
     else do {
       s \<leftarrow> k_umemcpy (x_stack x) (a0 t) 16 s;
       wait_ticks x (get_u64 (k_mem s) (x_stack x)) s })"

definition sys_gettimeofday :: syscall where
  "sys_gettimeofday x t s =
    (if a0 t = 0 then Some (SysRet (- 1), s)
     else do {
       (tv_sec, s) \<leftarrow> read_ticks x s;
       s \<leftarrow> copy_local x (a0 t) (le_bytes 8 tv_sec @ le_bytes 8 0) s;
       Some (SysRet 0, s) })"

definition sys_times :: syscall where
  "sys_times x t s =
    (if a0 t = 0 then Some (SysRet (- 1), s)
     else do { (r, s) \<leftarrow> read_ticks x s; Some (SysRet r, s) })"

subsection \<open>Open files\<close>

text \<open>The directory a descriptor names: \<open>None\<close> for a descriptor that is not open.\<close>

definition fd_dir :: "proc \<Rightarrow> int \<Rightarrow> vfs \<Rightarrow> nat option option" where
  "fd_dir p fd v =
    (if fd = AT_FDCWD then Some (Some (cwd p))
     else do {
       f \<leftarrow> fd_get p fd;
       case f of None \<Rightarrow> Some None | Some a \<Rightarrow> do { y \<leftarrow> vfiles v a; Some (Some (f_dentry y)) } })"

text \<open>The first free descriptor from 3 on takes the file; without one the file is closed again.\<close>

definition open_slot :: "sys_ctx \<Rightarrow> proc \<Rightarrow> nat \<Rightarrow> kernel \<Rightarrow> (sys_result \<times> kernel) option" where
  "open_slot x p f s = (case free_fds p of
       i # _ \<Rightarrow> do { s \<leftarrow> fd_set x (int i) (Some f) s; Some (SysRet (of_nat i), s) }
     | [] \<Rightarrow> do { (_, v) \<leftarrow> vfs_close (x_venv x) f (k_vfs s); Some (SysRet (- 1), s\<lparr>k_vfs := v\<rparr>) })"

definition sys_open :: syscall where
  "sys_open x t s = do {
     (k, s) \<leftarrow> user_string x (a1 t) s;
     if k = 0 then Some (SysRet (- 1), s)
     else do {
       p \<leftarrow> cur_proc x s;
       dir \<leftarrow> fd_dir p (int_arg (a0 t)) (k_vfs s);
       case dir of None \<Rightarrow> Some (SysRet (- 2), s)
       | Some d \<Rightarrow> do {
           nm \<leftarrow> kstring (k_mem s) k;
           (dent, v) \<leftarrow> vfs_get_dentry (x_venv x) nm d (k_vfs s);
           let s = s\<lparr>k_vfs := v\<rparr>;
           if dent = 0 then Some (SysRet (- 1), s)
           else do {
             (f, v) \<leftarrow> vfs_open (x_venv x) dent (int_arg (a4 t)) v;
             open_slot x p f (s\<lparr>k_vfs := v\<rparr>) } } } }"

definition sys_close :: syscall where
  "sys_close x t s = do {
     p \<leftarrow> cur_proc x s;
     f \<leftarrow> fd_get p (int_arg (a0 t));
     case f of None \<Rightarrow> Some (SysRet (- 1), s)
     | Some a \<Rightarrow> do {
         (_, v) \<leftarrow> vfs_close (x_venv x) a (k_vfs s);
         s \<leftarrow> fd_set x (int_arg (a0 t)) None (s\<lparr>k_vfs := v\<rparr>);
         Some (SysRet 0, s) } }"

text \<open>A buffer for \<open>n\<close> bytes.  Large ones come from the page allocator, which is asked for as many
  pages as the request has bytes, rounded up to a page.\<close>

definition alloc_buffer :: "sys_ctx \<Rightarrow> u64 \<Rightarrow> kernel \<Rightarrow> (u64 \<times> kernel) option" where
  "alloc_buffer x n s =
    (if n < 4096 then Some (x_kmalloc x s, s)
     else do {
       (k, m) \<leftarrow> page_alloc (x_hart x) (k_mi s) (PG_ROUNDUP n) PAGE_TYPE_SYSTEM;
       Some (of_nat k, s\<lparr>k_mi := m\<rparr>) })"

definition free_buffer :: "sys_ctx \<Rightarrow> u64 \<Rightarrow> u64 \<Rightarrow> kernel \<Rightarrow> kernel option" where
  "free_buffer x k n s =
    (if n < 4096 then Some s
     else do {
       (_, m) \<leftarrow> page_free (x_hart x) (k_mi s) (unat k) (PG_ROUNDUP n);
       Some (s\<lparr>k_mi := m\<rparr>) })"

definition sys_read :: syscall where
  "sys_read x t s = do {
     let n = a2 t;
     p \<leftarrow> cur_proc x s;
     f \<leftarrow> fd_get p (int_arg (a0 t));
     case f of None \<Rightarrow> Some (SysRet (- 1), s)
     | Some a \<Rightarrow> do {
         (kbuf, s) \<leftarrow> alloc_buffer x n s;
         if kbuf = 0 then Some (SysRet (- 1), s)
         else do {
           (r, bs, v) \<leftarrow> vfs_read (x_venv x) a 0 n (k_vfs s);
           let s = s\<lparr>k_vfs := v, k_mem := put_bytes (k_mem s) (unat kbuf) bs\<rparr>;
           s \<leftarrow> k_umemcpy (a1 t) kbuf n s;
           s \<leftarrow> free_buffer x kbuf n s;
           Some (SysRet (of_int r), s) } } }"

definition sys_write :: syscall where
  "sys_write x t s = do {
     let n = a2 t;
     p \<leftarrow> cur_proc x s;
     f \<leftarrow> fd_get p (int_arg (a0 t));
     case f of None \<Rightarrow> Some (SysRet (- 1), s)
     | Some a \<Rightarrow> do {
         (kbuf, s) \<leftarrow> alloc_buffer x n s;
         if kbuf = 0 then Some (SysRet (- 1), s)
         else do {
           s \<leftarrow> k_umemcpy kbuf (a1 t) n s;
           (r, v) \<leftarrow> vfs_write (x_venv x) a (map (\<lambda>i. k_mem s (unat kbuf + i)) [0..<unat n]) 0 (k_vfs s);
           s \<leftarrow> free_buffer x kbuf n (s\<lparr>k_vfs := v\<rparr>);
           Some (SysRet (of_int r), s) } } }"

definition sys_lseek :: syscall where
  "sys_lseek x t s = do {
     p \<leftarrow> cur_proc x s;
     f \<leftarrow> fd_get p (int_arg (a0 t));
     case f of None \<Rightarrow> Some (SysRet (- 1), s)
     | Some a \<Rightarrow> do {
         (r, v) \<leftarrow> vfs_lseek a (a1 t) (int_arg (a2 t)) (k_vfs s);
         Some (SysRet r, s\<lparr>k_vfs := v\<rparr>) } }"

definition sys_dup2 :: syscall where
  "sys_dup2 x t s = do {
     p \<leftarrow> cur_proc x s;
     f \<leftarrow> fd_get p (int_arg (a0 t));
     case f of None \<Rightarrow> Some (SysRet (- 1), s)
     | Some a \<Rightarrow> (case free_fds p of
           [] \<Rightarrow> Some (SysRet (- 1), s)
         | i # _ \<Rightarrow> do {
             (b, v) \<leftarrow> vfs_fdup a (k_vfs s);
             s \<leftarrow> fd_set x (int i) (Some b) (s\<lparr>k_vfs := v\<rparr>);
             Some (SysRet (of_nat i), s) }) }"

definition sys_dup3 :: syscall where
  "sys_dup3 x t s = do {
     let new_fd = int_arg (a1 t);
     p \<leftarrow> cur_proc x s;
     f \<leftarrow> fd_get p (int_arg (a0 t));
     case f of None \<Rightarrow> Some (SysRet (- 1), s)
     | Some a \<Rightarrow> do {
         g \<leftarrow> fd_get p new_fd;
         v \<leftarrow> (case g of None \<Rightarrow> Some (k_vfs s) | Some b \<Rightarrow> do { (_, v) \<leftarrow> vfs_close (x_venv x) b (k_vfs s); Some v });
         (b, v) \<leftarrow> vfs_fdup a v;
         s \<leftarrow> fd_set x new_fd (Some b) (s\<lparr>k_vfs := v\<rparr>);
         Some (SysRet (of_int new_fd), s) } }"

text \<open>\<open>kstat_t\<close> as it lies in memory: 128 bytes.\<close>

definition kstat_bytes :: "vfs_file \<Rightarrow> inode \<Rightarrow> u8 list" where
  "kstat_bytes f i =
     le_bytes 8 (ucast (snd (i_dev i))) @ le_bytes 8 (of_int (i_ino i)) @
     le_bytes 4 (of_int (f_mode f)) @ le_bytes 4 (of_int (i_nlinks i)) @ le_bytes 4 0 @ le_bytes 4 0 @
     le_bytes 8 (ucast (fst (i_dev i))) @ le_bytes 8 0 @ le_bytes 8 (i_size i) @
     le_bytes 4 0 @ le_bytes 4 0 @ le_bytes 8 0 @
     le_bytes 8 (i_atime i) @ le_bytes 8 0 @ le_bytes 8 (i_mtime i) @ le_bytes 8 0 @
     le_bytes 8 (i_ctime i) @ le_bytes 8 0 @ le_bytes 4 0 @ le_bytes 4 0"

definition sys_fstat :: syscall where
  "sys_fstat x t s =
    (if a1 t = 0 then Some (SysRet (- 1), s)
     else do {
       p \<leftarrow> cur_proc x s;
       f \<leftarrow> fd_get p (int_arg (a0 t));
       case f of None \<Rightarrow> Some (SysRet (- 1), s)
       | Some a \<Rightarrow> do {
           y \<leftarrow> vfiles (k_vfs s) a;
           i \<leftarrow> inodes (k_vfs s) (f_inode y);
           s \<leftarrow> copy_local x (a1 t) (kstat_bytes y i) s;
           Some (SysRet 0, s) } })"

subsection \<open>Pipes\<close>

definition zero_file :: vfs_file where
  "zero_file = \<lparr>f_inode = 0, f_offset = 0, f_dentry = 0, f_op = 0, f_mode = 0, f_counts = 0, f_fs_data = AtStart\<rparr>"

text \<open>\<open>pipe_create\<close> (\<open>kernel/dev/pipe/pipe.c\<close>): the two files and the pipe.\<close>

definition pipe_file :: "sys_ctx \<Rightarrow> u32 \<Rightarrow> vfs_file \<Rightarrow> vfs_file" where
  "pipe_file x md f = f\<lparr>f_inode := 0, f_dentry := 0, f_offset := 0, f_op := x_pipe_ops x, f_counts := 1, f_mode := uint md\<rparr>"

definition pipe_create :: "sys_ctx \<Rightarrow> nat \<Rightarrow> nat \<Rightarrow> kernel \<Rightarrow> (int \<times> kernel) option" where
  "pipe_create x reader writer s = do {
     v \<leftarrow> upd_file writer (pipe_file x O_WRONLY) (k_vfs s);
     v \<leftarrow> upd_file reader (pipe_file x O_RDONLY) v;
     let s = s\<lparr>k_vfs := v\<rparr>;
     let a = unat (x_kmalloc x s);
     if a = 0 then Some (- 1, s)
     else Some (0, s\<lparr>k_pipes := (k_pipes s)(a \<mapsto> new_pipe), k_pipe_at := (k_pipe_at s)(writer \<mapsto> a, reader \<mapsto> a)\<rparr>) }"

text \<open>A zeroed file structure in a free slot.\<close>

definition pipe_slot :: "sys_ctx \<Rightarrow> nat \<Rightarrow> kernel \<Rightarrow> (nat \<times> kernel) option" where
  "pipe_slot x i s = do {
     let a = unat (x_kmalloc x s);
     if a = 0 then Some (0, s)
     else do {
       let v = k_vfs s;
       s \<leftarrow> fd_set x (int i) (Some a) (s\<lparr>k_vfs := v\<lparr>vfiles := (vfiles v)(a \<mapsto> zero_file)\<rparr>\<rparr>);
       Some (a, s) } }"

text \<open>On failure the slots taken so far are given back.  Their files never have a pipe then, so that
  \<open>close\<close> is not called.\<close>

definition drop_slot :: "sys_ctx \<Rightarrow> nat \<Rightarrow> nat \<Rightarrow> kernel \<Rightarrow> kernel option" where
  "drop_slot x i a s = do {
     s \<leftarrow> fd_set x (int i) None s;
     let v = k_vfs s;
     Some (s\<lparr>k_vfs := v\<lparr>vfiles := (vfiles v)(a := None)\<rparr>\<rparr>) }"

definition sys_pipe2 :: syscall where
  "sys_pipe2 x t s = do {
     p \<leftarrow> cur_proc x s;
     case free_fds p of [] \<Rightarrow> Some (SysRet (- 1), s)
     | i # js \<Rightarrow> do {
         (f, s) \<leftarrow> pipe_slot x i s;
         if f = 0 then Some (SysRet (- 1), s)
         else (case js of [] \<Rightarrow> do { s \<leftarrow> drop_slot x i f s; Some (SysRet (- 1), s) }
           | j # _ \<Rightarrow> do {
               (g, s) \<leftarrow> pipe_slot x j s;
               if g = 0 then do { s \<leftarrow> drop_slot x i f s; Some (SysRet (- 1), s) }
               else do {
                 (r, s) \<leftarrow> pipe_create x f g s;
                 if r \<noteq> 0 then do { s \<leftarrow> drop_slot x i f s; s \<leftarrow> drop_slot x j g s; Some (SysRet (- 1), s) }
                 else do {
                   s \<leftarrow> copy_local x (a0 t) (le_bytes 4 (of_nat i) @ le_bytes 4 (of_nat j)) s;
                   Some (SysRet 0, s) } } }) } }"

subsection \<open>Directories\<close>

definition sys_mkdirat :: syscall where
  "sys_mkdirat x t s = do {
     (k, s) \<leftarrow> user_string x (a1 t) s;
     if k = 0 then Some (SysRet (- 1), s)
     else do {
       p \<leftarrow> cur_proc x s;
       dir \<leftarrow> fd_dir p (int_arg (a0 t)) (k_vfs s);
       case dir of None \<Rightarrow> Some (SysRet (- 1), s)
       | Some d \<Rightarrow>
           if d = 0 then Some (SysRet (- 2), s)
           else do {
             nm \<leftarrow> kstring (k_mem s) k;
             (dent, v) \<leftarrow> vfs_mkdir (x_venv x) d nm (k_vfs s);
             Some (SysRet (if dent = 0 then - 2 else 0), s\<lparr>k_vfs := v\<rparr>) } } }"

text \<open>The device and the mount point are read only when the file system is known.\<close>

definition sys_mount :: syscall where
  "sys_mount x t s = do {
     (dev, s) \<leftarrow> user_string x (a0 t) s;
     (mountpoint, s) \<leftarrow> user_string x (a1 t) s;
     (fstype, s) \<leftarrow> user_string x (a2 t) s;
     p \<leftarrow> cur_proc x s;
     fs \<leftarrow> kstring (k_mem s) fstype;
     if find_fs fs (filesystems (k_vfs s)) = 0 then Some (SysRet (- 1), s)
     else do {
       dv \<leftarrow> kstring (k_mem s) dev;
       mp \<leftarrow> kstring (k_mem s) mountpoint;
       (r, v) \<leftarrow> vfs_mount (x_venv x) (cwd p) dv mp fs (unat (a3 t)) (k_vfs s);
       Some (SysRet (of_int r), s\<lparr>k_vfs := v\<rparr>) } }"

definition dirent_type :: "inode_type \<Rightarrow> u8" where
  "dirent_type ty = (case ty of inode_dev \<Rightarrow> 0x53 | inode_dir \<Rightarrow> 0x44 | inode_file \<Rightarrow> 0x46 | _ \<Rightarrow> 0x55)"

text \<open>An entry for \<open>getdents64\<close>: number, offset and record length, both left 0, type and name.\<close>

definition dirent_bytes :: "inode \<Rightarrow> string \<Rightarrow> u8 list" where
  "dirent_bytes i nm = le_bytes 8 (of_int (i_ino i)) @ le_bytes 8 0 @ le_bytes 2 0 @ [dirent_type (i_type i)] @ c_string nm @ [0]"

text \<open>The room for an entry is checked at a multiple of 4, the next one starts at a multiple of 8.\<close>

partial_function (option) getdents_loop :: "vfs_env \<Rightarrow> nat \<Rightarrow> u64 \<Rightarrow> u64 \<Rightarrow> vfs \<Rightarrow> byte_mem \<Rightarrow> (u64 \<times> vfs \<times> byte_mem) option" where
  "getdents_loop ve f p end_kbuf v mem =
    (if p < end_kbuf then do {
       y \<leftarrow> vfiles v f;
       (r, ent, v) \<leftarrow> vfs_read_dir ve f v;
       if r < 0 then Some (p, v, mem)
       else do {
         (ino, nm) \<leftarrow> ent;
         if ROUNDUP_WITH 4 (p + 24 + of_nat (length nm)) \<ge> end_kbuf then do {
           v \<leftarrow> upd_file f (\<lambda>z. z\<lparr>f_fs_data := f_fs_data y\<rparr>) v;
           Some (p, v, mem) }
         else do {
           i \<leftarrow> inodes v ino;
           getdents_loop ve f (ROUNDUP_WITH 8 (p + 24 + of_nat (length nm))) end_kbuf v (put_bytes mem (unat p) (dirent_bytes i nm)) } } }
     else Some (p, v, mem))"

definition sys_getdents64 :: syscall where
  "sys_getdents64 x t s =
    (if int_arg (a0 t) = AT_FDCWD then Some (SysRet 0, s)
     else do {
       p \<leftarrow> cur_proc x s;
       f \<leftarrow> fd_get p (int_arg (a0 t));
       case f of None \<Rightarrow> Some (SysRet 0, s)
       | Some a \<Rightarrow> do {
           y \<leftarrow> vfiles (k_vfs s) a;
           d \<leftarrow> dentries (k_vfs s) (f_dentry y);
           if d_type d \<noteq> D_TYPE_DIR \<and> d_type d \<noteq> D_TYPE_MOUNTED then Some (SysRet 0, s)
           else do {
             let kbuf = x_kmalloc x s;
             kassert (kbuf \<noteq> 0);
             (q, v, mem) \<leftarrow> getdents_loop (x_venv x) a kbuf (kbuf + a2 t) (k_vfs s) (k_mem s);
             s \<leftarrow> k_umemcpy (a1 t) kbuf (q - kbuf) (s\<lparr>k_vfs := v, k_mem := mem\<rparr>);
             Some (SysRet (q - kbuf), s) } } })"

definition sys_getcwd :: syscall where
  "sys_getcwd x t s = do {
     p \<leftarrow> cur_proc x s;
     let kbuf = x_kmalloc x s;
     path \<leftarrow> vfs_get_dentry_fullpath (k_vfs s) (unat kbuf) (cwd p);
     path \<leftarrow> path;
     let len = of_nat (length path) + 1;
     let s = s\<lparr>k_mem := put_bytes (k_mem s) (unat kbuf) (c_string path @ [0])\<rparr>;
     if a1 t < len then Some (SysRet 0, s)
     else if a0 t \<noteq> 0 then do {
       s \<leftarrow> k_umemcpy (a0 t) kbuf len s;
       Some (SysRet (a0 t), s) }
     else do {
       let old_brk = ROUNDUP_WITH 8 (prog_break p);
       (_, q, ph, m) \<leftarrow> do_brk (x_hart x) (k_ph s) (k_mi s) p (ROUNDUP_WITH 8 (old_brk + len));
       s \<leftarrow> set_proc_k (x_cur x) (\<lambda>_. q) (s\<lparr>k_ph := ph, k_mi := m\<rparr>);
       s \<leftarrow> k_umemcpy old_brk kbuf len s;
       Some (SysRet old_brk, s) } }"

definition sys_chdir :: syscall where
  "sys_chdir x t s = do {
     (k, s) \<leftarrow> user_string x (a0 t) s;
     p \<leftarrow> cur_proc x s;
     path \<leftarrow> kstring (k_mem s) k;
     (dent, v) \<leftarrow> vfs_get_dentry (x_venv x) path (cwd p) (k_vfs s);
     let s = s\<lparr>k_vfs := v\<rparr>;
     if dent \<noteq> 0 then do {
       s \<leftarrow> set_proc_k (x_cur x) (\<lambda>p. p\<lparr>cwd := dent\<rparr>) s;
       Some (SysRet 0, s) }
     else Some (SysRet (- 1), s) }"

text \<open>Where a path of \<open>linkat\<close> starts; the test of a descriptor that is not open differs.\<close>

definition link_start :: "proc \<Rightarrow> int \<Rightarrow> string \<Rightarrow> (nat option \<Rightarrow> bool) \<Rightarrow> vfs \<Rightarrow> nat option option" where
  "link_start p fd path bad v =
    (if fd = AT_FDCWD then Some (Some (cwd p))
     else if path \<noteq> [] \<and> hd path = CHR ''/'' then Some (Some vfs_get_root)
     else do {
       f \<leftarrow> fd_get p fd;
       if bad f then Some None
       else do { a \<leftarrow> f; y \<leftarrow> vfiles v a; Some (Some (f_dentry y)) } })"

definition sys_linkat :: syscall where
  "sys_linkat x t s = do {
     (k_old, s) \<leftarrow> user_string x (a1 t) s;
     (k_new, s) \<leftarrow> user_string x (a3 t) s;
     if k_old = 0 \<or> k_new = 0 then Some (SysRet (- 1), s)
     else do {
       p \<leftarrow> cur_proc x s;
       oldpath \<leftarrow> kstring (k_mem s) k_old;
       newpath \<leftarrow> kstring (k_mem s) k_new;
       d \<leftarrow> link_start p (int_arg (a0 t)) oldpath (\<lambda>f. f = None) (k_vfs s);
       case d of None \<Rightarrow> Some (SysRet (- 1), s)
       | Some d \<Rightarrow> do {
           (old_dent, v) \<leftarrow> vfs_get_dentry (x_venv x) oldpath d (k_vfs s);
           let s = s\<lparr>k_vfs := v\<rparr>;
           if old_dent = 0 then Some (SysRet (- 1), s)
           else do {
             d \<leftarrow> link_start p (int_arg (a2 t)) newpath (\<lambda>_. int_arg (a2 t) = 0) v;
             case d of None \<Rightarrow> Some (SysRet (- 1), s)
             | Some d \<Rightarrow> do {
                 (par, new_name, v) \<leftarrow> vfs_get_parent_dentry (x_venv x) newpath d v;
                 let s = s\<lparr>k_vfs := v\<rparr>;
                 if par = 0 \<or> new_name = [] then Some (SysRet (- 1), s)
                 else do {
                   od \<leftarrow> dentries v old_dent;
                   (_, v) \<leftarrow> vfs_link_inode (x_venv x) (d_inode od) par new_name v;
                   Some (SysRet 0, s\<lparr>k_vfs := v\<rparr>) } } } } } }"

definition sys_unlinkat :: syscall where
  "sys_unlinkat x t s = Some (SysRet 0, s)"

subsection \<open>Processes\<close>

text \<open>With other flags the function returns no value.\<close>

definition sys_clone :: syscall where
  "sys_clone x t s =
    (if int_arg (a0 t) = SIGCHLD then do {
       (r, s) \<leftarrow> k_do_fork x (x_cur x) (a1 t) s;
       Some (if r < 0 then SysRet (of_int r) else SysYield (of_int r), s) }
     else None)"

definition sys_getppid :: syscall where
  "sys_getppid x t s = do {
     p \<leftarrow> cur_proc x s;
     case parent p of None \<Rightarrow> Some (SysRet 0, s)
     | Some q \<Rightarrow> do { pp \<leftarrow> procs (k_env s) q; Some (SysRet (of_nat (pid pp)), s) } }"

definition sys_getpid :: syscall where
  "sys_getpid x t s = do { p \<leftarrow> cur_proc x s; Some (SysRet (of_nat (pid p)), s) }"

definition sys_brk :: syscall where
  "sys_brk x t s = do {
     p \<leftarrow> cur_proc x s;
     (r, q, ph, m) \<leftarrow> do_brk (x_hart x) (k_ph s) (k_mi s) p (a0 t);
     s \<leftarrow> set_proc_k (x_cur x) (\<lambda>_. q) (s\<lparr>k_ph := ph, k_mi := m\<rparr>);
     Some (SysRet r, s) }"

definition sys_exit :: syscall where
  "sys_exit x t s = do {
     s \<leftarrow> k_do_exit x (x_cur x) (of_int (int_arg (a0 t))) s;
     Some (SysGone, s) }"

text \<open>The pid is returned as a 32-bit unsigned number, also when it is \<open>-1\<close>; the status is copied out
  whatever the result.\<close>

definition wait_round :: "sys_ctx \<Rightarrow> int \<Rightarrow> u64 \<Rightarrow> int \<Rightarrow> kernel \<Rightarrow> (sys_result \<times> kernel) option" where
  "wait_round x waitfor u_status options s = do {
     (w, e) \<leftarrow> do_wait (x_hart x) (x_cur x) waitfor options (k_env s);
     let s = s\<lparr>k_env := e\<rparr>;
     case w of WaitSleeps \<Rightarrow> Some (SysAsleep (WaitChild waitfor u_status options), s)
     | Waited i st \<Rightarrow> do {
         s \<leftarrow> (if u_status \<noteq> 0 then copy_local x u_status (le_bytes 4 st) s else Some s);
         Some (SysRet (of_nat i), s) }
     | WaitRet r \<Rightarrow> do {
         s \<leftarrow> (if u_status \<noteq> 0 then copy_local x u_status (le_bytes 4 0) s else Some s);
         Some (SysRet (ucast (of_int r :: u32)), s) } }"

definition sys_wait :: syscall where
  "sys_wait x t s = wait_round x (int_arg (a0 t)) (a1 t) (int_arg (a2 t)) s"

text \<open>Woken up, \<open>do_wait\<close> takes its lock again, leaves the channel and looks at the children once more.\<close>

definition resume_wait :: "sys_ctx \<Rightarrow> int \<Rightarrow> u64 \<Rightarrow> int \<Rightarrow> kernel \<Rightarrow> (sys_result \<times> kernel) option" where
  "resume_wait x waitfor u_status options s = do {
     s \<leftarrow> set_proc_k (x_cur x) (\<lambda>p. p\<lparr>waiting_chan := 0\<rparr>) s;
     wait_round x waitfor u_status options s }"

definition sys_sched_yield :: syscall where
  "sys_sched_yield x t s = do {
     s \<leftarrow> set_proc_k (x_cur x) (\<lambda>p. p\<lparr>status := (status p AND NOT PROC_STATUS_RUNNING) OR PROC_STATUS_READY\<rparr>) s;
     Some (SysYield 0, s) }"

definition uts_field :: "string \<Rightarrow> u8 list" where
  "uts_field nm = take 65 (c_string nm @ replicate 65 0)"

definition build_uts_name :: "string \<Rightarrow> u8 list" where
  "build_uts_name version = uts_field ''MFTT-RISCV'' @ uts_field [] @ uts_field ''0.1.0'' @ uts_field version @ uts_field ''riscv64''"

definition sys_uname :: "string \<Rightarrow> syscall" where
  "sys_uname version x t s = do {
     s \<leftarrow> copy_local x (a0 t) (build_uts_name version) s;
     Some (SysRet 0, s) }"

partial_function (option) count_strs :: "byte_mem \<Rightarrow> u64 \<Rightarrow> nat option" where
  "count_strs mem strs = (if get_u64 mem strs = 0 then Some 0 else do { n \<leftarrow> count_strs mem (strs + 8); Some (Suc n) })"

text \<open>Entries \<open>i\<close> up to \<open>i + n\<close> of an array of strings are copied; the pointers go to \<open>kstrs\<close>.\<close>

fun copy_strs :: "sys_ctx \<Rightarrow> u64 \<Rightarrow> u64 \<Rightarrow> nat \<Rightarrow> kernel \<Rightarrow> (u64 list \<times> kernel) option" where
  "copy_strs x strs kstrs 0 s = Some ([], s)"
| "copy_strs x strs kstrs (Suc n) s = do {
     (k, s) \<leftarrow> user_string x (get_u64 (k_mem s) strs) s;
     let s = s\<lparr>k_mem := put_u64 (k_mem s) kstrs k\<rparr>;
     (ks, s) \<leftarrow> copy_strs x (strs + 8) (kstrs + 8) n s;
     Some (k # ks, s) }"

fun kbytes_list :: "byte_mem \<Rightarrow> u64 list \<Rightarrow> u8 list list option" where
  "kbytes_list mem [] = Some []"
| "kbytes_list mem (k # ks) = do { b \<leftarrow> kbytes mem k; bs \<leftarrow> kbytes_list mem ks; Some (b # bs) }"

text \<open>A string that could not be copied ends its list early, which the comparison of the counts
  notices after the fact.\<close>

definition sys_execve :: syscall where
  "sys_execve x t s = do {
     (k_path, s) \<leftarrow> user_string x (a0 t) s;
     let s = s\<lparr>k_umem := True\<rparr>;
     argc \<leftarrow> (if a1 t \<noteq> 0 then count_strs (k_mem s) (a1 t) else Some 0);
     envc \<leftarrow> (if a2 t \<noteq> 0 then count_strs (k_mem s) (a2 t) else Some 0);
     let kargv = x_kmalloc x s;
     let s = s\<lparr>k_mem := put_u64 (k_mem s) (kargv + 8 * of_nat argc) 0\<rparr>;
     let kenvp = x_kmalloc x s;
     let s = s\<lparr>k_mem := put_u64 (k_mem s) (kenvp + 8 * of_nat envc) 0\<rparr>;
     kassert (kargv \<noteq> 0);
     kassert (kenvp \<noteq> 0);
     (ka, s) \<leftarrow> copy_strs x (a1 t) kargv argc s;
     (ke, s) \<leftarrow> copy_strs x (a2 t) kenvp envc s;
     let s = s\<lparr>k_umem := False\<rparr>;
     p \<leftarrow> cur_proc x s;
     path \<leftarrow> kstring (k_mem s) k_path;
     argv \<leftarrow> kbytes_list (k_mem s) (takeWhile (\<lambda>k. k \<noteq> 0) ka);
     envp \<leftarrow> kbytes_list (k_mem s) (takeWhile (\<lambda>k. k \<noteq> 0) ke);
     (r, s) \<leftarrow> do_execve x (x_cur x) (cwd p) path kargv argv envp s;
     if r < 0 then Some (SysRet (of_int r), s)
     else do {
       kassert (r = int argc);
       Some (SysRet (of_int r), s) } }"

subsection \<open>Dispatch\<close>

text \<open>The entries of the table that are not \<open>NULL\<close>; \<open>sys_test\<close> (\<open>kernel/syscall/test.c\<close>) is an empty
  function that returns no value.\<close>

definition sys_test :: syscall where
  "sys_test x t s = None"

definition syscall_table :: "string \<Rightarrow> (nat \<times> syscall) list" where
  "syscall_table version = [(1, sys_ticks), (3, sys_sleep), (2333, sys_test),
     (56, sys_open), (57, sys_close), (64, sys_write), (63, sys_read), (19, sys_lseek), (17, sys_getcwd), (59, sys_pipe2),
     (23, sys_dup2), (24, sys_dup3), (49, sys_chdir), (61, sys_getdents64), (37, sys_linkat), (35, sys_unlinkat),
     (34, sys_mkdirat), (40, sys_mount), (80, sys_fstat), (220, sys_clone), (221, sys_execve), (260, sys_wait), (93, sys_exit),
     (173, sys_getppid), (172, sys_getpid), (214, sys_brk), (153, sys_times), (160, sys_uname version), (124, sys_sched_yield),
     (169, sys_gettimeofday), (101, sys_nanosleep)]"

text \<open>The value goes to \<open>a0\<close>: at once when the call returns or gives up the processor (the process is
  the only one to look at its frame), by \<open>syscall_resume\<close> when it sleeps.\<close>

definition finish_syscall :: "sys_ctx \<Rightarrow> sys_result \<times> kernel \<Rightarrow> (sys_result \<times> kernel) option" where
  "finish_syscall x = (\<lambda>(r, s). do {
     s \<leftarrow> (case r of SysRet w \<Rightarrow> set_proc_k (x_cur x) (\<lambda>p. p\<lparr>trapframe := (trapframe p)\<lparr>a0 := w\<rparr>\<rparr>) s
          | SysYield w \<Rightarrow> set_proc_k (x_cur x) (\<lambda>p. p\<lparr>trapframe := (trapframe p)\<lparr>a0 := w\<rparr>\<rparr>) s
          | _ \<Rightarrow> Some s);
     Some (r, s) })"

text \<open>The number is an \<open>int\<close> that is compared with the size of the table as an unsigned number, so that
  a negative one is invalid too.\<close>

definition do_syscall :: "string \<Rightarrow> sys_ctx \<Rightarrow> kernel \<Rightarrow> (sys_result \<times> kernel) option" where
  "do_syscall version x s = do {
     p \<leftarrow> cur_proc x s;
     let t = trapframe p;
     let syscall_id = int_arg (a7 t);
     case (if syscall_id < 0 then None else map_of (syscall_table version) (nat syscall_id)) of
       None \<Rightarrow> do { s \<leftarrow> k_do_exit x (x_cur x) (- 1) s; Some (SysGone, s) }
     | Some f \<Rightarrow> do { r \<leftarrow> f x t s; finish_syscall x r } }"

definition syscall_resume :: "sys_ctx \<Rightarrow> sleeping_call \<Rightarrow> kernel \<Rightarrow> (sys_result \<times> kernel) option" where
  "syscall_resume x w s = do {
     r \<leftarrow> (case w of WaitTicks n start \<Rightarrow> resume_ticks x n start s
          | WaitChild waitfor u_status options \<Rightarrow> resume_wait x waitfor u_status options s);
     finish_syscall x r }"

end
