(* ===== verification/Fd_Table.thy ===== *)
theory Fd_Table
  imports Syscalls
begin

text \<open>
  Descriptor tables and the counts of open files.  What the file system relies on of the drivers and
  file systems below it is the locale \<open>file_drivers\<close>: they may keep data of their own for a file but
  leave its count alone.  Under it every operation of the file system has a known effect on the
  counts, and the system calls keep them equal to the number of references.
\<close>

definition open_count :: "vfs \<Rightarrow> nat \<Rightarrow> int option" where
  "open_count v a = map_option f_counts (vfiles v a)"

locale file_drivers =
  fixes ve :: vfs_env
  assumes kalloc_fresh: "kalloc ve v \<noteq> 0 \<Longrightarrow> vfiles v (kalloc ve v) = None"
    and lookup_counts: "op_lookup (inode_tab ve k) = Some lk \<Longrightarrow> lk i nm v = Some (r, d, w) \<Longrightarrow> open_count w = open_count v"
    and link_counts: "op_link (inode_tab ve k) = Some ln \<Longrightarrow> ln i j nm v = Some (r, w) \<Longrightarrow> open_count w = open_count v"
    and mkdir_counts: "op_mkdir (inode_tab ve k) = Some mk \<Longrightarrow> mk i nm v = Some (r, d, w) \<Longrightarrow> open_count w = open_count v"
    and read_dir_counts: "op_read_dir (inode_tab ve k) = Some rd \<Longrightarrow>
      (\<And>d v r w. cb d v = Some (r, w) \<Longrightarrow> open_count w = open_count v) \<Longrightarrow> rd i cb v = Some (r, w) \<Longrightarrow> open_count w = open_count v"
    and alloc_inode_counts: "op_alloc_inode (sb_tab ve k) = Some al \<Longrightarrow> al sb v = Some (d, w) \<Longrightarrow> open_count w = open_count v"
    and mount_counts: "op_mount (fs_tab ve k) = Some mt \<Longrightarrow> mt sb i fl v = Some (d, w) \<Longrightarrow> open_count w = open_count v"
    and read_counts: "op_read (file_tab ve k) = Some rf \<Longrightarrow> rf a off n v = Some (r, bs, w) \<Longrightarrow> open_count w = open_count v"
    and write_counts: "op_write (file_tab ve k) = Some wrf \<Longrightarrow> wrf a cs off v = Some (r, w) \<Longrightarrow> open_count w = open_count v"
    and open_counts: "op_open (file_tab ve k) = Some opf \<Longrightarrow> opf a v = Some (r, w) \<Longrightarrow> open_count w = open_count v"
    and close_counts: "op_close (file_tab ve k) = Some cl \<Longrightarrow> \<exists>r w. cl a v = Some (r, w) \<and> open_count w = open_count v"

subsection \<open>Updates that leave the counts alone\<close>

lemma upd_dentry_count: "upd_dentry a f v = Some w \<Longrightarrow> open_count w = open_count v"
  by (auto simp: upd_dentry_def option_steps open_count_def fun_eq_iff)

lemma upd_inode_count: "upd_inode a f v = Some w \<Longrightarrow> open_count w = open_count v"
  by (auto simp: upd_inode_def option_steps open_count_def fun_eq_iff)

lemma add_subdir_count: "add_subdir c p v = Some w \<Longrightarrow> open_count w = open_count v"
  by (auto simp: add_subdir_def upd_dentry_count)

lemma upd_file_count: "upd_file a f v = Some w \<Longrightarrow> (\<And>y. f_counts (f y) = f_counts y) \<Longrightarrow> open_count w = open_count v"
  by (auto simp: upd_file_def option_steps open_count_def fun_eq_iff)

lemma read_dir_callback_count: "vfs_read_dir_callback p d v = Some (r, w) \<Longrightarrow> open_count w = open_count v"
  by (auto simp: vfs_read_dir_callback_def option_steps dest!: upd_dentry_count add_subdir_count)

lemma open_count_other [simp]:
  "open_count (v\<lparr>dentries := d\<rparr>) = open_count v" "open_count (v\<lparr>inodes := i\<rparr>) = open_count v"
  "open_count (v\<lparr>superblocks := sb\<rparr>) = open_count v" "open_count (v\<lparr>mounts := m\<rparr>) = open_count v"
  by (simp_all add: open_count_def fun_eq_iff)

lemmas count_dests = upd_dentry_count upd_inode_count add_subdir_count

context file_drivers
begin

lemma read_dir_count: "op_read_dir (inode_tab ve k) = Some rd \<Longrightarrow> rd i (vfs_read_dir_callback p) v = Some (r, w) \<Longrightarrow> open_count w = open_count v"
  by (rule read_dir_counts [OF _ read_dir_callback_count])

lemma lookup_child_count: "lookup_child ve c p nm v = Some (d, w) \<Longrightarrow> open_count w = open_count v"
  by (auto simp: lookup_child_def option_steps split: if_split_asm option.split_asm prod.split_asm
      dest!: count_dests) ((drule (1) lookup_counts | drule (1) read_dir_count), simp)+

lemma path_step_count: "path_step ve c p nm v = Some (d, w) \<Longrightarrow> open_count w = open_count v"
  by (auto simp: path_step_def option_steps lookup_child_count split: if_split_asm)

lemma walk_path_count: "walk_path ve c p dn cur meet cs v = Some (d, nm, w) \<Longrightarrow> open_count w = open_count v"
proof (induction cs arbitrary: p dn cur meet v)
  case (Cons x cs)
  then show ?case
    by (auto simp: option_steps split: if_split_asm dest!: path_step_count)
qed (auto simp: option_steps)

lemma get_parent_dentry_count: "vfs_get_parent_dentry ve path c v = Some (d, nm, w) \<Longrightarrow> open_count w = open_count v"
  by (auto simp: vfs_get_parent_dentry_def Let_def split: if_split_asm list.split_asm dest!: walk_path_count)

lemma get_dentry_count: "vfs_get_dentry ve path c v = Some (d, w) \<Longrightarrow> open_count w = open_count v"
  by (auto simp: vfs_get_dentry_def option_steps split: if_split_asm dest!: get_parent_dentry_count lookup_child_count)

lemma link_inode_count: "vfs_link_inode ve i p nm v = Some (r, w) \<Longrightarrow> open_count w = open_count v"
  by (auto simp: vfs_link_inode_def option_steps Let_def split: if_split_asm option.split_asm dest: link_counts dest!: count_dests)

lemma alloc_inode_count: "vfs_alloc_inode ve sb v = Some (d, w) \<Longrightarrow> open_count w = open_count v"
  by (auto simp: vfs_alloc_inode_def option_steps Let_def split: if_split_asm option.split_asm dest: alloc_inode_counts)

lemma mkdir_inode_count:
  assumes "(case op_mkdir (inode_tab ve k) of
      Some f \<Rightarrow> do { (r, di, v) \<leftarrow> f i nm v; Some (r = 0, di, v) }
    | None \<Rightarrow> do { (di, v) \<leftarrow> vfs_alloc_inode ve sb v; Some (True, di, v) }) = Some (ok, di, w)"
  shows "open_count w = open_count v"
  using assms by (auto simp: option_steps split: if_split_asm option.split_asm dest: mkdir_counts alloc_inode_count)

lemma vfs_mkdir_count: "vfs_mkdir ve p path v = Some (d, w) \<Longrightarrow> open_count w = open_count v"
  unfolding vfs_mkdir_def Let_def
  by (auto elim!: bind_SomeE split: prod.split_asm if_split_asm dest!: get_parent_dentry_count mkdir_inode_count alloc_inode_count count_dests)

lemma load_dir_count: "load_dir ve d i v = Some w \<Longrightarrow> open_count w = open_count v"
  by (auto simp: load_dir_def option_steps split: if_split_asm option.split_asm
      dest!: count_dests) (drule (1) read_dir_count, simp)+

lemma vfs_read_dir_count: "vfs_read_dir ve a v = Some (r, ent, w) \<Longrightarrow> open_count w = open_count v"
  by (auto simp: vfs_read_dir_def option_steps Let_def split: dir_pos.split_asm list.split_asm
      dest!: load_dir_count upd_file_count)

lemma vfs_lseek_count: "vfs_lseek a off wh v = Some (r, w) \<Longrightarrow> open_count w = open_count v"
  by (auto simp: vfs_lseek_def option_steps split: if_split_asm dest!: upd_file_count)

lemma vfs_read_count: "vfs_read ve a off n v = Some (r, bs, w) \<Longrightarrow> open_count w = open_count v"
  by (auto simp: vfs_read_def option_steps split: if_split_asm option.split_asm dest: read_counts dest!: upd_file_count)

lemma vfs_write_count: "vfs_write ve a bs off v = Some (r, w) \<Longrightarrow> open_count w = open_count v"
  by (auto simp: vfs_write_def option_steps split: if_split_asm option.split_asm dest: write_counts dest!: upd_file_count)

lemma vfs_mount_count:
  assumes "vfs_mount ve c dv mp fs fl v = Some (r, w)"
  shows "open_count w = open_count v"
proof -
  have m: "open_count w' = open_count v'" if "op_mount (fs_tab ve k) = Some mt" "mt sb i fl (v'\<lparr>superblocks := sbs\<rparr>) = Some (d, w')" for k mt sb i d v' w' sbs
    using mount_counts [OF that] by simp
  show ?thesis using assms unfolding vfs_mount_def vfs_create_superblock_def vfs_destroy_superblock_def Let_def
    by (auto elim!: bind_SomeE split: if_split_asm option.split_asm dest!: get_dentry_count count_dests) (drule (1) m, simp)+
qed

lemma vfs_open_count:
  assumes "vfs_open ve d md v = Some (a, w)"
  shows "open_count v a = None \<and> open_count w = (open_count v)(a \<mapsto> 1)"
proof -
  have c: "open_count (v\<lparr>vfiles := (vfiles v)(b \<mapsto> y)\<rparr>) = (open_count v)(b \<mapsto> f_counts y)" for b y
    by (auto simp: open_count_def)
  show ?thesis using assms kalloc_fresh [of v] unfolding vfs_open_def Let_def
    by (auto elim!: bind_SomeE split: if_split_asm option.split_asm dest!: upd_inode_count simp: c)
      (auto simp: open_count_def [of v] dest: open_counts [simplified c] simp: c)
qed

lemma vfs_close_count:
  assumes "open_count v a = Some c" and "0 < c"
  shows "\<exists>r w. vfs_close ve a v = Some (r, w) \<and> open_count w = (open_count v)(a := if c = 1 then None else Some (c - 1))"
proof -
  obtain y where y: "vfiles v a = Some y" "f_counts y = c" using assms(1) by (auto simp: open_count_def)
  let ?y = "y\<lparr>f_counts := f_counts y - 1\<rparr>"
  let ?v = "v\<lparr>vfiles := (vfiles v)(a \<mapsto> ?y)\<rparr>"
  have v: "open_count ?v = (open_count v)(a \<mapsto> c - 1)" using y by (auto simp: open_count_def)
  have gone: "open_count (w\<lparr>vfiles := (vfiles w)(a := None)\<rparr>) = (open_count v)(a := None)" if "open_count w = open_count ?v" for w
    using that v by (auto simp: open_count_def fun_eq_iff split: if_splits)
  show ?thesis
  proof (cases "c = 1 \<and> f_op y \<noteq> 0 \<and> op_close (file_tab ve (f_op y)) \<noteq> None")
    case True
    then obtain cl where cl: "op_close (file_tab ve (f_op y)) = Some cl" by auto
    obtain r w where "cl a ?v = Some (r, w)" "open_count w = open_count ?v" using close_counts [OF cl] by blast
    then show ?thesis using y True cl gone by (auto simp: vfs_close_def upd_file_def)
  next
    case False
    then show ?thesis using y v gone [of ?v] assms(2)
      by (auto simp: vfs_close_def upd_file_def split: option.split)
  qed
qed

end

lemma vfs_fdup_count:
  "vfs_fdup a v = Some (b, w) \<longleftrightarrow> b = a \<and> (\<exists>y. vfiles v a = Some y \<and> w = v\<lparr>vfiles := (vfiles v)(a \<mapsto> y\<lparr>f_counts := f_counts y + 1\<rparr>)\<rparr>)"
  by (auto simp: vfs_fdup_def upd_file_def option_steps)

lemma vfs_fdup_ok:
  assumes "open_count v a = Some c"
  shows "\<exists>w. vfs_fdup a v = Some (a, w) \<and> open_count w = (open_count v)(a \<mapsto> c + 1)"
  using assms by (auto simp: vfs_fdup_count open_count_def fun_eq_iff)

subsection \<open>References\<close>

text \<open>The descriptors of the processes in \<open>D\<close> that refer to a file, and the count it must have: a file
  nobody refers to does not exist.\<close>

definition refs :: "nat set \<Rightarrow> (nat \<Rightarrow> nat option list option) \<Rightarrow> nat \<Rightarrow> nat" where
  "refs D tbl a = (\<Sum>i\<in>D. case tbl i of None \<Rightarrow> 0 | Some fs \<Rightarrow> count_list fs (Some a))"

definition counted :: "nat \<Rightarrow> int option" where
  "counted n = (if n = 0 then None else Some (int n))"

definition fds_inv :: "nat set \<Rightarrow> (nat \<Rightarrow> nat option list option) \<Rightarrow> (nat \<Rightarrow> int option) \<Rightarrow> bool" where
  "fds_inv D tbl cnt \<longleftrightarrow> finite D \<and> (\<forall>i\<in>D. \<exists>fs. tbl i = Some fs \<and> length fs = MAX_FILE_OPEN) \<and>
     (\<forall>a. cnt a = counted (refs D tbl a))"

definition fd_tables :: "kernel \<Rightarrow> nat \<Rightarrow> nat option list option" where
  "fd_tables s i = map_option files (procs (k_env s) i)"

definition fds_ok :: "nat set \<Rightarrow> kernel \<Rightarrow> bool" where
  "fds_ok D s \<longleftrightarrow> fds_inv D (fd_tables s) (open_count (k_vfs s))"

lemma count_list_update:
  "j < length xs \<Longrightarrow> count_list (xs[j := b]) y = count_list xs y + (if b = y then 1 else 0) - (if xs ! j = y then 1 else 0)"
proof (induction xs arbitrary: j)
  case (Cons x xs)
  have "xs ! k = y \<Longrightarrow> k < length xs \<Longrightarrow> count_list xs y \<noteq> 0" for k by (auto simp: count_list_0_iff)
  with Cons show ?case by (cases j) (auto simp: Suc_diff_le)
qed simp

lemma refs_ge: "finite D \<Longrightarrow> i \<in> D \<Longrightarrow> tbl i = Some fs \<Longrightarrow> count_list fs (Some a) \<le> refs D tbl a"
  unfolding refs_def by (subst sum.remove [of D i]) auto

lemma refs_update:
  assumes "finite D" and "i \<in> D" and "tbl i = Some fs" and "j < length fs"
  shows "refs D (tbl(i \<mapsto> fs[j := b])) a = refs D tbl a + (if b = Some a then 1 else 0) - (if fs ! j = Some a then 1 else 0)"
proof -
  have "(\<Sum>k\<in>D - {i}. case (tbl(i \<mapsto> fs[j := b])) k of None \<Rightarrow> 0 | Some fs \<Rightarrow> count_list fs (Some a)) =
    (\<Sum>k\<in>D - {i}. case tbl k of None \<Rightarrow> 0 | Some fs \<Rightarrow> count_list fs (Some a))" by (rule sum.cong) auto
  moreover have "fs ! j = Some a \<Longrightarrow> count_list fs (Some a) \<noteq> 0" using assms(4) by (auto simp: count_list_0_iff dest: nth_mem)
  ultimately show ?thesis
    using assms unfolding refs_def by (simp add: sum.remove [of D i] count_list_update) arith
qed

lemma fds_inv_slot:
  assumes "fds_inv D tbl cnt" and "i \<in> D" and "tbl i = Some fs" and "j < length fs" and "fs ! j = Some a"
  shows "\<exists>n>0. refs D tbl a = n \<and> cnt a = Some (int n)"
proof -
  have "count_list fs (Some a) \<noteq> 0" using assms(4,5) by (auto simp: count_list_0_iff dest: nth_mem)
  then have "0 < refs D tbl a" using refs_ge [of D i tbl fs a] assms(1-3) by (simp add: fds_inv_def)
  then show ?thesis using assms(1) by (auto simp: fds_inv_def counted_def)
qed

lemma fds_inv_assign:
  assumes "fds_inv D tbl cnt" and "i \<in> D" and "tbl i = Some fs" and "j < length fs"
    and "\<And>a. cnt' a = counted (refs D tbl a + (if b = Some a then 1 else 0) - (if fs ! j = Some a then 1 else 0))"
  shows "fds_inv D (tbl(i \<mapsto> fs[j := b])) cnt'"
  using assms by (auto simp: fds_inv_def refs_update)

text \<open>The three ways in which a slot changes.\<close>

lemma fds_inv_release:
  assumes "fds_inv D tbl cnt" and "i \<in> D" and "tbl i = Some fs" and "j < length fs" and "fs ! j = Some a" and "cnt a = Some c"
  shows "fds_inv D (tbl(i \<mapsto> fs[j := None])) (cnt(a := if c = 1 then None else Some (c - 1)))"
proof (rule fds_inv_assign [OF assms(1-4)])
  fix b
  obtain n where "n > 0" "refs D tbl a = n" "cnt a = Some (int n)" using fds_inv_slot [OF assms(1-5)] by auto
  then show "(cnt(a := if c = 1 then None else Some (c - 1))) b =
      counted (refs D tbl b + (if None = Some b then 1 else 0) - (if fs ! j = Some b then 1 else 0))"
    using assms(1,5,6) by (auto simp: fds_inv_def counted_def)
qed

lemma fds_inv_take:
  assumes "fds_inv D tbl cnt" and "i \<in> D" and "tbl i = Some fs" and "j < length fs" and "fs ! j = None"
  shows "fds_inv D (tbl(i \<mapsto> fs[j := Some a])) (cnt(a \<mapsto> (case cnt a of None \<Rightarrow> 0 | Some c \<Rightarrow> c) + 1))"
  using assms by (intro fds_inv_assign [OF assms(1-4)]) (auto simp: fds_inv_def counted_def)

lemma fds_inv_cong: "fds_inv D tbl cnt \<Longrightarrow> (\<And>i. i \<in> D \<Longrightarrow> tbl' i = tbl i) \<Longrightarrow> fds_inv D tbl' cnt"
  by (auto simp: fds_inv_def refs_def cong: sum.cong)

subsection \<open>Calls that leave descriptors and counts alone\<close>

definition same_fds :: "kernel \<Rightarrow> kernel \<Rightarrow> bool" where
  "same_fds s s' \<longleftrightarrow> open_count (k_vfs s') = open_count (k_vfs s) \<and> fd_tables s' = fd_tables s \<and>
     proc_bitmap (k_env s') = proc_bitmap (k_env s)"

lemma fd_tables_other [simp]:
  "fd_tables (s\<lparr>k_vfs := v\<rparr>) = fd_tables s" "fd_tables (s\<lparr>k_pipes := q\<rparr>) = fd_tables s" "fd_tables (s\<lparr>k_pipe_at := pa\<rparr>) = fd_tables s"
  "fd_tables (s\<lparr>k_ph := ph\<rparr>) = fd_tables s" "fd_tables (s\<lparr>k_mi := m\<rparr>) = fd_tables s" "fd_tables (s\<lparr>k_mem := mem\<rparr>) = fd_tables s"
  "fd_tables (s\<lparr>k_umem := um\<rparr>) = fd_tables s"
  by (simp_all add: fd_tables_def fun_eq_iff)

lemma fd_tables_env: "procs e = procs (k_env s) \<Longrightarrow> fd_tables (s\<lparr>k_env := e\<rparr>) = fd_tables s"
  by (simp add: fd_tables_def fun_eq_iff)

lemma same_fds_refl [simp]: "same_fds s s" by (simp add: same_fds_def)

lemma same_fds_trans: "same_fds s s' \<Longrightarrow> same_fds s' s'' \<Longrightarrow> same_fds s s''" by (simp add: same_fds_def)

lemma fds_ok_same: "fds_ok D s \<Longrightarrow> same_fds s s' \<Longrightarrow> fds_ok D s'" by (simp add: fds_ok_def same_fds_def)

lemma set_proc_same:
  assumes "set_proc_k i f s = Some s'" and "\<And>p. procs (k_env s) i = Some p \<Longrightarrow> files (f p) = files p"
  shows "same_fds s s' \<and> k_vfs s' = k_vfs s"
  using assms by (auto simp: set_proc_k_def upd_proc_def option_steps same_fds_def fd_tables_def fun_eq_iff)

lemma upd_proc_tables:
  "upd_proc i f (k_env s) = Some e \<Longrightarrow> (\<And>p. files (f p) = files p) \<Longrightarrow> fd_tables (s\<lparr>k_env := e\<rparr>) = fd_tables s"
  by (auto simp: upd_proc_def option_steps fd_tables_def fun_eq_iff)

lemma user_string_same: "user_string x u s = Some (k, s') \<Longrightarrow> k_vfs s' = k_vfs s \<and> k_env s' = k_env s \<and> fd_tables s' = fd_tables s"
  by (auto simp: user_string_def option_steps)

lemma k_umemcpy_same: "k_umemcpy d sr n s = Some s' \<Longrightarrow> k_vfs s' = k_vfs s \<and> k_env s' = k_env s \<and> fd_tables s' = fd_tables s"
  by (auto simp: k_umemcpy_def option_steps)

lemma copy_local_same: "copy_local x d bs s = Some s' \<Longrightarrow> k_vfs s' = k_vfs s \<and> k_env s' = k_env s \<and> fd_tables s' = fd_tables s"
  by (auto simp: copy_local_def dest!: k_umemcpy_same)

lemma alloc_buffer_same: "alloc_buffer x n s = Some (k, s') \<Longrightarrow> k_vfs s' = k_vfs s \<and> k_env s' = k_env s \<and> fd_tables s' = fd_tables s"
  by (auto simp: alloc_buffer_def option_steps split: if_split_asm)

lemma free_buffer_same: "free_buffer x k n s = Some s' \<Longrightarrow> k_vfs s' = k_vfs s \<and> k_env s' = k_env s \<and> fd_tables s' = fd_tables s"
  by (auto simp: free_buffer_def option_steps split: if_split_asm)

lemma read_ticks_same: "read_ticks x s = Some (r, s') \<Longrightarrow> same_fds s s'"
  by (auto simp: read_ticks_def option_steps same_fds_def fd_tables_def fun_eq_iff)

lemma same_fdsI: "open_count (k_vfs s') = open_count (k_vfs s) \<Longrightarrow> k_env s' = k_env s \<Longrightarrow> same_fds s s'"
  by (simp add: same_fds_def fd_tables_def fun_eq_iff)

lemmas same_dests = user_string_same k_umemcpy_same copy_local_same alloc_buffer_same free_buffer_same

lemma sys_ticks_same: "sys_ticks x t s = Some (r, s') \<Longrightarrow> same_fds s s'"
  by (auto simp: sys_ticks_def option_steps dest!: read_ticks_same)

lemma sys_times_same: "sys_times x t s = Some (r, s') \<Longrightarrow> same_fds s s'"
  by (auto simp: sys_times_def option_steps split: if_split_asm dest!: read_ticks_same)

lemma sys_gettimeofday_same: "sys_gettimeofday x t s = Some (r, s') \<Longrightarrow> same_fds s s'"
  by (auto simp: sys_gettimeofday_def option_steps split: if_split_asm dest!: read_ticks_same copy_local_same)
    (simp add: same_fds_def)

lemma sys_fstat_same: "sys_fstat x t s = Some (r, s') \<Longrightarrow> same_fds s s'"
  by (auto simp: sys_fstat_def elim!: bind_SomeE split: if_split_asm option.split_asm dest!: copy_local_same intro!: same_fdsI)

lemma sys_ids_same: "sys_getpid x t s = Some (r, s') \<Longrightarrow> same_fds s s'" "sys_getppid x t s = Some (r, s') \<Longrightarrow> same_fds s s'"
  by (auto simp: sys_getpid_def sys_getppid_def elim!: bind_SomeE split: option.split_asm)

lemma do_brk_files: "do_brk hart ph m p a = Some (r, q, ph', m') \<Longrightarrow> files q = files p"
  by (auto simp: do_brk_def Let_def option_steps split: if_split_asm)

lemma set_proc_brk:
  assumes "set_proc_k (x_cur x) (\<lambda>_. q) s = Some s'" and "cur_proc x s = Some p" and "files q = files p"
  shows "same_fds s s' \<and> k_vfs s' = k_vfs s"
  by (rule set_proc_same [OF assms(1)]) (use assms(2,3) in \<open>auto simp: cur_proc_def\<close>)

lemma cur_proc_env [simp]: "cur_proc x (s\<lparr>k_ph := ph\<rparr>) = cur_proc x s" "cur_proc x (s\<lparr>k_mi := m\<rparr>) = cur_proc x s"
  "cur_proc x (s\<lparr>k_vfs := v\<rparr>) = cur_proc x s" "cur_proc x (s\<lparr>k_mem := mem\<rparr>) = cur_proc x s"
  by (simp_all add: cur_proc_def)

lemma sys_brk_same: "sys_brk x t s = Some (r, s') \<Longrightarrow> same_fds s s'"
  unfolding sys_brk_def
  by (auto elim!: bind_SomeE dest!: do_brk_files) (drule set_proc_brk, auto simp: same_fds_def)

lemma sys_getcwd_same: "sys_getcwd x t s = Some (r, s') \<Longrightarrow> same_fds s s'"
  unfolding sys_getcwd_def Let_def
  by (auto elim!: bind_SomeE split: if_split_asm dest!: do_brk_files k_umemcpy_same)
    (auto simp: same_fds_def dest!: set_proc_brk)

context file_drivers
begin

lemma getdents_loop_count:
  assumes "getdents_loop ve f p e v mem = Some (q, w, mem')"
  shows "open_count w = open_count v"
proof -
  have "ve = ve \<longrightarrow> open_count (fst (snd (q, w, mem'))) = open_count v"
  proof (rule getdents_loop.raw_induct [OF _ assms, where P = "\<lambda>ve' f p e v mem r. ve' = ve \<longrightarrow> open_count (fst (snd r)) = open_count v"])
    fix loop ve' f p e v mem r
    assume IH: "\<And>ve' f p e v mem r. loop ve' f p e v mem = Some r \<Longrightarrow> ve' = ve \<longrightarrow> open_count (fst (snd r)) = open_count v"
      and step: "(if p < e then do {
       y \<leftarrow> vfiles v f;
       (r, ent, v) \<leftarrow> vfs_read_dir ve' f v;
       if r < 0 then Some (p, v, mem)
       else do {
         (ino, nm) \<leftarrow> ent;
         if ROUNDUP_WITH 4 (p + 24 + of_nat (length nm)) \<ge> e then do {
           v \<leftarrow> upd_file f (\<lambda>z. z\<lparr>f_fs_data := f_fs_data y\<rparr>) v;
           Some (p, v, mem) }
         else do {
           i \<leftarrow> inodes v ino;
           loop ve' f (ROUNDUP_WITH 8 (p + 24 + of_nat (length nm))) e v (put_bytes mem (unat p) (dirent_bytes i nm)) } } }
     else Some (p, v, mem)) = Some r"
    show "ve' = ve \<longrightarrow> open_count (fst (snd r)) = open_count v"
    proof
      assume "ve' = ve"
      with step show "open_count (fst (snd r)) = open_count v"
        by (auto elim!: bind_SomeE split: if_split_asm dest!: vfs_read_dir_count upd_file_count) (drule IH, simp)
    qed
  qed
  then show ?thesis by simp
qed

end

lemma sys_read_same:
  assumes dr: "file_drivers (x_venv x)" and "sys_read x t s = Some (r, s')"
  shows "same_fds s s'"
  using assms(2)
  unfolding sys_read_def Let_def
  by (auto elim!: bind_SomeE split: if_split_asm option.split_asm dest!: file_drivers.vfs_read_count [OF dr] same_dests simp: same_fds_def)

lemma sys_write_same:
  assumes dr: "file_drivers (x_venv x)" and "sys_write x t s = Some (r, s')"
  shows "same_fds s s'"
  using assms(2)
  unfolding sys_write_def Let_def
  by (auto elim!: bind_SomeE split: if_split_asm option.split_asm dest!: file_drivers.vfs_write_count [OF dr] same_dests simp: same_fds_def)

lemma sys_lseek_same:
  assumes dr: "file_drivers (x_venv x)" and "sys_lseek x t s = Some (r, s')"
  shows "same_fds s s'"
  using assms(2)
  unfolding sys_lseek_def
  by (auto elim!: bind_SomeE split: option.split_asm dest!: file_drivers.vfs_lseek_count [OF dr] simp: same_fds_def)

lemma sys_chdir_same:
  assumes dr: "file_drivers (x_venv x)" and "sys_chdir x t s = Some (r, s')"
  shows "same_fds s s'"
  using assms(2)
  unfolding sys_chdir_def Let_def
  by (auto elim!: bind_SomeE split: if_split_asm dest!: file_drivers.get_dentry_count [OF dr] same_dests set_proc_same simp: same_fds_def)

lemma sys_mkdirat_same:
  assumes dr: "file_drivers (x_venv x)" and "sys_mkdirat x t s = Some (r, s')"
  shows "same_fds s s'"
  using assms(2)
  unfolding sys_mkdirat_def Let_def
  by (auto elim!: bind_SomeE split: if_split_asm option.split_asm dest!: file_drivers.vfs_mkdir_count [OF dr] same_dests simp: same_fds_def)

lemma sys_mount_same:
  assumes dr: "file_drivers (x_venv x)" and "sys_mount x t s = Some (r, s')"
  shows "same_fds s s'"
  using assms(2)
  unfolding sys_mount_def Let_def
  by (auto elim!: bind_SomeE split: if_split_asm option.split_asm dest!: file_drivers.vfs_mount_count [OF dr] same_dests simp: same_fds_def)

lemma sys_linkat_same:
  assumes dr: "file_drivers (x_venv x)" and "sys_linkat x t s = Some (r, s')"
  shows "same_fds s s'"
  using assms(2)
  unfolding sys_linkat_def Let_def
  by (auto elim!: bind_SomeE split: if_split_asm option.split_asm
      dest!: file_drivers.get_dentry_count [OF dr] file_drivers.get_parent_dentry_count [OF dr] file_drivers.link_inode_count [OF dr] same_dests simp: same_fds_def)

lemma sys_getdents64_same:
  assumes dr: "file_drivers (x_venv x)" and "sys_getdents64 x t s = Some (r, s')"
  shows "same_fds s s'"
  using assms(2)
  unfolding sys_getdents64_def Let_def
  by (auto elim!: bind_SomeE split: if_split_asm option.split_asm dest!: file_drivers.getdents_loop_count [OF dr] same_dests simp: same_fds_def)

lemma env_files:
  "upd_proc i f e = Some e' \<Longrightarrow> (\<And>p. files (f p) = files p) \<Longrightarrow>
    map_option files \<circ> procs e' = map_option files \<circ> procs e \<and> proc_bitmap e' = proc_bitmap e"
  "acquire_proc hart i e = Some e' \<Longrightarrow> map_option files \<circ> procs e' = map_option files \<circ> procs e \<and> proc_bitmap e' = proc_bitmap e"
  "release_proc hart i e = Some e' \<Longrightarrow> map_option files \<circ> procs e' = map_option files \<circ> procs e \<and> proc_bitmap e' = proc_bitmap e"
  by (auto simp: upd_proc_def acquire_proc_def release_proc_def option_steps fun_eq_iff)

lemma sleep_files:
  "sleep_begin hart lk i ch e = Some (l, e') \<Longrightarrow> map_option files \<circ> procs e' = map_option files \<circ> procs e \<and> proc_bitmap e' = proc_bitmap e"
  "sleep_end hart lk i e = Some (l, e') \<Longrightarrow> map_option files \<circ> procs e' = map_option files \<circ> procs e \<and> proc_bitmap e' = proc_bitmap e"
  by (auto simp: sleep_begin_def sleep_end_def elim!: bind_SomeE split: option.split_asm dest!: env_files)

lemma fd_tables_comp: "fd_tables s = map_option files \<circ> procs (k_env s)" by (simp add: fd_tables_def fun_eq_iff)

lemma ticks_round_same: "ticks_round x n st s = Some (r, s') \<Longrightarrow> same_fds s s'"
  by (auto simp: ticks_round_def Let_def same_fds_def fd_tables_comp elim!: bind_SomeE split: if_split_asm dest!: sleep_files)

lemma wait_ticks_same: "wait_ticks x n s = Some (r, s') \<Longrightarrow> same_fds s s'"
  by (auto simp: wait_ticks_def Let_def elim!: bind_SomeE dest!: ticks_round_same) (auto simp: same_fds_def fd_tables_comp)

lemma resume_ticks_same: "resume_ticks x n st s = Some (r, s') \<Longrightarrow> same_fds s s'"
  by (auto simp: resume_ticks_def elim!: bind_SomeE dest!: ticks_round_same sleep_files) (auto simp: same_fds_def fd_tables_comp)

lemma sys_nanosleep_same: "sys_nanosleep x t s = Some (r, s') \<Longrightarrow> same_fds s s'"
  by (auto simp: sys_nanosleep_def elim!: bind_SomeE split: if_split_asm dest!: wait_ticks_same k_umemcpy_same) (simp add: same_fds_def)

lemma sys_sched_yield_same: "sys_sched_yield x t s = Some (r, s') \<Longrightarrow> same_fds s s'"
  by (auto simp: sys_sched_yield_def elim!: bind_SomeE dest!: set_proc_same)

lemma sys_uname_same: "sys_uname vs x t s = Some (r, s') \<Longrightarrow> same_fds s s'"
  by (auto simp: sys_uname_def elim!: bind_SomeE dest!: copy_local_same simp: same_fds_def)

subsection \<open>Calls on descriptors\<close>

text \<open>The other processes keep their tables.\<close>

definition others_same :: "nat \<Rightarrow> kernel \<Rightarrow> kernel \<Rightarrow> bool" where
  "others_same c s s' \<longleftrightarrow> (\<forall>i. i \<noteq> c \<longrightarrow> fd_tables s' i = fd_tables s i) \<and> proc_bitmap (k_env s') = proc_bitmap (k_env s)"

lemma same_others: "same_fds s s' \<Longrightarrow> others_same c s s'" by (simp add: same_fds_def others_same_def)

lemma fd_set_tables:
  assumes "fd_set x fd f s = Some s'"
  shows "\<exists>fs. fd_tables s (x_cur x) = Some fs \<and> 0 \<le> fd \<and> nat fd < length fs \<and>
    fd_tables s' = (fd_tables s)(x_cur x \<mapsto> fs[nat fd := f]) \<and> k_vfs s' = k_vfs s \<and> proc_bitmap (k_env s') = proc_bitmap (k_env s)"
  using assms
  by (auto simp: fd_set_def cur_proc_def set_proc_k_def upd_proc_def option_steps fd_tables_def fun_eq_iff)

lemma fd_get_table:
  "fd_get p fd = Some f \<Longrightarrow> cur_proc x s = Some p \<Longrightarrow>
    fd_tables s (x_cur x) = Some (files p) \<and> 0 \<le> fd \<and> nat fd < length (files p) \<and> files p ! nat fd = f"
  by (auto simp: fd_get_def cur_proc_def fd_tables_def aget_eq_Some split: if_split_asm)

lemma free_fds_free: "free_fds p = i # js \<Longrightarrow> files p ! i = None \<and> 3 \<le> i \<and> i < MAX_FILE_OPEN"
proof -
  assume "free_fds p = i # js"
  then have "i \<in> set (free_fds p)" by simp
  then show ?thesis by (auto simp: free_fds_def)
qed

lemma sys_close_ok:
  assumes dr: "file_drivers (x_venv x)" and D: "fds_ok D s" "x_cur x \<in> D" and c: "sys_close x t s = Some (r, s')"
  shows "fds_ok D s' \<and> others_same (x_cur x) s s'"
proof -
  let ?fd = "int_arg (a0 t)"
  obtain p f where p: "cur_proc x s = Some p" "fd_get p ?fd = Some f" using c by (auto simp: sys_close_def elim!: bind_SomeE)
  note g = fd_get_table [OF p(2,1)]
  show ?thesis
  proof (cases f)
    case None
    then show ?thesis using c p D by (auto simp: sys_close_def others_same_def)
  next
    case (Some a)
    obtain n where n: "n > 0" "open_count (k_vfs s) a = Some (int n)"
      using fds_inv_slot [OF D(1) [unfolded fds_ok_def] D(2)] g Some by blast
    then obtain q w where w: "vfs_close (x_venv x) a (k_vfs s) = Some (q, w)"
      "open_count w = (open_count (k_vfs s))(a := if int n = 1 then None else Some (int n - 1))"
      using file_drivers.vfs_close_count [OF dr n(2)] by auto
    have "fd_set x ?fd None (s\<lparr>k_vfs := w\<rparr>) = Some s'" using c p Some w(1) by (auto simp: sys_close_def elim!: bind_SomeE)
    from fd_set_tables [OF this] g have s': "fd_tables s' = (fd_tables s)(x_cur x \<mapsto> (files p)[nat ?fd := None])" "k_vfs s' = w"
      "proc_bitmap (k_env s') = proc_bitmap (k_env s)" by auto
    have "fds_inv D (fd_tables s') (open_count (k_vfs s'))"
      unfolding s'(1,2) w(2) using fds_inv_release [OF D(1) [unfolded fds_ok_def] D(2)] g n(2) Some by blast
    then show ?thesis using s'(1,3) by (simp add: fds_ok_def others_same_def)
  qed
qed

text \<open>A free slot takes a reference to a file, new or already open.\<close>

lemma take_slot_ok:
  assumes D: "fds_ok D s" "x_cur x \<in> D" and t: "fd_tables s (x_cur x) = Some fs" "nat fd < length fs" "fs ! nat fd = None"
    and w: "open_count (k_vfs sa) = (open_count (k_vfs s))(a \<mapsto> (case open_count (k_vfs s) a of None \<Rightarrow> 0 | Some c \<Rightarrow> c) + 1)"
    and s': "fd_set x fd (Some a) sa = Some s'" "fd_tables sa = fd_tables s"
  shows "fds_ok D s' \<and> fd_tables s' = (fd_tables s)(x_cur x \<mapsto> fs[nat fd := Some a]) \<and> proc_bitmap (k_env s') = proc_bitmap (k_env sa)"
  using fd_set_tables [OF s'(1)] t(1) s'(2) fds_inv_take [OF D(1) [unfolded fds_ok_def] D(2) t, of a]
  by (auto simp: fds_ok_def w)

lemma fds_ok_length: "fds_ok D s \<Longrightarrow> x_cur x \<in> D \<Longrightarrow> cur_proc x s = Some p \<Longrightarrow> length (files p) = MAX_FILE_OPEN"
  by (auto simp: fds_ok_def fds_inv_def fd_tables_def cur_proc_def)

lemma cur_tables: "cur_proc x s = Some p \<Longrightarrow> fd_tables s (x_cur x) = Some (files p)"
  by (simp add: fd_tables_def cur_proc_def)

lemma take_free_ok:
  assumes D: "fds_ok D s" "x_cur x \<in> D" and p: "cur_proc x s = Some p" "free_fds p = i # js"
    and w: "open_count (k_vfs sa) = (open_count (k_vfs s))(a \<mapsto> (case open_count (k_vfs s) a of None \<Rightarrow> 0 | Some c \<Rightarrow> c) + 1)"
    and s': "fd_set x (int i) (Some a) sa = Some s'" "fd_tables sa = fd_tables s"
  shows "fds_ok D s' \<and> fd_tables s' = (fd_tables s)(x_cur x \<mapsto> (files p)[i := Some a]) \<and> proc_bitmap (k_env s') = proc_bitmap (k_env sa)"
  using take_slot_ok [OF D cur_tables [OF p(1)] _ _ w s'] free_fds_free [OF p(2)] fds_ok_length [OF D p(1)] by simp

lemma open_slot_ok:
  assumes dr: "file_drivers (x_venv x)" and D: "fds_ok D s" "x_cur x \<in> D" and p: "cur_proc x s = Some p"
    and w: "open_count (k_vfs s) f = None" "open_count w = (open_count (k_vfs s))(f \<mapsto> 1)"
    and c: "open_slot x p f (s\<lparr>k_vfs := w\<rparr>) = Some (r, s')"
  shows "fds_ok D s' \<and> others_same (x_cur x) s s'"
proof (cases "free_fds p")
  case Nil
  obtain q u where u: "vfs_close (x_venv x) f w = Some (q, u)" "open_count u = (open_count w)(f := None)"
    using file_drivers.vfs_close_count [OF dr, of w f 1] w(2) by auto
  then have "same_fds s s'" using c Nil w by (auto simp: open_slot_def same_fds_def fun_eq_iff)
  then show ?thesis using D(1) fds_ok_same same_others by blast
next
  case (Cons i js)
  have "fd_set x (int i) (Some f) (s\<lparr>k_vfs := w\<rparr>) = Some s'" using c Cons by (auto simp: open_slot_def elim!: bind_SomeE)
  from take_free_ok [OF D p Cons _ this] w show ?thesis by (simp add: others_same_def)
qed

lemma sys_open_ok:
  assumes dr: "file_drivers (x_venv x)" and D: "fds_ok D s" "x_cur x \<in> D" and c: "sys_open x t s = Some (r, s')"
  shows "fds_ok D s' \<and> others_same (x_cur x) s s'"
proof (cases "same_fds s s'")
  case True
  then show ?thesis using D(1) fds_ok_same same_others by blast
next
  case False
  then obtain p f v w sa dent where o: "open_slot x p f (sa\<lparr>k_vfs := w\<rparr>) = Some (r, s')"
    "vfs_open (x_venv x) dent (int_arg (a4 t)) v = Some (f, w)" "cur_proc x sa = Some p" "same_fds s sa" "open_count v = open_count (k_vfs sa)"
    using c unfolding sys_open_def Let_def
    by (auto elim!: bind_SomeE split: if_split_asm option.split_asm dest!: file_drivers.get_dentry_count [OF dr] user_string_same
        simp: same_fds_def)
  then show ?thesis
    using open_slot_ok [OF dr fds_ok_same [OF D(1) o(4)] D(2) o(3) _ _ o(1)] file_drivers.vfs_open_count [OF dr o(2)]
    by (auto simp: same_fds_def others_same_def)
qed

lemma fdup_count:
  assumes "vfs_fdup a v = Some (b, w)"
  shows "b = a \<and> (\<exists>c. open_count v a = Some c \<and> open_count w = (open_count v)(a \<mapsto> c + 1))"
  using assms by (auto simp: vfs_fdup_count open_count_def fun_eq_iff)

lemma sys_dup2_ok:
  assumes D: "fds_ok D s" "x_cur x \<in> D" and c: "sys_dup2 x t s = Some (r, s')"
  shows "fds_ok D s' \<and> others_same (x_cur x) s s'"
proof (cases "s' = s")
  case False
  then obtain p i js a b w where o: "fd_set x (int i) (Some b) (s\<lparr>k_vfs := w\<rparr>) = Some s'" "cur_proc x s = Some p"
    "free_fds p = i # js" "vfs_fdup a (k_vfs s) = Some (b, w)"
    using c unfolding sys_dup2_def by (auto elim!: bind_SomeE split: option.split_asm list.split_asm)
  obtain n where "b = a" "open_count (k_vfs s) a = Some n" "open_count w = (open_count (k_vfs s))(a \<mapsto> n + 1)"
    using fdup_count [OF o(4)] by blast
  then show ?thesis using take_free_ok [OF D o(2,3) _ o(1)] by (simp add: others_same_def)
qed (use D in \<open>simp add: others_same_def\<close>)

lemma sys_dup3_ok:
  assumes dr: "file_drivers (x_venv x)" and D: "fds_ok D s" "x_cur x \<in> D" and c: "sys_dup3 x t s = Some (r, s')"
  shows "fds_ok D s' \<and> others_same (x_cur x) s s'"
proof (cases "s' = s")
  case False
  let ?fd = "int_arg (a1 t)"
  obtain p a g b u w where o: "fd_set x ?fd (Some b) (s\<lparr>k_vfs := w\<rparr>) = Some s'" "vfs_fdup a u = Some (b, w)" "cur_proc x s = Some p"
    "fd_get p ?fd = Some g" "(case g of None \<Rightarrow> Some (k_vfs s) | Some b \<Rightarrow> do { (_, v) \<leftarrow> vfs_close (x_venv x) b (k_vfs s); Some v }) = Some u"
    using c False unfolding sys_dup3_def Let_def by (auto elim!: bind_SomeE split: option.split_asm)
  note g = fd_get_table [OF o(4,3)] and inv = D(1) [unfolded fds_ok_def]
  obtain n where n: "b = a" "open_count u a = Some n" "open_count w = (open_count u)(a \<mapsto> n + 1)" using fdup_count [OF o(2)] by blast
  let ?T = "(fd_tables s)(x_cur x \<mapsto> (files p)[nat ?fd := None])"
  have u: "fds_inv D ?T (open_count u)"
  proof (cases g)
    case None
    moreover from this have "?T = fd_tables s" using g by (metis fun_upd_triv list_update_id)
    ultimately show ?thesis using o(5) inv by simp
  next
    case (Some d)
    obtain m where m: "m > 0" "open_count (k_vfs s) d = Some (int m)" using fds_inv_slot [OF inv D(2)] g Some by blast
    then have ou: "open_count u = (open_count (k_vfs s))(d := if int m = 1 then None else Some (int m - 1))"
      using file_drivers.vfs_close_count [OF dr m(2)] o(5) Some by auto
    show ?thesis unfolding ou using fds_inv_release [OF inv D(2)] g m(2) Some by blast
  qed
  have "fds_inv D (?T(x_cur x \<mapsto> ((files p)[nat ?fd := None])[nat ?fd := Some a])) (open_count w)"
    using fds_inv_take [OF u D(2), of "(files p)[nat ?fd := None]" "nat ?fd" a] g n by simp
  then show ?thesis using fd_set_tables [OF o(1)] g n(1) by (auto simp: fds_ok_def others_same_def)
qed (use D in \<open>simp add: others_same_def\<close>)

subsection \<open>Pipes\<close>

definition kmalloc_fresh :: "sys_ctx \<Rightarrow> bool" where
  "kmalloc_fresh x \<longleftrightarrow> (\<forall>s. x_kmalloc x s \<noteq> 0 \<longrightarrow> vfiles (k_vfs s) (unat (x_kmalloc x s)) = None)"

lemma pipe_slot_step:
  assumes "kmalloc_fresh x" and "pipe_slot x i s = Some (a, s')"
  shows "a = 0 \<and> s' = s \<or> a \<noteq> 0 \<and> vfiles (k_vfs s) a = None \<and>
    fd_set x (int i) (Some a) (s\<lparr>k_vfs := (k_vfs s)\<lparr>vfiles := (vfiles (k_vfs s))(a \<mapsto> zero_file)\<rparr>\<rparr>) = Some s'"
  using assms(2) assms(1) [unfolded kmalloc_fresh_def, rule_format, of s]
  by (auto simp: pipe_slot_def Let_def unat_eq_0 elim!: bind_SomeE split: if_split_asm)

lemma open_count_vfiles: "open_count (v\<lparr>vfiles := f\<rparr>) = map_option f_counts \<circ> f"
  by (simp add: open_count_def fun_eq_iff)

lemma drop_slot_step:
  "drop_slot x i a s = Some s' \<Longrightarrow> \<exists>fs. fd_tables s (x_cur x) = Some fs \<and> i < length fs \<and>
    fd_tables s' = (fd_tables s)(x_cur x \<mapsto> fs[i := None]) \<and> open_count (k_vfs s') = (open_count (k_vfs s))(a := None) \<and>
    proc_bitmap (k_env s') = proc_bitmap (k_env s)"
  by (auto simp: drop_slot_def Let_def elim!: bind_SomeE dest!: fd_set_tables) (auto simp: open_count_def fun_eq_iff)

lemma pipe_create_step:
  "pipe_create x f g s = Some (r, s') \<Longrightarrow> fd_tables s' = fd_tables s \<and> open_count (k_vfs s') = (open_count (k_vfs s))(f \<mapsto> 1, g \<mapsto> 1) \<and>
    k_env s' = k_env s"
  by (auto simp: pipe_create_def Let_def upd_file_def pipe_file_def elim!: bind_SomeE split: if_split_asm)
    (auto simp: open_count_def fun_eq_iff)

text \<open>A slot taken for a pipe: the new file is there with a count of 0.\<close>

lemma pipe_slot_taken:
  assumes "kmalloc_fresh x" and "pipe_slot x i s = Some (a, s')" and "a \<noteq> 0" and "fd_tables s (x_cur x) = Some fs"
  shows "open_count (k_vfs s) a = None \<and> open_count (k_vfs s') = (open_count (k_vfs s))(a \<mapsto> 0) \<and>
    fd_tables s' = (fd_tables s)(x_cur x \<mapsto> fs[i := Some a]) \<and> proc_bitmap (k_env s') = proc_bitmap (k_env s)"
  using pipe_slot_step [OF assms(1,2)] assms(3,4)
  by (auto dest!: fd_set_tables simp: open_count_vfiles zero_file_def) (auto simp: open_count_def fun_eq_iff)

lemma drop_slot_undone:
  assumes "drop_slot x i a s = Some s'" and "fd_tables s = T(x_cur x \<mapsto> fs[i := Some a])" and "open_count (k_vfs s) = cnt(a \<mapsto> n)"
    and "T (x_cur x) = Some fs" and "fs ! i = None" and "cnt a = None"
  shows "fd_tables s' = T \<and> open_count (k_vfs s') = cnt \<and> proc_bitmap (k_env s') = proc_bitmap (k_env s)"
proof -
  have "fs[i := None] = fs" using assms(5) by (metis list_update_id)
  then show ?thesis using drop_slot_step [OF assms(1)] assms(2-6) by (auto simp: fun_eq_iff)
qed

lemma sys_pipe2_ok:
  assumes fr: "kmalloc_fresh x" and D: "fds_ok D s" "x_cur x \<in> D" and c: "sys_pipe2 x t s = Some (r, s')"
  shows "fds_ok D s' \<and> others_same (x_cur x) s s'"
proof (cases "same_fds s s'")
  case True
  then show ?thesis using D(1) fds_ok_same same_others by blast
next
  case False
  obtain p where p: "cur_proc x s = Some p" using c by (auto simp: sys_pipe2_def elim!: bind_SomeE)
  let ?fs = "files p" and ?T = "fd_tables s" and ?c = "open_count (k_vfs s)" and ?me = "x_cur x"
  note T = cur_tables [OF p] and len = fds_ok_length [OF D p]
  obtain i js where i: "free_fds p = i # js" using c p False by (auto simp: sys_pipe2_def split: list.split_asm)
  note fi = free_fds_free [OF i]
  obtain f sa where f: "pipe_slot x i s = Some (f, sa)" "f \<noteq> 0"
  proof -
    obtain f sa where "pipe_slot x i s = Some (f, sa)" using c p i by (auto simp: sys_pipe2_def elim!: bind_SomeE)
    moreover from this have "f \<noteq> 0" using c p i False pipe_slot_step [OF fr, of i s] by (auto simp: sys_pipe2_def)
    ultimately show thesis by (rule that)
  qed
  note a = pipe_slot_taken [OF fr f T]
  have undo: "same_fds s s''" if "drop_slot x i f sa = Some s''" for s''
    using drop_slot_undone [OF that, of ?T ?fs ?c 0] a T fi by (simp add: same_fds_def)
  obtain j ks where j: "js = j # ks" using c p i f False by (cases js) (auto simp: sys_pipe2_def elim!: bind_SomeE dest!: undo)
  have fj: "?fs ! j = None" "j < MAX_FILE_OPEN" "i \<noteq> j"
  proof -
    have "j \<in> set (free_fds p)" using i j by simp
    then show "?fs ! j = None" "j < MAX_FILE_OPEN" by (auto simp: free_fds_def)
    have "distinct (free_fds p)" by (simp add: free_fds_def)
    then show "i \<noteq> j" using i j by simp
  qed
  obtain g sb where g: "pipe_slot x j sa = Some (g, sb)" using c p i j f by (auto simp: sys_pipe2_def elim!: bind_SomeE)
  have g0: "g \<noteq> 0" using c p i j f g False pipe_slot_step [OF fr g] by (auto simp: sys_pipe2_def elim!: bind_SomeE dest!: undo)
  have Ta: "fd_tables sa ?me = Some (?fs[i := Some f])" using a by simp
  note b = pipe_slot_taken [OF fr g g0 Ta]
  have gf: "g \<noteq> f" "?c g = None" using a b by (auto split: if_split_asm)
  obtain rc sc where sc: "pipe_create x f g sb = Some (rc, sc)" using c p i j f g g0 by (auto simp: sys_pipe2_def elim!: bind_SomeE)
  note cr = pipe_create_step [OF sc]
  have Tc: "fd_tables sc = ?T(?me \<mapsto> (?fs[i := Some f])[j := Some g])" "open_count (k_vfs sc) = ?c(f \<mapsto> 1, g \<mapsto> 1)"
    "proc_bitmap (k_env sc) = proc_bitmap (k_env s)"
    using cr a b by (simp_all add: fun_upd_twist [of f g])
  have "rc = 0"
  proof (rule ccontr)
    assume "rc \<noteq> 0"
    then obtain s1' where d: "drop_slot x i f sc = Some s1'" "drop_slot x j g s1' = Some s'"
      using c p i j f g g0 sc by (auto simp: sys_pipe2_def elim!: bind_SomeE)
    have "?fs[j := Some g, i := None] = ?fs[j := Some g]" using fi fj(3) by (metis list_update_id nth_list_update_neq)
    then have "fd_tables s1' = ?T(?me \<mapsto> ?fs[j := Some g])" "open_count (k_vfs s1') = ?c(g \<mapsto> 1)"
      and bm: "proc_bitmap (k_env s1') = proc_bitmap (k_env s)"
      using drop_slot_step [OF d(1)] Tc fj(3) gf a by (auto simp: list_update_swap fun_eq_iff)
    from drop_slot_undone [OF d(2) this(1,2)] T fj(1) gf(2) bm have "same_fds s s'" by (simp add: same_fds_def)
    then show False using False by simp
  qed
  then have s': "fd_tables s' = fd_tables sc" "open_count (k_vfs s') = open_count (k_vfs sc)" "k_env s' = k_env sc"
    using c p i j f g g0 sc by (auto simp: sys_pipe2_def elim!: bind_SomeE dest!: copy_local_same)
  have inv: "fds_inv D (?T(?me \<mapsto> ?fs[i := Some f])) (?c(f \<mapsto> 1))"
    using fds_inv_take [OF D(1) [unfolded fds_ok_def] D(2) T, of i f] fi len a by simp
  have "fds_inv D (fd_tables s') (open_count (k_vfs s'))"
    unfolding s' Tc(1,2) using fds_inv_take [OF inv D(2), of "?fs[i := Some f]" j g] fj len gf by simp
  then show ?thesis unfolding fds_ok_def others_same_def using s' Tc by simp
qed

end
