(* ===== verification/Fd_System.thy ===== *)
theory Fd_System
  imports Fd_Table
begin

text \<open>
  Fork, exec and exit on the descriptors, and the whole system as a sequence of system calls of its
  processes: the count of an open file is always the number of descriptors that refer to it.
\<close>

subsection \<open>Process table\<close>

definition ftab :: "env \<Rightarrow> nat \<Rightarrow> nat option list option" where
  "ftab e = map_option files \<circ> procs e"

lemma fd_tables_ftab: "fd_tables s = ftab (k_env s)" by (simp add: fd_tables_comp ftab_def)

text \<open>The pids of the processes in \<open>D\<close> are marked as taken.\<close>

definition pids_ok :: "nat set \<Rightarrow> env \<Rightarrow> bool" where
  "pids_ok D e \<longleftrightarrow> length (proc_bitmap e) = 1 \<and> (\<forall>i\<in>D. i < 32 \<and> bset_view (proc_bitmap e) i)"

lemma pid_choice:
  assumes "length bm = 1" and "set_first_unset_bit bm 1 = Some (i, bm')"
  shows "i = NO_BIT \<and> bm' = bm \<or> i < 32 \<and> \<not> bset_view bm i \<and> length bm' = 1 \<and> (\<forall>j<32. bset_view bm' j = (j = i \<or> bset_view bm j))"
proof -
  have "first_clear_spec bm 1 0 i bm'" using sfub_loop_spec [of 1 bm 0] assms by (auto simp: set_first_unset_bit_def)
  then show ?thesis using assms(1) by (auto simp: first_clear_spec_def bset_size_def split: if_split_asm)
qed

lemma ftab_simps [simp]:
  "ftab (e\<lparr>links := L\<rparr>) = ftab e" "ftab (e\<lparr>proc_bitmap := bm\<rparr>) = ftab e" "ftab (e\<lparr>proc_lock := l\<rparr>) = ftab e"
  "ftab (e\<lparr>ticks_lock := l\<rparr>) = ftab e" "ftab (e\<lparr>proc_count := n\<rparr>) = ftab e"
  "ftab (e\<lparr>procs := (procs e0)(i \<mapsto> p)\<rparr>) = (ftab e0)(i \<mapsto> files p)"
  by (auto simp: ftab_def fun_eq_iff)

lemma upd_proc_ftab:
  "upd_proc i f e = Some e' \<Longrightarrow> \<exists>p. ftab e i = Some (files p) \<and> ftab e' = (ftab e)(i \<mapsto> files (f p)) \<and> proc_bitmap e' = proc_bitmap e"
  by (auto simp: upd_proc_def option_steps ftab_def)

lemma lock_proc_ftab:
  "acquire_proc hart i e = Some e' \<Longrightarrow> ftab e' = ftab e \<and> proc_bitmap e' = proc_bitmap e"
  "release_proc hart i e = Some e' \<Longrightarrow> ftab e' = ftab e \<and> proc_bitmap e' = proc_bitmap e"
  using env_files(2,3) by (auto simp: ftab_def)

lemma lock_table_ftab:
  "acquire_table hart e = Some e' \<Longrightarrow> ftab e' = ftab e \<and> proc_bitmap e' = proc_bitmap e"
  "release_table hart e = Some e' \<Longrightarrow> ftab e' = ftab e \<and> proc_bitmap e' = proc_bitmap e"
  by (auto simp: acquire_table_def release_table_def option_steps)

definition tty_files :: "proc_res \<Rightarrow> nat option list" where
  "tty_files res = (replicate MAX_FILE_OPEN None)[0 := Some (res_tty_in res), 1 := Some (res_tty_out res), 2 := Some (res_tty_out res)]"

lemma proc_alloc_ftab:
  assumes D: "pids_ok D e" and a: "proc_alloc hart res e = Some (r, e')"
  shows "(r = None \<longrightarrow> (\<forall>i\<in>D. ftab e' i = ftab e i) \<and> pids_ok D e' \<and> (res_pagedir res = 0 \<or> (\<exists>bm. set_first_unset_bit (proc_bitmap e) 1 = Some (NO_BIT, bm)))) \<and>
    (\<forall>c. r = Some c \<longrightarrow> c < 32 \<and> c \<notin> D \<and> ftab e' = (ftab e)(c \<mapsto> tty_files res) \<and> pids_ok (insert c D) e' \<and> res_pagedir res \<noteq> 0 \<and>
      (\<exists>bm. set_first_unset_bit (proc_bitmap e) 1 = Some (c, bm)))"
proof -
  note a' = a [unfolded proc_alloc_def pid_words Let_def]
  obtain ea i bm where e: "acquire_table hart e = Some ea" "set_first_unset_bit (proc_bitmap ea) 1 = Some (i, bm)"
    using a' by (auto elim!: bind_SomeE)
  note ea = lock_table_ftab(1) [OF e(1)]
  have i: "i = NO_BIT \<and> bm = proc_bitmap e \<or> i < 32 \<and> \<not> bset_view (proc_bitmap e) i \<and> length bm = 1 \<and> (\<forall>j<32. bset_view bm j = (j = i \<or> bset_view (proc_bitmap e) j))"
    using pid_choice [of "proc_bitmap e"] e(2) ea D by (simp add: pids_ok_def)
  show ?thesis
  proof (cases "i = NO_BIT")
    case True
    then have "release_table hart (ea\<lparr>proc_bitmap := bm\<rparr>) = Some e'" "r = None"
      using a' e by (auto elim!: bind_SomeE)
    then show ?thesis using lock_table_ftab(2) [of hart "ea\<lparr>proc_bitmap := bm\<rparr>" e'] ea e(2) True i D by (auto simp: pids_ok_def NO_BIT_def)
  next
    case False
    have nD: "i \<notin> D" "pids_ok (insert i D) e'" if "proc_bitmap e' = bm"
      using False i D that by (auto simp: pids_ok_def)
    have "proc_bitmap e' = bm \<and> (r = None \<longrightarrow> res_pagedir res = 0 \<and> (\<forall>j. j \<noteq> i \<longrightarrow> ftab e' j = ftab e j)) \<and>
      (\<forall>c. r = Some c \<longrightarrow> c = i \<and> res_pagedir res \<noteq> 0 \<and> ftab e' = (ftab e)(i \<mapsto> tty_files res))"
      using a' e False ea
      by (auto simp: tty_files_def zero_proc_def elim!: bind_SomeE split: if_split_asm
          dest!: upd_proc_ftab lock_proc_ftab lock_table_ftab)
    then show ?thesis using nD False i e(2) ea by (auto simp: pids_ok_def)
  qed
qed

lemma do_fork_ftab:
  assumes D: "pids_ok D e" "par \<in> D" "ftab e par = Some fs" and f: "do_fork hart res par st e = Some (r, e')"
  shows "r = - 1 \<and> (\<forall>i\<in>D. ftab e' i = ftab e i) \<and> pids_ok D e' \<and>
      (res_pagedir res = 0 \<or> (\<exists>bm. set_first_unset_bit (proc_bitmap e) 1 = Some (NO_BIT, bm))) \<or>
    (\<exists>c. r = int c \<and> c < 32 \<and> c \<notin> D \<and> ftab e' = (ftab e)(c \<mapsto> fork_files (tty_files res) fs) \<and> pids_ok (insert c D) e' \<and>
      res_pagedir res \<noteq> 0 \<and> (\<exists>bm. set_first_unset_bit (proc_bitmap e) 1 = Some (c, bm)))"
proof -
  obtain ea eb ec q where ea: "acquire_proc hart par e = Some ea" "upd_proc par (\<lambda>p. p\<lparr>status := stop_running (status p)\<rparr>) ea = Some eb"
    "proc_alloc hart res eb = Some (q, ec)"
    using f by (auto simp: do_fork_def elim!: bind_SomeE)
  have eb: "ftab eb = ftab e" "proc_bitmap eb = proc_bitmap e"
    using lock_proc_ftab(1) [OF ea(1)] upd_proc_ftab [OF ea(2)] by (auto simp: fun_upd_idem)
  then have "pids_ok D eb" using D(1) by (simp add: pids_ok_def)
  note pa = proc_alloc_ftab [OF this ea(3), unfolded eb]
  show ?thesis
  proof (cases q)
    case None
    then show ?thesis using f ea pa by (auto simp: do_fork_def)
  next
    case (Some c)
    then have c: "c < 32" "c \<notin> D" "ftab ec = (ftab e)(c \<mapsto> tty_files res)" "pids_ok (insert c D) ec" "res_pagedir res \<noteq> 0"
      "\<exists>bm. set_first_unset_bit (proc_bitmap e) 1 = Some (c, bm)" using pa by auto
    then have p: "files pp = fs" if "procs ec par = Some pp" for pp
      using D(2,3) that by (auto simp: ftab_def fun_eq_iff dest!: spec [of _ par] split: if_split_asm)
    have "r = int c \<and> ftab e' = (ftab e)(c \<mapsto> fork_files (tty_files res) fs) \<and> proc_bitmap e' = proc_bitmap ec"
      using f ea Some c(3) by (auto simp: do_fork_def fork_child_def Let_def elim!: bind_SomeE dest!: upd_proc_ftab lock_proc_ftab p)
    then show ?thesis using c by (auto simp: pids_ok_def)
  qed
qed

lemma reparent_ftab:
  assumes "reparent hart i par n e = Some e'"
  shows "ftab e' = ftab e \<and> proc_bitmap e' = proc_bitmap e"
proof (rule reparent.raw_induct [OF _ assms, where P = "\<lambda>hart i par n e e'. ftab e' = ftab e \<and> proc_bitmap e' = proc_bitmap e"])
  fix f hart i par n e e'
  assume IH: "\<And>hart i par n e e'. f hart i par n e = Some e' \<Longrightarrow> ftab e' = ftab e \<and> proc_bitmap e' = proc_bitmap e"
    and eq: "(if n = ChildrenHead i then Some e
     else case n of
       ChildLink c \<Rightarrow> do {
         e \<leftarrow> acquire_proc hart c e;
         e \<leftarrow> upd_proc c (\<lambda>p. p\<lparr>parent := Some par\<rparr>) e;
         let e = e\<lparr>links := list_add (links e) (ChildLink c) (ChildrenHead par)\<rparr>;
         e \<leftarrow> release_proc hart c e;
         f hart i par (lnext (links e) n) e }
     | _ \<Rightarrow> None) = Some e'"
  then show "ftab e' = ftab e \<and> proc_bitmap e' = proc_bitmap e"
    by (auto simp: Let_def fun_upd_idem elim!: bind_SomeE split: if_split_asm lnode.split_asm dest!: IH upd_proc_ftab lock_proc_ftab)
qed

lemma do_exit_ftab: "do_exit hart i ec e = Some e' \<Longrightarrow> ftab e' = ftab e \<and> proc_bitmap e' = proc_bitmap e"
  by (auto simp: do_exit_def fun_upd_idem wake_def elim!: bind_SomeE split: if_split_asm
      dest!: reparent_ftab upd_proc_ftab lock_proc_ftab)

subsection \<open>The files of a new process\<close>

lemma fds_inv_new:
  assumes "fds_inv D T cnt" and "c \<notin> D"
  shows "fds_inv (insert c D) (T(c \<mapsto> replicate MAX_FILE_OPEN None)) cnt"
proof -
  have "count_list (replicate n None) (Some a) = 0" for n and a :: nat by (simp add: count_list_0_iff)
  moreover have "(\<Sum>i\<in>D. case (T(c \<mapsto> fs)) i of None \<Rightarrow> 0 | Some fs \<Rightarrow> count_list fs (Some a)) = refs D T a" for fs a
    unfolding refs_def by (rule sum.cong) (use assms(2) in auto)
  ultimately show ?thesis using assms by (auto simp: fds_inv_def refs_def [of "insert c D"])
qed

lemma fds_inv_gone:
  assumes "fds_inv D (T(i \<mapsto> fs)) cnt" and "set fs \<subseteq> {None}"
  shows "fds_inv (D - {i}) T cnt"
proof -
  have z: "count_list fs (Some a) = 0" for a using assms(2) by (auto simp: count_list_0_iff)
  have "refs (D - {i}) T a = refs D (T(i \<mapsto> fs)) a" for a
  proof -
    have "(\<Sum>k\<in>D - {i}. case (T(i \<mapsto> fs)) k of None \<Rightarrow> 0 | Some fs \<Rightarrow> count_list fs (Some a)) = refs (D - {i}) T a"
      unfolding refs_def by (rule sum.cong) auto
    moreover have "finite D" using assms(1) by (simp add: fds_inv_def)
    ultimately show ?thesis using z by (cases "i \<in> D") (simp_all add: refs_def [of D] sum.remove [of D i])
  qed
  then show ?thesis using assms(1) by (auto simp: fds_inv_def split: if_split_asm)
qed

text \<open>Filling the slots \<open>ks\<close> of a table with references to files that are already open.\<close>

definition fill_slots :: "nat option list \<Rightarrow> nat list \<Rightarrow> nat option list \<Rightarrow> nat option list" where
  "fill_slots fs ks t = map (\<lambda>k. if k \<in> set ks \<and> fs ! k \<noteq> None then fs ! k else t ! k) [0..<MAX_FILE_OPEN]"

lemma dup_loop:
  assumes "fold_opt (\<lambda>f v. case f of None \<Rightarrow> Some v | Some a \<Rightarrow> do { (_, v) \<leftarrow> vfs_fdup a v; Some v }) (map ((!) fs) ks) v = Some w"
    and "fds_inv D (T(c \<mapsto> t)) (open_count v)" and "c \<in> D" and "length t = MAX_FILE_OPEN"
    and "\<forall>k\<in>set ks. k < MAX_FILE_OPEN \<and> t ! k = None" and "distinct ks"
  shows "fds_inv D (T(c \<mapsto> fill_slots fs ks t)) (open_count w)"
  using assms
proof (induction ks arbitrary: v t)
  case Nil
  have "fill_slots fs [] t = t" using Nil(4) by (simp add: fill_slots_def list_eq_iff_nth_eq)
  then show ?case using Nil by simp
next
  case (Cons k ks)
  show ?case
  proof (cases "fs ! k")
    case None
    have "fill_slots fs (k # ks) t = fill_slots fs ks t" using None by (auto simp: fill_slots_def)
    then show ?thesis using Cons None by simp
  next
    case (Some a)
    then obtain u where u: "vfs_fdup a v = Some (a, u)"
      "fold_opt (\<lambda>f v. case f of None \<Rightarrow> Some v | Some a \<Rightarrow> do { (_, v) \<leftarrow> vfs_fdup a v; Some v }) (map ((!) fs) ks) u = Some w"
      using Cons.prems(1) by (auto elim!: bind_SomeE dest: fdup_count)
    then obtain n where n: "open_count v a = Some n" "open_count u = (open_count v)(a \<mapsto> n + 1)" using fdup_count by blast
    have s: "(T(c \<mapsto> t)) c = Some t" "k < length t" "t ! k = None" using Cons.prems(4,5) by auto
    have "fds_inv D (T(c \<mapsto> t[k := Some a])) (open_count u)"
      using fds_inv_take [OF Cons.prems(2,3) s, of a] n by (simp del: fun_upd_apply)
    moreover have "fill_slots fs (k # ks) t = fill_slots fs ks (t[k := Some a])"
      using Some Cons.prems(4,5,6) by (auto simp: fill_slots_def nth_list_update)
    moreover have "\<forall>j\<in>set ks. j < MAX_FILE_OPEN \<and> t[k := Some a] ! j = None" using Cons.prems(4,5,6) by (auto simp: nth_list_update)
    ultimately show ?thesis using Cons.IH [OF u(2), of "t[k := Some a]"] Cons.prems(3,4,6) by (simp del: fun_upd_apply)
  qed
qed

lemma close_loop:
  assumes dr: "file_drivers ve"
    and "fds_inv D (T(c \<mapsto> t)) (open_count v)" and "c \<in> D" and "length t = MAX_FILE_OPEN"
    and "\<forall>k\<in>set ks. k < MAX_FILE_OPEN \<and> t ! k = fs ! k" and "distinct ks"
  shows "\<exists>w. fold_opt (\<lambda>f v. case f of None \<Rightarrow> Some v | Some a \<Rightarrow> do { (_, v) \<leftarrow> vfs_close ve a v; Some v }) (map ((!) fs) ks) v = Some w \<and>
    fds_inv D (T(c \<mapsto> map (\<lambda>k. if k \<in> set ks then None else t ! k) [0..<MAX_FILE_OPEN])) (open_count w)"
  using assms(2-)
proof (induction ks arbitrary: v t)
  case Nil
  have "map (\<lambda>k. t ! k) [0..<MAX_FILE_OPEN] = t" using Nil(3) by (simp add: list_eq_iff_nth_eq)
  then show ?case using Nil by simp
next
  case (Cons k ks)
  show ?case
  proof (cases "fs ! k")
    case None
    have m: "map (\<lambda>j. if j \<in> set (k # ks) then None else t ! j) [0..<MAX_FILE_OPEN] = map (\<lambda>j. if j \<in> set ks then None else t ! j) [0..<MAX_FILE_OPEN]"
      using None Cons.prems(4) by auto
    obtain w where "fold_opt (\<lambda>f v. case f of None \<Rightarrow> Some v | Some a \<Rightarrow> do { (_, v) \<leftarrow> vfs_close ve a v; Some v }) (map ((!) fs) ks) v = Some w"
      "fds_inv D (T(c \<mapsto> map (\<lambda>k. if k \<in> set ks then None else t ! k) [0..<MAX_FILE_OPEN])) (open_count w)"
      using Cons.IH [OF Cons.prems(1-3)] Cons.prems(4,5) by (auto simp del: fun_upd_apply)
    then show ?thesis unfolding m using None by (simp del: fun_upd_apply)
  next
    case (Some a)
    have s: "(T(c \<mapsto> t)) c = Some t" "k < length t" "t ! k = Some a" using Cons.prems(3,4) Some by auto
    obtain n where n: "n > 0" "open_count v a = Some (int n)" using fds_inv_slot [OF Cons.prems(1,2) s] by blast
    then obtain q u where u: "vfs_close ve a v = Some (q, u)" "open_count u = (open_count v)(a := if int n = 1 then None else Some (int n - 1))"
      using file_drivers.vfs_close_count [OF dr n(2)] by auto
    have inv: "fds_inv D (T(c \<mapsto> t[k := None])) (open_count u)"
      unfolding u(2) using fds_inv_release [OF Cons.prems(1,2) s n(2)] by (simp only: fun_upd_upd)
    have m: "map (\<lambda>j. if j \<in> set (k # ks) then None else t ! j) [0..<MAX_FILE_OPEN] =
        map (\<lambda>j. if j \<in> set ks then None else t[k := None] ! j) [0..<MAX_FILE_OPEN]"
      using Cons.prems(3,4) by (auto simp: nth_list_update)
    have "\<forall>j\<in>set ks. j < MAX_FILE_OPEN \<and> t[k := None] ! j = fs ! j" using Cons.prems(3,4,5) by (auto simp: nth_list_update)
    then show ?thesis unfolding m using Cons.IH [OF inv Cons.prems(2)] Cons.prems(3,5) Some u(1) by (simp del: fun_upd_apply)
  qed
qed

subsection \<open>Fork and exit\<close>

lemma proc_resources_count:
  assumes dr: "file_drivers (x_venv x)" and p: "proc_resources x s = Some (res, s')"
  shows "k_env s' = k_env s \<and> (res_pagedir res = 0 \<longrightarrow> open_count (k_vfs s') = open_count (k_vfs s)) \<and>
    (res_pagedir res \<noteq> 0 \<longrightarrow> res_tty_in res \<noteq> res_tty_out res \<and> open_count (k_vfs s) (res_tty_out res) = None \<and>
      open_count (k_vfs s) (res_tty_in res) = None \<and>
      open_count (k_vfs s') = (open_count (k_vfs s))(res_tty_out res \<mapsto> 2, res_tty_in res \<mapsto> 1))"
proof (cases "res_pagedir res = 0")
  case True
  then show ?thesis using p by (auto simp: proc_resources_def Let_def elim!: bind_SomeE split: if_split_asm)
next
  case False
  then obtain dent v fo va fi vb fe vc where o: "vfs_get_dentry (x_venv x) ''/dev/tty'' 0 (k_vfs s) = Some (dent, v)"
    "vfs_open (x_venv x) dent (uint O_WRONLY) v = Some (fo, va)" "vfs_open (x_venv x) dent (uint O_RDONLY) va = Some (fi, vb)"
    "vfs_fdup fo vb = Some (fe, vc)" "k_vfs s' = vc \<and> k_env s' = k_env s" "res_tty_in res = fi \<and> res_tty_out res = fe"
    using p by (auto simp: proc_resources_def Let_def elim!: bind_SomeE split: if_split_asm)
  have "open_count v = open_count (k_vfs s)" using file_drivers.get_dentry_count [OF dr o(1)] .
  moreover note file_drivers.vfs_open_count [OF dr o(2)] file_drivers.vfs_open_count [OF dr o(3)] fdup_count [OF o(4)]
  ultimately show ?thesis using o(5,6) False by (auto simp: fun_upd_twist split: if_split_asm)
qed

lemma tty_files_inv:
  assumes "fds_inv D T cnt" and "c \<notin> D" and "res_tty_in res \<noteq> res_tty_out res" and "cnt (res_tty_out res) = None" and "cnt (res_tty_in res) = None"
  shows "fds_inv (insert c D) (T(c \<mapsto> tty_files res)) (cnt(res_tty_out res \<mapsto> 2, res_tty_in res \<mapsto> 1))"
proof -
  let ?o = "res_tty_out res" and ?i = "res_tty_in res" and ?z = "replicate MAX_FILE_OPEN None"
  have z: "?z[k := x, 1 := y] ! j = None" if "j \<noteq> 1" "j \<noteq> k" "j < MAX_FILE_OPEN" for j k :: nat and x y :: "nat option"
    using that by (simp add: nth_list_update)
  have M: "length ?z = 128" by (simp add: MAX_FILE_OPEN_def)
  note i0 = fds_inv_new [OF assms(1,2)]
  have i1: "fds_inv (insert c D) (T(c \<mapsto> ?z[1 := Some ?o])) (cnt(?o \<mapsto> 1))"
    using fds_inv_take [OF i0, of c ?z 1 ?o] M assms(4) by (simp del: fun_upd_apply add: fun_upd_same MAX_FILE_OPEN_def)
  have i2: "fds_inv (insert c D) (T(c \<mapsto> ?z[1 := Some ?o, 0 := Some ?i])) (cnt(?o \<mapsto> 1, ?i \<mapsto> 1))"
    using fds_inv_take [OF i1, of c "?z[1 := Some ?o]" 0 ?i] M assms(3,5) by (simp del: fun_upd_apply add: fun_upd_same fun_upd_other MAX_FILE_OPEN_def)
  have "fds_inv (insert c D) (T(c \<mapsto> ?z[1 := Some ?o, 0 := Some ?i, 2 := Some ?o])) ((cnt(?o \<mapsto> 1, ?i \<mapsto> 1))(?o \<mapsto> 1 + 1))"
    using fds_inv_take [OF i2, of c "?z[1 := Some ?o, 0 := Some ?i]" 2 ?o] M assms(3)
    by (simp del: fun_upd_apply add: fun_upd_same fun_upd_other MAX_FILE_OPEN_def)
  moreover have "?z[1 := Some ?o, 0 := Some ?i, 2 := Some ?o] = tty_files res" by (simp add: tty_files_def list_update_swap)
  moreover have "(cnt(?o \<mapsto> 1, ?i \<mapsto> 1))(?o \<mapsto> 1 + 1) = cnt(?o \<mapsto> 2, ?i \<mapsto> 1)" using assms(3) by (auto simp: fun_eq_iff)
  ultimately show ?thesis by simp
qed

lemma fill_fork: "fill_slots fs [3..<MAX_FILE_OPEN] t = fork_files t fs"
  by (auto simp: fill_slots_def fork_files_def)

definition sys_inv :: "nat set \<Rightarrow> kernel \<Rightarrow> bool" where
  "sys_inv D s \<longleftrightarrow> fds_ok D s \<and> pids_ok D (k_env s)"

lemma k_do_fork_ok:
  assumes dr: "file_drivers (x_venv x)" and D: "sys_inv D s" "par \<in> D" and f: "k_do_fork x par st s = Some (r, s')"
  shows "r = - 1 \<and> sys_inv D s' \<or> (\<exists>c. r = int c \<and> c < 32 \<and> c \<notin> D \<and> sys_inv (insert c D) s')"
proof -
  have inv: "fds_inv D (fd_tables s) (open_count (k_vfs s))" and pids: "pids_ok D (k_env s)" using D(1) by (simp_all add: sys_inv_def fds_ok_def)
  obtain p res sa e where o: "procs (k_env s) par = Some p" "pid_resources x s = Some (res, sa)" "do_fork (x_hart x) res par st (k_env sa) = Some (r, e)"
    using f by (auto simp: k_do_fork_def Let_def elim!: bind_SomeE split: if_split_asm)
  obtain i bm where i: "set_first_unset_bit (proc_bitmap (k_env s)) 1 = Some (i, bm)"
    "i = NO_BIT \<and> sa = s \<or> i \<noteq> NO_BIT \<and> proc_resources x s = Some (res, sa)"
    using o(2) unfolding pid_resources_def pid_words by (auto elim!: bind_SomeE split: if_split_asm)
  have env: "k_env sa = k_env s" using i(2) proc_resources_count [OF dr] by auto
  have fs: "ftab (k_env s) par = Some (files p)" using o(1) by (simp add: ftab_def)
  from do_fork_ftab [OF pids D(2) fs o(3) [unfolded env]]
  consider (fail) "r = - 1" "\<forall>i\<in>D. ftab e i = ftab (k_env s) i" "pids_ok D e"
      "res_pagedir res = 0 \<or> (\<exists>bm. set_first_unset_bit (proc_bitmap (k_env s)) 1 = Some (NO_BIT, bm))"
    | (child) c bm' where "r = int c" "c < 32" "c \<notin> D" "ftab e = (ftab (k_env s))(c \<mapsto> fork_files (tty_files res) (files p))"
      "pids_ok (insert c D) e" "res_pagedir res \<noteq> 0" "set_first_unset_bit (proc_bitmap (k_env s)) 1 = Some (c, bm')" by blast
  then show ?thesis
  proof cases
    case fail
    note r = fail(1-3) and c = fail(4)
    have "open_count (k_vfs sa) = open_count (k_vfs s)" using c i proc_resources_count [OF dr] by auto
    moreover have "s' = sa\<lparr>k_env := e\<rparr>" using f o r(1) by (auto simp: k_do_fork_def Let_def)
    ultimately have "sys_inv D s'" using fds_inv_cong [OF inv, of "ftab e"] r by (simp add: sys_inv_def fds_ok_def fd_tables_ftab)
    then show ?thesis using r(1) by simp
  next
    case c: (child c bm')
    then have "proc_resources x s = Some (res, sa)" using i by (auto simp: NO_BIT_def)
    from proc_resources_count [OF dr this] c(6) have t: "fds_inv (insert c D) ((fd_tables s)(c \<mapsto> tty_files res)) (open_count (k_vfs sa))"
      using tty_files_inv [OF inv c(3)] by (simp del: fun_upd_apply)
    obtain w where w: "dup_files (files p) (k_vfs sa) = Some w" "k_vfs s' = w" "k_env s' = e"
      using f o c(1) by (auto simp: k_do_fork_def Let_def elim!: bind_SomeE)
    have "fds_inv (insert c D) ((fd_tables s)(c \<mapsto> fill_slots (files p) [3..<MAX_FILE_OPEN] (tty_files res))) (open_count w)"
      by (rule dup_loop [OF w(1) [unfolded dup_files_def] t]) (auto simp: tty_files_def MAX_FILE_OPEN_def nth_list_update)
    then have "sys_inv (insert c D) s'" using w c(4,5) by (simp add: sys_inv_def fds_ok_def fd_tables_ftab fill_fork del: fun_upd_apply)
    then show ?thesis using c(1-3) by blast
  qed
qed

lemma k_do_exit_ok:
  assumes dr: "file_drivers (x_venv x)" and D: "sys_inv D s" "i \<in> D" and f: "k_do_exit x i ec s = Some s'"
  shows "sys_inv (D - {i}) s'"
proof -
  have inv: "fds_inv D (fd_tables s) (open_count (k_vfs s))" and pids: "pids_ok D (k_env s)" using D(1) by (simp_all add: sys_inv_def fds_ok_def)
  obtain e p sa e' where o: "acquire_proc (x_hart x) i (k_env s) = Some e" "procs e i = Some p" "proc_free x p s = Some sa"
    "do_exit (x_hart x) i ec (k_env sa) = Some e'" "s' = sa\<lparr>k_env := e'\<rparr>"
    using f by (auto simp: k_do_exit_def elim!: bind_SomeE)
  have "ftab e i = Some (files p)" using o(2) by (simp add: ftab_def)
  then have p: "fd_tables s i = Some (files p)" using lock_proc_ftab(1) [OF o(1)] by (simp add: fd_tables_ftab)
  then have l: "length (files p) = MAX_FILE_OPEN" using inv D(2) by (auto simp: fds_inv_def)
  obtain w where w: "close_files (x_venv x) (files p) (k_vfs s) = Some w" "k_vfs sa = w" "k_env sa = k_env s"
    using o(3) by (auto simp: proc_free_def elim!: bind_SomeE)
  have "fds_inv D ((fd_tables s)(i \<mapsto> files p)) (open_count (k_vfs s))" using inv p by (simp add: fun_upd_idem del: fun_upd_apply)
  from close_loop [OF dr this D(2) l, of "[0..<MAX_FILE_OPEN]" "files p"] w(1)
  have "fds_inv D ((fd_tables s)(i \<mapsto> map (\<lambda>k. if k \<in> set [0..<MAX_FILE_OPEN] then None else files p ! k) [0..<MAX_FILE_OPEN])) (open_count w)"
    by (auto simp: close_files_def simp del: fun_upd_apply)
  from fds_inv_gone [OF this] have "fds_inv (D - {i}) (fd_tables s) (open_count w)" by auto
  then show ?thesis using o(4,5) w(2,3) pids do_exit_ftab [OF o(4)] by (auto simp: sys_inv_def fds_ok_def fd_tables_ftab pids_ok_def)
qed

subsection \<open>Exec and wait\<close>

lemma load_segment_files:
  assumes "load_segment hart reader P s = Some s'"
  shows "files (l_proc s') = files (l_proc s) \<and> (\<exists>bs. reader (l_file s) (p_offset P) (p_filesz P) = Some (bs, l_file s'))"
  using assms by (auto simp: load_segment_def segment_bounds_def Let_def elim!: bind_SomeE split: if_split_asm)

lemma load_headers_files:
  assumes "\<And>r off n bs r'. reader r off n = Some (bs, r') \<Longrightarrow> Q r \<Longrightarrow> Q r'"
  shows "load_headers hart reader ph i n s = Some s' \<Longrightarrow> Q (l_file s) \<Longrightarrow> Q (l_file s') \<and> files (l_proc s') = files (l_proc s)"
proof (induction n arbitrary: i s)
  case (Suc n)
  then obtain bs sa sb where o: "read_header reader (ph + of_nat (i * sizeof_Phdr)) sizeof_Phdr s = Some (bs, sa)"
    "(if p_type (phdr_of bs) = PT_LOAD then load_segment hart reader (phdr_of bs) sa else Some sa) = Some sb"
    "load_headers hart reader ph (Suc i) n sb = Some s'" by (auto elim!: bind_SomeE)
  have "Q (l_file sa)" "files (l_proc sa) = files (l_proc s)" using o(1) assms Suc.prems(2) by (auto simp: read_header_def elim!: bind_SomeE)
  then have "Q (l_file sb)" "files (l_proc sb) = files (l_proc s)" using o(2) assms load_segment_files [of hart reader "phdr_of bs" sa sb] by (auto split: if_split_asm)
  then show ?case using Suc.IH [OF o(3)] by simp
qed simp

lemma elf_load_files:
  assumes "\<And>r off n bs r'. reader r off n = Some (bs, r') \<Longrightarrow> Q r \<Longrightarrow> Q r'"
    and "elf_load_to_process hart reader s = Some (ok, s')" and "Q (l_file s)"
  shows "Q (l_file s') \<and> files (l_proc s') = files (l_proc s)"
proof -
  obtain bs sa where o: "read_header reader 0 sizeof_Ehdr s = Some (bs, sa)" using assms(2) by (auto simp: elf_load_to_process_def elim!: bind_SomeE)
  have "Q (l_file sa)" "files (l_proc sa) = files (l_proc s)" using o assms(1,3) by (auto simp: read_header_def elim!: bind_SomeE)
  moreover have "Q (l_file sb) \<longrightarrow> Q (l_file sc) \<and> files (l_proc sc) = files (l_proc sb)" if "load_headers hart reader k i n sb = Some sc" for k i n sb sc
    by (intro impI, rule load_headers_files [OF _ that]) (rule assms(1))
  ultimately show ?thesis using assms(2) o unfolding elf_load_to_process_def Let_def
    by (auto elim!: bind_SomeE split: if_split_asm)
qed

lemma vfs_reader_count:
  assumes dr: "file_drivers ve" and "vfs_reader ve f v off n = Some (bs, w)"
  shows "open_count w = open_count v"
  using assms(2) file_drivers.vfs_lseek_count [OF dr] file_drivers.vfs_read_count [OF dr]
  by (auto simp: vfs_reader_def elim!: bind_SomeE)

lemma k_elf_load_files:
  assumes dr: "file_drivers ve" and k: "k_elf_load x (vfs_reader ve f) v i s = Some (ok, w, s')"
  shows "open_count w = open_count v \<and> ftab (k_env s') = ftab (k_env s) \<and> proc_bitmap (k_env s') = proc_bitmap (k_env s) \<and> k_vfs s' = k_vfs s"
proof -
  obtain p l sa where o: "procs (k_env s) i = Some p"
    "elf_load_to_process (x_hart x) (vfs_reader ve f) \<lparr>l_proc = p, l_ph = k_ph s, l_mi = k_mi s, l_mem = k_mem s, l_file = v\<rparr> = Some (ok, l)"
    "set_proc_k i (\<lambda>_. l_proc l) s = Some sa" "w = l_file l" "s' = sa\<lparr>k_ph := l_ph l, k_mi := l_mi l, k_mem := l_mem l\<rparr>"
    using k by (auto simp: k_elf_load_def elim!: bind_SomeE)
  have "open_count (l_file l) = open_count v \<and> files (l_proc l) = files p"
    using elf_load_files [where Q = "\<lambda>w. open_count w = open_count v", OF _ o(2)] vfs_reader_count [OF dr] by simp
  then show ?thesis using set_proc_same [OF o(3)] o(1,4,5) by (auto simp: same_fds_def fd_tables_ftab)
qed

lemma do_execve_same:
  assumes dr: "file_drivers (x_venv x)" and f: "do_execve x old c path ap argv envp s = Some (r, s')" and r: "r \<noteq> - 4"
  shows "same_fds s s'"
proof -
  obtain dent v where d: "vfs_get_dentry (x_venv x) path c (k_vfs s) = Some (dent, v)" using f by (auto simp: do_execve_def elim!: bind_SomeE)
  note v = file_drivers.get_dentry_count [OF dr d]
  show ?thesis
  proof (cases "dent = 0 \<or> (\<exists>y. dentries v dent = Some y \<and> d_type y \<noteq> D_TYPE_FILE) \<or> (\<exists>w. vfs_open (x_venv x) dent 0 v = Some (0, w))")
    case True
    have "k_env s' = k_env s \<and> open_count (k_vfs s') = open_count v"
    proof (cases "dent = 0 \<or> (\<exists>y. dentries v dent = Some y \<and> d_type y \<noteq> D_TYPE_FILE)")
      case True
      then show ?thesis using f d by (auto simp: do_execve_def Let_def elim!: bind_SomeE split: if_split_asm)
    next
      case False
      then obtain w where "vfs_open (x_venv x) dent 0 v = Some (0, w)" using True by blast
      then have False by (auto simp: vfs_open_def Let_def elim!: bind_SomeE)
      then show ?thesis ..
    qed
    then show ?thesis using v by (simp add: same_fdsI)
  next
    case False
    then obtain g w e m pst k p ph' m' e' ok w' sa ph'' m'' q w'' nm sb where o:
      "vfs_open (x_venv x) dent 0 v = Some (g, w)" "acquire_proc (x_hart x) old (k_env s) = Some e"
      "release_proc (x_hart x) old e = Some e'"
      "k_elf_load x (vfs_reader (x_venv x) g) w old (s\<lparr>k_vfs := w, k_env := e, k_mi := m, k_mem := xs_mem k, k_ph := ph', k_mi := m', k_env := e'\<rparr>) = Some (ok, w', sa)"
      "vfs_close (x_venv x) g w' = Some (q, w'')"
      "set_proc_k old (exec_proc pst p k nm) (sa\<lparr>k_ph := ph'', k_mi := m'', k_vfs := w''\<rparr>) = Some s'"
      using f d r unfolding do_execve_def Let_def by (auto elim!: bind_SomeE split: if_split_asm)
    note ow = file_drivers.vfs_open_count [OF dr o(1)] and kl = k_elf_load_files [OF dr o(4)]
    have "open_count w'' = open_count v"
      using file_drivers.vfs_close_count [OF dr, of w' g 1] o(5) ow kl by (auto simp: fun_eq_iff)
    moreover have "same_fds (sa\<lparr>k_ph := ph'', k_mi := m'', k_vfs := w''\<rparr>) s'"
      using set_proc_same [OF o(6)] by (simp add: exec_proc_def)
    ultimately show ?thesis using v kl lock_proc_ftab(1) [OF o(2)] lock_proc_ftab(2) [OF o(3)] by (simp add: same_fds_def fd_tables_ftab)
  qed
qed

lemma copy_strs_same: "copy_strs x us ks n s = Some (r, s') \<Longrightarrow> k_vfs s' = k_vfs s \<and> k_env s' = k_env s"
  by (induction n arbitrary: us ks s r) (auto simp: Let_def elim!: bind_SomeE dest!: user_string_same)

lemma sys_execve_same:
  assumes dr: "file_drivers (x_venv x)" and f: "sys_execve x t s = Some (r, s')" and r: "r \<noteq> SysRet (- 4)"
  shows "same_fds s s'"
proof -
  obtain sa q path kargv argv envp c where o: "do_execve x (x_cur x) c path kargv argv envp sa = Some (q, s')" "r = SysRet (of_int q)"
    "k_vfs sa = k_vfs s" "k_env sa = k_env s"
    using f unfolding sys_execve_def Let_def
    by (auto elim!: bind_SomeE split: if_split_asm dest!: user_string_same copy_strs_same)
  have "q \<noteq> - 4" using o(2) r by auto
  then show ?thesis using do_execve_same [OF dr o(1)] o(3,4) by (simp add: same_fds_def fd_tables_ftab)
qed

lemma wait_scan_ftab: "wait_scan hart w cs e = Some (r, e') \<Longrightarrow> ftab e' = ftab e \<and> proc_bitmap e' = proc_bitmap e"
  by (induction cs arbitrary: e) (auto elim!: bind_SomeE split: if_split_asm dest!: lock_proc_ftab)

lemma do_wait_ftab:
  assumes "do_wait hart i w opt e = Some (r, e')"
  shows "\<forall>j. ftab e' j = ftab e j \<or> ftab e' j = None"
proof -
  have d: "ftab (e\<lparr>procs := (procs e0)(c := None)\<rparr>) = (ftab e0)(c := None)" for e e0 c by (auto simp: ftab_def fun_eq_iff)
  show ?thesis using assms unfolding do_wait_def Let_def
    by (auto simp: d elim!: bind_SomeE split: option.split_asm if_split_asm
        dest!: wait_scan_ftab lock_proc_ftab lock_table_ftab sleep_files [folded ftab_def])
qed

lemma wait_round_same:
  assumes "wait_round x w u opt s = Some (r, s')" and "sys_inv D s" and "\<forall>i\<in>D. procs (k_env s') i \<noteq> None" and "pids_ok D (k_env s')"
  shows "sys_inv D s'"
proof -
  obtain q e where o: "do_wait (x_hart x) (x_cur x) w opt (k_env s) = Some (q, e)" "k_env s' = e" "k_vfs s' = k_vfs s"
    using assms(1) by (auto simp: wait_round_def Let_def elim!: bind_SomeE split: wait_result.split_asm if_split_asm dest!: copy_local_same)
  have "ftab e i = ftab (k_env s) i" if "i \<in> D" for i
  proof -
    have "ftab e i \<noteq> None" using that assms(3) o(2) by (auto simp: ftab_def)
    then show ?thesis using do_wait_ftab [OF o(1)] by auto
  qed
  then show ?thesis using assms(2,4) o fds_inv_cong [of D "fd_tables s" _ "ftab e"] by (auto simp: sys_inv_def fds_ok_def fd_tables_ftab)
qed

lemma finish_same:
  assumes "finish_syscall x (r, s) = Some (r', s')"
  shows "same_fds s s' \<and> r' = r \<and> procs (k_env s') i \<noteq> None = (procs (k_env s) i \<noteq> None)"
  using assms
  by (auto simp: finish_syscall_def set_proc_k_def upd_proc_def same_fds_def fd_tables_def fun_eq_iff elim!: bind_SomeE
      split: sys_result.split_asm if_split_asm)

lemma sys_inv_same: "sys_inv D s \<Longrightarrow> same_fds s s' \<Longrightarrow> sys_inv D s'"
  by (auto simp: sys_inv_def pids_ok_def same_fds_def fds_ok_def)

lemma sys_inv_others: "sys_inv D s \<Longrightarrow> fds_ok D s' \<and> others_same c s s' \<Longrightarrow> sys_inv D s'"
  by (auto simp: sys_inv_def pids_ok_def others_same_def)

subsection \<open>The system as a sequence of calls\<close>

text \<open>The numbers of the calls that create, replace, end or collect a process.\<close>

definition process_calls :: "int set" where
  "process_calls = {93, 220, 221, 260}"

lemma table_calls:
  assumes "map_of (syscall_table version) n = Some f" and "int n \<notin> process_calls"
  shows "f \<in> {sys_ticks, sys_sleep, sys_test, sys_open, sys_close, sys_write, sys_read, sys_lseek, sys_getcwd, sys_pipe2, sys_dup2, sys_dup3,
    sys_chdir, sys_getdents64, sys_linkat, sys_unlinkat, sys_mkdirat, sys_mount, sys_fstat, sys_getppid, sys_getpid, sys_brk, sys_times,
    sys_uname version, sys_sched_yield, sys_gettimeofday, sys_nanosleep}"
  using assms by (auto simp: syscall_table_def process_calls_def split: if_split_asm)

lemma plain_call_ok:
  assumes x: "file_drivers (x_venv x)" "kmalloc_fresh x" and D: "sys_inv D s" "x_cur x \<in> D"
    and f: "map_of (syscall_table version) n = Some f" "int n \<notin> process_calls" "f x t s = Some (r, s')"
  shows "sys_inv D s'"
proof -
  have ok: "fds_ok D s" using D(1) by (simp add: sys_inv_def)
  from table_calls [OF f(1,2)] f(3) consider
      (slot) "f \<in> {sys_open, sys_close, sys_pipe2, sys_dup2, sys_dup3}"
    | (plain) "f \<in> {sys_ticks, sys_sleep, sys_test, sys_write, sys_read, sys_lseek, sys_getcwd, sys_chdir, sys_getdents64, sys_linkat, sys_unlinkat,
        sys_mkdirat, sys_mount, sys_fstat, sys_getppid, sys_getpid, sys_brk, sys_times, sys_uname version, sys_sched_yield, sys_gettimeofday, sys_nanosleep}"
    by blast
  then show ?thesis
  proof cases
    case slot
    then have "fds_ok D s' \<and> others_same (x_cur x) s s'"
      using f(3) sys_open_ok [OF x(1) ok D(2)] sys_close_ok [OF x(1) ok D(2)] sys_pipe2_ok [OF x(2) ok D(2)] sys_dup2_ok [OF ok D(2)]
        sys_dup3_ok [OF x(1) ok D(2)] by blast
    then show ?thesis by (rule sys_inv_others [OF D(1)])
  next
    case plain
    then have "same_fds s s'"
      using f(3) sys_ticks_same sys_read_same [OF x(1)] sys_write_same [OF x(1)] sys_lseek_same [OF x(1)] sys_getcwd_same sys_chdir_same [OF x(1)]
        sys_getdents64_same [OF x(1)] sys_linkat_same [OF x(1)] sys_mkdirat_same [OF x(1)] sys_mount_same [OF x(1)] sys_fstat_same sys_ids_same
        sys_brk_same sys_times_same sys_uname_same sys_sched_yield_same sys_gettimeofday_same sys_nanosleep_same wait_ticks_same
      by (auto simp: sys_test_def sys_unlinkat_def sys_sleep_def)
    then show ?thesis by (rule sys_inv_same [OF D(1)])
  qed
qed

definition ctx_ok :: "sys_ctx \<Rightarrow> nat set \<Rightarrow> bool" where
  "ctx_ok x D \<longleftrightarrow> file_drivers (x_venv x) \<and> kmalloc_fresh x \<and> x_cur x \<in> D"

text \<open>The handler of the call the current process makes.\<close>

definition handler :: "string \<Rightarrow> sys_ctx \<Rightarrow> kernel \<Rightarrow> syscall option" where
  "handler version x s = (case cur_proc x s of None \<Rightarrow> None
     | Some p \<Rightarrow> let n = int_arg (a7 (trapframe p)) in if n < 0 then None else map_of (syscall_table version) (nat n))"

definition call_number :: "sys_ctx \<Rightarrow> kernel \<Rightarrow> int" where
  "call_number x s = (case cur_proc x s of None \<Rightarrow> - 1 | Some p \<Rightarrow> int_arg (a7 (trapframe p)))"

text \<open>Runs of the system.  \<open>D\<close> are the processes that have not ended.  A process computes in user mode,
  changing its registers and its memory, or makes a system call, or a call that slept goes on.  A call
  that has no handler ends its process like \<open>exit\<close>.  What \<open>wait\<close> collects is not one of \<open>D\<close>, and
  \<open>execve\<close> finds memory for a stack.\<close>

inductive sys_run :: "string \<Rightarrow> nat set \<times> kernel \<Rightarrow> nat set \<times> kernel \<Rightarrow> bool" for version and c where
  start: "sys_run version c c"
| user: "sys_run version c (D, s) \<Longrightarrow> set_proc_k i (\<lambda>p. p\<lparr>trapframe := t, user_pc := pc\<rparr>) (s\<lparr>k_mem := mem\<rparr>) = Some s' \<Longrightarrow>
    sys_run version c (D, s')"
| call: "sys_run version c (D, s) \<Longrightarrow> ctx_ok x D \<Longrightarrow> handler version x s \<noteq> None \<Longrightarrow> call_number x s \<notin> process_calls \<Longrightarrow>
    do_syscall version x s = Some (r, s') \<Longrightarrow> sys_run version c (D, s')"
| clone: "sys_run version c (D, s) \<Longrightarrow> ctx_ok x D \<Longrightarrow> call_number x s = 220 \<Longrightarrow> do_syscall version x s = Some (r, s') \<Longrightarrow>
    sys_run version c (case r of SysYield w \<Rightarrow> insert (unat w) D | _ \<Rightarrow> D, s')"
| execve: "sys_run version c (D, s) \<Longrightarrow> ctx_ok x D \<Longrightarrow> call_number x s = 221 \<Longrightarrow> do_syscall version x s = Some (r, s') \<Longrightarrow>
    r \<noteq> SysRet (- 4) \<Longrightarrow> sys_run version c (D, s')"
| exit: "sys_run version c (D, s) \<Longrightarrow> ctx_ok x D \<Longrightarrow> call_number x s = 93 \<or> handler version x s = None \<Longrightarrow>
    do_syscall version x s = Some (r, s') \<Longrightarrow> sys_run version c (D - {x_cur x}, s')"
| wait: "sys_run version c (D, s) \<Longrightarrow> ctx_ok x D \<Longrightarrow> call_number x s = 260 \<Longrightarrow> do_syscall version x s = Some (r, s') \<Longrightarrow>
    \<forall>i\<in>D. procs (k_env s') i \<noteq> None \<Longrightarrow> pids_ok D (k_env s') \<Longrightarrow> sys_run version c (D, s')"
| resume: "sys_run version c (D, s) \<Longrightarrow> syscall_resume x w s = Some (r, s') \<Longrightarrow>
    \<forall>i\<in>D. procs (k_env s') i \<noteq> None \<Longrightarrow> pids_ok D (k_env s') \<Longrightarrow> sys_run version c (D, s')"

inductive_cases sys_runE: "sys_run version c (D, s)"

lemma syscall_split:
  assumes "do_syscall version x s = Some (r, s')" and "handler version x s = Some f"
  obtains p :: proc and sa where "f x (trapframe p) s = Some (r, sa)" "finish_syscall x (r, sa) = Some (r, s')"
proof -
  obtain p where p: "cur_proc x s = Some p" using assms(2) by (auto simp: handler_def split: option.split_asm)
  then obtain q sa where q: "f x (trapframe p) s = Some (q, sa)" "finish_syscall x (q, sa) = Some (r, s')"
    using assms by (auto simp: do_syscall_def handler_def Let_def elim!: bind_SomeE)
  have "r = q" using finish_same [OF q(2)] by simp
  then show thesis using q by (intro that [of p sa]) simp_all
qed

lemma handler_number: "call_number x s = int n \<Longrightarrow> handler version x s = map_of (syscall_table version) n"
  by (auto simp: handler_def call_number_def split: option.split_asm)

lemma process_handlers:
  "call_number x s = 220 \<Longrightarrow> handler version x s = Some sys_clone" "call_number x s = 221 \<Longrightarrow> handler version x s = Some sys_execve"
  "call_number x s = 93 \<Longrightarrow> handler version x s = Some sys_exit" "call_number x s = 260 \<Longrightarrow> handler version x s = Some sys_wait"
  using handler_number [of x s 220 version] handler_number [of x s 221 version] handler_number [of x s 93 version] handler_number [of x s 260 version]
  by (simp_all add: syscall_table_def)

lemma finish_inv: "finish_syscall x (r, sa) = Some (r, s') \<Longrightarrow> sys_inv D sa \<Longrightarrow> sys_inv D s'"
  using finish_same sys_inv_same by blast

lemma call_step:
  assumes "sys_inv D s" and "ctx_ok x D" and "handler version x s \<noteq> None" and "call_number x s \<notin> process_calls" and "do_syscall version x s = Some (r, s')"
  shows "sys_inv D s'"
proof -
  obtain f where f: "handler version x s = Some f" using assms(3) by blast
  define n where "n = nat (call_number x s)"
  have n: "call_number x s = int n" "map_of (syscall_table version) n = Some f"
    using f by (auto simp: n_def handler_def call_number_def Let_def split: option.split_asm if_split_asm)
  obtain p :: proc and sa where o: "f x (trapframe p) s = Some (r, sa)" "finish_syscall x (r, sa) = Some (r, s')" 
    by (rule syscall_split [OF assms(5) f])
  have "sys_inv D sa" using plain_call_ok [OF _ _ assms(1) _ n(2) _ o(1)] assms(2,4) n(1) by (simp add: ctx_ok_def)
  then show ?thesis by (rule finish_inv [OF o(2)])
qed

lemma clone_step:
  assumes "sys_inv D s" and "ctx_ok x D" and "call_number x s = 220" and "do_syscall version x s = Some (r, s')"
  shows "sys_inv (case r of SysYield w \<Rightarrow> insert (unat w) D | _ \<Rightarrow> D) s'"
proof -
  obtain p :: proc and sa where o: "sys_clone x (trapframe p) s = Some (r, sa)" "finish_syscall x (r, sa) = Some (r, s')"
    by (rule syscall_split [OF assms(4) process_handlers(1) [OF assms(3)]])
  obtain q where q: "k_do_fork x (x_cur x) (a1 (trapframe p)) s = Some (q, sa)" "r = (if q < 0 then SysRet (of_int q) else SysYield (of_int q))"
    using o(1) by (auto simp: sys_clone_def elim!: bind_SomeE split: if_split_asm)
  from k_do_fork_ok [OF _ assms(1) _ q(1)] assms(2)
  have "q = - 1 \<and> sys_inv D sa \<or> (\<exists>c. q = int c \<and> c < 32 \<and> c \<notin> D \<and> sys_inv (insert c D) sa)" by (simp add: ctx_ok_def)
  then have "sys_inv (case r of SysYield w \<Rightarrow> insert (unat w) D | _ \<Rightarrow> D) sa" using q(2) by (auto simp: unat_of_nat)
  then show ?thesis by (rule finish_inv [OF o(2)])
qed

lemma exit_step:
  assumes "sys_inv D s" and "ctx_ok x D" and "call_number x s = 93 \<or> handler version x s = None" and "do_syscall version x s = Some (r, s')"
  shows "sys_inv (D - {x_cur x}) s'"
proof (cases "handler version x s")
  case None
  then obtain ec where "k_do_exit x (x_cur x) ec s = Some s'"
    using assms(4) by (auto simp: do_syscall_def handler_def Let_def elim!: bind_SomeE split: if_split_asm)
  from k_do_exit_ok [OF _ assms(1) _ this] assms(2) show ?thesis by (simp add: ctx_ok_def)
next
  case (Some f)
  then have h: "handler version x s = Some sys_exit" using assms(3) process_handlers(3) [of x s version] by auto
  obtain p :: proc and sa where o: "sys_exit x (trapframe p) s = Some (r, sa)" "finish_syscall x (r, sa) = Some (r, s')"
    by (rule syscall_split [OF assms(4) h])
  obtain ec where "k_do_exit x (x_cur x) ec s = Some sa" using o(1) by (auto simp: sys_exit_def elim!: bind_SomeE)
  from k_do_exit_ok [OF _ assms(1) _ this] assms(2) show ?thesis using finish_inv [OF o(2)] by (simp add: ctx_ok_def)
qed

lemma sys_run_inv: "sys_run version c d \<Longrightarrow> sys_inv (fst c) (snd c) \<Longrightarrow> sys_inv (fst d) (snd d)"
proof (induction rule: sys_run.induct)
  case (user D s i t pc mem s')
  have "same_fds (s\<lparr>k_mem := mem\<rparr>) s'" using set_proc_same [OF user(2)] by simp
  then show ?case using user sys_inv_same [of D s s'] by (simp add: same_fds_def)
next
  case (call D s x r s')
  then show ?case using call_step by simp
next
  case (clone D s x r s')
  then show ?case using clone_step by simp
next
  case (execve D s x r s')
  obtain p :: proc and sa where o: "sys_execve x (trapframe p) s = Some (r, sa)" "finish_syscall x (r, sa) = Some (r, s')"
    by (rule syscall_split [OF execve(4) process_handlers(2) [OF execve(3)]])
  have "same_fds s sa" using sys_execve_same [OF _ o(1) execve(5)] execve(2) by (simp add: ctx_ok_def)
  then show ?case using execve(6,7) finish_inv [OF o(2)] sys_inv_same by simp
next
  case (exit D s x r s')
  then show ?case using exit_step by simp
next
  case (wait D s x r s')
  obtain p :: proc and sa where o: "sys_wait x (trapframe p) s = Some (r, sa)" "finish_syscall x (r, sa) = Some (r, s')"
    by (rule syscall_split [OF wait(4) process_handlers(4) [OF wait(3)]])
  note fin = finish_same [OF o(2)]
  have "\<forall>i\<in>D. procs (k_env sa) i \<noteq> None" "pids_ok D (k_env sa)" using wait(5,6) fin by (auto simp: same_fds_def pids_ok_def)
  then have "sys_inv D sa" using wait_round_same [OF o(1) [unfolded sys_wait_def]] wait(7,8) by simp
  then show ?case using finish_inv [OF o(2)] by simp
next
  case (resume D s x w r s')
  obtain sa where o: "(case w of WaitTicks n start \<Rightarrow> resume_ticks x n start s
      | WaitChild waitfor u_status options \<Rightarrow> resume_wait x waitfor u_status options s) = Some (r, sa)" "finish_syscall x (r, sa) = Some (r, s')"
    using resume(2) finish_same by (fastforce simp: syscall_resume_def elim!: bind_SomeE)
  note fin = finish_same [OF o(2)]
  have D: "\<forall>i\<in>D. procs (k_env sa) i \<noteq> None" "pids_ok D (k_env sa)" using resume(3,4) fin by (auto simp: same_fds_def pids_ok_def)
  have inv: "sys_inv D s" using resume(5,6) by simp
  have "sys_inv D sa"
  proof (cases w)
    case (WaitTicks n start)
    then show ?thesis using o(1) resume_ticks_same sys_inv_same [OF inv] by auto
  next
    case (WaitChild waitfor u_status options)
    then obtain sb where sb: "set_proc_k (x_cur x) (\<lambda>p. p\<lparr>waiting_chan := 0\<rparr>) s = Some sb" "wait_round x waitfor u_status options sb = Some (r, sa)"
      using o(1) by (auto simp: resume_wait_def elim!: bind_SomeE)
    have "same_fds s sb" using set_proc_same [OF sb(1)] by simp
    then show ?thesis using wait_round_same [OF sb(2) _ D] sys_inv_same [OF inv] by blast
  qed
  then show ?case using finish_inv [OF o(2)] by simp
qed simp

lemma two_slots:
  assumes "i < length xs" and "j < length xs" and "j \<noteq> i" and "xs ! i = y" and "xs ! j = y"
  shows "2 \<le> count_list xs y"
proof -
  have "card {i, j} \<le> card {k. k < length xs \<and> y = xs ! k}" using assms by (intro card_mono) auto
  then show ?thesis using assms(3) by (simp add: count_list_eq_length_filter length_filter_conv_card)
qed

subsection \<open>The console driver\<close>

text \<open>The drivers of a kernel with the console alone (\<open>kernel/dev/tty/console_sbi.c\<close>): no inode
  operations, and files that can be written and read.  Neither function computes the value it is
  declared to return; \<open>r\<close> stands for what is found in its place.  A small heap serves the files.\<close>

definition cons_file_ops :: nat where "cons_file_ops = 0x400"

definition heap_of :: "nat list \<Rightarrow> vfs \<Rightarrow> nat" where
  "heap_of as v = (case List.find (\<lambda>a. vfiles v a = None) as of None \<Rightarrow> 0 | Some a \<Rightarrow> a)"

definition console_env :: "nat list \<Rightarrow> int \<Rightarrow> vfs_env" where
  "console_env as r = \<lparr>
     inode_tab = (\<lambda>_. \<lparr>op_lookup = None, op_link = None, op_mkdir = None, op_read_dir = None\<rparr>),
     file_tab = (\<lambda>k. if k = cons_file_ops
       then \<lparr>op_read = Some (\<lambda>a off n v. Some (r, [], v)), op_write = Some (\<lambda>a bs off v. Some (r, v)), op_open = None, op_close = None\<rparr>
       else \<lparr>op_read = None, op_write = None, op_open = None, op_close = None\<rparr>),
     sb_tab = (\<lambda>_. \<lparr>op_alloc_inode = None, op_write_inode = None\<rparr>), fs_tab = (\<lambda>_. \<lparr>op_init_fs = None, op_mount = None\<rparr>),
     kalloc = heap_of as, junk = []\<rparr>"

lemma heap_of_fresh:
  assumes "0 < heap_of as v"
  shows "vfiles v (heap_of as v) = None"
proof (cases "List.find (\<lambda>a. vfiles v a = None) as")
  case (Some a)
  then have "vfiles v a = None" by (auto simp: find_Some_iff)
  then show ?thesis using Some by (simp add: heap_of_def)
qed (use assms in \<open>simp add: heap_of_def\<close>)

interpretation console: file_drivers "console_env as r" for as r
  by unfold_locales (auto simp: console_env_def heap_of_fresh split: if_split_asm)

subsection \<open>Properties\<close>


text \<open>Process 5 holds descriptor 1 alone and duplicates it.\<close>

definition dup_table :: "nat option list" where
  "dup_table = (replicate MAX_FILE_OPEN None)[1 := Some 0x40]"

definition dup_proc :: proc where
  "dup_proc = zeroed_proc\<lparr>pid := 5, files := dup_table, trapframe := zero_context\<lparr>a0 := 1, a7 := 23\<rparr>\<rparr>"

definition dup_kernel :: kernel where
  "dup_kernel = \<lparr>
     k_env = \<lparr>ticks = 0, ticks_lock = \<lparr>sl_lock = False, sl_cpu = 0\<rparr>, procs = [5 \<mapsto> dup_proc],
       links = \<lparr>lnext = (\<lambda>_. LNull), lprev = (\<lambda>_. LNull)\<rparr>, proc_count = 1, proc_bitmap = [0x20],
       proc_lock = \<lparr>sl_lock = False, sl_cpu = 0\<rparr>, sched_lock = \<lparr>sl_lock = False, sl_cpu = 0\<rparr>, last_scheduled = None\<rparr>,
     k_vfs = static_vfs\<lparr>vfiles := [0x40 \<mapsto> zero_file\<lparr>f_op := cons_file_ops, f_counts := 1\<rparr>]\<rparr>,
     k_pipes = (\<lambda>_. None), k_pipe_at = (\<lambda>_. None), k_ph = (\<lambda>_. 0), k_mi = boot_memory, k_mem = (\<lambda>_. 0), k_umem = False\<rparr>"

definition dup_ctx :: sys_ctx where
  "dup_ctx = \<lparr>x_hart = 0, x_cur = 5, x_venv = console_env [0x1000, 0x1100] 0, x_kmalloc = (\<lambda>_. 0), x_stack = 0x80300000,
     x_ticks_chan = 0x80200000, x_pipe_ops = 0x500, x_sysmaps = []\<rparr>"

lemma count_dup_table: "count_list dup_table (Some a) = (if a = 0x40 then 1 else 0)"
  by (simp add: dup_table_def count_list_update MAX_FILE_OPEN_def count_list_0_iff)

lemma dup_inv: "sys_inv {5} dup_kernel"
proof -
  have "bset_view [0x20] 5" by (simp add: bset_view_def bit_simps)
  then show ?thesis
    by (auto simp: sys_inv_def fds_ok_def fds_inv_def pids_ok_def refs_def fd_tables_def counted_def open_count_def
        dup_kernel_def dup_proc_def count_dup_table zero_file_def) (simp add: dup_table_def)
qed

lemma dup_proc_simps:
  "int_arg (a7 (trapframe dup_proc)) = 23" "int_arg (a0 (trapframe dup_proc)) = 1" "files dup_proc = dup_table"
  "dup_table ! Suc 0 = Some 0x40" "length dup_table = 128"
  "free_fds dup_proc = 3 # filter (\<lambda>i. dup_table ! i = None) [4..<128]" "cur_proc dup_ctx dup_kernel = Some dup_proc"
  by (simp_all add: int_arg_def dup_proc_def dup_table_def MAX_FILE_OPEN_def free_fds_def upt_conv_Cons cur_proc_def dup_ctx_def dup_kernel_def
      del: upt_Suc)

lemma dup_runs:
  "\<exists>s'. do_syscall ''v'' dup_ctx dup_kernel = Some (SysRet 3, s') \<and> fd_tables s' 5 = Some (dup_table[3 := Some 0x40])"
proof -
  have t: "map_of (syscall_table ''v'') 23 = Some sys_dup2" by (simp add: syscall_table_def)
  obtain w where w: "vfs_fdup 0x40 (k_vfs dup_kernel) = Some (0x40, w)"
    by (auto simp: vfs_fdup_def upd_file_def dup_kernel_def)
  define e where "e = (k_env dup_kernel)\<lparr>procs := [5 \<mapsto> dup_proc\<lparr>files := dup_table[3 := Some 0x40]\<rparr>]\<rparr>"
  have k: "procs (k_env dup_kernel) = [5 \<mapsto> dup_proc]" by (simp add: dup_kernel_def)
  have x: "x_cur dup_ctx = 5" by (simp add: dup_ctx_def)
  have "fd_set dup_ctx 3 (Some 0x40) (dup_kernel\<lparr>k_vfs := w\<rparr>) = Some (dup_kernel\<lparr>k_vfs := w, k_env := e\<rparr>)"
    by (simp add: fd_set_def dup_proc_simps set_proc_k_def upd_proc_def k x e_def)
  then have "sys_dup2 dup_ctx (trapframe dup_proc) dup_kernel = Some (SysRet 3, dup_kernel\<lparr>k_vfs := w, k_env := e\<rparr>)"
    using w by (simp add: sys_dup2_def dup_proc_simps fd_get_def)
  then show ?thesis
    using t by (simp add: do_syscall_def dup_proc_simps Let_def finish_syscall_def set_proc_k_def upd_proc_def x e_def fd_tables_def)
qed




end
