(* ===== verification/Dispatch.thy ===== *)
theory Dispatch
  imports Proc_Life Interrupt
begin

text \<open>
  The process runner at the end of \<open>kernel_main\<close> (\<open>kernel/startup/startup.c\<close>), the environment it
  starts from (\<open>init_env\<close>, \<open>kernel/startup/environment.c\<close>), and the two together with everything that
  changes the status of a process: \<open>cpu\<close> is \<open>os_env.cpus[0].proc\<close>, the process on the hart that runs
  processes (\<open>kernel_main\<close> keeps the others in an empty loop).  A process gives the hart back in
  \<open>yield\<close> (\<open>kernel/interrupt/yield.c\<close>), which switches to the runner's context, and the runner then
  clears \<open>cpu\<close>.  Writing \<open>satp\<close>, switching stacks and waiting for an interrupt have no counterpart.
\<close>

definition init_env :: env where
  "init_env = \<lparr>ticks = 0, ticks_lock = \<lparr>sl_lock = False, sl_cpu = 0\<rparr>, procs = (\<lambda>i. None),
     links = \<lparr>lnext = (\<lambda>n. LNull)(ProcsHead := ProcsHead), lprev = (\<lambda>n. LNull)(ProcsHead := ProcsHead)\<rparr>,
     proc_count = 0, proc_bitmap = [0], proc_lock = \<lparr>sl_lock = False, sl_cpu = 0\<rparr>,
     sched_lock = \<lparr>sl_lock = False, sl_cpu = 0\<rparr>, last_scheduled = None\<rparr>"

definition put_back :: "nat \<Rightarrow> nat \<Rightarrow> env \<Rightarrow> env option" where
  "put_back hart j e = do {
     e \<leftarrow> acquire_proc hart j e;
     e \<leftarrow> upd_proc j (\<lambda>p. p\<lparr>status := (status p AND NOT PROC_STATUS_RUNNING) OR PROC_STATUS_READY\<rparr>) e;
     release_proc hart j e }"

text \<open>One turn of the runner, up to the switch to the process it has found.\<close>

definition run_turn :: "nat \<Rightarrow> nat option \<Rightarrow> env \<Rightarrow> (nat option \<times> env) option" where
  "run_turn hart cpu e = do {
     (r, e) \<leftarrow> scheduler hart e;
     case r of
       None \<Rightarrow> Some (None, e)
     | Some i \<Rightarrow> do {
         p \<leftarrow> procs e i;
         kassert (sl_lock (pr_lock p));
         e \<leftarrow> (case cpu of Some j \<Rightarrow> if j \<noteq> i then put_back hart j e else Some e | None \<Rightarrow> Some e);
         e \<leftarrow> upd_proc i (\<lambda>p. p\<lparr>status := (status p AND NOT PROC_STATUS_READY) OR PROC_STATUS_RUNNING\<rparr>) e;
         e \<leftarrow> release_proc hart i e;
         Some (Some i, e) } }"

text \<open>\<open>yield\<close> and the line after \<open>return_to_cpu_process\<close> in the runner.\<close>

definition yield_to_runner :: "nat option \<Rightarrow> nat option option" where
  "yield_to_runner cpu = do { kassert (cpu \<noteq> None); Some None }"

subsection \<open>The processes that are marked as running\<close>

definition running_in :: "(nat \<Rightarrow> proc option) \<Rightarrow> nat set" where
  "running_in P = {i. \<exists>p. P i = Some p \<and> has_status p PROC_STATUS_RUNNING}"

abbreviation running :: "env \<Rightarrow> nat set" where
  "running e \<equiv> running_in (procs e)"

lemma running_bit: "has_status p PROC_STATUS_RUNNING \<longleftrightarrow> odd (status p)"
  by (simp add: has_status_def PROC_STATUS_RUNNING_def and_one_eq bit_0 odd_iff_mod_2_eq_one)

lemma running_put [simp]: "running_in (P(i \<mapsto> q)) = (if odd (status q) then insert i (running_in P) else running_in P - {i})"
  by (auto simp: running_in_def running_bit)

lemma running_gone [simp]: "running_in (P(i := None)) = running_in P - {i}"
  by (auto simp: running_in_def)

lemma running_iff: "P i = Some p \<Longrightarrow> i \<in> running_in P \<longleftrightarrow> odd (status p)"
  by (simp add: running_in_def running_bit)

lemma running_same: "P i = Some p \<Longrightarrow> odd (status q) = odd (status p) \<Longrightarrow> running_in (P(i \<mapsto> q)) = running_in P"
  by (auto simp: running_iff insert_absorb)

lemma acquire_running: "acquire_proc hart i e = Some e' \<Longrightarrow> running e' = running e"
  by (elim bind_SomeE | simp add: acquire_proc_def del: running_put | drule sym, simp add: running_same del: running_put)+

lemma release_running: "release_proc hart i e = Some e' \<Longrightarrow> running e' = running e"
  by (elim bind_SomeE | simp add: release_proc_def del: running_put | drule sym, simp add: running_same del: running_put)+

lemma acquire_table_running: "acquire_table hart e = Some e' \<Longrightarrow> running e' = running e"
  by (auto simp: acquire_table_def elim!: bind_SomeE)

lemma release_table_running: "release_table hart e = Some e' \<Longrightarrow> running e' = running e"
  by (auto simp: release_table_def elim!: bind_SomeE)

lemmas lock_running = acquire_running release_running acquire_table_running release_table_running

lemmas status_bits = even_or_iff even_and_iff PROC_STATUS_READY_def PROC_STATUS_WAITING_def PROC_STATUS_NORMAL_def PROC_STATUS_STOP_def
  PROC_STATUS_RUNNING_def

lemma wake_bit [simp]: "even (status (wake p)) = even (status p)"
  by (simp add: wake_def status_bits)

lemma wake_if_bit [simp]: "even (status (wake_if_waiting chan p)) = even (status p)"
  by (simp add: wake_if_waiting_def)

lemma stop_running_bit [simp]: "even (stop_running st)"
  by (auto simp: stop_running_def status_bits and_one_eq mod_2_eq_odd)

lemma upd_running: "upd_proc i f e = Some e' \<Longrightarrow> \<exists>p. procs e i = Some p \<and> (i \<in> running e \<longleftrightarrow> odd (status p)) \<and>
    running e' = (if odd (status (f p)) then insert i (running e) else running e - {i})"
  by (auto simp: upd_proc_def running_iff elim!: bind_SomeE)

lemma fold_opt_keep:
  "fold_opt f xs e = Some e' \<Longrightarrow> (\<And>x e e'. f x e = Some e' \<Longrightarrow> g e' = g e) \<Longrightarrow> g e' = g e"
  by (induction xs arbitrary: e) (fastforce elim!: bind_SomeE)+

lemma wakeup_one_running: "wakeup_one hart chan n e = Some e' \<Longrightarrow> running e' = running e"
  by (auto simp: wakeup_one_def split: lnode.split_asm elim!: bind_SomeE dest!: lock_running upd_running split: if_split_asm)

lemma wakeup_running: "wakeup hart chan e = Some e' \<Longrightarrow> running e' = running e"
  unfolding wakeup_def
  by (elim bind_SomeE) (simp add: lock_running fold_opt_keep [of _ _ _ _ running, OF _ wakeup_one_running])

lemma sched_visit_running: "sched_visit hart i e = Some (b, e') \<Longrightarrow> running e' = running e"
  unfolding sched_visit_def by (elim bind_SomeE) (auto split: if_split_asm elim!: bind_SomeE simp: lock_running)

lemma sched_after_running:
  assumes "sched_after hart q n e = Some y"
  shows "running (snd y) = running e"
proof (rule sched_after.raw_induct [OF _ assms, where P = "\<lambda>hart q n e x. running (snd x) = running e"])
  show "running (snd y) = running e"
    if "\<And>hart q n e y. f hart q n e = Some y \<Longrightarrow> running (snd y) = running e"
      and "(if n = ProcLink q \<or> n = ProcsHead then Some (None, e)
     else case n of
       ProcLink i \<Rightarrow> do {
         (found, e) \<leftarrow> sched_visit hart i e;
         if found then Some (Some i, e) else f hart q (lnext (links e) n) e }
     | _ \<Rightarrow> None) = Some y" for f hart q n e y
    using that(2)
    by (auto elim!: bind_SomeE split: if_split_asm lnode.split_asm) (metis that(1) sched_visit_running snd_conv)+
qed

lemma sched_before_running:
  assumes "sched_before hart n e = Some y"
  shows "running (snd y) = running e"
proof (rule sched_before.raw_induct [OF _ assms, where P = "\<lambda>hart n e x. running (snd x) = running e"])
  show "running (snd y) = running e"
    if "\<And>hart n e y. f hart n e = Some y \<Longrightarrow> running (snd y) = running e"
      and "(if n = ProcsHead then Some (None, e)
     else case n of
       ProcLink i \<Rightarrow> do {
         (found, e) \<leftarrow> sched_visit hart i e;
         if found then Some (Some i, e)
         else if last_scheduled e = Some i then Some (None, e)
         else f hart (lnext (links e) n) e }
     | _ \<Rightarrow> None) = Some y" for f hart n e y
    using that(2)
    by (auto elim!: bind_SomeE split: if_split_asm lnode.split_asm) (metis that(1) sched_visit_running snd_conv)+
qed

lemma scheduler_running: "scheduler hart e = Some (r, e') \<Longrightarrow> running e' = running e"
  by (auto simp: scheduler_def sched_pick_def elim!: bind_SomeE split: option.split_asm
      dest!: lock_running sched_after_running sched_before_running)

subsection \<open>What takes the mark away\<close>

lemma sleep_begin_running: "sleep_begin hart lk i chan e = Some (lk', e') \<Longrightarrow> running e' = running e - {i}"
  by (auto simp: sleep_begin_def status_bits elim!: bind_SomeE split: option.split_asm dest!: lock_running upd_running)

lemma sleep_end_running: "sleep_end hart lk i e = Some (lk', e') \<Longrightarrow> running e' = running e"
  by (auto simp: sleep_end_def elim!: bind_SomeE split: option.split_asm if_split_asm dest!: lock_running upd_running)

lemma timer_tick_running: "timer_tick hart chan e = Some e' \<Longrightarrow> running e' = running e"
  unfolding timer_tick_def Let_def by (elim bind_SomeE) (drule wakeup_running, simp)

lemma preempt_even [simp]: "even (status (preempt p))"
  by (simp add: preempt_def running_bit) (simp add: status_bits)

lemma timer_interrupt_running:
  assumes "timer_interrupt hart chan cpu e = Some (b, e')"
  shows "running e' = (if b then running e - set_option cpu else running e)"
proof -
  obtain e1 where 1: "running e1 = running e" and r: "(case cpu of
        None \<Rightarrow> Some (False, e1)
      | Some i \<Rightarrow> do {
          p \<leftarrow> procs e1 i;
          if has_status p PROC_STATUS_RUNNING then do {
            e \<leftarrow> acquire_proc hart i e1;
            e \<leftarrow> upd_proc i preempt e;
            e \<leftarrow> release_proc hart i e;
            Some (True, e) }
          else Some (False, e1) }) = Some (b, e')"
    using assms unfolding timer_interrupt_def by (elim bind_SomeE) (auto split: if_split_asm dest: timer_tick_running)
  show ?thesis using r
    by (cases cpu) (auto simp flip: 1 elim!: bind_SomeE split: if_split_asm dest!: lock_running upd_running)
qed

lemma proc_alloc_running:
  assumes "proc_alloc hart res e = Some (r, e')"
  shows "running e' \<subseteq> running e"
proof -
  note a = assms [unfolded proc_alloc_def pid_words Let_def]
  obtain e0 i bm where e0: "acquire_table hart e = Some e0" "set_first_unset_bit (proc_bitmap e0) 1 = Some (i, bm)"
    using a by (auto elim!: bind_SomeE)
  note e0_running = acquire_table_running [OF e0(1)]
  show ?thesis
  proof (cases "i = NO_BIT")
    case True
    then show ?thesis using a e0 by (auto simp: e0_running elim!: bind_SomeE dest!: release_table_running)
  next
    case False
    have z: "status (zero_proc i) = 0" by (simp add: zero_proc_def)
    show ?thesis
      using a False unfolding e0 Option.bind.simps prod.case
      by (auto simp: z PROC_STATUS_NORMAL_def e0_running elim!: bind_SomeE split: if_split_asm dest!: lock_running upd_running)
  qed
qed

lemma do_fork_running: "do_fork hart res i stk e = Some (r, e') \<Longrightarrow> running e' \<subseteq> running e - {i}"
  unfolding do_fork_def Let_def
  by (auto elim!: bind_SomeE split: if_split_asm option.split_asm dest!: lock_running upd_running proc_alloc_running simp: fork_child_def Let_def)
    blast+

lemma reparent_running:
  assumes "reparent hart i par n e = Some e'"
  shows "running e' = running e"
proof (rule reparent.raw_induct [OF _ assms, where P = "\<lambda>hart i par n e e'. running e' = running e"])
  show "running y = running e"
    if "\<And>hart i par n e y. f hart i par n e = Some y \<Longrightarrow> running y = running e"
      and "(if n = ChildrenHead i then Some e
     else case n of
       ChildLink c \<Rightarrow> do {
         e \<leftarrow> acquire_proc hart c e;
         e \<leftarrow> upd_proc c (\<lambda>p. p\<lparr>parent := Some par\<rparr>) e;
         let e = e\<lparr>links := list_add (links e) (ChildLink c) (ChildrenHead par)\<rparr>;
         e \<leftarrow> release_proc hart c e;
         f hart i par (lnext (links e) n) e }
     | _ \<Rightarrow> None) = Some y" for f hart i par n e y
    using that(2)
    by (auto simp: Let_def elim!: bind_SomeE split: if_split_asm lnode.split_asm dest!: that(1) lock_running upd_running)
qed

lemma do_exit_running: "do_exit hart i ec e = Some e' \<Longrightarrow> running e' = running e - {i}"
  unfolding do_exit_def
  by (auto elim!: bind_SomeE split: if_split_asm dest!: lock_running upd_running reparent_running simp: PROC_STATUS_STOP_def)

lemma wait_scan_running: "wait_scan hart w cs e = Some (r, e') \<Longrightarrow> running e' = running e"
  by (induction cs arbitrary: e) (auto elim!: bind_SomeE split: if_split_asm dest!: lock_running)

lemma do_wait_running:
  assumes "do_wait hart i w opt e = Some (r, e')"
  shows "running e' \<subseteq> (if r = WaitSleeps then running e - {i} else running e)"
proof -
  obtain e0 cs c e1 where e1: "running e0 = running e" "wait_scan hart w cs e0 = Some (c, e1)"
    and r: "(case c of
       Some c \<Rightarrow> do {
         p \<leftarrow> procs e1 c;
         let e = e1\<lparr>links := list_del LNull (links e1) (ChildLink c)\<rparr>;
         let e = e\<lparr>links := list_del LNull (links e) (ProcLink c)\<rparr>;
         let e = e\<lparr>procs := (procs e)(c := None)\<rparr>;
         e \<leftarrow> acquire_table hart e;
         bm \<leftarrow> clear_bit (proc_bitmap e) (pid p);
         e \<leftarrow> release_table hart (e\<lparr>proc_bitmap := bm\<rparr>);
         e \<leftarrow> release_proc hart i e;
         Some (Waited (pid p) (exit_status p), e) }
     | None \<Rightarrow>
         if opt = WNOHANG then Some (WaitRet 0, e1)
         else if cs = [] then do { e \<leftarrow> release_proc hart i e1; Some (WaitRet (- 1), e) }
         else do { (_, e) \<leftarrow> sleep_begin hart None i (of_nat i) e1; Some (WaitSleeps, e) }) = Some (r, e')"
    using assms unfolding do_wait_def by (elim bind_SomeE) (auto elim!: bind_SomeE dest: acquire_running)
  have "running e1 = running e" using wait_scan_running [OF e1(2)] e1(1) by simp
  then show ?thesis
    using r by (cases c) (auto simp: Let_def elim!: bind_SomeE split: if_split_asm dest!: lock_running sleep_begin_running)
qed

text \<open>The runner finds a process only when none is on the hart: it clears \<open>cpu\<close> at every return.\<close>

lemma run_turn_running:
  assumes "run_turn hart None e = Some (r, e')"
  shows "running e' = set_option r \<union> running e"
proof -
  obtain i e1 where "scheduler hart e = Some (i, e1)" using assms by (auto simp: run_turn_def elim!: bind_SomeE)
  then show ?thesis
    using assms scheduler_running [of hart e i e1]
    by (cases i) (auto simp: run_turn_def status_bits elim!: bind_SomeE dest!: release_running upd_running)
qed

subsection \<open>The hart that runs processes\<close>

text \<open>Everything that changes the status of a process, on the process the hart runs or, for wake-ups
  and the timer, on any: the turns of the runner, the timer, sleeping and waking, fork, exit, wait and
  giving the hart away.  Anything else a process does leaves every status alone (\<open>work\<close>).\<close>

inductive run_step :: "nat option \<times> env \<Rightarrow> nat option \<times> env \<Rightarrow> bool" where
  create: "proc_alloc 0 res e = Some (Some i, e1) \<Longrightarrow> upd_proc i (\<lambda>p. p\<lparr>status := status p OR PROC_STATUS_READY\<rparr>) e1 = Some e2 \<Longrightarrow>
     release_proc 0 i e2 = Some e' \<Longrightarrow> run_step (None, e) (None, e')"
| turn: "run_turn 0 None e = Some (r, e') \<Longrightarrow> run_step (None, e) (r, e')"
| timer: "timer_interrupt 0 chan cpu e = Some (False, e') \<Longrightarrow> run_step (cpu, e) (cpu, e')"
| timer_yield: "timer_interrupt 0 chan cpu e = Some (True, e') \<Longrightarrow> yield_to_runner cpu = Some cpu' \<Longrightarrow> run_step (cpu, e) (cpu', e')"
| wake_up: "wakeup 0 chan e = Some e' \<Longrightarrow> run_step (cpu, e) (cpu, e')"
| sleeps: "sleep_begin 0 lk i chan e = Some (lk', e') \<Longrightarrow> yield_to_runner (Some i) = Some cpu' \<Longrightarrow> run_step (Some i, e) (cpu', e')"
| resumes: "sleep_end 0 lk i e = Some (lk', e') \<Longrightarrow> run_step (Some i, e) (Some i, e')"
| fork_fails: "do_fork 0 res i stk e = Some (r, e') \<Longrightarrow> r < 0 \<Longrightarrow> run_step (Some i, e) (Some i, e')"
| fork: "do_fork 0 res i stk e = Some (r, e') \<Longrightarrow> 0 \<le> r \<Longrightarrow> yield_to_runner (Some i) = Some cpu' \<Longrightarrow> run_step (Some i, e) (cpu', e')"
| exits: "do_exit 0 i ec e = Some e' \<Longrightarrow> yield_to_runner (Some i) = Some cpu' \<Longrightarrow> run_step (Some i, e) (cpu', e')"
| waits: "do_wait 0 i w opt e = Some (WaitSleeps, e') \<Longrightarrow> yield_to_runner (Some i) = Some cpu' \<Longrightarrow> run_step (Some i, e) (cpu', e')"
| waited: "do_wait 0 i w opt e = Some (r, e') \<Longrightarrow> r \<noteq> WaitSleeps \<Longrightarrow> run_step (Some i, e) (Some i, e')"
| gives_way: "upd_proc i (\<lambda>p. p\<lparr>status := (status p AND NOT PROC_STATUS_RUNNING) OR PROC_STATUS_READY\<rparr>) e = Some e' \<Longrightarrow>
     yield_to_runner (Some i) = Some cpu' \<Longrightarrow> run_step (Some i, e) (cpu', e')"
| work: "upd_proc i (\<lambda>p. (f p)\<lparr>status := status p\<rparr>) e = Some e' \<Longrightarrow> run_step (Some i, e) (Some i, e')"

lemma yield_to_runner_eq [simp]: "yield_to_runner cpu = Some cpu' \<longleftrightarrow> cpu \<noteq> None \<and> cpu' = None"
  by (cases cpu) (auto simp: yield_to_runner_def)

lemma run_step_running: "run_step (cpu, e) (cpu', e') \<Longrightarrow> running e \<subseteq> set_option cpu \<Longrightarrow> running e' \<subseteq> set_option cpu'"
proof (induction "(cpu, e)" "(cpu', e')" rule: run_step.induct)
  case (turn)
  then show ?case using run_turn_running by fastforce
next
  case (waits i w opt)
  then show ?case using do_wait_running by fastforce
next
  case (waited i w opt r)
  then show ?case using do_wait_running by fastforce
qed (auto simp: status_bits split: if_split_asm dest!: release_running upd_running proc_alloc_running timer_interrupt_running
      wakeup_running sleep_begin_running sleep_end_running do_fork_running do_exit_running do_wait_running)

lemma run_reach_running: "run_step\<^sup>*\<^sup>* (None, init_env) s \<Longrightarrow> running (snd s) \<subseteq> set_option (fst s)"
proof (induction rule: rtranclp_induct)
  case base
  show ?case by (simp add: init_env_def running_in_def)
next
  case (step s s')
  then show ?case using run_step_running [of "fst s" "snd s" "fst s'" "snd s'"] by simp
qed


definition first_proc :: proc where
  "first_proc = (zero_proc 0)\<lparr>kernel_stack := 1, page_dir := 4096, status := 0x12, cwd := 1, page_csr := satp_of 4096,
     files := (replicate MAX_FILE_OPEN None)[0 := Some 5, 1 := Some 6, 2 := Some 6]\<rparr>"

definition booted_env :: env where
  "booted_env = init_env\<lparr>proc_bitmap := [1], proc_count := 1, procs := [0 \<mapsto> first_proc],
     links := own_ring (list_add (links init_env) (ProcLink 0) ProcsHead) 0\<rparr>"

lemma booted_env_reached: "run_step (None, init_env) (None, booted_env)"
proof -
  let ?res = "\<lparr>res_kstack = 1, res_pagedir = 4096, res_tty_in = 5, res_tty_out = 6, res_root = 1\<rparr>"
  let ?p = "first_proc\<lparr>pr_lock := \<lparr>sl_lock = True, sl_cpu = 0\<rparr>, status := 0x10\<rparr>"
  have "set_first_unset_bit [0] 1 = Some (0, [1])" by code_simp
  then have "proc_alloc 0 ?res init_env = Some (Some 0, booted_env\<lparr>procs := [0 \<mapsto> ?p]\<rparr>)"
    by (simp add: proc_alloc_def pid_words [simplified] acquire_table_def release_table_def acquire_proc_def upd_proc_def Let_def
        own_ring_def init_env_def booted_env_def first_proc_def lock_acquire_def lock_release_def spinlock_holding_def zero_proc_def
        PROC_STATUS_NORMAL_def NO_BIT_def)
  moreover have "upd_proc 0 (\<lambda>p. p\<lparr>status := status p OR PROC_STATUS_READY\<rparr>) (booted_env\<lparr>procs := [0 \<mapsto> ?p]\<rparr>) =
      Some (booted_env\<lparr>procs := [0 \<mapsto> ?p\<lparr>status := 0x12\<rparr>]\<rparr>)"
    by (simp add: upd_proc_def PROC_STATUS_READY_def)
  moreover have "release_proc 0 0 (booted_env\<lparr>procs := [0 \<mapsto> ?p\<lparr>status := 0x12\<rparr>]\<rparr>) = Some booted_env"
    by (simp add: release_proc_def lock_release_def spinlock_holding_def booted_env_def first_proc_def zero_proc_def init_env_def)
  ultimately show ?thesis by (rule create)
qed

lemma booted_env_turn: "\<exists>e'. run_turn 0 None booted_env = Some (Some 0, e')"
proof -
  let ?l = "\<lparr>sl_lock = True, sl_cpu = 0\<rparr>"
  have n: "lnext (links booted_env) ProcsHead = ProcLink 0"
    by (simp add: booted_env_def init_env_def own_ring_def list_add_def list_add_between_def)
  have p: "schedulable (first_proc\<lparr>pr_lock := l\<rparr>)" for l
    by (simp add: schedulable_def first_proc_def PROC_RUNNABLE_def PROC_STATUS_READY_def PROC_STATUS_NORMAL_def PROC_STATUS_RUNNING_def)
  have "scheduler 0 booted_env = Some (Some 0, booted_env\<lparr>procs := [0 \<mapsto> first_proc\<lparr>pr_lock := ?l\<rparr>], last_scheduled := Some 0\<rparr>)"
    using n p by (simp add: scheduler_def sched_pick_def sched_before.simps sched_visit_def acquire_table_def release_table_def
        acquire_proc_def lock_acquire_def lock_release_def spinlock_holding_def booted_env_def init_env_def)
      (simp add: first_proc_def zero_proc_def)
  then show ?thesis
    by (simp add: run_turn_def upd_proc_def release_proc_def lock_release_def spinlock_holding_def)
qed


end
