(* ===== verification/Disk_Setup.thy ===== *)
theory Disk_Setup
  imports Virtio_System Interrupt Fdt Bio Vfs_Props
begin

text \<open>
  How the disk comes up.  The buses the device tree named are probed (\<open>init_virtio_mmio\<close>,
  \<open>kernel/dev/virtio/virtio_mmio.c\<close>), the handlers registered for the device found there are run, the
  disk's own handler negotiates with the device and makes \<open>/dev/raw_vda\<close> (\<open>virtio_disk_setup\<close>,
  \<open>virtio_disk.c\<close>), and the block cache makes \<open>/dev/vda\<close> over it (\<open>init_buffered_io\<close>,
  \<open>kernel/dev/buffered_io.c\<close>).

  Device registers are read and written through the parameter \<open>io\<close>.  The addresses of the static
  operation tables and functions the inodes point at are the fields of \<open>disk_statics\<close>.
\<close>

definition VIRTIO_MMIO_MAGIC :: u32 where "VIRTIO_MMIO_MAGIC = 0x74726976"

definition VIRTIO_MMIO_VENDOR_QEMU :: u32 where "VIRTIO_MMIO_VENDOR_QEMU = 0x554D4551"

definition VIRTIO_DEVICE_DISK :: int where "VIRTIO_DEVICE_DISK = 2"

definition VIRTIO_MMIO_MAGIC_VALUE :: u64 where "VIRTIO_MMIO_MAGIC_VALUE = 0x000"

definition VIRTIO_MMIO_VERSION :: u64 where "VIRTIO_MMIO_VERSION = 0x004"

definition VIRTIO_MMIO_DEVICE_ID :: u64 where "VIRTIO_MMIO_DEVICE_ID = 0x008"

definition VIRTIO_MMIO_VENDOR_ID :: u64 where "VIRTIO_MMIO_VENDOR_ID = 0x00c"

definition VIRTIO_MMIO_DEVICE_FEATURES :: u64 where "VIRTIO_MMIO_DEVICE_FEATURES = 0x010"

definition VIRTIO_MMIO_DRIVER_FEATURES :: u64 where "VIRTIO_MMIO_DRIVER_FEATURES = 0x020"

definition VIRTIO_MMIO_GUEST_PAGE_SIZE :: u64 where "VIRTIO_MMIO_GUEST_PAGE_SIZE = 0x028"

definition VIRTIO_MMIO_QUEUE_SEL :: u64 where "VIRTIO_MMIO_QUEUE_SEL = 0x030"

definition VIRTIO_MMIO_QUEUE_NUM_MAX :: u64 where "VIRTIO_MMIO_QUEUE_NUM_MAX = 0x034"

definition VIRTIO_MMIO_QUEUE_NUM :: u64 where "VIRTIO_MMIO_QUEUE_NUM = 0x038"

definition VIRTIO_MMIO_QUEUE_PFN :: u64 where "VIRTIO_MMIO_QUEUE_PFN = 0x040"

definition VIRTIO_MMIO_STATUS :: u64 where "VIRTIO_MMIO_STATUS = 0x070"

definition VIRTIO_CONFIG_S_ACKNOWLEDGE :: u32 where "VIRTIO_CONFIG_S_ACKNOWLEDGE = 0x1"

definition VIRTIO_CONFIG_S_DRIVER :: u32 where "VIRTIO_CONFIG_S_DRIVER = 0x2"

definition VIRTIO_CONFIG_S_DRIVER_OK :: u32 where "VIRTIO_CONFIG_S_DRIVER_OK = 0x4"

definition VIRTIO_CONFIG_S_FEATURES_OK :: u32 where "VIRTIO_CONFIG_S_FEATURES_OK = 0x8"

definition VIRTIO_BLK_F_RO :: u32 where "VIRTIO_BLK_F_RO = push_bit 5 1"

definition VIRTIO_BLK_F_SCSI :: u32 where "VIRTIO_BLK_F_SCSI = push_bit 7 1"

definition VIRTIO_BLK_F_CONFIG_WCE :: u32 where "VIRTIO_BLK_F_CONFIG_WCE = push_bit 11 1"

definition VIRTIO_BLK_F_MQ :: u32 where "VIRTIO_BLK_F_MQ = push_bit 12 1"

definition VIRTIO_F_ANY_LAYOUT :: u32 where "VIRTIO_F_ANY_LAYOUT = push_bit 27 1"

definition VIRTIO_RING_F_INDIRECT_DESC :: u32 where "VIRTIO_RING_F_INDIRECT_DESC = push_bit 28 1"

definition VIRTIO_RING_F_EVENT_IDX :: u32 where "VIRTIO_RING_F_EVENT_IDX = push_bit 29 1"

definition PAGE_TYPE_HARDWARE :: u16 where "PAGE_TYPE_HARDWARE = 0x008"

definition DEV_VIRTIO_DISK :: u16 where "DEV_VIRTIO_DISK = 2"

definition DEV_BUFFERED_IO :: u16 where "DEV_BUFFERED_IO = 5"

record 'p setup_state =
  su_disk :: virtio_disk
  su_io :: 'p
  su_mi :: memory_info
  su_ph :: phys
  su_sysmaps :: "mem_sysmap list"
  su_irqs :: int_handlers
  su_vfs :: vfs

record disk_statics =
  disk_irq_handler :: nat
  disk_inode_ops :: nat
  disk_file_ops :: nat
  disk_rw_lba :: nat

type_synonym 'p setup_handler = "u64 \<Rightarrow> int \<Rightarrow> int \<Rightarrow> 'p setup_state \<Rightarrow> 'p setup_state option"

subsection \<open>Registering and finding devices\<close>

text \<open>\<open>nd\<close> is what \<open>kmalloc\<close> returned.  After a registration the function ends without a value.\<close>

definition virtio_register_device ::
  "nat \<Rightarrow> int \<Rightarrow> 'p setup_handler \<Rightarrow> (int \<times> 'p setup_handler) list \<Rightarrow> (int option \<times> (int \<times> 'p setup_handler) list) option" where
  "virtio_register_device nd device handler setup_handlers =
    (if list_ex (\<lambda>s. fst s = device) setup_handlers then Some (Some (- 1), setup_handlers)
     else do { kassert (nd \<noteq> 0); Some (None, (device, handler) # setup_handlers) })"

definition probe_bus :: "'p mmio \<Rightarrow> u64 \<Rightarrow> 'p \<Rightarrow> int option \<times> 'p" where
  "probe_bus io vbase p =
    (let (magic, p) = io_read io p (vbase + VIRTIO_MMIO_MAGIC_VALUE) in
     if magic \<noteq> VIRTIO_MMIO_MAGIC then (None, p)
     else let (vendor, p) = io_read io p (vbase + VIRTIO_MMIO_VENDOR_ID) in
     if vendor \<noteq> VIRTIO_MMIO_VENDOR_QEMU then (None, p)
     else let (version, p) = io_read io p (vbase + VIRTIO_MMIO_VERSION) in
     if version \<noteq> 1 then (None, p)
     else let (device, p) = io_read io p (vbase + VIRTIO_MMIO_DEVICE_ID) in (Some (sint device), p))"

fun run_setups :: "(int \<times> 'p setup_handler) list \<Rightarrow> int \<Rightarrow> u64 \<Rightarrow> int \<Rightarrow> int \<Rightarrow> 'p setup_state \<Rightarrow> 'p setup_state option" where
  "run_setups [] device vbase irq irq_parent s = Some s"
| "run_setups ((dev, handler) # hs) device vbase irq irq_parent s = do {
     s \<leftarrow> (if device = dev then handler vbase irq irq_parent s else Some s);
     run_setups hs device vbase irq irq_parent s }"

text \<open>One bus: it is mapped above \<open>HARDWARE_VBASE\<close>; a bus that cannot be mapped or does not answer as
  expected is passed over.\<close>

definition setup_bus :: "'p mmio \<Rightarrow> nat \<Rightarrow> nat \<Rightarrow> nat \<Rightarrow> (int \<times> 'p setup_handler) list \<Rightarrow> virtio_mmio_info \<Rightarrow> 'p setup_state \<Rightarrow> 'p setup_state option" where
  "setup_bus io h nd kernel_pagedir setup_handlers info s = do {
     let vbase = HARDWARE_VBASE + pa info;
     (r, sms, ph, m) \<leftarrow> mem_sysmap_add h (su_ph s) (su_mi s) kernel_pagedir (su_sysmaps s) nd vbase (pa info) (bus_size info) PTE_TYPE_RW;
     let s = s\<lparr>su_sysmaps := sms, su_ph := ph, su_mi := m\<rparr>;
     if r \<noteq> 0 then Some s
     else (case probe_bus io vbase (su_io s) of
         (None, p) \<Rightarrow> Some (s\<lparr>su_io := p\<rparr>)
       | (Some device, p) \<Rightarrow>
           if device = 0 then Some (s\<lparr>su_io := p\<rparr>)
           else run_setups setup_handlers device vbase (uint (interrupt info)) (uint (interrupt_parent info)) (s\<lparr>su_io := p\<rparr>)) }"

definition init_virtio_mmio :: "'p mmio \<Rightarrow> nat \<Rightarrow> nat \<Rightarrow> nat \<Rightarrow> (int \<times> 'p setup_handler) list \<Rightarrow> virtio_mmio_info list \<Rightarrow> 'p setup_state \<Rightarrow>
    (int \<times> 'p setup_state) option" where
  "init_virtio_mmio io h nd kernel_pagedir setup_handlers buses s = do {
     s \<leftarrow> fold_opt (setup_bus io h nd kernel_pagedir setup_handlers) buses s;
     Some (0, s) }"

subsection \<open>Setting up the disk\<close>

definition or_status :: "'p mmio \<Rightarrow> u64 \<Rightarrow> u32 \<Rightarrow> 'p \<Rightarrow> 'p" where
  "or_status io ioaddr bits p =
    (let (st, p) = io_read io p (ioaddr + VIRTIO_MMIO_STATUS) in io_write io p (ioaddr + VIRTIO_MMIO_STATUS) (st OR bits))"

definition driver_features :: "u32 \<Rightarrow> u32" where
  "driver_features features = features AND NOT (VIRTIO_BLK_F_RO OR VIRTIO_BLK_F_SCSI OR VIRTIO_BLK_F_MQ OR
     VIRTIO_BLK_F_CONFIG_WCE OR VIRTIO_F_ANY_LAYOUT OR VIRTIO_RING_F_EVENT_IDX OR VIRTIO_RING_F_INDIRECT_DESC)"

text \<open>From the first status write to reading the size of the queue.\<close>

definition negotiate :: "'p mmio \<Rightarrow> u64 \<Rightarrow> 'p \<Rightarrow> u32 \<times> 'p" where
  "negotiate io ioaddr p =
    (let p = or_status io ioaddr (VIRTIO_CONFIG_S_ACKNOWLEDGE OR VIRTIO_CONFIG_S_DRIVER) p;
         (features, p) = io_read io p (ioaddr + VIRTIO_MMIO_DEVICE_FEATURES);
         p = io_write io p (ioaddr + VIRTIO_MMIO_DRIVER_FEATURES) (driver_features features);
         p = or_status io ioaddr VIRTIO_CONFIG_S_FEATURES_OK p;
         p = io_write io p (ioaddr + VIRTIO_MMIO_GUEST_PAGE_SIZE) 4096;
         p = io_write io p (ioaddr + VIRTIO_MMIO_QUEUE_SEL) 0
     in io_read io p (ioaddr + VIRTIO_MMIO_QUEUE_NUM_MAX))"

text \<open>\<open>sizeof(virtio_mmio_ring_t)\<close>: the used ring starts a page of its own.\<close>

definition io_ring_size :: u64 where "io_ring_size = PG_ROUNDUP 8192"

definition link_raw_disk :: "vfs_env \<Rightarrow> disk_statics \<Rightarrow> vfs \<Rightarrow> vfs option" where
  "link_raw_disk e st v = do {
     (ino, v) \<leftarrow> vfs_alloc_inode e 0 v;
     v \<leftarrow> upd_inode ino (\<lambda>i. i\<lparr>i_f_op := disk_file_ops st, i_op := disk_inode_ops st, i_dev := (DEV_VIRTIO_DISK, 1),
            i_fs_data := disk_rw_lba st\<rparr>) v;
     (par, v) \<leftarrow> vfs_get_dentry e ''/dev'' 0 v;
     (_, v) \<leftarrow> vfs_link_inode e ino par ''raw_vda'' v;
     Some v }"

text \<open>The driver's state is cleared; a null ring is cleared without a check, which faults.  A ring that
  has not been allocated is shown as a cleared one.\<close>

definition virtio_disk_setup :: "'p mmio \<Rightarrow> bool \<Rightarrow> nat \<Rightarrow> vfs_env \<Rightarrow> disk_statics \<Rightarrow> 'p setup_handler" where
  "virtio_disk_setup io soft h e st ioaddr irq irq_parent s =
    (if initialized (su_disk s) then Some s
     else do {
       let d = \<lparr>io_addr = 0, initialized = True, queue = zero_queue,
                trace = replicate 8 \<lparr>tr_addr = 0, tr_size = 0, tr_status = 0, tr_ok = 0\<rparr>, vd_lock = \<lparr>sl_lock = False, sl_cpu = 0\<rparr>\<rparr>;
       l \<leftarrow> lock_acquire h (vd_lock d);
       let d = d\<lparr>vd_lock := l, io_addr := ioaddr\<rparr>;
       let (max_num, p) = negotiate io ioaddr (su_io s);
       if max_num = 0 \<or> max_num < of_nat VIRTIO_MMIO_QUEUE_NUM_VALUE then do {
         l \<leftarrow> lock_release h (vd_lock d);
         Some (s\<lparr>su_disk := d\<lparr>initialized := False, vd_lock := l\<rparr>, su_io := p\<rparr>) }
       else do {
         let p = io_write io p (ioaddr + VIRTIO_MMIO_QUEUE_NUM) (of_nat VIRTIO_MMIO_QUEUE_NUM_VALUE);
         (ring, m) \<leftarrow> page_alloc h (su_mi s) (io_ring_size div 4096) PAGE_TYPE_HARDWARE;
         kassert (ring \<noteq> 0);
         let p = io_write io p (ioaddr + VIRTIO_MMIO_QUEUE_PFN) (ucast (drop_bit 12 (of_nat ring :: u64)));
         (r, irqs) \<leftarrow> interrupt_try_reg irq (disk_irq_handler st) (su_irqs s);
         kassert (r = 0);
         let p = plic_register_irq io soft (nat irq) p;
         let p = or_status io ioaddr VIRTIO_CONFIG_S_DRIVER_OK p;
         v \<leftarrow> link_raw_disk e st (su_vfs s);
         l \<leftarrow> lock_release h (vd_lock d);
         Some (s\<lparr>su_disk := d\<lparr>vd_lock := l\<rparr>, su_io := p, su_mi := m, su_irqs := irqs, su_vfs := v\<rparr>) } })"

definition init_virtio_mmio_disk ::
  "nat \<Rightarrow> 'p setup_handler \<Rightarrow> (int \<times> 'p setup_handler) list \<Rightarrow> (int \<times> (int \<times> 'p setup_handler) list) option" where
  "init_virtio_mmio_disk nd setup setup_handlers = do {
     (_, hs) \<leftarrow> virtio_register_device nd VIRTIO_DEVICE_DISK setup setup_handlers;
     Some (0, hs) }"

subsection \<open>The device files of the block cache\<close>

text \<open>\<open>dev_rw\<close> is the table of driver functions by address, which the cache's operations only ask
  whether it is set.\<close>

record bio_setup =
  bs_cache :: bio_cache
  dev_rw :: "nat list"
  bs_vfs :: vfs

definition setup_buffered_io_for :: "vfs_env \<Rightarrow> nat \<Rightarrow> nat \<Rightarrow> nat \<Rightarrow> nat \<Rightarrow> bio_setup \<Rightarrow> bio_setup option" where
  "setup_buffered_io_for e iops fops par dent b = do {
     d \<leftarrow> dentries (bs_vfs b) dent;
     di \<leftarrow> inodes (bs_vfs b) (d_inode d);
     let rw = i_fs_data di;
     (ino, v) \<leftarrow> vfs_alloc_inode e 0 (bs_vfs b);
     let dev = snd (i_dev di);
     v \<leftarrow> upd_inode ino (\<lambda>i. i\<lparr>i_f_op := fops, i_op := iops, i_fs_data := rw, i_dev := (DEV_BUFFERED_IO, dev)\<rparr>) v;
     old \<leftarrow> aget (dev_rw b) (unat dev);
     kassert (old = 0 \<or> old = rw);
     tab \<leftarrow> aset (dev_rw b) (unat dev) rw;
     (_, v) \<leftarrow> vfs_link_inode e ino par (drop 4 (d_name d)) v;
     Some \<lparr>bs_cache = (bs_cache b)\<lparr>bc_dev_rw := (bc_dev_rw (bs_cache b))(dev := rw \<noteq> 0)\<rparr>, dev_rw = tab, bs_vfs = v\<rparr> }"

text \<open>A new entry goes to the front of the directory, behind the place the loop has reached, so the
  loop is over the entries there were.\<close>

definition setup_entry :: "vfs_env \<Rightarrow> nat \<Rightarrow> nat \<Rightarrow> nat \<Rightarrow> nat \<Rightarrow> bio_setup \<Rightarrow> bio_setup option" where
  "setup_entry e iops fops devs dent b = do {
     d \<leftarrow> dentries (bs_vfs b) dent;
     if take 4 (d_name d) = ''raw_'' then setup_buffered_io_for e iops fops devs dent b else Some b }"

definition init_buffered_io :: "vfs_env \<Rightarrow> nat \<Rightarrow> nat \<Rightarrow> bio_setup \<Rightarrow> (int \<times> bio_setup) option" where
  "init_buffered_io e iops fops b = do {
     let b = b\<lparr>bs_cache := bio_cache_init (bc_dev_rw (bs_cache b))\<rparr>;
     (devs, v) \<leftarrow> vfs_get_dentry e ''/dev'' 0 (bs_vfs b);
     kassert (devs \<noteq> 0);
     dd \<leftarrow> dentries v devs;
     b \<leftarrow> fold_opt (setup_entry e iops fops devs) (d_subdirs dd) (b\<lparr>bs_vfs := v\<rparr>);
     Some (0, b) }"

end
