(* ===== verification/Disk_Setup_Props.thy ===== *)
theory Disk_Setup_Props
  imports Disk_Setup
begin

text \<open>
  The disk's set-up against a device that is known only by what it answers after the writes it has
  seen: the registers are written in the order the device asks for, the driver is left in the state
  the transfers start from, and the device files appear.
\<close>

subsection \<open>Handlers\<close>

text \<open>A device has at most one handler, so that its set-up runs once for a bus it is found on and not at
  all for another device.\<close>

lemma register_unique:
  "virtio_register_device nd device handler hs = Some (r, hs') \<Longrightarrow> distinct (map fst hs) \<Longrightarrow> distinct (map fst hs')"
  by (auto simp: virtio_register_device_def list_ex_iff split: if_split_asm elim!: bind_SomeE)

lemma run_setups_none: "device \<notin> fst ` set hs \<Longrightarrow> run_setups hs device vbase irq irq_parent s = Some s"
  by (induction hs) auto

lemma run_setups_once:
  "distinct (map fst hs) \<Longrightarrow> (device, handler) \<in> set hs \<Longrightarrow> run_setups hs device vbase irq irq_parent s = handler vbase irq irq_parent s"
proof (induction hs arbitrary: s)
  case (Cons x hs)
  show ?case
  proof (cases "x = (device, handler)")
    case True
    then show ?thesis using Cons.prems by (cases "handler vbase irq irq_parent s") (auto simp: run_setups_none)
  next
    case False
    then have "(device, handler) \<in> set hs" using Cons.prems by simp
    then have "device \<in> set (map fst hs)" by (auto intro: rev_image_eqI)
    then have "device \<noteq> fst x" using Cons.prems(1) by (metis distinct.simps(2) list.map(2))
    then show ?thesis using Cons False by (cases x) auto
  qed
qed simp

subsection \<open>The directory of devices\<close>

definition fresh_alloc :: "vfs_env \<Rightarrow> bool" where
  "fresh_alloc e \<longleftrightarrow> (\<forall>v. finite (dom (dentries v)) \<longrightarrow> finite (dom (inodes v)) \<longrightarrow>
     kalloc e v \<noteq> 0 \<and> kalloc e v \<notin> dom (dentries v) \<and> kalloc e v \<notin> dom (inodes v))"

definition dev_dir :: "vfs \<Rightarrow> nat list \<Rightarrow> bool" where
  "dev_dir v cs \<longleftrightarrow> finite (dom (dentries v)) \<and> finite (dom (inodes v)) \<and>
     (\<exists>r d. dentries v root_dentry = Some r \<and> find_child v ''dev'' (d_subdirs r) = Some dev_dentry \<and>
        dentries v dev_dentry = Some d \<and> d_inode d \<noteq> 0 \<and> d_subdirs d = cs)"

definition device_file :: "vfs_env \<Rightarrow> vfs \<Rightarrow> string \<Rightarrow> u16 \<times> u16 \<Rightarrow> nat \<Rightarrow> nat \<Rightarrow> bool" where
  "device_file e v nm dev fops fs_data \<longleftrightarrow> (\<exists>a d i. vfs_get_dentry e (''/dev/'' @ nm) 0 v = Some (a, v) \<and> dentries v a = Some d \<and>
     inodes v (d_inode d) = Some i \<and> i_dev i = dev \<and> i_f_op i = fops \<and> i_fs_data i = fs_data \<and> i_nlinks i = 1)"

lemma fresh_allocD:
  "fresh_alloc e \<Longrightarrow> finite (dom (dentries v)) \<Longrightarrow> finite (dom (inodes v)) \<Longrightarrow>
    kalloc e v \<noteq> 0 \<and> dentries v (kalloc e v) = None \<and> inodes v (kalloc e v) = None"
  by (auto simp: fresh_alloc_def)

lemma dev_names: "good_name ''dev''" "dev_dentry \<noteq> 0" "root_dentry \<noteq> 0" "root_dentry \<noteq> dev_dentry"
  by (simp_all add: good_name_def D_NAME_LEN_def dev_dentry_def root_dentry_def)

lemma get_dev:
  assumes "dev_dir v cs"
  shows "vfs_get_dentry e ''/dev'' 0 v = Some (dev_dentry, v)"
proof -
  obtain r where r: "dentries v root_dentry = Some r" "find_child v ''dev'' (d_subdirs r) = Some dev_dentry"
    using assms by (auto simp: dev_dir_def)
  have "vfs_get_parent_dentry e ''/dev'' 0 v = Some (root_dentry, ''dev'', v)"
    using good_last [OF dev_names(1), of e root_dentry root_dentry "[]" v] by (simp add: vfs_get_parent_dentry_def)
  then show ?thesis using lookup_known [OF r] dev_names by (simp add: vfs_get_dentry_def)
qed

lemma get_device:
  assumes "dev_dir v cs" and "find_child v nm cs = Some c" and "c \<noteq> 0" and "good_name nm"
  shows "vfs_get_dentry e (''/dev/'' @ nm) 0 v = Some (c, v)"
proof -
  obtain r d where r: "dentries v root_dentry = Some r" "find_child v ''dev'' (d_subdirs r) = Some dev_dentry"
    and d: "dentries v dev_dentry = Some d" "d_subdirs d = cs" using assms(1) by (auto simp: dev_dir_def)
  obtain x xs where x: "nm = x # xs" "x \<noteq> CHR ''/''" using assms(4) by (cases nm) (auto simp: good_name_def)
  have "walk_path e root_dentry root_dentry [] [] False (''dev'' @ CHR ''/'' # x # xs) v = walk_path e root_dentry dev_dentry ''dev'' [x] False xs v"
    using walk_component [OF r dev_names(2) dev_names(1) x(2)] .
  also have "\<dots> = walk_path e root_dentry dev_dentry ''dev'' [] False nm v" using x by simp
  also have "\<dots> = Some (dev_dentry, nm, v)" by (rule good_last [OF assms(4)])
  finally have "vfs_get_parent_dentry e (''/dev/'' @ nm) 0 v = Some (dev_dentry, nm, v)"
    using x by (simp add: vfs_get_parent_dentry_def)
  then show ?thesis using lookup_known [OF d(1), of nm c] d(2) assms(2-4) dev_names
    by (simp add: vfs_get_dentry_def good_name_def)
qed

lemma find_child_mono:
  "find_child v nm cs = Some c \<Longrightarrow> (\<And>x d. dentries v x = Some d \<Longrightarrow> \<exists>d'. dentries v' x = Some d' \<and> d_name d' = d_name d) \<Longrightarrow>
    find_child v' nm cs = Some c"
  by (induction cs) (fastforce simp: option_steps split: if_split_asm)+

text \<open>A new entry in \<open>/dev\<close>.\<close>

lemma link_dev:
  assumes "fresh_alloc e" and "dev_dir v cs" and "good_name nm" and "inodes v ino = Some i" and "i_op i \<noteq> 0"
    and "op_link (inode_tab e (i_op i)) = None"
  shows "\<exists>a v' d. vfs_link_inode e ino dev_dentry nm v = Some (0, v') \<and> dev_dir v' (a # cs) \<and> a \<noteq> 0 \<and> dentries v a = None \<and>
    dentries v' a = Some d \<and> d_name d = nm \<and> d_inode d = ino \<and> inodes v' = (inodes v)(ino \<mapsto> i\<lparr>i_nlinks := i_nlinks i + 1\<rparr>) \<and>
    (\<forall>x. x \<noteq> a \<longrightarrow> x \<noteq> dev_dentry \<longrightarrow> dentries v' x = dentries v x)"
proof -
  obtain r d where r: "dentries v root_dentry = Some r" "find_child v ''dev'' (d_subdirs r) = Some dev_dentry"
    and d: "dentries v dev_dentry = Some d" "d_subdirs d = cs" "d_inode d \<noteq> 0"
    and f: "finite (dom (dentries v))" "finite (dom (inodes v))" using assms(2) by (auto simp: dev_dir_def)
  define i' where "i' = i\<lparr>i_nlinks := i_nlinks i + 1\<rparr>"
  define v1 where "v1 = v\<lparr>inodes := (inodes v)(ino \<mapsto> i')\<rparr>"
  define a where "a = kalloc e v1"
  have a: "a \<noteq> 0" "dentries v a = None" using fresh_allocD [OF assms(1), of v1] f by (auto simp: v1_def a_def)
  then have ad: "a \<noteq> dev_dentry" using d(1) by auto
  define n where "n = new_dentry dev_dentry nm ino (if i_type i' = inode_dir then D_TYPE_DIR else D_TYPE_FILE)"
  define v' where "v' = v1\<lparr>dentries := (dentries v)(a \<mapsto> n, dev_dentry \<mapsto> d\<lparr>d_subdirs := a # cs\<rparr>)\<rparr>"
  have l: "vfs_link_inode e ino dev_dentry nm v = Some (0, v')"
    using d assms(3-6) a ad
    by (simp add: vfs_link_inode_def upd_inode_def i'_def [symmetric] v1_def [symmetric] a_def [symmetric] good_name_def)
      (simp add: add_subdir_def upd_dentry_def v'_def v1_def n_def fun_upd_twist)
  have "dentries v' root_dentry = Some r" using r a dev_names by (auto simp: v'_def)
  moreover have "find_child v' ''dev'' (d_subdirs r) = Some dev_dentry"
    by (rule find_child_mono [OF r(2)]) (use a ad d in \<open>auto simp: v'_def\<close>)
  ultimately have "dev_dir v' (a # cs)" using f d by (auto simp: dev_dir_def v'_def v1_def)
  then show ?thesis using l a ad by (intro exI [of _ a] exI [of _ v'] exI [of _ n]) (simp add: v'_def v1_def n_def new_dentry_def i'_def)
qed

text \<open>A device file that has been made stays there when another one is.\<close>

definition raw_inode :: "disk_statics \<Rightarrow> inode" where
  "raw_inode st = new_inode\<lparr>i_f_op := disk_file_ops st, i_op := disk_inode_ops st, i_dev := (DEV_VIRTIO_DISK, 1), i_fs_data := disk_rw_lba st\<rparr>"

lemma good_raw: "good_name ''raw_vda''" "good_name ''vda''"
  by (simp_all add: good_name_def D_NAME_LEN_def)

lemma dev_dir_inode: "dev_dir v cs \<Longrightarrow> dev_dir (v\<lparr>inodes := (inodes v)(a \<mapsto> i)\<rparr>) cs"
proof -
  have "find_child (v\<lparr>inodes := I\<rparr>) nm xs = find_child v nm xs" for I nm xs
  proof (induction xs)
    case (Cons x xs)
    then show ?case by (cases "dentries v x") auto
  qed simp
  then show "dev_dir v cs \<Longrightarrow> dev_dir (v\<lparr>inodes := (inodes v)(a \<mapsto> i)\<rparr>) cs" by (auto simp: dev_dir_def)
qed

lemma link_raw_disk_ok:
  assumes "fresh_alloc e" and "dev_dir v cs" and "disk_inode_ops st \<noteq> 0" and "op_link (inode_tab e (disk_inode_ops st)) = None"
  shows "\<exists>a d v'. link_raw_disk e st v = Some v' \<and> dev_dir v' (a # cs) \<and> a \<noteq> 0 \<and> dentries v a = None \<and>
    dentries v' a = Some d \<and> d_name d = ''raw_vda'' \<and> inodes v' (d_inode d) = Some ((raw_inode st)\<lparr>i_nlinks := 1\<rparr>) \<and>
    (\<forall>x. x \<noteq> a \<longrightarrow> x \<noteq> dev_dentry \<longrightarrow> dentries v' x = dentries v x)"
proof -
  define ino where "ino = kalloc e v"
  have ino: "ino \<noteq> 0" using fresh_allocD [OF assms(1), of v] assms(2) by (auto simp: ino_def dev_dir_def)
  define v1 where "v1 = v\<lparr>inodes := (inodes v)(ino \<mapsto> raw_inode st)\<rparr>"
  have v1: "dev_dir v1 cs" using dev_dir_inode [OF assms(2)] by (simp add: v1_def)
  obtain a v' d where l: "vfs_link_inode e ino dev_dentry ''raw_vda'' v1 = Some (0, v')" "dev_dir v' (a # cs)" "a \<noteq> 0" "dentries v1 a = None"
    "dentries v' a = Some d" "d_name d = ''raw_vda''" "d_inode d = ino"
    "inodes v' = (inodes v1)(ino \<mapsto> (raw_inode st)\<lparr>i_nlinks := i_nlinks (raw_inode st) + 1\<rparr>)"
    "\<forall>x. x \<noteq> a \<longrightarrow> x \<noteq> dev_dentry \<longrightarrow> dentries v' x = dentries v1 x"
    using link_dev [OF assms(1) v1 good_raw(1), of ino "raw_inode st"] assms(3,4) by (auto simp: v1_def raw_inode_def)
  have "link_raw_disk e st v = Some v'"
    using ino l(1) get_dev [OF v1, of e]
    by (simp add: link_raw_disk_def vfs_alloc_inode_def ino_def [symmetric] upd_inode_def raw_inode_def [symmetric] v1_def [symmetric])
  then show ?thesis using l by (intro exI [of _ a] exI [of _ d] exI [of _ v']) (auto simp: v1_def raw_inode_def new_inode_def)
qed

subsection \<open>The registers\<close>

text \<open>A device by its answers: what a register reads as after a sequence of writes.\<close>

definition recorder :: "((u64 \<times> u32) list \<Rightarrow> u64 \<Rightarrow> u32) \<Rightarrow> (u64 \<times> u32) list mmio" where
  "recorder ans = \<lparr>io_read = (\<lambda>log a. (ans log a, log)), io_write = (\<lambda>log a v. log @ [(a, v)])\<rparr>"

lemma recorder_simps [simp]: "io_read (recorder ans) log a = (ans log a, log)" "io_write (recorder ans) log a v = log @ [(a, v)]"
  by (simp_all add: recorder_def)

text \<open>The registers of the interrupt controller that one interrupt concerns.\<close>

definition plic_registers :: "bool \<Rightarrow> nat \<Rightarrow> u64 set" where
  "plic_registers soft irq = insert (PLIC_VA + of_nat irq * 4)
     ((\<lambda>h. PLIC_INT_ENABLE_ADDR_FOR (plic_context soft h) (of_nat irq)) ` {..<HART_COUNT})"

lemma plic_register_log:
  "\<exists>ws. plic_register_irq (recorder ans) soft irq log = log @ ws \<and> fst ` set ws = plic_registers soft irq"
  by (auto simp: plic_register_irq_def PLIC_ENABLE_INT_FOR_def Let_def HART_COUNT_def plic_registers_def eval_nat_numeral lessThan_Suc)

lemma driver_features_off:
  "driver_features f AND NOT f = 0" "driver_features f AND VIRTIO_BLK_F_RO = 0" "driver_features f AND VIRTIO_RING_F_INDIRECT_DESC = 0"
  "driver_features f AND VIRTIO_RING_F_EVENT_IDX = 0" "driver_features f AND VIRTIO_BLK_F_MQ = 0"
  by (rule bit_word_eqI; auto simp: driver_features_def bit_simps)+

lemma frame_number:
  assumes "ring mod 4096 = 0" and "ring < 2 ^ 44"
  shows "unat (ucast (drop_bit 12 (of_nat ring :: u64)) :: u32) * 4096 = ring"
proof -
  have "unat (of_nat ring :: u64) = ring" using assms(2) by (simp add: unat_of_nat take_bit_nat_eq_self)
  then have "unat (drop_bit 12 (of_nat ring :: u64)) = ring div 4096" by (simp add: drop_bit_eq_div unat_div)
  then have "unat (ucast (drop_bit 12 (of_nat ring :: u64)) :: u32) = ring div 4096"
    using assms(2) by (simp add: unsigned_ucast_eq unsigned_take_bit_eq take_bit_nat_eq_self)
  then show ?thesis using assms(1) by (simp add: mod_eq_0_iff_dvd)
qed

lemma negotiate_log:
  "\<exists>a f b. negotiate (recorder ans) ioaddr log = (ans (log @ [(ioaddr + VIRTIO_MMIO_STATUS, a OR 3), (ioaddr + VIRTIO_MMIO_DRIVER_FEATURES, driver_features f),
       (ioaddr + VIRTIO_MMIO_STATUS, b OR 8), (ioaddr + VIRTIO_MMIO_GUEST_PAGE_SIZE, 4096), (ioaddr + VIRTIO_MMIO_QUEUE_SEL, 0)])
       (ioaddr + VIRTIO_MMIO_QUEUE_NUM_MAX),
     log @ [(ioaddr + VIRTIO_MMIO_STATUS, a OR 3), (ioaddr + VIRTIO_MMIO_DRIVER_FEATURES, driver_features f),
       (ioaddr + VIRTIO_MMIO_STATUS, b OR 8), (ioaddr + VIRTIO_MMIO_GUEST_PAGE_SIZE, 4096), (ioaddr + VIRTIO_MMIO_QUEUE_SEL, 0)]) \<and>
     f = ans (log @ [(ioaddr + VIRTIO_MMIO_STATUS, a OR 3)]) (ioaddr + VIRTIO_MMIO_DEVICE_FEATURES)"
  by (auto simp: negotiate_def or_status_def Let_def VIRTIO_CONFIG_S_ACKNOWLEDGE_def VIRTIO_CONFIG_S_DRIVER_def VIRTIO_CONFIG_S_FEATURES_OK_def)

text \<open>What the device is told, with its answers \<open>a\<close>, \<open>b\<close>, \<open>c\<close> to the reads of the status, \<open>f\<close> the
  features it offers, \<open>n\<close> the frame number and \<open>ws\<close> the writes to the interrupt controller.\<close>

definition setup_log :: "u64 \<Rightarrow> u32 \<Rightarrow> u32 \<Rightarrow> u32 \<Rightarrow> u32 \<Rightarrow> u32 \<Rightarrow> (u64 \<times> u32) list \<Rightarrow> (u64 \<times> u32) list" where
  "setup_log ioaddr a f b n c ws =
     [(ioaddr + VIRTIO_MMIO_STATUS, a OR 3), (ioaddr + VIRTIO_MMIO_DRIVER_FEATURES, driver_features f),
      (ioaddr + VIRTIO_MMIO_STATUS, b OR 8), (ioaddr + VIRTIO_MMIO_GUEST_PAGE_SIZE, 4096), (ioaddr + VIRTIO_MMIO_QUEUE_SEL, 0),
      (ioaddr + VIRTIO_MMIO_QUEUE_NUM, 8), (ioaddr + VIRTIO_MMIO_QUEUE_PFN, n)] @ ws @ [(ioaddr + VIRTIO_MMIO_STATUS, c OR 4)]"

lemma setup_steps:
  assumes "\<not> initialized (su_disk s)" and "\<forall>log. 8 \<le> ans log (ioaddr + VIRTIO_MMIO_QUEUE_NUM_MAX)"
    and "page_alloc h (su_mi s) 2 PAGE_TYPE_HARDWARE = Some (ring, m)" and "ring \<noteq> 0"
    and "interrupt_try_reg irq (disk_irq_handler st) (su_irqs s) = Some (0, irqs)"
    and "link_raw_disk e st (su_vfs s) = Some v"
  shows "\<exists>a f b c ws. virtio_disk_setup (recorder ans) soft h e st ioaddr irq irq_parent s =
      Some (s\<lparr>su_disk := fresh_disk ioaddr, su_mi := m, su_irqs := irqs, su_vfs := v,
        su_io := su_io s @ setup_log ioaddr a f b (ucast (drop_bit 12 (of_nat ring :: u64))) c ws\<rparr>) \<and>
    f = ans (su_io s @ [(ioaddr + VIRTIO_MMIO_STATUS, a OR 3)]) (ioaddr + VIRTIO_MMIO_DEVICE_FEATURES) \<and>
    fst ` set ws = plic_registers soft (nat irq)"
proof -
  obtain a f b where n: "negotiate (recorder ans) ioaddr (su_io s) = (ans (su_io s @ [(ioaddr + VIRTIO_MMIO_STATUS, a OR 3), (ioaddr + VIRTIO_MMIO_DRIVER_FEATURES, driver_features f),
       (ioaddr + VIRTIO_MMIO_STATUS, b OR 8), (ioaddr + VIRTIO_MMIO_GUEST_PAGE_SIZE, 4096), (ioaddr + VIRTIO_MMIO_QUEUE_SEL, 0)])
       (ioaddr + VIRTIO_MMIO_QUEUE_NUM_MAX),
     su_io s @ [(ioaddr + VIRTIO_MMIO_STATUS, a OR 3), (ioaddr + VIRTIO_MMIO_DRIVER_FEATURES, driver_features f),
       (ioaddr + VIRTIO_MMIO_STATUS, b OR 8), (ioaddr + VIRTIO_MMIO_GUEST_PAGE_SIZE, 4096), (ioaddr + VIRTIO_MMIO_QUEUE_SEL, 0)])"
    "f = ans (su_io s @ [(ioaddr + VIRTIO_MMIO_STATUS, a OR 3)]) (ioaddr + VIRTIO_MMIO_DEVICE_FEATURES)"
    using negotiate_log by blast
  have q: "\<not> (ans log (ioaddr + VIRTIO_MMIO_QUEUE_NUM_MAX) = 0 \<or> ans log (ioaddr + VIRTIO_MMIO_QUEUE_NUM_MAX) < of_nat VIRTIO_MMIO_QUEUE_NUM_VALUE)" for log
    using assms(2) [rule_format, of log] by (auto simp: VIRTIO_MMIO_QUEUE_NUM_VALUE_def word_le_nat_alt word_less_nat_alt)
  have rs: "io_ring_size div 4096 = 2" by code_simp
  let ?log = "su_io s @ [(ioaddr + VIRTIO_MMIO_STATUS, a OR 3), (ioaddr + VIRTIO_MMIO_DRIVER_FEATURES, driver_features f),
       (ioaddr + VIRTIO_MMIO_STATUS, b OR 8), (ioaddr + VIRTIO_MMIO_GUEST_PAGE_SIZE, 4096), (ioaddr + VIRTIO_MMIO_QUEUE_SEL, 0),
       (ioaddr + VIRTIO_MMIO_QUEUE_NUM, 8), (ioaddr + VIRTIO_MMIO_QUEUE_PFN, ucast (drop_bit 12 (of_nat ring :: u64)))]"
  obtain ws where ws: "plic_register_irq (recorder ans) soft (nat irq) ?log = ?log @ ws" "fst ` set ws = plic_registers soft (nat irq)"
    using plic_register_log by blast
  have "virtio_disk_setup (recorder ans) soft h e st ioaddr irq irq_parent s =
      Some (s\<lparr>su_disk := fresh_disk ioaddr, su_mi := m, su_irqs := irqs, su_vfs := v,
        su_io := su_io s @ setup_log ioaddr a f b (ucast (drop_bit 12 (of_nat ring :: u64))) (ans (?log @ ws) (ioaddr + VIRTIO_MMIO_STATUS)) ws\<rparr>)"
    using assms(1,3-6) ws(1) q n(1)
    by (simp add: virtio_disk_setup_def rs Let_def lock_acquire_def lock_release_def spinlock_holding_def or_status_def fresh_disk_def
        setup_log_def VIRTIO_CONFIG_S_DRIVER_OK_def VIRTIO_MMIO_QUEUE_NUM_VALUE_def)
  then show ?thesis using n(2) ws(2) by blast
qed

subsection \<open>The device files of the block cache\<close>

lemma skip_entries:
  "\<forall>c \<in> set cs. \<exists>d. dentries (bs_vfs b) c = Some d \<and> take 4 (d_name d) \<noteq> ''raw_'' \<Longrightarrow> fold_opt (setup_entry e iops fops par) cs b = Some b"
  by (induction cs) (auto simp: setup_entry_def)

definition plain_entries :: "vfs \<Rightarrow> nat list \<Rightarrow> bool" where
  "plain_entries v cs \<longleftrightarrow> dev_dentry \<notin> set cs \<and> (\<forall>c \<in> set cs. \<exists>d. dentries v c = Some d \<and> take 4 (d_name d) \<noteq> ''raw_'')"

lemma plain_entries_mono:
  "plain_entries v cs \<Longrightarrow> dentries v a = None \<Longrightarrow> \<forall>x. x \<noteq> a \<longrightarrow> x \<noteq> dev_dentry \<longrightarrow> dentries v' x = dentries v x \<Longrightarrow> plain_entries v' cs"
  unfolding plain_entries_def by (metis option.simps(3))

lemma init_buffered_io_ok:
  assumes "fresh_alloc e" and "dev_dir (bs_vfs b) (a # cs)" and "plain_entries (bs_vfs b) cs"
    and "dentries (bs_vfs b) a = Some d" and "d_name d = ''raw_vda''" and "inodes (bs_vfs b) (d_inode d) = Some i"
    and "iops \<noteq> 0" and "op_link (inode_tab e iops) = None"
    and "unat (snd (i_dev i)) < length (dev_rw b)" and "dev_rw b ! unat (snd (i_dev i)) \<in> {0, i_fs_data i}" and "i_fs_data i \<noteq> 0"
  shows "\<exists>b'. init_buffered_io e iops fops b = Some (0, b') \<and> bc_list (bs_cache b') = [] \<and> bc_dev_rw (bs_cache b') (snd (i_dev i)) \<and>
    dev_rw b' = (dev_rw b)[unat (snd (i_dev i)) := i_fs_data i] \<and>
    device_file e (bs_vfs b') ''vda'' (DEV_BUFFERED_IO, snd (i_dev i)) fops (i_fs_data i)"
proof -
  define b0 where "b0 = b\<lparr>bs_cache := bio_cache_init (bc_dev_rw (bs_cache b))\<rparr>"
  have v: "bs_vfs b0 = bs_vfs b" "dev_rw b0 = dev_rw b" by (simp_all add: b0_def)
  have b0: "b0\<lparr>bs_vfs := bs_vfs b\<rparr> = b0" by (simp add: b0_def)
  define ino where "ino = kalloc e (bs_vfs b)"
  have ino: "ino \<noteq> 0" using fresh_allocD [OF assms(1), of "bs_vfs b"] assms(2) by (auto simp: ino_def dev_dir_def)
  define k where "k = new_inode\<lparr>i_f_op := fops, i_op := iops, i_fs_data := i_fs_data i, i_dev := (DEV_BUFFERED_IO, snd (i_dev i))\<rparr>"
  define v1 where "v1 = (bs_vfs b)\<lparr>inodes := (inodes (bs_vfs b))(ino \<mapsto> k)\<rparr>"
  have v1: "dev_dir v1 (a # cs)" using dev_dir_inode [OF assms(2)] by (simp add: v1_def)
  obtain c v' n where l: "vfs_link_inode e ino dev_dentry ''vda'' v1 = Some (0, v')" "dev_dir v' (c # a # cs)" "c \<noteq> 0" "dentries v1 c = None"
    "dentries v' c = Some n" "d_name n = ''vda''" "d_inode n = ino" "inodes v' = (inodes v1)(ino \<mapsto> k\<lparr>i_nlinks := i_nlinks k + 1\<rparr>)"
    "\<forall>x. x \<noteq> c \<longrightarrow> x \<noteq> dev_dentry \<longrightarrow> dentries v' x = dentries v1 x"
    using link_dev [OF assms(1) v1 good_raw(2), of ino k] assms(7,8) by (auto simp: v1_def k_def)
  define b' where "b' = \<lparr>bs_cache = (bs_cache b0)\<lparr>bc_dev_rw := (bc_dev_rw (bs_cache b0))(snd (i_dev i) := True)\<rparr>,
    dev_rw = (dev_rw b)[unat (snd (i_dev i)) := i_fs_data i], bs_vfs = v'\<rparr>"
  have "setup_entry e iops fops dev_dentry a b0 = Some b'"
    using assms(4-6,9-11) ino l(1) v
    by (simp add: setup_entry_def setup_buffered_io_for_def vfs_alloc_inode_def ino_def [symmetric] upd_inode_def Let_def k_def [symmetric]
        v1_def [symmetric] b'_def)
  moreover have "fold_opt (setup_entry e iops fops dev_dentry) cs b' = Some b'"
    by (rule skip_entries) (use plain_entries_mono [of "bs_vfs b" cs c v'] assms(3) l(4,9) in \<open>auto simp: plain_entries_def v1_def b'_def\<close>)
  moreover have "\<exists>dd. dentries (bs_vfs b) dev_dentry = Some dd \<and> d_subdirs dd = a # cs" using assms(2) by (auto simp: dev_dir_def)
  ultimately have "init_buffered_io e iops fops b = Some (0, b')"
    using get_dev [OF assms(2), of e] dev_names v
    by (auto simp: init_buffered_io_def b0_def [symmetric] b0)
  moreover have "vfs_get_dentry e (''/dev/'' @ ''vda'') 0 v' = Some (c, v')"
    by (rule get_device [OF l(2) _ l(3) good_raw(2)]) (use l(5,6) in simp)
  ultimately show ?thesis
    using l(5-8) by (auto simp: b'_def b0_def bio_cache_init_def device_file_def k_def new_inode_def)
qed

subsection \<open>Properties\<close>

text \<open>C19: \<open>virtio_disk_setup\<close> brings the device up as its protocol asks.  Against a device that answers
  reads in any way after the writes it has seen, as long as its queue is large enough, the writes are,
  in this order: acknowledge and driver bits, a subset of the offered features without read-only mode
  and indirect descriptors, the features bit, page size, queue number and length, and the frame number
  of the ring, from which the device computes exactly its address; then the interrupt controller's
  registers, and only then the bit that starts the device.  The driver is left in the state from which
  the transfers are proved correct, the handler is registered and \<open>/dev/raw_vda\<close> can be opened.\<close>

theorem virtio_disk_setup_correct:
  assumes "\<not> initialized (su_disk s)" and "\<forall>log. 8 \<le> ans log (ioaddr + VIRTIO_MMIO_QUEUE_NUM_MAX)"
    and "page_alloc h (su_mi s) 2 PAGE_TYPE_HARDWARE = Some (ring, m)" and "ring \<noteq> 0" and "ring mod 4096 = 0" and "ring < 2 ^ 44"
    and "interrupt_try_reg irq (disk_irq_handler st) (su_irqs s) = Some (0, irqs)"
    and "fresh_alloc e" and "dev_dir (su_vfs s) cs" and "disk_inode_ops st \<noteq> 0" and "op_link (inode_tab e (disk_inode_ops st)) = None"
  shows "\<exists>s' a f b n c ws. virtio_disk_setup (recorder ans) soft h e st ioaddr irq irq_parent s = Some s' \<and>
    su_io s' = su_io s @ setup_log ioaddr a f b n c ws \<and>
    f = ans (su_io s @ [(ioaddr + VIRTIO_MMIO_STATUS, a OR 3)]) (ioaddr + VIRTIO_MMIO_DEVICE_FEATURES) \<and>
    driver_features f AND NOT f = 0 \<and> driver_features f AND VIRTIO_BLK_F_RO = 0 \<and> driver_features f AND VIRTIO_RING_F_INDIRECT_DESC = 0 \<and>
    unat n * 4096 = ring \<and> fst ` set ws = plic_registers soft (nat irq) \<and>
    su_disk s' = fresh_disk ioaddr \<and> su_irqs s' = irqs \<and>
    device_file e (su_vfs s') ''raw_vda'' (DEV_VIRTIO_DISK, 1) (disk_file_ops st) (disk_rw_lba st)"
proof -
  obtain x d v where v: "link_raw_disk e st (su_vfs s) = Some v" "dev_dir v (x # cs)" "x \<noteq> 0" "dentries v x = Some d" "d_name d = ''raw_vda''"
    "inodes v (d_inode d) = Some ((raw_inode st)\<lparr>i_nlinks := 1\<rparr>)" using link_raw_disk_ok [OF assms(8-11)] by blast
  have "vfs_get_dentry e (''/dev/'' @ ''raw_vda'') 0 v = Some (x, v)"
    by (rule get_device [OF v(2) _ v(3) good_raw(1)]) (use v(4,5) in simp)
  then have "device_file e v ''raw_vda'' (DEV_VIRTIO_DISK, 1) (disk_file_ops st) (disk_rw_lba st)"
    using v(4-6) by (auto simp: device_file_def raw_inode_def)
  then show ?thesis
    using setup_steps [where s = s and ans = ans and ioaddr = ioaddr and soft = soft and irq_parent = irq_parent, OF assms(1-4,7) v(1)] frame_number [OF assms(5,6)] driver_features_off
    by fastforce
qed

text \<open>C20: the disk becomes a file.  After \<open>virtio_disk_setup\<close> and \<open>init_buffered_io\<close>, which scans
  \<open>/dev\<close> for raw devices while it adds entries there, \<open>/dev/vda\<close> names the cached device, with the
  number of the raw one and its transfer function, the cache is empty and has that function in its
  table.\<close>

theorem disk_comes_up:
  assumes "link_raw_disk e st v = Some v'" and "fresh_alloc e" and "dev_dir v cs" and "plain_entries v cs"
    and "disk_inode_ops st \<noteq> 0" and "op_link (inode_tab e (disk_inode_ops st)) = None" and "disk_rw_lba st \<noteq> 0"
    and "iops \<noteq> 0" and "op_link (inode_tab e iops) = None" and "1 < length (dev_rw b)" and "dev_rw b ! 1 = 0" and "bs_vfs b = v'"
  shows "\<exists>b'. init_buffered_io e iops fops b = Some (0, b') \<and> bc_list (bs_cache b') = [] \<and> bc_dev_rw (bs_cache b') 1 \<and>
    dev_rw b' ! 1 = disk_rw_lba st \<and> device_file e (bs_vfs b') ''vda'' (DEV_BUFFERED_IO, 1) fops (disk_rw_lba st)"
proof -
  obtain x d where v: "dev_dir v' (x # cs)" "dentries v x = None" "dentries v' x = Some d" "d_name d = ''raw_vda''"
    "inodes v' (d_inode d) = Some ((raw_inode st)\<lparr>i_nlinks := 1\<rparr>)" "\<forall>y. y \<noteq> x \<longrightarrow> y \<noteq> dev_dentry \<longrightarrow> dentries v' y = dentries v y"
    using link_raw_disk_ok [OF assms(2,3,5,6)] assms(1) by auto
  have p: "plain_entries v' cs" by (rule plain_entries_mono [OF assms(4) v(2,6)])
  show ?thesis
    using init_buffered_io_ok [OF assms(2), of b x cs d "(raw_inode st)\<lparr>i_nlinks := 1\<rparr>" iops fops] v(1,3-5) p assms(7-12)
    by (auto simp: raw_inode_def)
qed

definition two_pages :: memory_info where
  "two_pages = \<lparr>memory_start = 4096, memory_end = 20480, usable_memory_start = 4096, usable_memory_end = 20480, page_count = 3,
     buddy_table = replicate 9 0, buddy_map = [0, 1, 2, 3, 4, 5, 6, 7, 8], pages_info = replicate 3 \<lparr>pg_type = 0, reference = 0\<rparr>,
     free_list = [0, 4096, 0, 0, 0, 0, 0, 0, 0], free_count = [0, 1, 0, 0, 0, 0, 0, 0, 0], blocks = (\<lambda>_. \<lparr>b_prev = 0, b_next = 0\<rparr>),
     mem_lock = \<lparr>sl_lock = False, sl_cpu = 0\<rparr>\<rparr>"

lemma two_pages_alloc: "\<exists>m. page_alloc 0 two_pages 2 PAGE_TYPE_HARDWARE = Some (4096, m)"
proof -
  have o: "trailing_zero (round_up_power_2 2) = 1" by code_simp
  have u: "upd_pages f m page 2 = do { m \<leftarrow> upd_page f m page; upd_page f m (page + PG_SIZE) }" for f m page
    by (simp add: numeral_2_eq_2)
  show ?thesis
    by (simp add: page_alloc_def o allocate_pages_of_power_2.simps two_pages_def lock_acquire_def lock_release_def spinlock_holding_def MAX_BUDDY_ORDER_def
      add_free_count_def aget_def aset_def remove_from_free_list_def block_in_range_def xor_buddy_map_def xor_bit_def check_bit_def BITS_PER_BITSET_def
      PG_SIZE_def upd_page_def GET_ID_BY_PAGE_def drop_bit_eq_div u)
qed

text \<open>The file system after \<open>init_vfs\<close>, an allocator of new addresses, and a disk waiting to be set up.\<close>

definition setup_env :: vfs_env where
  "setup_env = \<lparr>inode_tab = (\<lambda>_. \<lparr>op_lookup = None, op_link = None, op_mkdir = None, op_read_dir = None\<rparr>),
     file_tab = (\<lambda>_. \<lparr>op_read = None, op_write = None, op_open = None, op_close = None\<rparr>),
     sb_tab = (\<lambda>_. \<lparr>op_alloc_inode = None, op_write_inode = None\<rparr>), fs_tab = (\<lambda>_. \<lparr>op_init_fs = None, op_mount = None\<rparr>),
     kalloc = (\<lambda>v. Suc (Max (insert 0 (dom (dentries v) \<union> dom (inodes v))))), junk = []\<rparr>"

lemma setup_env_fresh: "fresh_alloc setup_env"
proof -
  have "Suc (Max (insert 0 A)) \<notin> A" if "finite A" for A :: "nat set"
    using Max_ge [of "insert 0 A" "Suc (Max (insert 0 A))"] that by (metis finite_insert insertCI not_less_eq_eq order_refl)
  then have "Suc (Max (insert 0 (dom f \<union> dom g))) \<notin> dom f \<union> dom g" if "finite (dom f)" "finite (dom g)"
    for f :: "nat \<Rightarrow> dentry option" and g :: "nat \<Rightarrow> inode option" using that finite_Un by blast
  then show ?thesis by (auto simp: fresh_alloc_def setup_env_def)
qed

lemma setup_vfs: "\<exists>v. init_vfs setup_env [] static_vfs = Some v \<and> dev_dir v []"
  by (simp add: init_vfs_def add_subdir_def upd_dentry_def static_vfs_def root_dentry_def dev_dentry_def sys_dentry_def dev_dir_def
      static_dentry_def)

definition disk_at :: disk_statics where
  "disk_at = \<lparr>disk_irq_handler = 11, disk_inode_ops = 12, disk_file_ops = 13, disk_rw_lba = 14\<rparr>"

definition before_setup :: "vfs \<Rightarrow> (u64 \<times> u32) list setup_state" where
  "before_setup v = \<lparr>su_disk = (fresh_disk 0)\<lparr>initialized := False\<rparr>, su_io = [], su_mi = two_pages, su_ph = (\<lambda>_. 0), su_sysmaps = [],
     su_irqs = replicate 64 None, su_vfs = v\<rparr>"

theorem virtio_disk_setup_correct_witness:
  "\<exists>v s'. init_vfs setup_env [] static_vfs = Some v \<and>
     virtio_disk_setup (recorder (\<lambda>log a. 8)) False 0 setup_env disk_at 0xC0001000 1 0 (before_setup v) = Some s' \<and>
     su_disk s' = fresh_disk 0xC0001000 \<and> device_file setup_env (su_vfs s') ''raw_vda'' (DEV_VIRTIO_DISK, 1) 13 14"
proof -
  obtain v where v: "init_vfs setup_env [] static_vfs = Some v" "dev_dir v []" using setup_vfs by blast
  obtain m where m: "page_alloc 0 (su_mi (before_setup v)) 2 PAGE_TYPE_HARDWARE = Some (4096, m)"
    using two_pages_alloc by (auto simp: before_setup_def)
  have i: "interrupt_try_reg 1 (disk_irq_handler disk_at) (su_irqs (before_setup v)) = Some (0, (replicate 64 None)[1 := Some 11])"
    by (simp add: interrupt_try_reg_def MAX_INTERRUPT_def before_setup_def disk_at_def)
  have n: "\<not> initialized (su_disk (before_setup v))" "dev_dir (su_vfs (before_setup v)) []" "disk_inode_ops disk_at \<noteq> 0"
    "op_link (inode_tab setup_env (disk_inode_ops disk_at)) = None" using v(2)
    by (simp_all add: before_setup_def disk_at_def setup_env_def)
  have "\<exists>s'. virtio_disk_setup (recorder (\<lambda>log a. 8)) False 0 setup_env disk_at 0xC0001000 1 0 (before_setup v) = Some s' \<and>
     su_disk s' = fresh_disk 0xC0001000 \<and>
     device_file setup_env (su_vfs s') ''raw_vda'' (DEV_VIRTIO_DISK, 1) (disk_file_ops disk_at) (disk_rw_lba disk_at)"
    using virtio_disk_setup_correct [where ans = "\<lambda>log a. 8" and ioaddr = "0xC0001000" and soft = False and irq_parent = 0, OF n(1) _ m _ _ _ i setup_env_fresh n(2-4)]
    by auto
  then show ?thesis using v(1) by (auto simp: disk_at_def)
qed

theorem disk_comes_up_witness:
  "\<exists>v v' b'. init_vfs setup_env [] static_vfs = Some v \<and> link_raw_disk setup_env disk_at v = Some v' \<and>
     init_buffered_io setup_env 21 22 \<lparr>bs_cache = bio_cache_init (\<lambda>_. False), dev_rw = replicate 32 0, bs_vfs = v'\<rparr> = Some (0, b') \<and>
     device_file setup_env (bs_vfs b') ''vda'' (DEV_BUFFERED_IO, 1) 22 14"
proof -
  obtain v where v: "init_vfs setup_env [] static_vfs = Some v" "dev_dir v []" using setup_vfs by blast
  have n: "disk_inode_ops disk_at \<noteq> 0" "op_link (inode_tab setup_env k) = None" "disk_rw_lba disk_at \<noteq> 0" for k
    by (simp_all add: disk_at_def setup_env_def)
  obtain v' where v': "link_raw_disk setup_env disk_at v = Some v'" using link_raw_disk_ok [OF setup_env_fresh v(2) n(1,2)] by blast
  have "plain_entries v []" by (simp add: plain_entries_def)
  from disk_comes_up [where iops = 21 and fops = 22 and b = "\<lparr>bs_cache = bio_cache_init (\<lambda>_. False), dev_rw = replicate 32 0, bs_vfs = v'\<rparr>",
      OF v' setup_env_fresh v(2) this n(1) n(2) n(3) _ n(2)]
  obtain b' where "init_buffered_io setup_env 21 22 \<lparr>bs_cache = bio_cache_init (\<lambda>_. False), dev_rw = replicate 32 0, bs_vfs = v'\<rparr> = Some (0, b')"
    "device_file setup_env (bs_vfs b') ''vda'' (DEV_BUFFERED_IO, 1) 22 14" by (auto simp: disk_at_def)
  then show ?thesis using v(1) v' by blast
qed

end
